(* ===== verification/Prelude.thy ===== *)
theory Prelude
  imports Main "HOL-Library.Word"
begin

text \<open>
  Shared vocabulary of the development: the panics of the Rust code as values, the result
  type \<open>panic + 'a\<close> with its sequencing operator \<open>rbind\<close>, a weakest-precondition
  operator \<open>wp\<close> that states total correctness (the computation returns, and its result
  satisfies the postcondition), the Rust integer operations the sources use, and the list
  lemmas about circular indices that the ring-shaped components share.
\<close>

named_theorems wp_rules \<open>specifications of operations as weakest preconditions\<close>
named_theorems inv_defs \<open>definitions of representation invariants\<close>

section \<open>Panics and results\<close>

text \<open>
  Every way the code can fail to return normally is one constructor. \<open>UninitRead\<close> is the
  undefined behaviour of reading a \<open>MaybeUninit\<close> slot that holds no value, \<open>NoReturn\<close> a loop that
  spins forever; the other constructors are Rust panics.
\<close>

datatype panic =
    Assertion string
  | OutOfBounds
  | UninitRead
  | Overflow string
  | NoReturn

type_synonym 'a res = "panic + 'a"

definition rbind :: "'a res \<Rightarrow> ('a \<Rightarrow> 'b res) \<Rightarrow> 'b res" where
  "rbind m f = (case m of Inl e \<Rightarrow> Inl e | Inr x \<Rightarrow> f x)"

definition wp :: "'a res \<Rightarrow> ('a \<Rightarrow> bool) \<Rightarrow> bool" where
  "wp m Q = (case m of Inl e \<Rightarrow> False | Inr x \<Rightarrow> Q x)"

definition rassert :: "bool \<Rightarrow> panic \<Rightarrow> unit res" where
  "rassert b e = (if b then Inr () else Inl e)"

lemma rbind_simps [simp]:
  "rbind (Inl e) f = Inl e"
  "rbind (Inr x) f = f x"
  by (simp_all add: rbind_def)

lemma wp_simps [simp]:
  "wp (Inr x) Q = Q x"
  "wp (Inl e) Q = False"
  by (simp_all add: wp_def)

lemma wp_rbind [simp]: "wp (rbind m f) Q = wp m (\<lambda>x. wp (f x) Q)"
  by (cases m) simp_all

lemma wp_rassert [simp]: "wp (rassert b e) Q = (b \<and> Q ())"
  by (simp add: rassert_def)

lemma rassert_simps [simp]:
  "rassert True e = Inr ()"
  "rassert False e = Inl e"
  by (simp_all add: rassert_def)

lemma wp_mono: "wp m P \<Longrightarrow> (\<And>x. P x \<Longrightarrow> Q x) \<Longrightarrow> wp m Q"
  by (cases m) simp_all

lemma wp_conj: "wp m P \<Longrightarrow> wp m Q \<Longrightarrow> wp m (\<lambda>x. P x \<and> Q x)"
  by (cases m) simp_all

lemma wp_rbindI: "wp m P \<Longrightarrow> (\<And>x. P x \<Longrightarrow> wp (f x) Q) \<Longrightarrow> wp (rbind m f) Q"
  by (cases m) simp_all

lemma wp_ex: "wp m Q = (\<exists>x. m = Inr x \<and> Q x)"
  by (cases m) auto

lemma wpE: "wp m Q \<Longrightarrow> (\<And>x. m = Inr x \<Longrightarrow> Q x \<Longrightarrow> R) \<Longrightarrow> R"
  by (auto simp: wp_ex)

lemma rbind_assoc: "rbind (rbind m f) g = rbind m (\<lambda>x. rbind (f x) g)"
  by (cases m) simp_all

lemma rbind_Inr_iff: "rbind m f = Inr y \<longleftrightarrow> (\<exists>x. m = Inr x \<and> f x = Inr y)"
  by (cases m) auto

lemma rbind_cong [fundef_cong]:
  "m = m' \<Longrightarrow> (\<And>x. m' = Inr x \<Longrightarrow> f x = g x) \<Longrightarrow> rbind m f = rbind m' g"
  by (cases m') auto

section \<open>Rust integers\<close>

type_synonym usize = "64 word"

text \<open>
  \<open>usize\<close> and \<open>u64\<close> values that only count are natural numbers below \<open>usize_bound\<close>,
  with the overflow behaviour of each operation written out.
\<close>

definition usize_bound :: nat where
  "usize_bound = 2 ^ 64"

definition isize_max :: nat where
  "isize_max = 2 ^ 63 - 1"

definition checked_add :: "nat \<Rightarrow> nat \<Rightarrow> nat option" where
  "checked_add a b = (if a + b < usize_bound then Some (a + b) else None)"

definition wrapping_add :: "nat \<Rightarrow> nat \<Rightarrow> nat" where
  "wrapping_add a b = (a + b) mod usize_bound"

text \<open>
  The plain \<open>+\<close> on \<open>usize\<close>: with overflow checks (debug builds) it panics, without
  (release builds) it wraps.
\<close>

definition usize_add :: "bool \<Rightarrow> nat \<Rightarrow> nat \<Rightarrow> nat res" where
  "usize_add checks a b =
     (if a + b < usize_bound then Inr (a + b)
      else if checks then Inl (Overflow ''attempt to add with overflow'')
      else Inr (wrapping_add a b))"

text \<open>The plain \<open>-\<close> on \<open>usize\<close>, with overflow checks.\<close>

definition usize_sub :: "nat \<Rightarrow> nat \<Rightarrow> nat res" where
  "usize_sub a b =
     (if b \<le> a then Inr (a - b) else Inl (Overflow ''attempt to subtract with overflow''))"

lemma wp_usize_sub [simp]: "wp (usize_sub a b) Q = (b \<le> a \<and> Q (a - b))"
  by (simp add: usize_sub_def)

lemma usize_add_ok: "a + b < usize_bound \<Longrightarrow> usize_add checks a b = Inr (a + b)"
  by (simp add: usize_add_def)

lemma usize_bound_pos [simp]: "0 < usize_bound"
  by (simp add: usize_bound_def)

lemma usize_bound_large [simp]: "numeral k < (2::nat) ^ 64 \<Longrightarrow> numeral k < usize_bound"
  by (simp add: usize_bound_def)

lemma one_less_usize_bound [simp]: "Suc 0 < usize_bound"
  by (simp add: usize_bound_def)

lemma wrapping_add_less [simp]: "wrapping_add a b < usize_bound"
  by (simp add: wrapping_add_def)

lemma wrapping_add_small: "a + b < usize_bound \<Longrightarrow> wrapping_add a b = a + b"
  by (simp add: wrapping_add_def)

lemma wrapping_dec: "0 < a \<Longrightarrow> a < usize_bound \<Longrightarrow> wrapping_add a (usize_bound - 1) = a - 1"
proof -
  assume a: "0 < a" "a < usize_bound"
  then have "a + (usize_bound - 1) = (a - 1) + usize_bound" by simp
  then have "wrapping_add a (usize_bound - 1) = (a - 1) mod usize_bound" by (simp only: wrapping_add_def mod_add_self2)
  with a show ?thesis by simp
qed

lemma checked_add_Some_iff:
  "checked_add a b = Some c \<longleftrightarrow> a + b < usize_bound \<and> c = a + b"
  by (auto simp: checked_add_def)

section \<open>Wakers\<close>

text \<open>
  A \<open>std::task::Waker\<close> is identified with the task it wakes; \<open>will_wake\<close> compares
  tasks. Waking is an output of the operations: each returns the wakers it called, in order.
\<close>

type_synonym waker = nat

definition will_wake :: "waker \<Rightarrow> waker \<Rightarrow> bool" where
  "will_wake v w \<longleftrightarrow> v = w"

datatype 'a poll = Ready 'a | Pending

section \<open>Circular indices\<close>

lemma mod_add_eq_iff:
  fixes i j n h :: nat
  assumes "i < n" "j < n"
  shows "(h + i) mod n = (h + j) mod n \<longleftrightarrow> i = j"
proof
  assume eq: "(h + i) mod n = (h + j) mod n"
  from eq have "(int h + int i) mod int n = (int h + int j) mod int n"
    by (metis of_nat_add of_nat_mod)
  then have "int i mod int n = int j mod int n"
    by (metis add_diff_cancel_left' mod_diff_left_eq)
  with assms show "i = j"
    by simp
qed simp

lemma mod_add_wrap: "0 < n \<Longrightarrow> h < n \<Longrightarrow> (Suc h mod n + i) mod n = (h + Suc i) mod (n::nat)"
  by (simp add: mod_add_left_eq)

end
