(* ===== verification/Deque_Spec.thy ===== *)
theory Deque_Spec
  imports Prelude
begin

text \<open>
  The contract of a double-ended queue towards its clients (the waiter lists of the mutex, the
  reader-writer lock and the semaphore): an invariant, an abstraction to a list, and for every
  operation that it returns without a panic and what it does to the list. The extension
  \<open>waiter_deque\<close> adds the key by which a waiter's entry is found again.
\<close>

text \<open>Popping \<open>k\<close> times, stopping at the first empty answer.\<close>

fun pops :: "('q \<Rightarrow> ('a option \<times> 'q) res) \<Rightarrow> nat \<Rightarrow> 'q \<Rightarrow> ('a list \<times> 'q) res" where
  "pops pop 0 q = Inr ([], q)"
| "pops pop (Suc k) q =
     rbind (pop q) (\<lambda>(r, q').
       case r of None \<Rightarrow> Inr ([], q')
       | Some x \<Rightarrow> rbind (pops pop k q') (\<lambda>(xs, q''). Inr (x # xs, q'')))"

fun pushes :: "('a \<Rightarrow> 'q \<Rightarrow> 'q res) \<Rightarrow> 'a list \<Rightarrow> 'q \<Rightarrow> 'q res" where
  "pushes push [] q = Inr q"
| "pushes push (x # xs) q = rbind (push x q) (pushes push xs)"

locale deque =
  fixes invar :: "'q \<Rightarrow> bool"
    and contents :: "'q \<Rightarrow> 'a list"
    and empty :: "'q"
    and pushb :: "'a \<Rightarrow> 'q \<Rightarrow> 'q res"
    and pushf :: "'a \<Rightarrow> 'q \<Rightarrow> 'q res"
    and popf :: "'q \<Rightarrow> ('a option \<times> 'q) res"
    and popb :: "'q \<Rightarrow> ('a option \<times> 'q) res"
    and takew :: "('a \<Rightarrow> bool) \<Rightarrow> 'q \<Rightarrow> ('a list \<times> 'q) res"
  assumes empty_ok: "invar empty \<and> contents empty = []"
    and pushb_ok: "invar q \<Longrightarrow> wp (pushb x q) (\<lambda>q'. invar q' \<and> contents q' = contents q @ [x])"
    and pushf_ok: "invar q \<Longrightarrow> wp (pushf x q) (\<lambda>q'. invar q' \<and> contents q' = x # contents q)"
    and popf_ok: "invar q \<Longrightarrow> wp (popf q) (\<lambda>(r, q'). invar q' \<and>
      (case contents q of [] \<Rightarrow> r = None \<and> q' = q | x # xs \<Rightarrow> r = Some x \<and> contents q' = xs))"
    and popb_ok: "invar q \<Longrightarrow> wp (popb q) (\<lambda>(r, q'). invar q' \<and>
      (if contents q = [] then r = None \<and> q' = q
       else r = Some (last (contents q)) \<and> contents q' = butlast (contents q)))"
    and takew_ok: "invar q \<Longrightarrow> wp (takew p q) (\<lambda>(removed, q'). invar q' \<and>
      removed = filter p (contents q) \<and> contents q' = filter (\<lambda>x. \<not> p x) (contents q))"
begin

lemma pushes_ok:
  "invar q \<Longrightarrow> wp (pushes pushb xs q) (\<lambda>q'. invar q' \<and> contents q' = contents q @ xs)"
proof (induction xs arbitrary: q)
  case Nil
  then show ?case by simp
next
  case (Cons x xs)
  show ?case
    unfolding pushes.simps
    by (rule wp_rbindI [OF pushb_ok [OF Cons.prems]]) (use Cons.IH in fastforce)
qed

lemma pops_ok:
  "invar q \<Longrightarrow> k \<le> length (contents q) \<Longrightarrow>
   wp (pops popf k q) (\<lambda>(xs, q'). invar q' \<and> xs = take k (contents q) \<and>
     contents q' = drop k (contents q))"
proof (induction k arbitrary: q)
  case 0
  then show ?case by simp
next
  case (Suc k)
  from Suc.prems obtain x xs where c: "contents q = x # xs"
    by (cases "contents q") auto
  show ?case
    using popf_ok [OF Suc.prems(1)]
  proof (rule wpE)
    fix p assume p: "popf q = Inr p"
      and "case p of (r, q') \<Rightarrow> invar q' \<and>
        (case contents q of [] \<Rightarrow> r = None \<and> q' = q | x # xs \<Rightarrow> r = Some x \<and> contents q' = xs)"
    with c obtain q' where q': "p = (Some x, q')" "invar q'" "contents q' = xs"
      by (cases p) auto
    have "wp (pops popf k q') (\<lambda>(ys, q''). invar q'' \<and> ys = take k xs \<and> contents q'' = drop k xs)"
      using Suc.IH [of q'] Suc.prems q' c by simp
    then show ?thesis
      using p q' c by (auto elim!: wp_mono)
  qed
qed

text \<open>First in, first out: what was pushed at the back of an empty queue is popped in that order.\<close>

lemma fifo:
  "wp (rbind (pushes pushb xs empty) (pops popf (length xs)))
     (\<lambda>(ys, q). ys = xs \<and> invar q \<and> contents q = [])"
proof -
  have "wp (pushes pushb xs empty) (\<lambda>q. invar q \<and> contents q = xs)"
    using pushes_ok [of empty xs] empty_ok by simp
  then have "wp (pushes pushb xs empty) (\<lambda>q. wp (pops popf (length xs) q)
      (\<lambda>(ys, q'). ys = xs \<and> invar q' \<and> contents q' = []))"
    by (rule wp_mono) (use pops_ok [of _ "length xs"] in \<open>fastforce elim!: wp_mono\<close>)
  then show ?thesis by simp
qed

end

locale waiter_deque = deque invar contents empty pushb pushf popf popb takew
  for invar :: "'q \<Rightarrow> bool" and contents :: "'q \<Rightarrow> 'a list" and empty :: "'q"
    and pushb :: "'a \<Rightarrow> 'q \<Rightarrow> 'q res" and pushf :: "'a \<Rightarrow> 'q \<Rightarrow> 'q res"
    and popf :: "'q \<Rightarrow> ('a option \<times> 'q) res" and popb :: "'q \<Rightarrow> ('a option \<times> 'q) res"
    and takew :: "('a \<Rightarrow> bool) \<Rightarrow> 'q \<Rightarrow> ('a list \<times> 'q) res" +
  fixes key :: "'a \<Rightarrow> nat"
begin

text \<open>
  The two structural updates of the waiter lists: replacing a waiter's entry by a fresh one
  at the back, and removing it.
\<close>

lemma renew:
  assumes "invar q"
  shows "wp (rbind (takew (\<lambda>e. key e = k) q) (\<lambda>(removed, q'). pushb x q'))
    (\<lambda>q'. invar q' \<and> contents q' = filter (\<lambda>e. key e \<noteq> k) (contents q) @ [x])"
  by (rule wp_rbindI [OF takew_ok [OF assms]]) (use pushb_ok in fastforce)

lemma remove:
  assumes "invar q"
  shows "wp (takew (\<lambda>e. key e = k) q)
    (\<lambda>(removed, q'). invar q' \<and> contents q' = filter (\<lambda>e. key e \<noteq> k) (contents q))"
  using takew_ok [OF assms, of "\<lambda>e. key e = k"] by (auto elim!: wp_mono)

lemma renew_distinct:
  "distinct (map key xs) \<Longrightarrow> distinct (map key (filter (\<lambda>e. key e \<noteq> key x) xs @ [x]))"
  by (auto simp: distinct_map inj_on_def)

end

end
