(* ===== verification/Queue.thy ===== *)
theory Queue
  imports Deque_Spec
begin

text \<open>
  \<open>Queue<T, N>\<close> of \<open>src/src/site_c/queue.rs\<close>: a double-ended queue that stores up to
  \<open>N\<close> elements in an inline ring of \<open>MaybeUninit\<close> slots and spills to a \<open>VecDeque\<close>
  (a list) on the heap. A slot holds \<open>Some x\<close> while the queue owns the initialised value
  \<open>x\<close> there and \<open>None\<close> otherwise; moving a value out with \<open>assume_init_read\<close> empties
  the slot, so a second read, a read of an uninitialised slot and an index out of range all
  show up as a panic value. The const generic \<open>N\<close> is the first argument of the operations.
\<close>

section \<open>Representation\<close>

datatype 'a queue =
    Inline (inl_buf: "'a option list") (inl_head: nat) (inl_tail: nat) (inl_len: nat)
  | Heap "'a list"

text \<open>The index arithmetic the source writes out at each use.\<close>

definition next_idx :: "nat \<Rightarrow> nat \<Rightarrow> nat" where
  "next_idx n i = (if i + 1 = n then 0 else i + 1)"

definition prev_idx :: "nat \<Rightarrow> nat \<Rightarrow> nat" where
  "prev_idx n i = (if i = 0 then n - 1 else i - 1)"

text \<open>
  Slot accesses: \<open>buf[i] = MaybeUninit::new(x)\<close>, \<open>buf[i].assume_init_read()\<close> (and
  \<open>assume_init_drop\<close>, which also consumes the value) and \<open>buf[i].assume_init_ref()\<close>.
\<close>

definition slot_write :: "'a option list \<Rightarrow> nat \<Rightarrow> 'a \<Rightarrow> 'a option list res" where
  "slot_write buf i x = (if i < length buf then Inr (buf[i := Some x]) else Inl OutOfBounds)"

definition slot_take :: "'a option list \<Rightarrow> nat \<Rightarrow> ('a \<times> 'a option list) res" where
  "slot_take buf i =
     (if i < length buf then
        (case buf ! i of Some x \<Rightarrow> Inr (x, buf[i := None]) | None \<Rightarrow> Inl UninitRead)
      else Inl OutOfBounds)"

definition slot_ref :: "'a option list \<Rightarrow> nat \<Rightarrow> 'a res" where
  "slot_ref buf i =
     (if i < length buf then (case buf ! i of Some x \<Rightarrow> Inr x | None \<Rightarrow> Inl UninitRead)
      else Inl OutOfBounds)"

text \<open>
  The loop that moves \<open>k\<close> elements out of the ring in order, from index \<open>idx\<close>; it occurs in
  both spills, \<open>into_vec\<close>, \<open>reserve\<close>, \<open>make_contiguous\<close>, \<open>clear\<close> and \<open>drop\<close>.
\<close>

fun drain_ring :: "nat \<Rightarrow> nat \<Rightarrow> nat \<Rightarrow> 'a option list \<Rightarrow> ('a list \<times> 'a option list) res" where
  "drain_ring n 0 idx buf = Inr ([], buf)"
| "drain_ring n (Suc k) idx buf =
     rbind (slot_take buf idx) (\<lambda>(x, buf').
     rbind (drain_ring n k (next_idx n idx) buf') (\<lambda>(xs, buf'').
       Inr (x # xs, buf'')))"

section \<open>Operations\<close>

definition queue_new :: "nat \<Rightarrow> 'a queue" where
  "queue_new n = Inline (replicate n None) 0 0 0"

text \<open>
  \<open>VecDeque::with_capacity\<close> and \<open>VecDeque::reserve\<close> on elements of \<open>sz\<close> bytes: both panic when the
  capacity asked for takes more than \<open>isize::MAX\<close> bytes, the second also when it is no \<open>usize\<close>. The
  heap queue is a list: how far it grows beyond the request, and running out of memory, are left out.
\<close>

definition vec_capacity :: "nat \<Rightarrow> nat \<Rightarrow> unit res" where
  "vec_capacity sz capacity = rassert (sz * capacity \<le> isize_max) (Overflow ''capacity overflow'')"

definition vec_reserve :: "nat \<Rightarrow> nat \<Rightarrow> nat \<Rightarrow> unit res" where
  "vec_reserve sz len additional =
     (case checked_add len additional of
        None \<Rightarrow> Inl (Overflow ''capacity overflow'')
      | Some capacity \<Rightarrow> vec_capacity sz capacity)"

definition queue_with_capacity :: "nat \<Rightarrow> nat \<Rightarrow> nat \<Rightarrow> 'a queue res" where
  "queue_with_capacity sz n capacity =
     (if capacity \<le> n then Inr (queue_new n)
      else rbind (vec_capacity sz capacity) (\<lambda>_. Inr (Heap [])))"

fun push_back :: "nat \<Rightarrow> 'a \<Rightarrow> 'a queue \<Rightarrow> 'a queue res" where
  "push_back n x (Inline buf head tail len) =
     (if len < n then
        rbind (slot_write buf tail x) (\<lambda>buf'.
          Inr (Inline buf' head (next_idx n tail) (len + 1)))
      else
        rbind (drain_ring n len head buf) (\<lambda>(xs, _). Inr (Heap (xs @ [x]))))"
| "push_back n x (Heap vec) = Inr (Heap (vec @ [x]))"

fun push_front :: "nat \<Rightarrow> 'a \<Rightarrow> 'a queue \<Rightarrow> 'a queue res" where
  "push_front n x (Inline buf head tail len) =
     (if len < n then
        (let head' = prev_idx n head in
         rbind (slot_write buf head' x) (\<lambda>buf'. Inr (Inline buf' head' tail (len + 1))))
      else
        rbind (drain_ring n len head buf) (\<lambda>(xs, _). Inr (Heap ([x] @ xs))))"
| "push_front n x (Heap vec) = Inr (Heap (x # vec))"

fun pop_front :: "nat \<Rightarrow> 'a queue \<Rightarrow> ('a option \<times> 'a queue) res" where
  "pop_front n (Inline buf head tail len) =
     (if len = 0 then Inr (None, Inline buf head tail len)
      else
        rbind (slot_take buf head) (\<lambda>(x, buf').
          Inr (Some x, Inline buf' (next_idx n head) tail (len - 1))))"
| "pop_front n (Heap vec) =
     (case vec of [] \<Rightarrow> Inr (None, Heap []) | x # xs \<Rightarrow> Inr (Some x, Heap xs))"

fun pop_back :: "nat \<Rightarrow> 'a queue \<Rightarrow> ('a option \<times> 'a queue) res" where
  "pop_back n (Inline buf head tail len) =
     (if len = 0 then Inr (None, Inline buf head tail len)
      else
        (let tail' = prev_idx n tail in
         rbind (slot_take buf tail') (\<lambda>(x, buf').
           Inr (Some x, Inline buf' head tail' (len - 1)))))"
| "pop_back n (Heap vec) =
     (case vec of [] \<Rightarrow> Inr (None, Heap []) | _ \<Rightarrow> Inr (Some (last vec), Heap (butlast vec)))"

fun into_vec :: "nat \<Rightarrow> 'a queue \<Rightarrow> ('a list \<times> 'a queue) res" where
  "into_vec n (Inline buf head tail len) =
     rbind (drain_ring n len head buf) (\<lambda>(xs, buf'). Inr (xs, Inline buf' 0 0 0))"
| "into_vec n (Heap vec) = Inr (vec, Heap [])"

fun queue_len :: "'a queue \<Rightarrow> nat" where
  "queue_len (Inline buf head tail len) = len"
| "queue_len (Heap vec) = length vec"

definition queue_is_empty :: "'a queue \<Rightarrow> bool" where
  "queue_is_empty q \<longleftrightarrow> queue_len q = 0"

text \<open>\<open>for item in items { queue.push_back(item) }\<close>: \<open>Extend\<close>, \<open>From\<close> and \<open>FromIterator\<close>.\<close>

fun queue_extend :: "nat \<Rightarrow> 'a list \<Rightarrow> 'a queue \<Rightarrow> 'a queue res" where
  "queue_extend n [] q = Inr q"
| "queue_extend n (x # xs) q = rbind (push_back n x q) (\<lambda>q'. queue_extend n xs q')"

definition queue_from_vec :: "nat \<Rightarrow> 'a list \<Rightarrow> 'a queue res" where
  "queue_from_vec n xs = queue_extend n xs (queue_new n)"

definition queue_from_iter :: "nat \<Rightarrow> 'a list \<Rightarrow> 'a queue res" where
  "queue_from_iter n xs = queue_extend n xs (queue_new n)"

fun reserve :: "bool \<Rightarrow> nat \<Rightarrow> nat \<Rightarrow> nat \<Rightarrow> 'a queue \<Rightarrow> 'a queue res" where
  "reserve checks sz n additional (Inline buf head tail len) =
     rbind (usize_add checks len additional) (\<lambda>required_capacity.
       if required_capacity > n then
         rbind (vec_capacity sz required_capacity) (\<lambda>_.
         rbind (drain_ring n len head buf) (\<lambda>(xs, _). Inr (Heap xs)))
       else Inr (Inline buf head tail len))"
| "reserve checks sz n additional (Heap vec) =
     rbind (usize_add checks (length vec) additional) (\<lambda>required_capacity.
     rbind (vec_reserve sz (length vec) additional) (\<lambda>_. Inr (Heap vec)))"

fun write_all :: "'a option list \<Rightarrow> nat \<Rightarrow> 'a list \<Rightarrow> 'a option list res" where
  "write_all buf i [] = Inr buf"
| "write_all buf i (x # xs) = rbind (slot_write buf i x) (\<lambda>buf'. write_all buf' (Suc i) xs)"

text \<open>
  \<open>make_contiguous\<close> returns the queue and the offset and length of the slice it hands out
  (offset \<open>0\<close> on the heap, whose \<open>VecDeque\<close> is a list here).
\<close>

fun make_contiguous :: "nat \<Rightarrow> 'a queue \<Rightarrow> ('a queue \<times> nat \<times> nat) res" where
  "make_contiguous n (Inline buf head tail len) =
     (if len = 0 then Inr (Inline buf head tail len, 0, 0)
      else if head < tail \<or> (head = tail \<and> len = 0) then
        Inr (Inline buf head tail len, head, len)
      else
        rbind (drain_ring n len head buf) (\<lambda>(temp, buf').
        rbind (write_all buf' 0 temp) (\<lambda>buf''.
          Inr (Inline buf'' 0 (if len = n then 0 else len) len, 0, len))))"
| "make_contiguous n (Heap vec) = Inr (Heap vec, 0, length vec)"

fun retain_loop :: "nat \<Rightarrow> ('a \<Rightarrow> bool) \<Rightarrow> 'a list \<Rightarrow> 'a queue \<Rightarrow> 'a queue res" where
  "retain_loop n keep [] q = Inr q"
| "retain_loop n keep (x # xs) q =
     (if keep x then rbind (push_back n x q) (retain_loop n keep xs)
      else retain_loop n keep xs q)"

definition retain :: "nat \<Rightarrow> ('a \<Rightarrow> bool) \<Rightarrow> 'a queue \<Rightarrow> 'a queue res" where
  "retain n keep q = rbind (into_vec n q) (\<lambda>(xs, q'). retain_loop n keep xs q')"

fun take_where_loop ::
  "nat \<Rightarrow> ('a \<Rightarrow> bool) \<Rightarrow> 'a list \<Rightarrow> 'a list \<Rightarrow> 'a queue \<Rightarrow> ('a list \<times> 'a queue) res" where
  "take_where_loop n rm [] removed q = Inr (removed, q)"
| "take_where_loop n rm (x # xs) removed q =
     (if rm x then take_where_loop n rm xs (removed @ [x]) q
      else rbind (push_back n x q) (\<lambda>q'. take_where_loop n rm xs removed q'))"

definition take_where :: "nat \<Rightarrow> ('a \<Rightarrow> bool) \<Rightarrow> 'a queue \<Rightarrow> ('a list \<times> 'a queue) res" where
  "take_where n rm q = rbind (into_vec n q) (\<lambda>(all, q'). take_where_loop n rm all [] q')"

text \<open>
  \<open>clear\<close> and \<open>drop\<close> return the elements whose destructors they run, in order. A
  destructor is user code and may panic: \<open>boom x\<close> says that dropping \<open>x\<close> does. The loop of
  \<open>clear\<close> moves \<open>head\<close> and \<open>len\<close> before each destructor call, and a panic leaves the
  function there (the flag in the result); \<open>VecDeque::clear\<close> drops every element in either case.
\<close>

fun clear_loop ::
  "('a \<Rightarrow> bool) \<Rightarrow> nat \<Rightarrow> nat \<Rightarrow> nat \<Rightarrow> 'a option list
   \<Rightarrow> ('a list \<times> bool \<times> nat \<times> nat \<times> 'a option list) res" where
  "clear_loop boom n head 0 buf = Inr ([], False, head, 0, buf)"
| "clear_loop boom n head (Suc len) buf =
     rbind (slot_take buf head) (\<lambda>(x, buf').
       if boom x then Inr ([x], True, next_idx n head, len, buf')
       else
         rbind (clear_loop boom n (next_idx n head) len buf') (\<lambda>(xs, p, h, l, buf'').
           Inr (x # xs, p, h, l, buf'')))"

fun queue_clear :: "('a \<Rightarrow> bool) \<Rightarrow> nat \<Rightarrow> 'a queue \<Rightarrow> ('a list \<times> bool \<times> 'a queue) res" where
  "queue_clear boom n (Inline buf head tail len) =
     rbind (clear_loop boom n head len buf) (\<lambda>(dropped, unwinding, head', len', buf').
       if unwinding then Inr (dropped, True, Inline buf' head' tail len')
       else Inr (dropped, False, Inline buf' 0 0 len'))"
| "queue_clear boom n (Heap vec) = Inr (vec, list_ex boom vec, Heap [])"

fun queue_drop :: "nat \<Rightarrow> 'a queue \<Rightarrow> 'a list res" where
  "queue_drop n (Inline buf head tail len) =
     rbind (drain_ring n len head buf) (\<lambda>(dropped, _). Inr dropped)"
| "queue_drop n (Heap vec) = Inr vec"

fun queue_swap :: "nat \<Rightarrow> nat \<Rightarrow> nat \<Rightarrow> 'a queue \<Rightarrow> 'a queue res" where
  "queue_swap n a b q =
     rbind (rassert (a < queue_len q) (Assertion ''index out of bounds'')) (\<lambda>_.
     rbind (rassert (b < queue_len q) (Assertion ''index out of bounds'')) (\<lambda>_.
       if a = b then Inr q
       else
         (case q of
            Inline buf head tail len \<Rightarrow>
              (let idx_a = (head + a) mod n; idx_b = (head + b) mod n in
               if idx_a < length buf \<and> idx_b < length buf
               then Inr (Inline (buf[idx_a := buf ! idx_b, idx_b := buf ! idx_a]) head tail len)
               else Inl OutOfBounds)
          | Heap vec \<Rightarrow> Inr (Heap (vec[a := vec ! b, b := vec ! a])))))"

section \<open>Iterators\<close>

text \<open>\<open>Iter\<close>: a cursor over the inline ring, or the heap iterator (the elements left).\<close>

datatype 'a iter =
    IterInline "'a option list" nat nat
  | IterHeap "'a list"

fun queue_iter :: "'a queue \<Rightarrow> 'a iter" where
  "queue_iter (Inline buf head tail len) = IterInline buf head len"
| "queue_iter (Heap vec) = IterHeap vec"

fun iter_next :: "nat \<Rightarrow> 'a iter \<Rightarrow> ('a option \<times> 'a iter) res" where
  "iter_next n (IterInline buf head remaining) =
     (if remaining = 0 then Inr (None, IterInline buf head remaining)
      else
        rbind (slot_ref buf head) (\<lambda>x.
          Inr (Some x, IterInline buf (next_idx n head) (remaining - 1))))"
| "iter_next n (IterHeap vec) =
     (case vec of [] \<Rightarrow> Inr (None, IterHeap []) | x # xs \<Rightarrow> Inr (Some x, IterHeap xs))"

fun iter_len :: "'a iter \<Rightarrow> nat" where
  "iter_len (IterInline buf head remaining) = remaining"
| "iter_len (IterHeap vec) = length vec"

definition iter_size_hint :: "'a iter \<Rightarrow> nat \<times> nat option" where
  "iter_size_hint it = (iter_len it, Some (iter_len it))"

text \<open>Driving an iterator: at most \<open>k\<close> calls of \<open>next\<close>, stopping at \<open>None\<close>.\<close>

fun iter_take :: "nat \<Rightarrow> nat \<Rightarrow> 'a iter \<Rightarrow> 'a list res" where
  "iter_take n 0 it = Inr []"
| "iter_take n (Suc k) it =
     rbind (iter_next n it) (\<lambda>(x, it').
       case x of None \<Rightarrow> Inr []
       | Some y \<Rightarrow> rbind (iter_take n k it') (\<lambda>ys. Inr (y # ys)))"

text \<open>\<open>for x in queue.iter()\<close>: a cursor with \<open>iter_len\<close> elements left ends after that many calls.\<close>

definition iter_collect :: "nat \<Rightarrow> 'a queue \<Rightarrow> 'a list res" where
  "iter_collect n q = iter_take n (Suc (iter_len (queue_iter q))) (queue_iter q)"

text \<open>\<open>T::clone\<close> and the \<open>==\<close> of \<open>T\<close> are the element type's own, the parameters \<open>cl\<close> and \<open>eqv\<close>.\<close>

definition queue_clone :: "('a \<Rightarrow> 'a) \<Rightarrow> nat \<Rightarrow> 'a queue \<Rightarrow> 'a queue res" where
  "queue_clone cl n q = rbind (iter_collect n q) (\<lambda>xs. queue_extend n (map cl xs) (queue_new n))"

definition queue_eq :: "('a \<Rightarrow> 'a \<Rightarrow> bool) \<Rightarrow> nat \<Rightarrow> 'a queue \<Rightarrow> 'a queue \<Rightarrow> bool res" where
  "queue_eq eqv n q r =
     (if queue_len q \<noteq> queue_len r then Inr False
      else rbind (iter_collect n q) (\<lambda>xs. rbind (iter_collect n r) (\<lambda>ys.
             Inr (list_all (\<lambda>(a, b). eqv a b) (zip xs ys)))))"

text \<open>
  \<open>IterMut\<close> hands out \<open>&mut\<close> references. A reference is the index it points to: a slot of
  the inline ring, or a position of the heap queue.
\<close>

datatype iter_mut =
    IterMutInline nat nat nat
  | IterMutHeap nat nat

fun queue_iter_mut :: "'a queue \<Rightarrow> iter_mut" where
  "queue_iter_mut (Inline buf head tail len) = IterMutInline (length buf) head len"
| "queue_iter_mut (Heap vec) = IterMutHeap 0 (length vec)"

fun iter_mut_next :: "nat \<Rightarrow> iter_mut \<Rightarrow> (nat option \<times> iter_mut) res" where
  "iter_mut_next n (IterMutInline blen head remaining) =
     (if remaining = 0 then Inr (None, IterMutInline blen head remaining)
      else if head < blen
        then Inr (Some head, IterMutInline blen (next_idx n head) (remaining - 1))
        else Inl OutOfBounds)"
| "iter_mut_next n (IterMutHeap pos remaining) =
     (if remaining = 0 then Inr (None, IterMutHeap pos 0)
      else Inr (Some pos, IterMutHeap (pos + 1) (remaining - 1)))"

fun iter_mut_len :: "iter_mut \<Rightarrow> nat" where
  "iter_mut_len (IterMutInline blen head remaining) = remaining"
| "iter_mut_len (IterMutHeap pos remaining) = remaining"

fun iter_mut_take :: "nat \<Rightarrow> nat \<Rightarrow> iter_mut \<Rightarrow> nat list res" where
  "iter_mut_take n 0 it = Inr []"
| "iter_mut_take n (Suc k) it =
     rbind (iter_mut_next n it) (\<lambda>(x, it').
       case x of None \<Rightarrow> Inr []
       | Some y \<Rightarrow> rbind (iter_mut_take n k it') (\<lambda>ys. Inr (y # ys)))"

definition iter_mut_collect :: "nat \<Rightarrow> 'a queue \<Rightarrow> nat list res" where
  "iter_mut_collect n q =
     iter_mut_take n (Suc (iter_mut_len (queue_iter_mut q))) (queue_iter_mut q)"

text \<open>\<open>IntoIterator for Queue\<close>: the owning iterator is the vector of \<open>into_vec\<close>.\<close>

definition queue_into_iter :: "nat \<Rightarrow> 'a queue \<Rightarrow> 'a list res" where
  "queue_into_iter n q = rbind (into_vec n q) (\<lambda>(xs, _). Inr xs)"


section \<open>Invariant and abstraction\<close>

text \<open>
  \<open>ring_rep n buf h xs\<close>: from index \<open>h\<close> on, the ring holds exactly the elements
  \<open>xs\<close>, and every other slot is empty (nothing leaked, nothing uninitialised in the live part).
\<close>

definition ring_rep :: "nat \<Rightarrow> 'a option list \<Rightarrow> nat \<Rightarrow> 'a list \<Rightarrow> bool" where
  "ring_rep n buf h xs \<longleftrightarrow>
     length buf = n \<and> length xs \<le> n \<and> (h < n \<or> n = 0 \<and> h = 0) \<and>
     (\<forall>i<n. buf ! ((h + i) mod n) = (if i < length xs then Some (xs ! i) else None))"

fun queue_list :: "'a queue \<Rightarrow> 'a list" where
  "queue_list (Inline buf head tail len) =
     map (\<lambda>i. the (buf ! ((head + i) mod length buf))) [0..<len]"
| "queue_list (Heap vec) = vec"

fun queue_inv :: "nat \<Rightarrow> 'a queue \<Rightarrow> bool" where
  "queue_inv n (Inline buf head tail len) \<longleftrightarrow>
     length buf = n \<and> len \<le> n \<and> (head < n \<or> n = 0 \<and> head = 0) \<and> tail = (head + len) mod n \<and>
     (\<forall>i<n. (buf ! ((head + i) mod n) \<noteq> None) = (i < len))"
| "queue_inv n (Heap vec) \<longleftrightarrow> True"

lemma next_idx_mod: "i < n \<Longrightarrow> next_idx n i = (i + 1) mod n"
  by (auto simp: next_idx_def)

lemma prev_idx_mod: "i < n \<Longrightarrow> prev_idx n i = (i + (n - 1)) mod n"
  by (auto simp: prev_idx_def mod_if)

lemma prev_idx_less [simp]: "i < n \<Longrightarrow> prev_idx n i < n"
  by (auto simp: prev_idx_def)

lemma next_idx_less [simp]: "i < n \<Longrightarrow> next_idx n i < n"
  by (auto simp: next_idx_def)

lemma next_prev_idx [simp]: "i < n \<Longrightarrow> next_idx n (prev_idx n i) = i"
  by (auto simp: prev_idx_def next_idx_def)

lemma ring_repD:
  "ring_rep n buf h xs \<Longrightarrow> i < length xs \<Longrightarrow> buf ! ((h + i) mod n) = Some (xs ! i)"
  by (auto simp: ring_rep_def)

lemma ring_rep_empty [simp]: "ring_rep n (replicate n None) 0 []"
  by (auto simp: ring_rep_def)

lemma ring_rep_all_None:
  assumes "ring_rep n buf h []"
  shows "buf = replicate n None"
proof (rule nth_equalityI)
  show "length buf = length (replicate n None)"
    using assms by (simp add: ring_rep_def)
next
  fix j assume "j < length buf"
  then have j: "j < n" and h: "h < n" and len: "length buf = n"
    and all: "\<forall>i<n. buf ! ((h + i) mod n) = None"
    using assms by (auto simp: ring_rep_def)
  define i where "i = (j + (n - h)) mod n"
  have "i < n" using j by (simp add: i_def)
  moreover have "(h + i) mod n = j"
    using j h by (simp add: i_def mod_add_right_eq)
  ultimately show "buf ! j = replicate n None ! j"
    using all j by (metis nth_replicate)
qed

lemma ring_rep_push_back:
  assumes "ring_rep n buf h xs" "length xs < n"
  shows "ring_rep n (buf[(h + length xs) mod n := Some x]) h (xs @ [x])"
  using assms
  by (auto simp: ring_rep_def nth_list_update mod_add_eq_iff nth_append)

lemma ring_rep_update:
  assumes "ring_rep n buf h xs" "i < length xs"
  shows "ring_rep n (buf[(h + i) mod n := Some x]) h (xs[i := x])"
  using assms
  by (auto simp: ring_rep_def nth_list_update mod_add_eq_iff)

lemma ring_rep_pop_back:
  assumes "ring_rep n buf h (xs @ [x])"
  shows "ring_rep n (buf[(h + length xs) mod n := None]) h xs"
  using assms
  by (auto simp: ring_rep_def nth_list_update mod_add_eq_iff nth_append)

text \<open>Moving the head back by one slot shifts every element one position up.\<close>

lemma ring_rep_push_front:
  assumes rep: "ring_rep n buf (next_idx n h) xs" and len: "length xs < n" and h: "h < n"
  shows "ring_rep n (buf[h := Some x]) h (x # xs)"
proof -
  have blen: "length buf = n" using rep by (simp add: ring_rep_def)
  have nth: "buf ! ((h + Suc i) mod n) = (if i < length xs then Some (xs ! i) else None)"
    if "i < n" for i
    using rep that h by (auto simp: ring_rep_def next_idx_mod mod_add_left_eq)
  have "buf[h := Some x] ! ((h + i) mod n) =
      (if i < length (x # xs) then Some ((x # xs) ! i) else None)" if i: "i < n" for i
  proof (cases i)
    case 0
    then show ?thesis using h blen by simp
  next
    case (Suc k)
    have "(h + i) mod n \<noteq> h"
      using mod_add_eq_iff [of i n 0 h] i h Suc by auto
    then show ?thesis using nth [of k] Suc i by simp
  qed
  then show ?thesis using h len blen by (simp add: ring_rep_def)
qed

lemma ring_rep_pop_front:
  assumes rep: "ring_rep n buf h (x # xs)"
  shows "buf ! h = Some x" and "ring_rep n (buf[h := None]) (next_idx n h) xs"
proof -
  have h: "h < n" and blen: "length buf = n" and len: "length xs < n"
    using rep by (auto simp: ring_rep_def)
  have nth: "buf ! ((h + i) mod n) = (if i < length (x # xs) then Some ((x # xs) ! i) else None)"
    if "i < n" for i
    using rep that unfolding ring_rep_def by blast
  show "buf ! h = Some x" using nth [of 0] h by simp
  have "buf[h := None] ! ((next_idx n h + i) mod n) =
      (if i < length xs then Some (xs ! i) else None)" if i: "i < n" for i
  proof (cases "Suc i < n")
    case True
    have "(h + Suc i) mod n \<noteq> h"
      using mod_add_eq_iff [of "Suc i" n 0 h] True h by auto
    then show ?thesis
      using nth [of "Suc i"] True h by (simp add: next_idx_mod mod_add_left_eq)
  next
    case False
    with i have "Suc i = n" by simp
    have "(next_idx n h + i) mod n = (h + Suc i) mod n"
      using h by (simp add: next_idx_mod mod_add_left_eq)
    then have "(next_idx n h + i) mod n = h"
      using h by (simp only: \<open>Suc i = n\<close> mod_add_self2 mod_less)
    then show ?thesis using h blen len \<open>Suc i = n\<close> by simp
  qed
  then show "ring_rep n (buf[h := None]) (next_idx n h) xs"
    using h blen len by (simp add: ring_rep_def)
qed

lemma queue_inv_ring_rep:
  assumes "queue_inv n (Inline buf h t l)"
  shows "ring_rep n buf h (queue_list (Inline buf h t l))"
  using assms by (auto simp: ring_rep_def)

lemma ring_rep_queue_list:
  assumes "ring_rep n buf h xs" "length xs = l"
  shows "queue_list (Inline buf h t l) = xs"
  using assms by (intro nth_equalityI) (auto simp: ring_rep_def)

lemma ring_rep_queue_inv:
  assumes "ring_rep n buf h xs" "length xs = l" "t = (h + l) mod n"
  shows "queue_inv n (Inline buf h t l)"
  using assms by (auto simp: ring_rep_def)

text \<open>The view every operation proof works with: a ring that represents a list.\<close>

lemma queue_cases:
  assumes "queue_inv n q"
  obtains (Inline) buf h xs where
      "q = Inline buf h ((h + length xs) mod n) (length xs)" "ring_rep n buf h xs"
      "queue_list q = xs"
  | (Heap) vec where "q = Heap vec" "queue_list q = vec"
proof (cases q)
  case (Inline buf h t l)
  have len: "length (queue_list q) = l" and t: "t = (h + l) mod n"
    using assms Inline by simp_all
  show ?thesis
  proof (rule that(1))
    show "q = Inline buf h ((h + length (queue_list q)) mod n) (length (queue_list q))"
      unfolding len t [symmetric] by (rule Inline)
    show "ring_rep n buf h (queue_list q)"
      using queue_inv_ring_rep assms Inline by blast
  qed (rule refl)
next
  case (Heap vec)
  then show ?thesis using that(2) by simp
qed

lemma queue_InlineI:
  assumes "ring_rep n buf h xs" "l = length xs" "t = (h + length xs) mod n"
  shows "queue_inv n (Inline buf h t l) \<and> queue_list (Inline buf h t l) = xs"
proof
  show "queue_inv n (Inline buf h t l)"
    using assms by (intro ring_rep_queue_inv [OF assms(1)]) simp_all
  show "queue_list (Inline buf h t l) = xs"
    by (rule ring_rep_queue_list [OF assms(1)]) (simp add: assms(2))
qed

lemma queue_len_list: "queue_inv n q \<Longrightarrow> queue_len q = length (queue_list q)"
  by (cases q) auto

lemma queue_is_empty_list: "queue_inv n q \<Longrightarrow> queue_is_empty q = (queue_list q = [])"
  by (simp add: queue_is_empty_def queue_len_list)

section \<open>Specifications of the operations\<close>

declare queue_list.simps(1) [simp del] queue_inv.simps(1) [simp del]

lemma slot_write_ok: "i < length buf \<Longrightarrow> slot_write buf i x = Inr (buf[i := Some x])"
  by (simp add: slot_write_def)

lemma slot_take_ok: "i < length buf \<Longrightarrow> buf ! i = Some x \<Longrightarrow> slot_take buf i = Inr (x, buf[i := None])"
  by (simp add: slot_take_def)

lemma slot_ref_ok: "i < length buf \<Longrightarrow> buf ! i = Some x \<Longrightarrow> slot_ref buf i = Inr x"
  by (simp add: slot_ref_def)

lemma ring_rep_length: "ring_rep n buf h xs \<Longrightarrow> length buf = n"
  by (simp add: ring_rep_def)

lemma ring_rep_head: "ring_rep n buf h (x # xs) \<Longrightarrow> h < n \<and> length buf = n"
  by (auto simp: ring_rep_def)

text \<open>Draining the whole ring yields its elements in order and leaves every slot empty.\<close>

lemma drain_ring_ok:
  "ring_rep n buf h xs \<Longrightarrow> drain_ring n (length xs) h buf = Inr (xs, replicate n None)"
proof (induction xs arbitrary: buf h)
  case Nil
  then show ?case by (simp add: ring_rep_all_None)
next
  case (Cons x xs)
  from ring_rep_pop_front [OF Cons.prems] ring_rep_head [OF Cons.prems]
  have "slot_take buf h = Inr (x, buf[h := None])"
    and "drain_ring n (length xs) (next_idx n h) (buf[h := None]) = Inr (xs, replicate n None)"
    by (simp_all add: slot_take_ok Cons.IH)
  then show ?case by simp
qed

lemma queue_empty_inline:
  "queue_inv n (Inline (replicate n None) 0 0 0 :: 'a queue) \<and>
   queue_list (Inline (replicate n None) 0 0 0 :: 'a queue) = []"
  by (rule queue_InlineI) simp_all

lemma queue_new_inv [simp]: "queue_inv n (queue_new n)"
  using queue_empty_inline by (auto simp: queue_new_def)

lemma queue_new_list [simp]: "queue_list (queue_new n) = []"
  using queue_empty_inline by (auto simp: queue_new_def)

lemma push_back_wp [wp_rules]:
  assumes "queue_inv n q"
  shows "wp (push_back n x q) (\<lambda>q'. queue_inv n q' \<and> queue_list q' = queue_list q @ [x])"
  using assms
proof (cases rule: queue_cases)
  case (Inline buf h xs)
  show ?thesis
  proof (cases "length xs < n")
    case True
    let ?t = "(h + length xs) mod n"
    have t: "next_idx n ?t = (h + length (xs @ [x])) mod n"
      using True by (simp add: next_idx_mod mod_Suc_eq)
    have "queue_inv n (Inline (buf[?t := Some x]) h (next_idx n ?t) (Suc (length xs))) \<and>
        queue_list (Inline (buf[?t := Some x]) h (next_idx n ?t) (Suc (length xs))) = xs @ [x]"
      by (rule queue_InlineI [OF ring_rep_push_back [OF Inline(2) True] _ t]) simp
    then show ?thesis
      using Inline(1,3) True ring_rep_length [OF Inline(2)] by (simp add: slot_write_ok)
  next
    case False
    then show ?thesis using Inline by (simp add: drain_ring_ok)
  qed
next
  case (Heap vec)
  then show ?thesis by simp
qed

lemma push_front_wp [wp_rules]:
  assumes "queue_inv n q"
  shows "wp (push_front n x q) (\<lambda>q'. queue_inv n q' \<and> queue_list q' = x # queue_list q)"
  using assms
proof (cases rule: queue_cases)
  case (Inline buf h xs)
  show ?thesis
  proof (cases "length xs < n")
    case True
    let ?h = "prev_idx n h"
    have h: "h < n" and blen: "length buf = n"
      using Inline(2) True by (auto simp: ring_rep_def)
    have rep: "ring_rep n (buf[?h := Some x]) ?h (x # xs)"
      using ring_rep_push_front [of n buf ?h xs x] Inline(2) True h by simp
    have "(next_idx n ?h + length xs) mod n = (?h + 1 + length xs) mod n"
      by (simp only: next_idx_mod [OF prev_idx_less [OF h]] mod_add_left_eq)
    then have t: "(h + length xs) mod n = (?h + length (x # xs)) mod n"
      using h by simp
    have "queue_inv n (Inline (buf[?h := Some x]) ?h ((h + length xs) mod n) (Suc (length xs))) \<and>
        queue_list (Inline (buf[?h := Some x]) ?h ((h + length xs) mod n) (Suc (length xs))) = x # xs"
      by (rule queue_InlineI [OF rep _ t]) simp
    then show ?thesis
      using Inline(1,3) True h blen by (simp add: slot_write_ok Let_def)
  next
    case False
    then show ?thesis using Inline by (simp add: drain_ring_ok)
  qed
next
  case (Heap vec)
  then show ?thesis by simp
qed

lemma pop_front_wp [wp_rules]:
  assumes "queue_inv n q"
  shows "wp (pop_front n q) (\<lambda>(r, q'). queue_inv n q' \<and>
    (case queue_list q of [] \<Rightarrow> r = None \<and> q' = q | x # xs \<Rightarrow> r = Some x \<and> queue_list q' = xs))"
  using assms
proof (cases rule: queue_cases)
  case (Inline buf h xs)
  show ?thesis
  proof (cases xs)
    case Nil
    with Inline assms show ?thesis by simp
  next
    case (Cons x ys)
    with Inline(2) have rep: "ring_rep n buf h (x # ys)" by simp
    let ?t = "(h + length xs) mod n"
    have t: "?t = (next_idx n h + length ys) mod n"
      using ring_rep_head [OF rep] Cons by (simp add: next_idx_mod mod_add_left_eq)
    have "queue_inv n (Inline (buf[h := None]) (next_idx n h) ?t (length ys)) \<and>
        queue_list (Inline (buf[h := None]) (next_idx n h) ?t (length ys)) = ys"
      by (rule queue_InlineI [OF ring_rep_pop_front(2) [OF rep] refl t])
    then show ?thesis
      using ring_rep_pop_front(1) [OF rep] ring_rep_head [OF rep] Inline(1,3) Cons
      by (simp add: slot_take_ok)
  qed
next
  case (Heap vec)
  then show ?thesis by (cases vec) simp_all
qed

lemma pop_back_wp [wp_rules]:
  assumes "queue_inv n q"
  shows "wp (pop_back n q) (\<lambda>(r, q'). queue_inv n q' \<and>
    (if queue_list q = [] then r = None \<and> q' = q
     else r = Some (last (queue_list q)) \<and> queue_list q' = butlast (queue_list q)))"
  using assms
proof (cases rule: queue_cases)
  case (Inline buf h xs)
  show ?thesis
  proof (cases xs rule: rev_cases)
    case Nil
    with Inline assms show ?thesis by simp
  next
    case (snoc ys y)
    with Inline(2) have rep: "ring_rep n buf h (ys @ [y])" by simp
    then have len: "length ys < n" "length buf = n" by (auto simp: ring_rep_def)
    let ?t = "(h + length ys) mod n"
    have t: "prev_idx n ((h + length xs) mod n) = ?t"
    proof -
      have "(h + length xs) mod n = next_idx n ?t"
        using len snoc by (simp add: next_idx_mod mod_Suc_eq)
      then show ?thesis using len by (auto simp: next_idx_def prev_idx_def)
    qed
    have "buf ! ?t = Some y" using ring_repD [OF rep, of "length ys"] by simp
    moreover have "queue_inv n (Inline (buf[?t := None]) h ?t (length ys)) \<and>
        queue_list (Inline (buf[?t := None]) h ?t (length ys)) = ys"
      by (rule queue_InlineI [OF ring_rep_pop_back [OF rep] refl refl])
    ultimately show ?thesis
      using Inline(1,3) snoc len t by (simp add: slot_take_ok Let_def)
  qed
next
  case (Heap vec)
  then show ?thesis by (cases vec) simp_all
qed

lemma into_vec_wp [wp_rules]:
  assumes "queue_inv n q"
  shows "wp (into_vec n q) (\<lambda>(xs, q'). xs = queue_list q \<and> queue_inv n q' \<and> queue_list q' = [])"
  using assms
proof (cases rule: queue_cases)
  case (Inline buf h xs)
  then show ?thesis
    using queue_empty_inline [of n] by (simp add: drain_ring_ok)
next
  case (Heap vec)
  then show ?thesis by simp
qed

lemma queue_extend_wp [wp_rules]:
  "queue_inv n q \<Longrightarrow>
   wp (queue_extend n xs q) (\<lambda>q'. queue_inv n q' \<and> queue_list q' = queue_list q @ xs)"
proof (induction xs arbitrary: q)
  case Nil
  then show ?case by simp
next
  case (Cons x xs)
  show ?case
    unfolding queue_extend.simps
    by (rule wp_rbindI [OF push_back_wp [OF Cons.prems]]) (use Cons.IH in fastforce)
qed

lemma take_where_loop_wp:
  "queue_inv n q \<Longrightarrow>
   wp (take_where_loop n rm xs acc q) (\<lambda>(removed, q'). queue_inv n q' \<and>
     removed = acc @ filter rm xs \<and> queue_list q' = queue_list q @ filter (\<lambda>x. \<not> rm x) xs)"
proof (induction xs arbitrary: q acc)
  case Nil
  then show ?case by simp
next
  case (Cons x xs)
  show ?case
  proof (cases "rm x")
    case True
    then show ?thesis using Cons.IH [OF Cons.prems, of "acc @ [x]"] by simp
  next
    case False
    have "wp (rbind (push_back n x q) (take_where_loop n rm xs acc))
      (\<lambda>(removed, q''). queue_inv n q'' \<and> removed = acc @ filter rm xs \<and>
         queue_list q'' = queue_list q @ x # filter (\<lambda>x. \<not> rm x) xs)"
      by (rule wp_rbindI [OF push_back_wp [OF Cons.prems]]) (use Cons.IH in fastforce)
    with False show ?thesis by simp
  qed
qed

lemma take_where_wp [wp_rules]:
  assumes "queue_inv n q"
  shows "wp (take_where n rm q) (\<lambda>(removed, q'). queue_inv n q' \<and>
    removed = filter rm (queue_list q) \<and> queue_list q' = filter (\<lambda>x. \<not> rm x) (queue_list q))"
  unfolding take_where_def
  by (rule wp_rbindI [OF into_vec_wp [OF assms]])
    (auto dest!: take_where_loop_wp [where rm = rm and xs = "queue_list q" and acc = "[]"])

lemma retain_loop_wp:
  "queue_inv n q \<Longrightarrow>
   wp (retain_loop n keep xs q) (\<lambda>q'. queue_inv n q' \<and> queue_list q' = queue_list q @ filter keep xs)"
proof (induction xs arbitrary: q)
  case Nil
  then show ?case by simp
next
  case (Cons x xs)
  have "wp (rbind (push_back n x q) (retain_loop n keep xs))
      (\<lambda>q'. queue_inv n q' \<and> queue_list q' = queue_list q @ x # filter keep xs)"
    by (rule wp_rbindI [OF push_back_wp [OF Cons.prems]]) (use Cons.IH in fastforce)
  then show ?case
    using Cons.IH [OF Cons.prems] by simp
qed

lemma retain_wp [wp_rules]:
  assumes "queue_inv n q"
  shows "wp (retain n keep q) (\<lambda>q'. queue_inv n q' \<and> queue_list q' = filter keep (queue_list q))"
  unfolding retain_def
  by (rule wp_rbindI [OF into_vec_wp [OF assms]]) (use retain_loop_wp in fastforce)

interpretation deq: deque "queue_inv n" queue_list "queue_new n" "push_back n" "push_front n"
  "pop_front n" "pop_back n" "take_where n" for n
  by unfold_locales (simp_all add: wp_rules)

text \<open>
  One run of \<open>clear\<close>'s loop: it consumes the elements up to and including the first whose
  destructor panics, and the ring represents the rest with the tail where it was.
\<close>

lemma clear_loop_ok:
  "ring_rep n buf h xs \<Longrightarrow> \<exists>buf' h'.
     clear_loop boom n h (length xs) buf =
       Inr (if list_ex boom xs then takeWhile (\<lambda>x. \<not> boom x) xs @ [hd (dropWhile (\<lambda>x. \<not> boom x) xs)]
            else xs,
            list_ex boom xs, h', length (tl (dropWhile (\<lambda>x. \<not> boom x) xs)), buf') \<and>
     ring_rep n buf' h' (tl (dropWhile (\<lambda>x. \<not> boom x) xs)) \<and>
     (h' + length (tl (dropWhile (\<lambda>x. \<not> boom x) xs))) mod n = (h + length xs) mod n"
proof (induction xs arbitrary: buf h)
  case Nil
  then show ?case by auto
next
  case (Cons x xs)
  note rep = Cons.prems
  have h: "h < n" "length buf = n" using ring_rep_head [OF rep] by auto
  have t: "(next_idx n h + length xs) mod n = (h + length (x # xs)) mod n"
    using h by (simp add: next_idx_mod mod_add_left_eq)
  have st: "slot_take buf h = Inr (x, buf[h := None])"
    using ring_rep_pop_front(1) [OF rep] h by (simp add: slot_take_ok)
  show ?case
  proof (cases "boom x")
    case True
    with st t ring_rep_pop_front(2) [OF rep] show ?thesis by auto
  next
    case False
    from Cons.IH [OF ring_rep_pop_front(2) [OF rep]] obtain buf' h' where
      "clear_loop boom n (next_idx n h) (length xs) (buf[h := None]) =
        Inr (if list_ex boom xs
             then takeWhile (\<lambda>x. \<not> boom x) xs @ [hd (dropWhile (\<lambda>x. \<not> boom x) xs)] else xs,
             list_ex boom xs, h', length (tl (dropWhile (\<lambda>x. \<not> boom x) xs)), buf')"
      "ring_rep n buf' h' (tl (dropWhile (\<lambda>x. \<not> boom x) xs))"
      "(h' + length (tl (dropWhile (\<lambda>x. \<not> boom x) xs))) mod n = (next_idx n h + length xs) mod n"
      by auto
    with st t False show ?thesis by auto
  qed
qed

lemma dropWhile_not_ex: "\<not> list_ex p xs \<Longrightarrow> dropWhile (\<lambda>x. \<not> p x) xs = []"
  by (induction xs) auto

lemma takeWhile_hd_tl:
  "list_ex p xs \<Longrightarrow>
   (takeWhile (\<lambda>x. \<not> p x) xs @ [hd (dropWhile (\<lambda>x. \<not> p x) xs)]) @ tl (dropWhile (\<lambda>x. \<not> p x) xs) = xs"
  by (induction xs) auto

lemma queue_clear_wp [wp_rules]:
  assumes "queue_inv n q"
  shows "wp (queue_clear boom n q) (\<lambda>(dropped, unwinding, q'). queue_inv n q' \<and>
    dropped @ queue_list q' = queue_list q \<and> unwinding = list_ex boom (queue_list q) \<and>
    (\<not> unwinding \<longrightarrow> queue_list q' = []))"
  using assms
proof (cases rule: queue_cases)
  case (Inline buf h xs)
  let ?rest = "tl (dropWhile (\<lambda>x. \<not> boom x) xs)"
  obtain buf' h' where loop: "clear_loop boom n h (length xs) buf =
       Inr (if list_ex boom xs then takeWhile (\<lambda>x. \<not> boom x) xs @ [hd (dropWhile (\<lambda>x. \<not> boom x) xs)]
            else xs, list_ex boom xs, h', length ?rest, buf')"
    and rep: "ring_rep n buf' h' ?rest"
    and t: "(h' + length ?rest) mod n = (h + length xs) mod n"
    using clear_loop_ok [OF Inline(2)] by blast
  show ?thesis
  proof (cases "list_ex boom xs")
    case True
    have "queue_inv n (Inline buf' h' ((h + length xs) mod n) (length ?rest)) \<and>
        queue_list (Inline buf' h' ((h + length xs) mod n) (length ?rest)) = ?rest"
      by (rule queue_InlineI [OF rep refl t [symmetric]])
    with loop True Inline takeWhile_hd_tl [OF True] show ?thesis by simp
  next
    case False
    then have "?rest = []" by (simp add: dropWhile_not_ex)
    with rep have "buf' = replicate n None" by (simp add: ring_rep_all_None)
    with loop False \<open>?rest = []\<close> Inline queue_empty_inline [of n] show ?thesis by simp
  qed
next
  case (Heap vec)
  then show ?thesis by simp
qed

lemma queue_drop_wp [wp_rules]:
  assumes "queue_inv n q"
  shows "wp (queue_drop n q) (\<lambda>dropped. dropped = queue_list q)"
  using assms by (cases rule: queue_cases) (simp_all add: drain_ring_ok)

lemma ring_rep_nth:
  "ring_rep n buf h xs \<Longrightarrow> i < length xs \<Longrightarrow> (h + i) mod n < length buf"
  by (auto simp: ring_rep_def)

lemma queue_swap_wp [wp_rules]:
  assumes "queue_inv n q" "a < length (queue_list q)" "b < length (queue_list q)"
  shows "wp (queue_swap n a b q) (\<lambda>q'. queue_inv n q' \<and>
    queue_list q' = (queue_list q)[a := queue_list q ! b, b := queue_list q ! a])"
proof (cases "a = b")
  case True
  with assms show ?thesis by (simp add: queue_len_list)
next
  case False
  from assms(1) show ?thesis
  proof (cases rule: queue_cases)
    case (Inline buf h xs)
    have ab: "a < length xs" "b < length xs" using assms Inline by simp_all
    let ?a = "(h + a) mod n" and ?b = "(h + b) mod n"
    let ?q = "Inline (buf[?a := Some (xs ! b), ?b := Some (xs ! a)]) h ((h + length xs) mod n) (length xs)"
    have rep: "ring_rep n (buf[?a := Some (xs ! b), ?b := Some (xs ! a)]) h (xs[a := xs ! b, b := xs ! a])"
      using ring_rep_update [OF ring_rep_update [OF Inline(2) ab(1), of "xs ! b"], of b "xs ! a"] ab
      by simp
    have "queue_inv n ?q \<and> queue_list ?q = xs[a := xs ! b, b := xs ! a]"
      by (rule queue_InlineI [OF rep]) simp_all
    moreover have "buf ! ?a = Some (xs ! a)" "buf ! ?b = Some (xs ! b)"
      using ring_repD [OF Inline(2)] ab by simp_all
    ultimately show ?thesis
      using Inline ab False ring_rep_nth [OF Inline(2)] by (simp add: Let_def)
  next
    case (Heap vec)
    with assms False show ?thesis by simp
  qed
qed

lemma queue_swap_out_of_bounds:
  assumes "queue_inv n q" "length (queue_list q) \<le> a \<or> length (queue_list q) \<le> b"
  shows "queue_swap n a b q = Inl (Assertion ''index out of bounds'')"
  using assms by (auto simp: queue_len_list rassert_def)

lemma write_all_ok:
  "ring_rep n buf 0 ys \<Longrightarrow> length ys + length xs \<le> n \<Longrightarrow>
   \<exists>buf'. write_all buf (length ys) xs = Inr buf' \<and> ring_rep n buf' 0 (ys @ xs)"
proof (induction xs arbitrary: buf ys)
  case Nil
  then show ?case by simp
next
  case (Cons x xs)
  then have "ring_rep n (buf[length ys := Some x]) 0 (ys @ [x])"
    using ring_rep_push_back [OF Cons.prems(1), of x] by simp
  moreover have "length ys < length buf" using Cons.prems by (simp add: ring_rep_def)
  ultimately show ?case
    using Cons.IH [of "buf[length ys := Some x]" "ys @ [x]"] Cons.prems
    by (simp add: slot_write_ok)
qed

text \<open>
  After \<open>make_contiguous\<close> the elements stand next to each other in the slice it returns,
  and the queue is the same list.
\<close>

lemma make_contiguous_wp [wp_rules]:
  assumes "queue_inv n q"
  shows "wp (make_contiguous n q) (\<lambda>(q', off, len). queue_inv n q' \<and>
    queue_list q' = queue_list q \<and> len = length (queue_list q) \<and>
    (case q' of Inline buf _ _ _ \<Rightarrow> off + len \<le> n \<and> take len (drop off buf) = map Some (queue_list q)
     | Heap vec \<Rightarrow> take len (drop off vec) = queue_list q))"
  using assms
proof (cases rule: queue_cases)
  case (Inline buf h xs)
  let ?t = "(h + length xs) mod n"
  have blen: "length buf = n" and xlen: "length xs \<le> n" using Inline(2) by (simp_all add: ring_rep_def)
  consider (empty) "xs = []" | (straight) "xs \<noteq> []" "h < ?t" | (wrapped) "xs \<noteq> []" "\<not> h < ?t"
    by blast
  then show ?thesis
  proof cases
    case empty
    with Inline assms show ?thesis by simp
  next
    case straight
    have h: "h < n" using Inline(2) straight by (auto simp: ring_rep_def)
    have fit: "h + length xs < n"
    proof (rule ccontr)
      assume "\<not> h + length xs < n"
      then have "?t = h + length xs - n" using xlen h by (simp add: mod_if)
      with straight xlen h show False by simp
    qed
    have "take (length xs) (drop h buf) = map Some xs"
      using ring_repD [OF Inline(2)] fit blen by (intro nth_equalityI) auto
    with straight fit Inline assms show ?thesis by simp
  next
    case wrapped
    obtain buf' where w: "write_all (replicate n None) 0 xs = Inr buf'" "ring_rep n buf' 0 xs"
      using write_all_ok [OF ring_rep_empty, of xs n] xlen by auto
    let ?t' = "if length xs = n then 0 else length xs"
    have "queue_inv n (Inline buf' 0 ?t' (length xs)) \<and> queue_list (Inline buf' 0 ?t' (length xs)) = xs"
      by (rule queue_InlineI [OF w(2)]) (use xlen in auto)
    moreover have "take (length xs) buf' = map Some xs"
    proof (intro nth_equalityI)
      show "length (take (length xs) buf') = length (map Some xs)"
        using w(2) by (simp add: ring_rep_def)
    next
      fix i assume "i < length (take (length xs) buf')"
      then show "take (length xs) buf' ! i = map Some xs ! i"
        using ring_repD [OF w(2), of i] xlen by simp
    qed
    ultimately show ?thesis
      using w wrapped Inline xlen by (auto simp: drain_ring_ok)
  qed
next
  case (Heap vec)
  then show ?thesis by simp
qed

section \<open>Iterators\<close>

lemma iter_take_heap: "length vec < k \<Longrightarrow> iter_take n k (IterHeap vec) = Inr vec"
  by (induction k arbitrary: vec) (auto split: list.splits simp: less_Suc_eq_0_disj)

lemma iter_take_inline:
  assumes "ring_rep n buf h xs"
  shows "j + length ys = length xs \<Longrightarrow> drop j xs = ys \<Longrightarrow> length ys < k \<Longrightarrow>
    iter_take n k (IterInline buf ((h + j) mod n) (length ys)) = Inr ys"
proof (induction ys arbitrary: j k)
  case Nil
  then obtain k' where "k = Suc k'" by (cases k) auto
  then show ?case by simp
next
  case (Cons y ys)
  then obtain k' where k: "k = Suc k'" by (cases k) auto
  have j: "j < length xs" using Cons.prems(1) by simp
  then have n: "0 < n" "length buf = n" using assms by (auto simp: ring_rep_def)
  have "xs ! j = y" using Cons.prems(2) j by (metis Cons_nth_drop_Suc list.inject)
  then have ref: "slot_ref buf ((h + j) mod n) = Inr y"
    using ring_repD [OF assms j] n by (simp add: slot_ref_ok)
  have "next_idx n ((h + j) mod n) = (h + Suc j) mod n"
    using n by (simp add: next_idx_mod mod_Suc_eq)
  moreover have "drop (Suc j) xs = ys"
    using Cons.prems(2) j by (metis Cons_nth_drop_Suc list.inject)
  ultimately show ?case
    using Cons.IH [of "Suc j" k'] Cons.prems ref k by simp
qed

lemma iter_collect_ok:
  assumes "queue_inv n q"
  shows "iter_collect n q = Inr (queue_list q)"
  using assms
proof (cases rule: queue_cases)
  case (Inline buf h xs)
  have h: "(h + 0) mod n = h"
    using Inline(2) by (auto simp: ring_rep_def)
  have "iter_take n (Suc (length xs)) (IterInline buf h (length xs)) = Inr xs"
    using iter_take_inline [OF Inline(2), of 0 xs "Suc (length xs)", unfolded h] by simp
  with Inline show ?thesis
    by (simp add: iter_collect_def del: iter_take.simps)
next
  case (Heap vec)
  then show ?thesis by (simp add: iter_collect_def iter_take_heap del: iter_take.simps)
qed

lemma queue_clone_ok:
  "queue_inv n q \<Longrightarrow> queue_clone cl n q = queue_extend n (map cl (queue_list q)) (queue_new n)"
  by (simp add: queue_clone_def iter_collect_ok)

lemma queue_eq_ok:
  assumes "queue_inv n q" "queue_inv n r"
  shows "queue_eq eqv n q r = Inr (list_all2 eqv (queue_list q) (queue_list r))"
  using assms
  by (auto simp: queue_eq_def iter_collect_ok queue_len_list list_all_iff list_all2_iff)

lemma queue_into_iter_ok:
  assumes "queue_inv n q"
  shows "queue_into_iter n q = Inr (queue_list q)"
  using into_vec_wp [OF assms] by (auto simp: queue_into_iter_def wp_ex)

lemma iter_mut_take_heap:
  "m < k \<Longrightarrow> iter_mut_take n k (IterMutHeap p m) = Inr [p..<p + m]"
proof (induction k arbitrary: p m)
  case 0
  then show ?case by simp
next
  case (Suc k)
  then show ?case by (cases m) (simp_all add: upt_rec)
qed

lemma iter_mut_take_inline:
  "h < n \<Longrightarrow> m \<le> n \<Longrightarrow> m < k \<Longrightarrow>
   iter_mut_take n k (IterMutInline n h m) = Inr (map (\<lambda>i. (h + i) mod n) [0..<m])"
proof (induction k arbitrary: h m)
  case 0
  then show ?case by simp
next
  case (Suc k)
  show ?case
  proof (cases m)
    case 0
    then show ?thesis by simp
  next
    case (Suc m')
    have "[0..<m] = 0 # map Suc [0..<m']"
      using Suc by (simp add: map_Suc_upt upt_conv_Cons del: upt_Suc)
    moreover have "(next_idx n h + i) mod n = (h + Suc i) mod n" for i
      using Suc.prems by (simp add: next_idx_mod mod_add_left_eq)
    ultimately show ?thesis
      using Suc.IH [of "next_idx n h" m'] Suc Suc.prems by (simp del: upt_Suc)
  qed
qed

text \<open>
  The \<open>&mut\<close> references handed out by one \<open>IterMut\<close> never alias, and the \<open>i\<close>-th one
  points to the slot of the \<open>i\<close>-th element.
\<close>

lemma iter_mut_collect_ok:
  assumes "queue_inv n q"
  shows "\<exists>refs. iter_mut_collect n q = Inr refs \<and> distinct refs \<and>
    length refs = length (queue_list q) \<and>
    (\<forall>i<length refs. case q of
        Inline buf _ _ _ \<Rightarrow> refs ! i < length buf \<and> buf ! (refs ! i) = Some (queue_list q ! i)
      | Heap vec \<Rightarrow> refs ! i < length vec \<and> vec ! (refs ! i) = queue_list q ! i)"
  using assms
proof (cases rule: queue_cases)
  case (Inline buf h xs)
  show ?thesis
  proof (cases "xs = []")
    case True
    with Inline show ?thesis by (simp add: iter_mut_collect_def)
  next
    case False
    then have h: "h < n" and len: "length xs \<le> n" "length buf = n"
      using Inline(2) by (auto simp: ring_rep_def)
    let ?refs = "map (\<lambda>i. (h + i) mod n) [0..<length xs]"
    have "iter_mut_collect n q = Inr ?refs"
      using iter_mut_take_inline [OF h len(1), of "Suc (length xs)"] Inline(1) len
      by (simp add: iter_mut_collect_def)
    moreover have "distinct ?refs"
      using len by (auto simp: distinct_map inj_on_def mod_add_eq_iff)
    moreover have "\<forall>i<length xs. (h + i) mod n < length buf \<and> buf ! ((h + i) mod n) = Some (xs ! i)"
      using ring_repD [OF Inline(2)] len h by simp
    ultimately show ?thesis using Inline by simp
  qed
next
  case (Heap vec)
  have "iter_mut_collect n q = Inr [0..<length vec]"
    using iter_mut_take_heap [of "length vec" "Suc (length vec)" n 0] Heap(1)
    by (simp add: iter_mut_collect_def del: iter_mut_take.simps)
  with Heap show ?thesis by simp
qed

end
