(* ===== verification/Queue_Refinement.thy ===== *)
theory Queue_Refinement
  imports Queue
begin

text \<open>
  The queue as a client sees it: every sequence of calls on any number of \<open>Queue<T, N>\<close>s behaves as on
  lists, for every inline capacity; then the two guarantees a list cannot express, panicking destructors
  and non-aliasing mutable references.
\<close>

section \<open>Refinement of lists\<close>

text \<open>
  A client's calls and their answers. \<open>queue_call\<close> runs a call on one queue; \<open>list_op\<close> says what it
  means on the list of the elements.
\<close>

datatype 'a qcall =
    PushBack 'a | PushFront 'a | PopFront | PopBack | Len | IsEmpty | Extend "'a list"
  | Reserve nat | MakeContiguous | Retain "'a \<Rightarrow> bool" | TakeWhere "'a \<Rightarrow> bool" | IntoVec
  | Clear | Swap nat nat | Iterate

datatype 'a answer = Done | Element "'a option" | Elements "'a list" | Count nat | Answer bool

fun queue_call :: "bool \<Rightarrow> nat \<Rightarrow> nat \<Rightarrow> 'a qcall \<Rightarrow> 'a queue \<Rightarrow> ('a answer \<times> 'a queue) res" where
  "queue_call checks sz n (PushBack x) q = rbind (push_back n x q) (\<lambda>q'. Inr (Done, q'))"
| "queue_call checks sz n (PushFront x) q = rbind (push_front n x q) (\<lambda>q'. Inr (Done, q'))"
| "queue_call checks sz n PopFront q = rbind (pop_front n q) (\<lambda>(r, q'). Inr (Element r, q'))"
| "queue_call checks sz n PopBack q = rbind (pop_back n q) (\<lambda>(r, q'). Inr (Element r, q'))"
| "queue_call checks sz n Len q = Inr (Count (queue_len q), q)"
| "queue_call checks sz n IsEmpty q = Inr (Answer (queue_is_empty q), q)"
| "queue_call checks sz n (Extend xs) q = rbind (queue_extend n xs q) (\<lambda>q'. Inr (Done, q'))"
| "queue_call checks sz n (Reserve k) q = rbind (reserve checks sz n k q) (\<lambda>q'. Inr (Done, q'))"
| "queue_call checks sz n MakeContiguous q =
     rbind (make_contiguous n q) (\<lambda>(q', off, len).
       Inr (Elements (case q' of Inline buf _ _ _ \<Rightarrow> map the (take len (drop off buf))
                      | Heap vec \<Rightarrow> take len (drop off vec)), q'))"
| "queue_call checks sz n (Retain p) q = rbind (retain n p q) (\<lambda>q'. Inr (Done, q'))"
| "queue_call checks sz n (TakeWhere p) q = rbind (take_where n p q) (\<lambda>(xs, q'). Inr (Elements xs, q'))"
| "queue_call checks sz n IntoVec q = rbind (into_vec n q) (\<lambda>(xs, q'). Inr (Elements xs, q'))"
| "queue_call checks sz n Clear q = rbind (queue_clear (\<lambda>_. False) n q) (\<lambda>(xs, _, q'). Inr (Elements xs, q'))"
| "queue_call checks sz n (Swap a b) q = rbind (queue_swap n a b q) (\<lambda>q'. Inr (Done, q'))"
| "queue_call checks sz n Iterate q = rbind (iter_collect n q) (\<lambda>xs. Inr (Elements xs, q))"

fun list_op :: "'a qcall \<Rightarrow> 'a list \<Rightarrow> ('a answer \<times> 'a list) res" where
  "list_op (PushBack x) xs = Inr (Done, xs @ [x])"
| "list_op (PushFront x) xs = Inr (Done, x # xs)"
| "list_op PopFront xs = Inr (case xs of [] \<Rightarrow> (Element None, []) | y # ys \<Rightarrow> (Element (Some y), ys))"
| "list_op PopBack xs =
     Inr (if xs = [] then (Element None, []) else (Element (Some (last xs)), butlast xs))"
| "list_op Len xs = Inr (Count (length xs), xs)"
| "list_op IsEmpty xs = Inr (Answer (xs = []), xs)"
| "list_op (Extend ys) xs = Inr (Done, xs @ ys)"
| "list_op (Reserve k) xs = Inr (Done, xs)"
| "list_op MakeContiguous xs = Inr (Elements xs, xs)"
| "list_op (Retain p) xs = Inr (Done, filter p xs)"
| "list_op (TakeWhere p) xs = Inr (Elements (filter p xs), filter (\<lambda>x. \<not> p x) xs)"
| "list_op IntoVec xs = Inr (Elements xs, [])"
| "list_op Clear xs = Inr (Elements xs, [])"
| "list_op (Swap a b) xs =
     (if a < length xs \<and> b < length xs then Inr (Done, xs[a := xs ! b, b := xs ! a])
      else Inl (Assertion ''index out of bounds''))"
| "list_op Iterate xs = Inr (Elements xs, xs)"

text \<open>
  The panics of \<open>reserve\<close> are not a matter of the elements alone: a request whose total is no \<open>usize\<close>
  wraps in a release build, and is then refused by the \<open>VecDeque\<close> once the queue has spilled, while an
  inline queue goes by the wrapped total. So the specification keeps, beside the list, whether the queue
  has spilled: it does when it first outgrows its inline capacity, by its elements or by a reservation,
  and no other call looks at it.
\<close>

definition reserve_spec :: "bool \<Rightarrow> nat \<Rightarrow> nat \<Rightarrow> nat \<Rightarrow> 'a list \<Rightarrow> bool \<Rightarrow> bool res" where
  "reserve_spec checks sz n k xs sp =
     (let total = (length xs + k) mod usize_bound in
      if usize_bound \<le> length xs + k \<and> checks then Inl (Overflow ''attempt to add with overflow'')
      else if usize_bound \<le> length xs + k \<and> sp then Inl (Overflow ''capacity overflow'')
      else if (sp \<or> n < total) \<and> isize_max < sz * total then Inl (Overflow ''capacity overflow'')
      else Inr (sp \<or> n < total))"

definition list_call ::
  "bool \<Rightarrow> nat \<Rightarrow> nat \<Rightarrow> 'a qcall \<Rightarrow> 'a list \<times> bool \<Rightarrow> ('a answer \<times> 'a list \<times> bool) res" where
  "list_call checks sz n c s =
     (case s of (xs, sp) \<Rightarrow>
        rbind (case c of Reserve k \<Rightarrow> reserve_spec checks sz n k xs sp | _ \<Rightarrow> Inr sp) (\<lambda>sp'.
        rbind (list_op c xs) (\<lambda>(a, ys). Inr (a, ys, sp' \<or> n < length ys))))"

text \<open>
  A program works on any number of queues: besides the calls above it makes a queue with a capacity or
  from a vector, clones one queue over another, and compares two. The element type brings its size, its
  \<open>clone\<close> and its \<open>==\<close>.
\<close>

record 'a elem_ops =
  eo_size :: nat
  eo_clone :: "'a \<Rightarrow> 'a"
  eo_eq :: "'a \<Rightarrow> 'a \<Rightarrow> bool"

datatype 'a pcall = On nat "'a qcall" | WithCapacity nat nat | FromVec nat "'a list" | CloneInto nat nat | Compare nat nat

fun queue_prog ::
  "bool \<Rightarrow> 'a elem_ops \<Rightarrow> nat \<Rightarrow> 'a pcall \<Rightarrow> (nat \<Rightarrow> 'a queue) \<Rightarrow> ('a answer \<times> (nat \<Rightarrow> 'a queue)) res" where
  "queue_prog checks E n (On i c) Q =
     rbind (queue_call checks (eo_size E) n c (Q i)) (\<lambda>(a, q). Inr (a, Q(i := q)))"
| "queue_prog checks E n (WithCapacity i k) Q =
     rbind (queue_with_capacity (eo_size E) n k) (\<lambda>q. Inr (Done, Q(i := q)))"
| "queue_prog checks E n (FromVec i xs) Q = rbind (queue_from_vec n xs) (\<lambda>q. Inr (Done, Q(i := q)))"
| "queue_prog checks E n (CloneInto i j) Q = rbind (queue_clone (eo_clone E) n (Q i)) (\<lambda>q. Inr (Done, Q(j := q)))"
| "queue_prog checks E n (Compare i j) Q = rbind (queue_eq (eo_eq E) n (Q i) (Q j)) (\<lambda>b. Inr (Answer b, Q))"

fun list_prog ::
  "bool \<Rightarrow> 'a elem_ops \<Rightarrow> nat \<Rightarrow> 'a pcall \<Rightarrow> (nat \<Rightarrow> 'a list \<times> bool)
   \<Rightarrow> ('a answer \<times> (nat \<Rightarrow> 'a list \<times> bool)) res" where
  "list_prog checks E n (On i c) L =
     rbind (list_call checks (eo_size E) n c (L i)) (\<lambda>(a, l). Inr (a, L(i := l)))"
| "list_prog checks E n (WithCapacity i k) L =
     (if n < k \<and> isize_max < eo_size E * k then Inl (Overflow ''capacity overflow'')
      else Inr (Done, L(i := ([], n < k))))"
| "list_prog checks E n (FromVec i xs) L = Inr (Done, L(i := (xs, n < length xs)))"
| "list_prog checks E n (CloneInto i j) L =
     (let xs = map (eo_clone E) (fst (L i)) in Inr (Done, L(j := (xs, n < length xs))))"
| "list_prog checks E n (Compare i j) L = Inr (Answer (list_all2 (eo_eq E) (fst (L i)) (fst (L j))), L)"

section \<open>Sequences of calls\<close>

text \<open>
  A component and its specification, each a function from a call and a state to an answer and the next
  state or a panic: if they agree call by call then they agree on every sequence of calls.
\<close>

fun run_calls :: "('c \<Rightarrow> 's \<Rightarrow> ('r \<times> 's) res) \<Rightarrow> 'c list \<Rightarrow> 's \<Rightarrow> ('r list \<times> 's) res" where
  "run_calls f [] s = Inr ([], s)"
| "run_calls f (c # cs) s =
     rbind (f c s) (\<lambda>(r, s'). rbind (run_calls f cs s') (\<lambda>(rs, s''). Inr (r # rs, s'')))"

definition in_step :: "('s \<Rightarrow> bool) \<Rightarrow> ('s \<Rightarrow> 't) \<Rightarrow> ('r \<times> 's) res \<Rightarrow> ('r \<times> 't) res \<Rightarrow> bool" where
  "in_step ok view r l \<longleftrightarrow>
     (case r of Inl e \<Rightarrow> l = Inl e | Inr (a, s) \<Rightarrow> ok s \<and> l = Inr (a, view s))"

lemma in_step_wp: "wp r (\<lambda>(a, s). ok s \<and> l = Inr (a, view s)) \<Longrightarrow> in_step ok view r l"
  by (cases r) (auto simp: in_step_def)

lemma in_step_Inl [simp]: "in_step ok view (Inl e) l \<longleftrightarrow> l = Inl e"
  and in_step_Inr [simp]: "in_step ok view (Inr (a, s)) l \<longleftrightarrow> ok s \<and> l = Inr (a, view s)"
  by (simp_all add: in_step_def)

locale call_refinement =
  fixes ok :: "'s \<Rightarrow> bool" and view :: "'s \<Rightarrow> 't"
    and impl :: "'c \<Rightarrow> 's \<Rightarrow> ('r \<times> 's) res" and spec :: "'c \<Rightarrow> 't \<Rightarrow> ('r \<times> 't) res"
  assumes call: "ok s \<Longrightarrow> in_step ok view (impl c s) (spec c (view s))"
begin

lemma calls: "ok s \<Longrightarrow> in_step ok view (run_calls impl cs s) (run_calls spec cs (view s))"
proof (induction cs arbitrary: s)
  case Nil
  then show ?case by simp
next
  case (Cons c cs)
  show ?case
  proof (cases "impl c s")
    case (Inl e)
    then show ?thesis using call [OF Cons.prems, of c] by simp
  next
    case (Inr p)
    obtain a t where p: "p = (a, t)" by (cases p)
    with Inr call [OF Cons.prems, of c] have t: "ok t" "spec c (view s) = Inr (a, view t)" by simp_all
    from Cons.IH [OF t(1)] show ?thesis
      using Inr p t by (cases "run_calls impl cs t") (auto simp: in_step_def)
  qed
qed

lemma calls_equal:
  "ok s \<Longrightarrow> rbind (run_calls impl cs s) (\<lambda>(as, t). Inr (as, view t)) = run_calls spec cs (view s)"
  using calls [of s cs] by (cases "run_calls impl cs s") auto

end

section \<open>Spilling\<close>

fun spilled :: "'a queue \<Rightarrow> bool" where
  "spilled (Inline buf head tail len) \<longleftrightarrow> False"
| "spilled (Heap vec) \<longleftrightarrow> True"

definition queue_abs :: "'a queue \<Rightarrow> 'a list \<times> bool" where
  "queue_abs q = (queue_list q, spilled q)"

lemma queue_abs_sel [simp]: "fst (queue_abs q) = queue_list q" "snd (queue_abs q) = spilled q"
  by (simp_all add: queue_abs_def)

text \<open>No call but \<open>reserve\<close> moves a queue to the heap unless its elements outgrow the inline ring.\<close>

abbreviation spill_ok :: "nat \<Rightarrow> 'a queue \<Rightarrow> 'a queue \<Rightarrow> bool" where
  "spill_ok n q q' \<equiv> (spilled q' \<longleftrightarrow> spilled q \<or> n < length (queue_list q'))"

lemma inline_le: "queue_inv n q \<Longrightarrow> \<not> spilled q \<Longrightarrow> length (queue_list q) \<le> n"
  by (cases q) (auto simp: queue_list.simps(1) queue_inv.simps(1))

lemma spill_refl: "queue_inv n q \<Longrightarrow> spill_ok n q q"
  using inline_le [of n q] by (cases "spilled q") auto

lemma spill_same: "queue_inv n q' \<Longrightarrow> spilled q' = spilled q \<Longrightarrow> spill_ok n q q'"
  using inline_le [of n q'] by (cases "spilled q") auto

lemma push_back_spill:
  assumes "queue_inv n q"
  shows "wp (push_back n x q) (\<lambda>q'. queue_inv n q' \<and> queue_list q' = queue_list q @ [x] \<and> spill_ok n q q')"
proof -
  obtain q' where q': "push_back n x q = Inr q'" "queue_inv n q'" "queue_list q' = queue_list q @ [x]"
    using push_back_wp [OF assms, of x] by (auto simp: wp_ex)
  then show ?thesis
    using inline_le [OF q'(2)] queue_len_list [OF assms]
    by (cases q) (auto simp: rbind_Inr_iff simp del: queue_list.simps split: if_splits)
qed

lemma push_front_spill:
  assumes "queue_inv n q"
  shows "wp (push_front n x q) (\<lambda>q'. queue_inv n q' \<and> queue_list q' = x # queue_list q \<and> spill_ok n q q')"
proof -
  obtain q' where q': "push_front n x q = Inr q'" "queue_inv n q'" "queue_list q' = x # queue_list q"
    using push_front_wp [OF assms, of x] by (auto simp: wp_ex)
  then show ?thesis
    using inline_le [OF q'(2)] queue_len_list [OF assms]
    by (cases q) (auto simp: rbind_Inr_iff Let_def simp del: queue_list.simps split: if_splits)
qed

lemma queue_extend_spill:
  "queue_inv n q \<Longrightarrow>
   wp (queue_extend n xs q) (\<lambda>q'. queue_inv n q' \<and> queue_list q' = queue_list q @ xs \<and> spill_ok n q q')"
proof (induction xs arbitrary: q)
  case Nil
  then show ?case using spill_refl [OF Nil] by simp
next
  case (Cons x xs)
  show ?case
    unfolding queue_extend.simps
  proof (rule wp_rbindI [OF push_back_spill [OF Cons.prems]])
    fix q1 assume q1: "queue_inv n q1 \<and> queue_list q1 = queue_list q @ [x] \<and> spill_ok n q q1"
    show "wp (queue_extend n xs q1) (\<lambda>q'. queue_inv n q' \<and> queue_list q' = queue_list q @ x # xs \<and> spill_ok n q q')"
      by (rule wp_mono [OF Cons.IH]) (use q1 in auto)
  qed
qed

lemma into_vec_spilled: "into_vec n q = Inr (xs, q') \<Longrightarrow> spilled q' = spilled q"
  by (cases q) (auto simp: rbind_Inr_iff)

lemma into_vec_spill:
  assumes "queue_inv n q"
  shows "wp (into_vec n q) (\<lambda>(xs, q'). xs = queue_list q \<and> queue_inv n q' \<and> queue_list q' = [] \<and> spilled q' = spilled q)"
  using into_vec_wp [OF assms] by (auto simp: wp_ex dest: into_vec_spilled)

lemma retain_loop_extend: "retain_loop n keep xs q = queue_extend n (filter keep xs) q"
  by (induction xs arbitrary: q) (auto intro: rbind_cong)

lemma retain_spill:
  assumes "queue_inv n q"
  shows "wp (retain n keep q) (\<lambda>q'. queue_inv n q' \<and> queue_list q' = filter keep (queue_list q) \<and> spill_ok n q q')"
  unfolding retain_def
  by (rule wp_rbindI [OF into_vec_spill [OF assms]])
    (auto simp: retain_loop_extend elim!: wp_mono dest!: queue_extend_spill [where xs = "filter keep (queue_list q)"])

lemma take_where_loop_extend:
  "take_where_loop n rm xs acc q =
   rbind (queue_extend n (filter (\<lambda>x. \<not> rm x) xs) q) (\<lambda>q'. Inr (acc @ filter rm xs, q'))"
proof (induction xs arbitrary: acc q)
  case Nil
  then show ?case by simp
next
  case (Cons x xs)
  then show ?case by (cases "push_back n x q") auto
qed

lemma take_where_spill:
  assumes "queue_inv n q"
  shows "wp (take_where n rm q) (\<lambda>(removed, q'). queue_inv n q' \<and> removed = filter rm (queue_list q) \<and>
    queue_list q' = filter (\<lambda>x. \<not> rm x) (queue_list q) \<and> spill_ok n q q')"
  unfolding take_where_def
  by (rule wp_rbindI [OF into_vec_spill [OF assms]])
    (auto simp: take_where_loop_extend elim!: wp_mono
      dest!: queue_extend_spill [where xs = "filter (\<lambda>x. \<not> rm x) (queue_list q)"])

lemma pop_spilled: "pop_front n q = Inr (r, q') \<Longrightarrow> spilled q' = spilled q"
    "pop_back n q = Inr (r, q') \<Longrightarrow> spilled q' = spilled q"
  by (cases q; auto simp: rbind_Inr_iff Let_def split: if_splits list.splits)+

lemma shape_spilled: "queue_swap n a b q = Inr q' \<Longrightarrow> spilled q' = spilled q"
    "make_contiguous n q = Inr (q', off, len) \<Longrightarrow> spilled q' = spilled q"
    "queue_clear boom n q = Inr (xs, u, q') \<Longrightarrow> spilled q' = spilled q"
  by (cases q; auto simp: rbind_Inr_iff rassert_def Let_def split: if_splits)+

text \<open>\<open>reserve\<close> panics and spills as its specification says, and keeps the elements.\<close>

lemma reserve_in_step:
  assumes "queue_inv n q"
  shows "case reserve_spec checks sz n k (queue_list q) (spilled q) of
    Inl e \<Rightarrow> reserve checks sz n k q = Inl e
  | Inr sp \<Rightarrow> wp (reserve checks sz n k q) (\<lambda>q'. queue_inv n q' \<and> queue_list q' = queue_list q \<and> spilled q' = sp)"
  using assms
proof (cases rule: queue_cases)
  case (Inline buf h xs)
  then show ?thesis
    using assms
    by (auto simp: reserve_spec_def usize_add_def wrapping_add_def vec_capacity_def rassert_def
        drain_ring_ok not_le not_less Let_def)
next
  case (Heap vec)
  then show ?thesis
    by (auto simp: reserve_spec_def usize_add_def checked_add_def vec_reserve_def vec_capacity_def
        rassert_def not_le not_less Let_def)
qed

section \<open>One call\<close>

lemma list_call_simps:
  "list_call checks sz n (Reserve k) (xs, sp) =
     rbind (reserve_spec checks sz n k xs sp) (\<lambda>sp'. Inr (Done, xs, sp' \<or> n < length xs))"
  "(\<And>k. c \<noteq> Reserve k) \<Longrightarrow>
   list_call checks sz n c (xs, sp) = rbind (list_op c xs) (\<lambda>(a, ys). Inr (a, ys, sp \<or> n < length ys))"
  by (auto simp: list_call_def split: qcall.splits)

lemma queue_call_wp:
  assumes "wp (queue_call checks sz n c q) (\<lambda>(a, q'). queue_inv n q' \<and> list_op c (queue_list q) = Inr (a, queue_list q') \<and>
      spill_ok n q q')"
    and "\<And>k. c \<noteq> Reserve k"
  shows "in_step (queue_inv n) queue_abs (queue_call checks sz n c q) (list_call checks sz n c (queue_abs q))"
  using assms by (intro in_step_wp) (auto simp: queue_abs_def list_call_simps elim!: wp_mono)

lemma spilled_new: "\<not> spilled (queue_new n)"
  by (simp add: queue_new_def)

lemma queue_call_lists:
  assumes inv: "queue_inv n q" and res: "\<And>k. c \<noteq> Reserve k"
    and swap: "\<And>a b. c = Swap a b \<Longrightarrow> a < length (queue_list q) \<and> b < length (queue_list q)"
  shows "wp (queue_call checks sz n c q) (\<lambda>(a, q'). queue_inv n q' \<and>
    list_op c (queue_list q) = Inr (a, queue_list q') \<and> spill_ok n q q')"
proof (cases c)
  case (PushBack x)
  then show ?thesis using push_back_spill [OF inv, of x] by (auto elim!: wp_mono)
next
  case (PushFront x)
  then show ?thesis using push_front_spill [OF inv, of x] by (auto elim!: wp_mono)
next
  case PopFront
  then show ?thesis
    using pop_front_wp [OF inv] inline_le
    by (fastforce simp: wp_ex dest: pop_spilled split: list.splits)
next
  case PopBack
  then show ?thesis
    using pop_back_wp [OF inv] inline_le by (fastforce simp: wp_ex dest: pop_spilled split: if_splits)
next
  case (Extend xs)
  then show ?thesis using queue_extend_spill [OF inv, of xs] by (auto elim!: wp_mono)
next
  case MakeContiguous
  then show ?thesis
    using make_contiguous_wp [OF inv]
  proof (elim wpE)
    fix p assume p: "make_contiguous n q = Inr p" and "case p of (q', off, len) \<Rightarrow> queue_inv n q' \<and>
      queue_list q' = queue_list q \<and> len = length (queue_list q) \<and>
      (case q' of Inline buf _ _ _ \<Rightarrow> off + len \<le> n \<and> take len (drop off buf) = map Some (queue_list q)
       | Heap vec \<Rightarrow> take len (drop off vec) = queue_list q)"
    then show ?thesis
      using MakeContiguous spill_same [of n "fst p" q] shape_spilled(2) [of n q "fst p" "fst (snd p)" "snd (snd p)"]
      by (cases "fst p") (auto simp: o_def)
  qed
next
  case (Retain p)
  then show ?thesis using retain_spill [OF inv, of p] by (auto elim!: wp_mono)
next
  case (TakeWhere p)
  then show ?thesis using take_where_spill [OF inv, of p] by (auto elim!: wp_mono)
next
  case IntoVec
  then show ?thesis using into_vec_spill [OF inv] by (auto elim!: wp_mono)
next
  case Clear
  then show ?thesis
    using queue_clear_wp [OF inv, of "\<lambda>_. False"] by (auto simp: wp_ex list_ex_iff dest: shape_spilled)
next
  case (Swap a b)
  obtain q' where q': "queue_swap n a b q = Inr q'" "queue_inv n q'"
    "queue_list q' = (queue_list q)[a := queue_list q ! b, b := queue_list q ! a]"
    using queue_swap_wp [OF inv, of a b] swap [OF Swap] by (auto simp: wp_ex simp del: queue_swap.simps)
  with Swap swap [OF Swap] spill_same [OF q'(2) shape_spilled(1) [OF q'(1)]] show ?thesis
    by (simp del: queue_swap.simps)
qed (use inv res spill_refl [OF inv] in \<open>auto simp: queue_len_list queue_is_empty_list iter_collect_ok\<close>)

lemma queue_call_in_step:
  assumes inv: "queue_inv n q"
  shows "in_step (queue_inv n) queue_abs (queue_call checks sz n c q) (list_call checks sz n c (queue_abs q))"
proof (cases "\<exists>k. c = Reserve k")
  case True
  then obtain k where k: "c = Reserve k" by blast
  show ?thesis
  proof (cases "reserve_spec checks sz n k (queue_list q) (spilled q)")
    case (Inl e)
    then show ?thesis using k reserve_in_step [OF inv, of checks sz k] by (simp add: queue_abs_def list_call_simps)
  next
    case (Inr sp)
    then obtain q' where q': "reserve checks sz n k q = Inr q'" "queue_inv n q'" "queue_list q' = queue_list q" "spilled q' = sp"
      using reserve_in_step [OF inv, of checks sz k] by (auto simp: wp_ex)
    then show ?thesis using k Inr inline_le [OF q'(2)] by (auto simp: queue_abs_def list_call_simps)
  qed
next
  case False
  show ?thesis
  proof (cases "\<exists>a b. c = Swap a b \<and> \<not> (a < length (queue_list q) \<and> b < length (queue_list q))")
    case True
    then show ?thesis
      using queue_swap_out_of_bounds [OF inv] by (auto simp: queue_abs_def list_call_simps not_less)
  next
    case bounds: False
    have "wp (queue_call checks sz n c q) (\<lambda>(a, q'). queue_inv n q' \<and>
        list_op c (queue_list q) = Inr (a, queue_list q') \<and> spill_ok n q q')"
      by (rule queue_call_lists [OF inv]) (use False bounds in auto)
    then show ?thesis by (rule queue_call_wp) (use False in auto)
  qed
qed

lemma queue_prog_in_step:
  assumes "\<forall>i. queue_inv n (Q i)"
  shows "in_step (\<lambda>Q. \<forall>i. queue_inv n (Q i)) (\<lambda>Q i. queue_abs (Q i))
    (queue_prog checks E n c Q) (list_prog checks E n c (\<lambda>i. queue_abs (Q i)))"
proof (cases c)
  case (On i d)
  have "in_step (queue_inv n) queue_abs (queue_call checks (eo_size E) n d (Q i))
      (list_call checks (eo_size E) n d (queue_abs (Q i)))"
    using assms by (intro queue_call_in_step) blast
  then show ?thesis
    using On assms by (cases "queue_call checks (eo_size E) n d (Q i)") (auto simp: fun_eq_iff)
next
  case (WithCapacity i k)
  then show ?thesis
    using assms by (auto simp: queue_with_capacity_def vec_capacity_def rassert_def queue_abs_def fun_eq_iff
        spilled_new)
next
  case (FromVec i xs)
  then show ?thesis
    using assms queue_extend_spill [OF queue_new_inv, of n xs]
    by (auto simp: queue_from_vec_def wp_ex queue_abs_def fun_eq_iff spilled_new)
next
  case (CloneInto i j)
  then show ?thesis
    using assms queue_extend_spill [OF queue_new_inv, of n "map (eo_clone E) (queue_list (Q i))"]
    by (auto simp: queue_clone_ok wp_ex queue_abs_def fun_eq_iff spilled_new Let_def)
next
  case (Compare i j)
  then show ?thesis using assms by (simp add: queue_eq_ok)
qed

interpretation qr: call_refinement "\<lambda>Q. \<forall>i. queue_inv n (Q i)" "\<lambda>Q i. queue_abs (Q i)"
  "queue_prog checks E n" "list_prog checks E n" for checks E n
  by unfold_locales (rule queue_prog_in_step)

text \<open>
  C12. Refinement. Whatever the inline capacity \<open>N\<close>, the element type (its size, \<open>clone\<close> and \<open>==\<close>), the
  build (with or without overflow checks) and the sequence of calls a client makes on its queues,
  comparisons and clones between them included, the answers, the panics (an index out of bounds, an
  overflowing sum, a capacity beyond \<open>isize::MAX\<close> bytes) and the final contents are those of lists; in
  particular no uninitialised slot is ever read, and only an overflowing \<open>reserve\<close> can tell that a
  queue has spilled to the heap.
\<close>

theorem queue_refines_list:
  "rbind (run_calls (queue_prog checks E n) cs (\<lambda>_. queue_new n)) (\<lambda>(as, Q). Inr (as, \<lambda>i. queue_abs (Q i))) =
   run_calls (list_prog checks E n) cs (\<lambda>_. ([], False))"
  using qr.calls_equal [of n "\<lambda>_. queue_new n" checks E cs] by (simp add: queue_abs_def spilled_new)

text \<open>
  C13. A panicking destructor during \<open>clear\<close>: what was dropped and what the queue still owns are
  together the old contents, so nothing is dropped twice or forgotten, and the queue is well formed.
\<close>

theorem queue_clear_panic_safe:
  assumes "queue_inv n q"
  shows "wp (queue_clear boom n q) (\<lambda>(dropped, unwinding, q'). queue_inv n q' \<and>
    dropped @ queue_list q' = queue_list q \<and> (unwinding \<longleftrightarrow> list_ex boom (queue_list q)) \<and>
    wp (queue_drop n q') (\<lambda>rest. dropped @ rest = queue_list q))"
  using queue_clear_wp [OF assms, of boom] by (auto elim!: wp_mono dest: queue_drop_wp)

theorem queue_clear_panic_safe_witness:
  "queue_clear (\<lambda>x. x = 2) 3 (Inline [Some (3::nat), Some 1, Some 2] 1 1 3) =
     Inr ([1, 2], True, Inline [Some 3, None, None] 0 1 1) \<and>
   queue_inv 3 (Inline [Some (3::nat), None, None] 0 1 1)"
proof -
  let ?q = "Inline [Some (3::nat), Some 1, Some 2] 1 1 3"
  have run: "queue_clear (\<lambda>x. x = 2) 3 ?q = Inr ([1, 2], True, Inline [Some 3, None, None] 0 1 1)" by code_simp
  have "queue_inv 3 ?q" by code_simp
  from queue_clear_panic_safe [OF this, of "\<lambda>x. x = 2", unfolded run wp_simps prod.case] run
  show ?thesis by (simp only: simp_thms)
qed

text \<open>
  \<open>iter_mut\<close> hands out one reference per element, in order, and no two references alias.
\<close>

lemma queue_iter_mut_distinct:
  assumes "queue_inv n q"
  shows "\<exists>refs. iter_mut_collect n q = Inr refs \<and> distinct refs \<and>
    map (\<lambda>r. case q of Inline buf _ _ _ \<Rightarrow> buf ! r | Heap vec \<Rightarrow> Some (vec ! r)) refs =
    map Some (queue_list q)"
proof -
  obtain refs where r: "iter_mut_collect n q = Inr refs" "distinct refs"
    "length refs = length (queue_list q)"
    "\<forall>i<length refs. case q of
        Inline buf _ _ _ \<Rightarrow> refs ! i < length buf \<and> buf ! (refs ! i) = Some (queue_list q ! i)
      | Heap vec \<Rightarrow> refs ! i < length vec \<and> vec ! (refs ! i) = queue_list q ! i"
    using iter_mut_collect_ok [OF assms] by blast
  have "map (\<lambda>r. case q of Inline buf _ _ _ \<Rightarrow> buf ! r | Heap vec \<Rightarrow> Some (vec ! r)) refs =
      map Some (queue_list q)"
    using r(3,4) by (intro nth_equalityI) (auto split: queue.splits)
  with r show ?thesis by blast
qed

end
