(* ===== verification/Systems.thy ===== *)
theory Systems
  imports Prelude
begin

text \<open>
  Runs of a component under an arbitrary schedule: the states reachable in a given number of
  steps, and the locales \<open>transition_system\<close> and \<open>invariant_system\<close>, whose lemma turns an invariant
  kept by every step into a fact about every reachable state; the locale \<open>simulation\<close> carries runs of a
  detailed system to runs of an abstract one, and \<open>scheduler\<close> runs a schedule. The step count bounds the number of \<open>u64\<close> tokens
  handed out, so that a hypothesis on it excludes the wrap-around of a token counter.
\<close>

inductive reach :: "('s \<Rightarrow> bool) \<Rightarrow> ('s \<Rightarrow> 's \<Rightarrow> bool) \<Rightarrow> nat \<Rightarrow> 's \<Rightarrow> bool"
  for init :: "'s \<Rightarrow> bool" and step :: "'s \<Rightarrow> 's \<Rightarrow> bool" where
  start: "init s \<Longrightarrow> reach init step 0 s"
| next_step: "reach init step n s \<Longrightarrow> step s t \<Longrightarrow> reach init step (Suc n) t"

locale transition_system =
  fixes init :: "'s \<Rightarrow> bool"
    and step :: "'s \<Rightarrow> 's \<Rightarrow> bool"
    and inv :: "nat \<Rightarrow> 's \<Rightarrow> bool"
  assumes inv_init: "init s \<Longrightarrow> inv 0 s"
    and inv_step: "inv n s \<Longrightarrow> Suc n < usize_bound \<Longrightarrow> step s t \<Longrightarrow> inv (Suc n) t"
begin

lemma reach_inv: "reach init step n s \<Longrightarrow> n < usize_bound \<Longrightarrow> inv n s"
proof (induction rule: reach.induct)
  case (start s)
  then show ?case by (simp add: inv_init)
next
  case (next_step n s t)
  then show ?case using inv_step by simp
qed

end

text \<open>The same for an invariant that needs no bound on the number of steps.\<close>

locale invariant_system =
  fixes init :: "'s \<Rightarrow> bool"
    and step :: "'s \<Rightarrow> 's \<Rightarrow> bool"
    and inv :: "'s \<Rightarrow> bool"
  assumes inv_start: "init s \<Longrightarrow> inv s"
    and inv_next: "inv s \<Longrightarrow> step s t \<Longrightarrow> inv t"
begin

lemma reachable_inv: "reach init step n s \<Longrightarrow> inv s"
  by (induction rule: reach.induct) (auto intro: inv_start inv_next)

end

sublocale invariant_system \<subseteq> counted: transition_system init step "\<lambda>_. inv"
  by unfold_locales (auto intro: inv_start inv_next)

text \<open>
  Refinement: every step of a detailed system is a step of an abstract one or leaves its state alone.
\<close>

locale simulation = invariant_system init step inv
  for init :: "'s \<Rightarrow> bool" and step :: "'s \<Rightarrow> 's \<Rightarrow> bool" and inv :: "'s \<Rightarrow> bool" +
  fixes abs_init :: "'t \<Rightarrow> bool"
    and abs_step :: "'t \<Rightarrow> 't \<Rightarrow> bool"
    and abs :: "'s \<Rightarrow> 't"
  assumes sim_start: "init s \<Longrightarrow> abs_init (abs s)"
    and sim_next: "inv s \<Longrightarrow> step s t \<Longrightarrow> abs t = abs s \<or> abs_step (abs s) (abs t)"
begin

lemma simulated: "reach init step n s \<Longrightarrow> \<exists>m \<le> n. reach abs_init abs_step m (abs s)"
proof (induction rule: reach.induct)
  case (start s)
  then show ?case using sim_start reach.start by (metis le_refl)
next
  case (next_step n s t)
  then obtain m where m: "m \<le> n" "reach abs_init abs_step m (abs s)" by blast
  from sim_next [OF reachable_inv [OF next_step(1)] next_step(2)] show ?case
  proof
    assume "abs t = abs s"
    then show ?thesis using m le_Suc_eq by auto
  next
    assume "abs_step (abs s) (abs t)"
    then show ?thesis using m reach.next_step Suc_le_mono by metis
  qed
qed

end

text \<open>
  Schedules that can be run: \<open>act\<close> performs one action of a schedule, as a step of the system or as nothing.
\<close>

fun run :: "('a \<Rightarrow> 's \<Rightarrow> 's res) \<Rightarrow> 'a list \<Rightarrow> 's \<Rightarrow> 's res" where
  "run act [] s = Inr s"
| "run act (a # acts) s = rbind (act a s) (run act acts)"

locale scheduler = invariant_system init step inv
  for init :: "'s \<Rightarrow> bool" and step :: "'s \<Rightarrow> 's \<Rightarrow> bool" and inv :: "'s \<Rightarrow> bool" +
  fixes act :: "'a \<Rightarrow> 's \<Rightarrow> 's res"
  assumes act_step: "inv s \<Longrightarrow> act a s = Inr t \<Longrightarrow> t = s \<or> step s t"
begin

lemma run_bounded:
  "reach init step n s \<Longrightarrow> run act acts s = Inr t \<Longrightarrow> \<exists>m \<le> n + length acts. reach init step m t"
proof (induction acts arbitrary: n s)
  case (Cons a acts)
  obtain u where u: "act a s = Inr u" "run act acts u = Inr t"
    using Cons.prems(2) by (auto simp: rbind_Inr_iff)
  obtain m where m: "m \<le> Suc n" "reach init step m u"
    using act_step [OF reachable_inv [OF Cons.prems(1)] u(1)] Cons.prems(1) reach.next_step [OF Cons.prems(1)]
    by (metis le_Suc_eq order_refl)
  obtain k where "k \<le> m + length acts" "reach init step k t" using Cons.IH [OF m(2) u(2)] by blast
  then show ?case using m(1) by (intro exI [of _ k]) simp
qed auto

lemma run_reach: "reach init step n s \<Longrightarrow> run act acts s = Inr t \<Longrightarrow> \<exists>m. reach init step m t"
  using run_bounded by blast

end

text \<open>
  What the executor knows of a live future: the waker of its last poll, and whether its task has
  been woken since. Waking a task notifies every future last polled by that task.
\<close>

record fut =
  fut_waker :: "waker option"
  fut_notified :: bool

definition new_fut :: fut where
  "new_fut = \<lparr>fut_waker = None, fut_notified = False\<rparr>"

definition polled :: "waker \<Rightarrow> fut" where
  "polled w = \<lparr>fut_waker = Some w, fut_notified = False\<rparr>"

definition wake_fut :: "waker list \<Rightarrow> fut \<Rightarrow> fut" where
  "wake_fut ws x =
     (case fut_waker x of
        Some w \<Rightarrow> if w \<in> set ws then x\<lparr>fut_notified := True\<rparr> else x
      | None \<Rightarrow> x)"

lemma wake_fut_waker [simp]: "fut_waker (wake_fut ws x) = fut_waker x"
  by (simp add: wake_fut_def split: option.splits)

lemma wake_fut_notified:
  "fut_notified (wake_fut ws x) \<longleftrightarrow>
   fut_notified x \<or> (\<exists>w \<in> set ws. fut_waker x = Some w)"
  by (auto simp: wake_fut_def split: option.splits)

lemma wake_fut_Nil [simp]: "wake_fut [] x = x"
  by (simp add: wake_fut_def split: option.splits)

lemma new_fut_simps [simp]: "fut_waker new_fut = None" "\<not> fut_notified new_fut"
  by (simp_all add: new_fut_def)

lemma polled_simps [simp]: "fut_waker (polled w) = Some w" "\<not> fut_notified (polled w)"
  by (simp_all add: polled_def)

text \<open>The live futures of a component, each with its own state \<open>'s\<close>.\<close>

type_synonym 's futs = "nat \<rightharpoonup> 's \<times> fut"

definition notify :: "waker list \<Rightarrow> 's futs \<Rightarrow> 's futs" where
  "notify ws futs = (\<lambda>f. map_option (\<lambda>(s, x). (s, wake_fut ws x)) (futs f))"

lemma notify_Nil [simp]: "notify [] futs = futs"
  by (auto simp: notify_def fun_eq_iff option.map_ident split_def)

lemma notify_Some:
  "notify ws futs f = Some (s, y) \<longleftrightarrow> (\<exists>x. futs f = Some (s, x) \<and> y = wake_fut ws x)"
  by (cases "futs f") (auto simp: notify_def)

lemma notify_None [simp]: "notify ws futs f = None \<longleftrightarrow> futs f = None"
  by (simp add: notify_def)

lemma dom_notify [simp]: "dom (notify ws futs) = dom futs"
  by (auto simp: dom_def notify_def)

lemma wake_fut_wake_fut: "wake_fut ws (wake_fut vs x) = wake_fut (vs @ ws) x"
  by (auto simp: wake_fut_def split: option.splits)

lemma notify_notify: "notify ws (notify vs futs) = notify (vs @ ws) futs"
  by (auto simp: notify_def fun_eq_iff option.map_comp o_def split_def wake_fut_wake_fut
      intro!: option.map_cong)

end
