(* ===== verification/Waiters.thy ===== *)
theory Waiters
  imports Queue Systems
begin

text \<open>
  The waiter bookkeeping shared by \<open>LocalMutex\<close> and \<open>LocalRwLock\<close>: a
  \<open>Queue<(u64, Rc<Waker>), 8>\<close> of \<open>(id, waker)\<close> entries, a counter of fresh ids, and in each
  future a slot that remembers its own entry. \<open>register_in\<close> and \<open>deregister_in\<close> are the two free
  functions of \<open>rwlock.rs\<close>; the methods of \<open>mutex.rs\<close> have the same bodies.
\<close>

type_synonym entry = "nat \<times> waker"
type_synonym waiters = "entry queue"
type_synonym slot = "entry option"

text \<open>\<open>q.iter().any(p)\<close>.\<close>

definition iter_any :: "nat \<Rightarrow> ('a \<Rightarrow> bool) \<Rightarrow> 'a queue \<Rightarrow> bool res" where
  "iter_any n p q = rbind (iter_collect n q) (\<lambda>xs. Inr (list_ex p xs))"

definition register_in ::
  "waiters \<Rightarrow> nat \<Rightarrow> slot \<Rightarrow> waker \<Rightarrow> (waiters \<times> nat \<times> slot) res" where
  "register_in q next_id slot waker =
     rbind (case slot of
              Some (tok, w) \<Rightarrow>
                if will_wake w waker
                then rbind (iter_any 8 (\<lambda>(qid, _). qid = tok) q) (\<lambda>b. Inr (\<not> b))
                else Inr True
            | None \<Rightarrow> Inr True)
     (\<lambda>stale.
        if \<not> stale then Inr (q, next_id, slot)
        else
          (let (tok, next_id') =
                 (case slot of Some (tok, _) \<Rightarrow> (tok, next_id)
                  | None \<Rightarrow> (next_id, wrapping_add next_id 1))
           in rbind (take_where 8 (\<lambda>(qid, _). qid = tok) q) (\<lambda>(removed, q').
              rbind (push_back 8 (tok, waker) q') (\<lambda>q''.
                Inr (q'', next_id', Some (tok, waker))))))"

definition deregister_in :: "waiters \<Rightarrow> slot \<Rightarrow> (waiters \<times> slot) res" where
  "deregister_in q slot =
     (case slot of
        Some (tok, _) \<Rightarrow>
          rbind (take_where 8 (\<lambda>(qid, _). qid = tok) q) (\<lambda>(removed, q'). Inr (q', None))
      | None \<Rightarrow> Inr (q, None))"

section \<open>Specifications\<close>

interpretation wq: waiter_deque "queue_inv 8" queue_list "queue_new 8" "push_back 8"
  "push_front 8" "pop_front 8" "pop_back 8" "take_where 8" "fst :: entry \<Rightarrow> nat"
  by unfold_locales

lemma iter_any_ok: "queue_inv n q \<Longrightarrow> iter_any n p q = Inr (list_ex p (queue_list q))"
  by (simp add: iter_any_def iter_collect_ok)

lemma fst_eq_pred: "(\<lambda>(qid, _). qid = tok) = (\<lambda>e. fst e = tok)"
  by (auto simp: fun_eq_iff)

text \<open>The id of a registration: the future's own, or a fresh one.\<close>

definition slot_id :: "nat \<Rightarrow> slot \<Rightarrow> nat" where
  "slot_id fresh slot = (case slot of Some (tok, _) \<Rightarrow> tok | None \<Rightarrow> fresh)"

lemma slot_id_simps [simp]:
  "slot_id fresh None = fresh" "slot_id fresh (Some (tok, w)) = tok"
  by (simp_all add: slot_id_def)

lemma register_in_wp:
  assumes "queue_inv 8 q"
  shows "wp (register_in q nid slot w) (\<lambda>(q', nid', slot'). queue_inv 8 q' \<and>
    (if \<exists>tok. slot = Some (tok, w) \<and> tok \<in> fst ` set (queue_list q)
     then q' = q \<and> nid' = nid \<and> slot' = slot
     else slot' = Some (slot_id nid slot, w) \<and>
          nid' = (if slot = None then wrapping_add nid 1 else nid) \<and>
          queue_list q' = filter (\<lambda>e. fst e \<noteq> slot_id nid slot) (queue_list q) @ [(slot_id nid slot, w)]))"
proof -
  have upd: "wp (rbind (take_where 8 (\<lambda>(qid, _). qid = tok) q) (\<lambda>(removed, q').
        rbind (push_back 8 (tok, w) q') (\<lambda>q''. Inr (q'', nid', Some (tok, w)))))
      (\<lambda>(q', n, slot'). queue_inv 8 q' \<and> slot' = Some (tok, w) \<and> n = nid' \<and>
         queue_list q' = filter (\<lambda>e. fst e \<noteq> tok) (queue_list q) @ [(tok, w)])" for tok nid'
    using wq.renew [OF assms, of tok "(tok, w)"]
    by (simp add: fst_eq_pred split_def)
  show ?thesis
  proof (cases slot)
    case None
    then show ?thesis using upd [of nid "wrapping_add nid 1"] by (simp add: register_in_def)
  next
    case (Some e)
    obtain tok v where e: "e = (tok, v)" by (cases e)
    have any: "list_ex (\<lambda>(qid, _). qid = tok) (queue_list q) = (tok \<in> fst ` set (queue_list q))"
      by (force simp: list_ex_iff)
    show ?thesis
    proof (cases "v = w \<and> tok \<in> fst ` set (queue_list q)")
      case True
      then show ?thesis
        using Some e assms any by (simp add: register_in_def will_wake_def iter_any_ok)
    next
      case False
      then have eq: "register_in q nid slot w =
          rbind (take_where 8 (\<lambda>(qid, _). qid = tok) q) (\<lambda>(removed, q').
            rbind (push_back 8 (tok, w) q') (\<lambda>q''. Inr (q'', nid, Some (tok, w))))"
        using Some e assms any by (auto simp: register_in_def will_wake_def iter_any_ok)
      have no: "\<not> (\<exists>t. slot = Some (t, w) \<and> t \<in> fst ` set (queue_list q))"
        using False Some e by auto
      show ?thesis
        unfolding eq if_not_P [OF no]
        by (rule wp_mono [OF upd]) (auto simp: Some e)
    qed
  qed
qed

text \<open>The waiter list without the entry a slot remembers.\<close>

definition without :: "slot \<Rightarrow> entry list \<Rightarrow> entry list" where
  "without slot L = (case slot of None \<Rightarrow> L | Some (tok, _) \<Rightarrow> filter (\<lambda>e. fst e \<noteq> tok) L)"

lemma without_simps [simp]:
  "without None L = L" "without (Some (tok, w)) L = filter (\<lambda>e. fst e \<noteq> tok) L"
  by (simp_all add: without_def)

lemma deregister_in_wp:
  assumes "queue_inv 8 q"
  shows "wp (deregister_in q slot) (\<lambda>(q', slot'). queue_inv 8 q' \<and> slot' = None \<and>
    queue_list q' = without slot (queue_list q))"
proof (cases slot)
  case None
  then show ?thesis using assms by (simp add: deregister_in_def)
next
  case (Some e)
  then show ?thesis
    using wq.remove [OF assms, of "fst e"]
    by (auto simp: deregister_in_def without_def fst_eq_pred split_def elim!: wp_mono)
qed

section \<open>Consistency of a waiter list with its futures\<close>

text \<open>
  \<open>waiters_ok L n futs\<close>: every entry of \<open>L\<close> belongs to a live future that remembers it, no two
  futures share an id, ids are below the counter \<open>n\<close>, and a future whose entry is no longer queued
  has been notified since its last poll.
\<close>

definition waiters_ok :: "entry list \<Rightarrow> nat \<Rightarrow> slot futs \<Rightarrow> bool" where
  "waiters_ok L n futs \<longleftrightarrow>
     distinct (map fst L) \<and>
     (\<forall>t w. (t, w) \<in> set L \<longrightarrow> (\<exists>f x. futs f = Some (Some (t, w), x))) \<and>
     (\<forall>f t w x. futs f = Some (Some (t, w), x) \<longrightarrow>
        t < n \<and> fut_waker x = Some w \<and> (t \<notin> fst ` set L \<longrightarrow> fut_notified x)) \<and>
     (\<forall>f g t v w x y. futs f = Some (Some (t, v), x) \<longrightarrow> futs g = Some (Some (t, w), y) \<longrightarrow> f = g)"

lemma waiters_okD:
  assumes "waiters_ok L n futs"
  shows "distinct (map fst L)"
    and "(t, w) \<in> set L \<Longrightarrow> \<exists>f x. futs f = Some (Some (t, w), x)"
    and "futs f = Some (Some (t, w), x) \<Longrightarrow> t < n"
    and "futs f = Some (Some (t, w), x) \<Longrightarrow> fut_waker x = Some w"
    and "futs f = Some (Some (t, w), x) \<Longrightarrow> t \<notin> fst ` set L \<Longrightarrow> fut_notified x"
    and "futs f = Some (Some (t, v), x) \<Longrightarrow> futs g = Some (Some (t, w), y) \<Longrightarrow> f = g"
  using assms unfolding waiters_ok_def by blast+

lemma waiters_okI:
  assumes "distinct (map fst L)"
    and "\<And>t w. (t, w) \<in> set L \<Longrightarrow> \<exists>f x. futs f = Some (Some (t, w), x)"
    and "\<And>f t w x. futs f = Some (Some (t, w), x) \<Longrightarrow>
           t < n \<and> fut_waker x = Some w \<and> (t \<notin> fst ` set L \<longrightarrow> fut_notified x)"
    and "\<And>f g t v w x y. futs f = Some (Some (t, v), x) \<Longrightarrow> futs g = Some (Some (t, w), y) \<Longrightarrow> f = g"
  shows "waiters_ok L n futs"
  unfolding waiters_ok_def using assms by blast

lemma waiters_ok_init [simp]: "waiters_ok [] n Map.empty"
  by (simp add: waiters_ok_def)

lemma waiters_ok_mono: "waiters_ok L n futs \<Longrightarrow> n \<le> m \<Longrightarrow> waiters_ok L m futs"
  unfolding waiters_ok_def by (meson less_le_trans)

lemma waiters_ok_new:
  assumes "waiters_ok L n futs" "futs f = None"
  shows "waiters_ok L n (futs(f \<mapsto> (None, x)))"
proof (rule waiters_okI)
  show "distinct (map fst L)" by (rule waiters_okD [OF assms(1)])
next
  fix t w assume "(t, w) \<in> set L"
  then obtain g y where "futs g = Some (Some (t, w), y)"
    using waiters_okD(2) [OF assms(1)] by blast
  moreover have "g \<noteq> f" using calculation assms(2) by auto
  ultimately show "\<exists>f' x'. (futs(f \<mapsto> (None, x))) f' = Some (Some (t, w), x')"
    by (metis fun_upd_other)
qed (use waiters_okD [OF assms(1)] in \<open>auto split: if_splits\<close>)

lemma waiters_ok_notify:
  assumes "waiters_ok L n futs"
  shows "waiters_ok L n (notify ws futs)"
proof (rule waiters_okI)
  show "distinct (map fst L)" by (rule waiters_okD [OF assms])
next
  fix t w assume "(t, w) \<in> set L"
  then show "\<exists>f x. notify ws futs f = Some (Some (t, w), x)"
    using waiters_okD(2) [OF assms] by (fastforce simp: notify_Some)
qed (use waiters_okD [OF assms] in \<open>auto simp: notify_Some wake_fut_notified\<close>)

lemma waiters_ok_pop:
  assumes "waiters_ok ((t, w) # L) n futs"
  shows "waiters_ok L n (notify [w] futs)"
proof (rule waiters_okI)
  show "distinct (map fst L)" using waiters_okD(1) [OF assms] by simp
next
  fix t' w' assume "(t', w') \<in> set L"
  then show "\<exists>f x. notify [w] futs f = Some (Some (t', w'), x)"
    using waiters_okD(2) [OF assms, of t' w'] by (fastforce simp: notify_Some)
next
  fix f t' w' y assume "notify [w] futs f = Some (Some (t', w'), y)"
  then obtain x where x: "futs f = Some (Some (t', w'), x)" "y = wake_fut [w] x"
    by (auto simp: notify_Some)
  have "fut_notified y" if "t' \<notin> fst ` set L"
  proof (cases "t' = t")
    case True
    obtain g z where "futs g = Some (Some (t, w), z)"
      using waiters_okD(2) [OF assms, of t w] by auto
    then have "w' = w"
      using waiters_okD(6) [OF assms] x True by (metis Pair_inject option.inject)
    then show ?thesis
      using waiters_okD(4) [OF assms x(1)] x(2) by (simp add: wake_fut_notified)
  next
    case False
    then show ?thesis
      using waiters_okD(5) [OF assms x(1)] that x(2) by (simp add: wake_fut_notified)
  qed
  then show "t' < n \<and> fut_waker y = Some w' \<and> (t' \<notin> fst ` set L \<longrightarrow> fut_notified y)"
    using waiters_okD(3,4) [OF assms x(1)] x(2) by simp
qed (use waiters_okD(6) [OF assms] in \<open>auto simp: notify_Some\<close>)

lemma waiters_ok_remove:
  assumes "waiters_ok L n futs" "futs f = Some (sl, x)"
  shows "waiters_ok (without sl L) n (futs(f := None))"
    (is "waiters_ok ?L n _")
proof (rule waiters_okI)
  show "distinct (map fst ?L)"
    using waiters_okD(1) [OF assms(1)]
    by (auto simp: distinct_map_filter without_def split: option.splits)
next
  fix t w assume in_L: "(t, w) \<in> set ?L"
  then have "(t, w) \<in> set L" by (auto simp: without_def split: option.splits)
  then obtain g y where g: "futs g = Some (Some (t, w), y)"
    using waiters_okD(2) [OF assms(1)] by blast
  have "g \<noteq> f"
    using g assms(2) in_L by (auto simp: without_def split: option.splits)
  with g show "\<exists>g x. (futs(f := None)) g = Some (Some (t, w), x)"
    by (metis fun_upd_other)
next
  fix g t w y assume "(futs(f := None)) g = Some (Some (t, w), y)"
  then have g: "g \<noteq> f" "futs g = Some (Some (t, w), y)" by (auto split: if_splits)
  have "t \<in> fst ` set L \<Longrightarrow> t \<in> fst ` set ?L"
    using g assms(2) waiters_okD(6) [OF assms(1) g(2)] by (fastforce simp: without_def split: option.splits)
  then show "t < n \<and> fut_waker y = Some w \<and> (t \<notin> fst ` set ?L \<longrightarrow> fut_notified y)"
    using waiters_okD [OF assms(1)] g(2) by blast
qed (use waiters_okD(6) [OF assms(1)] in \<open>auto split: if_splits\<close>)

text \<open>The effect of \<open>register_in\<close> on the list level.\<close>

definition registered ::
  "entry list \<Rightarrow> nat \<Rightarrow> slot \<Rightarrow> waker \<Rightarrow> entry list \<Rightarrow> nat \<Rightarrow> slot \<Rightarrow> bool" where
  "registered L n sl w L' n' sl' \<longleftrightarrow>
     (if \<exists>t. sl = Some (t, w) \<and> t \<in> fst ` set L then L' = L \<and> n' = n \<and> sl' = sl
      else sl' = Some (slot_id n sl, w) \<and> n' = (if sl = None then wrapping_add n 1 else n) \<and>
           L' = filter (\<lambda>e. fst e \<noteq> slot_id n sl) L @ [(slot_id n sl, w)])"

lemma register_in_registered:
  "queue_inv 8 q \<Longrightarrow>
   wp (register_in q n sl w) (\<lambda>(q', n', sl'). queue_inv 8 q' \<and>
     registered (queue_list q) n sl w (queue_list q') n' sl')"
  using register_in_wp [of q n sl w]
  by (rule wp_mono) (auto simp: registered_def split: if_splits)

lemma waiters_ok_keep:
  assumes ok: "waiters_ok L n futs" and f: "futs f = Some (sl, x)" and t: "sl = Some (t, w)" "t \<in> fst ` set L"
  shows "waiters_ok L n (futs(f \<mapsto> (sl, polled w)))"
proof (rule waiters_okI)
  fix t' w' assume "(t', w') \<in> set L"
  then show "\<exists>g y. (futs(f \<mapsto> (sl, polled w))) g = Some (Some (t', w'), y)"
    using waiters_okD(2) [OF ok] f by (metis fun_upd_apply option.inject prod.inject)
qed (use waiters_okD [OF ok] f t in \<open>auto split: if_splits\<close>)

lemma waiters_ok_renew:
  assumes ok: "waiters_ok L n futs" and f: "futs f = Some (sl, x)" and t_def: "t = slot_id n sl"
    and eq: "sl' = Some (t, w)" "n' = (if sl = None then Suc n else n)"
      "L' = filter (\<lambda>e. fst e \<noteq> t) L @ [(t, w)]"
  shows "waiters_ok L' n' (futs(f \<mapsto> (sl', polled w)))"
proof -
  have uniq: "g = f" if "futs g = Some (Some (t, v), y)" for g v y
    using that f waiters_okD(3,6) [OF ok] by (cases sl) (auto simp: t_def)
  have t_less: "t < n'"
    using f waiters_okD(3) [OF ok] eq(2) by (cases sl) (auto simp: t_def)
  show ?thesis
  proof (rule waiters_okI)
    show "distinct (map fst L')"
      using waiters_okD(1) [OF ok] wq.renew_distinct [of L "(t, w)"] eq by simp
  next
    fix t' w' assume in_L': "(t', w') \<in> set L'"
    show "\<exists>g y. (futs(f \<mapsto> (sl', polled w))) g = Some (Some (t', w'), y)"
    proof (cases "t' = t")
      case True
      then show ?thesis using in_L' eq by auto
    next
      case False
      then have "(t', w') \<in> set L" using in_L' eq by auto
      then obtain g y where g: "futs g = Some (Some (t', w'), y)"
        using waiters_okD(2) [OF ok] by blast
      moreover have "g \<noteq> f" using g f False by (cases sl) (auto simp: t_def)
      ultimately show ?thesis by (metis fun_upd_other)
    qed
  next
    fix g t' w' y assume g: "(futs(f \<mapsto> (sl', polled w))) g = Some (Some (t', w'), y)"
    show "t' < n' \<and> fut_waker y = Some w' \<and> (t' \<notin> fst ` set L' \<longrightarrow> fut_notified y)"
    proof (cases "g = f")
      case True
      then show ?thesis using g eq t_less by auto
    next
      case False
      then have "futs g = Some (Some (t', w'), y)" "t' \<noteq> t" using g uniq by auto
      moreover have "t' \<in> fst ` set L \<Longrightarrow> t' \<in> fst ` set L'" using eq \<open>t' \<noteq> t\<close> by force
      moreover have "n \<le> n'" using eq by simp
      ultimately show ?thesis
        using waiters_okD(3-5) [OF ok] by (meson less_le_trans)
    qed
  next
    fix g h t' v v' y z
    assume "(futs(f \<mapsto> (sl', polled w))) g = Some (Some (t', v), y)"
      and "(futs(f \<mapsto> (sl', polled w))) h = Some (Some (t', v'), z)"
    then show "g = h"
      using uniq eq waiters_okD(6) [OF ok] by (auto split: if_splits)
  qed
qed

lemma waiters_ok_register:
  assumes ok: "waiters_ok L n futs" and f: "futs f = Some (sl, x)"
    and reg: "registered L n sl w L' n' sl'" and n: "Suc n < usize_bound"
  shows "waiters_ok L' n' (futs(f \<mapsto> (sl', polled w))) \<and> n' \<le> Suc n \<and> n \<le> n' \<and>
    (\<exists>t. sl' = Some (t, w) \<and> t \<in> fst ` set L')"
proof (cases "\<exists>t. sl = Some (t, w) \<and> t \<in> fst ` set L")
  case True
  then obtain t where t: "sl = Some (t, w)" "t \<in> fst ` set L" by blast
  have "L' = L" "n' = n" "sl' = sl" using reg True by (simp_all add: registered_def)
  then show ?thesis using t waiters_ok_keep [OF ok f t] by simp
next
  case False
  define t where "t = slot_id n sl"
  have eq: "sl' = Some (t, w)" "n' = (if sl = None then Suc n else n)"
      "L' = filter (\<lambda>e. fst e \<noteq> t) L @ [(t, w)]"
    using reg False n by (auto simp: registered_def t_def wrapping_add_small)
  with waiters_ok_renew [OF ok f t_def eq] show ?thesis by simp
qed

end
