(* ===== verification/Mutex.thy ===== *)
theory Mutex
  imports Waiters
begin

text \<open>
  \<open>LocalMutex<T>\<close> of \<open>src/src/site_c/mutex.rs\<close>: the lock flag, the waiter queue, the id counter
  and the protected value, with every operation of the mutex, of its lock future and of its guard.
  The second half runs any number of futures, guards and \<open>try_lock\<close> calls against one mutex in any
  order and shows mutual exclusion and that no wakeup is lost.
\<close>

section \<open>The mutex\<close>

record 'a local_mutex =
  mx_locked :: bool
  mx_waiters :: waiters
  mx_next_id :: nat
  mx_value :: 'a

definition mutex_new :: "'a \<Rightarrow> 'a local_mutex" where
  "mutex_new v = \<lparr>mx_locked = False, mx_waiters = queue_new 8, mx_next_id = 0, mx_value = v\<rparr>"

text \<open>A lock future is its \<open>registered\<close> slot.\<close>

definition mutex_lock :: slot where
  "mutex_lock = None"

text \<open>\<open>!self.locked.replace(true)\<close>: the flag is written in both cases.\<close>

definition mutex_try_lock :: "'a local_mutex \<Rightarrow> bool \<times> 'a local_mutex" where
  "mutex_try_lock m = (\<not> mx_locked m, m\<lparr>mx_locked := True\<rparr>)"

definition mutex_is_locked :: "'a local_mutex \<Rightarrow> bool" where
  "mutex_is_locked m = mx_locked m"

definition mutex_into_inner :: "'a local_mutex \<Rightarrow> 'a" where
  "mutex_into_inner m = mx_value m"

definition mutex_get_mut :: "('a \<Rightarrow> 'a) \<Rightarrow> 'a local_mutex \<Rightarrow> 'a local_mutex" where
  "mutex_get_mut upd m = m\<lparr>mx_value := upd (mx_value m)\<rparr>"

definition mutex_wake_next :: "'a local_mutex \<Rightarrow> (waker list \<times> 'a local_mutex) res" where
  "mutex_wake_next m =
     (if mx_locked m then Inr ([], m)
      else
        rbind (pop_front 8 (mx_waiters m)) (\<lambda>(nxt, q).
          let m' = m\<lparr>mx_waiters := q\<rparr> in
          case nxt of
            Some (_, waker) \<Rightarrow> Inr ([waker], m')
          | None \<Rightarrow> Inr ([], m')))"

definition mutex_unlock :: "'a local_mutex \<Rightarrow> (waker list \<times> 'a local_mutex) res" where
  "mutex_unlock m = mutex_wake_next (m\<lparr>mx_locked := False\<rparr>)"

definition mutex_register :: "slot \<Rightarrow> waker \<Rightarrow> 'a local_mutex \<Rightarrow> (slot \<times> 'a local_mutex) res" where
  "mutex_register slot waker m =
     rbind (register_in (mx_waiters m) (mx_next_id m) slot waker) (\<lambda>(q, next_id, slot').
       Inr (slot', m\<lparr>mx_waiters := q, mx_next_id := next_id\<rparr>))"

definition mutex_deregister :: "slot \<Rightarrow> 'a local_mutex \<Rightarrow> (slot \<times> 'a local_mutex) res" where
  "mutex_deregister slot m =
     rbind (deregister_in (mx_waiters m) slot) (\<lambda>(q, slot').
       Inr (slot', m\<lparr>mx_waiters := q\<rparr>))"

text \<open>\<open>Future::poll\<close>; \<open>Ready\<close> is the guard.\<close>

definition mutex_poll ::
  "slot \<Rightarrow> waker \<Rightarrow> 'a local_mutex \<Rightarrow> (unit poll \<times> slot \<times> 'a local_mutex) res" where
  "mutex_poll slot waker m =
     (let (got, m1) = mutex_try_lock m in
      if got then
        rbind (mutex_deregister slot m1) (\<lambda>(slot', m2). Inr (Ready (), slot', m2))
      else
        rbind (mutex_register slot waker m1) (\<lambda>(slot', m2).
          let (got', m3) = mutex_try_lock m2 in
          if got' then
            rbind (mutex_deregister slot' m3) (\<lambda>(slot'', m4). Inr (Ready (), slot'', m4))
          else Inr (Pending, slot', m3)))"

text \<open>\<open>Drop\<close> of the future, and of the guard.\<close>

definition mutex_drop_future :: "slot \<Rightarrow> 'a local_mutex \<Rightarrow> (waker list \<times> 'a local_mutex) res" where
  "mutex_drop_future slot m =
     (if slot \<noteq> None then
        rbind (mutex_deregister slot m) (\<lambda>(_, m'). mutex_wake_next m')
      else Inr ([], m))"

definition mutex_guard_drop :: "'a local_mutex \<Rightarrow> (waker list \<times> 'a local_mutex) res" where
  "mutex_guard_drop m = mutex_unlock m"

definition mutex_guard_deref :: "'a local_mutex \<Rightarrow> 'a" where
  "mutex_guard_deref m = mx_value m"

definition mutex_guard_deref_mut :: "('a \<Rightarrow> 'a) \<Rightarrow> 'a local_mutex \<Rightarrow> 'a local_mutex" where
  "mutex_guard_deref_mut upd m = m\<lparr>mx_value := upd (mx_value m)\<rparr>"

text \<open>
  \<open>Debug for LocalMutex\<close>: the flag, and the value if the lock can be taken for the formatting
  (the guard is dropped afterwards), else the text \<open><locked>\<close>.
\<close>

definition mutex_debug ::
  "'a local_mutex \<Rightarrow> ((bool \<times> 'a option) \<times> waker list \<times> 'a local_mutex) res" where
  "mutex_debug m =
     (let (got, m1) = mutex_try_lock m in
      if got then
        rbind (mutex_guard_drop m1) (\<lambda>(ws, m2).
          Inr ((mx_locked m, Some (mutex_guard_deref m1)), ws, m2))
      else Inr ((mx_locked m, None), [], m1))"

section \<open>Specifications\<close>

lemma mutex_wake_next_wp:
  assumes "queue_inv 8 (mx_waiters m)"
  shows "wp (mutex_wake_next m) (\<lambda>(ws, m'). queue_inv 8 (mx_waiters m') \<and>
    mx_locked m' = mx_locked m \<and> mx_next_id m' = mx_next_id m \<and> mx_value m' = mx_value m \<and>
    (if mx_locked m \<or> queue_list (mx_waiters m) = []
     then ws = [] \<and> queue_list (mx_waiters m') = queue_list (mx_waiters m)
     else ws = [snd (hd (queue_list (mx_waiters m)))] \<and>
          queue_list (mx_waiters m') = tl (queue_list (mx_waiters m))))"
proof (cases "mx_locked m")
  case True
  with assms show ?thesis by (simp add: mutex_wake_next_def)
next
  case False
  with pop_front_wp [OF assms] show ?thesis
    by (cases "queue_list (mx_waiters m)")
      (auto simp: mutex_wake_next_def Let_def split_def elim!: wp_mono)
qed

lemma mutex_register_wp:
  assumes "queue_inv 8 (mx_waiters m)"
  shows "wp (mutex_register sl w m) (\<lambda>(sl', m'). queue_inv 8 (mx_waiters m') \<and>
    registered (queue_list (mx_waiters m)) (mx_next_id m) sl w
      (queue_list (mx_waiters m')) (mx_next_id m') sl' \<and>
    mx_locked m' = mx_locked m \<and> mx_value m' = mx_value m)"
  unfolding mutex_register_def
  by (rule wp_rbindI [OF register_in_registered [OF assms]]) auto

lemma mutex_deregister_wp:
  assumes "queue_inv 8 (mx_waiters m)"
  shows "wp (mutex_deregister sl m) (\<lambda>(sl', m'). queue_inv 8 (mx_waiters m') \<and> sl' = None \<and>
    mx_locked m' = mx_locked m \<and> mx_next_id m' = mx_next_id m \<and> mx_value m' = mx_value m \<and>
    queue_list (mx_waiters m') = without sl (queue_list (mx_waiters m)))"
  unfolding mutex_deregister_def
  by (rule wp_rbindI [OF deregister_in_wp [OF assms]]) auto

text \<open>A poll takes the lock if and only if it is free; otherwise the future ends up queued.\<close>

lemma mutex_poll_wp:
  assumes "queue_inv 8 (mx_waiters m)"
  shows "wp (mutex_poll sl w m) (\<lambda>(r, sl', m'). queue_inv 8 (mx_waiters m') \<and> mx_locked m' \<and>
    mx_value m' = mx_value m \<and>
    (if mx_locked m
     then r = Pending \<and> registered (queue_list (mx_waiters m)) (mx_next_id m) sl w
            (queue_list (mx_waiters m')) (mx_next_id m') sl'
     else r = Ready () \<and> sl' = None \<and> mx_next_id m' = mx_next_id m \<and>
          queue_list (mx_waiters m') = without sl (queue_list (mx_waiters m))))"
proof -
  let ?m = "m\<lparr>mx_locked := True\<rparr>"
  have "queue_inv 8 (mx_waiters ?m)" using assms by simp
  from mutex_register_wp [OF this, of sl w] mutex_deregister_wp [OF this, of sl] show ?thesis
    by (auto simp: mutex_poll_def mutex_try_lock_def elim!: wp_mono)
qed

lemma mutex_unlock_wp:
  assumes "queue_inv 8 (mx_waiters m)"
  shows "wp (mutex_unlock m) (\<lambda>(ws, m'). queue_inv 8 (mx_waiters m') \<and>
    \<not> mx_locked m' \<and> mx_next_id m' = mx_next_id m \<and> mx_value m' = mx_value m \<and>
    ws = map snd (take 1 (queue_list (mx_waiters m))) \<and>
    queue_list (mx_waiters m') = tl (queue_list (mx_waiters m)))"
proof -
  have "queue_inv 8 (mx_waiters (m\<lparr>mx_locked := False\<rparr>))" using assms by simp
  from mutex_wake_next_wp [OF this] show ?thesis
    unfolding mutex_unlock_def
    by (rule wp_mono) (cases "queue_list (mx_waiters m)", auto)
qed

lemma mutex_drop_future_wp:
  assumes "queue_inv 8 (mx_waiters m)"
  shows "wp (mutex_drop_future sl m) (\<lambda>(ws, m'). queue_inv 8 (mx_waiters m') \<and>
    mx_locked m' = mx_locked m \<and> mx_next_id m' = mx_next_id m \<and> mx_value m' = mx_value m \<and>
    (if mx_locked m \<or> sl = None
     then ws = [] \<and> queue_list (mx_waiters m') = without sl (queue_list (mx_waiters m))
     else ws = map snd (take 1 (without sl (queue_list (mx_waiters m)))) \<and>
          queue_list (mx_waiters m') = tl (without sl (queue_list (mx_waiters m)))))"
proof (cases sl)
  case None
  with assms show ?thesis by (simp add: mutex_drop_future_def)
next
  case (Some e)
  have "wp (rbind (mutex_deregister sl m) (\<lambda>(_, m'). mutex_wake_next m')) (\<lambda>(ws, m').
      queue_inv 8 (mx_waiters m') \<and>
      mx_locked m' = mx_locked m \<and> mx_next_id m' = mx_next_id m \<and> mx_value m' = mx_value m \<and>
      (if mx_locked m then ws = [] \<and> queue_list (mx_waiters m') = without sl (queue_list (mx_waiters m))
       else ws = map snd (take 1 (without sl (queue_list (mx_waiters m)))) \<and>
            queue_list (mx_waiters m') = tl (without sl (queue_list (mx_waiters m)))))"
  proof (rule wp_rbindI [OF mutex_deregister_wp [OF assms]], clarsimp, goal_cases)
    case (1 m')
    from mutex_wake_next_wp [OF 1(1)] show ?case
      by (rule wp_mono) (use 1 in \<open>cases "without sl (queue_list (mx_waiters m))"; auto\<close>)
  qed
  with Some show ?thesis by (simp add: mutex_drop_future_def)
qed

lemma mutex_debug_wp:
  assumes "queue_inv 8 (mx_waiters m)"
  shows "wp (mutex_debug m) (\<lambda>((l, v), ws, m'). l = mx_locked m \<and> queue_inv 8 (mx_waiters m') \<and>
    mx_locked m' = mx_locked m \<and> mx_value m' = mx_value m \<and>
    v = (if mx_locked m then None else Some (mx_value m)))"
proof -
  have "queue_inv 8 (mx_waiters (m\<lparr>mx_locked := True\<rparr>))" using assms by simp
  from mutex_unlock_wp [OF this] assms show ?thesis
    by (auto simp: mutex_debug_def mutex_try_lock_def mutex_guard_drop_def mutex_guard_deref_def
        elim!: wp_mono)
qed

section \<open>Any number of tasks on one mutex\<close>

text \<open>
  The state of a run: the mutex, the live lock futures with their slots, and the number of live
  guards. A step is one call: creating a future, polling it with any waker, dropping it, a
  \<open>try_lock\<close>, a write through a guard, dropping a guard, or formatting the mutex.
\<close>

record 'a mutex_sys =
  ms_mutex :: "'a local_mutex"
  ms_futs :: "slot futs"
  ms_guards :: nat

definition mutex_init :: "'a mutex_sys \<Rightarrow> bool" where
  "mutex_init s \<longleftrightarrow> (\<exists>v. s = \<lparr>ms_mutex = mutex_new v, ms_futs = Map.empty, ms_guards = 0\<rparr>)"

inductive mutex_step :: "'a mutex_sys \<Rightarrow> 'a mutex_sys \<Rightarrow> bool" where
  lock: "ms_futs s f = None \<Longrightarrow>
    mutex_step s (s\<lparr>ms_futs := (ms_futs s)(f \<mapsto> (mutex_lock, new_fut))\<rparr>)"
| poll_ready: "ms_futs s f = Some (sl, x) \<Longrightarrow>
    mutex_poll sl w (ms_mutex s) = Inr (Ready (), sl', m) \<Longrightarrow>
    mutex_step s (s\<lparr>ms_mutex := m, ms_futs := (ms_futs s)(f := None),
                    ms_guards := Suc (ms_guards s)\<rparr>)"
| poll_pending: "ms_futs s f = Some (sl, x) \<Longrightarrow>
    mutex_poll sl w (ms_mutex s) = Inr (Pending, sl', m) \<Longrightarrow>
    mutex_step s (s\<lparr>ms_mutex := m, ms_futs := (ms_futs s)(f \<mapsto> (sl', polled w))\<rparr>)"
| cancel: "ms_futs s f = Some (sl, x) \<Longrightarrow>
    mutex_drop_future sl (ms_mutex s) = Inr (ws, m) \<Longrightarrow>
    mutex_step s (s\<lparr>ms_mutex := m, ms_futs := notify ws ((ms_futs s)(f := None))\<rparr>)"
| try_lock_ok: "mutex_try_lock (ms_mutex s) = (True, m) \<Longrightarrow>
    mutex_step s (s\<lparr>ms_mutex := m, ms_guards := Suc (ms_guards s)\<rparr>)"
| try_lock_fail: "mutex_try_lock (ms_mutex s) = (False, m) \<Longrightarrow>
    mutex_step s (s\<lparr>ms_mutex := m\<rparr>)"
| guard_write: "0 < ms_guards s \<Longrightarrow>
    mutex_step s (s\<lparr>ms_mutex := mutex_guard_deref_mut upd (ms_mutex s)\<rparr>)"
| guard_drop: "0 < ms_guards s \<Longrightarrow>
    mutex_guard_drop (ms_mutex s) = Inr (ws, m) \<Longrightarrow>
    mutex_step s (s\<lparr>ms_mutex := m, ms_futs := notify ws (ms_futs s), ms_guards := ms_guards s - 1\<rparr>)"
| debug: "mutex_debug (ms_mutex s) = Inr (out, ws, m) \<Longrightarrow>
    mutex_step s (s\<lparr>ms_mutex := m, ms_futs := notify ws (ms_futs s)\<rparr>)"

text \<open>
  The invariant: at most one guard, and exactly when the flag is set; the waiter list fits the live
  futures; and while the lock is free, either nobody is queued or some registered future that is no
  longer queued carries an unconsumed wakeup (the torch).
\<close>

definition mutex_inv :: "nat \<Rightarrow> 'a mutex_sys \<Rightarrow> bool" where
  "mutex_inv n s \<longleftrightarrow>
     (let m = ms_mutex s; L = queue_list (mx_waiters m) in
      queue_inv 8 (mx_waiters m) \<and>
      ms_guards s = (if mx_locked m then 1 else 0) \<and>
      waiters_ok L (mx_next_id m) (ms_futs s) \<and> mx_next_id m \<le> n \<and>
      (\<not> mx_locked m \<longrightarrow> L \<noteq> [] \<longrightarrow>
        (\<exists>f t w x. ms_futs s f = Some (Some (t, w), x) \<and> t \<notin> fst ` set L \<and> fut_notified x)))"

lemma mutex_invD:
  assumes "mutex_inv n s"
  shows "queue_inv 8 (mx_waiters (ms_mutex s))"
    and "ms_guards s = (if mx_locked (ms_mutex s) then 1 else 0)"
    and "waiters_ok (queue_list (mx_waiters (ms_mutex s))) (mx_next_id (ms_mutex s)) (ms_futs s)"
    and "mx_next_id (ms_mutex s) \<le> n"
    and "\<not> mx_locked (ms_mutex s) \<Longrightarrow> queue_list (mx_waiters (ms_mutex s)) \<noteq> [] \<Longrightarrow>
      \<exists>f t w x. ms_futs s f = Some (Some (t, w), x) \<and>
        t \<notin> fst ` set (queue_list (mx_waiters (ms_mutex s))) \<and> fut_notified x"
  using assms by (auto simp: mutex_inv_def Let_def)

text \<open>Popping the front waiter passes the torch to a live, notified future.\<close>

lemma pop_torch:
  assumes "waiters_ok (e # L) n futs"
  shows "waiters_ok L n (notify [snd e] futs) \<and>
    (\<exists>f t w x. notify [snd e] futs f = Some (Some (t, w), x) \<and> t \<notin> fst ` set L \<and> fut_notified x)"
proof -
  obtain t w where e: "e = (t, w)" by (cases e)
  obtain f x where f: "futs f = Some (Some (t, w), x)"
    using waiters_okD(2) [OF assms, of t w] e by auto
  have ok: "waiters_ok L n (notify [w] futs)" using waiters_ok_pop assms e by simp
  have "notify [w] futs f = Some (Some (t, w), wake_fut [w] x)"
    using f by (auto simp: notify_Some)
  moreover have "t \<notin> fst ` set L"
    using waiters_okD(1) [OF assms] e by force
  moreover from calculation ok have "fut_notified (wake_fut [w] x)"
    using waiters_okD(5) by blast
  ultimately show ?thesis using ok e by auto
qed

lemma torch_tl:
  assumes "waiters_ok L n futs"
  shows "waiters_ok (tl L) n (notify (map snd (take 1 L)) futs) \<and>
    (tl L \<noteq> [] \<longrightarrow> (\<exists>f t w x. notify (map snd (take 1 L)) futs f = Some (Some (t, w), x) \<and>
       t \<notin> fst ` set (tl L) \<and> fut_notified x))"
  using assms pop_torch by (cases L) auto

lemma mutex_inv_init: "mutex_init s \<Longrightarrow> mutex_inv 0 s"
  by (auto simp: mutex_init_def mutex_inv_def mutex_new_def Let_def)

lemma mutex_inv_unlocked:
  assumes "ms_mutex s = m" "ms_futs s = notify ws futs" "ms_guards s = 0"
    and "queue_inv 8 (mx_waiters m)" "\<not> mx_locked m" "mx_next_id m \<le> n"
    and "waiters_ok L (mx_next_id m) futs"
    and "queue_list (mx_waiters m) = tl L" "ws = map snd (take 1 L)"
  shows "mutex_inv n s"
  using assms torch_tl [OF assms(7)] by (simp add: mutex_inv_def Let_def)

lemma mutex_inv_locked:
  assumes "ms_mutex s = m" "ms_guards s = 1"
    and "queue_inv 8 (mx_waiters m)" "mx_locked m" "mx_next_id m \<le> n"
    and "waiters_ok (queue_list (mx_waiters m)) (mx_next_id m) (ms_futs s)"
  shows "mutex_inv n s"
  using assms by (simp add: mutex_inv_def Let_def)

lemma mutex_inv_step_poll_ready:
  assumes inv: "mutex_inv n s" and n: "Suc n < usize_bound"
    and poll_ready: "t = s\<lparr>ms_mutex := m, ms_futs := (ms_futs s)(f := None), ms_guards := Suc (ms_guards s)\<rparr>"
      "ms_futs s f = Some (sl, x)"
      "mutex_poll sl w (ms_mutex s) = Inr (Ready (), sl', m)"
  shows "mutex_inv (Suc n) t"
proof -
  have "\<not> mx_locked (ms_mutex s)" "queue_inv 8 (mx_waiters m)" "mx_locked m"
    "mx_next_id m = mx_next_id (ms_mutex s)"
    "queue_list (mx_waiters m) = without sl (queue_list (mx_waiters (ms_mutex s)))"
    using mutex_poll_wp [OF mutex_invD(1) [OF inv], of sl w] poll_ready(3)
    by (auto split: if_splits)
  then show ?thesis
    using mutex_invD [OF inv] waiters_ok_remove [OF mutex_invD(3) [OF inv] poll_ready(2)]
    unfolding poll_ready(1) by (intro mutex_inv_locked [OF refl]) auto
qed

lemma mutex_inv_step_poll_pending:
  assumes inv: "mutex_inv n s" and n: "Suc n < usize_bound"
    and poll_pending: "t = s\<lparr>ms_mutex := m, ms_futs := (ms_futs s)(f \<mapsto> (sl', polled w))\<rparr>"
      "ms_futs s f = Some (sl, x)"
      "mutex_poll sl w (ms_mutex s) = Inr (Pending, sl', m)"
  shows "mutex_inv (Suc n) t"
proof -
  have *: "mx_locked (ms_mutex s)" "queue_inv 8 (mx_waiters m)" "mx_locked m"
    "registered (queue_list (mx_waiters (ms_mutex s))) (mx_next_id (ms_mutex s)) sl w
       (queue_list (mx_waiters m)) (mx_next_id m) sl'"
    using mutex_poll_wp [OF mutex_invD(1) [OF inv], of sl w] poll_pending(3)
    by (auto split: if_splits)
  have "Suc (mx_next_id (ms_mutex s)) < usize_bound" using mutex_invD(4) [OF inv] n by simp
  from waiters_ok_register [OF mutex_invD(3) [OF inv] poll_pending(2) *(4) this]
  show ?thesis
    using mutex_invD [OF inv] * unfolding poll_pending(1)
    by (intro mutex_inv_locked [OF refl]) auto
qed

lemma mutex_inv_step_cancel:
  assumes inv: "mutex_inv n s" and n: "Suc n < usize_bound"
    and cancel: "t = s\<lparr>ms_mutex := m, ms_futs := notify ws ((ms_futs s)(f := None))\<rparr>"
      "ms_futs s f = Some (sl, x)"
      "mutex_drop_future sl (ms_mutex s) = Inr (ws, m)"
  shows "mutex_inv (Suc n) t"
proof -
  note ok = waiters_ok_remove [OF mutex_invD(3) [OF inv] cancel(2)]
  have *: "queue_inv 8 (mx_waiters m)" "mx_locked m = mx_locked (ms_mutex s)"
    "mx_next_id m = mx_next_id (ms_mutex s)"
    "if mx_locked (ms_mutex s) \<or> sl = None
     then ws = [] \<and> queue_list (mx_waiters m) = without sl (queue_list (mx_waiters (ms_mutex s)))
     else ws = map snd (take 1 (without sl (queue_list (mx_waiters (ms_mutex s))))) \<and>
          queue_list (mx_waiters m) = tl (without sl (queue_list (mx_waiters (ms_mutex s))))"
    using mutex_drop_future_wp [OF mutex_invD(1) [OF inv], of sl] cancel(3) by auto
  consider (locked) "mx_locked (ms_mutex s)" | (idle) "\<not> mx_locked (ms_mutex s)" "sl = None"
    | (free) "\<not> mx_locked (ms_mutex s)" "sl \<noteq> None" by blast
  then show ?thesis
  proof cases
    case locked
    then show ?thesis
      using mutex_invD [OF inv] * ok unfolding cancel(1)
      by (intro mutex_inv_locked [OF refl]) auto
  next
    case idle
    have "\<exists>g t w y. ((ms_futs s)(f := None)) g = Some (Some (t, w), y) \<and>
        t \<notin> fst ` set (queue_list (mx_waiters m)) \<and> fut_notified y"
      if "queue_list (mx_waiters m) \<noteq> []"
      using mutex_invD(5) [OF inv] that * idle cancel(2)
      by (auto, metis fun_upd_other option.inject option.distinct(1) prod.inject)
    then show ?thesis
      using mutex_invD [OF inv] * ok idle unfolding cancel(1)
      by (auto simp: mutex_inv_def Let_def)
  next
    case free
    then show ?thesis
      using mutex_invD [OF inv] * ok unfolding cancel(1)
      by (intro mutex_inv_unlocked [OF refl]) (auto split: if_splits)
  qed
qed

lemma mutex_inv_step_guard_drop:
  assumes inv: "mutex_inv n s" and n: "Suc n < usize_bound"
    and guard_drop: "t = s\<lparr>ms_mutex := m, ms_futs := notify ws (ms_futs s), ms_guards := ms_guards s - 1\<rparr>"
      "0 < ms_guards s"
      "mutex_guard_drop (ms_mutex s) = Inr (ws, m)"
  shows "mutex_inv (Suc n) t"
proof -
  have "queue_inv 8 (mx_waiters m)" "\<not> mx_locked m" "mx_next_id m = mx_next_id (ms_mutex s)"
    "ws = map snd (take 1 (queue_list (mx_waiters (ms_mutex s))))"
    "queue_list (mx_waiters m) = tl (queue_list (mx_waiters (ms_mutex s)))"
    using mutex_unlock_wp [OF mutex_invD(1) [OF inv]] guard_drop(3)
    by (auto simp: mutex_guard_drop_def)
  moreover have "ms_guards s - 1 = 0" using mutex_invD(2) [OF inv] by simp
  ultimately show ?thesis
    using mutex_invD [OF inv] unfolding guard_drop(1)
    by (intro mutex_inv_unlocked [OF refl]) (auto split: if_splits)
qed

lemma mutex_inv_step_debug:
  assumes inv: "mutex_inv n s" and n: "Suc n < usize_bound"
    and debug: "t = s\<lparr>ms_mutex := m, ms_futs := notify ws (ms_futs s)\<rparr>"
      "mutex_debug (ms_mutex s) = Inr (out, ws, m)"
  shows "mutex_inv (Suc n) t"
proof -
  show ?thesis
  proof (cases "mx_locked (ms_mutex s)")
    case True
    with debug show ?thesis
      using mutex_invD [OF inv] by (auto simp: mutex_inv_def Let_def mutex_debug_def mutex_try_lock_def)
  next
    case False
    let ?m = "(ms_mutex s)\<lparr>mx_locked := True\<rparr>"
    have "queue_inv 8 (mx_waiters ?m)" using mutex_invD(1) [OF inv] by simp
    from mutex_unlock_wp [OF this] debug(2) False
    have "queue_inv 8 (mx_waiters m)" "\<not> mx_locked m" "mx_next_id m = mx_next_id (ms_mutex s)"
      "ws = map snd (take 1 (queue_list (mx_waiters (ms_mutex s))))"
      "queue_list (mx_waiters m) = tl (queue_list (mx_waiters (ms_mutex s)))"
      by (auto simp: mutex_debug_def mutex_try_lock_def mutex_guard_drop_def rbind_Inr_iff)
    then show ?thesis
      using mutex_invD [OF inv] False unfolding debug(1)
      by (intro mutex_inv_unlocked [OF refl]) (auto split: if_splits)
  qed
qed

lemma mutex_inv_step:
  assumes inv: "mutex_inv n s" and n: "Suc n < usize_bound" and step: "mutex_step s t"
  shows "mutex_inv (Suc n) t"
  using step
proof cases
  case (lock f)
  show ?thesis
    using mutex_invD [OF inv] waiters_ok_new [OF mutex_invD(3) [OF inv] lock(2)] lock
    by (auto simp: mutex_inv_def Let_def mutex_lock_def)
      (metis fun_upd_other option.distinct(1))
next
  case (poll_ready f sl x w sl' m)
  then show ?thesis by (rule mutex_inv_step_poll_ready [OF inv n])
next
  case (poll_pending f sl x w sl' m)
  then show ?thesis by (rule mutex_inv_step_poll_pending [OF inv n])
next
  case (cancel f sl x ws m)
  then show ?thesis by (rule mutex_inv_step_cancel [OF inv n])
next
  case (try_lock_ok m)
  then show ?thesis
    using mutex_invD [OF inv] unfolding try_lock_ok(1)
    by (intro mutex_inv_locked [OF refl]) (auto simp: mutex_try_lock_def)
next
  case (try_lock_fail m)
  then show ?thesis
    using mutex_invD [OF inv] unfolding try_lock_fail(1)
    by (intro mutex_inv_locked [OF refl]) (auto simp: mutex_try_lock_def)
next
  case (guard_write upd)
  then show ?thesis
    using mutex_invD [OF inv] by (auto simp: mutex_inv_def Let_def mutex_guard_deref_mut_def)
next
  case (guard_drop ws m)
  then show ?thesis by (rule mutex_inv_step_guard_drop [OF inv n])
next
  case (debug out ws m)
  then show ?thesis by (rule mutex_inv_step_debug [OF inv n])
qed

interpretation mx: transition_system mutex_init mutex_step mutex_inv
  by unfold_locales (auto intro: mutex_inv_init mutex_inv_step)

section \<open>Correctness\<close>

text \<open>A run: task 7 takes the lock, task 8 queues behind it, and the guard is dropped.\<close>

lemma mutex_run:
  "\<exists>s. reach mutex_init mutex_step 5 s \<and> \<not> mutex_is_locked (ms_mutex s) \<and>
     (\<exists>e x. ms_futs (s :: nat mutex_sys) 1 = Some (Some e, x))"
proof -
  define m1 where "m1 = (mutex_new (0::nat))\<lparr>mx_locked := True\<rparr>"
  have poll0: "mutex_poll mutex_lock 7 (mutex_new 0) = Inr (Ready (), None, m1)"
    unfolding m1_def by code_simp
  have "queue_inv 8 (mx_waiters m1)" by (simp add: m1_def mutex_new_def)
  from mutex_poll_wp [OF this, of None 8] obtain e m2
    where poll1: "mutex_poll mutex_lock 8 m1 = Inr (Pending, Some e, m2)"
      and m2: "queue_inv 8 (mx_waiters m2)"
    by (auto simp: m1_def wp_ex registered_def mutex_lock_def split: if_splits)
  from mutex_unlock_wp [OF m2] obtain ws m3 where
    unlock: "mutex_guard_drop m2 = Inr (ws, m3)" "\<not> mx_locked m3"
    by (auto simp: wp_ex mutex_guard_drop_def)
  let ?s = "\<lambda>m futs k. \<lparr>ms_mutex = m, ms_futs = futs, ms_guards = k\<rparr>"
  let ?new = "(mutex_lock, new_fut)"
  have "reach mutex_init mutex_step 0 (?s (mutex_new 0) Map.empty 0)"
    by (rule reach.start) (auto simp: mutex_init_def)
  from reach.next_step [OF this, OF mutex_step.lock [where f = 0]]
  have "reach mutex_init mutex_step 1 (?s (mutex_new 0) [0 \<mapsto> ?new] 0)" by simp
  from reach.next_step [OF this, OF mutex_step.poll_ready [where f = 0 and w = 7 and sl = mutex_lock and sl' = None and m = m1]] poll0
  have "reach mutex_init mutex_step 2 (?s m1 Map.empty 1)" by (simp add: numeral_eq_Suc)
  from reach.next_step [OF this, OF mutex_step.lock [where f = 1]]
  have "reach mutex_init mutex_step 3 (?s m1 [1 \<mapsto> ?new] 1)" by (simp add: numeral_eq_Suc)
  from reach.next_step [OF this, OF mutex_step.poll_pending [where f = 1 and w = 8 and sl = mutex_lock and sl' = "Some e" and m = m2]] poll1
  have "reach mutex_init mutex_step 4 (?s m2 [1 \<mapsto> (Some e, polled 8)] 1)" by (simp add: numeral_eq_Suc)
  from reach.next_step [OF this, OF mutex_step.guard_drop [where ws = ws and m = m3]] unlock(1)
  have "reach mutex_init mutex_step 5 (?s m3 (notify ws [1 \<mapsto> (Some e, polled 8)]) 0)"
    by (simp add: numeral_eq_Suc)
  then show ?thesis using unlock(2) by (force simp: mutex_is_locked_def notify_def)
qed

text \<open>
  C1. Mutual exclusion. Whatever futures, guards and \<open>try_lock\<close> calls run against one mutex in
  whatever order, there is never more than one live guard, and the flag is set exactly while there
  is one.
\<close>

theorem mutex_mutual_exclusion:
  assumes "reach mutex_init mutex_step n s" "n < usize_bound"
  shows "ms_guards s \<le> 1 \<and> (mutex_is_locked (ms_mutex s) \<longleftrightarrow> ms_guards s = 1)"
  using mutex_invD(2) [OF mx.reach_inv [OF assms]] by (simp add: mutex_is_locked_def)

theorem mutex_mutual_exclusion_witness:
  "\<exists>s. reach mutex_init mutex_step 5 (s :: nat mutex_sys) \<and> ms_guards s = 0"
proof -
  obtain s :: "nat mutex_sys" where s: "reach mutex_init mutex_step 5 s" "\<not> mutex_is_locked (ms_mutex s)"
    using mutex_run by blast
  from mutex_mutual_exclusion [OF s(1)] s show ?thesis by fastforce
qed

text \<open>In no reachable state does any call panic.\<close>

lemma mutex_never_panics:
  assumes "reach mutex_init mutex_step n s" "n < usize_bound"
  shows "wp (mutex_poll sl w (ms_mutex s)) (\<lambda>_. True) \<and>
    wp (mutex_drop_future sl (ms_mutex s)) (\<lambda>_. True) \<and>
    wp (mutex_guard_drop (ms_mutex s)) (\<lambda>_. True) \<and>
    wp (mutex_debug (ms_mutex s)) (\<lambda>_. True)"
proof -
  note q = mutex_invD(1) [OF mx.reach_inv [OF assms]]
  show ?thesis
    unfolding mutex_guard_drop_def
    using mutex_poll_wp [OF q] mutex_drop_future_wp [OF q] mutex_unlock_wp [OF q] mutex_debug_wp [OF q]
    by (blast intro: wp_mono)
qed

text \<open>
  C2. No lost wakeup. Whenever the lock is free and a lock future is waiting (registered), some live
  future has been woken since its last poll, and polling it with any waker takes the lock.
\<close>

theorem mutex_no_lost_wakeup:
  assumes "reach mutex_init mutex_step n s" "n < usize_bound"
    and "\<not> mutex_is_locked (ms_mutex s)" and "ms_futs s f = Some (Some e, x)"
  shows "\<exists>g sl y. ms_futs s g = Some (sl, y) \<and> fut_notified y \<and>
    (\<forall>w. wp (mutex_poll sl w (ms_mutex s)) (\<lambda>(r, _, _). r = Ready ()))"
proof -
  note inv = mx.reach_inv [OF assms(1,2)]
  have ready: "wp (mutex_poll sl w (ms_mutex s)) (\<lambda>(r, _, _). r = Ready ())" for sl w
    using mutex_poll_wp [OF mutex_invD(1) [OF inv], of sl w] assms(3)
    by (auto simp: mutex_is_locked_def elim!: wp_mono)
  obtain t w where e: "e = (t, w)" by (cases e)
  have "\<exists>g sl y. ms_futs s g = Some (sl, y) \<and> fut_notified y"
  proof (cases "t \<in> fst ` set (queue_list (mx_waiters (ms_mutex s)))")
    case True
    then have "queue_list (mx_waiters (ms_mutex s)) \<noteq> []" by auto
    then show ?thesis using mutex_invD(5) [OF inv] assms(3) by (auto simp: mutex_is_locked_def)
  next
    case False
    then show ?thesis using waiters_okD(5) [OF mutex_invD(3) [OF inv]] assms(4) e by blast
  qed
  then show ?thesis using ready by blast
qed

theorem mutex_no_lost_wakeup_witness:
  "\<exists>s. reach mutex_init mutex_step 5 (s :: nat mutex_sys) \<and> \<not> mutex_is_locked (ms_mutex s) \<and>
    (\<exists>g sl y. ms_futs s g = Some (sl, y) \<and> fut_notified y)"
proof -
  obtain s e x where s: "reach mutex_init mutex_step 5 (s :: nat mutex_sys)"
    "\<not> mutex_is_locked (ms_mutex s)" "ms_futs s 1 = Some (Some e, x)"
    using mutex_run by blast
  from mutex_no_lost_wakeup [OF s(1) _ s(2,3)] s(1,2) show ?thesis by fastforce
qed
end
