(* ===== verification/RwLock.thy ===== *)
theory RwLock
  imports Waiters
begin

text \<open>
  \<open>LocalRwLock<T>\<close> of \<open>src/src/site_c/rwlock.rs\<close>: reader count, writer flag, the two waiter queues
  with their shared id counter and the value, with every operation of the lock, of the two futures
  and of the two guards. The second half runs any number of futures and guards against one lock and
  shows exclusion, exact reader accounting, and that a free lock with queued waiters always has a
  notified future able to take it.
\<close>

section \<open>The lock\<close>

record 'a rw_lock =
  rw_readers :: nat
  rw_writer :: bool
  rw_read_waiters :: waiters
  rw_write_waiters :: waiters
  rw_next_id :: nat
  rw_value :: 'a

definition rwlock_new :: "'a \<Rightarrow> 'a rw_lock" where
  "rwlock_new v = \<lparr>rw_readers = 0, rw_writer = False, rw_read_waiters = queue_new 8,
     rw_write_waiters = queue_new 8, rw_next_id = 0, rw_value = v\<rparr>"

definition rwlock_read :: slot where
  "rwlock_read = None"

definition rwlock_write :: slot where
  "rwlock_write = None"

text \<open>\<open>readers.checked_add(1).expect(..)\<close>, the success branch of both read attempts.\<close>

definition rw_add_reader :: "'a rw_lock \<Rightarrow> (bool \<times> 'a rw_lock) res" where
  "rw_add_reader l =
     (case checked_add (rw_readers l) 1 of
        Some r \<Rightarrow> Inr (True, l\<lparr>rw_readers := r\<rparr>)
      | None \<Rightarrow> Inl (Overflow ''reader count overflow''))"

definition rw_try_read :: "'a rw_lock \<Rightarrow> (bool \<times> 'a rw_lock) res" where
  "rw_try_read l = (if \<not> rw_writer l then rw_add_reader l else Inr (False, l))"

definition rw_try_read_fair :: "'a rw_lock \<Rightarrow> (bool \<times> 'a rw_lock) res" where
  "rw_try_read_fair l =
     (let no_writer_queued = queue_is_empty (rw_write_waiters l) in
      if \<not> rw_writer l \<and> no_writer_queued then rw_add_reader l else Inr (False, l))"

definition rw_try_write :: "'a rw_lock \<Rightarrow> bool \<times> 'a rw_lock" where
  "rw_try_write l =
     (if rw_readers l = 0 \<and> \<not> rw_writer l then (True, l\<lparr>rw_writer := True\<rparr>) else (False, l))"

definition rw_is_write_locked :: "'a rw_lock \<Rightarrow> bool" where
  "rw_is_write_locked l = rw_writer l"

definition rw_reader_count :: "'a rw_lock \<Rightarrow> nat" where
  "rw_reader_count l = rw_readers l"

definition rw_is_locked :: "'a rw_lock \<Rightarrow> bool" where
  "rw_is_locked l = (rw_readers l > 0 \<or> rw_writer l)"

definition rw_into_inner :: "'a rw_lock \<Rightarrow> 'a" where
  "rw_into_inner l = rw_value l"

definition rw_get_mut :: "('a \<Rightarrow> 'a) \<Rightarrow> 'a rw_lock \<Rightarrow> 'a rw_lock" where
  "rw_get_mut upd l = l\<lparr>rw_value := upd (rw_value l)\<rparr>"

text \<open>The loop at the end of \<open>wake_next\<close>: pop and wake readers until the queue is empty.\<close>

lemma pop_front_shrinks: "pop_front n q = Inr (Some x, q') \<Longrightarrow> queue_len q' < queue_len q"
  by (cases "(n, q)" rule: pop_front.cases)
    (auto simp: rbind_Inr_iff Let_def split: if_splits list.splits)

function rw_wake_readers :: "waiters \<Rightarrow> (waker list \<times> waiters) res" where
  "rw_wake_readers q =
     rbind (pop_front 8 q) (\<lambda>(nxt, q').
       case nxt of
         None \<Rightarrow> Inr ([], q')
       | Some (_, waker) \<Rightarrow>
           rbind (rw_wake_readers q') (\<lambda>(ws, q''). Inr (waker # ws, q'')))"
  by pat_completeness auto
termination
  by (relation "measure queue_len") (auto dest: pop_front_shrinks)

declare rw_wake_readers.simps [simp del]

definition rw_wake_next :: "'a rw_lock \<Rightarrow> (waker list \<times> 'a rw_lock) res" where
  "rw_wake_next l =
     (if rw_writer l \<or> rw_readers l > 0 then Inr ([], l)
      else
        rbind (pop_front 8 (rw_write_waiters l)) (\<lambda>(next_writer, wq).
          let l' = l\<lparr>rw_write_waiters := wq\<rparr> in
          case next_writer of
            Some (_, waker) \<Rightarrow> Inr ([waker], l')
          | None \<Rightarrow>
              rbind (rw_wake_readers (rw_read_waiters l')) (\<lambda>(ws, rq).
                Inr (ws, l'\<lparr>rw_read_waiters := rq\<rparr>))))"

definition rw_release_read :: "'a rw_lock \<Rightarrow> (waker list \<times> 'a rw_lock) res" where
  "rw_release_read l =
     rbind (rassert (rw_readers l > 0) (Assertion ''release_read called with no readers'')) (\<lambda>_.
       rw_wake_next (l\<lparr>rw_readers := rw_readers l - 1\<rparr>))"

definition rw_release_write :: "'a rw_lock \<Rightarrow> (waker list \<times> 'a rw_lock) res" where
  "rw_release_write l =
     rbind (rassert (rw_writer l) (Assertion ''release_write called without write lock'')) (\<lambda>_.
       rw_wake_next (l\<lparr>rw_writer := False\<rparr>))"

definition rw_register_read :: "slot \<Rightarrow> waker \<Rightarrow> 'a rw_lock \<Rightarrow> (slot \<times> 'a rw_lock) res" where
  "rw_register_read slot waker l =
     rbind (register_in (rw_read_waiters l) (rw_next_id l) slot waker) (\<lambda>(q, n, slot').
       Inr (slot', l\<lparr>rw_read_waiters := q, rw_next_id := n\<rparr>))"

definition rw_register_write :: "slot \<Rightarrow> waker \<Rightarrow> 'a rw_lock \<Rightarrow> (slot \<times> 'a rw_lock) res" where
  "rw_register_write slot waker l =
     rbind (register_in (rw_write_waiters l) (rw_next_id l) slot waker) (\<lambda>(q, n, slot').
       Inr (slot', l\<lparr>rw_write_waiters := q, rw_next_id := n\<rparr>))"

definition rw_deregister_read :: "slot \<Rightarrow> 'a rw_lock \<Rightarrow> (slot \<times> 'a rw_lock) res" where
  "rw_deregister_read slot l =
     rbind (deregister_in (rw_read_waiters l) slot) (\<lambda>(q, slot').
       Inr (slot', l\<lparr>rw_read_waiters := q\<rparr>))"

definition rw_deregister_write :: "slot \<Rightarrow> 'a rw_lock \<Rightarrow> (slot \<times> 'a rw_lock) res" where
  "rw_deregister_write slot l =
     rbind (deregister_in (rw_write_waiters l) slot) (\<lambda>(q, slot').
       Inr (slot', l\<lparr>rw_write_waiters := q\<rparr>))"

definition rw_read_poll ::
  "slot \<Rightarrow> waker \<Rightarrow> 'a rw_lock \<Rightarrow> (unit poll \<times> slot \<times> 'a rw_lock) res" where
  "rw_read_poll slot waker l =
     rbind (rw_try_read_fair l) (\<lambda>(got, l1).
       if got then
         rbind (rw_deregister_read slot l1) (\<lambda>(slot', l2). Inr (Ready (), slot', l2))
       else
         rbind (rw_register_read slot waker l1) (\<lambda>(slot', l2).
         rbind (rw_try_read_fair l2) (\<lambda>(got', l3).
           if got' then
             rbind (rw_deregister_read slot' l3) (\<lambda>(slot'', l4). Inr (Ready (), slot'', l4))
           else Inr (Pending, slot', l3))))"

definition rw_read_drop :: "slot \<Rightarrow> 'a rw_lock \<Rightarrow> (waker list \<times> 'a rw_lock) res" where
  "rw_read_drop slot l =
     (if slot \<noteq> None then rbind (rw_deregister_read slot l) (\<lambda>(_, l'). rw_wake_next l')
      else Inr ([], l))"

definition rw_write_poll ::
  "slot \<Rightarrow> waker \<Rightarrow> 'a rw_lock \<Rightarrow> (unit poll \<times> slot \<times> 'a rw_lock) res" where
  "rw_write_poll slot waker l =
     (let (got, l1) = rw_try_write l in
      if got then
        rbind (rw_deregister_write slot l1) (\<lambda>(slot', l2). Inr (Ready (), slot', l2))
      else
        rbind (rw_register_write slot waker l1) (\<lambda>(slot', l2).
          let (got', l3) = rw_try_write l2 in
          if got' then
            rbind (rw_deregister_write slot' l3) (\<lambda>(slot'', l4). Inr (Ready (), slot'', l4))
          else Inr (Pending, slot', l3)))"

definition rw_write_drop :: "slot \<Rightarrow> 'a rw_lock \<Rightarrow> (waker list \<times> 'a rw_lock) res" where
  "rw_write_drop slot l =
     (if slot \<noteq> None then rbind (rw_deregister_write slot l) (\<lambda>(_, l'). rw_wake_next l')
      else Inr ([], l))"

definition rw_read_guard_deref :: "'a rw_lock \<Rightarrow> 'a" where
  "rw_read_guard_deref l = rw_value l"

definition rw_read_guard_drop :: "'a rw_lock \<Rightarrow> (waker list \<times> 'a rw_lock) res" where
  "rw_read_guard_drop l = rw_release_read l"

definition rw_write_guard_deref :: "'a rw_lock \<Rightarrow> 'a" where
  "rw_write_guard_deref l = rw_value l"

definition rw_write_guard_deref_mut :: "('a \<Rightarrow> 'a) \<Rightarrow> 'a rw_lock \<Rightarrow> 'a rw_lock" where
  "rw_write_guard_deref_mut upd l = l\<lparr>rw_value := upd (rw_value l)\<rparr>"

definition rw_write_guard_drop :: "'a rw_lock \<Rightarrow> (waker list \<times> 'a rw_lock) res" where
  "rw_write_guard_drop l = rw_release_write l"

text \<open>\<open>Debug\<close> formats the value under a read guard, which it drops afterwards.\<close>

definition rw_debug ::
  "'a rw_lock \<Rightarrow> ((nat \<times> bool \<times> 'a option) \<times> waker list \<times> 'a rw_lock) res" where
  "rw_debug l =
     rbind (rw_try_read l) (\<lambda>(got, l1).
       if got then
         rbind (rw_read_guard_drop l1) (\<lambda>(ws, l2).
           Inr ((rw_readers l, rw_writer l, Some (rw_read_guard_deref l1)), ws, l2))
       else Inr ((rw_readers l, rw_writer l, None), [], l1))"

section \<open>Specifications\<close>

lemma rw_wake_readers_wp:
  "queue_inv 8 q \<Longrightarrow> wp (rw_wake_readers q) (\<lambda>(ws, q'). queue_inv 8 q' \<and> queue_list q' = [] \<and>
     ws = map snd (queue_list q))"
proof (induction "length (queue_list q)" arbitrary: q rule: less_induct)
  case less
  note pop = pop_front_wp [OF less.prems]
  show ?case
  proof (cases "queue_list q")
    case Nil
    then show ?thesis
      by (subst rw_wake_readers.simps) (use pop in \<open>auto elim!: wp_mono\<close>)
  next
    case (Cons e L)
    have IH: "wp (rw_wake_readers q') (\<lambda>(ws, q''). queue_inv 8 q'' \<and> queue_list q'' = [] \<and> ws = map snd L)"
      if "queue_inv 8 q'" "queue_list q' = L" for q'
      using less.hyps [of q'] that Cons by auto
    show ?thesis
      by (subst rw_wake_readers.simps, rule wp_rbindI [OF pop])
        (use Cons IH in \<open>auto simp: split_def elim!: wp_mono\<close>)
  qed
qed

text \<open>Both queues are well formed, and their contents.\<close>

definition rw_ok :: "'a rw_lock \<Rightarrow> bool" where
  "rw_ok l \<longleftrightarrow> queue_inv 8 (rw_read_waiters l) \<and> queue_inv 8 (rw_write_waiters l)"

definition rw_rlist :: "'a rw_lock \<Rightarrow> entry list" where
  "rw_rlist l = queue_list (rw_read_waiters l)"

definition rw_wlist :: "'a rw_lock \<Rightarrow> entry list" where
  "rw_wlist l = queue_list (rw_write_waiters l)"

lemma rw_ok_simps [simp]:
  "rw_ok (l\<lparr>rw_readers := r\<rparr>) = rw_ok l" "rw_ok (l\<lparr>rw_writer := b\<rparr>) = rw_ok l"
  "rw_ok (l\<lparr>rw_value := v\<rparr>) = rw_ok l"
  "rw_rlist (l\<lparr>rw_readers := r\<rparr>) = rw_rlist l" "rw_rlist (l\<lparr>rw_writer := b\<rparr>) = rw_rlist l"
  "rw_rlist (l\<lparr>rw_value := v\<rparr>) = rw_rlist l"
  "rw_wlist (l\<lparr>rw_readers := r\<rparr>) = rw_wlist l" "rw_wlist (l\<lparr>rw_writer := b\<rparr>) = rw_wlist l"
  "rw_wlist (l\<lparr>rw_value := v\<rparr>) = rw_wlist l"
  by (simp_all add: rw_ok_def rw_rlist_def rw_wlist_def)

lemmas rw_defs = rw_ok_def rw_rlist_def rw_wlist_def

text \<open>Whom a free lock wakes: the first queued writer, else all queued readers.\<close>

definition rw_woken :: "entry list \<Rightarrow> entry list \<Rightarrow> waker list \<times> entry list \<times> entry list" where
  "rw_woken R W = (case W of e # M \<Rightarrow> ([snd e], R, M) | [] \<Rightarrow> (map snd R, [], []))"

lemma rw_wake_next_wp:
  assumes "rw_ok l"
  shows "wp (rw_wake_next l) (\<lambda>(ws, l'). rw_ok l' \<and> rw_readers l' = rw_readers l \<and>
    rw_writer l' = rw_writer l \<and> rw_next_id l' = rw_next_id l \<and> rw_value l' = rw_value l \<and>
    (if rw_is_locked l then ws = [] \<and> rw_rlist l' = rw_rlist l \<and> rw_wlist l' = rw_wlist l
     else (ws, rw_rlist l', rw_wlist l') = rw_woken (rw_rlist l) (rw_wlist l)))"
proof (cases "rw_is_locked l")
  case True
  with assms show ?thesis by (auto simp: rw_wake_next_def rw_is_locked_def)
next
  case False
  have inv: "queue_inv 8 (rw_read_waiters l)" "queue_inv 8 (rw_write_waiters l)"
    using assms by (simp_all add: rw_ok_def)
  show ?thesis
  proof (cases "rw_wlist l")
    case Nil
    then have "rw_wake_next l = rbind (rw_wake_readers (rw_read_waiters l)) (\<lambda>(ws, rq).
        Inr (ws, l\<lparr>rw_write_waiters := rw_write_waiters l, rw_read_waiters := rq\<rparr>))"
      using False pop_front_wp [OF inv(2)]
      by (auto simp: rw_wake_next_def rw_is_locked_def rw_wlist_def Let_def wp_ex)
    then show ?thesis
      using rw_wake_readers_wp [OF inv(1)] inv(2) False Nil
      by (auto simp: rw_defs rw_woken_def rw_is_locked_def elim!: wp_mono)
  next
    case (Cons e M)
    then show ?thesis
      using pop_front_wp [OF inv(2)] inv(1) False
      by (auto simp: rw_wake_next_def rw_is_locked_def rw_defs rw_woken_def Let_def split_def
          elim!: wp_mono)
  qed
qed

lemma rw_register_read_wp:
  assumes "rw_ok l"
  shows "wp (rw_register_read sl w l) (\<lambda>(sl', l'). rw_ok l' \<and> rw_readers l' = rw_readers l \<and>
    rw_writer l' = rw_writer l \<and> rw_value l' = rw_value l \<and> rw_wlist l' = rw_wlist l \<and>
    registered (rw_rlist l) (rw_next_id l) sl w (rw_rlist l') (rw_next_id l') sl')"
  unfolding rw_register_read_def
  by (rule wp_rbindI [OF register_in_registered]) (use assms in \<open>auto simp: rw_defs\<close>)

lemma rw_register_write_wp:
  assumes "rw_ok l"
  shows "wp (rw_register_write sl w l) (\<lambda>(sl', l'). rw_ok l' \<and> rw_readers l' = rw_readers l \<and>
    rw_writer l' = rw_writer l \<and> rw_value l' = rw_value l \<and> rw_rlist l' = rw_rlist l \<and>
    registered (rw_wlist l) (rw_next_id l) sl w (rw_wlist l') (rw_next_id l') sl')"
  unfolding rw_register_write_def
  by (rule wp_rbindI [OF register_in_registered]) (use assms in \<open>auto simp: rw_defs\<close>)

lemma rw_deregister_read_wp:
  assumes "rw_ok l"
  shows "wp (rw_deregister_read sl l) (\<lambda>(sl', l'). rw_ok l' \<and> sl' = None \<and>
    rw_readers l' = rw_readers l \<and> rw_writer l' = rw_writer l \<and> rw_value l' = rw_value l \<and>
    rw_next_id l' = rw_next_id l \<and> rw_wlist l' = rw_wlist l \<and> rw_rlist l' = without sl (rw_rlist l))"
  unfolding rw_deregister_read_def
  by (rule wp_rbindI [OF deregister_in_wp]) (use assms in \<open>auto simp: rw_defs\<close>)

lemma rw_deregister_write_wp:
  assumes "rw_ok l"
  shows "wp (rw_deregister_write sl l) (\<lambda>(sl', l'). rw_ok l' \<and> sl' = None \<and>
    rw_readers l' = rw_readers l \<and> rw_writer l' = rw_writer l \<and> rw_value l' = rw_value l \<and>
    rw_next_id l' = rw_next_id l \<and> rw_rlist l' = rw_rlist l \<and> rw_wlist l' = without sl (rw_wlist l))"
  unfolding rw_deregister_write_def
  by (rule wp_rbindI [OF deregister_in_wp]) (use assms in \<open>auto simp: rw_defs\<close>)

lemma rw_try_read_fair_ok:
  assumes "rw_ok l"
  shows "rw_try_read_fair l =
    (if rw_writer l \<or> rw_wlist l \<noteq> [] then Inr (False, l)
     else if rw_readers l + 1 < usize_bound then Inr (True, l\<lparr>rw_readers := rw_readers l + 1\<rparr>)
     else Inl (Overflow ''reader count overflow''))"
  using assms
  by (simp add: rw_try_read_fair_def Let_def rw_add_reader_def checked_add_def rw_defs
      queue_is_empty_list [of 8])

text \<open>
  A read poll succeeds exactly when no writer holds the lock and none is queued; a write poll
  exactly when the lock is free; otherwise the future is queued.
\<close>

lemma rw_read_poll_wp:
  assumes "rw_ok l" "rw_readers l + 1 < usize_bound"
  shows "wp (rw_read_poll sl w l) (\<lambda>(r, sl', l'). rw_ok l' \<and> rw_writer l' = rw_writer l \<and>
    rw_value l' = rw_value l \<and> rw_wlist l' = rw_wlist l \<and>
    (if rw_writer l \<or> rw_wlist l \<noteq> []
     then r = Pending \<and> rw_readers l' = rw_readers l \<and>
       registered (rw_rlist l) (rw_next_id l) sl w (rw_rlist l') (rw_next_id l') sl'
     else r = Ready () \<and> sl' = None \<and> rw_readers l' = rw_readers l + 1 \<and>
       rw_next_id l' = rw_next_id l \<and> rw_rlist l' = without sl (rw_rlist l)))"
proof (cases "rw_writer l \<or> rw_wlist l \<noteq> []")
  case True
  then show ?thesis
    using rw_register_read_wp [OF assms(1), of sl w]
    by (auto simp: rw_read_poll_def rw_try_read_fair_ok [OF assms(1)] rw_try_read_fair_ok
        elim!: wp_mono)
next
  case False
  let ?l = "l\<lparr>rw_readers := rw_readers l + 1\<rparr>"
  have "rw_ok ?l" using assms by simp
  from rw_deregister_read_wp [OF this, of sl] False assms(2) show ?thesis
    by (auto simp: rw_read_poll_def rw_try_read_fair_ok [OF assms(1)] elim!: wp_mono)
qed

lemma rw_write_poll_wp:
  assumes "rw_ok l"
  shows "wp (rw_write_poll sl w l) (\<lambda>(r, sl', l'). rw_ok l' \<and> rw_readers l' = rw_readers l \<and>
    rw_value l' = rw_value l \<and> rw_rlist l' = rw_rlist l \<and>
    (if rw_is_locked l
     then r = Pending \<and> rw_writer l' = rw_writer l \<and>
       registered (rw_wlist l) (rw_next_id l) sl w (rw_wlist l') (rw_next_id l') sl'
     else r = Ready () \<and> sl' = None \<and> rw_writer l' \<and>
       rw_next_id l' = rw_next_id l \<and> rw_wlist l' = without sl (rw_wlist l)))"
proof (cases "rw_is_locked l")
  case True
  then show ?thesis
    using rw_register_write_wp [OF assms(1), of sl w]
    by (auto simp: rw_write_poll_def rw_try_write_def rw_is_locked_def elim!: wp_mono)
next
  case False
  let ?l = "l\<lparr>rw_writer := True\<rparr>"
  have "rw_ok ?l" using assms by simp
  from rw_deregister_write_wp [OF this, of sl] False show ?thesis
    by (auto simp: rw_write_poll_def rw_try_write_def rw_is_locked_def elim!: wp_mono)
qed

lemma rw_read_drop_wp:
  assumes "rw_ok l"
  shows "wp (rw_read_drop sl l) (\<lambda>(ws, l'). rw_ok l' \<and> rw_readers l' = rw_readers l \<and>
    rw_writer l' = rw_writer l \<and> rw_next_id l' = rw_next_id l \<and> rw_value l' = rw_value l \<and>
    (if sl = None \<or> rw_is_locked l
     then ws = [] \<and> rw_rlist l' = without sl (rw_rlist l) \<and> rw_wlist l' = rw_wlist l
     else (ws, rw_rlist l', rw_wlist l') = rw_woken (without sl (rw_rlist l)) (rw_wlist l)))"
proof (cases sl)
  case None
  with assms show ?thesis by (simp add: rw_read_drop_def)
next
  case (Some e)
  have "wp (rbind (rw_deregister_read sl l) (\<lambda>(_, l'). rw_wake_next l')) (\<lambda>(ws, l').
      rw_ok l' \<and> rw_readers l' = rw_readers l \<and>
      rw_writer l' = rw_writer l \<and> rw_next_id l' = rw_next_id l \<and> rw_value l' = rw_value l \<and>
      (if rw_is_locked l
       then ws = [] \<and> rw_rlist l' = without sl (rw_rlist l) \<and> rw_wlist l' = rw_wlist l
       else (ws, rw_rlist l', rw_wlist l') = rw_woken (without sl (rw_rlist l)) (rw_wlist l)))"
  proof (rule wp_rbindI [OF rw_deregister_read_wp [OF assms]], clarsimp, goal_cases)
    case (1 l')
    from rw_wake_next_wp [OF 1(1)] show ?case
      by (rule wp_mono) (use 1 in \<open>auto simp: rw_is_locked_def split: if_splits\<close>)
  qed
  then show ?thesis using Some by (simp add: rw_read_drop_def)
qed

lemma rw_write_drop_wp:
  assumes "rw_ok l"
  shows "wp (rw_write_drop sl l) (\<lambda>(ws, l'). rw_ok l' \<and> rw_readers l' = rw_readers l \<and>
    rw_writer l' = rw_writer l \<and> rw_next_id l' = rw_next_id l \<and> rw_value l' = rw_value l \<and>
    (if sl = None \<or> rw_is_locked l
     then ws = [] \<and> rw_rlist l' = rw_rlist l \<and> rw_wlist l' = without sl (rw_wlist l)
     else (ws, rw_rlist l', rw_wlist l') = rw_woken (rw_rlist l) (without sl (rw_wlist l))))"
proof (cases sl)
  case None
  with assms show ?thesis by (simp add: rw_write_drop_def)
next
  case (Some e)
  have "wp (rbind (rw_deregister_write sl l) (\<lambda>(_, l'). rw_wake_next l')) (\<lambda>(ws, l').
      rw_ok l' \<and> rw_readers l' = rw_readers l \<and>
      rw_writer l' = rw_writer l \<and> rw_next_id l' = rw_next_id l \<and> rw_value l' = rw_value l \<and>
      (if rw_is_locked l
       then ws = [] \<and> rw_rlist l' = rw_rlist l \<and> rw_wlist l' = without sl (rw_wlist l)
       else (ws, rw_rlist l', rw_wlist l') = rw_woken (rw_rlist l) (without sl (rw_wlist l))))"
  proof (rule wp_rbindI [OF rw_deregister_write_wp [OF assms]], clarsimp, goal_cases)
    case (1 l')
    from rw_wake_next_wp [OF 1(1)] show ?case
      by (rule wp_mono) (use 1 in \<open>auto simp: rw_is_locked_def split: if_splits\<close>)
  qed
  then show ?thesis using Some by (simp add: rw_write_drop_def)
qed

lemma rw_release_read_wp:
  assumes "rw_ok l" "rw_readers l > 0"
  shows "wp (rw_release_read l) (\<lambda>(ws, l'). rw_ok l' \<and> rw_readers l' = rw_readers l - 1 \<and>
    rw_writer l' = rw_writer l \<and> rw_next_id l' = rw_next_id l \<and> rw_value l' = rw_value l \<and>
    (if 1 < rw_readers l \<or> rw_writer l
     then ws = [] \<and> rw_rlist l' = rw_rlist l \<and> rw_wlist l' = rw_wlist l
     else (ws, rw_rlist l', rw_wlist l') = rw_woken (rw_rlist l) (rw_wlist l)))"
proof -
  have "rw_ok (l\<lparr>rw_readers := rw_readers l - 1\<rparr>)" using assms by simp
  from rw_wake_next_wp [OF this] assms(2) show ?thesis
    by (auto simp: rw_release_read_def rw_is_locked_def elim!: wp_mono)
qed

lemma rw_release_write_wp:
  assumes "rw_ok l" "rw_writer l"
  shows "wp (rw_release_write l) (\<lambda>(ws, l'). rw_ok l' \<and> rw_readers l' = rw_readers l \<and>
    \<not> rw_writer l' \<and> rw_next_id l' = rw_next_id l \<and> rw_value l' = rw_value l \<and>
    (if 0 < rw_readers l
     then ws = [] \<and> rw_rlist l' = rw_rlist l \<and> rw_wlist l' = rw_wlist l
     else (ws, rw_rlist l', rw_wlist l') = rw_woken (rw_rlist l) (rw_wlist l)))"
proof -
  have "rw_ok (l\<lparr>rw_writer := False\<rparr>)" using assms by simp
  from rw_wake_next_wp [OF this] assms(2) show ?thesis
    by (auto simp: rw_release_write_def rw_is_locked_def elim!: wp_mono)
qed

section \<open>Any number of tasks on one lock\<close>

record 'a rw_sys =
  rs_lock :: "'a rw_lock"
  rs_rfuts :: "slot futs"
  rs_wfuts :: "slot futs"
  rs_rguards :: nat
  rs_wguards :: nat

definition rw_init :: "'a rw_sys \<Rightarrow> bool" where
  "rw_init s \<longleftrightarrow> (\<exists>v. s = \<lparr>rs_lock = rwlock_new v, rs_rfuts = Map.empty, rs_wfuts = Map.empty,
     rs_rguards = 0, rs_wguards = 0\<rparr>)"

text \<open>The executor delivers the wakes of a call to the futures of both kinds.\<close>

definition rw_deliver :: "waker list \<Rightarrow> 'a rw_sys \<Rightarrow> 'a rw_sys" where
  "rw_deliver ws s = s\<lparr>rs_rfuts := notify ws (rs_rfuts s), rs_wfuts := notify ws (rs_wfuts s)\<rparr>"

inductive rw_step :: "'a rw_sys \<Rightarrow> 'a rw_sys \<Rightarrow> bool" where
  new_read: "rs_rfuts s f = None \<Longrightarrow>
    rw_step s (s\<lparr>rs_rfuts := (rs_rfuts s)(f \<mapsto> (rwlock_read, new_fut))\<rparr>)"
| new_write: "rs_wfuts s f = None \<Longrightarrow>
    rw_step s (s\<lparr>rs_wfuts := (rs_wfuts s)(f \<mapsto> (rwlock_write, new_fut))\<rparr>)"
| read_ready: "rs_rfuts s f = Some (sl, x) \<Longrightarrow>
    rw_read_poll sl w (rs_lock s) = Inr (Ready (), sl', l) \<Longrightarrow>
    rw_step s (s\<lparr>rs_lock := l, rs_rfuts := (rs_rfuts s)(f := None), rs_rguards := Suc (rs_rguards s)\<rparr>)"
| read_pending: "rs_rfuts s f = Some (sl, x) \<Longrightarrow>
    rw_read_poll sl w (rs_lock s) = Inr (Pending, sl', l) \<Longrightarrow>
    rw_step s (s\<lparr>rs_lock := l, rs_rfuts := (rs_rfuts s)(f \<mapsto> (sl', polled w))\<rparr>)"
| write_ready: "rs_wfuts s f = Some (sl, x) \<Longrightarrow>
    rw_write_poll sl w (rs_lock s) = Inr (Ready (), sl', l) \<Longrightarrow>
    rw_step s (s\<lparr>rs_lock := l, rs_wfuts := (rs_wfuts s)(f := None), rs_wguards := Suc (rs_wguards s)\<rparr>)"
| write_pending: "rs_wfuts s f = Some (sl, x) \<Longrightarrow>
    rw_write_poll sl w (rs_lock s) = Inr (Pending, sl', l) \<Longrightarrow>
    rw_step s (s\<lparr>rs_lock := l, rs_wfuts := (rs_wfuts s)(f \<mapsto> (sl', polled w))\<rparr>)"
| read_cancel: "rs_rfuts s f = Some (sl, x) \<Longrightarrow>
    rw_read_drop sl (rs_lock s) = Inr (ws, l) \<Longrightarrow>
    rw_step s (rw_deliver ws (s\<lparr>rs_lock := l, rs_rfuts := (rs_rfuts s)(f := None)\<rparr>))"
| write_cancel: "rs_wfuts s f = Some (sl, x) \<Longrightarrow>
    rw_write_drop sl (rs_lock s) = Inr (ws, l) \<Longrightarrow>
    rw_step s (rw_deliver ws (s\<lparr>rs_lock := l, rs_wfuts := (rs_wfuts s)(f := None)\<rparr>))"
| try_read: "rw_try_read (rs_lock s) = Inr (got, l) \<Longrightarrow>
    rw_step s (s\<lparr>rs_lock := l, rs_rguards := rs_rguards s + (if got then 1 else 0)\<rparr>)"
| try_write: "rw_try_write (rs_lock s) = (got, l) \<Longrightarrow>
    rw_step s (s\<lparr>rs_lock := l, rs_wguards := rs_wguards s + (if got then 1 else 0)\<rparr>)"
| guard_write: "0 < rs_wguards s \<Longrightarrow>
    rw_step s (s\<lparr>rs_lock := rw_write_guard_deref_mut upd (rs_lock s)\<rparr>)"
| read_guard_drop: "0 < rs_rguards s \<Longrightarrow> rw_read_guard_drop (rs_lock s) = Inr (ws, l) \<Longrightarrow>
    rw_step s (rw_deliver ws (s\<lparr>rs_lock := l, rs_rguards := rs_rguards s - 1\<rparr>))"
| write_guard_drop: "0 < rs_wguards s \<Longrightarrow> rw_write_guard_drop (rs_lock s) = Inr (ws, l) \<Longrightarrow>
    rw_step s (rw_deliver ws (s\<lparr>rs_lock := l, rs_wguards := rs_wguards s - 1\<rparr>))"
| debug: "rw_debug (rs_lock s) = Inr (out, ws, l) \<Longrightarrow>
    rw_step s (rw_deliver ws (s\<lparr>rs_lock := l\<rparr>))"

text \<open>
  The torch of one queue: a live registered future whose entry has been popped and that carries an
  unconsumed wakeup.
\<close>

definition torch :: "entry list \<Rightarrow> slot futs \<Rightarrow> bool" where
  "torch L futs \<longleftrightarrow> (\<exists>f t w x. futs f = Some (Some (t, w), x) \<and> t \<notin> fst ` set L \<and> fut_notified x)"

definition rw_inv :: "nat \<Rightarrow> 'a rw_sys \<Rightarrow> bool" where
  "rw_inv n s \<longleftrightarrow>
     (let l = rs_lock s; R = rw_rlist l; W = rw_wlist l in
      rw_ok l \<and> rw_readers l = rs_rguards s \<and> rs_wguards s = (if rw_writer l then 1 else 0) \<and>
      (rw_writer l \<longrightarrow> rw_readers l = 0) \<and> rw_readers l \<le> n \<and>
      waiters_ok R (rw_next_id l) (rs_rfuts s) \<and> waiters_ok W (rw_next_id l) (rs_wfuts s) \<and>
      rw_next_id l \<le> n \<and>
      (\<not> rw_is_locked l \<longrightarrow>
        (W \<noteq> [] \<longrightarrow> torch W (rs_wfuts s)) \<and>
        (R \<noteq> [] \<longrightarrow> torch W (rs_wfuts s) \<or> torch R (rs_rfuts s))))"

lemma rw_invD:
  assumes "rw_inv n s"
  shows "rw_ok (rs_lock s)" "rw_readers (rs_lock s) = rs_rguards s"
    and "rs_wguards s = (if rw_writer (rs_lock s) then 1 else 0)"
    and "rw_writer (rs_lock s) \<Longrightarrow> rw_readers (rs_lock s) = 0" "rw_readers (rs_lock s) \<le> n"
    and "waiters_ok (rw_rlist (rs_lock s)) (rw_next_id (rs_lock s)) (rs_rfuts s)"
    and "waiters_ok (rw_wlist (rs_lock s)) (rw_next_id (rs_lock s)) (rs_wfuts s)"
    and "rw_next_id (rs_lock s) \<le> n"
    and "\<not> rw_is_locked (rs_lock s) \<Longrightarrow> rw_wlist (rs_lock s) \<noteq> [] \<Longrightarrow>
           torch (rw_wlist (rs_lock s)) (rs_wfuts s)"
    and "\<not> rw_is_locked (rs_lock s) \<Longrightarrow> rw_rlist (rs_lock s) \<noteq> [] \<Longrightarrow>
           torch (rw_wlist (rs_lock s)) (rs_wfuts s) \<or> torch (rw_rlist (rs_lock s)) (rs_rfuts s)"
  using assms by (auto simp: rw_inv_def Let_def split: if_splits)

lemma rw_invI:
  assumes "rs_lock s = l" "rw_ok l" "rw_readers l = rs_rguards s"
    and "rs_wguards s = (if rw_writer l then 1 else 0)"
    and "rw_writer l \<Longrightarrow> rw_readers l = 0" "rw_readers l \<le> n"
    and "waiters_ok (rw_rlist l) (rw_next_id l) (rs_rfuts s)"
    and "waiters_ok (rw_wlist l) (rw_next_id l) (rs_wfuts s)" "rw_next_id l \<le> n"
    and "\<not> rw_is_locked l \<Longrightarrow> rw_wlist l \<noteq> [] \<Longrightarrow> torch (rw_wlist l) (rs_wfuts s)"
    and "\<not> rw_is_locked l \<Longrightarrow> rw_rlist l \<noteq> [] \<Longrightarrow>
           torch (rw_wlist l) (rs_wfuts s) \<or> torch (rw_rlist l) (rs_rfuts s)"
  shows "rw_inv n s"
  using assms by (auto simp: rw_inv_def Let_def)

lemma rw_inv_init: "rw_init s \<Longrightarrow> rw_inv 0 s"
  by (auto simp: rw_init_def rw_inv_def rwlock_new_def rw_defs Let_def)

text \<open>Popping a waiter makes a torch; draining the readers leaves nobody queued.\<close>

lemma pop_makes_torch:
  assumes "waiters_ok (e # L) n futs"
  shows "waiters_ok L n (notify [snd e] futs)" "torch L (notify [snd e] futs)"
proof -
  obtain t w where e: "e = (t, w)" by (cases e)
  obtain f x where f: "futs f = Some (Some (t, w), x)"
    using waiters_okD(2) [OF assms, of t w] e by auto
  show ok: "waiters_ok L n (notify [snd e] futs)" using waiters_ok_pop assms e by simp
  have "notify [w] futs f = Some (Some (t, w), wake_fut [w] x)"
    using f by (auto simp: notify_Some)
  moreover have "t \<notin> fst ` set L" using waiters_okD(1) [OF assms] e by force
  moreover have "fut_notified (wake_fut [w] x)"
    using waiters_okD(5) [OF ok] calculation e by simp
  ultimately show "torch L (notify [snd e] futs)" using e unfolding torch_def by auto
qed

lemma waiters_ok_drain: "waiters_ok L n futs \<Longrightarrow> waiters_ok [] n (notify (map snd L) futs)"
proof (induction L arbitrary: futs)
  case (Cons e L)
  have "notify (map snd (e # L)) futs = notify (map snd L) (notify [snd e] futs)"
    by (simp add: notify_notify)
  then show ?case using Cons.IH [OF pop_makes_torch(1) [OF Cons.prems]] by simp
qed simp

lemma torch_notify: "torch L futs \<Longrightarrow> torch L (notify ws futs)"
  unfolding torch_def by (fastforce simp: notify_Some wake_fut_notified)

lemma torch_upd: "torch L futs \<Longrightarrow> (\<And>e x. futs f \<noteq> Some (Some e, x)) \<Longrightarrow> torch L (futs(f := z))"
  unfolding torch_def by (metis fun_upd_other)

lemma rw_inv_woken:
  assumes "rs_lock s = l" "rw_ok l" "rw_readers l = 0" "\<not> rw_writer l"
    and "rs_rguards s = 0" "rs_wguards s = 0" "rw_next_id l \<le> n"
    and R: "waiters_ok R (rw_next_id l) rfs" and W: "waiters_ok W (rw_next_id l) wfs"
    and "(ws, rw_rlist l, rw_wlist l) = rw_woken R W"
    and "rs_rfuts s = notify ws rfs" "rs_wfuts s = notify ws wfs"
  shows "rw_inv n s"
proof (cases W)
  case Nil
  then show ?thesis
    using assms waiters_ok_drain [OF R] waiters_ok_notify [OF W]
    by (intro rw_invI [OF assms(1)]) (auto simp: rw_woken_def)
next
  case (Cons e M)
  then show ?thesis
    using assms waiters_ok_notify [OF R] pop_makes_torch [OF W [unfolded Cons]]
    by (intro rw_invI [OF assms(1)]) (auto simp: rw_woken_def)
qed

lemma rw_inv_cancel:
  assumes inv: "rw_inv n s" and n: "Suc n < usize_bound" and l: "rw_ok l"
    "rw_readers l = rw_readers (rs_lock s)" "rw_writer l = rw_writer (rs_lock s)"
    "rw_next_id l = rw_next_id (rs_lock s)"
    and R: "waiters_ok R (rw_next_id l) rfs" and W: "waiters_ok W (rw_next_id l) wfs"
    and out: "if rw_is_locked (rs_lock s) then ws = [] \<and> rw_rlist l = R \<and> rw_wlist l = W
      else (ws, rw_rlist l, rw_wlist l) = rw_woken R W"
    and t: "t = rw_deliver ws (s\<lparr>rs_lock := l, rs_rfuts := rfs, rs_wfuts := wfs\<rparr>)"
  shows "rw_inv (Suc n) t"
proof (cases "rw_is_locked (rs_lock s)")
  case True
  then show ?thesis
    unfolding t using rw_invD [OF inv] l R W out
    by (intro rw_invI [OF refl]) (auto simp: rw_deliver_def rw_is_locked_def)
next
  case False
  then have "rw_readers l = 0" "\<not> rw_writer l" using l by (simp_all add: rw_is_locked_def)
  then show ?thesis
    unfolding t using rw_invD [OF inv] l R W out False
    by (intro rw_inv_woken [where l = l and R = R and W = W and rfs = rfs and wfs = wfs and ws = ws])
      (auto simp: rw_deliver_def split: if_splits)
qed

lemma rw_inv_pending:
  assumes inv: "rw_inv n s" and n: "Suc n < usize_bound" and f: "rs_rfuts s f = Some (sl, x)"
    and poll: "rw_read_poll sl w (rs_lock s) = Inr (Pending, sl', l)"
  shows "rw_inv (Suc n) (s\<lparr>rs_lock := l, rs_rfuts := (rs_rfuts s)(f \<mapsto> (sl', polled w))\<rparr>)"
proof -
  note D = rw_invD [OF inv]
  have small: "rw_readers (rs_lock s) + 1 < usize_bound" "Suc (rw_next_id (rs_lock s)) < usize_bound"
    using D(5,8) n by auto
  have *: "rw_ok l" "rw_writer l = rw_writer (rs_lock s)" "rw_wlist l = rw_wlist (rs_lock s)"
    "rw_readers l = rw_readers (rs_lock s)"
    and blocked: "rw_writer (rs_lock s) \<or> rw_wlist (rs_lock s) \<noteq> []"
    and reg: "registered (rw_rlist (rs_lock s)) (rw_next_id (rs_lock s)) sl w
       (rw_rlist l) (rw_next_id l) sl'"
    using rw_read_poll_wp [OF D(1) small(1), of sl w] poll by (auto split: if_splits)
  note reg_ok = waiters_ok_register [OF D(6) f reg small(2)]
  have "waiters_ok (rw_wlist l) (rw_next_id l) (rs_wfuts s)"
    using waiters_ok_mono [OF D(7)] reg_ok * by auto
  then show ?thesis
    using D * reg_ok blocked by (intro rw_invI [OF refl]) (auto simp: rw_is_locked_def)
qed

lemma rw_inv_step_write_pending:
  assumes inv: "rw_inv n s" and n: "Suc n < usize_bound"
    and write_pending: "t = s\<lparr>rs_lock := l, rs_wfuts := (rs_wfuts s)(f \<mapsto> (sl', polled w))\<rparr>"
      "rs_wfuts s f = Some (sl, x)"
      "rw_write_poll sl w (rs_lock s) = Inr (Pending, sl', l)"
  shows "rw_inv (Suc n) t"
proof -
  note D = rw_invD [OF inv]
  have small: "rw_readers (rs_lock s) + 1 < usize_bound" "Suc (rw_next_id (rs_lock s)) < usize_bound"
    using D(5,8) n by auto
  have *: "rw_ok l" "rw_writer l = rw_writer (rs_lock s)" "rw_rlist l = rw_rlist (rs_lock s)"
    "rw_readers l = rw_readers (rs_lock s)" "rw_is_locked (rs_lock s)"
    and reg: "registered (rw_wlist (rs_lock s)) (rw_next_id (rs_lock s)) sl w
       (rw_wlist l) (rw_next_id l) sl'"
    using rw_write_poll_wp [OF D(1), of sl w] write_pending(3) by (auto split: if_splits)
  note reg_ok = waiters_ok_register [OF D(7) write_pending(2) reg small(2)]
  have "waiters_ok (rw_rlist l) (rw_next_id l) (rs_rfuts s)"
    using waiters_ok_mono [OF D(6)] reg_ok * by auto
  then show ?thesis
    unfolding write_pending(1) using D * reg_ok
    by (intro rw_invI [OF refl]) (auto simp: rw_is_locked_def)
qed

lemma rw_inv_step_read_cancel:
  assumes inv: "rw_inv n s" and n: "Suc n < usize_bound"
    and read_cancel: "t = rw_deliver ws (s\<lparr>rs_lock := l, rs_rfuts := (rs_rfuts s)(f := None)\<rparr>)"
      "rs_rfuts s f = Some (sl, x)"
      "rw_read_drop sl (rs_lock s) = Inr (ws, l)"
  shows "rw_inv (Suc n) t"
proof -
  note D = rw_invD [OF inv]
  note spec = rw_read_drop_wp [OF D(1), of sl, unfolded read_cancel(3) wp_simps prod.case]
  show ?thesis
  proof (cases sl)
    case None
    then show ?thesis
      using read_cancel(2) spec D waiters_ok_remove [OF D(6) read_cancel(2)]
        torch_upd [of _ "rs_rfuts s" f]
      unfolding read_cancel(1)
      by (intro rw_invI [OF refl]) (auto simp: rw_deliver_def rw_is_locked_def)
  next
    case (Some e)
    then show ?thesis
      using spec waiters_ok_remove [OF D(6) read_cancel(2)] D(7)
      by (intro rw_inv_cancel [OF inv n, of l _ "(rs_rfuts s)(f := None)" _ "rs_wfuts s" ws])
        (auto simp: read_cancel(1) split: if_splits)
  qed
qed

lemma rw_inv_step_write_cancel:
  assumes inv: "rw_inv n s" and n: "Suc n < usize_bound"
    and write_cancel: "t = rw_deliver ws (s\<lparr>rs_lock := l, rs_wfuts := (rs_wfuts s)(f := None)\<rparr>)"
      "rs_wfuts s f = Some (sl, x)"
      "rw_write_drop sl (rs_lock s) = Inr (ws, l)"
  shows "rw_inv (Suc n) t"
proof -
  note D = rw_invD [OF inv]
  note spec = rw_write_drop_wp [OF D(1), of sl, unfolded write_cancel(3) wp_simps prod.case]
  show ?thesis
  proof (cases sl)
    case None
    then show ?thesis
      using write_cancel(2) spec D waiters_ok_remove [OF D(7) write_cancel(2)]
        torch_upd [of _ "rs_wfuts s" f]
      unfolding write_cancel(1)
      by (intro rw_invI [OF refl]) (auto simp: rw_deliver_def rw_is_locked_def)
  next
    case (Some e)
    then show ?thesis
      using spec waiters_ok_remove [OF D(7) write_cancel(2)] D(6)
      by (intro rw_inv_cancel [OF inv n, of l _ "rs_rfuts s" _ "(rs_wfuts s)(f := None)" ws])
        (auto simp: write_cancel(1) split: if_splits)
  qed
qed

lemma rw_inv_step_read_guard_drop:
  assumes inv: "rw_inv n s" and n: "Suc n < usize_bound"
    and read_guard_drop: "t = rw_deliver ws (s\<lparr>rs_lock := l, rs_rguards := rs_rguards s - 1\<rparr>)"
      "0 < rs_rguards s"
      "rw_read_guard_drop (rs_lock s) = Inr (ws, l)"
  shows "rw_inv (Suc n) t"
proof -
  note D = rw_invD [OF inv]
  have pos: "0 < rw_readers (rs_lock s)" "\<not> rw_writer (rs_lock s)"
    using D(2,4) read_guard_drop(2) by auto
  note spec = rw_release_read_wp [OF D(1) pos(1), folded rw_read_guard_drop_def,
      unfolded read_guard_drop(3) wp_simps prod.case]
  show ?thesis
  proof (cases "1 < rw_readers (rs_lock s)")
    case True
    then show ?thesis
      unfolding read_guard_drop(1) using D spec pos
      by (intro rw_invI [OF refl]) (auto simp: rw_deliver_def rw_is_locked_def)
  next
    case False
    then show ?thesis
      unfolding read_guard_drop(1) using D spec pos
      by (intro rw_inv_woken [where l = l and rfs = "rs_rfuts s" and wfs = "rs_wfuts s" and ws = ws
          and R = "rw_rlist (rs_lock s)" and W = "rw_wlist (rs_lock s)"])
        (auto simp: rw_deliver_def)
  qed
qed

lemma rw_inv_step_write_guard_drop:
  assumes inv: "rw_inv n s" and n: "Suc n < usize_bound"
    and write_guard_drop: "t = rw_deliver ws (s\<lparr>rs_lock := l, rs_wguards := rs_wguards s - 1\<rparr>)"
      "0 < rs_wguards s"
      "rw_write_guard_drop (rs_lock s) = Inr (ws, l)"
  shows "rw_inv (Suc n) t"
proof -
  note D = rw_invD [OF inv]
  have w: "rw_writer (rs_lock s)" "rw_readers (rs_lock s) = 0"
    using D(3,4) write_guard_drop(2) by (auto split: if_splits)
  note spec = rw_release_write_wp [OF D(1) w(1), folded rw_write_guard_drop_def,
      unfolded write_guard_drop(3) wp_simps prod.case]
  then show ?thesis
    unfolding write_guard_drop(1) using D w
    by (intro rw_inv_woken [where l = l and rfs = "rs_rfuts s" and wfs = "rs_wfuts s" and ws = ws
          and R = "rw_rlist (rs_lock s)" and W = "rw_wlist (rs_lock s)"])
      (auto simp: rw_deliver_def)
qed

lemma rw_inv_step_debug:
  assumes inv: "rw_inv n s" and n: "Suc n < usize_bound"
    and debug: "t = rw_deliver ws (s\<lparr>rs_lock := l\<rparr>)" "rw_debug (rs_lock s) = Inr (out, ws, l)"
  shows "rw_inv (Suc n) t"
proof -
  note D = rw_invD [OF inv]
  have small: "rw_readers (rs_lock s) + 1 < usize_bound" "Suc (rw_next_id (rs_lock s)) < usize_bound"
    using D(5,8) n by auto
  show ?thesis
  proof (cases "rw_writer (rs_lock s)")
    case True
    with debug show ?thesis
      using D by (intro rw_invI [OF refl])
        (auto simp: rw_debug_def rw_try_read_def rw_deliver_def rw_is_locked_def)
  next
    case False
    let ?l = "(rs_lock s)\<lparr>rw_readers := rw_readers (rs_lock s) + 1\<rparr>"
    have "rw_ok ?l" "0 < rw_readers ?l" using D(1) by simp_all
    from rw_release_read_wp [OF this] debug(2) False small(1)
    have spec: "rw_ok l" "rw_readers l = rw_readers (rs_lock s)" "\<not> rw_writer l"
      "rw_next_id l = rw_next_id (rs_lock s)"
      "if rw_is_locked (rs_lock s)
       then ws = [] \<and> rw_rlist l = rw_rlist (rs_lock s) \<and> rw_wlist l = rw_wlist (rs_lock s)
       else (ws, rw_rlist l, rw_wlist l) = rw_woken (rw_rlist (rs_lock s)) (rw_wlist (rs_lock s))"
      by (auto simp: rw_debug_def rw_try_read_def rw_add_reader_def checked_add_def rw_is_locked_def
          rw_read_guard_drop_def rbind_Inr_iff split: if_splits)
    then show ?thesis
      using D False
      by (intro rw_inv_cancel [OF inv n, of l _ "rs_rfuts s" _ "rs_wfuts s" ws])
        (auto simp: debug(1) split: if_splits)
  qed
qed

lemma rw_inv_step:
  assumes inv: "rw_inv n s" and n: "Suc n < usize_bound" and step: "rw_step s t"
  shows "rw_inv (Suc n) t"
proof -
  note D = rw_invD [OF inv]
  have small: "rw_readers (rs_lock s) + 1 < usize_bound" "Suc (rw_next_id (rs_lock s)) < usize_bound"
    using D(5,8) n by auto
  from step show ?thesis
  proof cases
    case (new_read f)
    then show ?thesis
      using D waiters_ok_new [OF D(6) new_read(2)] torch_upd [of _ "rs_rfuts s" f]
      by (intro rw_invI [OF refl]) (auto simp: rwlock_read_def)
  next
    case (new_write f)
    then show ?thesis
      using D waiters_ok_new [OF D(7) new_write(2)] torch_upd [of _ "rs_wfuts s" f]
      by (intro rw_invI [OF refl]) (auto simp: rwlock_write_def)
  next
    case (read_ready f sl x w sl' l)
    then show ?thesis
      using rw_read_poll_wp [OF D(1) small(1), of sl w] D waiters_ok_remove [OF D(6) read_ready(2)]
      by (intro rw_invI [OF refl]) (auto simp: rw_is_locked_def split: if_splits)
  next
    case (read_pending f sl x w sl' l)
    then show ?thesis using rw_inv_pending [OF inv n] by blast
  next
    case (write_ready f sl x w sl' l)
    then show ?thesis
      using rw_write_poll_wp [OF D(1), of sl w] D waiters_ok_remove [OF D(7) write_ready(2)]
      by (intro rw_invI [OF refl]) (auto simp: rw_is_locked_def split: if_splits)
  next
    case (write_pending f sl x w sl' l)
    then show ?thesis by (rule rw_inv_step_write_pending [OF inv n])
  next
    case (read_cancel f sl x ws l)
    then show ?thesis by (rule rw_inv_step_read_cancel [OF inv n])
  next
    case (write_cancel f sl x ws l)
    then show ?thesis by (rule rw_inv_step_write_cancel [OF inv n])
  next
    case (try_read got l)
    then show ?thesis
      using D small(1)
      by (intro rw_invI [OF refl])
        (auto simp: rw_try_read_def rw_add_reader_def checked_add_def rw_is_locked_def split: if_splits)
  next
    case (try_write got l)
    then show ?thesis
      using D by (intro rw_invI [OF refl]) (auto simp: rw_try_write_def rw_is_locked_def split: if_splits)
  next
    case (guard_write upd)
    then show ?thesis
      using D by (intro rw_invI [OF refl])
        (auto simp: rw_write_guard_deref_mut_def rw_is_locked_def split: if_splits)
  next
    case (read_guard_drop ws l)
    then show ?thesis by (rule rw_inv_step_read_guard_drop [OF inv n])
  next
    case (write_guard_drop ws l)
    then show ?thesis by (rule rw_inv_step_write_guard_drop [OF inv n])
  next
    case (debug out ws l)
    then show ?thesis by (rule rw_inv_step_debug [OF inv n])
  qed
qed

interpretation rw: transition_system rw_init rw_step rw_inv
  by unfold_locales (auto intro: rw_inv_init rw_inv_step)

section \<open>Correctness\<close>

text \<open>A run: a reader holds the lock, and a writer and then a second reader queue behind it.\<close>

lemma rw_run:
  obtains l :: "nat rw_lock" and d e where
    "reach rw_init rw_step 5 \<lparr>rs_lock = l, rs_rfuts = [0 \<mapsto> (Some d, polled 6)],
       rs_wfuts = [0 \<mapsto> (Some e, polled 5)], rs_rguards = 1, rs_wguards = 0\<rparr>"
    "rw_ok l" "rw_rlist l = [d]" "rw_wlist l = [e]" "rw_readers l = 1" "\<not> rw_writer l"
proof -
  let ?s = "\<lambda>l rf wf. \<lparr>rs_lock = l, rs_rfuts = rf, rs_wfuts = wf, rs_rguards = 1, rs_wguards = 0\<rparr>"
  define l1 where "l1 = (rwlock_new (0::nat))\<lparr>rw_readers := 1\<rparr>"
  have l1: "rw_try_read (rwlock_new 0) = Inr (True, l1)" "rw_ok l1" "rw_rlist l1 = []" "rw_wlist l1 = []"
    "rw_readers l1 = 1" "\<not> rw_writer l1"
    by (simp_all add: rw_try_read_def rw_add_reader_def checked_add_def l1_def rwlock_new_def rw_defs)
  obtain l2 e where l2: "rw_write_poll rwlock_write 5 l1 = Inr (Pending, Some e, l2)" "rw_ok l2"
    "rw_rlist l2 = []" "rw_wlist l2 = [e]" "rw_readers l2 = 1" "\<not> rw_writer l2"
    using rw_write_poll_wp [OF l1(2), of None 5] l1(3-6)
    by (auto simp: wp_ex rw_is_locked_def registered_def rwlock_write_def)
  have small: "rw_readers l2 + 1 < usize_bound" using l2(5) by (simp add: usize_bound_def)
  obtain l3 d where l3: "rw_read_poll rwlock_read 6 l2 = Inr (Pending, Some d, l3)" "rw_ok l3"
    "rw_rlist l3 = [d]" "rw_wlist l3 = [e]" "rw_readers l3 = 1" "\<not> rw_writer l3"
    using rw_read_poll_wp [OF l2(2) small, of None 6] l2(3-6)
    by (auto simp: wp_ex registered_def rwlock_read_def)
  have "reach rw_init rw_step 0 (?s (rwlock_new 0) Map.empty Map.empty\<lparr>rs_rguards := 0\<rparr>)"
    by (rule reach.start) (auto simp: rw_init_def)
  from reach.next_step [OF this, OF rw_step.try_read [where got = True and l = l1]] l1(1)
  have "reach rw_init rw_step 1 (?s l1 Map.empty Map.empty)" by simp
  from reach.next_step [OF this, OF rw_step.new_write [where f = 0]]
  have "reach rw_init rw_step 2 (?s l1 Map.empty [0 \<mapsto> (rwlock_write, new_fut)])" by (simp add: numeral_eq_Suc)
  from reach.next_step [OF this, OF rw_step.write_pending [where f = 0 and sl = rwlock_write and x = new_fut
      and w = 5 and sl' = "Some e" and l = l2]] l2(1)
  have "reach rw_init rw_step 3 (?s l2 Map.empty [0 \<mapsto> (Some e, polled 5)])" by (simp add: numeral_eq_Suc)
  from reach.next_step [OF this, OF rw_step.new_read [where f = 0]]
  have "reach rw_init rw_step 4 (?s l2 [0 \<mapsto> (rwlock_read, new_fut)] [0 \<mapsto> (Some e, polled 5)])"
    by (simp add: numeral_eq_Suc)
  from reach.next_step [OF this, OF rw_step.read_pending [where f = 0 and sl = rwlock_read and x = new_fut
      and w = 6 and sl' = "Some d" and l = l3]] l3(1)
  have "reach rw_init rw_step 5 (?s l3 [0 \<mapsto> (Some d, polled 6)] [0 \<mapsto> (Some e, polled 5)])"
    by (simp add: numeral_eq_Suc)
  with l3 show thesis using that by blast
qed

text \<open>
  C3. Exclusion. In every run there is at most one write guard, never together with a read guard;
  the reader count is the number of live read guards and the writer flag says whether there is a
  write guard.
\<close>

theorem rw_exclusion:
  assumes "reach rw_init rw_step n s" "n < usize_bound"
  shows "rs_wguards s \<le> 1 \<and> (rs_wguards s = 1 \<longrightarrow> rs_rguards s = 0) \<and>
    rw_reader_count (rs_lock s) = rs_rguards s \<and>
    (rw_is_write_locked (rs_lock s) \<longleftrightarrow> rs_wguards s = 1)"
  using rw_invD(2-4) [OF rw.reach_inv [OF assms]]
  by (auto simp: rw_reader_count_def rw_is_write_locked_def)

theorem rw_exclusion_witness:
  "\<exists>s. reach rw_init rw_step 5 (s :: nat rw_sys) \<and> rs_rguards s = 1 \<and> rw_reader_count (rs_lock s) = 1"
proof -
  obtain s :: "nat rw_sys" where s: "reach rw_init rw_step 5 s" "rs_rguards s = 1"
    by (rule rw_run) auto
  from rw_exclusion [OF s(1)] s show ?thesis by fastforce
qed

lemma registered_torch:
  assumes "waiters_ok L n futs" "futs f = Some (Some e, x)" "L \<noteq> [] \<Longrightarrow> torch L futs \<or> P"
  shows "(\<exists>g sl y. futs g = Some (sl, y) \<and> fut_notified y) \<or> L \<noteq> [] \<and> P"
proof (cases "fst e \<in> fst ` set L")
  case True
  then have "L \<noteq> []" by auto
  with assms(3) show ?thesis by (auto simp: torch_def)
next
  case False
  then have "fut_notified x" using waiters_okD(5) [OF assms(1), of f "fst e" "snd e" x] assms(2) by simp
  with assms(2) show ?thesis by blast
qed

text \<open>
  C4. No lost wakeup. Whenever the lock is free and a reader or a writer is waiting (registered),
  some live future has been woken since its last poll, and polling it with any waker takes the lock.
\<close>

theorem rw_no_lost_wakeup:
  assumes "reach rw_init rw_step n s" "Suc n < usize_bound" "\<not> rw_is_locked (rs_lock s)"
    and "rs_rfuts s f = Some (Some e, x) \<or> rs_wfuts s f = Some (Some e, x)"
  shows "(\<exists>g sl y. rs_wfuts s g = Some (sl, y) \<and> fut_notified y \<and>
      (\<forall>w. wp (rw_write_poll sl w (rs_lock s)) (\<lambda>(r, _). r = Ready ()))) \<or>
    (\<exists>g sl y. rs_rfuts s g = Some (sl, y) \<and> fut_notified y \<and>
      (\<forall>w. wp (rw_read_poll sl w (rs_lock s)) (\<lambda>(r, _). r = Ready ())))"
proof -
  have inv: "rw_inv n s" using rw.reach_inv [OF assms(1)] assms(2) by simp
  note ok = rw_invD(1) [OF inv] and free = assms(3)
  have wr: "wp (rw_write_poll sl w (rs_lock s)) (\<lambda>(r, _). r = Ready ())" for sl w
    using rw_write_poll_wp [OF ok, of sl w] free by (auto elim!: wp_mono)
  have rd: "wp (rw_read_poll sl w (rs_lock s)) (\<lambda>(r, _). r = Ready ())" if "rw_wlist (rs_lock s) = []" for sl w
    using rw_read_poll_wp [OF ok, of sl w] rw_invD(5) [OF inv] assms(2) free that
    by (auto simp: rw_is_locked_def elim!: wp_mono)
  let ?W = "\<exists>g sl y. rs_wfuts s g = Some (sl, y) \<and> fut_notified y"
  have W: ?W if "rw_wlist (rs_lock s) \<noteq> []" using rw_invD(9) [OF inv free that] by (auto simp: torch_def)
  show ?thesis
  proof (cases ?W)
    case True
    then show ?thesis using wr by blast
  next
    case False
    then have nil: "rw_wlist (rs_lock s) = []" using W by blast
    have "\<nexists>e x. rs_wfuts s f = Some (Some e, x)"
      using registered_torch [OF rw_invD(7) [OF inv], of f] False nil by blast
    then have "rs_rfuts s f = Some (Some e, x)" using assms(4) by blast
    from registered_torch [OF rw_invD(6) [OF inv] this rw_invD(10) [OF inv free, THEN disj_commute [THEN iffD1]]]
    have "\<exists>g sl y. rs_rfuts s g = Some (sl, y) \<and> fut_notified y"
      using False by (auto simp: torch_def)
    then show ?thesis using rd [OF nil] by blast
  qed
qed

theorem rw_no_lost_wakeup_witness:
  "\<exists>s g sl y. reach rw_init rw_step 6 (s :: nat rw_sys) \<and>
     (rs_wfuts s g = Some (sl, y) \<or> rs_rfuts s g = Some (sl, y)) \<and> fut_notified y"
proof -
  obtain l :: "nat rw_lock" and d e where s: "reach rw_init rw_step 5 \<lparr>rs_lock = l, rs_rfuts = [0 \<mapsto> (Some d, polled 6)],
       rs_wfuts = [0 \<mapsto> (Some e, polled 5)], rs_rguards = 1, rs_wguards = 0\<rparr>"
    and l: "rw_ok l" "rw_readers l = 1" "\<not> rw_writer l" by (rule rw_run)
  obtain ws l' where l': "rw_read_guard_drop l = Inr (ws, l')" "\<not> rw_is_locked l'"
    using rw_release_read_wp [OF l(1)] l(2,3) by (auto simp: wp_ex rw_read_guard_drop_def rw_is_locked_def)
  let ?t = "rw_deliver ws \<lparr>rs_lock = l', rs_rfuts = [0 \<mapsto> (Some d, polled 6)],
       rs_wfuts = [0 \<mapsto> (Some e, polled 5)], rs_rguards = 0, rs_wguards = 0\<rparr>"
  have t: "reach rw_init rw_step 6 ?t"
    using reach.next_step [OF s, OF rw_step.read_guard_drop [where ws = ws and l = l']] l'(1)
    by (simp add: numeral_eq_Suc)
  have "rs_wfuts ?t 0 = Some (Some e, wake_fut ws (polled 5))" by (simp add: rw_deliver_def notify_def)
  with rw_no_lost_wakeup [OF t, of 0 e "wake_fut ws (polled 5)"] l'(2) t show ?thesis
    by (fastforce simp: rw_deliver_def usize_bound_def)
qed

text \<open>
  C5. Write preference. While a writer is queued, polling a reader never gets the lock, whoever
  polls and however often: the reader is queued and the reader count stays.
\<close>

theorem rw_write_preference:
  assumes "reach rw_init rw_step n s" "Suc n < usize_bound" "rw_wlist (rs_lock s) \<noteq> []"
  shows "wp (rw_read_poll sl w (rs_lock s)) (\<lambda>(r, sl', l). r = Pending \<and> sl' \<noteq> None \<and>
    rw_reader_count l = rw_reader_count (rs_lock s))"
proof -
  have inv: "rw_inv n s" using rw.reach_inv [OF assms(1)] assms(2) by simp
  show ?thesis
    using rw_read_poll_wp [OF rw_invD(1) [OF inv], of sl w] rw_invD(5) [OF inv] assms(2,3)
    by (auto simp: rw_reader_count_def registered_def split: if_splits elim!: wp_mono)
qed

theorem rw_write_preference_witness:
  "\<exists>s. reach rw_init rw_step 5 (s :: nat rw_sys) \<and>
     wp (rw_read_poll None 9 (rs_lock s)) (\<lambda>(r, _). r = Pending)"
proof -
  obtain s :: "nat rw_sys" where s: "reach rw_init rw_step 5 s" "rw_wlist (rs_lock s) \<noteq> []"
    by (rule rw_run) auto
  from rw_write_preference [OF s(1) _ s(2), of None 9] s(1) show ?thesis
    by (auto simp: usize_bound_def elim!: wp_mono)
qed

text \<open>
  C11. Cancelling the queued writer strands the readers. While a reader holds the lock and one writer is
  queued, a poll of any other reader is pending, because of the writer. Cancelling that writer makes
  the lock available for reading: the same poll would succeed. But the cancellation wakes nobody, and
  the futures of the readers are as unwoken after it as before.
\<close>

theorem rw_cancelled_writer_strands_readers:
  assumes "reach rw_init rw_step n s" "Suc n < usize_bound"
    and "0 < rs_rguards s" "rw_wlist (rs_lock s) = [e]" "rs_wfuts s g = Some (Some e, y)"
  shows "wp (rw_read_poll sl w (rs_lock s)) (\<lambda>(r, _). r = Pending) \<and>
    (\<exists>t. rw_write_drop (Some e) (rs_lock s) = Inr ([], rs_lock t) \<and> rw_step s t \<and>
      rs_wfuts t = (rs_wfuts s)(g := None) \<and> rs_rfuts t = rs_rfuts s \<and> rs_rguards t = rs_rguards s \<and>
      rw_rlist (rs_lock t) = rw_rlist (rs_lock s) \<and> rw_wlist (rs_lock t) = [] \<and>
      wp (rw_read_poll sl w (rs_lock t)) (\<lambda>(r, _). r = Ready ()))"
proof -
  let ?l = "rs_lock s"
  have inv: "rw_inv n s" using rw.reach_inv [OF assms(1)] assms(2) by simp
  note ok = rw_invD(1) [OF inv]
  have held: "rw_readers ?l = rs_rguards s" "\<not> rw_writer ?l" "rw_is_locked ?l" and small: "rw_readers ?l + 1 < usize_bound"
    using rw_invD(2,4,5) [OF inv] assms(2,3) by (auto simp: rw_is_locked_def)
  obtain l where l: "rw_write_drop (Some e) ?l = Inr ([], l)" "rw_ok l" "rw_readers l = rw_readers ?l"
    "\<not> rw_writer l" "rw_rlist l = rw_rlist ?l" "rw_wlist l = []"
    using rw_write_drop_wp [OF ok, of "Some e"] held(2,3) assms(4) by (cases e) (auto simp: wp_ex)
  let ?t = "s\<lparr>rs_lock := l, rs_wfuts := (rs_wfuts s)(g := None)\<rparr>"
  have "rw_step s ?t"
    using rw_step.write_cancel [OF assms(5) l(1)] by (simp add: rw_deliver_def)
  moreover have "wp (rw_read_poll sl w l) (\<lambda>(r, _). r = Ready ())"
    using rw_read_poll_wp [OF l(2), of sl w] small l(3,4,6) by (auto elim!: wp_mono)
  moreover have "wp (rw_read_poll sl w ?l) (\<lambda>(r, _). r = Pending)"
    using rw_read_poll_wp [OF ok small, of sl w] assms(4) by (auto elim!: wp_mono)
  ultimately show ?thesis using l by (intro conjI exI [of _ ?t]) simp_all
qed

theorem rw_cancelled_writer_strands_readers_witness:
  "\<exists>s t sl x. reach rw_init rw_step 5 (s :: nat rw_sys) \<and> rw_step s t \<and> rs_wfuts t = Map.empty \<and>
     rs_rfuts t 0 = Some (Some sl, x) \<and> \<not> fut_notified x \<and>
     wp (rw_read_poll (Some sl) 6 (rs_lock s)) (\<lambda>(r, _). r = Pending) \<and>
     wp (rw_read_poll (Some sl) 6 (rs_lock t)) (\<lambda>(r, _). r = Ready ())"
proof -
  obtain l :: "nat rw_lock" and d e where s: "reach rw_init rw_step 5 \<lparr>rs_lock = l, rs_rfuts = [0 \<mapsto> (Some d, polled 6)],
       rs_wfuts = [0 \<mapsto> (Some e, polled 5)], rs_rguards = 1, rs_wguards = 0\<rparr>" and l: "rw_wlist l = [e]" by (rule rw_run)
  from rw_cancelled_writer_strands_readers [OF s, of e 0 "polled 5" "Some d" 6] l
  show ?thesis using s by fastforce
qed

end
