(* ===== verification/Semaphore.thy ===== *)
theory Semaphore
  imports Waiters
begin

text \<open>
  \<open>LocalSemaphore\<close> of \<open>src/src/site_c/semaphore.rs\<close>: the permit count, the FIFO queue of
  \<open>(token, n, waker)\<close> requests and the token counter, with every operation of the semaphore, of the
  \<open>Acquire\<close> future and of the \<open>Permit\<close>. The second half runs any number of futures and permits
  against one semaphore and shows conservation of permits, FIFO fairness and, as long as each future
  keeps its waker, that a satisfiable front request is never left unnotified.
\<close>

section \<open>The semaphore\<close>

type_synonym sem_entry = "nat \<times> nat \<times> waker"
type_synonym sem_slot = "sem_entry option"

record local_semaphore =
  sm_permits :: nat
  sm_waiters :: "sem_entry queue"
  sm_next_id :: nat

definition sem_new :: "nat \<Rightarrow> local_semaphore" where
  "sem_new permits = \<lparr>sm_permits = permits, sm_waiters = queue_new 8, sm_next_id = 0\<rparr>"

definition sem_available :: "local_semaphore \<Rightarrow> nat" where
  "sem_available s = sm_permits s"

definition sem_try_acquire_many :: "nat \<Rightarrow> local_semaphore \<Rightarrow> nat option \<times> local_semaphore" where
  "sem_try_acquire_many n s =
     (let p = sm_permits s in
      if n \<le> p then (Some n, s\<lparr>sm_permits := p - n\<rparr>) else (None, s))"

definition sem_try_acquire :: "local_semaphore \<Rightarrow> nat option \<times> local_semaphore" where
  "sem_try_acquire s = sem_try_acquire_many 1 s"

text \<open>An \<open>Acquire\<close> future is the request size and its \<open>registered\<close> slot.\<close>

definition sem_acquire_many :: "nat \<Rightarrow> nat \<times> sem_slot" where
  "sem_acquire_many n = (n, None)"

definition sem_acquire :: "nat \<times> sem_slot" where
  "sem_acquire = sem_acquire_many 1"

definition sem_bump_permits :: "nat \<Rightarrow> local_semaphore \<Rightarrow> local_semaphore res" where
  "sem_bump_permits n s =
     (case checked_add (sm_permits s) n of
        Some p \<Rightarrow> Inr (s\<lparr>sm_permits := p\<rparr>)
      | None \<Rightarrow> Inl (Overflow ''LocalSemaphore permit count overflow''))"

text \<open>\<open>waiters.iter().next()\<close>.\<close>

definition iter_first :: "'a queue \<Rightarrow> 'a option res" where
  "iter_first q = rbind (iter_next 8 (queue_iter q)) (\<lambda>(x, _). Inr x)"

definition sem_can_acquire_fair :: "nat \<Rightarrow> nat option \<Rightarrow> local_semaphore \<Rightarrow> bool res" where
  "sem_can_acquire_fair n tok s =
     (if sm_permits s < n then Inr False
      else
        rbind (iter_first (sm_waiters s)) (\<lambda>x.
          case x of None \<Rightarrow> Inr True | Some (front, _, _) \<Rightarrow> Inr (Some front = tok)))"

definition sem_wake_next :: "local_semaphore \<Rightarrow> waker list res" where
  "sem_wake_next s =
     rbind (iter_first (sm_waiters s)) (\<lambda>front_n.
       case front_n of
         None \<Rightarrow> Inr []
       | Some (_, n, _) \<Rightarrow>
           if sm_permits s < n then Inr []
           else
             rbind (iter_first (sm_waiters s)) (\<lambda>x.
               case x of Some (_, _, w) \<Rightarrow> Inr [w] | None \<Rightarrow> Inr []))"

definition sem_add_permits :: "nat \<Rightarrow> local_semaphore \<Rightarrow> (waker list \<times> local_semaphore) res" where
  "sem_add_permits n s =
     rbind (sem_bump_permits n s) (\<lambda>s'.
       if \<not> queue_is_empty (sm_waiters s')
       then rbind (sem_wake_next s') (\<lambda>ws. Inr (ws, s'))
       else Inr ([], s'))"

definition sem_register ::
  "sem_slot \<Rightarrow> nat \<Rightarrow> waker \<Rightarrow> local_semaphore \<Rightarrow> (sem_slot \<times> local_semaphore) res" where
  "sem_register slot n waker s =
     rbind (case slot of
              Some (tok, _, w) \<Rightarrow>
                if will_wake w waker
                then rbind (iter_any 8 (\<lambda>(qid, _, _). qid = tok) (sm_waiters s)) (\<lambda>b. Inr (\<not> b))
                else Inr True
            | None \<Rightarrow> Inr True)
     (\<lambda>stale.
        if \<not> stale then Inr (slot, s)
        else
          (let (tok, next_id) =
                 (case slot of Some (tok, _, _) \<Rightarrow> (tok, sm_next_id s)
                  | None \<Rightarrow> (sm_next_id s, wrapping_add (sm_next_id s) 1))
           in rbind (take_where 8 (\<lambda>(qid, _, _). qid = tok) (sm_waiters s)) (\<lambda>(removed, q).
              rbind (push_back 8 (tok, n, waker) q) (\<lambda>q'.
                Inr (Some (tok, n, waker), s\<lparr>sm_waiters := q', sm_next_id := next_id\<rparr>)))))"

definition sem_deregister :: "sem_slot \<Rightarrow> local_semaphore \<Rightarrow> (sem_slot \<times> local_semaphore) res" where
  "sem_deregister slot s =
     (case slot of
        Some (tok, _, _) \<Rightarrow>
          rbind (take_where 8 (\<lambda>(qid, _, _). qid = tok) (sm_waiters s)) (\<lambda>(removed, q).
            Inr (None, s\<lparr>sm_waiters := q\<rparr>))
      | None \<Rightarrow> Inr (None, s))"

definition sem_release :: "nat \<Rightarrow> local_semaphore \<Rightarrow> (waker list \<times> local_semaphore) res" where
  "sem_release n s =
     rbind (sem_bump_permits n s) (\<lambda>s'.
       if \<not> queue_is_empty (sm_waiters s')
       then rbind (sem_wake_next s') (\<lambda>ws. Inr (ws, s'))
       else Inr ([], s'))"

text \<open>The success branch of \<open>poll\<close>, which the source writes twice.\<close>

definition sem_take ::
  "nat \<Rightarrow> sem_slot \<Rightarrow> local_semaphore \<Rightarrow> (nat poll \<times> sem_slot \<times> waker list \<times> local_semaphore) res" where
  "sem_take n slot s =
     rbind (sem_deregister slot (s\<lparr>sm_permits := sm_permits s - n\<rparr>)) (\<lambda>(slot', s').
     rbind (sem_wake_next s') (\<lambda>ws.
       Inr (Ready n, slot', ws, s')))"

definition sem_poll ::
  "nat \<times> sem_slot \<Rightarrow> waker \<Rightarrow> local_semaphore
   \<Rightarrow> (nat poll \<times> sem_slot \<times> waker list \<times> local_semaphore) res" where
  "sem_poll fut waker s =
     (let (n, slot) = fut in
      rbind (sem_can_acquire_fair n (map_option fst slot) s) (\<lambda>ok.
        if ok then sem_take n slot s
        else
          rbind (sem_register slot n waker s) (\<lambda>(slot', s').
          rbind (sem_can_acquire_fair n (map_option fst slot') s') (\<lambda>ok'.
            if ok' then sem_take n slot' s' else Inr (Pending, slot', [], s')))))"

definition sem_drop_acquire :: "nat \<times> sem_slot \<Rightarrow> local_semaphore \<Rightarrow> (waker list \<times> local_semaphore) res" where
  "sem_drop_acquire fut s =
     (if snd fut \<noteq> None then
        rbind (sem_deregister (snd fut) s) (\<lambda>(_, s').
        rbind (sem_wake_next s') (\<lambda>ws. Inr (ws, s')))
      else Inr ([], s))"

definition permit_count :: "nat \<Rightarrow> nat" where
  "permit_count n = n"

definition permit_drop :: "nat \<Rightarrow> local_semaphore \<Rightarrow> (waker list \<times> local_semaphore) res" where
  "permit_drop n s = sem_release n s"

text \<open>\<open>Permit::forget\<close> skips the destructor: the permits are never returned.\<close>

definition permit_forget :: "nat \<Rightarrow> local_semaphore \<Rightarrow> local_semaphore" where
  "permit_forget n s = s"

section \<open>Specifications\<close>

interpretation sq: waiter_deque "queue_inv 8" queue_list "queue_new 8" "push_back 8"
  "push_front 8" "pop_front 8" "pop_back 8" "take_where 8" "fst :: sem_entry \<Rightarrow> nat"
  by unfold_locales

lemma iter_first_ok:
  assumes "queue_inv 8 q"
  shows "iter_first q = Inr (case queue_list q of [] \<Rightarrow> None | x # _ \<Rightarrow> Some x)"
  using assms
proof (cases rule: queue_cases)
  case (Inline buf h xs)
  then show ?thesis
    using ring_repD [OF Inline(2), of 0]
    by (cases xs) (auto simp: iter_first_def slot_ref_def ring_rep_def)
next
  case (Heap vec)
  then show ?thesis by (cases vec) (simp_all add: iter_first_def)
qed

definition sem_without :: "sem_slot \<Rightarrow> sem_entry list \<Rightarrow> sem_entry list" where
  "sem_without slot L = (case slot of None \<Rightarrow> L | Some (tok, _, _) \<Rightarrow> filter (\<lambda>e. fst e \<noteq> tok) L)"

lemma sem_without_simps [simp]:
  "sem_without None L = L"
  "sem_without (Some (tok, k, w)) L = filter (\<lambda>e. fst e \<noteq> tok) L"
  by (simp_all add: sem_without_def)

text \<open>Whom \<open>wake_next\<close> wakes: the front request, if the permits cover it.\<close>

definition front_wakes :: "nat \<Rightarrow> sem_entry list \<Rightarrow> waker list" where
  "front_wakes p L = (case L of [] \<Rightarrow> [] | (_, n, w) # _ \<Rightarrow> if p < n then [] else [w])"

lemma front_wakes_Nil [simp]: "front_wakes p [] = []"
  by (simp add: front_wakes_def)

lemma sem_wake_next_ok:
  "queue_inv 8 (sm_waiters s) \<Longrightarrow>
   sem_wake_next s = Inr (front_wakes (sm_permits s) (queue_list (sm_waiters s)))"
  by (auto simp: sem_wake_next_def iter_first_ok front_wakes_def split: list.splits)

lemma sem_can_acquire_fair_ok:
  "queue_inv 8 (sm_waiters s) \<Longrightarrow>
   sem_can_acquire_fair n tok s =
     Inr (n \<le> sm_permits s \<and>
          (queue_list (sm_waiters s) = [] \<or> tok = Some (fst (hd (queue_list (sm_waiters s))))))"
  by (auto simp: sem_can_acquire_fair_def iter_first_ok split: list.splits)

lemma sem_deregister_wp:
  assumes "queue_inv 8 (sm_waiters s)"
  shows "wp (sem_deregister sl s) (\<lambda>(sl', s'). sl' = None \<and> queue_inv 8 (sm_waiters s') \<and>
    sm_permits s' = sm_permits s \<and> sm_next_id s' = sm_next_id s \<and>
    queue_list (sm_waiters s') = sem_without sl (queue_list (sm_waiters s)))"
proof (cases sl)
  case None
  with assms show ?thesis by (simp add: sem_deregister_def)
next
  case (Some e)
  obtain tok k w where e: "e = (tok, k, w)" by (cases e)
  have "(\<lambda>(qid, _, _). qid = tok) = (\<lambda>e::sem_entry. fst e = tok)" by (auto simp: fun_eq_iff)
  then show ?thesis
    using sq.remove [OF assms, of tok] Some e
    by (auto simp: sem_deregister_def elim!: wp_mono)
qed

definition sem_registered ::
  "sem_entry list \<Rightarrow> nat \<Rightarrow> sem_slot \<Rightarrow> nat \<Rightarrow> waker \<Rightarrow> sem_entry list \<Rightarrow> nat \<Rightarrow> sem_slot \<Rightarrow> bool" where
  "sem_registered L nid sl k w L' nid' sl' \<longleftrightarrow>
     (if \<exists>t j. sl = Some (t, j, w) \<and> t \<in> fst ` set L then L' = L \<and> nid' = nid \<and> sl' = sl
      else (let t = (case sl of Some (t, _, _) \<Rightarrow> t | None \<Rightarrow> nid) in
            sl' = Some (t, k, w) \<and> nid' = (if sl = None then wrapping_add nid 1 else nid) \<and>
            L' = filter (\<lambda>e. fst e \<noteq> t) L @ [(t, k, w)]))"

lemma sem_register_wp:
  assumes "queue_inv 8 (sm_waiters s)"
  shows "wp (sem_register sl k w s) (\<lambda>(sl', s'). queue_inv 8 (sm_waiters s') \<and>
    sm_permits s' = sm_permits s \<and>
    sem_registered (queue_list (sm_waiters s)) (sm_next_id s) sl k w
      (queue_list (sm_waiters s')) (sm_next_id s') sl')"
proof -
  have pred: "(\<lambda>(qid, _, _). qid = t) = (\<lambda>e::sem_entry. fst e = t)" for t
    by (auto simp: fun_eq_iff)
  have upd: "wp (rbind (take_where 8 (\<lambda>e. fst e = t) (sm_waiters s)) (\<lambda>(removed, q).
        rbind (push_back 8 (t, k, w) q) (\<lambda>q'.
          Inr (Some (t, k, w), s\<lparr>sm_waiters := q', sm_next_id := nid\<rparr>))))
      (\<lambda>(sl', s'). queue_inv 8 (sm_waiters s') \<and> sm_permits s' = sm_permits s \<and>
         sl' = Some (t, k, w) \<and> sm_next_id s' = nid \<and>
         queue_list (sm_waiters s') = filter (\<lambda>e. fst e \<noteq> t) (queue_list (sm_waiters s)) @ [(t, k, w)])"
    for t nid
    using sq.renew [OF assms, of t "(t, k, w)"] by (simp add: split_def)
  show ?thesis
  proof (cases sl)
    case None
    show ?thesis
      using upd [of "sm_next_id s" "wrapping_add (sm_next_id s) 1"] None
      by (simp add: sem_register_def pred sem_registered_def split_def Let_def)
  next
    case (Some e)
    obtain t j v where e: "e = (t, j, v)" by (cases e)
    have any: "list_ex (\<lambda>e. fst e = t) (queue_list (sm_waiters s)) =
        (t \<in> fst ` set (queue_list (sm_waiters s)))"
      by (force simp: list_ex_iff)
    show ?thesis
    proof (cases "v = w \<and> t \<in> fst ` set (queue_list (sm_waiters s))")
      case True
      then show ?thesis
        using Some e assms any
        by (simp add: sem_register_def will_wake_def iter_any_ok pred sem_registered_def)
    next
      case False
      then have eq: "sem_register sl k w s =
          rbind (take_where 8 (\<lambda>e. fst e = t) (sm_waiters s)) (\<lambda>(removed, q).
            rbind (push_back 8 (t, k, w) q) (\<lambda>q'.
              Inr (Some (t, k, w), s\<lparr>sm_waiters := q', sm_next_id := sm_next_id s\<rparr>)))"
        using Some e assms any by (auto simp: sem_register_def will_wake_def iter_any_ok pred)
      have "\<not> (\<exists>t j. sl = Some (t, j, w) \<and> t \<in> fst ` set (queue_list (sm_waiters s)))"
        using False Some e by auto
      then show ?thesis
        unfolding eq by (intro wp_mono [OF upd]) (auto simp: sem_registered_def Some e Let_def)
    qed
  qed
qed

lemma sem_take_wp:
  assumes "queue_inv 8 (sm_waiters s)"
  shows "wp (sem_take k sl s) (\<lambda>(r, sl', ws, s'). r = Ready k \<and> sl' = None \<and>
    queue_inv 8 (sm_waiters s') \<and> sm_permits s' = sm_permits s - k \<and> sm_next_id s' = sm_next_id s \<and>
    queue_list (sm_waiters s') = sem_without sl (queue_list (sm_waiters s)) \<and>
    ws = front_wakes (sm_permits s') (queue_list (sm_waiters s')))"
proof -
  have "queue_inv 8 (sm_waiters (s\<lparr>sm_permits := sm_permits s - k\<rparr>))" using assms by simp
  from sem_deregister_wp [OF this, of sl] show ?thesis
    unfolding sem_take_def by (auto simp: sem_wake_next_ok elim!: wp_mono)
qed

text \<open>
  A poll succeeds exactly when the permits suffice and nobody else is at the front; the only side
  condition is that a fresh token does not collide with a queued one.
\<close>

lemma sem_poll_wp:
  assumes "queue_inv 8 (sm_waiters s)"
    and fresh: "sl = None \<Longrightarrow> sm_next_id s \<notin> fst ` set (queue_list (sm_waiters s))"
  shows "wp (sem_poll (k, sl) w s) (\<lambda>(r, sl', ws, s'). queue_inv 8 (sm_waiters s') \<and>
    (if k \<le> sm_permits s \<and> (queue_list (sm_waiters s) = [] \<or>
          map_option fst sl = Some (fst (hd (queue_list (sm_waiters s)))))
     then r = Ready k \<and> sl' = None \<and> sm_permits s' = sm_permits s - k \<and>
          sm_next_id s' = sm_next_id s \<and>
          queue_list (sm_waiters s') = sem_without sl (queue_list (sm_waiters s)) \<and>
          ws = front_wakes (sm_permits s') (queue_list (sm_waiters s'))
     else r = Pending \<and> ws = [] \<and> sm_permits s' = sm_permits s \<and>
          sem_registered (queue_list (sm_waiters s)) (sm_next_id s) sl k w
            (queue_list (sm_waiters s')) (sm_next_id s') sl'))"
proof (cases "k \<le> sm_permits s \<and> (queue_list (sm_waiters s) = [] \<or>
          map_option fst sl = Some (fst (hd (queue_list (sm_waiters s)))))")
  case True
  then show ?thesis
    using sem_take_wp [OF assms(1), of k sl]
    by (auto simp: sem_poll_def sem_can_acquire_fair_ok [OF assms(1)] elim!: wp_mono)
next
  case False
  let ?L = "queue_list (sm_waiters s)"
  have still: "\<not> (k \<le> sm_permits s \<and> (L' = [] \<or> map_option fst sl' = Some (fst (hd L'))))"
    if "sem_registered ?L (sm_next_id s) sl k w L' nid' sl'" for L' nid' sl'
    using that False fresh
    by (cases ?L; cases sl) (auto simp: sem_registered_def Let_def split: if_splits)
  have "wp (rbind (sem_register sl k w s) (\<lambda>(slot', s').
        rbind (sem_can_acquire_fair k (map_option fst slot') s') (\<lambda>ok'.
          if ok' then sem_take k slot' s' else Inr (Pending, slot', [], s'))))
    (\<lambda>(r, sl', ws, s'). queue_inv 8 (sm_waiters s') \<and> r = Pending \<and> ws = [] \<and>
       sm_permits s' = sm_permits s \<and>
       sem_registered ?L (sm_next_id s) sl k w
         (queue_list (sm_waiters s')) (sm_next_id s') sl')"
  proof (rule wp_rbindI [OF sem_register_wp [OF assms(1), of sl k w]], clarsimp, goal_cases)
    case (1 sl' s')
    then show ?case using still [OF 1(3)] by (auto simp: sem_can_acquire_fair_ok)
  qed
  with False show ?thesis
    by (auto simp: sem_poll_def sem_can_acquire_fair_ok [OF assms(1)])
qed


lemma sem_release_wp:
  assumes "queue_inv 8 (sm_waiters s)" "sm_permits s + k < usize_bound"
  shows "wp (sem_release k s) (\<lambda>(ws, s'). sm_permits s' = sm_permits s + k \<and>
    sm_waiters s' = sm_waiters s \<and> sm_next_id s' = sm_next_id s \<and>
    ws = front_wakes (sm_permits s + k) (queue_list (sm_waiters s)))"
  using assms
  by (auto simp: sem_release_def sem_bump_permits_def checked_add_def sem_wake_next_ok
      queue_is_empty_list)

lemma sem_add_permits_wp:
  assumes "queue_inv 8 (sm_waiters s)" "sm_permits s + k < usize_bound"
  shows "wp (sem_add_permits k s) (\<lambda>(ws, s'). sm_permits s' = sm_permits s + k \<and>
    sm_waiters s' = sm_waiters s \<and> sm_next_id s' = sm_next_id s \<and>
    ws = front_wakes (sm_permits s + k) (queue_list (sm_waiters s)))"
  using sem_release_wp [OF assms] by (simp add: sem_add_permits_def sem_release_def)

lemma sem_bump_overflow:
  "usize_bound \<le> sm_permits s + k \<Longrightarrow>
   sem_add_permits k s = Inl (Overflow ''LocalSemaphore permit count overflow'') \<and>
   sem_release k s = Inl (Overflow ''LocalSemaphore permit count overflow'')"
  by (simp add: sem_add_permits_def sem_release_def sem_bump_permits_def checked_add_def)

lemma sem_drop_acquire_wp:
  assumes "queue_inv 8 (sm_waiters s)"
  shows "wp (sem_drop_acquire (k, sl) s) (\<lambda>(ws, s'). queue_inv 8 (sm_waiters s') \<and>
    sm_permits s' = sm_permits s \<and> sm_next_id s' = sm_next_id s \<and>
    queue_list (sm_waiters s') = sem_without sl (queue_list (sm_waiters s)) \<and>
    ws = (if sl = None then [] else front_wakes (sm_permits s) (queue_list (sm_waiters s'))))"
proof (cases sl)
  case None
  with assms show ?thesis by (simp add: sem_drop_acquire_def)
next
  case (Some e)
  then show ?thesis
    using sem_deregister_wp [OF assms, of sl]
    by (auto simp: sem_drop_acquire_def sem_wake_next_ok elim!: wp_mono)
qed

section \<open>Any number of tasks on one semaphore\<close>

text \<open>
  The state of a run: the semaphore, the live \<open>Acquire\<close> futures, the sizes of the live permits, and
  the ghost total: the initial permits, plus those added, less those forgotten. With \<open>steady\<close>, a
  pending future is always polled with the waker of its first poll.
\<close>

record sem_sys =
  ss_sem :: local_semaphore
  ss_futs :: "(nat \<times> sem_slot) futs"
  ss_held :: "nat list"
  ss_total :: nat

definition sem_init :: "sem_sys \<Rightarrow> bool" where
  "sem_init s \<longleftrightarrow> (\<exists>p < usize_bound.
     s = \<lparr>ss_sem = sem_new p, ss_futs = Map.empty, ss_held = [], ss_total = p\<rparr>)"

inductive sem_step :: "bool \<Rightarrow> sem_sys \<Rightarrow> sem_sys \<Rightarrow> bool" for steady :: bool where
  acquire: "ss_futs s f = None \<Longrightarrow>
    sem_step steady s (s\<lparr>ss_futs := (ss_futs s)(f \<mapsto> (sem_acquire_many k, new_fut))\<rparr>)"
| poll_ready: "ss_futs s f = Some (a, x) \<Longrightarrow>
    sem_poll a w (ss_sem s) = Inr (Ready k, sl, ws, m) \<Longrightarrow>
    sem_step steady s (s\<lparr>ss_sem := m, ss_futs := notify ws ((ss_futs s)(f := None)),
      ss_held := k # ss_held s\<rparr>)"
| poll_pending: "ss_futs s f = Some (a, x) \<Longrightarrow> (steady \<Longrightarrow> fut_waker x \<in> {None, Some w}) \<Longrightarrow>
    sem_poll a w (ss_sem s) = Inr (Pending, sl, ws, m) \<Longrightarrow>
    sem_step steady s (s\<lparr>ss_sem := m,
      ss_futs := notify ws ((ss_futs s)(f \<mapsto> ((fst a, sl), polled w)))\<rparr>)"
| cancel: "ss_futs s f = Some (a, x) \<Longrightarrow> sem_drop_acquire a (ss_sem s) = Inr (ws, m) \<Longrightarrow>
    sem_step steady s (s\<lparr>ss_sem := m, ss_futs := notify ws ((ss_futs s)(f := None))\<rparr>)"
| try_acquire: "sem_try_acquire_many k (ss_sem s) = (r, m) \<Longrightarrow>
    sem_step steady s (s\<lparr>ss_sem := m,
      ss_held := (case r of Some k \<Rightarrow> [k] | None \<Rightarrow> []) @ ss_held s\<rparr>)"
| add_permits: "sem_add_permits k (ss_sem s) = Inr (ws, m) \<Longrightarrow>
    sem_step steady s (s\<lparr>ss_sem := m, ss_futs := notify ws (ss_futs s), ss_total := ss_total s + k\<rparr>)"
| permit_drop: "k \<in> set (ss_held s) \<Longrightarrow> permit_drop k (ss_sem s) = Inr (ws, m) \<Longrightarrow>
    sem_step steady s (s\<lparr>ss_sem := m, ss_futs := notify ws (ss_futs s),
      ss_held := remove1 k (ss_held s)\<rparr>)"
| permit_forget: "k \<in> set (ss_held s) \<Longrightarrow>
    sem_step steady s (s\<lparr>ss_sem := permit_forget k (ss_sem s),
      ss_held := remove1 k (ss_held s), ss_total := ss_total s - k\<rparr>)"

text \<open>
  The queue and the futures agree: entries and registered slots are in bijection, so a future that
  is pending is always queued (the semaphore wakes without popping).
\<close>

definition sem_queue_ok :: "sem_entry list \<Rightarrow> nat \<Rightarrow> (nat \<times> sem_slot) futs \<Rightarrow> bool" where
  "sem_queue_ok L n futs \<longleftrightarrow>
     distinct (map fst L) \<and>
     (\<forall>e \<in> set L. \<exists>f x. futs f = Some ((fst (snd e), Some e), x)) \<and>
     (\<forall>f k e x. futs f = Some ((k, Some e), x) \<longrightarrow>
        e \<in> set L \<and> fst e < n \<and> fst (snd e) = k \<and> fut_waker x = Some (snd (snd e))) \<and>
     (\<forall>f k x. futs f = Some ((k, None), x) \<longrightarrow> fut_waker x = None) \<and>
     (\<forall>f g k j d e x y. futs f = Some ((k, Some d), x) \<longrightarrow> futs g = Some ((j, Some e), y) \<longrightarrow>
        fst d = fst e \<longrightarrow> f = g)"

lemma sem_queue_okD:
  assumes "sem_queue_ok L n futs"
  shows "distinct (map fst L)"
    and "e \<in> set L \<Longrightarrow> \<exists>f x. futs f = Some ((fst (snd e), Some e), x)"
    and "futs f = Some ((k, Some e), x) \<Longrightarrow>
          e \<in> set L \<and> fst e < n \<and> fst (snd e) = k \<and> fut_waker x = Some (snd (snd e))"
    and "futs f = Some ((k, None), x) \<Longrightarrow> fut_waker x = None"
    and "futs f = Some ((k, Some d), x) \<Longrightarrow> futs g = Some ((j, Some e), y) \<Longrightarrow> fst d = fst e \<Longrightarrow> f = g"
  using assms unfolding sem_queue_ok_def by blast+

lemma sem_queue_okI:
  assumes "distinct (map fst L)"
    and "\<And>e. e \<in> set L \<Longrightarrow> \<exists>f x. futs f = Some ((fst (snd e), Some e), x)"
    and "\<And>f k e x. futs f = Some ((k, Some e), x) \<Longrightarrow>
          e \<in> set L \<and> fst e < n \<and> fst (snd e) = k \<and> fut_waker x = Some (snd (snd e))"
    and "\<And>f k x. futs f = Some ((k, None), x) \<Longrightarrow> fut_waker x = None"
    and "\<And>f g k j d e x y. futs f = Some ((k, Some d), x) \<Longrightarrow> futs g = Some ((j, Some e), y) \<Longrightarrow>
          fst d = fst e \<Longrightarrow> f = g"
  shows "sem_queue_ok L n futs"
  unfolding sem_queue_ok_def using assms by blast

lemma sem_queue_ok_init [simp]: "sem_queue_ok [] n Map.empty"
  by (simp add: sem_queue_ok_def)

lemma sem_queue_ok_notify:
  assumes "sem_queue_ok L n futs"
  shows "sem_queue_ok L n (notify ws futs)"
proof (rule sem_queue_okI)
  fix e assume "e \<in> set L"
  then show "\<exists>f x. notify ws futs f = Some ((fst (snd e), Some e), x)"
    using sem_queue_okD(2) [OF assms] by (fastforce simp: notify_Some)
next
  show "f = g" if "notify ws futs f = Some ((k, Some d), x)"
    "notify ws futs g = Some ((j, Some e), y)" "fst d = fst e" for f g k j d e x y
    using that(1,2) sem_queue_okD(5) [OF assms _ _ that(3)] unfolding notify_Some by blast
qed (use sem_queue_okD(1,3,4) [OF assms] in \<open>auto simp: notify_Some\<close>)

lemma sem_queue_ok_new:
  assumes "sem_queue_ok L n futs" "futs f = None"
  shows "sem_queue_ok L n (futs(f \<mapsto> ((k, None), new_fut)))"
proof (rule sem_queue_okI)
  fix e assume "e \<in> set L"
  then obtain g y where "futs g = Some ((fst (snd e), Some e), y)"
    using sem_queue_okD(2) [OF assms(1)] by blast
  moreover have "g \<noteq> f" using calculation assms(2) by auto
  ultimately show "\<exists>g x. (futs(f \<mapsto> ((k, None), new_fut))) g = Some ((fst (snd e), Some e), x)"
    by (metis fun_upd_other)
next
  show "g = h" if "(futs(f \<mapsto> ((k, None), new_fut))) g = Some ((i, Some d), x)"
    "(futs(f \<mapsto> ((k, None), new_fut))) h = Some ((j, Some e), y)" "fst d = fst e"
    for g h i j d e x y
    using that(1,2) sem_queue_okD(5) [OF assms(1) _ _ that(3)]
    unfolding fun_upd_apply by (auto split: if_splits)
qed (use sem_queue_okD(1,3,4) [OF assms(1)] in \<open>auto split: if_splits\<close>)

lemma sem_queue_ok_remove:
  assumes "sem_queue_ok L n futs" "futs f = Some ((k, sl), x)"
  shows "sem_queue_ok (sem_without sl L) n (futs(f := None))" (is "sem_queue_ok ?L n _")
proof (rule sem_queue_okI)
  show "distinct (map fst ?L)"
    using sem_queue_okD(1) [OF assms(1)]
    by (auto simp: distinct_map_filter sem_without_def split: option.splits)
next
  fix e assume in_L: "e \<in> set ?L"
  then have "e \<in> set L" by (auto simp: sem_without_def split: option.splits)
  then obtain g y where g: "futs g = Some ((fst (snd e), Some e), y)"
    using sem_queue_okD(2) [OF assms(1)] by blast
  have "g \<noteq> f" using g assms(2) in_L by (auto simp: sem_without_def split: option.splits)
  with g show "\<exists>g x. (futs(f := None)) g = Some ((fst (snd e), Some e), x)"
    by (metis fun_upd_other)
next
  fix g j e y assume "(futs(f := None)) g = Some ((j, Some e), y)"
  then have g: "g \<noteq> f" "futs g = Some ((j, Some e), y)" by (auto split: if_splits)
  have "fst e \<noteq> fst d" if "sl = Some d" for d
    using g(1) sem_queue_okD(5) [OF assms(1) g(2)] assms(2) that by blast
  then have "e \<in> set ?L"
    using sem_queue_okD(3) [OF assms(1) g(2)] by (auto simp: sem_without_def split: option.splits)
  then show "e \<in> set ?L \<and> fst e < n \<and> fst (snd e) = j \<and> fut_waker y = Some (snd (snd e))"
    using sem_queue_okD(3) [OF assms(1) g(2)] by blast
next
  show "g = h" if "(futs(f := None)) g = Some ((i, Some d), y)"
    "(futs(f := None)) h = Some ((j, Some e), z)" "fst d = fst e" for g h i j d e y z
    using that(1,2) sem_queue_okD(5) [OF assms(1) _ _ that(3)]
    unfolding fun_upd_apply by (auto split: if_splits)
qed (use sem_queue_okD(4) [OF assms(1)] in \<open>auto split: if_splits\<close>)

text \<open>
  Registering: a future whose waker is unchanged keeps its place; a first poll appends; a changed
  waker moves the entry to the back.
\<close>

lemma sem_registered_cases:
  assumes ok: "sem_queue_ok L n futs" and f: "futs f = Some ((k, sl), x)"
    and reg: "sem_registered L n sl k w L' n' sl'" and n: "Suc n < usize_bound"
  obtains (keep) t where "sl = Some (t, k, w)" "sl' = sl" "L' = L" "n' = n"
  | (fresh) "sl = None" "sl' = Some (n, k, w)" "L' = L @ [(n, k, w)]" "n' = Suc n"
  | (moved) t v where "sl = Some (t, k, v)" "v \<noteq> w" "sl' = Some (t, k, w)"
      "L' = filter (\<lambda>e. fst e \<noteq> t) L @ [(t, k, w)]" "n' = n"
proof (cases sl)
  case None
  have "\<forall>e \<in> set L. fst e \<noteq> n"
    using sem_queue_okD(2,3) [OF ok] by (metis less_irrefl)
  then have "filter (\<lambda>e. fst e \<noteq> n) L = L" by (simp add: filter_id_conv)
  with None reg n show ?thesis
    by (intro fresh) (auto simp: sem_registered_def wrapping_add_small)
next
  case (Some d)
  obtain t j v where d: "d = (t, j, v)" by (cases d)
  have "d \<in> set L" "j = k" using sem_queue_okD(3) [OF ok, of f k d x] f Some d by auto
  then have "t \<in> fst ` set L" using d by force
  then show ?thesis
    using reg Some d \<open>j = k\<close> keep moved by (cases "v = w") (auto simp: sem_registered_def)
qed

lemma sem_queue_ok_add:
  assumes M: "sem_queue_ok M n (futs(f := None))" and t: "t \<notin> fst ` set M" "t < m" "n \<le> m"
  shows "sem_queue_ok (M @ [(t, k, w)]) m (futs(f \<mapsto> ((k, Some (t, k, w)), polled w)))"
proof (rule sem_queue_okI)
  show "distinct (map fst (M @ [(t, k, w)]))" using sem_queue_okD(1) [OF M] t by simp
next
  fix e assume "e \<in> set (M @ [(t, k, w)])"
  then consider "e = (t, k, w)" | "e \<in> set M" by auto
  then show "\<exists>g y. (futs(f \<mapsto> ((k, Some (t, k, w)), polled w))) g = Some ((fst (snd e), Some e), y)"
  proof cases
    case 1
    then show ?thesis by (intro exI [of _ f]) simp
  next
    case 2
    then obtain g y where "(futs(f := None)) g = Some ((fst (snd e), Some e), y)"
      using sem_queue_okD(2) [OF M] by blast
    then show ?thesis by (intro exI [of _ g]) (auto split: if_splits)
  qed
next
  fix g j e y assume asm: "(futs(f \<mapsto> ((k, Some (t, k, w)), polled w))) g = Some ((j, Some e), y)"
  consider "g = f" | "(futs(f := None)) g = Some ((j, Some e), y)"
    using asm by (metis fun_upd_other)
  then show "e \<in> set (M @ [(t, k, w)]) \<and> fst e < m \<and> fst (snd e) = j \<and>
      fut_waker y = Some (snd (snd e))"
  proof cases
    case 1
    then show ?thesis using asm t by auto
  next
    case 2
    show ?thesis using sem_queue_okD(3) [OF M 2] t(3) by simp
  qed
next
  fix g j y assume "(futs(f \<mapsto> ((k, Some (t, k, w)), polled w))) g = Some ((j, None), y)"
  then show "fut_waker y = None"
    using sem_queue_okD(4) [OF M, of g j y] by (auto split: if_splits)
next
  fix g h i j d e y z
  assume g: "(futs(f \<mapsto> ((k, Some (t, k, w)), polled w))) g = Some ((i, Some d), y)"
    and h: "(futs(f \<mapsto> ((k, Some (t, k, w)), polled w))) h = Some ((j, Some e), z)"
    and eq: "fst d = fst e"
  have other: "fst e' \<noteq> t" if "g' \<noteq> f" "futs g' = Some ((k', Some e'), z')" for g' k' e' z'
    using sem_queue_okD(3) [OF M, of g' k' e' z'] that t by auto
  show "g = h"
    using g h eq other [of g i d y] other [of h j e z] sem_queue_okD(5) [OF M, of g i d y h j e z]
    by (cases "g = f"; cases "h = f") auto
qed

lemma sem_queue_ok_keep:
  assumes ok: "sem_queue_ok L n futs" and f: "futs f = Some ((k, Some (t, k, w)), x)"
  shows "sem_queue_ok L n (futs(f \<mapsto> ((k, Some (t, k, w)), polled w)))"
proof -
  have upd: "(futs(f \<mapsto> ((k, Some (t, k, w)), polled w))) g = Some (a, y) \<longleftrightarrow>
      (if g = f then a = (k, Some (t, k, w)) \<and> y = polled w else futs g = Some (a, y))" for g a y
    by auto
  show ?thesis
  proof (rule sem_queue_okI)
    show "distinct (map fst L)" by (rule sem_queue_okD(1) [OF ok])
  next
    fix e assume "e \<in> set L"
    then obtain g y where "futs g = Some ((fst (snd e), Some e), y)"
      using sem_queue_okD(2) [OF ok] by blast
    then show "\<exists>g y. (futs(f \<mapsto> ((k, Some (t, k, w)), polled w))) g = Some ((fst (snd e), Some e), y)"
      using f unfolding upd by (intro exI [of _ g] exI [of _ "if g = f then polled w else y"]) auto
  next
    fix g j e y assume "(futs(f \<mapsto> ((k, Some (t, k, w)), polled w))) g = Some ((j, Some e), y)"
    then show "e \<in> set L \<and> fst e < n \<and> fst (snd e) = j \<and> fut_waker y = Some (snd (snd e))"
      using sem_queue_okD(3) [OF ok, of g j e] f unfolding upd by (auto split: if_splits)
  next
    fix g j y assume "(futs(f \<mapsto> ((k, Some (t, k, w)), polled w))) g = Some ((j, None), y)"
    then show "fut_waker y = None"
      using sem_queue_okD(4) [OF ok] unfolding upd by (auto split: if_splits)
  next
    fix g h i j d e y z
    assume "(futs(f \<mapsto> ((k, Some (t, k, w)), polled w))) g = Some ((i, Some d), y)"
      "(futs(f \<mapsto> ((k, Some (t, k, w)), polled w))) h = Some ((j, Some e), z)" and eq: "fst d = fst e"
    then have "\<exists>y z. futs g = Some ((i, Some d), y) \<and> futs h = Some ((j, Some e), z)"
      using f unfolding upd by (auto split: if_splits)
    then show "g = h" using sem_queue_okD(5) [OF ok _ _ eq] by blast
  qed
qed

lemma sem_queue_ok_register:
  assumes ok: "sem_queue_ok L n futs" and f: "futs f = Some ((k, sl), x)"
    and reg: "sem_registered L n sl k w L' n' sl'" and n: "Suc n < usize_bound"
  shows "sem_queue_ok L' n' (futs(f \<mapsto> ((k, sl'), polled w))) \<and> n \<le> n' \<and> n' \<le> Suc n"
proof -
  have rest: "sem_queue_ok (sem_without sl L) n (futs(f := None))"
    by (rule sem_queue_ok_remove [OF ok f])
  note add = sem_queue_ok_add [where n = n and futs = futs and f = f and k = k and w = w]
  from ok f reg n show ?thesis
  proof (cases rule: sem_registered_cases)
    case (keep t)
    then show ?thesis using sem_queue_ok_keep [OF ok, of f k t w x] f by simp
  next
    case fresh
    have "n \<notin> fst ` set L"
      using sem_queue_okD(2,3) [OF ok] by (metis imageE less_irrefl)
    then show ?thesis using add [of L n "Suc n"] rest fresh by simp
  next
    case (moved t v)
    have "t < n" using sem_queue_okD(3) [OF ok f [unfolded moved]] by simp
    then show ?thesis using add [of "filter (\<lambda>e. fst e \<noteq> t) L" t n] rest moved by auto
  qed
qed

text \<open>A satisfiable front request belongs to a future that has been woken since its last poll.\<close>

definition sem_front_ok :: "nat \<Rightarrow> sem_entry list \<Rightarrow> (nat \<times> sem_slot) futs \<Rightarrow> bool" where
  "sem_front_ok p L futs \<longleftrightarrow>
     (\<forall>e M. L = e # M \<longrightarrow> fst (snd e) \<le> p \<longrightarrow>
        (\<exists>f k x. futs f = Some ((k, Some e), x) \<and> fut_notified x))"

lemma sem_front_ok_woken:
  assumes "sem_queue_ok L n futs"
  shows "sem_front_ok p L (notify (front_wakes p L) futs)"
  unfolding sem_front_ok_def
proof (intro allI impI)
  fix e M assume e: "L = e # M" "fst (snd e) \<le> p"
  then obtain f x where f: "futs f = Some ((fst (snd e), Some e), x)"
    using sem_queue_okD(2) [OF assms, of e] by auto
  have "fut_waker x = Some (snd (snd e))" using sem_queue_okD(3) [OF assms f] by blast
  moreover have "front_wakes p L = [snd (snd e)]" using e by (simp add: front_wakes_def split_def)
  ultimately have "notify (front_wakes p L) futs f = Some ((fst (snd e), Some e), x\<lparr>fut_notified := True\<rparr>)"
    using f by (simp add: notify_def wake_fut_def)
  then show "\<exists>f k x. notify (front_wakes p L) futs f = Some ((k, Some e), x) \<and> fut_notified x"
    by (intro exI conjI) auto
qed

lemma sem_front_ok_le: "sem_front_ok p L futs \<Longrightarrow> p' \<le> p \<Longrightarrow> sem_front_ok p' L futs"
  unfolding sem_front_ok_def using le_trans by blast

lemma sem_front_ok_upd:
  assumes "sem_front_ok p L futs"
    and "\<And>e k x. L = e # tl L \<Longrightarrow> fst (snd e) \<le> p \<Longrightarrow> futs f \<noteq> Some ((k, Some e), x)"
  shows "sem_front_ok p L (futs(f := z))"
  unfolding sem_front_ok_def
proof (intro allI impI)
  fix e M assume e: "L = e # M" "fst (snd e) \<le> p"
  then obtain g k x where g: "futs g = Some ((k, Some e), x)" "fut_notified x"
    using assms(1) unfolding sem_front_ok_def by blast
  moreover have "g \<noteq> f" using assms(2) [of e] e g by auto
  ultimately show "\<exists>g k x. (futs(f := z)) g = Some ((k, Some e), x) \<and> fut_notified x"
    by (metis fun_upd_other)
qed

lemma sem_front_ok_append: "sem_front_ok p L futs \<Longrightarrow> L \<noteq> [] \<Longrightarrow> sem_front_ok p (L @ M) futs"
  unfolding sem_front_ok_def by (cases L) auto

definition sem_inv :: "bool \<Rightarrow> nat \<Rightarrow> sem_sys \<Rightarrow> bool" where
  "sem_inv steady n s \<longleftrightarrow>
     (let m = ss_sem s; L = queue_list (sm_waiters m) in
      queue_inv 8 (sm_waiters m) \<and>
      sm_permits m + sum_list (ss_held s) = ss_total s \<and> sm_permits m < usize_bound \<and>
      sem_queue_ok L (sm_next_id m) (ss_futs s) \<and> sm_next_id m \<le> n \<and>
      (steady \<longrightarrow> sem_front_ok (sm_permits m) L (ss_futs s)))"

lemma sem_invD:
  assumes "sem_inv steady n s"
  shows "queue_inv 8 (sm_waiters (ss_sem s))"
    and "sm_permits (ss_sem s) + sum_list (ss_held s) = ss_total s"
    and "sm_permits (ss_sem s) < usize_bound"
    and "sem_queue_ok (queue_list (sm_waiters (ss_sem s))) (sm_next_id (ss_sem s)) (ss_futs s)"
    and "sm_next_id (ss_sem s) \<le> n"
    and "steady \<Longrightarrow>
      sem_front_ok (sm_permits (ss_sem s)) (queue_list (sm_waiters (ss_sem s))) (ss_futs s)"
  using assms by (simp_all add: sem_inv_def Let_def)

lemma sem_invI:
  assumes "ss_sem s = m" "queue_inv 8 (sm_waiters m)"
    and "sm_permits m + sum_list (ss_held s) = ss_total s" "sm_permits m < usize_bound"
    and "sem_queue_ok (queue_list (sm_waiters m)) (sm_next_id m) (ss_futs s)" "sm_next_id m \<le> n"
    and "steady \<Longrightarrow> sem_front_ok (sm_permits m) (queue_list (sm_waiters m)) (ss_futs s)"
  shows "sem_inv steady n s"
  using assms by (simp add: sem_inv_def Let_def)

lemma sem_poll_inv_wp:
  assumes inv: "sem_inv steady n s" and f: "ss_futs s f = Some ((k, sl), x)"
  shows "wp (sem_poll (k, sl) w (ss_sem s)) (\<lambda>(r, sl', ws, s'). queue_inv 8 (sm_waiters s') \<and>
    (if k \<le> sm_permits (ss_sem s) \<and> (queue_list (sm_waiters (ss_sem s)) = [] \<or>
          map_option fst sl = Some (fst (hd (queue_list (sm_waiters (ss_sem s))))))
     then r = Ready k \<and> sl' = None \<and> sm_permits s' = sm_permits (ss_sem s) - k \<and>
          sm_next_id s' = sm_next_id (ss_sem s) \<and>
          queue_list (sm_waiters s') = sem_without sl (queue_list (sm_waiters (ss_sem s))) \<and>
          ws = front_wakes (sm_permits s') (queue_list (sm_waiters s'))
     else r = Pending \<and> ws = [] \<and> sm_permits s' = sm_permits (ss_sem s) \<and>
          sem_registered (queue_list (sm_waiters (ss_sem s))) (sm_next_id (ss_sem s)) sl k w
            (queue_list (sm_waiters s')) (sm_next_id s') sl'))"
proof -
  have "sm_next_id (ss_sem s) \<notin> fst ` set (queue_list (sm_waiters (ss_sem s)))"
    using sem_queue_okD(2,3) [OF sem_invD(4) [OF inv]] by (metis imageE less_irrefl)
  then show ?thesis by (intro sem_poll_wp sem_invD(1) [OF inv])
qed

lemma sum_list_remove1: "k \<in> set xs \<Longrightarrow> sum_list (remove1 k xs) + k = sum_list (xs :: nat list)"
  by (induction xs) auto

lemma sem_inv_init: "sem_init s \<Longrightarrow> sem_inv steady 0 s"
  by (auto simp: sem_init_def sem_inv_def sem_new_def Let_def sem_front_ok_def)

text \<open>
  A pending poll: nothing is woken, and the front keeps its notification if the waker is steady, or
  if all requests have the same size.
\<close>

lemma sem_front_ok_register:
  assumes ok: "sem_queue_ok L n futs" and f: "futs f = Some ((k, sl), x)"
    and reg: "sem_registered L n sl k w L' n' sl'" and small: "Suc n < usize_bound"
    and no: "\<not> (k \<le> p \<and> (L = [] \<or> map_option fst sl = Some (fst (hd L))))"
    and st: "fut_waker x \<in> {None, Some w} \<or> (\<forall>e \<in> set L. fst (snd e) = k)"
    and front: "sem_front_ok p L futs"
  shows "sem_front_ok p L' (futs(f \<mapsto> ((k, sl'), polled w)))"
  using ok f reg small
proof (cases rule: sem_registered_cases)
  case (keep t)
  have "False" if L: "L = e # tl L" and le: "fst (snd e) \<le> p"
    and g: "futs f = Some ((j, Some e), y)" for e j y
  proof -
    have "e = (t, k, w)" using g f keep by auto
    moreover have "hd L = e" by (subst L) simp
    ultimately show False using no le keep by simp
  qed
  then have "sem_front_ok p L (futs(f \<mapsto> ((k, sl'), polled w)))"
    by (intro sem_front_ok_upd [OF front]) blast
  then show ?thesis using keep by simp
next
  case fresh
  show ?thesis
  proof (cases L)
    case Nil
    then show ?thesis using fresh no by (simp add: sem_front_ok_def)
  next
    case (Cons e M)
    have "sem_front_ok p L (futs(f \<mapsto> ((k, sl'), polled w)))"
      using fresh f by (intro sem_front_ok_upd [OF front]) auto
    from sem_front_ok_append [OF this] show ?thesis using fresh Cons by simp
  qed
next
  case (moved t v)
  have "fut_waker x = Some v" using sem_queue_okD(3) [OF ok f [unfolded moved]] by simp
  then have same: "\<forall>e \<in> set L. fst (snd e) = k" using st moved by simp
  show ?thesis
  proof (cases "k \<le> p")
    case True
    then obtain e M where L: "L = e # M" "fst e \<noteq> t"
      using no moved by (cases L) auto
    have "sem_front_ok p L (futs(f \<mapsto> ((k, sl'), polled w)))"
      using L moved f by (intro sem_front_ok_upd [OF front]) auto
    then show ?thesis using L moved by (simp add: sem_front_ok_def)
  next
    case False
    then have "\<forall>e \<in> set (L'). \<not> fst (snd e) \<le> p"
      using same moved by auto
    then show ?thesis by (simp add: sem_front_ok_def)
  qed
qed

lemma sem_inv_pending:
  assumes inv: "sem_inv steady n s" and n: "Suc n < usize_bound"
    and f: "ss_futs s f = Some (a, x)"
    and st: "steady \<Longrightarrow> fut_waker x \<in> {None, Some w} \<or>
      (\<forall>e \<in> set (queue_list (sm_waiters (ss_sem s))). fst (snd e) = fst a)"
    and poll: "sem_poll a w (ss_sem s) = Inr (Pending, sl', ws, m)"
  shows "sem_inv steady (Suc n) (s\<lparr>ss_sem := m,
    ss_futs := notify ws ((ss_futs s)(f \<mapsto> ((fst a, sl'), polled w)))\<rparr>)"
proof -
  obtain k sl where a: "a = (k, sl)" by (cases a)
  let ?L = "queue_list (sm_waiters (ss_sem s))" and ?p = "sm_permits (ss_sem s)"
  note ok = sem_invD(4) [OF inv]
  have *: "queue_inv 8 (sm_waiters m)" "ws = []" "sm_permits m = ?p"
    and no: "\<not> (k \<le> ?p \<and> (?L = [] \<or> map_option fst sl = Some (fst (hd ?L))))"
    and reg: "sem_registered ?L (sm_next_id (ss_sem s)) sl k w (queue_list (sm_waiters m)) (sm_next_id m) sl'"
    using sem_poll_inv_wp [OF inv f [unfolded a], of w] poll a by (auto split: if_splits)
  have small: "Suc (sm_next_id (ss_sem s)) < usize_bound" using sem_invD(5) [OF inv] n by simp
  note reg_ok = sem_queue_ok_register [OF ok f [unfolded a] reg small]
  have front: "sem_front_ok ?p (queue_list (sm_waiters m)) ((ss_futs s)(f \<mapsto> ((k, sl'), polled w)))" if steady
    using sem_front_ok_register [OF ok f [unfolded a] reg small no _ sem_invD(6) [OF inv that]] st [OF that] a
    by simp
  show ?thesis
    using sem_invD [OF inv] reg_ok * front a
    by (intro sem_invI [OF refl]) (auto dest: le_trans)
qed

lemma sem_inv_step_acquire:
  assumes inv: "sem_inv steady n s" and n: "Suc n < usize_bound"
    and acquire: "t = s\<lparr>ss_futs := (ss_futs s)(f \<mapsto> (sem_acquire_many k, new_fut))\<rparr>"
      "ss_futs s f = None"
  shows "sem_inv steady (Suc n) t"
proof -
  show ?thesis
    using sem_invD [OF inv] sem_queue_ok_new [OF sem_invD(4) [OF inv] acquire(2)]
      sem_front_ok_upd [OF sem_invD(6) [OF inv], of f] acquire
    by (intro sem_invI [OF refl]) (auto simp: sem_acquire_many_def)
qed

lemma sem_inv_step_poll_ready:
  assumes inv: "sem_inv steady n s" and n: "Suc n < usize_bound"
    and poll_ready: "t = s\<lparr>ss_sem := m, ss_futs := notify ws ((ss_futs s)(f := None)), ss_held := k # ss_held s\<rparr>"
      "ss_futs s f = Some (a, x)"
      "sem_poll a w (ss_sem s) = Inr (Ready k, sl, ws, m)"
  shows "sem_inv steady (Suc n) t"
proof -
  obtain j sl0 where a: "a = (j, sl0)" by (cases a)
  note ok = sem_queue_ok_remove [OF sem_invD(4) [OF inv] poll_ready(2) [unfolded a]]
  have *: "queue_inv 8 (sm_waiters m)" "j = k" "k \<le> sm_permits (ss_sem s)"
    "sm_permits m = sm_permits (ss_sem s) - k" "sm_next_id m = sm_next_id (ss_sem s)"
    "queue_list (sm_waiters m) = sem_without sl0 (queue_list (sm_waiters (ss_sem s)))"
    "ws = front_wakes (sm_permits m) (queue_list (sm_waiters m))"
    using sem_poll_inv_wp [OF inv poll_ready(2) [unfolded a], of w] poll_ready(3) a
    by (auto split: if_splits)
  show ?thesis
    unfolding poll_ready(1)
    using sem_invD [OF inv] * sem_queue_ok_notify [OF ok] sem_front_ok_woken [OF ok]
    by (intro sem_invI [OF refl]) auto
qed

lemma sem_inv_step_cancel:
  assumes inv: "sem_inv steady n s" and n: "Suc n < usize_bound"
    and cancel: "t = s\<lparr>ss_sem := m, ss_futs := notify ws ((ss_futs s)(f := None))\<rparr>"
      "ss_futs s f = Some (a, x)"
      "sem_drop_acquire a (ss_sem s) = Inr (ws, m)"
  shows "sem_inv steady (Suc n) t"
proof -
  obtain k sl where a: "a = (k, sl)" by (cases a)
  note ok = sem_queue_ok_remove [OF sem_invD(4) [OF inv] cancel(2) [unfolded a]]
  have *: "queue_inv 8 (sm_waiters m)" "sm_permits m = sm_permits (ss_sem s)"
    "sm_next_id m = sm_next_id (ss_sem s)"
    "queue_list (sm_waiters m) = sem_without sl (queue_list (sm_waiters (ss_sem s)))"
    "ws = (if sl = None then [] else front_wakes (sm_permits m) (queue_list (sm_waiters m)))"
    using sem_drop_acquire_wp [OF sem_invD(1) [OF inv], of k sl] cancel(3) a by auto
  have "sem_front_ok (sm_permits m) (queue_list (sm_waiters m)) (notify ws ((ss_futs s)(f := None)))"
    if steady
  proof (cases sl)
    case None
    then show ?thesis
      using * sem_front_ok_upd [OF sem_invD(6) [OF inv that], of f None] cancel(2) a by simp
  next
    case (Some e)
    then show ?thesis using * sem_front_ok_woken [OF ok] by simp
  qed
  then show ?thesis
    unfolding cancel(1)
    using sem_invD [OF inv] * sem_queue_ok_notify [OF ok] by (intro sem_invI [OF refl]) auto
qed

lemma sem_inv_step_try_acquire:
  assumes inv: "sem_inv steady n s" and n: "Suc n < usize_bound"
    and try_acquire: "t = s\<lparr>ss_sem := m, ss_held := (case r of Some k \<Rightarrow> [k] | None \<Rightarrow> []) @ ss_held s\<rparr>"
      "sem_try_acquire_many k (ss_sem s) = (r, m)"
  shows "sem_inv steady (Suc n) t"
proof -
  have *: "sm_waiters m = sm_waiters (ss_sem s)" "sm_next_id m = sm_next_id (ss_sem s)"
    "sm_permits m \<le> sm_permits (ss_sem s)"
    "sm_permits m + sum_list (case r of Some k \<Rightarrow> [k] | None \<Rightarrow> []) = sm_permits (ss_sem s)"
    using try_acquire(2) by (auto simp: sem_try_acquire_many_def Let_def split: if_splits)
  show ?thesis
    unfolding try_acquire(1)
    using sem_invD [OF inv] * sem_front_ok_le [OF sem_invD(6) [OF inv] *(3)]
    by (intro sem_invI [OF refl]) auto
qed

lemma sem_inv_step_add_permits:
  assumes inv: "sem_inv steady n s" and n: "Suc n < usize_bound"
    and add_permits: "t = s\<lparr>ss_sem := m, ss_futs := notify ws (ss_futs s), ss_total := ss_total s + k\<rparr>"
      "sem_add_permits k (ss_sem s) = Inr (ws, m)"
  shows "sem_inv steady (Suc n) t"
proof -
  have "\<not> usize_bound \<le> sm_permits (ss_sem s) + k"
    using sem_bump_overflow [of "ss_sem s" k] add_permits(2) by auto
  then show ?thesis
    unfolding add_permits(1)
    using sem_add_permits_wp [OF sem_invD(1) [OF inv], of k] add_permits(2) sem_invD [OF inv]
      sem_queue_ok_notify [OF sem_invD(4) [OF inv]] sem_front_ok_woken [OF sem_invD(4) [OF inv]]
    by (intro sem_invI [OF refl]) auto
qed

lemma sem_inv_step_permit_drop:
  assumes inv: "sem_inv steady n s" and n: "Suc n < usize_bound"
    and permit_drop: "t = s\<lparr>ss_sem := m, ss_futs := notify ws (ss_futs s), ss_held := remove1 k (ss_held s)\<rparr>"
      "k \<in> set (ss_held s)"
      "permit_drop k (ss_sem s) = Inr (ws, m)"
  shows "sem_inv steady (Suc n) t"
proof -
  have "\<not> usize_bound \<le> sm_permits (ss_sem s) + k"
    using sem_bump_overflow [of "ss_sem s" k] permit_drop(3) by (auto simp: permit_drop_def)
  then show ?thesis
    unfolding permit_drop(1)
    using sem_release_wp [OF sem_invD(1) [OF inv], of k] permit_drop(2,3) sem_invD [OF inv]
      sem_queue_ok_notify [OF sem_invD(4) [OF inv]] sem_front_ok_woken [OF sem_invD(4) [OF inv]]
      sum_list_remove1 [OF permit_drop(2)]
    by (intro sem_invI [OF refl]) (auto simp: permit_drop_def)
qed

lemma sem_inv_step_permit_forget:
  assumes inv: "sem_inv steady n s" and n: "Suc n < usize_bound"
    and permit_forget: "t = s\<lparr>ss_sem := permit_forget k (ss_sem s), ss_held := remove1 k (ss_held s), ss_total := ss_total s - k\<rparr>"
      "k \<in> set (ss_held s)"
  shows "sem_inv steady (Suc n) t"
proof -
  show ?thesis
    unfolding permit_forget(1)
    using sem_invD [OF inv] sum_list_remove1 [OF permit_forget(2)]
    by (intro sem_invI [OF refl]) (auto simp: permit_forget_def)
qed

lemma sem_inv_step:
  assumes inv: "sem_inv steady n s" and n: "Suc n < usize_bound" and step: "sem_step steady s t"
  shows "sem_inv steady (Suc n) t"
  using step
proof cases
  case (acquire f k)
  then show ?thesis by (rule sem_inv_step_acquire [OF inv n])
next
  case (poll_ready f a x w k sl ws m)
  then show ?thesis by (rule sem_inv_step_poll_ready [OF inv n])
next
  case (poll_pending f a x w sl ws m)
  then show ?thesis using sem_inv_pending [OF inv n] by blast
next
  case (cancel f a x ws m)
  then show ?thesis by (rule sem_inv_step_cancel [OF inv n])
next
  case (try_acquire k r m)
  then show ?thesis by (rule sem_inv_step_try_acquire [OF inv n])
next
  case (add_permits k ws m)
  then show ?thesis by (rule sem_inv_step_add_permits [OF inv n])
next
  case (permit_drop k ws m)
  then show ?thesis by (rule sem_inv_step_permit_drop [OF inv n])
next
  case (permit_forget k)
  then show ?thesis by (rule sem_inv_step_permit_forget [OF inv n])
qed

lemma sem_inv_mono: "sem_inv steady n s \<Longrightarrow> n \<le> m \<Longrightarrow> sem_inv steady m s"
  by (auto simp: sem_inv_def Let_def)

interpretation sm: transition_system sem_init "sem_step steady" "sem_inv steady" for steady
  by unfold_locales (auto intro: sem_inv_init sem_inv_step)

section \<open>Correctness\<close>

lemma sem_first_poll:
  assumes "queue_inv 8 (sm_waiters m)" "queue_list (sm_waiters m) = L" "sm_permits m < k"
    "sm_next_id m = t" "t \<notin> fst ` set L" "t + 1 < usize_bound"
  obtains m' where "sem_poll (sem_acquire_many k) w m = Inr (Pending, Some (t, k, w), [], m')"
    "queue_inv 8 (sm_waiters m')" "queue_list (sm_waiters m') = L @ [(t, k, w)]"
    "sm_permits m' = sm_permits m" "sm_next_id m' = t + 1"
proof -
  have "filter (\<lambda>e. fst e \<noteq> t) L = L" using assms(5) by (force intro: filter_True)
  with assms sem_poll_wp [OF assms(1), of None k w] show thesis
    by (auto simp: sem_acquire_many_def sem_registered_def wp_ex wrapping_add_small intro: that)
qed

text \<open>A steady run: a request waits for a permit, and one is added.\<close>

lemma sem_steady_run:
  "\<exists>s e. reach sem_init (sem_step True) 3 s \<and> queue_list (sm_waiters (ss_sem s)) = [e] \<and>
     fst (snd e) \<le> sem_available (ss_sem s) \<and> ss_futs s 0 \<noteq> None"
proof -
  let ?s = "\<lambda>m futs. \<lparr>ss_sem = m, ss_futs = futs, ss_held = [], ss_total = sm_permits m\<rparr>"
  let ?A = "((1, Some (0, 1, 5)), polled 5)"
  obtain m1 where m1: "sem_poll (sem_acquire_many 1) 5 (sem_new 0) = Inr (Pending, Some (0, 1, 5), [], m1)"
    "queue_inv 8 (sm_waiters m1)" "queue_list (sm_waiters m1) = [(0, 1, 5)]" "sm_permits m1 = 0"
    by (rule sem_first_poll [of "sem_new 0" "[]" 1 0 5]) (auto simp: sem_new_def)
  obtain m2 ws where m2: "sem_add_permits 1 m1 = Inr (ws, m2)" "sm_waiters m2 = sm_waiters m1" "sm_permits m2 = 1"
    using sem_add_permits_wp [OF m1(2), of 1] m1(3,4) by (auto simp: wp_ex usize_bound_def)
  have "reach sem_init (sem_step True) 0 (?s (sem_new 0) Map.empty)"
    by (rule reach.start) (auto simp: sem_init_def sem_new_def)
  from reach.next_step [OF this, OF sem_step.acquire [where f = 0 and k = 1]]
  have "reach sem_init (sem_step True) 1 (?s (sem_new 0) [0 \<mapsto> (sem_acquire_many 1, new_fut)])" by simp
  from reach.next_step [OF this, OF sem_step.poll_pending [where f = 0 and w = 5 and x = new_fut
      and a = "sem_acquire_many 1" and sl = "snd (fst ?A)" and ws = "[]" and m = m1]] m1(1,4)
  have "reach sem_init (sem_step True) 2 (?s m1 [0 \<mapsto> ?A])"
    by (simp add: numeral_eq_Suc sem_acquire_many_def sem_new_def)
  from reach.next_step [OF this, OF sem_step.add_permits [where k = 1 and ws = ws and m = m2]] m2 m1(4)
  have "reach sem_init (sem_step True) 3 (?s m2 (notify ws [0 \<mapsto> ?A]))"
    by (simp add: numeral_eq_Suc)
  with m2 m1(3) show ?thesis by (intro exI conjI) (assumption, auto simp: sem_available_def)
qed

text \<open>
  C6. Conservation. In every run the available permits and the permits held add up to the initial
  permits plus those added and minus those forgotten: none is lost or duplicated by waiting,
  cancelling or re-polling.
\<close>

theorem sem_conserves_permits:
  assumes "reach sem_init (sem_step steady) n s" "n < usize_bound"
  shows "sem_available (ss_sem s) + sum_list (ss_held s) = ss_total s"
  using sem_invD(2) [OF sm.reach_inv [OF assms]] by (simp add: sem_available_def)

theorem sem_conserves_permits_witness:
  "\<exists>s. reach sem_init (sem_step True) 3 s \<and>
     sem_available (ss_sem s) + sum_list (ss_held s) = ss_total s"
proof -
  obtain s where s: "reach sem_init (sem_step True) 3 s" using sem_steady_run by blast
  from sem_conserves_permits [OF s] s show ?thesis by auto
qed

lemma own_front:
  assumes "distinct (map fst L)" "\<And>e. sl = Some e \<Longrightarrow> e \<in> set L"
  shows "(\<forall>e M. L = e # M \<longrightarrow> sl = Some e) \<longleftrightarrow> L = [] \<or> map_option fst sl = Some (fst (hd L))"
  using assms by (cases L; cases sl) force+

text \<open>
  C7. No barging. Polling a live future never panics, and it succeeds exactly when the permits
  suffice and no other request is queued before it.
\<close>

theorem sem_poll_fifo:
  assumes "reach sem_init (sem_step steady) n s" "n < usize_bound"
    and "ss_futs s f = Some ((k, sl), x)"
  shows "wp (sem_poll (k, sl) w (ss_sem s)) (\<lambda>(r, _, _, m).
    if k \<le> sem_available (ss_sem s) \<and>
       (\<forall>e M. queue_list (sm_waiters (ss_sem s)) = e # M \<longrightarrow> sl = Some e)
    then r = Ready k \<and> sem_available m = sem_available (ss_sem s) - k
    else r = Pending \<and> sem_available m = sem_available (ss_sem s))"
proof -
  note inv = sm.reach_inv [OF assms(1,2)]
  let ?L = "queue_list (sm_waiters (ss_sem s))"
  have "(\<forall>e M. ?L = e # M \<longrightarrow> sl = Some e) \<longleftrightarrow> ?L = [] \<or> map_option fst sl = Some (fst (hd ?L))"
    using assms(3) sem_queue_okD(1,3) [OF sem_invD(4) [OF inv]] by (intro own_front) auto
  then show ?thesis
    using sem_poll_inv_wp [OF inv assms(3), of w]
    by (auto simp: sem_available_def elim!: wp_mono)
qed

theorem sem_poll_fifo_witness:
  "\<exists>s k sl x. reach sem_init (sem_step True) 3 s \<and> ss_futs s 0 = Some ((k, sl), x) \<and>
     wp (sem_poll (k, sl) 3 (ss_sem s)) (\<lambda>_. True)"
proof -
  obtain s k sl x where s: "reach sem_init (sem_step True) 3 s" "ss_futs s 0 = Some ((k, sl), x)"
    using sem_steady_run by (metis not_Some_eq surj_pair)
  from sem_poll_fifo [OF s(1) _ s(2), of 3] s show ?thesis by (auto elim!: wp_mono)
qed

text \<open>
  C8. No lost wakeup. While every future keeps the waker of its first poll, a front request that the
  available permits satisfy belongs to a future that has been woken since its last poll, and polling
  that future takes the permits.
\<close>

theorem sem_no_lost_wakeup:
  assumes "reach sem_init (sem_step True) n s" "n < usize_bound"
    and "queue_list (sm_waiters (ss_sem s)) = e # M" "fst (snd e) \<le> sem_available (ss_sem s)"
  shows "\<exists>f k x. ss_futs s f = Some ((k, Some e), x) \<and> fut_notified x \<and>
    (\<forall>w. wp (sem_poll (k, Some e) w (ss_sem s)) (\<lambda>(r, _). r = Ready k))"
proof -
  note inv = sm.reach_inv [OF assms(1,2)]
  obtain f k x where f: "ss_futs s f = Some ((k, Some e), x)" "fut_notified x"
    using sem_invD(6) [OF inv] assms(3,4) by (auto simp: sem_front_ok_def sem_available_def)
  have "k = fst (snd e)" using sem_queue_okD(3) [OF sem_invD(4) [OF inv] f(1)] by simp
  then have "wp (sem_poll (k, Some e) w (ss_sem s)) (\<lambda>(r, _). r = Ready k)" for w
    using sem_poll_inv_wp [OF inv f(1), of w] assms(3,4)
    by (auto simp: sem_available_def elim!: wp_mono)
  with f show ?thesis by blast
qed

theorem sem_no_lost_wakeup_witness:
  "\<exists>s f sl x. reach sem_init (sem_step True) 3 s \<and> ss_futs s f = Some (sl, x) \<and> fut_notified x"
proof -
  obtain s e where s: "reach sem_init (sem_step True) 3 s" "queue_list (sm_waiters (ss_sem s)) = [e]"
    "fst (snd e) \<le> sem_available (ss_sem s)" using sem_steady_run by blast
  from sem_no_lost_wakeup [OF s(1) _ s(2,3)] s(1) show ?thesis by fastforce
qed

text \<open>
  C9. Overflow. \<open>add_permits\<close> panics exactly when the permit count would leave \<open>usize\<close>, and a
  permit of a run whose total stays below that bound can always be dropped.
\<close>

theorem sem_overflow:
  assumes "reach sem_init (sem_step steady) n s" "n < usize_bound"
  shows "(sem_add_permits k (ss_sem s) = Inl (Overflow ''LocalSemaphore permit count overflow'') \<longleftrightarrow>
      usize_bound \<le> sem_available (ss_sem s) + k) \<and>
    (ss_total s < usize_bound \<longrightarrow> k \<in> set (ss_held s) \<longrightarrow>
      wp (permit_drop k (ss_sem s)) (\<lambda>(_, m). sem_available m = sem_available (ss_sem s) + k))"
proof -
  note inv = sm.reach_inv [OF assms(1,2)]
  note q = sem_invD(1) [OF inv]
  have "sem_add_permits k (ss_sem s) \<noteq> Inl e" if "sm_permits (ss_sem s) + k < usize_bound" for e
    using sem_add_permits_wp [OF q that] by auto
  moreover have "sm_permits (ss_sem s) + k \<le> ss_total s" if "k \<in> set (ss_held s)"
    using sem_invD(2) [OF inv] sum_list_remove1 [OF that] by linarith
  ultimately show ?thesis
    using sem_bump_overflow [of "ss_sem s" k] sem_release_wp [OF q, of k]
    by (auto simp: sem_available_def permit_drop_def elim!: wp_mono) (meson not_le)
qed

theorem sem_overflow_witness:
  "\<exists>s. reach sem_init (sem_step True) 3 s \<and>
    sem_add_permits usize_bound (ss_sem s) = Inl (Overflow ''LocalSemaphore permit count overflow'')"
proof -
  obtain s where s: "reach sem_init (sem_step True) 3 s" using sem_steady_run by blast
  from sem_overflow [OF s, of usize_bound] s show ?thesis by fastforce
qed

text \<open>
  A run: a request for two permits and one for a single permit queue up, and one permit is added, too
  few for the first; nobody has been woken.
\<close>

lemma sem_two_requests_run:
  obtains s where "reach sem_init (sem_step False) 5 s"
    "queue_list (sm_waiters (ss_sem s)) = [(0, 2, 5), (1, 1, 6)]" "sem_available (ss_sem s) = 1"
    "ss_futs s = [0 \<mapsto> ((2, Some (0, 2, 5)), polled 5), 1 \<mapsto> ((1, Some (1, 1, 6)), polled 6)]"
proof -
  let ?s = "\<lambda>m futs. \<lparr>ss_sem = m, ss_futs = futs, ss_held = [], ss_total = sm_permits m\<rparr>"
  let ?a = "(sem_acquire_many 2, new_fut)" and ?b = "(sem_acquire_many 1, new_fut)"
  let ?A = "((2, Some (0, 2, 5)), polled 5)" and ?B = "((1, Some (1, 1, 6)), polled 6)"
  obtain m1 where m1: "sem_poll (sem_acquire_many 2) 5 (sem_new 0) = Inr (Pending, Some (0, 2, 5), [], m1)"
    "queue_inv 8 (sm_waiters m1)" "queue_list (sm_waiters m1) = [(0, 2, 5)]" "sm_permits m1 = 0" "sm_next_id m1 = 1"
    by (rule sem_first_poll [of "sem_new 0" "[]" 2 0 5]) (auto simp: sem_new_def)
  obtain m2 where m2: "sem_poll (sem_acquire_many 1) 6 m1 = Inr (Pending, Some (1, 1, 6), [], m2)"
    "queue_inv 8 (sm_waiters m2)" "queue_list (sm_waiters m2) = [(0, 2, 5), (1, 1, 6)]" "sm_permits m2 = 0"
    by (rule sem_first_poll [OF m1(2,3), of 1 1 6]) (auto simp: m1(4,5) usize_bound_def)
  obtain m3 where m3: "sem_add_permits 1 m2 = Inr ([], m3)" "sm_waiters m3 = sm_waiters m2" "sm_permits m3 = 1"
    using sem_add_permits_wp [OF m2(2), of 1] m2(3,4) by (auto simp: wp_ex front_wakes_def usize_bound_def)
  have "reach sem_init (sem_step False) 0 (?s (sem_new 0) Map.empty)"
    by (rule reach.start) (auto simp: sem_init_def sem_new_def)
  from reach.next_step [OF this, OF sem_step.acquire [where f = 0 and k = 2]]
  have "reach sem_init (sem_step False) 1 (?s (sem_new 0) [0 \<mapsto> ?a])" by simp
  from reach.next_step [OF this, OF sem_step.poll_pending [where f = 0 and w = 5 and a = "fst ?a"
      and sl = "snd (fst ?A)" and ws = "[]" and m = m1]] m1(1,4)
  have "reach sem_init (sem_step False) 2 (?s m1 [0 \<mapsto> ?A])"
    by (simp add: numeral_eq_Suc sem_acquire_many_def sem_new_def)
  from reach.next_step [OF this, OF sem_step.acquire [where f = 1 and k = 1]]
  have "reach sem_init (sem_step False) 3 (?s m1 [0 \<mapsto> ?A, 1 \<mapsto> ?b])" by (simp add: numeral_eq_Suc)
  from reach.next_step [OF this, OF sem_step.poll_pending [where f = 1 and w = 6 and a = "fst ?b"
      and sl = "snd (fst ?B)" and ws = "[]" and m = m2]] m1(4) m2(1,4)
  have "reach sem_init (sem_step False) 4 (?s m2 [0 \<mapsto> ?A, 1 \<mapsto> ?B])"
    by (simp add: numeral_eq_Suc sem_acquire_many_def)
  from reach.next_step [OF this, OF sem_step.add_permits [where k = 1 and ws = "[]" and m = m3]] m3 m2(4)
  have "reach sem_init (sem_step False) 5 (?s m3 [0 \<mapsto> ?A, 1 \<mapsto> ?B])"
    by (simp add: numeral_eq_Suc)
  then show thesis by (rule that) (simp_all add: m2(3) m3(2,3) sem_available_def)
qed

lemma filter_key: "distinct (map fst (A @ (t, z) # B)) \<Longrightarrow> filter (\<lambda>e. fst e \<noteq> t) (A @ (t, z) # B) = A @ B"
  by (auto intro!: arg_cong2 [where f = append] simp: filter_id_conv)

text \<open>
  C10. Re-polling with another waker. A queued future that cannot have its permits yet stays pending
  when it is polled again and nobody is woken; with the waker of its entry it keeps its place, with a
  different one its entry moves to the back, behind every request that came after it. So when the
  front future is re-polled that way and the second request fits the available permits, that request
  is at the front afterwards and a poll of its future would succeed, but its task has not been told.
\<close>

theorem sem_repoll_overtakes:
  assumes "reach sem_init (sem_step False) n s" "n < usize_bound"
    and "ss_futs s f = Some ((k, Some (t, k, v)), x)"
    and "queue_list (sm_waiters (ss_sem s)) = A @ (t, k, v) # B"
    and "A \<noteq> [] \<or> sem_available (ss_sem s) < k"
  shows "wp (sem_poll (k, Some (t, k, v)) w (ss_sem s)) (\<lambda>(r, sl, ws, m). r = Pending \<and> ws = [] \<and>
    sl = Some (t, k, w) \<and> sem_available m = sem_available (ss_sem s) \<and>
    queue_list (sm_waiters m) = (if w = v then A @ (t, k, v) # B else A @ B @ [(t, k, w)]) \<and>
    (w \<noteq> v \<and> A = [] \<and> B = (i, j, u) # M \<and> j \<le> sem_available (ss_sem s) \<longrightarrow>
      wp (sem_poll (j, Some (i, j, u)) u m) (\<lambda>(r, _). r = Ready j)))"
proof -
  have inv: "sem_inv False n s" by (rule sm.reach_inv [OF assms(1,2)])
  have dist: "distinct (map fst (A @ (t, k, v) # B))" using sem_queue_okD(1) [OF sem_invD(4) [OF inv]] assms(4) by simp
  have "t \<notin> fst ` set A" using dist by auto
  then have wait: "\<not> (k \<le> sm_permits (ss_sem s) \<and> (A @ (t, k, v) # B = [] \<or>
      map_option fst (Some (t, k, v)) = Some (fst (hd (A @ (t, k, v) # B)))))"
    using assms(5) by (cases A) (auto simp: sem_available_def)
  show ?thesis
  proof (rule wp_mono [OF sem_poll_inv_wp [OF inv assms(3), of w, unfolded assms(4) if_not_P [OF wait]]], clarsimp, goal_cases)
    case (1 sl m)
    then have m: "sl = Some (t, k, w)" "queue_list (sm_waiters m) = (if w = v then A @ (t, k, v) # B else A @ B @ [(t, k, w)])"
      using filter_key [OF dist] by (auto simp: sem_registered_def split: if_splits)
    have "wp (sem_poll (j, Some (i, j, u)) u m) (\<lambda>(r, _). r = Ready j)"
      if "w \<noteq> v" "A = []" "B = (i, j, u) # M" "j \<le> sem_available (ss_sem s)"
      using sem_poll_wp [OF 1(1), of "Some (i, j, u)" j u] m(2) that 1(2)
      by (auto simp: sem_available_def elim!: wp_mono)
    with m 1(2) show ?case by (simp add: sem_available_def)
  qed
qed

theorem sem_repoll_overtakes_witness:
  "\<exists>s. reach sem_init (sem_step False) 5 s \<and> (\<nexists>f a x. ss_futs s f = Some (a, x) \<and> fut_notified x) \<and>
     queue_list (sm_waiters (ss_sem s)) = [(0, 2, 5), (1, 1, 6)] \<and>
     wp (sem_poll (2, Some (0, 2, 5)) 7 (ss_sem s)) (\<lambda>(r, _, ws, m). r = Pending \<and> ws = [] \<and>
       queue_list (sm_waiters m) = [(1, 1, 6), (0, 2, 7)] \<and> wp (sem_poll (1, Some (1, 1, 6)) 6 m) (\<lambda>(r, _). r = Ready 1))"
proof -
  obtain s where s: "reach sem_init (sem_step False) 5 s"
    "queue_list (sm_waiters (ss_sem s)) = [] @ (0, 2, 5) # [(1, 1, 6)]" "sem_available (ss_sem s) = 1"
    "ss_futs s = [0 \<mapsto> ((2, Some (0, 2, 5)), polled 5), 1 \<mapsto> ((1, Some (1, 1, 6)), polled 6)]"
    by (rule sem_two_requests_run) simp
  have "wp (sem_poll (2, Some (0, 2, 5)) 7 (ss_sem s)) (\<lambda>(r, _, ws, m). r = Pending \<and> ws = [] \<and>
       queue_list (sm_waiters m) = [(1, 1, 6), (0, 2, 7)] \<and> wp (sem_poll (1, Some (1, 1, 6)) 6 m) (\<lambda>(r, _). r = Ready 1))"
    by (rule wp_mono [OF sem_repoll_overtakes [OF s(1) _ _ s(2), where f = 0 and w = 7 and x = "polled 5"]])
      (use s(3,4) in auto)
  with s show ?thesis by (intro exI [of _ s]) (auto split: if_splits)
qed

end
