(* ===== verification/Buffer.thy ===== *)
theory Buffer
  imports Prelude
begin

text \<open>
  \<open>AlignedBuffer<T>\<close> of \<open>src/src/site_d/buffer.rs\<close> and \<open>CachePadded<T>\<close> of \<open>padding.rs\<close>. The memory
  behind the buffer's pointer is the list \<open>ab_data\<close> of its \<open>cap\<close> elements; the element type \<open>T\<close>
  enters as its size, its alignment and its all-zero value. The allocator is a parameter: whether it
  can serve a layout.
\<close>

section \<open>Layouts\<close>

record 'a elem =
  el_size :: nat
  el_align :: nat
  el_zero :: 'a

record layout =
  ly_size :: nat
  ly_align :: nat

fun is_power_of_two :: "nat \<Rightarrow> bool" where
  "is_power_of_two n =
     (if n = 0 then False else if n = 1 then True else even n \<and> is_power_of_two (n div 2))"

declare is_power_of_two.simps [simp del]

text \<open>
  \<open>Layout::array::<T>(cap)\<close> then \<open>align_to(align)\<close>: both fail when the size, rounded up to the
  alignment, would exceed \<open>isize::MAX\<close>.
\<close>

definition layout_for :: "'a elem \<Rightarrow> nat \<Rightarrow> nat \<Rightarrow> layout res" where
  "layout_for el cap align =
     (let size = el_size el * cap; al = max align (el_align el) in
      if size \<le> 2 ^ 63 - el_align el \<and> is_power_of_two al \<and> al \<le> 2 ^ 63 \<and> size \<le> 2 ^ 63 - al
      then Inr \<lparr>ly_size = size, ly_align = al\<rparr>
      else Inl (Assertion ''invalid buffer layout (capacity overflow)''))"

section \<open>The buffer\<close>

record 'a aligned_buffer =
  ab_data :: "'a list"
  ab_len :: nat
  ab_cap :: nat
  ab_align :: nat

definition buffer_with_alignment ::
  "(layout \<Rightarrow> bool) \<Rightarrow> 'a elem \<Rightarrow> nat \<Rightarrow> nat \<Rightarrow> 'a aligned_buffer res" where
  "buffer_with_alignment alloc el capacity align =
     rbind (rassert (capacity > 0) (Assertion ''capacity must be greater than 0'')) (\<lambda>_.
     rbind (rassert (el_size el \<noteq> 0) (Assertion ''zero-sized element types are not supported'')) (\<lambda>_.
     rbind (rassert (is_power_of_two align) (Assertion ''alignment must be a power of two'')) (\<lambda>_.
     rbind (rassert (align \<ge> el_align el) (Assertion ''alignment must be >= align_of::<T>()'')) (\<lambda>_.
     rbind (layout_for el capacity align) (\<lambda>layout.
     rbind (rassert (alloc layout) (Assertion ''memory allocation failed'')) (\<lambda>_.
       Inr \<lparr>ab_data = replicate capacity (el_zero el), ab_len = 0, ab_cap = capacity, ab_align = align\<rparr>))))))"

definition buffer_new :: "(layout \<Rightarrow> bool) \<Rightarrow> 'a elem \<Rightarrow> nat \<Rightarrow> 'a aligned_buffer res" where
  "buffer_new alloc el capacity = buffer_with_alignment alloc el capacity (el_align el)"

definition buffer_capacity :: "'a aligned_buffer \<Rightarrow> nat" where
  "buffer_capacity b = ab_cap b"

definition buffer_alignment :: "'a aligned_buffer \<Rightarrow> nat" where
  "buffer_alignment b = ab_align b"

definition buffer_len :: "'a aligned_buffer \<Rightarrow> nat" where
  "buffer_len b = ab_len b"

definition buffer_is_empty :: "'a aligned_buffer \<Rightarrow> bool" where
  "buffer_is_empty b \<longleftrightarrow> ab_len b = 0"

definition buffer_set_len :: "nat \<Rightarrow> 'a aligned_buffer \<Rightarrow> 'a aligned_buffer res" where
  "buffer_set_len new_len b =
     rbind (rassert (new_len \<le> ab_cap b) (Assertion ''len exceeds capacity'')) (\<lambda>_.
       Inr (b\<lparr>ab_len := new_len\<rparr>))"

text \<open>
  Writing \<open>xs\<close> at offset \<open>i\<close> of a mutable slice of length \<open>lim\<close>, with the bounds check of
  \<open>copy_from_slice\<close>; \<open>capacity_mut\<close> gives the slice of the whole capacity, \<open>deref_mut\<close> the one of
  the logical length.
\<close>

definition write_at :: "nat \<Rightarrow> 'a list \<Rightarrow> nat \<Rightarrow> 'a list \<Rightarrow> 'a list res" where
  "write_at i xs lim data =
     rbind (rassert (i + length xs \<le> lim) OutOfBounds) (\<lambda>_.
       Inr (take i data @ xs @ drop (i + length xs) data))"

definition buffer_capacity_mut :: "nat \<Rightarrow> 'a list \<Rightarrow> 'a aligned_buffer \<Rightarrow> 'a aligned_buffer res" where
  "buffer_capacity_mut i xs b =
     rbind (write_at i xs (ab_cap b) (ab_data b)) (\<lambda>d. Inr (b\<lparr>ab_data := d\<rparr>))"

definition buffer_deref :: "'a aligned_buffer \<Rightarrow> 'a list" where
  "buffer_deref b = take (ab_len b) (ab_data b)"

definition buffer_deref_mut :: "nat \<Rightarrow> 'a list \<Rightarrow> 'a aligned_buffer \<Rightarrow> 'a aligned_buffer res" where
  "buffer_deref_mut i xs b =
     rbind (write_at i xs (ab_len b) (ab_data b)) (\<lambda>d. Inr (b\<lparr>ab_data := d\<rparr>))"

text \<open>
  The raw pointer of \<open>into_raw\<close> stands for the memory it points to. It has no address here: the debug
  assertions that it is not null and is aligned, which the allocator's contract gives for every pointer
  of an \<open>AlignedBuffer\<close>, are not expressed.
\<close>

definition buffer_into_raw :: "'a aligned_buffer \<Rightarrow> 'a list \<times> nat" where
  "buffer_into_raw b = (ab_data b, ab_len b)"

definition buffer_from_raw_with_len ::
  "'a list \<Rightarrow> nat \<Rightarrow> nat \<Rightarrow> nat \<Rightarrow> 'a aligned_buffer res" where
  "buffer_from_raw_with_len ptr len cap align =
     rbind (rassert (len \<le> cap) (Assertion ''len <= cap'')) (\<lambda>_.
       Inr \<lparr>ab_data = ptr, ab_len = len, ab_cap = cap, ab_align = align\<rparr>)"

text \<open>\<open>Drop\<close> hands the allocation back under the layout it computes again.\<close>

definition buffer_drop :: "'a elem \<Rightarrow> 'a aligned_buffer \<Rightarrow> layout res" where
  "buffer_drop el b = layout_for el (ab_cap b) (ab_align b)"

definition buffer_bytes_init :: "'a aligned_buffer \<Rightarrow> nat" where
  "buffer_bytes_init b = ab_len b"

definition buffer_bytes_total :: "'a aligned_buffer \<Rightarrow> nat" where
  "buffer_bytes_total b = ab_cap b"

definition buffer_set_init :: "nat \<Rightarrow> 'a aligned_buffer \<Rightarrow> 'a aligned_buffer" where
  "buffer_set_init pos b = b\<lparr>ab_len := pos\<rparr>"

text \<open>\<open>ptr::write_bytes(buf.as_mut_ptr(), 0, n)\<close>.\<close>

definition buffer_write_zeroes :: "'a elem \<Rightarrow> nat \<Rightarrow> 'a aligned_buffer \<Rightarrow> 'a aligned_buffer" where
  "buffer_write_zeroes el n b = b\<lparr>ab_data := replicate n (el_zero el) @ drop n (ab_data b)\<rparr>"

section \<open>CachePadded\<close>

record 'a cache_padded =
  cp_value :: 'a

definition padded_new :: "'a \<Rightarrow> 'a cache_padded" where
  "padded_new v = \<lparr>cp_value = v\<rparr>"

definition padded_into_inner :: "'a cache_padded \<Rightarrow> 'a" where
  "padded_into_inner p = cp_value p"

definition padded_deref :: "'a cache_padded \<Rightarrow> 'a" where
  "padded_deref p = cp_value p"

definition padded_deref_mut :: "('a \<Rightarrow> 'a) \<Rightarrow> 'a cache_padded \<Rightarrow> 'a cache_padded" where
  "padded_deref_mut upd p = p\<lparr>cp_value := upd (cp_value p)\<rparr>"

section \<open>Properties\<close>

text \<open>
  Well-formed buffers: the memory has exactly \<open>cap\<close> elements, the logical length is within it, and
  the layout of the allocation is valid.
\<close>

definition buffer_ok :: "'a elem \<Rightarrow> 'a aligned_buffer \<Rightarrow> bool" where
  "buffer_ok el b \<longleftrightarrow> length (ab_data b) = ab_cap b \<and> ab_len b \<le> ab_cap b \<and> ab_cap b > 0 \<and>
     el_size el \<noteq> 0 \<and> is_power_of_two (ab_align b) \<and> el_align el \<le> ab_align b \<and>
     wp (layout_for el (ab_cap b) (ab_align b)) (\<lambda>_. True)"

lemma is_power_of_two_iff: "is_power_of_two n \<longleftrightarrow> (\<exists>k. n = 2 ^ k)"
proof (induction n rule: is_power_of_two.induct)
  case (1 n)
  consider "n = 0" | "n = 1" | "odd n" "n > 1" | "even n" "n > 1" by fastforce
  then show ?case
  proof cases
    case 1
    then show ?thesis by (simp add: is_power_of_two.simps)
  next
    case 2
    then show ?thesis by (auto simp: is_power_of_two.simps intro: exI [of _ 0])
  next
    case 3
    have "n \<noteq> 2 ^ k" for k using 3 by (cases k) auto
    then show ?thesis using 3 by (subst is_power_of_two.simps) auto
  next
    case 4
    have "(\<exists>k. n div 2 = 2 ^ k) \<longleftrightarrow> (\<exists>k. n = 2 ^ k)"
    proof
      assume "\<exists>k. n div 2 = 2 ^ k"
      then obtain k where "n div 2 = 2 ^ k" by blast
      then have "n = 2 ^ Suc k" using 4 by auto
      then show "\<exists>k. n = 2 ^ k" by blast
    next
      assume "\<exists>k. n = 2 ^ k"
      then obtain k where k: "n = 2 ^ k" by blast
      then obtain j where "k = Suc j" using 4 by (cases k) auto
      then show "\<exists>k. n div 2 = 2 ^ k" using k by auto
    qed
    then show ?thesis using 1 4 by (subst is_power_of_two.simps) simp
  qed
qed

lemma buffer_with_alignment_wp:
  assumes "capacity > 0" "el_size el \<noteq> 0" "is_power_of_two align" "el_align el \<le> align"
    and "layout_for el capacity align = Inr ly" "alloc ly"
  shows "wp (buffer_with_alignment alloc el capacity align) (\<lambda>b. buffer_ok el b \<and>
    ab_data b = replicate capacity (el_zero el) \<and> ab_len b = 0 \<and> ab_cap b = capacity \<and>
    ab_align b = align)"
  using assms by (simp add: buffer_with_alignment_def buffer_ok_def)

lemma buffer_with_alignment_Inr:
  assumes "buffer_with_alignment alloc el capacity align = Inr b"
  shows "buffer_ok el b \<and> ab_data b = replicate capacity (el_zero el) \<and> ab_len b = 0 \<and>
    ab_cap b = capacity \<and> ab_align b = align \<and> is_power_of_two align \<and> el_align el \<le> align"
  using assms
  by (auto simp: buffer_with_alignment_def buffer_ok_def rbind_Inr_iff rassert_def wp_ex
      split: if_splits)

lemma write_at_wp:
  assumes "i + length xs \<le> lim" "lim \<le> length d"
  shows "wp (write_at i xs lim d) (\<lambda>d'. length d' = length d \<and>
    take (length xs) (drop i d') = xs \<and> take i d' = take i d \<and>
    drop (i + length xs) d' = drop (i + length xs) d)"
  using assms by (cases xs) (auto simp: write_at_def min_def)

lemma buffer_set_len_wp:
  "buffer_ok el b \<Longrightarrow> k \<le> ab_cap b \<Longrightarrow>
   wp (buffer_set_len k b) (\<lambda>b'. buffer_ok el b' \<and> b' = b\<lparr>ab_len := k\<rparr>)"
  by (simp add: buffer_set_len_def buffer_ok_def)

lemma buffer_write_zeroes_ok:
  assumes "buffer_ok el b"
  shows "buffer_ok el (buffer_write_zeroes el (ab_cap b) b) \<and>
    ab_data (buffer_write_zeroes el (ab_cap b) b) = replicate (ab_cap b) (el_zero el)"
  using assms by (simp add: buffer_ok_def buffer_write_zeroes_def)

lemma layout_for_Inr:
  "layout_for el cap al = Inr ly \<Longrightarrow> el_align el \<le> al \<Longrightarrow>
   ly_size ly = el_size el * cap \<and> ly_align ly = al"
  by (auto simp: layout_for_def Let_def max_def split: if_splits)

text \<open>
  C14. Construction succeeds exactly on a positive capacity, a sized element type, a power-of-two
  alignment that suits the type, a layout within the address space and an allocator that serves it;
  then the buffer has all elements zero and length 0, and after any round trip through its raw parts
  it is freed under exactly the layout it was allocated with.
\<close>

theorem buffer_layout_roundtrip:
  "(isl (buffer_with_alignment alloc el cap al) \<longleftrightarrow>
     \<not> (0 < cap \<and> el_size el \<noteq> 0 \<and> is_power_of_two al \<and> el_align el \<le> al \<and>
        wp (layout_for el cap al) alloc)) \<and>
   (\<forall>b. buffer_with_alignment alloc el cap al = Inr b \<longrightarrow>
     buffer_len b = 0 \<and> ab_data b = replicate cap (el_zero el) \<and>
     (\<exists>ly. alloc ly \<and> ly_size ly = el_size el * cap \<and> ly_align ly = al \<and>
       (\<forall>len \<le> cap. rbind (buffer_from_raw_with_len (fst (buffer_into_raw b)) len
          (buffer_capacity b) (buffer_alignment b)) (buffer_drop el) = Inr ly)))"
proof (intro conjI allI impI)
  show "isl (buffer_with_alignment alloc el cap al) \<longleftrightarrow>
     \<not> (0 < cap \<and> el_size el \<noteq> 0 \<and> is_power_of_two al \<and> el_align el \<le> al \<and> wp (layout_for el cap al) alloc)"
    by (cases "layout_for el cap al") (auto simp: buffer_with_alignment_def rassert_def)
next
  fix b assume b: "buffer_with_alignment alloc el cap al = Inr b"
  note d = buffer_with_alignment_Inr [OF b]
  show "buffer_len b = 0" "ab_data b = replicate cap (el_zero el)" using d by (simp_all add: buffer_len_def)
  obtain ly where ly: "layout_for el cap al = Inr ly" "alloc ly"
    using b by (auto simp: buffer_with_alignment_def rbind_Inr_iff rassert_def split: if_splits)
  show "\<exists>ly. alloc ly \<and> ly_size ly = el_size el * cap \<and> ly_align ly = al \<and>
       (\<forall>len \<le> cap. rbind (buffer_from_raw_with_len (fst (buffer_into_raw b)) len
          (buffer_capacity b) (buffer_alignment b)) (buffer_drop el) = Inr ly)"
    using ly layout_for_Inr [OF ly(1)] d
    by (intro exI [of _ ly]) (auto simp: buffer_from_raw_with_len_def buffer_capacity_def buffer_alignment_def buffer_drop_def)
qed

theorem buffer_layout_roundtrip_witness:
  "\<not> isl (buffer_with_alignment (\<lambda>_. True) \<lparr>el_size = 2, el_align = 2, el_zero = 0::nat\<rparr> 3 8) \<and>
   isl (buffer_with_alignment (\<lambda>_. True) \<lparr>el_size = 2, el_align = 2, el_zero = 0::nat\<rparr> 3 6)"
proof -
  have "is_power_of_two 8" "\<not> is_power_of_two 6" by code_simp+
  then show ?thesis
    using buffer_layout_roundtrip [of "\<lambda>_. True" "\<lparr>el_size = 2, el_align = 2, el_zero = 0::nat\<rparr>" 3 8]
      buffer_layout_roundtrip [of "\<lambda>_. True" "\<lparr>el_size = 2, el_align = 2, el_zero = 0::nat\<rparr>" 3 6]
    by (auto simp: layout_for_def)
qed

end
