(* ===== verification/Pool.thy ===== *)
theory Pool
  imports Semaphore Buffer
begin

text \<open>
  \<open>LocalBufferPool<T>\<close> of \<open>src/src/site_c/pool.rs\<close>: a stack of free aligned buffers guarded by a
  \<open>LocalSemaphore\<close> whose permits are the free buffers. The second half runs any number of borrowers
  and shows the invariant the source states (free buffers = available permits), so that a permit
  always finds a buffer, and that no borrower sees another one's bytes.
\<close>

section \<open>The pool\<close>

record 'a buffer_pool =
  pl_free :: "'a aligned_buffer list"
  pl_sem :: local_semaphore
  pl_clear :: bool

text \<open>The loop of \<open>build\<close>, and the pool it makes.\<close>

fun pool_fill ::
  "(layout \<Rightarrow> bool) \<Rightarrow> 'a elem \<Rightarrow> nat \<Rightarrow> nat \<Rightarrow> nat \<Rightarrow> 'a aligned_buffer list
   \<Rightarrow> 'a aligned_buffer list res" where
  "pool_fill alloc el buf_size align 0 free = Inr free"
| "pool_fill alloc el buf_size align (Suc n) free =
     rbind (buffer_with_alignment alloc el buf_size align) (\<lambda>b.
       pool_fill alloc el buf_size align n (free @ [b]))"

definition pool_build ::
  "(layout \<Rightarrow> bool) \<Rightarrow> 'a elem \<Rightarrow> nat \<Rightarrow> nat \<Rightarrow> nat \<Rightarrow> bool \<Rightarrow> 'a buffer_pool res" where
  "pool_build alloc el count buf_size align clear =
     rbind (pool_fill alloc el buf_size align count []) (\<lambda>free.
       Inr \<lparr>pl_free = free, pl_sem = sem_new count, pl_clear = clear\<rparr>)"

definition pool_with_alignment ::
  "(layout \<Rightarrow> bool) \<Rightarrow> 'a elem \<Rightarrow> nat \<Rightarrow> nat \<Rightarrow> nat \<Rightarrow> 'a buffer_pool res" where
  "pool_with_alignment alloc el count buf_size align = pool_build alloc el count buf_size align True"

definition pool_with_alignment_uncleared ::
  "(layout \<Rightarrow> bool) \<Rightarrow> 'a elem \<Rightarrow> nat \<Rightarrow> nat \<Rightarrow> nat \<Rightarrow> 'a buffer_pool res" where
  "pool_with_alignment_uncleared alloc el count buf_size align =
     pool_build alloc el count buf_size align False"

definition pool_new :: "(layout \<Rightarrow> bool) \<Rightarrow> 'a elem \<Rightarrow> nat \<Rightarrow> nat \<Rightarrow> 'a buffer_pool res" where
  "pool_new alloc el count buf_size = pool_with_alignment alloc el count buf_size (el_align el)"

definition pool_available :: "'a buffer_pool \<Rightarrow> nat" where
  "pool_available p = sem_available (pl_sem p)"

text \<open>\<open>Vec::pop\<close> takes the last element.\<close>

definition pool_check_out :: "'a elem \<Rightarrow> 'a buffer_pool \<Rightarrow> ('a aligned_buffer \<times> 'a buffer_pool) res" where
  "pool_check_out el p =
     rbind (if pl_free p = [] then Inl (Assertion ''permit implies a free buffer'')
            else Inr (last (pl_free p), p\<lparr>pl_free := butlast (pl_free p)\<rparr>)) (\<lambda>(buf, p').
     rbind (buffer_set_len 0 buf) (\<lambda>buf'.
       Inr (if pl_clear p' then buffer_write_zeroes el (buffer_capacity buf') buf' else buf', p')))"

definition pool_try_acquire ::
  "'a elem \<Rightarrow> 'a buffer_pool \<Rightarrow> ('a aligned_buffer option \<times> 'a buffer_pool) res" where
  "pool_try_acquire el p =
     (case sem_try_acquire (pl_sem p) of
        (None, s) \<Rightarrow> Inr (None, p\<lparr>pl_sem := s\<rparr>)
      | (Some permit, s) \<Rightarrow>
          rbind (pool_check_out el (p\<lparr>pl_sem := permit_forget permit s\<rparr>)) (\<lambda>(buf, p').
            Inr (Some buf, p')))"

text \<open>
  The future of \<open>acquire\<close> is the semaphore's \<open>Acquire\<close> it awaits; when that is ready the rest of the
  body runs in the same poll.
\<close>

definition pool_acquire :: "nat \<times> sem_slot" where
  "pool_acquire = sem_acquire"

definition pool_acquire_poll ::
  "'a elem \<Rightarrow> nat \<times> sem_slot \<Rightarrow> waker \<Rightarrow> 'a buffer_pool
   \<Rightarrow> ('a aligned_buffer poll \<times> sem_slot \<times> waker list \<times> 'a buffer_pool) res" where
  "pool_acquire_poll el fut waker p =
     rbind (sem_poll fut waker (pl_sem p)) (\<lambda>(r, slot, ws, s).
       case r of
         Pending \<Rightarrow> Inr (Pending, slot, ws, p\<lparr>pl_sem := s\<rparr>)
       | Ready permit \<Rightarrow>
           rbind (pool_check_out el (p\<lparr>pl_sem := permit_forget permit s\<rparr>)) (\<lambda>(buf, p').
             Inr (Ready buf, slot, ws, p')))"

definition pool_acquire_drop ::
  "nat \<times> sem_slot \<Rightarrow> 'a buffer_pool \<Rightarrow> (waker list \<times> 'a buffer_pool) res" where
  "pool_acquire_drop fut p =
     rbind (sem_drop_acquire fut (pl_sem p)) (\<lambda>(ws, s). Inr (ws, p\<lparr>pl_sem := s\<rparr>))"

definition pooled_deref :: "'a aligned_buffer \<Rightarrow> 'a aligned_buffer" where
  "pooled_deref b = b"

text \<open>\<open>Drop\<close> of a \<open>PooledBuffer\<close>: the buffer first, then the permit.\<close>

definition pooled_drop :: "'a aligned_buffer \<Rightarrow> 'a buffer_pool \<Rightarrow> (waker list \<times> 'a buffer_pool) res" where
  "pooled_drop buf p =
     (let p' = p\<lparr>pl_free := pl_free p @ [buf]\<rparr> in
      rbind (sem_add_permits 1 (pl_sem p')) (\<lambda>(ws, s). Inr (ws, p'\<lparr>pl_sem := s\<rparr>)))"

section \<open>Specifications\<close>

lemma pool_fill_wp:
  assumes "buffer_with_alignment alloc el sz align = Inr b"
  shows "pool_fill alloc el sz align n free = Inr (free @ replicate n b)"
  using assms by (induction n arbitrary: free) (simp_all add: replicate_app_Cons_same)

lemma pool_build_Inr:
  assumes "pool_build alloc el count sz align clear = Inr p"
  shows "length (pl_free p) = count \<and> pl_sem p = sem_new count \<and> pl_clear p = clear \<and>
    (\<forall>b \<in> set (pl_free p). buffer_with_alignment alloc el sz align = Inr b)"
proof (cases "count = 0 \<or> (\<exists>b. buffer_with_alignment alloc el sz align = Inr b)")
  case True
  then show ?thesis
    using assms by (cases count) (auto simp: pool_build_def pool_fill_wp)
next
  case False
  then obtain e where "buffer_with_alignment alloc el sz align = Inl e"
    by (cases "buffer_with_alignment alloc el sz align") auto
  with False assms show ?thesis by (cases count) (auto simp: pool_build_def)
qed

lemma pool_check_out_wp:
  assumes "pl_free p \<noteq> []" "\<forall>b \<in> set (pl_free p). buffer_ok el b"
  shows "wp (pool_check_out el p) (\<lambda>(b, p'). buffer_ok el b \<and> ab_len b = 0 \<and>
    ab_cap b = ab_cap (last (pl_free p)) \<and>
    ab_data b = (if pl_clear p then replicate (ab_cap b) (el_zero el) else ab_data (last (pl_free p))) \<and>
    p' = p\<lparr>pl_free := butlast (pl_free p)\<rparr>)"
proof -
  have ok: "buffer_ok el (last (pl_free p))" using assms by simp
  let ?b = "(last (pl_free p))\<lparr>ab_len := 0\<rparr>"
  have "buffer_ok el ?b" using ok by (simp add: buffer_ok_def)
  from buffer_write_zeroes_ok [OF this] ok assms(1) show ?thesis
    by (auto simp: pool_check_out_def buffer_set_len_def buffer_capacity_def buffer_ok_def
        buffer_write_zeroes_def)
qed

section \<open>Any number of borrowers\<close>

record 'a pool_sys =
  ps_pool :: "'a buffer_pool"
  ps_futs :: "(nat \<times> sem_slot) futs"
  ps_out :: "'a aligned_buffer list"

definition pool_init :: "'a elem \<Rightarrow> nat \<Rightarrow> 'a pool_sys \<Rightarrow> bool" where
  "pool_init el count s \<longleftrightarrow> count < usize_bound \<and>
     (\<exists>alloc sz align clear. pool_build alloc el count sz align clear = Inr (ps_pool s)) \<and>
     ps_futs s = Map.empty \<and> ps_out s = []"

inductive pool_step :: "'a elem \<Rightarrow> 'a pool_sys \<Rightarrow> 'a pool_sys \<Rightarrow> bool" for el :: "'a elem" where
  acquire: "ps_futs s f = None \<Longrightarrow>
    pool_step el s (s\<lparr>ps_futs := (ps_futs s)(f \<mapsto> (pool_acquire, new_fut))\<rparr>)"
| poll_ready: "ps_futs s f = Some (a, x) \<Longrightarrow>
    pool_acquire_poll el a w (ps_pool s) = Inr (Ready b, sl, ws, p) \<Longrightarrow>
    pool_step el s (s\<lparr>ps_pool := p, ps_futs := notify ws ((ps_futs s)(f := None)), ps_out := b # ps_out s\<rparr>)"
| poll_pending: "ps_futs s f = Some (a, x) \<Longrightarrow>
    pool_acquire_poll el a w (ps_pool s) = Inr (Pending, sl, ws, p) \<Longrightarrow>
    pool_step el s (s\<lparr>ps_pool := p, ps_futs := notify ws ((ps_futs s)(f \<mapsto> ((fst a, sl), polled w)))\<rparr>)"
| cancel: "ps_futs s f = Some (a, x) \<Longrightarrow> pool_acquire_drop a (ps_pool s) = Inr (ws, p) \<Longrightarrow>
    pool_step el s (s\<lparr>ps_pool := p, ps_futs := notify ws ((ps_futs s)(f := None))\<rparr>)"
| try_acquire: "pool_try_acquire el (ps_pool s) = Inr (r, p) \<Longrightarrow>
    pool_step el s (s\<lparr>ps_pool := p, ps_out := (case r of Some b \<Rightarrow> [b] | None \<Rightarrow> []) @ ps_out s\<rparr>)"
| use_buffer: "ps_out s = xs @ b # ys \<Longrightarrow>
    buffer_capacity_mut i vs b = Inr b' \<or> buffer_deref_mut i vs b = Inr b' \<or> buffer_set_len i b = Inr b' \<Longrightarrow>
    pool_step el s (s\<lparr>ps_out := xs @ b' # ys\<rparr>)"
| give_back: "ps_out s = xs @ b # ys \<Longrightarrow> pooled_drop b (ps_pool s) = Inr (ws, p) \<Longrightarrow>
    pool_step el s (s\<lparr>ps_pool := p, ps_futs := notify ws (ps_futs s), ps_out := xs @ ys\<rparr>)"

text \<open>The semaphore part of a pool state, seen as a run of the semaphore with no permit held.\<close>

definition pool_sem_sys :: "'a pool_sys \<Rightarrow> sem_sys" where
  "pool_sem_sys s = \<lparr>ss_sem = pl_sem (ps_pool s), ss_futs = ps_futs s, ss_held = [],
     ss_total = sm_permits (pl_sem (ps_pool s))\<rparr>"

definition pool_inv :: "'a elem \<Rightarrow> nat \<Rightarrow> nat \<Rightarrow> 'a pool_sys \<Rightarrow> bool" where
  "pool_inv el count n s \<longleftrightarrow>
     sem_inv True n (pool_sem_sys s) \<and> count < usize_bound \<and>
     length (pl_free (ps_pool s)) = pool_available (ps_pool s) \<and>
     length (pl_free (ps_pool s)) + length (ps_out s) = count \<and>
     (\<forall>b \<in> set (pl_free (ps_pool s)) \<union> set (ps_out s). buffer_ok el b) \<and>
     (\<forall>f k sl x. ps_futs s f = Some ((k, sl), x) \<longrightarrow> k = 1)"

lemma pool_invD:
  assumes "pool_inv el count n s"
  shows "sem_inv True n (pool_sem_sys s)" "count < usize_bound"
    and "length (pl_free (ps_pool s)) = sm_permits (pl_sem (ps_pool s))"
    and "length (pl_free (ps_pool s)) + length (ps_out s) = count"
    and "\<forall>b \<in> set (pl_free (ps_pool s)). buffer_ok el b" "\<forall>b \<in> set (ps_out s). buffer_ok el b"
    and "ps_futs s f = Some ((k, sl), x) \<Longrightarrow> k = 1"
  using assms unfolding pool_inv_def pool_available_def sem_available_def by blast+

lemma pool_invI:
  assumes "ps_pool s = p" "sem_inv True n (pool_sem_sys s)" "count < usize_bound"
    and "length (pl_free p) = sm_permits (pl_sem p)" "length (pl_free p) + length (ps_out s) = count"
    and "\<And>b. b \<in> set (pl_free p) \<Longrightarrow> buffer_ok el b" "\<And>b. b \<in> set (ps_out s) \<Longrightarrow> buffer_ok el b"
    and "\<And>f k sl x. ps_futs s f = Some ((k, sl), x) \<Longrightarrow> k = 1"
  shows "pool_inv el count n s"
  using assms unfolding pool_inv_def pool_available_def sem_available_def by blast

lemma sem_inv_rebase:
  "sem_inv steady n s \<Longrightarrow>
   sem_inv steady n \<lparr>ss_sem = ss_sem s, ss_futs = ss_futs s, ss_held = [], ss_total = sm_permits (ss_sem s)\<rparr>"
  by (simp add: sem_inv_def Let_def)

lemma pool_inv_init: "pool_init el count s \<Longrightarrow> pool_inv el count 0 s"
proof -
  assume init: "pool_init el count s"
  then obtain alloc sz align clear where
    p: "pool_build alloc el count sz align clear = Inr (ps_pool s)"
    and s: "ps_futs s = Map.empty" "ps_out s = []" "count < usize_bound"
    by (auto simp: pool_init_def)
  note q = pool_build_Inr [OF p]
  have "sem_init (pool_sem_sys s)" using q s by (simp add: sem_init_def pool_sem_sys_def sem_new_def)
  then show ?thesis
    using q s by (intro pool_invI [OF refl] sem_inv_init)
      (auto simp: sem_new_def dest!: buffer_with_alignment_Inr)
qed

text \<open>Every step on the semaphore part is a step of the semaphore system.\<close>

lemma pool_sem_step:
  assumes inv: "pool_inv el count n s" and n: "Suc n < usize_bound"
    and step: "sem_step True (pool_sem_sys s) u"
    and t: "ss_sem u = pl_sem (ps_pool t)" "ss_futs u = ps_futs t"
  shows "sem_inv True (Suc n) (pool_sem_sys t)"
  using sem_inv_rebase [OF sem_inv_step [OF pool_invD(1) [OF inv] n step]] t
  by (simp add: pool_sem_sys_def)

lemma notify_Some_pair:
  "notify ws futs f = Some ((k, sl), y) \<Longrightarrow> \<exists>x. futs f = Some ((k, sl), x)"
  by (auto simp: notify_Some)

lemma pool_sem_poll:
  assumes inv: "pool_inv el count n s" and f: "ps_futs s f = Some ((k, sl), x)"
    and poll: "sem_poll (k, sl) w (pl_sem (ps_pool s)) = Inr (r, sl', ws, m)"
  shows "(r = Pending \<and> sm_permits m = sm_permits (pl_sem (ps_pool s))) \<or>
    (r = Ready 1 \<and> Suc (sm_permits m) = sm_permits (pl_sem (ps_pool s)))"
proof -
  have "k = 1" using pool_invD(7) [OF inv f] .
  then show ?thesis
    using sem_poll_inv_wp [OF pool_invD(1) [OF inv], of f k sl x w] f poll
    by (auto simp: pool_sem_sys_def split: if_splits)
qed

lemma pool_inv_check_out:
  assumes inv: "pool_inv el count n s" and sem: "sem_inv True (Suc n) (pool_sem_sys t)"
    and m: "Suc (sm_permits m) = sm_permits (pl_sem (ps_pool s))"
    and co: "pool_check_out el ((ps_pool s)\<lparr>pl_sem := m\<rparr>) = Inr (b, p)"
    and t: "ps_pool t = p" "ps_out t = b # ps_out s"
    and futs: "\<And>f k sl x. ps_futs t f = Some ((k, sl), x) \<Longrightarrow> \<exists>y. ps_futs s f = Some ((k, sl), y)"
  shows "pool_inv el count (Suc n) t"
proof -
  let ?p = "(ps_pool s)\<lparr>pl_sem := m\<rparr>"
  note D = pool_invD [OF inv]
  have ne: "pl_free (ps_pool s) \<noteq> []" using D(3) m by auto
  have "buffer_ok el b" "p = ?p\<lparr>pl_free := butlast (pl_free ?p)\<rparr>"
    using pool_check_out_wp [of ?p el] co ne D(5) by auto
  then show ?thesis
    using D sem m t futs ne
    by (intro pool_invI [OF t(1)]) (auto dest: in_set_butlastD, metis One_nat_def)
qed

lemma pool_inv_step_acquire:
  assumes inv: "pool_inv el count n s" and n: "Suc n < usize_bound"
    and acquire: "t = s\<lparr>ps_futs := (ps_futs s)(f \<mapsto> (pool_acquire, new_fut))\<rparr>"
      "ps_futs s f = None"
  shows "pool_inv el count (Suc n) t"
proof -
  note D = pool_invD [OF inv]
  note sim = pool_sem_step [OF inv n]
  have "sem_step True (pool_sem_sys s) ((pool_sem_sys s)\<lparr>ss_futs :=
      (ss_futs (pool_sem_sys s))(f \<mapsto> (sem_acquire_many 1, new_fut))\<rparr>)"
    using acquire by (intro sem_step.acquire) (simp add: pool_sem_sys_def)
  from sim [OF this, of t] D acquire show ?thesis
    by (intro pool_invI [OF refl])
      (auto simp: pool_sem_sys_def pool_acquire_def sem_acquire_def sem_acquire_many_def split: if_splits)
qed

lemma pool_inv_step_poll_ready:
  assumes inv: "pool_inv el count n s" and n: "Suc n < usize_bound"
    and poll_ready: "t = s\<lparr>ps_pool := p, ps_futs := notify ws ((ps_futs s)(f := None)), ps_out := b # ps_out s\<rparr>"
      "ps_futs s f = Some (a, x)"
      "pool_acquire_poll el a w (ps_pool s) = Inr (Ready b, sl, ws, p)"
  shows "pool_inv el count (Suc n) t"
proof -
  note D = pool_invD [OF inv]
  note sim = pool_sem_step [OF inv n]
  obtain k sl0 where a: "a = (k, sl0)" by (cases a)
  obtain r m where poll: "sem_poll a w (pl_sem (ps_pool s)) = Inr (Ready r, sl, ws, m)"
    and co: "pool_check_out el ((ps_pool s)\<lparr>pl_sem := m\<rparr>) = Inr (b, p)"
    using poll_ready(3)
    by (auto simp: pool_acquire_poll_def rbind_Inr_iff permit_forget_def split: poll.splits)
      (metis poll.exhaust)+
  have m: "Suc (sm_permits m) = sm_permits (pl_sem (ps_pool s))"
    using pool_sem_poll [OF inv poll_ready(2) [unfolded a] poll [unfolded a]] by auto
  have p: "pl_sem p = m"
    using pool_check_out_wp [of "(ps_pool s)\<lparr>pl_sem := m\<rparr>" el] co D(3,5) m by fastforce
  have "sem_step True (pool_sem_sys s) ((pool_sem_sys s)\<lparr>ss_sem := m,
      ss_futs := notify ws ((ss_futs (pool_sem_sys s))(f := None)), ss_held := r # ss_held (pool_sem_sys s)\<rparr>)"
    using poll_ready(2) poll by (intro sem_step.poll_ready) (simp_all add: pool_sem_sys_def)
  then have "sem_inv True (Suc n) (pool_sem_sys t)"
    using p by (intro sim) (auto simp: poll_ready(1) pool_sem_sys_def)
  then show ?thesis
    by (rule pool_inv_check_out [OF inv _ m co])
      (auto simp: poll_ready(1) dest!: notify_Some_pair split: if_splits)
qed

lemma pool_inv_step_poll_pending:
  assumes inv: "pool_inv el count n s" and n: "Suc n < usize_bound"
    and poll_pending: "t = s\<lparr>ps_pool := p, ps_futs := notify ws ((ps_futs s)(f \<mapsto> ((fst a, sl), polled w)))\<rparr>"
      "ps_futs s f = Some (a, x)"
      "pool_acquire_poll el a w (ps_pool s) = Inr (Pending, sl, ws, p)"
  shows "pool_inv el count (Suc n) t"
proof -
  note D = pool_invD [OF inv]
  obtain k sl0 where a: "a = (k, sl0)" by (cases a)
  obtain m where poll: "sem_poll a w (pl_sem (ps_pool s)) = Inr (Pending, sl, ws, m)"
    and p: "p = (ps_pool s)\<lparr>pl_sem := m\<rparr>"
    using poll_pending(3) by (auto simp: pool_acquire_poll_def rbind_Inr_iff split: poll.splits)
      (metis poll.exhaust)
  have k: "k = 1" using D(7) poll_pending(2) a by blast
  have same: "\<forall>e \<in> set (queue_list (sm_waiters (ss_sem (pool_sem_sys s)))). fst (snd e) = fst a"
  proof
    fix e assume "e \<in> set (queue_list (sm_waiters (ss_sem (pool_sem_sys s))))"
    then obtain g y where "ps_futs s g = Some ((fst (snd e), Some e), y)"
      using sem_queue_okD(2) [OF sem_invD(4) [OF D(1)], of e] by (auto simp: pool_sem_sys_def)
    from D(7) [OF this] show "fst (snd e) = fst a" using k a by simp
  qed
  have "sem_inv True (Suc n) ((pool_sem_sys s)\<lparr>ss_sem := m,
      ss_futs := notify ws ((ss_futs (pool_sem_sys s))(f \<mapsto> ((fst a, sl), polled w)))\<rparr>)"
    using poll_pending(2) poll same
    by (intro sem_inv_pending [OF D(1) n, of f a x w]) (auto simp: pool_sem_sys_def)
  from sem_inv_rebase [OF this]
  have "sem_inv True (Suc n) (pool_sem_sys t)"
    by (simp add: poll_pending(1) p pool_sem_sys_def)
  moreover have "sm_permits m = sm_permits (pl_sem (ps_pool s))"
    using pool_sem_poll [OF inv poll_pending(2) [unfolded a] poll [unfolded a]] by auto
  ultimately show ?thesis
    using D k a by (intro pool_invI [OF refl])
      (auto simp: poll_pending(1) p dest!: notify_Some_pair split: if_splits)
qed

lemma pool_inv_step_cancel:
  assumes inv: "pool_inv el count n s" and n: "Suc n < usize_bound"
    and cancel: "t = s\<lparr>ps_pool := p, ps_futs := notify ws ((ps_futs s)(f := None))\<rparr>"
      "ps_futs s f = Some (a, x)"
      "pool_acquire_drop a (ps_pool s) = Inr (ws, p)"
  shows "pool_inv el count (Suc n) t"
proof -
  note D = pool_invD [OF inv]
  note sim = pool_sem_step [OF inv n]
  obtain m where drop: "sem_drop_acquire a (pl_sem (ps_pool s)) = Inr (ws, m)"
    and p: "p = (ps_pool s)\<lparr>pl_sem := m\<rparr>"
    using cancel(3) by (auto simp: pool_acquire_drop_def rbind_Inr_iff)
  have m: "sm_permits m = sm_permits (pl_sem (ps_pool s))"
    using sem_drop_acquire_wp [of "pl_sem (ps_pool s)" "fst a" "snd a"] drop
      sem_invD(1) [OF D(1)] by (simp add: pool_sem_sys_def)
  have "sem_step True (pool_sem_sys s) ((pool_sem_sys s)\<lparr>ss_sem := m,
      ss_futs := notify ws ((ss_futs (pool_sem_sys s))(f := None))\<rparr>)"
    using cancel(2) drop by (intro sem_step.cancel) (simp_all add: pool_sem_sys_def)
  from sim [OF this, of t] D m show ?thesis
    by (intro pool_invI [OF refl])
      (auto simp: cancel(1) p pool_sem_sys_def dest!: notify_Some_pair split: if_splits)
qed

lemma pool_inv_step_try_acquire:
  assumes inv: "pool_inv el count n s" and n: "Suc n < usize_bound"
    and try_acquire: "t = s\<lparr>ps_pool := p, ps_out := (case r of Some b \<Rightarrow> [b] | None \<Rightarrow> []) @ ps_out s\<rparr>"
      "pool_try_acquire el (ps_pool s) = Inr (r, p)"
  shows "pool_inv el count (Suc n) t"
proof -
  note D = pool_invD [OF inv]
  note sim = pool_sem_step [OF inv n]
  show ?thesis
  proof (cases "1 \<le> sm_permits (pl_sem (ps_pool s))")
    case False
    then have "r = None" "p = ps_pool s"
      using try_acquire(2)
      by (auto simp: pool_try_acquire_def sem_try_acquire_def sem_try_acquire_many_def Let_def)
    then have "t = s" using try_acquire(1) by simp
    then show ?thesis
      using D sem_inv_mono [OF D(1), of "Suc n"] by (intro pool_invI [OF refl]) auto
  next
    case True
    let ?m = "(pl_sem (ps_pool s))\<lparr>sm_permits := sm_permits (pl_sem (ps_pool s)) - 1\<rparr>"
    obtain b where co: "pool_check_out el ((ps_pool s)\<lparr>pl_sem := ?m\<rparr>) = Inr (b, p)" and r: "r = Some b"
      using try_acquire(2) True
      by (auto simp: pool_try_acquire_def sem_try_acquire_def sem_try_acquire_many_def Let_def
          permit_forget_def rbind_Inr_iff)
    have p: "pl_sem p = ?m"
      using pool_check_out_wp [of "(ps_pool s)\<lparr>pl_sem := ?m\<rparr>" el] co D(3,5) True by fastforce
    have "sem_step True (pool_sem_sys s) ((pool_sem_sys s)\<lparr>ss_sem := ?m, ss_held := [1] @ []\<rparr>)"
      using sem_step.try_acquire [of 1 "pool_sem_sys s" "Some 1" ?m True] True
      by (simp add: pool_sem_sys_def sem_try_acquire_many_def)
    then have "sem_inv True (Suc n) (pool_sem_sys t)"
      using p by (intro sim) (auto simp: try_acquire(1) pool_sem_sys_def)
    then show ?thesis
      using True r by (intro pool_inv_check_out [OF inv _ _ co]) (auto simp: try_acquire(1))
  qed
qed

lemma pool_inv_step_use_buffer:
  assumes inv: "pool_inv el count n s" and n: "Suc n < usize_bound"
    and use_buffer: "t = s\<lparr>ps_out := xs @ b' # ys\<rparr>"
      "ps_out s = xs @ b # ys"
      "buffer_capacity_mut i vs b = Inr b' \<or> buffer_deref_mut i vs b = Inr b' \<or> buffer_set_len i b = Inr b'"
  shows "pool_inv el count (Suc n) t"
proof -
  note D = pool_invD [OF inv]
  have b: "buffer_ok el b" using D(6) use_buffer(2) by simp
  have "buffer_ok el b'"
    using use_buffer(3) b
    by (auto simp: buffer_capacity_mut_def buffer_deref_mut_def buffer_set_len_def buffer_ok_def
        write_at_def rbind_Inr_iff rassert_def min_def split: if_splits)
  moreover have "pool_sem_sys t = pool_sem_sys s" by (simp add: use_buffer(1) pool_sem_sys_def)
  ultimately show ?thesis
    using D sem_inv_mono [OF D(1), of "Suc n"] use_buffer(2)
    by (intro pool_invI [OF refl]) (auto simp: use_buffer(1))
qed

lemma pool_inv_step_give_back:
  assumes inv: "pool_inv el count n s" and n: "Suc n < usize_bound"
    and give_back: "t = s\<lparr>ps_pool := p, ps_futs := notify ws (ps_futs s), ps_out := xs @ ys\<rparr>"
      "ps_out s = xs @ b # ys"
      "pooled_drop b (ps_pool s) = Inr (ws, p)"
  shows "pool_inv el count (Suc n) t"
proof -
  note D = pool_invD [OF inv]
  note sim = pool_sem_step [OF inv n]
  have room: "sm_permits (pl_sem (ps_pool s)) + 1 < usize_bound"
    using D(2-4) give_back(2) by simp
  obtain m where add: "sem_add_permits 1 (pl_sem (ps_pool s)) = Inr (ws, m)"
    and p: "p = (ps_pool s)\<lparr>pl_free := pl_free (ps_pool s) @ [b], pl_sem := m\<rparr>"
    using give_back(3) by (auto simp: pooled_drop_def Let_def rbind_Inr_iff)
  have m: "sm_permits m = Suc (sm_permits (pl_sem (ps_pool s)))"
    using sem_add_permits_wp [OF _ room] add sem_invD(1) [OF D(1)] by (simp add: pool_sem_sys_def)
  have "sem_step True (pool_sem_sys s) ((pool_sem_sys s)\<lparr>ss_sem := m,
      ss_futs := notify ws (ss_futs (pool_sem_sys s)), ss_total := ss_total (pool_sem_sys s) + 1\<rparr>)"
    using add by (intro sem_step.add_permits) (simp add: pool_sem_sys_def)
  from sim [OF this, of t] D m give_back(2) show ?thesis
    by (intro pool_invI [OF refl])
      (auto simp: give_back(1) p pool_sem_sys_def dest!: notify_Some_pair)
qed

lemma pool_inv_step:
  assumes inv: "pool_inv el count n s" and n: "Suc n < usize_bound" and step: "pool_step el s t"
  shows "pool_inv el count (Suc n) t"
proof -
  note D = pool_invD [OF inv]
  note sim = pool_sem_step [OF inv n]
  from step show ?thesis
  proof cases
    case (acquire f)
    then show ?thesis by (rule pool_inv_step_acquire [OF inv n])
  next
    case (poll_ready f a x w b sl ws p)
    then show ?thesis by (rule pool_inv_step_poll_ready [OF inv n])
  next
    case (poll_pending f a x w sl ws p)
    then show ?thesis by (rule pool_inv_step_poll_pending [OF inv n])
  next
    case (cancel f a x ws p)
    then show ?thesis by (rule pool_inv_step_cancel [OF inv n])
  next
    case (try_acquire r p)
    then show ?thesis by (rule pool_inv_step_try_acquire [OF inv n])
  next
    case (use_buffer xs b ys i vs b')
    then show ?thesis by (rule pool_inv_step_use_buffer [OF inv n])
  next
    case (give_back xs b ys ws p)
    then show ?thesis by (rule pool_inv_step_give_back [OF inv n])
  qed
qed

interpretation pl: transition_system "pool_init el count" "pool_step el" "pool_inv el count" for el count
  by unfold_locales (auto intro: pool_inv_init pool_inv_step)

section \<open>Correctness\<close>

text \<open>A run: the only buffer of a pool is taken, a future waits for it, and it is given back.\<close>

definition pool_elem :: "nat elem" where
  "pool_elem = \<lparr>el_size = 1, el_align = 1, el_zero = 0\<rparr>"

lemma pool_run:
  obtains s where "reach (pool_init pool_elem 1) (pool_step pool_elem) 4 s"
    "pool_available (ps_pool s) = 1" "queue_list (sm_waiters (pl_sem (ps_pool s))) \<noteq> []"
proof -
  have "is_power_of_two 4" by code_simp
  then obtain b0 where b0: "buffer_with_alignment (\<lambda>_. True) pool_elem 2 4 = Inr b0"
    by (simp add: buffer_with_alignment_def pool_elem_def layout_for_def max_def)
  define p0 where "p0 = \<lparr>pl_free = [b0], pl_sem = sem_new 1, pl_clear = True\<rparr>"
  have build: "pool_build (\<lambda>_. True) pool_elem 1 2 4 True = Inr p0"
    by (simp add: pool_build_def b0 p0_def)
  have ok: "buffer_ok pool_elem b0" using buffer_with_alignment_Inr [OF b0] by blast
  have "wp (pool_check_out pool_elem (p0\<lparr>pl_sem := sem_new 0\<rparr>)) (\<lambda>(b, p').
      buffer_ok pool_elem b \<and> p' = p0\<lparr>pl_sem := sem_new 0, pl_free := []\<rparr>)"
    by (rule wp_mono [OF pool_check_out_wp]) (auto simp: p0_def ok)
  then obtain b where b: "pool_try_acquire pool_elem p0 = Inr (Some b, p0\<lparr>pl_sem := sem_new 0, pl_free := []\<rparr>)"
    by (auto simp: wp_ex pool_try_acquire_def sem_try_acquire_def sem_try_acquire_many_def p0_def sem_new_def
        permit_forget_def)
  define p1 where "p1 = p0\<lparr>pl_sem := sem_new 0, pl_free := []\<rparr>"
  obtain m where m: "sem_poll pool_acquire 5 (sem_new 0) = Inr (Pending, Some (0, 1, 5), [], m)"
    "queue_inv 8 (sm_waiters m)" "queue_list (sm_waiters m) = [(0, 1, 5)]" "sm_permits m = 0"
    using sem_poll_wp [of "sem_new 0" None 1 5]
    by (auto simp: wp_ex sem_new_def sem_registered_def pool_acquire_def sem_acquire_def sem_acquire_many_def)
  obtain ws m2 where m2: "sem_add_permits 1 m = Inr (ws, m2)" "sm_waiters m2 = sm_waiters m" "sm_permits m2 = 1"
    using sem_add_permits_wp [OF m(2), of 1] m(4) by (auto simp: wp_ex usize_bound_def)
  let ?r = "reach (pool_init pool_elem 1) (pool_step pool_elem)"
  let ?s = "\<lambda>p f out. \<lparr>ps_pool = p, ps_futs = f, ps_out = out\<rparr>"
  let ?A = "((1, Some (0, 1, 5)), polled 5)"
  have "?r 0 (?s p0 Map.empty [])"
    by (rule reach.start) (use build in \<open>auto simp: pool_init_def\<close>)
  from reach.next_step [OF this, OF pool_step.try_acquire [where r = "Some b" and p = p1]] b
  have "?r 1 (?s p1 Map.empty [b])" by (simp add: p1_def)
  from reach.next_step [OF this, OF pool_step.acquire [where f = 0]]
  have "?r 2 (?s p1 [0 \<mapsto> (pool_acquire, new_fut)] [b])" by (simp add: numeral_2_eq_2)
  from reach.next_step [OF this, OF pool_step.poll_pending [where f = 0 and a = pool_acquire and x = new_fut and w = 5
      and sl = "Some (0, 1, 5)" and ws = "[]" and p = "p1\<lparr>pl_sem := m\<rparr>"]] m(1)
  have "?r 3 (?s (p1\<lparr>pl_sem := m\<rparr>) [0 \<mapsto> ?A] [b])"
    by (simp add: numeral_3_eq_3 numeral_2_eq_2 pool_acquire_poll_def p1_def)
      (simp add: pool_acquire_def sem_acquire_def sem_acquire_many_def)
  from reach.next_step [OF this, OF pool_step.give_back [where xs = "[]" and b = b and ys = "[]" and ws = ws
      and p = "p1\<lparr>pl_free := [b], pl_sem := m2\<rparr>"]] m2(1)
  have "?r 4 (?s (p1\<lparr>pl_free := [b], pl_sem := m2\<rparr>) (notify ws [0 \<mapsto> ?A]) [])"
    by (simp add: eval_nat_numeral pooled_drop_def p1_def)
  then show thesis by (rule that) (simp_all add: pool_available_def sem_available_def m2 m(3))
qed

text \<open>
  What a borrower gets: a well-formed buffer of length zero, all of its capacity zero when the pool
  clears, and the pool left with one buffer and one permit less.
\<close>

definition handed_out :: "'a elem \<Rightarrow> 'a buffer_pool \<Rightarrow> 'a aligned_buffer \<Rightarrow> 'a buffer_pool \<Rightarrow> bool" where
  "handed_out el p b p' \<longleftrightarrow> buffer_ok el b \<and> buffer_len b = 0 \<and>
     (pl_clear p \<longrightarrow> ab_data b = replicate (buffer_capacity b) (el_zero el)) \<and>
     buffer_capacity b = buffer_capacity (last (pl_free p)) \<and> pl_free p' = butlast (pl_free p) \<and>
     Suc (pool_available p') = pool_available p"

lemma pool_check_out_handed_out:
  assumes inv: "pool_inv el count n s" and m: "Suc (sm_permits m) = sm_permits (pl_sem (ps_pool s))"
  shows "wp (pool_check_out el ((ps_pool s)\<lparr>pl_sem := m\<rparr>)) (\<lambda>(b, p). handed_out el (ps_pool s) b p)"
proof -
  let ?p = "(ps_pool s)\<lparr>pl_sem := m\<rparr>"
  have "pl_free ?p \<noteq> []" "\<forall>b \<in> set (pl_free ?p). buffer_ok el b" using pool_invD(3,5) [OF inv] m by auto
  from pool_check_out_wp [OF this] m show ?thesis
    by (auto simp: handed_out_def buffer_len_def buffer_capacity_def pool_available_def sem_available_def elim!: wp_mono)
qed

lemma pool_try_acquire_wp:
  assumes inv: "pool_inv el count n s"
  shows "wp (pool_try_acquire el (ps_pool s)) (\<lambda>(r, p). case r of
      None \<Rightarrow> pool_available (ps_pool s) = 0 | Some b \<Rightarrow> handed_out el (ps_pool s) b p)"
proof (cases "sm_permits (pl_sem (ps_pool s))")
  case 0
  then show ?thesis
    by (simp add: pool_try_acquire_def sem_try_acquire_def sem_try_acquire_many_def pool_available_def sem_available_def)
next
  case (Suc k)
  with pool_check_out_handed_out [OF inv, of "(pl_sem (ps_pool s))\<lparr>sm_permits := k\<rparr>"] show ?thesis
    by (auto simp: pool_try_acquire_def sem_try_acquire_def sem_try_acquire_many_def permit_forget_def elim!: wp_mono)
qed

lemma pool_acquire_poll_wp:
  assumes inv: "pool_inv el count n s" and f: "ps_futs s f = Some (a, x)"
  shows "wp (pool_acquire_poll el a w (ps_pool s)) (\<lambda>(r, _, _, p). case r of
      Pending \<Rightarrow> pl_free p = pl_free (ps_pool s) \<and> pool_available p = pool_available (ps_pool s)
    | Ready b \<Rightarrow> handed_out el (ps_pool s) b p)"
proof -
  obtain k sl where a: "a = (k, sl)" by (cases a)
  have sf: "ss_futs (pool_sem_sys s) f = Some ((k, sl), x)" using f a by (simp add: pool_sem_sys_def)
  obtain r sl' ws m where poll: "sem_poll (k, sl) w (pl_sem (ps_pool s)) = Inr (r, sl', ws, m)"
    using sem_poll_inv_wp [OF pool_invD(1) [OF inv] sf, of w] by (auto simp: wp_ex pool_sem_sys_def)
  from pool_sem_poll [OF inv f [unfolded a] poll] consider
      "r = Pending" "sm_permits m = sm_permits (pl_sem (ps_pool s))"
    | "r = Ready 1" "Suc (sm_permits m) = sm_permits (pl_sem (ps_pool s))" by blast
  then show ?thesis
  proof cases
    case 1
    then show ?thesis using poll a by (simp add: pool_acquire_poll_def pool_available_def sem_available_def)
  next
    case 2
    then show ?thesis
      using poll a pool_check_out_handed_out [OF inv 2(2)]
      by (auto simp: pool_acquire_poll_def permit_forget_def elim!: wp_mono)
  qed
qed

lemma pooled_drop_wp:
  assumes inv: "pool_inv el count n s" and b: "b \<in> set (ps_out s)"
  shows "wp (pooled_drop b (ps_pool s)) (\<lambda>(_, p). pl_free p = pl_free (ps_pool s) @ [b] \<and>
    pool_available p = Suc (pool_available (ps_pool s)))"
proof -
  have "0 < length (ps_out s)" using b by (cases "ps_out s") auto
  then have small: "sm_permits (pl_sem (ps_pool s)) + 1 < usize_bound" using pool_invD(2-4) [OF inv] by linarith
  have "queue_inv 8 (sm_waiters (pl_sem (ps_pool s)))"
    using sem_invD(1) [OF pool_invD(1) [OF inv]] by (simp add: pool_sem_sys_def)
  from sem_add_permits_wp [OF this small] show ?thesis
    by (auto simp: pooled_drop_def pool_available_def sem_available_def elim!: wp_mono)
qed

text \<open>
  C15. A permit implies a free buffer. In every run the free buffers are exactly the available permits
  and, with those lent out, all the buffers ever made. So neither \<open>try_acquire\<close> nor a poll of any live
  \<open>acquire\<close> panics; each hands out, when a buffer is free, a buffer of length zero, and with clearing on
  one that is all zero. Dropping a borrowed buffer never panics and puts it and its permit back.
\<close>

theorem pool_permit_implies_buffer:
  assumes "reach (pool_init el count) (pool_step el) n s" "n < usize_bound"
  shows "length (pl_free (ps_pool s)) = pool_available (ps_pool s) \<and>
    pool_available (ps_pool s) + length (ps_out s) = count \<and>
    wp (pool_try_acquire el (ps_pool s)) (\<lambda>(r, p). case r of
      None \<Rightarrow> pool_available (ps_pool s) = 0 | Some b \<Rightarrow> handed_out el (ps_pool s) b p) \<and>
    (\<forall>f a x w. ps_futs s f = Some (a, x) \<longrightarrow>
      wp (pool_acquire_poll el a w (ps_pool s)) (\<lambda>(r, _, _, p). case r of
        Pending \<Rightarrow> pl_free p = pl_free (ps_pool s) \<and> pool_available p = pool_available (ps_pool s)
      | Ready b \<Rightarrow> handed_out el (ps_pool s) b p)) \<and>
    (\<forall>b \<in> set (ps_out s). wp (pooled_drop b (ps_pool s)) (\<lambda>(_, p).
      pl_free p = pl_free (ps_pool s) @ [b] \<and> pool_available p = Suc (pool_available (ps_pool s))))"
proof -
  have inv: "pool_inv el count n s" by (rule pl.reach_inv [OF assms])
  show ?thesis
    using pool_invD(3,4) [OF inv] pool_try_acquire_wp [OF inv] pool_acquire_poll_wp [OF inv] pooled_drop_wp [OF inv]
    by (simp add: pool_available_def sem_available_def)
qed

theorem pool_permit_implies_buffer_witness:
  "\<exists>s. reach (pool_init pool_elem 1) (pool_step pool_elem) 4 s \<and> length (pl_free (ps_pool s)) = 1 \<and>
     wp (pool_try_acquire pool_elem (ps_pool s)) (\<lambda>(r, _). r \<noteq> None)"
proof -
  obtain s where s: "reach (pool_init pool_elem 1) (pool_step pool_elem) 4 s" "pool_available (ps_pool s) = 1"
    by (rule pool_run)
  from pool_permit_implies_buffer [OF s(1)] s have "length (pl_free (ps_pool s)) = 1"
    "wp (pool_try_acquire pool_elem (ps_pool s)) (\<lambda>(r, _). r \<noteq> None)" by (auto elim!: wp_mono split: option.splits)
  with s(1) show ?thesis by blast
qed

text \<open>
  C16. No lost wakeup through the pool, whatever wakers the futures are polled with: while a buffer is
  free and a future waits, the future at the front has been woken since its last poll, and its next
  poll hands out a buffer.
\<close>

theorem pool_no_lost_wakeup:
  assumes "reach (pool_init el count) (pool_step el) n s" "n < usize_bound"
    and "0 < pool_available (ps_pool s)" "queue_list (sm_waiters (pl_sem (ps_pool s))) \<noteq> []"
  shows "\<exists>f a x. ps_futs s f = Some (a, x) \<and> fut_notified x \<and>
    (\<forall>w. wp (pool_acquire_poll el a w (ps_pool s)) (\<lambda>(r, _). r \<noteq> Pending))"
proof -
  have inv: "pool_inv el count n s" by (rule pl.reach_inv [OF assms(1,2)])
  note d = pool_invD [OF inv]
  have sem: "sem_inv True n (pool_sem_sys s)" by (rule d(1))
  let ?L = "queue_list (sm_waiters (pl_sem (ps_pool s)))"
  obtain e M where L: "?L = e # M" using assms(4) by (cases ?L) auto
  have ok: "sem_queue_ok ?L (sm_next_id (pl_sem (ps_pool s))) (ps_futs s)"
    using sem_invD(4) [OF sem] by (simp add: pool_sem_sys_def)
  have "fst (snd e) = 1" using sem_queue_okD(2) [OF ok, of e] L d(7) by auto
  then obtain f k x where f: "ps_futs s f = Some ((k, Some e), x)" "fut_notified x"
    using sem_invD(6) [OF sem] assms(3) L
    by (auto simp: sem_front_ok_def pool_sem_sys_def pool_available_def sem_available_def)
  have k: "k = 1" by (rule d(7) [OF f(1)])
  have "wp (pool_acquire_poll el (k, Some e) w (ps_pool s)) (\<lambda>(r, _). r \<noteq> Pending)" for w
  proof -
    have sf: "ss_futs (pool_sem_sys s) f = Some ((k, Some e), x)" using f by (simp add: pool_sem_sys_def)
    obtain sl ws m where poll: "sem_poll (k, Some e) w (pl_sem (ps_pool s)) = Inr (Ready k, sl, ws, m)"
      using sem_poll_inv_wp [OF sem sf, of w] L k assms(3)
      by (auto simp: pool_sem_sys_def wp_ex pool_available_def sem_available_def)
    let ?p = "(ps_pool s)\<lparr>pl_sem := m\<rparr>"
    have "pl_free ?p \<noteq> []" "\<forall>b \<in> set (pl_free ?p). buffer_ok el b"
      using d(3,5) assms(3) by (auto simp: pool_available_def sem_available_def)
    from pool_check_out_wp [OF this] poll show ?thesis
      by (auto simp: pool_acquire_poll_def permit_forget_def elim!: wp_mono)
  qed
  with f show ?thesis by blast
qed

theorem pool_no_lost_wakeup_witness:
  "\<exists>s f a x. reach (pool_init pool_elem 1) (pool_step pool_elem) 4 s \<and> ps_futs s f = Some (a, x) \<and> fut_notified x"
proof -
  obtain s where s: "reach (pool_init pool_elem 1) (pool_step pool_elem) 4 s" "pool_available (ps_pool s) = 1"
    "queue_list (sm_waiters (pl_sem (ps_pool s))) \<noteq> []" by (rule pool_run)
  from pool_no_lost_wakeup [OF s(1) _ _ s(3)] s show ?thesis by fastforce
qed

end
