(* ===== verification/Notify.thy ===== *)
theory Notify
  imports Systems
begin

unbundle bit_operations_syntax

text \<open>
  \<open>AtomicWaker\<close> and \<open>WaiterSlot\<close> of \<open>src/src/site_d/notify.rs\<close>, twice. First as functions, for the
  components that call them: the effect of a call that runs without interference. Then as a step
  relation with one step per atomic access, in which one waiting task and any number of signalling
  threads interleave arbitrarily under sequential consistency (every access the lost-wakeup argument
  of the source relies on is \<open>SeqCst\<close>). The invariant of that relation shows that the waker cell is
  never accessed by two threads at once and that no wakeup is lost.
\<close>

section \<open>The cell and the slot as functions\<close>

definition WAITING :: usize where "WAITING = 0"
definition REGISTERING :: usize where "REGISTERING = 1"
definition WAKING :: usize where "WAKING = 2"

record atomic_waker =
  aw_state :: usize
  aw_cell :: "waker option"

definition atomic_waker_new :: atomic_waker where
  "atomic_waker_new = \<lparr>aw_state = WAITING, aw_cell = None\<rparr>"

text \<open>
  \<open>register\<close>: the wakers it calls and the new cell. The compare-exchange that releases the lock fails
  when the \<open>WAKING\<close> bit was set meanwhile.
\<close>

definition aw_finish_register :: "atomic_waker \<Rightarrow> (waker list \<times> atomic_waker) res" where
  "aw_finish_register a =
     (if aw_state a = REGISTERING then Inr ([], a\<lparr>aw_state := WAITING\<rparr>)
      else
        rbind (rassert (aw_state a = REGISTERING OR WAKING) (Assertion ''assertion failed'')) (\<lambda>_.
          case aw_cell a of
            None \<Rightarrow> Inl (Assertion ''called `Option::unwrap()` on a `None` value'')
          | Some w \<Rightarrow> Inr ([w], a\<lparr>aw_cell := None, aw_state := WAITING\<rparr>)))"

definition aw_register :: "waker \<Rightarrow> atomic_waker \<Rightarrow> (waker list \<times> atomic_waker) res" where
  "aw_register waker a =
     (if aw_state a = WAITING then
        (let a1 = a\<lparr>aw_state := REGISTERING\<rparr>;
             same = (case aw_cell a1 of Some w \<Rightarrow> will_wake w waker | None \<Rightarrow> False);
             a2 = (if same then a1 else a1\<lparr>aw_cell := Some waker\<rparr>)
         in aw_finish_register a2)
      else Inr ([waker], a))"

definition aw_take :: "atomic_waker \<Rightarrow> waker option \<times> atomic_waker" where
  "aw_take a =
     (let old = aw_state a; a1 = a\<lparr>aw_state := aw_state a OR WAKING\<rparr> in
      if old = WAITING then
        (aw_cell a1, a1\<lparr>aw_cell := None, aw_state := aw_state a1 AND NOT WAKING\<rparr>)
      else (None, a1))"

definition aw_wake :: "atomic_waker \<Rightarrow> waker list \<times> atomic_waker" where
  "aw_wake a = (case aw_take a of (Some w, a') \<Rightarrow> ([w], a') | (None, a') \<Rightarrow> ([], a'))"

record waiter_slot =
  sl_waker :: atomic_waker
  sl_armed :: bool

definition slot_new :: waiter_slot where
  "slot_new = \<lparr>sl_waker = atomic_waker_new, sl_armed = False\<rparr>"

definition slot_arm :: "waker \<Rightarrow> waiter_slot \<Rightarrow> (waker list \<times> waiter_slot) res" where
  "slot_arm w s =
     rbind (aw_register w (sl_waker s)) (\<lambda>(ws, a). Inr (ws, s\<lparr>sl_waker := a, sl_armed := True\<rparr>))"

definition slot_disarm :: "waiter_slot \<Rightarrow> waiter_slot" where
  "slot_disarm s = s\<lparr>sl_armed := False\<rparr>"

definition slot_signal_slow :: "waiter_slot \<Rightarrow> waker list \<times> waiter_slot" where
  "slot_signal_slow s =
     (let old = sl_armed s; s1 = s\<lparr>sl_armed := False\<rparr> in
      if old then (let (ws, a) = aw_wake (sl_waker s1) in (ws, s1\<lparr>sl_waker := a\<rparr>))
      else ([], s1))"

definition slot_signal :: "waiter_slot \<Rightarrow> waker list \<times> waiter_slot" where
  "slot_signal s = (if sl_armed s then slot_signal_slow s else ([], s))"

section \<open>Calls without interference\<close>

text \<open>Between calls the state is \<open>WAITING\<close>, and an armed slot holds a waker.\<close>

definition slot_ok :: "waiter_slot \<Rightarrow> bool" where
  "slot_ok s \<longleftrightarrow> aw_state (sl_waker s) = WAITING \<and> (sl_armed s \<longrightarrow> aw_cell (sl_waker s) \<noteq> None)"

lemmas state_defs = WAITING_def REGISTERING_def WAKING_def

lemma slot_new_ok [simp]: "slot_ok slot_new"
  by (simp add: slot_ok_def slot_new_def atomic_waker_new_def)

lemma slot_arm_ok:
  assumes "slot_ok s"
  shows "slot_arm w s = Inr ([], \<lparr>sl_waker = \<lparr>aw_state = WAITING, aw_cell = Some w\<rparr>, sl_armed = True\<rparr>)"
  using assms
  by (auto simp: slot_arm_def slot_ok_def aw_register_def aw_finish_register_def Let_def will_wake_def
      split: option.splits)

lemma slot_signal_ok:
  assumes "slot_ok s"
  shows "slot_signal s =
    (if sl_armed s
     then (case aw_cell (sl_waker s) of Some w \<Rightarrow> [w] | None \<Rightarrow> [],
           \<lparr>sl_waker = \<lparr>aw_state = WAITING, aw_cell = None\<rparr>, sl_armed = False\<rparr>)
     else ([], s))"
  using assms
  by (auto simp: slot_signal_def slot_signal_slow_def slot_ok_def aw_wake_def aw_take_def Let_def
      state_defs split: option.splits)

lemma slot_signal_slot_ok: "slot_ok s \<Longrightarrow> slot_ok (snd (slot_signal s))"
  by (simp add: slot_signal_ok) (simp add: slot_ok_def)

lemma slot_disarm_ok: "slot_ok s \<Longrightarrow> slot_ok (slot_disarm s)"
  by (simp add: slot_ok_def slot_disarm_def)

lemma slot_signal_new [simp]: "slot_signal slot_new = ([], slot_new)"
  by (simp add: slot_signal_def slot_new_def)

text \<open>An armed waker is the one the next signal wakes.\<close>

lemma arm_then_signal:
  "slot_ok s \<Longrightarrow> wp (slot_arm w s) (\<lambda>(ws, s'). ws = [] \<and> slot_ok s' \<and> fst (slot_signal s') = [w])"
  by (simp add: slot_arm_ok slot_signal_ok slot_ok_def)

text \<open>A task parked on a slot, and which waits outlast the wakes of a call.\<close>

definition parked_on :: "waker \<Rightarrow> waiter_slot \<Rightarrow> bool" where
  "parked_on w s \<longleftrightarrow> slot_ok s \<and> sl_armed s \<and> aw_cell (sl_waker s) = Some w"

lemma parked_signal: "parked_on w s \<Longrightarrow> fst (slot_signal s) = [w]"
  by (simp add: parked_on_def slot_signal_ok)

lemma arm_parks: "slot_ok s \<Longrightarrow> wp (slot_arm w s) (\<lambda>(ws, s'). ws = [] \<and> parked_on w s')"
  by (simp add: slot_arm_ok parked_on_def slot_ok_def)

definition still_waiting :: "waker list \<Rightarrow> waker option \<Rightarrow> waker option" where
  "still_waiting ws v = (case v of Some w \<Rightarrow> if w \<in> set ws then None else Some w | None \<Rightarrow> None)"

lemma still_waiting_Some:
  "still_waiting ws v = Some w \<longleftrightarrow> v = Some w \<and> w \<notin> set ws"
  by (auto simp: still_waiting_def split: option.splits if_splits)

section \<open>The handshake, one atomic access at a time\<close>

text \<open>
  Program counters. The waiting task polls: \<open>Reg1..Reg6\<close> are the accesses of \<open>register\<close>, \<open>Arm\<close> the
  store of \<open>arm\<close>, \<open>Recheck\<close> the caller's second look at its condition, \<open>Disarm\<close> the store of
  \<open>disarm\<close>. A signalling thread has published its state at \<open>Gate\<close>, the load of \<open>signal\<close>; \<open>Claim\<close>
  is the swap of \<open>signal_slow\<close>, \<open>Take1..Take3\<close> are the accesses of \<open>take\<close>, \<open>Fire\<close> the wake.
\<close>

datatype waiter_pc =
    Idle | Reg1 | Reg2 | Reg3 | Reg4 | Reg5 waker | Reg6 waker | Arm | Recheck | Disarm | Parked

datatype signal_pc = Quiet | Gate | Claim | Take1 | Take2 | Take3 "waker option" | Fire "waker option"

record handshake =
  hs_state :: usize
  hs_cell :: "waker option"
  hs_armed :: bool
  hs_avail :: bool
  hs_wpc :: waiter_pc
  hs_cur :: waker
  hs_woken :: bool
  hs_spc :: "nat \<Rightarrow> signal_pc"

text \<open>
  \<open>hs_woken\<close>: the waker of the current poll has been called since that poll began. The first look of a
  poll may be at a stale copy of the condition, so \<open>poll\<close> has no guard; a second look that finds less
  than the caller wants takes it and parks all the same (\<open>recheck_part\<close>), still armed. A task may
  disarm for another reason than its condition (\<open>give_up\<close>), and a thread may signal without having
  changed it (\<open>spurious\<close>).
\<close>

definition hs_wake :: "waker option \<Rightarrow> handshake \<Rightarrow> handshake" where
  "hs_wake v h = h\<lparr>hs_woken := hs_woken h \<or> v = Some (hs_cur h)\<rparr>"

definition hs_init :: "handshake \<Rightarrow> bool" where
  "hs_init h \<longleftrightarrow> hs_state h = WAITING \<and> hs_cell h = None \<and> \<not> hs_armed h \<and> hs_wpc h = Idle \<and>
     hs_spc h = (\<lambda>_. Quiet)"

inductive hs_step :: "handshake \<Rightarrow> handshake \<Rightarrow> bool" where
  \<comment> \<open>the waiting task\<close>
  consume: "hs_wpc h \<in> {Idle, Parked} \<Longrightarrow> hs_avail h \<Longrightarrow>
    hs_step h (h\<lparr>hs_avail := b, hs_wpc := Idle\<rparr>)"
| poll: "hs_wpc h \<in> {Idle, Parked} \<Longrightarrow>
    hs_step h (h\<lparr>hs_wpc := Reg1, hs_cur := w, hs_woken := False\<rparr>)"
| cancel: "hs_wpc h = Parked \<Longrightarrow> hs_step h (h\<lparr>hs_wpc := Idle\<rparr>)"
| reg_lock: "hs_wpc h = Reg1 \<Longrightarrow> hs_state h = WAITING \<Longrightarrow>
    hs_step h (h\<lparr>hs_state := REGISTERING, hs_wpc := Reg2\<rparr>)"
| reg_busy: "hs_wpc h = Reg1 \<Longrightarrow> hs_state h \<noteq> WAITING \<Longrightarrow>
    hs_step h (hs_wake (Some (hs_cur h)) (h\<lparr>hs_wpc := Arm\<rparr>))"
| reg_store: "hs_wpc h = Reg2 \<Longrightarrow>
    hs_step h (h\<lparr>hs_cell := (if hs_cell h = Some (hs_cur h) then hs_cell h else Some (hs_cur h)),
                 hs_wpc := Reg3\<rparr>)"
| reg_unlock: "hs_wpc h = Reg3 \<Longrightarrow> hs_state h = REGISTERING \<Longrightarrow>
    hs_step h (h\<lparr>hs_state := WAITING, hs_wpc := Arm\<rparr>)"
| reg_raced: "hs_wpc h = Reg3 \<Longrightarrow> hs_state h \<noteq> REGISTERING \<Longrightarrow>
    hs_step h (h\<lparr>hs_wpc := Reg4\<rparr>)"
| reg_take: "hs_wpc h = Reg4 \<Longrightarrow> hs_cell h = Some v \<Longrightarrow>
    hs_step h (h\<lparr>hs_cell := None, hs_wpc := Reg5 v\<rparr>)"
| reg_reset: "hs_wpc h = Reg5 v \<Longrightarrow>
    hs_step h (h\<lparr>hs_state := WAITING, hs_wpc := Reg6 v\<rparr>)"
| reg_fire: "hs_wpc h = Reg6 v \<Longrightarrow>
    hs_step h (hs_wake (Some v) (h\<lparr>hs_wpc := Arm\<rparr>))"
| arm: "hs_wpc h = Arm \<Longrightarrow> hs_step h (h\<lparr>hs_armed := True, hs_wpc := Recheck\<rparr>)"
| recheck_ok: "hs_wpc h = Recheck \<Longrightarrow> hs_avail h \<Longrightarrow>
    hs_step h (h\<lparr>hs_avail := b, hs_wpc := Disarm\<rparr>)"
| recheck_part: "hs_wpc h = Recheck \<Longrightarrow> hs_avail h \<Longrightarrow>
    hs_step h (h\<lparr>hs_avail := False, hs_wpc := Parked\<rparr>)"
| park: "hs_wpc h = Recheck \<Longrightarrow> \<not> hs_avail h \<Longrightarrow> hs_step h (h\<lparr>hs_wpc := Parked\<rparr>)"
| give_up: "hs_wpc h \<in> {Idle, Recheck, Parked} \<Longrightarrow> hs_step h (h\<lparr>hs_wpc := Disarm\<rparr>)"
| disarm: "hs_wpc h = Disarm \<Longrightarrow> hs_step h (h\<lparr>hs_armed := False, hs_wpc := Idle\<rparr>)"
  \<comment> \<open>a signalling thread\<close>
| publish: "hs_spc h i = Quiet \<Longrightarrow>
    hs_step h (h\<lparr>hs_avail := True, hs_spc := (hs_spc h)(i := Gate)\<rparr>)"
| spurious: "hs_spc h i = Quiet \<Longrightarrow> hs_step h (h\<lparr>hs_spc := (hs_spc h)(i := Gate)\<rparr>)"
| gate: "hs_spc h i = Gate \<Longrightarrow>
    hs_step h (h\<lparr>hs_spc := (hs_spc h)(i := (if hs_armed h then Claim else Quiet))\<rparr>)"
| claim: "hs_spc h i = Claim \<Longrightarrow>
    hs_step h (h\<lparr>hs_armed := False, hs_spc := (hs_spc h)(i := (if hs_armed h then Take1 else Quiet))\<rparr>)"
| take_lock: "hs_spc h i = Take1 \<Longrightarrow>
    hs_step h (h\<lparr>hs_state := hs_state h OR WAKING,
      hs_spc := (hs_spc h)(i := (if hs_state h = WAITING then Take2 else Quiet))\<rparr>)"
| take_cell: "hs_spc h i = Take2 \<Longrightarrow>
    hs_step h (h\<lparr>hs_cell := None, hs_spc := (hs_spc h)(i := Take3 (hs_cell h))\<rparr>)"
| take_unlock: "hs_spc h i = Take3 v \<Longrightarrow>
    hs_step h (h\<lparr>hs_state := hs_state h AND NOT WAKING, hs_spc := (hs_spc h)(i := Fire v)\<rparr>)"
| fire: "hs_spc h i = Fire v \<Longrightarrow>
    hs_step h (hs_wake v (h\<lparr>hs_spc := (hs_spc h)(i := Quiet)\<rparr>))"

text \<open>The threads that may touch the waker cell.\<close>

fun in_cell :: "waiter_pc \<Rightarrow> bool" where
  "in_cell Reg2 = True" | "in_cell Reg3 = True" | "in_cell Reg4 = True" | "in_cell (Reg5 v) = True"
| "in_cell _ = False"

fun holds_cell :: "signal_pc \<Rightarrow> bool" where
  "holds_cell Take2 = True" | "holds_cell (Take3 v) = True" | "holds_cell _ = False"

definition holders :: "(nat \<Rightarrow> signal_pc) \<Rightarrow> nat set" where
  "holders spc = {i. holds_cell (spc i)}"

text \<open>
  The lock: the \<open>REGISTERING\<close> bit belongs to the waiting task, a state of exactly \<open>WAKING\<close> to the
  one signaller inside \<open>take\<close>.
\<close>

definition lock_ok :: "bool \<Rightarrow> usize \<Rightarrow> nat set \<Rightarrow> bool" where
  "lock_ok waiter st H \<longleftrightarrow>
     (if waiter then (st = REGISTERING \<or> st = REGISTERING OR WAKING) \<and> H = {}
      else (st = WAITING \<and> H = {}) \<or> (st = WAKING \<and> (\<exists>i. H = {i})))"

definition hs_lock_inv :: "handshake \<Rightarrow> bool" where
  "hs_lock_inv h \<longleftrightarrow> lock_ok (in_cell (hs_wpc h)) (hs_state h) (holders (hs_spc h))"

definition hs_cell_inv :: "handshake \<Rightarrow> bool" where
  "hs_cell_inv h \<longleftrightarrow>
     (hs_wpc h = Reg4 \<or> (\<exists>v. hs_wpc h = Reg5 v) \<longrightarrow> hs_state h = REGISTERING OR WAKING) \<and>
     (hs_wpc h = Reg3 \<or> hs_wpc h = Reg4 \<longrightarrow> hs_cell h = Some (hs_cur h)) \<and>
     (\<forall>v. hs_wpc h = Reg5 v \<or> hs_wpc h = Reg6 v \<longrightarrow> v = hs_cur h) \<and>
     (\<forall>i v. hs_spc h i = Take3 v \<longrightarrow> hs_cell h = None)"

text \<open>A wake of the current waker that some signaller has already taken out of the cell.\<close>

definition some_at :: "(signal_pc \<Rightarrow> bool) \<Rightarrow> (nat \<Rightarrow> signal_pc) \<Rightarrow> bool" where
  "some_at P spc \<longleftrightarrow> (\<exists>i. P (spc i))"

definition hs_in_hand :: "handshake \<Rightarrow> bool" where
  "hs_in_hand h \<longleftrightarrow> some_at (\<lambda>p. p = Take3 (Some (hs_cur h)) \<or> p = Fire (Some (hs_cur h))) (hs_spc h)"

definition hs_claimed :: "handshake \<Rightarrow> bool" where
  "hs_claimed h \<longleftrightarrow> some_at (\<lambda>p. p = Take1 \<or> p = Take2) (hs_spc h)"

definition hs_wake_inv :: "handshake \<Rightarrow> bool" where
  "hs_wake_inv h \<longleftrightarrow>
     (hs_wpc h = Arm \<longrightarrow> hs_woken h \<or> hs_cell h = Some (hs_cur h) \<or> hs_in_hand h) \<and>
     (hs_wpc h = Recheck \<or> hs_wpc h = Parked \<longrightarrow>
        hs_woken h \<or> (hs_cell h = Some (hs_cur h) \<and> (hs_armed h \<or> hs_claimed h)) \<or> hs_in_hand h) \<and>
     (hs_wpc h = Parked \<longrightarrow> hs_avail h \<longrightarrow> \<not> hs_woken h \<longrightarrow> hs_armed h \<longrightarrow>
        some_at (\<lambda>p. p = Gate \<or> p = Claim) (hs_spc h))"

definition hs_inv :: "handshake \<Rightarrow> bool" where
  "hs_inv h \<longleftrightarrow> hs_lock_inv h \<and> hs_cell_inv h \<and> hs_wake_inv h"

lemma hs_wake_simps [simp]:
  "hs_state (hs_wake v h) = hs_state h" "hs_cell (hs_wake v h) = hs_cell h"
  "hs_armed (hs_wake v h) = hs_armed h" "hs_avail (hs_wake v h) = hs_avail h"
  "hs_wpc (hs_wake v h) = hs_wpc h" "hs_cur (hs_wake v h) = hs_cur h"
  "hs_spc (hs_wake v h) = hs_spc h"
  "hs_woken (hs_wake v h) \<longleftrightarrow> hs_woken h \<or> v = Some (hs_cur h)"
  by (simp_all add: hs_wake_def)

lemma holders_upd [simp]:
  "holders (spc(i := p)) = (if holds_cell p then insert i (holders spc) else holders spc - {i})"
  by (auto simp: holders_def)

lemma holders_mem: "i \<in> holders spc \<longleftrightarrow> holds_cell (spc i)"
  by (simp add: holders_def)

lemma holders_same:
  "\<not> holds_cell (spc i) \<Longrightarrow> holders spc - {i} = holders spc"
  "holds_cell (spc i) \<Longrightarrow> insert i (holders spc) = holders spc"
  by (auto simp: holders_def)

lemma state_bits [simp]:
  "WAITING OR WAKING = WAKING" "WAKING OR WAKING = WAKING"
  "(REGISTERING OR WAKING) OR WAKING = REGISTERING OR WAKING" "WAKING AND NOT WAKING = WAITING"
  by (simp_all add: state_defs)

lemma state_distinct [simp]:
  "WAITING \<noteq> REGISTERING" "WAITING \<noteq> WAKING" "REGISTERING \<noteq> WAKING"
  "REGISTERING \<noteq> WAITING" "WAKING \<noteq> WAITING" "WAKING \<noteq> REGISTERING"
  "REGISTERING OR WAKING \<noteq> WAITING" "REGISTERING OR WAKING \<noteq> REGISTERING"
  "REGISTERING OR WAKING \<noteq> WAKING" "WAITING \<noteq> REGISTERING OR WAKING"
  "REGISTERING \<noteq> REGISTERING OR WAKING" "WAKING \<noteq> REGISTERING OR WAKING"
  by (simp_all add: state_defs)

lemma lock_ok_held: "lock_ok b st H \<Longrightarrow> i \<in> H \<Longrightarrow> \<not> b \<and> st = WAKING \<and> H = {i}"
  by (auto simp: lock_ok_def split: if_splits)

lemma lock_ok_free: "lock_ok b WAITING H \<Longrightarrow> \<not> b \<and> H = {}"
  by (auto simp: lock_ok_def split: if_splits)

lemma lock_ok_waiter: "lock_ok True st H \<Longrightarrow> (st = REGISTERING \<or> st = REGISTERING OR WAKING) \<and> H = {}"
  by (simp add: lock_ok_def)

lemma lock_ok_busy: "lock_ok False st H \<Longrightarrow> st \<noteq> WAITING \<Longrightarrow> \<exists>i. H = {i}"
  by (simp add: lock_ok_def)

lemma lock_okI:
  "lock_ok False WAITING {}" "lock_ok False WAKING {i}"
  "lock_ok True REGISTERING {}" "lock_ok True (REGISTERING OR WAKING) {}" "lock_ok False 0 {}"
  by (simp_all add: lock_ok_def WAITING_def)

lemma lock_ok_or: "lock_ok b st H \<Longrightarrow> st \<noteq> WAITING \<Longrightarrow> lock_ok b (st OR WAKING) H"
  unfolding lock_ok_def by (cases b) auto

lemma hs_lock_step:
  assumes inv: "hs_inv h" and step: "hs_step h k"
  shows "hs_lock_inv k"
proof -
  have L: "lock_ok (in_cell (hs_wpc h)) (hs_state h) (holders (hs_spc h))"
    and C: "hs_cell_inv h" using inv by (simp_all add: hs_inv_def hs_lock_inv_def)
  from step show ?thesis
  proof cases
    case (take_lock i)
    show ?thesis
    proof (cases "hs_state h = WAITING")
      case True
      then have "\<not> in_cell (hs_wpc h) \<and> holders (hs_spc h) = {}" using lock_ok_free L by metis
      then show ?thesis using True take_lock by (simp add: hs_lock_inv_def lock_okI)
    next
      case False
      then show ?thesis
        using lock_ok_or [OF L] take_lock by (simp add: hs_lock_inv_def holders_same)
    qed
  next
    case (take_unlock i v)
    then have "i \<in> holders (hs_spc h)" by (simp add: holders_mem)
    from lock_ok_held [OF L this] take_unlock show ?thesis by (simp add: hs_lock_inv_def lock_okI)
  next
    case reg_lock
    then show ?thesis
      using L lock_ok_free [of False "holders (hs_spc h)"] by (simp add: hs_lock_inv_def lock_okI)
  next
    case reg_unlock
    then show ?thesis
      using L lock_ok_waiter [of REGISTERING "holders (hs_spc h)"] by (simp add: hs_lock_inv_def lock_okI)
  next
    case (reg_reset v)
    then show ?thesis
      using L lock_ok_waiter [of "hs_state h" "holders (hs_spc h)"] by (simp add: hs_lock_inv_def lock_okI)
  qed (use L in \<open>auto simp: hs_lock_inv_def holders_same\<close>)
qed

lemma hs_cell_step:
  assumes inv: "hs_inv h" and step: "hs_step h k"
  shows "hs_cell_inv k"
proof -
  have L: "lock_ok (in_cell (hs_wpc h)) (hs_state h) (holders (hs_spc h))"
    and C: "hs_cell_inv h" using inv by (simp_all add: hs_inv_def hs_lock_inv_def)
  have excl: "\<not> holds_cell (hs_spc h i)" if "in_cell (hs_wpc h)" for i
    using lock_ok_held [OF L] holders_mem that by blast
  have alone: "j = i" if "holds_cell (hs_spc h i)" "holds_cell (hs_spc h j)" for i j
    using lock_ok_held [OF L, of i] holders_mem that by blast
  from step show ?thesis
  proof cases
    case reg_store
    then show ?thesis using excl C by (auto simp: hs_cell_inv_def) (metis holds_cell.simps(2))+
  next
    case reg_raced
    then show ?thesis using L C lock_ok_waiter by (auto simp: hs_cell_inv_def)
  next
    case (take_lock i)
    then show ?thesis using C by (auto simp: hs_cell_inv_def)
  next
    case (take_cell i)
    then show ?thesis
      using C excl [of i] by (auto simp: hs_cell_inv_def)
  next
    case (take_unlock i v)
    then show ?thesis
      using C excl [of i] by (auto simp: hs_cell_inv_def)
  qed (use C in \<open>auto simp: hs_cell_inv_def split: if_splits\<close>)
qed

text \<open>One thread moves: what the others are at does not change.\<close>

definition others_at :: "nat \<Rightarrow> (signal_pc \<Rightarrow> bool) \<Rightarrow> (nat \<Rightarrow> signal_pc) \<Rightarrow> bool" where
  "others_at i P spc \<longleftrightarrow> (\<exists>j. j \<noteq> i \<and> P (spc j))"

lemma some_at_upd: "some_at P (spc(i := p)) \<longleftrightarrow> P p \<or> others_at i P spc"
  by (auto simp: some_at_def others_at_def)

lemma some_at_self: "some_at P spc \<longleftrightarrow> P (spc i) \<or> others_at i P spc"
  by (auto simp: some_at_def others_at_def)

lemmas wake_inv_defs = hs_wake_inv_def hs_in_hand_def hs_claimed_def

lemma hs_wake_step_take_lock:
  assumes inv: "hs_inv h"
    and take_lock: "k = h\<lparr>hs_state := hs_state h OR WAKING, hs_spc := (hs_spc h)(i := (if hs_state h = WAITING then Take2 else Quiet))\<rparr>"
      "hs_spc h i = Take1"
  shows "hs_wake_inv k"
proof -
  have L: "lock_ok (in_cell (hs_wpc h)) (hs_state h) (holders (hs_spc h))"
    and C: "hs_cell_inv h" and W: "hs_wake_inv h"
    using inv by (simp_all add: hs_inv_def hs_lock_inv_def)
  show ?thesis
  proof (cases "hs_state h = WAITING")
    case True
    then show ?thesis
      using W take_lock(2) unfolding take_lock(1) wake_inv_defs some_at_self [of _ "hs_spc h" i]
      by (auto simp: some_at_upd)
  next
    case False
    have "others_at i (\<lambda>p. p = Take1 \<or> p = Take2) (hs_spc h)"
      if "\<not> in_cell (hs_wpc h)" "hs_cell h \<noteq> None"
    proof -
      have "lock_ok False (hs_state h) (holders (hs_spc h))" using L that(1) by simp
      then obtain j where "holders (hs_spc h) = {j}" using lock_ok_busy False by blast
      then have j: "holds_cell (hs_spc h j)" using holders_mem by blast
      then have "hs_spc h j = Take2"
        using C that(2) by (cases "hs_spc h j") (auto simp: hs_cell_inv_def)
      moreover have "j \<noteq> i" using j take_lock(2) by auto
      ultimately show ?thesis by (auto simp: others_at_def)
    qed
    then show ?thesis
      using W take_lock(2) False
      unfolding take_lock(1) wake_inv_defs some_at_self [of _ "hs_spc h" i]
      by (auto simp: some_at_upd)
  qed
qed

lemma hs_wake_step:
  assumes inv: "hs_inv h" and step: "hs_step h k"
  shows "hs_wake_inv k"
proof -
  have L: "lock_ok (in_cell (hs_wpc h)) (hs_state h) (holders (hs_spc h))"
    and C: "hs_cell_inv h" and W: "hs_wake_inv h"
    using inv by (simp_all add: hs_inv_def hs_lock_inv_def)
  from step show ?thesis
  proof cases
    case reg_unlock
    then show ?thesis using C by (simp add: hs_wake_inv_def hs_cell_inv_def)
  next
    case (reg_fire v)
    then show ?thesis using C by (simp add: hs_wake_inv_def hs_cell_inv_def)
  next
    case arm
    then show ?thesis using W by (auto simp: wake_inv_defs)
  next
    case recheck_part
    then show ?thesis using W by (auto simp: wake_inv_defs)
  next
    case park
    then show ?thesis using W by (auto simp: wake_inv_defs)
  next
    case (publish i)
    show ?thesis
      using W publish(2) unfolding publish(1) wake_inv_defs some_at_self [of _ "hs_spc h" i]
      by (auto simp: some_at_upd)
  next
    case (spurious i)
    show ?thesis
      using W spurious(2) unfolding spurious(1) wake_inv_defs some_at_self [of _ "hs_spc h" i]
      by (auto simp: some_at_upd)
  next
    case (gate i)
    show ?thesis
      using W gate(2) unfolding gate(1) wake_inv_defs some_at_self [of _ "hs_spc h" i]
      by (auto simp: some_at_upd)
  next
    case (claim i)
    show ?thesis
      using W claim(2) unfolding claim(1) wake_inv_defs some_at_self [of _ "hs_spc h" i]
      by (auto simp: some_at_upd)
  next
    case (take_lock i)
    then show ?thesis by (rule hs_wake_step_take_lock [OF inv])
  next
    case (take_cell i)
    show ?thesis
      using W take_cell(2) unfolding take_cell(1) wake_inv_defs some_at_self [of _ "hs_spc h" i]
      by (auto simp: some_at_upd)
  next
    case (take_unlock i v)
    show ?thesis
      using W take_unlock(2) unfolding take_unlock(1) wake_inv_defs some_at_self [of _ "hs_spc h" i]
      by (auto simp: some_at_upd)
  next
    case (fire i v)
    show ?thesis
      using W fire(2) unfolding fire(1) wake_inv_defs some_at_self [of _ "hs_spc h" i]
      by (auto simp: some_at_upd)
  qed (use W C in \<open>auto simp: hs_wake_inv_def hs_cell_inv_def\<close>)
qed

lemma hs_inv_init: "hs_init h \<Longrightarrow> hs_inv h"
  by (simp add: hs_init_def hs_inv_def hs_lock_inv_def hs_cell_inv_def hs_wake_inv_def holders_def lock_okI)

lemma hs_inv_step: "hs_inv h \<Longrightarrow> hs_step h k \<Longrightarrow> hs_inv k"
  unfolding hs_inv_def [of k] by (intro conjI hs_lock_step hs_cell_step hs_wake_step)

interpretation hs: invariant_system hs_init hs_step hs_inv
  by unfold_locales (auto intro: hs_inv_init hs_inv_step)

lemma hs_told: "hs_inv h \<Longrightarrow> hs_wpc h = Parked \<Longrightarrow> hs_avail h \<Longrightarrow> hs_spc h = (\<lambda>_. Quiet) \<Longrightarrow> hs_woken h"
  by (auto simp: hs_inv_def wake_inv_defs some_at_def)

section \<open>Correctness of the handshake\<close>

text \<open>
  A run with one signaller: the task polls with waker 7, registers, arms and parks; then the signaller
  publishes, sees the armed flag, claims it, takes the waker out and calls it.
\<close>

lemma hs_run:
  obtains h where "reach hs_init hs_step 13 h" "hs_wpc h = Parked" "hs_avail h" "hs_spc h = (\<lambda>_. Quiet)"
proof -
  let ?h = "\<lambda>st c ar av pc wk p. \<lparr>hs_state = st, hs_cell = c, hs_armed = ar, hs_avail = av,
    hs_wpc = pc, hs_cur = 7, hs_woken = wk, hs_spc = (\<lambda>_. Quiet)(0 := p)\<rparr>"
  have "reach hs_init hs_step 0 (?h WAITING None False False Idle False Quiet)"
    by (rule reach.start) (simp add: hs_init_def fun_upd_idem)
  from reach.next_step [OF this, OF hs_step.poll [where w = 7]]
  have "reach hs_init hs_step 1 (?h WAITING None False False Reg1 False Quiet)" by simp
  from reach.next_step [OF this, OF hs_step.reg_lock]
  have "reach hs_init hs_step 2 (?h REGISTERING None False False Reg2 False Quiet)"
    by (simp add: eval_nat_numeral)
  from reach.next_step [OF this, OF hs_step.reg_store]
  have "reach hs_init hs_step 3 (?h REGISTERING (Some 7) False False Reg3 False Quiet)"
    by (simp add: eval_nat_numeral)
  from reach.next_step [OF this, OF hs_step.reg_unlock]
  have "reach hs_init hs_step 4 (?h WAITING (Some 7) False False Arm False Quiet)"
    by (simp add: eval_nat_numeral)
  from reach.next_step [OF this, OF hs_step.arm]
  have "reach hs_init hs_step 5 (?h WAITING (Some 7) True False Recheck False Quiet)"
    by (simp add: eval_nat_numeral)
  from reach.next_step [OF this, OF hs_step.park]
  have "reach hs_init hs_step 6 (?h WAITING (Some 7) True False Parked False Quiet)"
    by (simp add: eval_nat_numeral)
  from reach.next_step [OF this, OF hs_step.publish [where i = 0]]
  have "reach hs_init hs_step 7 (?h WAITING (Some 7) True True Parked False Gate)"
    by (simp add: eval_nat_numeral)
  from reach.next_step [OF this, OF hs_step.gate [where i = 0]]
  have "reach hs_init hs_step 8 (?h WAITING (Some 7) True True Parked False Claim)"
    by (simp add: eval_nat_numeral)
  from reach.next_step [OF this, OF hs_step.claim [where i = 0]]
  have "reach hs_init hs_step 9 (?h WAITING (Some 7) False True Parked False Take1)"
    by (simp add: eval_nat_numeral)
  from reach.next_step [OF this, OF hs_step.take_lock [where i = 0]]
  have "reach hs_init hs_step 10 (?h WAKING (Some 7) False True Parked False Take2)"
    by (simp add: eval_nat_numeral)
  from reach.next_step [OF this, OF hs_step.take_cell [where i = 0]]
  have "reach hs_init hs_step 11 (?h WAKING None False True Parked False (Take3 (Some 7)))"
    by (simp add: eval_nat_numeral)
  from reach.next_step [OF this, OF hs_step.take_unlock [where i = 0 and v = "Some 7"]]
  have "reach hs_init hs_step 12 (?h WAITING None False True Parked False (Fire (Some 7)))"
    by (simp add: eval_nat_numeral WAITING_def)
  from reach.next_step [OF this, OF hs_step.fire [where i = 0 and v = "Some 7"]]
  have "reach hs_init hs_step 13 (?h WAITING None False True Parked True Quiet)"
    by (simp add: eval_nat_numeral hs_wake_def)
  then show thesis by (rule that) (simp_all add: fun_upd_idem)
qed

text \<open>
  C17. The waker cell is never touched by two threads at once, whatever the interleaving: not by the
  registering task and a signaller, nor by two signallers; and where \<open>register\<close> unwraps the cell
  after a raced wake, the state is the asserted one and the cell holds a waker.
\<close>

theorem handshake_exclusive:
  assumes "reach hs_init hs_step n h"
  shows "\<not> (in_cell (hs_wpc h) \<and> holds_cell (hs_spc h i)) \<and>
    (holds_cell (hs_spc h i) \<and> holds_cell (hs_spc h j) \<longrightarrow> i = j) \<and>
    (hs_wpc h = Reg4 \<longrightarrow> hs_state h = REGISTERING OR WAKING \<and> hs_cell h = Some (hs_cur h))"
proof -
  have inv: "lock_ok (in_cell (hs_wpc h)) (hs_state h) (holders (hs_spc h))" "hs_cell_inv h"
    using hs.reachable_inv [OF assms] by (simp_all add: hs_inv_def hs_lock_inv_def)
  have "\<not> in_cell (hs_wpc h) \<and> holders (hs_spc h) = {i}" if "holds_cell (hs_spc h i)" for i
    using lock_ok_held [OF inv(1)] that holders_mem by blast
  moreover have "hs_wpc h = Reg4 \<longrightarrow> hs_state h = REGISTERING OR WAKING \<and> hs_cell h = Some (hs_cur h)"
    using inv(2) by (auto simp: hs_cell_inv_def)
  ultimately show ?thesis using holders_mem by blast
qed

theorem handshake_exclusive_witness:
  "\<exists>h. reach hs_init hs_step 13 h \<and> \<not> (in_cell (hs_wpc h) \<and> holds_cell (hs_spc h 0))"
proof -
  obtain h where h: "reach hs_init hs_step 13 h" by (rule hs_run)
  from handshake_exclusive [OF h, of 0 1] h show ?thesis by blast
qed

text \<open>
  C18. No lost wakeup. If the task is parked while its condition holds and every signaller has finished,
  then the waker of its last poll has been called.
\<close>

theorem handshake_no_lost_wakeup:
  assumes "reach hs_init hs_step n h" "hs_wpc h = Parked" "hs_avail h" "hs_spc h = (\<lambda>_. Quiet)"
  shows "hs_woken h"
  using hs.reachable_inv [OF assms(1)] assms(2-4) by (rule hs_told)

theorem handshake_no_lost_wakeup_witness:
  "\<exists>h. reach hs_init hs_step 13 h \<and> hs_wpc h = Parked \<and> hs_woken h"
proof -
  obtain h where h: "reach hs_init hs_step 13 h" "hs_wpc h = Parked" "hs_avail h" "hs_spc h = (\<lambda>_. Quiet)"
    by (rule hs_run)
  from handshake_no_lost_wakeup [OF h] h show ?thesis by blast
qed

end
