(* ===== verification/Slot_Access.thy ===== *)
theory Slot_Access
  imports Notify
begin

text \<open>
  The accesses of \<open>arm\<close> and \<open>signal\<close> (\<open>src/src/site_d/notify.rs\<close>) as functions on the slot: one call
  per atomic access, with the wakers it calls. The threads of a component that uses a slot are built from
  them; \<open>slot_hs\<close> is what such a component shows of one of its slots, and the lemmas say that each access
  is a step of the handshake of \<open>Notify\<close>.
\<close>

fun reg_access :: "waker \<Rightarrow> waiter_pc \<Rightarrow> waiter_slot \<Rightarrow> (waker list \<times> waiter_pc \<times> waiter_slot) res" where
  "reg_access waker Reg1 s =
     (if aw_state (sl_waker s) = WAITING
      then Inr ([], Reg2, s\<lparr>sl_waker := (sl_waker s)\<lparr>aw_state := REGISTERING\<rparr>\<rparr>)
      else Inr ([waker], Arm, s))"
| "reg_access waker Reg2 s =
     (let same = (case aw_cell (sl_waker s) of Some w \<Rightarrow> will_wake w waker | None \<Rightarrow> False)
      in Inr ([], Reg3, if same then s else s\<lparr>sl_waker := (sl_waker s)\<lparr>aw_cell := Some waker\<rparr>\<rparr>))"
| "reg_access waker Reg3 s =
     (if aw_state (sl_waker s) = REGISTERING
      then Inr ([], Arm, s\<lparr>sl_waker := (sl_waker s)\<lparr>aw_state := WAITING\<rparr>\<rparr>)
      else rbind (rassert (aw_state (sl_waker s) = REGISTERING OR WAKING) (Assertion ''assertion failed''))
        (\<lambda>_. Inr ([], Reg4, s)))"
| "reg_access waker Reg4 s =
     (case aw_cell (sl_waker s) of
        None \<Rightarrow> Inl (Assertion ''called `Option::unwrap()` on a `None` value'')
      | Some w \<Rightarrow> Inr ([], Reg5 w, s\<lparr>sl_waker := (sl_waker s)\<lparr>aw_cell := None\<rparr>\<rparr>))"
| "reg_access waker (Reg5 w) s = Inr ([], Reg6 w, s\<lparr>sl_waker := (sl_waker s)\<lparr>aw_state := WAITING\<rparr>\<rparr>)"
| "reg_access waker (Reg6 w) s = Inr ([w], Arm, s)"
| "reg_access waker Arm s = Inr ([], Recheck, s\<lparr>sl_armed := True\<rparr>)"
| "reg_access waker q s = Inr ([], q, s)"

text \<open>The program counters at which \<open>reg_access\<close> is an access of \<open>arm\<close>.\<close>

fun arming :: "waiter_pc \<Rightarrow> bool" where
  "arming Idle = False" | "arming Recheck = False" | "arming Disarm = False" | "arming Parked = False"
| "arming _ = True"

fun sig_access :: "signal_pc \<Rightarrow> waiter_slot \<Rightarrow> waker list \<times> signal_pc \<times> waiter_slot" where
  "sig_access Quiet s = ([], Quiet, s)"
| "sig_access Gate s = ([], if sl_armed s then Claim else Quiet, s)"
| "sig_access Claim s = ([], if sl_armed s then Take1 else Quiet, s\<lparr>sl_armed := False\<rparr>)"
| "sig_access Take1 s =
     ([], if aw_state (sl_waker s) = WAITING then Take2 else Quiet,
      s\<lparr>sl_waker := (sl_waker s)\<lparr>aw_state := aw_state (sl_waker s) OR WAKING\<rparr>\<rparr>)"
| "sig_access Take2 s =
     ([], Take3 (aw_cell (sl_waker s)), s\<lparr>sl_waker := (sl_waker s)\<lparr>aw_cell := None\<rparr>\<rparr>)"
| "sig_access (Take3 v) s =
     ([], Fire v, s\<lparr>sl_waker := (sl_waker s)\<lparr>aw_state := aw_state (sl_waker s) AND NOT WAKING\<rparr>\<rparr>)"
| "sig_access (Fire v) s = (case v of Some w \<Rightarrow> [w] | None \<Rightarrow> [], Quiet, s)"

text \<open>
  How a non-blocking attempt was made: by a call of its own, or as the first or second attempt of a
  future's \<open>poll\<close>, before and after it arms its slot.
\<close>

datatype mode = Plain | First waker | Second

text \<open>
  A slot with its one waiting task and its signalling threads, as a handshake: whether the condition
  holds, where the task is, the waker of its last poll and whether that was called, where the signallers
  are. Most slots have one signaller.
\<close>

definition slot_hss ::
  "waiter_slot \<Rightarrow> bool \<Rightarrow> waiter_pc \<Rightarrow> waker \<Rightarrow> bool \<Rightarrow> (nat \<Rightarrow> signal_pc) \<Rightarrow> handshake" where
  "slot_hss s avail wpc cur woken spc =
     \<lparr>hs_state = aw_state (sl_waker s), hs_cell = aw_cell (sl_waker s), hs_armed = sl_armed s,
      hs_avail = avail, hs_wpc = wpc, hs_cur = cur, hs_woken = woken, hs_spc = spc\<rparr>"

definition slot_hs ::
  "waiter_slot \<Rightarrow> bool \<Rightarrow> waiter_pc \<Rightarrow> waker \<Rightarrow> bool \<Rightarrow> signal_pc \<Rightarrow> handshake" where
  "slot_hs s avail wpc cur woken spc = slot_hss s avail wpc cur woken ((\<lambda>_. Quiet)(0 := spc))"

lemma slot_hss_simps [simp]:
  "hs_state (slot_hss s a q c k P) = aw_state (sl_waker s)" "hs_cell (slot_hss s a q c k P) = aw_cell (sl_waker s)"
  "hs_armed (slot_hss s a q c k P) = sl_armed s" "hs_avail (slot_hss s a q c k P) = a"
  "hs_wpc (slot_hss s a q c k P) = q" "hs_cur (slot_hss s a q c k P) = c" "hs_woken (slot_hss s a q c k P) = k"
  "hs_spc (slot_hss s a q c k P) = P"
  by (simp_all add: slot_hss_def)

lemma slot_hs_simps [simp]:
  "hs_state (slot_hs s a q c k p) = aw_state (sl_waker s)" "hs_cell (slot_hs s a q c k p) = aw_cell (sl_waker s)"
  "hs_armed (slot_hs s a q c k p) = sl_armed s" "hs_avail (slot_hs s a q c k p) = a"
  "hs_wpc (slot_hs s a q c k p) = q" "hs_cur (slot_hs s a q c k p) = c" "hs_woken (slot_hs s a q c k p) = k"
  "hs_spc (slot_hs s a q c k p) = (\<lambda>_. Quiet)(0 := p)"
  by (simp_all add: slot_hs_def)

text \<open>A step of the handshake, or none.\<close>

definition hs_opt :: "handshake \<Rightarrow> handshake \<Rightarrow> bool" where
  "hs_opt h k \<longleftrightarrow> k = h \<or> hs_step h k"

lemma hs_opt_refl [simp]: "hs_opt h h"
  by (simp add: hs_opt_def)

lemma reg_access_steps:
  assumes "reg_access cur q s = Inr (ws, q', s')"
  shows "hs_opt (slot_hss s a q cur k P) (slot_hss s' a q' cur (k \<or> cur \<in> set ws) P)"
proof (cases q)
  case Reg1
  then show ?thesis
    using assms hs_step.reg_lock [of "slot_hss s a q cur k P"] hs_step.reg_busy [of "slot_hss s a q cur k P"]
    by (auto simp: slot_hss_def hs_wake_def hs_opt_def split: if_splits)
next
  case Reg2
  then show ?thesis
    using assms hs_step.reg_store [of "slot_hss s a q cur k P"]
    by (auto simp: slot_hss_def hs_opt_def will_wake_def split: option.splits if_splits)
next
  case Reg3
  then show ?thesis
    using assms hs_step.reg_unlock [of "slot_hss s a q cur k P"] hs_step.reg_raced [of "slot_hss s a q cur k P"]
    by (auto simp: slot_hss_def hs_opt_def rbind_Inr_iff split: if_splits)
next
  case Reg4
  then show ?thesis
    using assms hs_step.reg_take [of "slot_hss s a q cur k P"]
    by (auto simp: slot_hss_def hs_opt_def split: option.splits)
next
  case (Reg5 w)
  then show ?thesis
    using assms hs_step.reg_reset [of "slot_hss s a q cur k P"] by (auto simp: slot_hss_def hs_opt_def)
next
  case (Reg6 w)
  then show ?thesis
    using assms hs_step.reg_fire [of "slot_hss s a q cur k P"]
    by (auto simp: slot_hss_def hs_opt_def hs_wake_def eq_commute)
next
  case Arm
  then show ?thesis
    using assms hs_step.arm [of "slot_hss s a q cur k P"] by (auto simp: slot_hss_def hs_opt_def)
qed (use assms in auto)

lemma sig_access_steps:
  assumes "sig_access (P i) s = (ws, p', s')"
  shows "hs_opt (slot_hss s a q cur k P) (slot_hss s' a q cur (k \<or> cur \<in> set ws) (P(i := p')))"
proof (cases "P i")
  case Quiet
  then show ?thesis using assms by (auto simp: fun_upd_idem)
next
  case Gate
  then show ?thesis
    using assms hs_step.gate [of "slot_hss s a q cur k P" i] by (auto simp: slot_hss_def hs_opt_def)
next
  case Claim
  then show ?thesis
    using assms hs_step.claim [of "slot_hss s a q cur k P" i] by (auto simp: slot_hss_def hs_opt_def)
next
  case Take1
  then show ?thesis
    using assms hs_step.take_lock [of "slot_hss s a q cur k P" i] by (auto simp: slot_hss_def hs_opt_def)
next
  case Take2
  then show ?thesis
    using assms hs_step.take_cell [of "slot_hss s a q cur k P" i] by (auto simp: slot_hss_def hs_opt_def)
next
  case (Take3 v)
  then show ?thesis
    using assms hs_step.take_unlock [of "slot_hss s a q cur k P" i] by (auto simp: slot_hss_def hs_opt_def)
next
  case (Fire v)
  then show ?thesis
    using assms hs_step.fire [of "slot_hss s a q cur k P" i v]
    by (auto simp: slot_hss_def hs_opt_def hs_wake_def eq_commute [of _ cur] split: option.splits)
qed

lemma reg_access_step:
  "reg_access cur q s = Inr (ws, q', s') \<Longrightarrow>
   hs_opt (slot_hs s a q cur k p) (slot_hs s' a q' cur (k \<or> cur \<in> set ws) p)"
  unfolding slot_hs_def by (rule reg_access_steps)

lemma sig_access_step:
  "sig_access p s = (ws, p', s') \<Longrightarrow>
   hs_opt (slot_hs s a q cur k p) (slot_hs s' a q cur (k \<or> cur \<in> set ws) p')"
  unfolding slot_hs_def using sig_access_steps [of "(\<lambda>_. Quiet)(0 := p)" 0] by simp

lemma reg_access_arming: "reg_access w q s = Inr (ws, q', s') \<Longrightarrow> arming q \<Longrightarrow> arming q' \<or> q' = Recheck"
  by (cases q) (auto simp: rbind_Inr_iff split: if_splits option.splits)

text \<open>In a state of the handshake's invariant no access of \<open>arm\<close> panics.\<close>

lemma reg_access_oks:
  assumes "hs_inv (slot_hss s a q cur k P)"
  shows "\<exists>r. reg_access cur q s = Inr r"
proof -
  have L: "lock_ok (in_cell q) (aw_state (sl_waker s)) (holders P)"
    and C: "hs_cell_inv (slot_hss s a q cur k P)"
    using assms by (simp_all add: hs_inv_def hs_lock_inv_def)
  show ?thesis
  proof (cases q)
    case Reg3
    then show ?thesis using L lock_ok_waiter by fastforce
  next
    case Reg4
    then show ?thesis using C by (simp add: hs_cell_inv_def)
  qed auto
qed

lemma reg_access_ok: "hs_inv (slot_hs s a q cur k p) \<Longrightarrow> \<exists>r. reg_access cur q s = Inr r"
  unfolding slot_hs_def by (rule reg_access_oks)

text \<open>A parked task whose condition holds has been told, once the signallers are done.\<close>

lemma slot_hss_told: "hs_inv (slot_hss s True Parked cur k (\<lambda>_. Quiet)) \<Longrightarrow> k"
  using hs_told [of "slot_hss s True Parked cur k (\<lambda>_. Quiet)"] by simp

lemma slot_hs_told: "hs_inv (slot_hs s True Parked cur k Quiet) \<Longrightarrow> k"
  using slot_hss_told [of s cur k] by (simp add: slot_hs_def fun_upd_idem)

text \<open>What the waiting task does between its accesses to the slot.\<close>

lemma hss_opt_cancel: "hs_opt (slot_hss s a Parked cur k P) (slot_hss s a Idle cur k P)"
  using hs_step.cancel [of "slot_hss s a Parked cur k P"] by (simp add: slot_hss_def hs_opt_def)

lemma hss_opt_consume:
  "q = Idle \<or> q = Parked \<Longrightarrow> hs_opt (slot_hss s True q cur k P) (slot_hss s a Idle cur k P)"
  using hs_step.consume [of "slot_hss s True q cur k P" a] by (auto simp: slot_hss_def hs_opt_def)

lemma hss_opt_poll: "hs_opt (slot_hss s a Idle cur k P) (slot_hss s a Reg1 w False P)"
  using hs_step.poll [of "slot_hss s a Idle cur k P" w] by (simp add: slot_hss_def hs_opt_def)

lemma hss_opt_recheck: "hs_opt (slot_hss s True Recheck cur k P) (slot_hss s a Disarm cur k P)"
  using hs_step.recheck_ok [of "slot_hss s True Recheck cur k P" a] by (simp add: slot_hss_def hs_opt_def)

lemma hss_opt_park: "hs_opt (slot_hss s a Recheck cur k P) (slot_hss s False Parked cur k P)"
  using hs_step.park [of "slot_hss s a Recheck cur k P"] hs_step.recheck_part [of "slot_hss s a Recheck cur k P"]
  by (cases a) (simp_all add: slot_hss_def hs_opt_def)

lemma hss_opt_give_up:
  "q \<in> {Idle, Recheck, Parked} \<Longrightarrow> hs_opt (slot_hss s a q cur k P) (slot_hss s a Disarm cur k P)"
  using hs_step.give_up [of "slot_hss s a q cur k P"] by (auto simp: slot_hss_def hs_opt_def)

lemma hss_opt_disarm:
  "hs_opt (slot_hss s a Disarm cur k P) (slot_hss (slot_disarm s) a Idle cur k P)"
  using hs_step.disarm [of "slot_hss s a Disarm cur k P"] by (simp add: slot_hss_def hs_opt_def slot_disarm_def)

lemma hss_opt_publish:
  "P i = Quiet \<Longrightarrow> hs_opt (slot_hss s a q cur k P) (slot_hss s True q cur k (P(i := Gate)))"
  using hs_step.publish [of "slot_hss s a q cur k P" i] by (simp add: slot_hss_def hs_opt_def)

lemma hss_opt_spurious:
  "P i = Quiet \<Longrightarrow> hs_opt (slot_hss s a q cur k P) (slot_hss s a q cur k (P(i := Gate)))"
  using hs_step.spurious [of "slot_hss s a q cur k P" i] by (simp add: slot_hss_def hs_opt_def)

lemmas hs_opt_cancel = hss_opt_cancel [where P = "(\<lambda>_. Quiet)(0 := p)" for p, folded slot_hs_def]
lemmas hs_opt_consume = hss_opt_consume [where P = "(\<lambda>_. Quiet)(0 := p)" for p, folded slot_hs_def]
lemmas hs_opt_poll = hss_opt_poll [where P = "(\<lambda>_. Quiet)(0 := p)" for p, folded slot_hs_def]
lemmas hs_opt_recheck = hss_opt_recheck [where P = "(\<lambda>_. Quiet)(0 := p)" for p, folded slot_hs_def]
lemmas hs_opt_park = hss_opt_park [where P = "(\<lambda>_. Quiet)(0 := p)" for p, folded slot_hs_def]
lemmas hs_opt_disarm = hss_opt_disarm [where P = "(\<lambda>_. Quiet)(0 := p)" for p, folded slot_hs_def]

lemma hs_opt_publish: "hs_opt (slot_hs s a q cur k Quiet) (slot_hs s True q cur k Gate)"
  using hss_opt_publish [of "(\<lambda>_. Quiet)(0 := Quiet)" 0] by (simp add: slot_hs_def)

end
