(* ===== verification/RingBuf.thy ===== *)
theory RingBuf
  imports Queue Notify Buffer
begin

unbundle bit_operations_syntax

text \<open>
  The SPSC ring buffer of \<open>src/src/site_d/ringbuf.rs\<close>. Indices are 64-bit words that wrap; a slot is
  \<open>Some\<close> while it holds a value that nobody has read out (\<open>MaybeUninit<T>\<close>, with a moved-out slot
  counted as uninitialised). Producer and consumer each keep a private copy of both indices, refreshed
  only when the buffer looks full or empty. Every call is atomic here; the wakeups it causes are in
  its result.
\<close>

section \<open>Shared state and halves\<close>

record 'a ring_shared =
  rb_capacity :: usize
  rb_mask :: usize
  rb_buffer :: "'a option list"
  rb_layout :: layout
  rb_write :: usize
  rb_read :: usize
  rb_pslot :: waiter_slot
  rb_cslot :: waiter_slot

record half =
  cached_read :: usize
  cached_write :: usize

text \<open>\<open>Layout::array::<MaybeUninit<T>>(capacity)\<close> is the layout of the buffer module at \<open>T\<close>'s alignment.\<close>

definition ring_new :: "(layout \<Rightarrow> bool) \<Rightarrow> 'a elem \<Rightarrow> nat \<Rightarrow> 'a ring_shared res" where
  "ring_new alloc el capacity =
     rbind (rassert (capacity > 0) (Assertion ''capacity must be greater than 0'')) (\<lambda>_.
     rbind (rassert (is_power_of_two capacity) (Assertion ''capacity must be a power of 2'')) (\<lambda>_.
     rbind (rassert (el_size el \<noteq> 0) (Assertion ''RingBuf does not support zero-sized types'')) (\<lambda>_.
     rbind (layout_for el capacity (el_align el)) (\<lambda>layout.
     rbind (rassert (alloc layout) (Assertion ''memory allocation failed'')) (\<lambda>_.
       Inr \<lparr>rb_capacity = of_nat capacity, rb_mask = of_nat capacity - 1,
            rb_buffer = replicate capacity None, rb_layout = layout, rb_write = 0, rb_read = 0,
            rb_pslot = slot_new, rb_cslot = slot_new\<rparr>)))))"

definition ring_split :: "'a ring_shared \<Rightarrow> 'a ring_shared \<times> half \<times> half" where
  "ring_split sh =
     (sh, \<lparr>cached_read = 0, cached_write = 0\<rparr>, \<lparr>cached_read = 0, cached_write = 0\<rparr>)"

text \<open>\<open>Drop\<close>: the values dropped in order, then the layout of the freed buffer.\<close>

function ring_drop_loop ::
  "usize \<Rightarrow> usize \<Rightarrow> usize \<Rightarrow> 'a option list \<Rightarrow> 'a list res" where
  "ring_drop_loop msk write current buf =
     (if current \<noteq> write then
        rbind (slot_take buf (unat (current AND msk))) (\<lambda>(x, buf').
        rbind (ring_drop_loop msk write (current + 1) buf') (\<lambda>xs. Inr (x # xs)))
      else Inr [])"
  by pat_completeness auto
termination
proof (relation "measure (\<lambda>(msk, wr, current, buf). unat (wr - current))", simp, goal_cases)
  case (1 msk wr current buf p x buf')
  have "wr - (current + 1) = (wr - current) - 1" by (simp add: algebra_simps)
  moreover have "unat (wr - current - 1) < unat (wr - current)" using 1 by (intro measure_unat) simp
  ultimately show ?case by (simp only: in_measure prod.case)
qed

declare ring_drop_loop.simps [simp del]

definition ring_drop :: "'a ring_shared \<Rightarrow> ('a list \<times> layout) res" where
  "ring_drop sh =
     rbind (ring_drop_loop (rb_mask sh) (rb_write sh) (rb_read sh) (rb_buffer sh)) (\<lambda>xs.
       Inr (xs, rb_layout sh))"

section \<open>Producer\<close>

text \<open>\<open>Some v\<close> is \<open>Err(v)\<close>: the value is handed back.\<close>

definition try_push ::
  "'a \<Rightarrow> 'a ring_shared \<Rightarrow> half \<Rightarrow> ('a option \<times> waker list \<times> 'a ring_shared \<times> half) res" where
  "try_push value sh p =
     (let write = cached_write p;
          looks_full = (write - cached_read p \<ge> rb_capacity sh);
          p1 = (if looks_full then p\<lparr>cached_read := rb_read sh\<rparr> else p)
      in if looks_full \<and> write - cached_read p1 \<ge> rb_capacity sh then Inr (Some value, [], sh, p1)
         else
           rbind (slot_write (rb_buffer sh) (unat (write AND rb_mask sh)) value) (\<lambda>buf.
             let p2 = p1\<lparr>cached_write := write + 1\<rparr>;
                 (ws, slot) = slot_signal (rb_cslot sh)
             in Inr (None, ws,
                  sh\<lparr>rb_buffer := buf, rb_write := cached_write p2, rb_cslot := slot\<rparr>, p2)))"

definition saturating_sub :: "usize \<Rightarrow> usize \<Rightarrow> usize" where
  "saturating_sub a b = (if b \<le> a then a - b else 0)"

text \<open>\<open>ptr::copy_nonoverlapping\<close> into the buffer, with the bounds it must respect.\<close>

definition copy_in :: "'a option list \<Rightarrow> nat \<Rightarrow> 'a list \<Rightarrow> 'a option list res" where
  "copy_in buf off xs =
     (if off + length xs \<le> length buf
      then Inr (take off buf @ map Some xs @ drop (off + length xs) buf)
      else Inl OutOfBounds)"

text \<open>The second half of \<open>try_push_slice\<close>, once \<open>available\<close> is known: copy, publish, signal.\<close>

definition push_slice_commit ::
  "'a list \<Rightarrow> usize \<Rightarrow> 'a ring_shared \<Rightarrow> half \<Rightarrow> (nat \<times> waker list \<times> 'a ring_shared \<times> half) res" where
  "push_slice_commit items available sh p1 =
     (let write = cached_write p1;
          to_push = min (length items) (unat available);
          write_idx = write AND rb_mask sh;
          contiguous = min (unat (rb_capacity sh - write_idx)) to_push
      in rbind (copy_in (rb_buffer sh) (unat write_idx) (take contiguous items)) (\<lambda>buf1.
         rbind (if contiguous < to_push
                then copy_in buf1 0 (take (to_push - contiguous) (drop contiguous items))
                else Inr buf1) (\<lambda>buf2.
           let p2 = p1\<lparr>cached_write := write + of_nat to_push\<rparr>;
               (ws, slot) = slot_signal (rb_cslot sh)
           in Inr (to_push, ws,
                sh\<lparr>rb_buffer := buf2, rb_write := cached_write p2, rb_cslot := slot\<rparr>, p2))))"

definition try_push_slice ::
  "'a list \<Rightarrow> 'a ring_shared \<Rightarrow> half \<Rightarrow> (nat \<times> waker list \<times> 'a ring_shared \<times> half) res" where
  "try_push_slice items sh p =
     (if items = [] then Inr (0, [], sh, p)
      else
        (let write = cached_write p;
             available = saturating_sub (rb_capacity sh) (write - cached_read p)
         in if available = 0 then
              (let p1 = p\<lparr>cached_read := rb_read sh\<rparr>;
                   available = saturating_sub (rb_capacity sh) (write - cached_read p1)
               in if available = 0 then Inr (0, [], sh, p1)
                  else push_slice_commit items available sh p1)
            else push_slice_commit items available sh p))"

definition free_count :: "'a ring_shared \<Rightarrow> half \<Rightarrow> usize \<times> half" where
  "free_count sh p =
     (let p1 = p\<lparr>cached_read := rb_read sh\<rparr> in
      (rb_capacity sh - (cached_write p1 - cached_read p1), p1))"

definition producer_is_empty :: "'a ring_shared \<Rightarrow> half \<Rightarrow> bool \<times> half" where
  "producer_is_empty sh p =
     (let p1 = p\<lparr>cached_read := rb_read sh\<rparr> in (cached_write p1 = cached_read p1, p1))"

definition producer_is_full :: "'a ring_shared \<Rightarrow> half \<Rightarrow> bool \<times> half" where
  "producer_is_full sh p = (let (n, p1) = free_count sh p in (n = 0, p1))"

section \<open>Consumer\<close>

definition try_pop_inner ::
  "bool \<Rightarrow> 'a ring_shared \<Rightarrow> half \<Rightarrow> ('a option \<times> waker list \<times> 'a ring_shared \<times> half) res" where
  "try_pop_inner signal sh c =
     (let read = cached_read c;
          looks_empty = (read = cached_write c);
          c1 = (if looks_empty then c\<lparr>cached_write := rb_write sh\<rparr> else c)
      in if looks_empty \<and> read = cached_write c1 then Inr (None, [], sh, c1)
         else
           rbind (slot_take (rb_buffer sh) (unat (read AND rb_mask sh))) (\<lambda>(value, buf).
             let c2 = c1\<lparr>cached_read := read + 1\<rparr>;
                 (ws, slot) = (if signal then slot_signal (rb_pslot sh) else ([], rb_pslot sh))
             in Inr (Some value, ws,
                  sh\<lparr>rb_buffer := buf, rb_read := cached_read c2, rb_pslot := slot\<rparr>, c2)))"

definition try_pop ::
  "'a ring_shared \<Rightarrow> half \<Rightarrow> ('a option \<times> waker list \<times> 'a ring_shared \<times> half) res" where
  "try_pop sh c = try_pop_inner True sh c"

text \<open>\<open>ptr::copy_nonoverlapping\<close> out of the buffer; the values move to the caller.\<close>

definition copy_out :: "'a option list \<Rightarrow> nat \<Rightarrow> nat \<Rightarrow> ('a list \<times> 'a option list) res" where
  "copy_out buf off k =
     (if off + k \<le> length buf then
        (if list_all (\<lambda>x. x \<noteq> None) (take k (drop off buf))
         then Inr (map the (take k (drop off buf)),
                   take off buf @ replicate k None @ drop (off + k) buf)
         else Inl UninitRead)
      else Inl OutOfBounds)"

text \<open>The second half of \<open>try_pop_slice\<close>: copy out, publish, signal.\<close>

definition pop_slice_commit ::
  "nat \<Rightarrow> usize \<Rightarrow> 'a ring_shared \<Rightarrow> half \<Rightarrow> ('a list \<times> waker list \<times> 'a ring_shared \<times> half) res" where
  "pop_slice_commit n available sh c1 =
     (let read = cached_read c1;
          to_pop = min n (unat available);
          read_idx = read AND rb_mask sh;
          contiguous = min (unat (rb_capacity sh - read_idx)) to_pop
      in rbind (copy_out (rb_buffer sh) (unat read_idx) contiguous) (\<lambda>(xs, buf1).
         rbind (if contiguous < to_pop then copy_out buf1 0 (to_pop - contiguous)
                else Inr ([], buf1)) (\<lambda>(ys, buf2).
           let c2 = c1\<lparr>cached_read := read + of_nat to_pop\<rparr>;
               (ws, slot) = slot_signal (rb_pslot sh)
           in Inr (xs @ ys, ws,
                sh\<lparr>rb_buffer := buf2, rb_read := cached_read c2, rb_pslot := slot\<rparr>, c2))))"

text \<open>
  The caller's slice is given by its length \<open>n\<close>; the result is the prefix of it that was filled
  (\<open>to_pop\<close> is its length).
\<close>

definition try_pop_slice ::
  "nat \<Rightarrow> 'a ring_shared \<Rightarrow> half \<Rightarrow> ('a list \<times> waker list \<times> 'a ring_shared \<times> half) res" where
  "try_pop_slice n sh c =
     (if n = 0 then Inr ([], [], sh, c)
      else
        (let read = cached_read c;
             available = cached_write c - read
         in if available = 0 then
              (let c1 = c\<lparr>cached_write := rb_write sh\<rparr>;
                   available = cached_write c1 - read
               in if available = 0 then Inr ([], [], sh, c1)
                  else pop_slice_commit n available sh c1)
            else pop_slice_commit n available sh c))"

definition available_count :: "'a ring_shared \<Rightarrow> half \<Rightarrow> usize \<times> half" where
  "available_count sh c =
     (let c1 = c\<lparr>cached_write := rb_write sh\<rparr> in (cached_write c1 - cached_read c1, c1))"

definition consumer_is_empty :: "'a ring_shared \<Rightarrow> half \<Rightarrow> bool \<times> half" where
  "consumer_is_empty sh c = (let (n, c1) = available_count sh c in (n = 0, c1))"

definition consumer_is_full :: "'a ring_shared \<Rightarrow> half \<Rightarrow> bool \<times> half" where
  "consumer_is_full sh c =
     (let c1 = c\<lparr>cached_write := rb_write sh\<rparr> in
      (cached_write c1 - cached_read c1 \<ge> rb_capacity sh, c1))"

section \<open>Futures\<close>

text \<open>A \<open>PushFuture\<close> is its pending value; \<open>push\<close> tries once before it makes one.\<close>

definition push_start ::
  "'a \<Rightarrow> 'a ring_shared \<Rightarrow> half \<Rightarrow> ('a option \<times> waker list \<times> 'a ring_shared \<times> half) res" where
  "push_start value sh p = try_push value sh p"

definition push_poll ::
  "'a option \<Rightarrow> waker \<Rightarrow> 'a ring_shared \<Rightarrow> half
   \<Rightarrow> (unit poll \<times> 'a option \<times> waker list \<times> 'a ring_shared \<times> half) res" where
  "push_poll value waker sh p =
     (case value of
        None \<Rightarrow> Inr (Ready (), None, [], sh, p)
      | Some x \<Rightarrow>
          rbind (try_push x sh p) (\<lambda>(r, ws, sh1, p1).
            case r of
              None \<Rightarrow> Inr (Ready (), None, ws, sh1, p1)
            | Some v \<Rightarrow>
                rbind (slot_arm waker (rb_pslot sh1)) (\<lambda>(ws1, slot).
                rbind (try_push v (sh1\<lparr>rb_pslot := slot\<rparr>) p1) (\<lambda>(r2, ws2, sh2, p2).
                  case r2 of
                    None \<Rightarrow> Inr (Ready (), None, ws @ ws1 @ ws2,
                              sh2\<lparr>rb_pslot := slot_disarm (rb_pslot sh2)\<rparr>, p2)
                  | Some v2 \<Rightarrow> Inr (Pending, Some v2, ws @ ws1 @ ws2, sh2, p2)))))"

definition pop_start ::
  "'a ring_shared \<Rightarrow> half \<Rightarrow> ('a option \<times> waker list \<times> 'a ring_shared \<times> half) res" where
  "pop_start sh c = try_pop sh c"

definition pop_poll ::
  "waker \<Rightarrow> 'a ring_shared \<Rightarrow> half \<Rightarrow> ('a poll \<times> waker list \<times> 'a ring_shared \<times> half) res" where
  "pop_poll waker sh c =
     rbind (try_pop sh c) (\<lambda>(r, ws, sh1, c1).
       case r of
         Some v \<Rightarrow> Inr (Ready v, ws, sh1, c1)
       | None \<Rightarrow>
           rbind (slot_arm waker (rb_cslot sh1)) (\<lambda>(ws1, slot).
           rbind (try_pop (sh1\<lparr>rb_cslot := slot\<rparr>) c1) (\<lambda>(r2, ws2, sh2, c2).
             case r2 of
               Some v \<Rightarrow> Inr (Ready v, ws @ ws1 @ ws2, sh2\<lparr>rb_cslot := slot_disarm (rb_cslot sh2)\<rparr>, c2)
             | None \<Rightarrow> Inr (Pending, ws @ ws1 @ ws2, sh2, c2))))"

text \<open>
  A slice future: the whole slice, how much of it is done, and the caller's progress counter
  (\<open>progress: Option<&mut usize>\<close>).
\<close>

record 'a push_slice_fut =
  psf_items :: "'a list"
  psf_pushed :: nat
  psf_progress :: "nat option"

definition push_slice_start ::
  "'a list \<Rightarrow> 'a ring_shared \<Rightarrow> half
   \<Rightarrow> (nat poll \<times> 'a push_slice_fut \<times> waker list \<times> 'a ring_shared \<times> half) res" where
  "push_slice_start items sh p =
     (if items = [] then
        Inr (Ready 0, \<lparr>psf_items = items, psf_pushed = 0, psf_progress = Some 0\<rparr>, [], sh, p)
      else
        rbind (try_push_slice items sh p) (\<lambda>(n, ws, sh1, p1).
          Inr (if n = length items then Ready n else Pending,
               \<lparr>psf_items = items, psf_pushed = n, psf_progress = Some n\<rparr>, ws, sh1, p1)))"

definition push_slice_poll ::
  "'a push_slice_fut \<Rightarrow> waker \<Rightarrow> 'a ring_shared \<Rightarrow> half
   \<Rightarrow> (unit poll \<times> 'a push_slice_fut \<times> waker list \<times> 'a ring_shared \<times> half) res" where
  "push_slice_poll fut waker sh p =
     rbind (try_push_slice (drop (psf_pushed fut) (psf_items fut)) sh p) (\<lambda>(n1, ws1, sh1, p1).
       let fut1 = (if n1 > 0 then fut\<lparr>psf_pushed := psf_pushed fut + n1\<rparr> else fut) in
       if n1 > 0 \<and> psf_pushed fut1 = length (psf_items fut1) then Inr (Ready (), fut1, ws1, sh1, p1)
       else
         (let fut2 = fut1\<lparr>psf_progress := map_option (\<lambda>_. psf_pushed fut1) (psf_progress fut1)\<rparr> in
          rbind (slot_arm waker (rb_pslot sh1)) (\<lambda>(ws2, slot).
          rbind (try_push_slice (drop (psf_pushed fut2) (psf_items fut2)) (sh1\<lparr>rb_pslot := slot\<rparr>) p1)
            (\<lambda>(n2, ws3, sh2, p2).
             let fut3 = (if n2 > 0 then fut2\<lparr>psf_pushed := psf_pushed fut2 + n2\<rparr> else fut2) in
             if n2 > 0 \<and> psf_pushed fut3 = length (psf_items fut3)
             then Inr (Ready (), fut3, ws1 @ ws2 @ ws3,
                    sh2\<lparr>rb_pslot := slot_disarm (rb_pslot sh2)\<rparr>, p2)
             else Inr (Pending,
                    fut3\<lparr>psf_progress := map_option (\<lambda>_. psf_pushed fut3) (psf_progress fut3)\<rparr>,
                    ws1 @ ws2 @ ws3, sh2, p2)))))"

record 'a pop_slice_fut =
  qsf_len :: nat
  qsf_popped :: "'a list"
  qsf_progress :: "nat option"

text \<open>\<open>qsf_popped\<close> is the filled prefix of the caller's slice of length \<open>qsf_len\<close>.\<close>

definition pop_slice_start ::
  "nat \<Rightarrow> 'a ring_shared \<Rightarrow> half
   \<Rightarrow> (nat poll \<times> 'a pop_slice_fut \<times> waker list \<times> 'a ring_shared \<times> half) res" where
  "pop_slice_start n sh c =
     (if n = 0 then
        Inr (Ready 0, \<lparr>qsf_len = n, qsf_popped = [], qsf_progress = Some 0\<rparr>, [], sh, c)
      else
        rbind (try_pop_slice n sh c) (\<lambda>(xs, ws, sh1, c1).
          Inr (if length xs = n then Ready n else Pending,
               \<lparr>qsf_len = n, qsf_popped = xs, qsf_progress = Some (length xs)\<rparr>, ws, sh1, c1)))"

definition pop_slice_poll ::
  "'a pop_slice_fut \<Rightarrow> waker \<Rightarrow> 'a ring_shared \<Rightarrow> half
   \<Rightarrow> (unit poll \<times> 'a pop_slice_fut \<times> waker list \<times> 'a ring_shared \<times> half) res" where
  "pop_slice_poll fut waker sh c =
     rbind (try_pop_slice (qsf_len fut - length (qsf_popped fut)) sh c) (\<lambda>(xs1, ws1, sh1, c1).
       let fut1 = (if length xs1 > 0 then fut\<lparr>qsf_popped := qsf_popped fut @ xs1\<rparr> else fut) in
       if length xs1 > 0 \<and> length (qsf_popped fut1) = qsf_len fut1 then Inr (Ready (), fut1, ws1, sh1, c1)
       else
         (let fut2 = fut1\<lparr>qsf_progress := map_option (\<lambda>_. length (qsf_popped fut1)) (qsf_progress fut1)\<rparr> in
          rbind (slot_arm waker (rb_cslot sh1)) (\<lambda>(ws2, slot).
          rbind (try_pop_slice (qsf_len fut2 - length (qsf_popped fut2)) (sh1\<lparr>rb_cslot := slot\<rparr>) c1)
            (\<lambda>(xs2, ws3, sh2, c2).
             let fut3 = (if length xs2 > 0 then fut2\<lparr>qsf_popped := qsf_popped fut2 @ xs2\<rparr> else fut2) in
             if length xs2 > 0 \<and> length (qsf_popped fut3) = qsf_len fut3
             then Inr (Ready (), fut3, ws1 @ ws2 @ ws3,
                    sh2\<lparr>rb_cslot := slot_disarm (rb_cslot sh2)\<rparr>, c2)
             else Inr (Pending,
                    fut3\<lparr>qsf_progress := map_option (\<lambda>_. length (qsf_popped fut3)) (qsf_progress fut3)\<rparr>,
                    ws1 @ ws2 @ ws3, sh2, c2)))))"

section \<open>Words as counters\<close>

lemma unat_of_nat_eq: "n < 2 ^ 64 \<Longrightarrow> unat (of_nat n :: usize) = n"
  by (simp add: unat_of_nat)

lemma unat_of_nat_diff:
  "a \<le> b \<Longrightarrow> b - a < 2 ^ 64 \<Longrightarrow> unat (of_nat b - of_nat a :: usize) = b - a"
  by (simp add: of_nat_diff [symmetric] unat_of_nat_eq del: of_nat_diff)

lemma unat_masked:
  assumes "k \<le> 64"
  shows "unat ((of_nat i :: usize) AND (of_nat (2 ^ k) - 1)) = i mod 2 ^ k"
proof -
  have "(of_nat i :: usize) AND (of_nat (2 ^ k) - 1) = take_bit k (of_nat i)"
    by (simp add: take_bit_eq_mask mask_eq_exp_minus_1)
  moreover have "take_bit k (of_nat i :: usize) = of_nat (take_bit k i)"
    by (simp add: take_bit_of_nat)
  moreover have "take_bit k i < 2 ^ 64"
    using assms power_increasing [of k 64 "2::nat"]
    by (intro less_le_trans [OF take_bit_nat_less_exp]) simp
  ultimately show ?thesis by (simp add: unat_of_nat_eq take_bit_eq_mod)
qed

lemma of_nat_le_iff: "n < 2 ^ 64 \<Longrightarrow> m < 2 ^ 64 \<Longrightarrow> ((of_nat m :: usize) \<le> of_nat n) = (m \<le> n)"
  by (simp add: word_le_nat_alt unat_of_nat_eq)

section \<open>Bulk copies\<close>

text \<open>A bulk copy is a run of single writes at consecutive slots of the ring.\<close>

fun ring_fill :: "nat \<Rightarrow> 'a option list \<Rightarrow> nat \<Rightarrow> 'a list \<Rightarrow> 'a option list" where
  "ring_fill n buf t [] = buf"
| "ring_fill n buf t (y # ys) = ring_fill n (buf[t := Some y]) (next_idx n t) ys"

lemma ring_fill_length [simp]: "length (ring_fill n buf t ys) = length buf"
  by (induction ys arbitrary: buf t) auto

lemma ring_fill_append:
  "t < n \<Longrightarrow> ring_fill n buf t (xs @ ys) = ring_fill n (ring_fill n buf t xs) ((t + length xs) mod n) ys"
  by (induction xs arbitrary: buf t) (simp_all add: next_idx_mod mod_add_left_eq)

lemma ring_rep_fill:
  "ring_rep n buf h xs \<Longrightarrow> length xs + length ys \<le> n \<Longrightarrow>
   ring_rep n (ring_fill n buf ((h + length xs) mod n) ys) h (xs @ ys)"
proof (induction ys arbitrary: buf xs)
  case (Cons y ys)
  have "0 < n" using Cons.prems by simp
  have rep: "ring_rep n (buf[(h + length xs) mod n := Some y]) h (xs @ [y])"
    using Cons.prems by (intro ring_rep_push_back) auto
  have "next_idx n ((h + length xs) mod n) = (h + length (xs @ [y])) mod n"
    using \<open>0 < n\<close> by (simp add: next_idx_mod mod_Suc_eq)
  then show ?case using Cons.IH [OF rep] Cons.prems by simp
qed simp

lemma copy_in_fill:
  "t + length ys \<le> length buf \<Longrightarrow> copy_in buf t ys = Inr (ring_fill (length buf) buf t ys)"
proof (induction ys arbitrary: buf t)
  case (Cons y ys)
  have "copy_in (buf[t := Some y]) (Suc t) ys = copy_in buf t (y # ys)"
    using Cons.prems by (simp add: copy_in_def take_Suc_conv_app_nth)
  moreover have "ring_fill (length buf) (buf[t := Some y]) (next_idx (length buf) t) ys =
      ring_fill (length buf) (buf[t := Some y]) (Suc t) ys"
    using Cons.prems by (cases ys) (auto simp: next_idx_def)
  ultimately show ?case using Cons.IH [of "Suc t" "buf[t := Some y]"] Cons.prems by simp
qed (simp add: copy_in_def)

lemma drain_ring_part:
  "ring_rep n buf h (xs @ ys) \<Longrightarrow> h < n \<Longrightarrow>
   \<exists>buf'. drain_ring n (length xs) h buf = Inr (xs, buf') \<and> ring_rep n buf' ((h + length xs) mod n) ys"
proof (induction xs arbitrary: buf h)
  case (Cons x xs)
  have rep: "ring_rep n buf h (x # (xs @ ys))" using Cons.prems by simp
  note pop = ring_rep_pop_front [OF rep]
  obtain buf' where "drain_ring n (length xs) (next_idx n h) (buf[h := None]) = Inr (xs, buf')"
    "ring_rep n buf' ((next_idx n h + length xs) mod n) ys"
    using Cons.IH [OF pop(2)] Cons.prems by auto
  moreover have "(next_idx n h + length xs) mod n = (h + length (x # xs)) mod n"
    using Cons.prems by (simp add: next_idx_mod mod_add_left_eq)
  moreover have "slot_take buf h = Inr (x, buf[h := None])"
    using pop(1) ring_rep_head [OF rep] by (simp add: slot_take_ok)
  ultimately show ?case by simp
qed simp

lemma drain_ring_add:
  "t < n \<Longrightarrow> drain_ring n (a + b) t buf =
   rbind (drain_ring n a t buf) (\<lambda>(xs, buf1).
   rbind (drain_ring n b ((t + a) mod n) buf1) (\<lambda>(ys, buf2). Inr (xs @ ys, buf2)))"
proof (induction a arbitrary: t buf)
  case 0
  then show ?case by (cases "drain_ring n b t buf") auto
next
  case (Suc a)
  have "(next_idx n t + a) mod n = (t + Suc a) mod n"
    using Suc.prems by (simp add: next_idx_mod mod_add_left_eq)
  then show ?case
    using Suc.IH [of "next_idx n t"] Suc.prems
    by (simp add: rbind_assoc split_def)
qed

lemma copy_out_drain:
  "t + k \<le> length buf \<Longrightarrow> drain_ring (length buf) k t buf = Inr r \<Longrightarrow> copy_out buf t k = Inr r"
proof (induction k arbitrary: buf t r)
  case (Suc k)
  obtain x buf1 where x: "slot_take buf t = Inr (x, buf1)"
    using Suc.prems(2) by (auto simp: rbind_Inr_iff)
  have bx: "buf ! t = Some x" "buf1 = buf[t := None]" "t < length buf"
    using x by (auto simp: slot_take_def split: if_splits option.splits)
  obtain xs buf2 where r: "drain_ring (length buf) k (next_idx (length buf) t) buf1 = Inr (xs, buf2)"
    "r = (x # xs, buf2)"
    using Suc.prems(2) x by (auto simp: rbind_Inr_iff)
  have "drain_ring (length buf) k (Suc t) buf1 = Inr (xs, buf2)"
    using r(1) Suc.prems(1) by (cases k) (auto simp: next_idx_def)
  then have "copy_out buf1 (Suc t) k = Inr (xs, buf2)"
    using Suc.IH [of "Suc t" buf1] Suc.prems(1) bx by simp
  moreover have "take (Suc k) (drop t buf) = Some x # take k (drop (Suc t) buf)"
    using bx by (simp add: Cons_nth_drop_Suc [symmetric])
  ultimately show ?case
    using bx r(2) Suc.prems(1)
    by (auto simp: copy_out_def take_Suc_conv_app_nth split: if_splits)
qed (simp add: copy_out_def)

section \<open>Representation\<close>

text \<open>
  The counters behind the wrapping indices: \<open>R\<close> values read and \<open>W\<close> written in total, the
  producer's copy \<open>pr\<close> of \<open>R\<close> and the consumer's copy \<open>cw\<close> of \<open>W\<close>, each possibly behind, and the
  contents \<open>xs\<close>. The capacity is \<open>2 ^ k\<close>.
\<close>

definition ring_view ::
  "nat \<Rightarrow> 'a ring_shared \<Rightarrow> half \<Rightarrow> half \<Rightarrow> nat \<Rightarrow> nat \<Rightarrow> nat \<Rightarrow> nat \<Rightarrow> 'a list \<Rightarrow> bool" where
  "ring_view k sh p c R W pr cw xs \<longleftrightarrow>
     k < 64 \<and> rb_capacity sh = of_nat (2 ^ k) \<and> rb_mask sh = of_nat (2 ^ k) - 1 \<and>
     rb_write sh = of_nat W \<and> cached_write p = of_nat W \<and> cached_read p = of_nat pr \<and>
     rb_read sh = of_nat R \<and> cached_read c = of_nat R \<and> cached_write c = of_nat cw \<and>
     pr \<le> R \<and> R \<le> cw \<and> cw \<le> W \<and> W \<le> pr + 2 ^ k \<and>
     ring_rep (2 ^ k) (rb_buffer sh) (R mod 2 ^ k) xs \<and> length xs = W - R \<and>
     slot_ok (rb_pslot sh) \<and> slot_ok (rb_cslot sh)"

definition ring_inv :: "nat \<Rightarrow> 'a ring_shared \<Rightarrow> half \<Rightarrow> half \<Rightarrow> 'a list \<Rightarrow> bool" where
  "ring_inv k sh p c xs \<longleftrightarrow> (\<exists>R W pr cw. ring_view k sh p c R W pr cw xs)"

lemma ring_invI: "ring_view k sh p c R W pr cw xs \<Longrightarrow> ring_inv k sh p c xs"
  unfolding ring_inv_def by blast

lemma ring_viewD:
  assumes "ring_view k sh p c R W pr cw xs"
  shows "k < 64" "rb_capacity sh = of_nat (2 ^ k)" "rb_mask sh = of_nat (2 ^ k) - 1"
    "rb_write sh = of_nat W" "cached_write p = of_nat W" "cached_read p = of_nat pr"
    "rb_read sh = of_nat R" "cached_read c = of_nat R" "cached_write c = of_nat cw"
    "pr \<le> R" "R \<le> cw" "cw \<le> W" "W \<le> pr + 2 ^ k"
    "ring_rep (2 ^ k) (rb_buffer sh) (R mod 2 ^ k) xs" "length xs = W - R"
    "slot_ok (rb_pslot sh)" "slot_ok (rb_cslot sh)"
  using assms by (simp_all only: ring_view_def)

lemma pow_less_word: "k < 64 \<Longrightarrow> (2::nat) ^ k < 2 ^ 64"
  by (rule power_strict_increasing) auto

lemma ring_sub:
  assumes "k < 64" "a \<le> b" "b \<le> a + 2 ^ k"
  shows "unat (of_nat b - of_nat a :: usize) = b - a"
  using assms pow_less_word [OF assms(1)] by (intro unat_of_nat_diff) auto

lemma ring_full:
  assumes "k < 64" "a \<le> b" "b \<le> a + 2 ^ k"
  shows "(of_nat (2 ^ k) \<le> (of_nat b - of_nat a :: usize)) \<longleftrightarrow> b = a + 2 ^ k"
  using assms ring_sub [OF assms] pow_less_word [OF assms(1)]
  by (auto simp: word_le_nat_alt unat_of_nat_eq simp del: of_nat_power)

lemma ring_zero: "k < 64 \<Longrightarrow> a \<le> b \<Longrightarrow> b \<le> a + 2 ^ k \<Longrightarrow> ((of_nat b - of_nat a :: usize) = 0) = (b = a)"
  using ring_sub [of k a b] by (metis diff_is_0_eq eq_iff_diff_eq_0 le_antisym unat_0)

lemma ring_eq: "k < 64 \<Longrightarrow> a \<le> b \<Longrightarrow> b \<le> a + 2 ^ k \<Longrightarrow> ((of_nat a :: usize) = of_nat b) = (a = b)"
  using ring_zero [of k a b] by auto

text \<open>Refreshing a private copy changes nothing else.\<close>

lemma ring_refresh_read:
  "ring_view k sh p c R W pr cw xs \<Longrightarrow> ring_view k sh (p\<lparr>cached_read := rb_read sh\<rparr>) c R W R cw xs"
  by (auto simp: ring_view_def)

lemma ring_refresh_write:
  "ring_view k sh p c R W pr cw xs \<Longrightarrow> ring_view k sh p (c\<lparr>cached_write := rb_write sh\<rparr>) R W pr W xs"
  by (auto simp: ring_view_def)

lemma ring_slots:
  "ring_view k sh p c R W pr cw xs \<Longrightarrow> slot_ok s \<Longrightarrow> ring_view k (sh\<lparr>rb_pslot := s\<rparr>) p c R W pr cw xs"
  "ring_view k sh p c R W pr cw xs \<Longrightarrow> slot_ok s \<Longrightarrow> ring_view k (sh\<lparr>rb_cslot := s\<rparr>) p c R W pr cw xs"
  by (simp_all add: ring_view_def)

lemma ring_view_tail:
  assumes "ring_view k sh p c R W pr cw xs"
  shows "(R mod 2 ^ k + length xs) mod 2 ^ k = W mod 2 ^ k"
proof -
  have "R + length xs = W" using ring_viewD [OF assms] by simp
  then show ?thesis by (simp add: mod_add_left_eq)
qed

text \<open>Writing a run of values behind the tail, and publishing it.\<close>

lemma ring_publish:
  assumes view: "ring_view k sh p c R W pr cw xs" and room: "W + length ys \<le> pr + 2 ^ k"
    and slot: "slot_ok s" and buf: "buf = ring_fill (2 ^ k) (rb_buffer sh) (W mod 2 ^ k) ys"
    and idx: "w = of_nat (W + length ys)"
  shows "ring_view k (sh\<lparr>rb_buffer := buf, rb_write := w, rb_cslot := s\<rparr>)
    (p\<lparr>cached_write := w\<rparr>) c R (W + length ys) pr cw (xs @ ys)"
proof -
  note V = ring_viewD [OF view]
  have "length xs + length ys \<le> 2 ^ k" using V(10-13,15) room by simp
  then have "ring_rep (2 ^ k) buf (R mod 2 ^ k) (xs @ ys)"
    using ring_rep_fill [OF V(14)] ring_view_tail [OF view] buf by simp
  then show ?thesis using V slot room idx by (auto simp: ring_view_def)
qed

lemma try_push_wp:
  assumes "ring_inv k sh p c xs"
  shows "wp (try_push v sh p) (\<lambda>(r, ws, sh', p').
    if length xs < 2 ^ k
    then r = None \<and> ring_inv k sh' p' c (xs @ [v]) \<and> ws = fst (slot_signal (rb_cslot sh)) \<and>
         rb_pslot sh' = rb_pslot sh
    else r = Some v \<and> ws = [] \<and> sh' = sh \<and> ring_inv k sh p' c xs)"
proof -
  from assms obtain R W pr cw where view: "ring_view k sh p c R W pr cw xs"
    by (auto simp: ring_inv_def)
  note V = ring_viewD [OF view]
  let ?ws = "fst (slot_signal (rb_cslot sh))" and ?s = "snd (slot_signal (rb_cslot sh))"
  have buf: "length (rb_buffer sh) = 2 ^ k" using V(14) by (simp add: ring_rep_length)
  have idx: "unat (cached_write p AND rb_mask sh) = W mod 2 ^ k"
    using V unat_masked [of k W] by simp
  have looks: "(rb_capacity sh \<le> cached_write p - cached_read p) = (W = pr + 2 ^ k)"
    using ring_full [of k pr W] V by simp
  have full: "(rb_capacity sh \<le> cached_write p - rb_read sh) = (W = R + 2 ^ k)"
    using ring_full [of k R W] V by simp
  have len: "length xs < 2 ^ k \<longleftrightarrow> W < R + 2 ^ k" "W \<le> R + 2 ^ k" using V by auto
  have pub: "ring_inv k (sh\<lparr>rb_buffer := (rb_buffer sh)[W mod 2 ^ k := Some v],
        rb_write := cached_write p + 1, rb_cslot := ?s\<rparr>) (q\<lparr>cached_write := cached_write p + 1\<rparr>) c (xs @ [v])"
    if "ring_view k sh q c R W qr cw xs" "W < qr + 2 ^ k" for q qr
    using ring_publish [OF that(1), of "[v]" ?s _ "cached_write p + 1"] that V
      slot_signal_slot_ok [OF V(17)] unfolding ring_inv_def by (auto simp: add.commute)
  show ?thesis
  proof (cases "W = pr + 2 ^ k")
    case False
    then have "W < R + 2 ^ k" "W < pr + 2 ^ k" using V by auto
    then show ?thesis
      using pub [OF view] len looks buf idx False
      by (simp add: try_push_def slot_write_ok split_def Let_def)
  next
    case True
    note view' = ring_refresh_read [OF view]
    show ?thesis
    proof (cases "W = R + 2 ^ k")
      case True
      with \<open>W = pr + 2 ^ k\<close> show ?thesis
        using view' len looks full by (auto simp: try_push_def ring_inv_def)
    next
      case False
      with \<open>W = pr + 2 ^ k\<close> show ?thesis
        using pub [OF view'] len looks full buf idx
        by (simp add: try_push_def slot_write_ok split_def Let_def)
    qed
  qed
qed

text \<open>A slice push is the ring fill of the prefix that fits.\<close>

lemma copy_in_two:
  assumes buf: "length buf = n" and t: "t < n" and ys: "length ys \<le> n"
    and c: "c = min (n - t) (length ys)"
  shows "rbind (copy_in buf t (take c ys)) (\<lambda>b1.
      if c < length ys then copy_in b1 0 (drop c ys) else Inr b1) = Inr (ring_fill n buf t ys)"
proof -
  have first: "copy_in buf t (take c ys) = Inr (ring_fill n buf t (take c ys))"
    using copy_in_fill [of t "take c ys" buf] buf t c by auto
  show ?thesis
  proof (cases "c < length ys")
    case True
    then have "(t + c) mod n = 0" "length (take c ys) = c" using c t by auto
    then have "ring_fill n buf t ys = ring_fill n (ring_fill n buf t (take c ys)) 0 (drop c ys)"
      using ring_fill_append [OF t, of buf "take c ys" "drop c ys"] by simp
    moreover have "copy_in (ring_fill n buf t (take c ys)) 0 (drop c ys) =
        Inr (ring_fill n (ring_fill n buf t (take c ys)) 0 (drop c ys))"
      using copy_in_fill [of 0 "drop c ys" "ring_fill n buf t (take c ys)"] buf ys by simp
    ultimately show ?thesis using first True by simp
  next
    case False
    then have "take c ys = ys" by simp
    then show ?thesis using first False by simp
  qed
qed

lemma saturating_sub_nat: "unat (saturating_sub a b) = unat a - unat b"
  by (simp add: saturating_sub_def unat_sub_if' word_le_nat_alt)

lemma ring_view_index:
  assumes "ring_view k sh p c R W pr cw xs"
  shows "unat (rb_capacity sh) = 2 ^ k" "length (rb_buffer sh) = 2 ^ k"
    and "unat (of_nat i AND rb_mask sh) = i mod 2 ^ k"
    and "unat (rb_capacity sh - (of_nat i AND rb_mask sh)) = 2 ^ k - i mod 2 ^ k"
proof -
  note V = ring_viewD [OF assms]
  show cap: "unat (rb_capacity sh) = 2 ^ k" using V(1,2) unat_of_nat_eq [OF pow_less_word] by simp
  show "length (rb_buffer sh) = 2 ^ k" using V(14) by (simp add: ring_rep_length)
  show idx: "unat (of_nat i AND rb_mask sh) = i mod 2 ^ k" using V unat_masked [of k i] by simp
  show "unat (rb_capacity sh - (of_nat i AND rb_mask sh)) = 2 ^ k - i mod 2 ^ k"
    using cap idx by (simp add: unat_sub_if')
qed

text \<open>What the private copies say, without looking at the shared index.\<close>

definition looks_full :: "'a ring_shared \<Rightarrow> half \<Rightarrow> bool" where
  "looks_full sh p \<longleftrightarrow> rb_capacity sh \<le> cached_write p - cached_read p"

definition looks_empty :: "half \<Rightarrow> bool" where
  "looks_empty c \<longleftrightarrow> cached_write c = cached_read c"

lemma ring_view_looks:
  "ring_view k sh p c R W pr cw xs \<Longrightarrow> looks_full sh p \<longleftrightarrow> W = pr + 2 ^ k"
  "ring_view k sh p c R W pr cw xs \<Longrightarrow> looks_empty c \<longleftrightarrow> cw = R"
  using ring_full [of k pr W] ring_eq [of k R cw]
  by (auto simp: ring_view_def looks_full_def looks_empty_def simp del: of_nat_power)

lemma push_slice_commit_wp:
  assumes view: "ring_view k sh p c R W pr cw xs" and av: "unat av = 2 ^ k - (W - pr)"
  shows "wp (push_slice_commit items av sh p) (\<lambda>(n, ws, sh', p'). n = min (length items) (unat av) \<and>
    ws = fst (slot_signal (rb_cslot sh)) \<and> rb_pslot sh' = rb_pslot sh \<and>
    (n < length items \<longrightarrow> looks_full sh' p') \<and> ring_inv k sh' p' c (xs @ take n items))"
proof -
  note V = ring_viewD [OF view] and I = ring_view_index [OF view]
  define t where "t = min (length items) (unat av)"
  define d where "d = min (2 ^ k - W mod 2 ^ k) t"
  let ?ys = "take t items" and ?s = "snd (slot_signal (rb_cslot sh))"
  have t: "t \<le> length items" "t \<le> 2 ^ k" "W + t \<le> pr + 2 ^ k" using av V(10-13) by (auto simp: t_def)
  have len: "length ?ys = t" using t by simp
  have parts: "take d ?ys = take d items" "drop d ?ys = take (t - d) (drop d items)"
    by (simp_all add: d_def drop_take)
  have "rbind (copy_in (rb_buffer sh) (W mod 2 ^ k) (take d items)) (\<lambda>b1.
      if d < t then copy_in b1 0 (take (t - d) (drop d items)) else Inr b1) =
      Inr (ring_fill (2 ^ k) (rb_buffer sh) (W mod 2 ^ k) ?ys)"
    using copy_in_two [OF I(2), of "W mod 2 ^ k" ?ys d] t(2) unfolding len parts
    by (simp add: d_def)
  then have "push_slice_commit items av sh p = Inr (t, fst (slot_signal (rb_cslot sh)),
      sh\<lparr>rb_buffer := ring_fill (2 ^ k) (rb_buffer sh) (W mod 2 ^ k) ?ys,
         rb_write := of_nat (W + t), rb_cslot := ?s\<rparr>, p\<lparr>cached_write := of_nat (W + t)\<rparr>)"
    unfolding push_slice_commit_def V(5) I Let_def t_def [symmetric] d_def [symmetric]
    by (simp add: split_def rbind_Inr_iff) (auto simp: rbind_def split: sum.splits)
  moreover have view': "ring_view k (sh\<lparr>rb_buffer := ring_fill (2 ^ k) (rb_buffer sh) (W mod 2 ^ k) ?ys,
      rb_write := of_nat (W + t), rb_cslot := ?s\<rparr>) (p\<lparr>cached_write := of_nat (W + t)\<rparr>) c
      R (W + t) pr cw (xs @ ?ys)"
    using ring_publish [OF view _ _ refl refl, of ?ys ?s] t len slot_signal_slot_ok [OF V(17)] by simp
  moreover have "t < length items \<Longrightarrow> W + t = pr + 2 ^ k" using av t V(10-13) by (auto simp: t_def)
  ultimately show ?thesis
    unfolding t_def [symmetric] using ring_view_looks(1) [OF view'] ring_invI [OF view'] by simp
qed

lemma try_push_slice_wp:
  assumes "ring_inv k sh p c xs"
  shows "wp (try_push_slice items sh p) (\<lambda>(n, ws, sh', p'). n \<le> length items \<and> n \<le> 2 ^ k - length xs \<and>
    ring_inv k sh' p' c (xs @ take n items) \<and> rb_pslot sh' = rb_pslot sh \<and>
    (items \<noteq> [] \<longrightarrow> length xs < 2 ^ k \<longrightarrow> 0 < n) \<and> (n < length items \<longrightarrow> looks_full sh' p') \<and>
    (looks_full sh p \<longrightarrow> n = min (length items) (2 ^ k - length xs)) \<and>
    ws = (if n = 0 then [] else fst (slot_signal (rb_cslot sh))) \<and> (n = 0 \<longrightarrow> sh' = sh))"
proof (cases "items = []")
  case True
  then show ?thesis using assms by (simp add: try_push_slice_def)
next
  case ne: False
  from assms obtain R W pr cw where view: "ring_view k sh p c R W pr cw xs"
    by (auto simp: ring_inv_def)
  note V = ring_viewD [OF view]
  note view' = ring_refresh_read [OF view]
  define a0 where "a0 = saturating_sub (rb_capacity sh) (cached_write p - cached_read p)"
  define a1 where "a1 = saturating_sub (rb_capacity sh) (cached_write p - rb_read sh)"
  have a: "unat a0 = 2 ^ k - (W - pr)" "unat a1 = 2 ^ k - (W - R)"
    using ring_sub [of k pr W] ring_sub [of k R W] V ring_view_index(1) [OF view]
    by (simp_all add: a0_def a1_def saturating_sub_nat)
  have zero: "a0 = 0 \<longleftrightarrow> W = pr + 2 ^ k" "a1 = 0 \<longleftrightarrow> W = R + 2 ^ k"
    using a V(10-13) by (auto simp: unat_eq_0 [symmetric])
  have eq: "try_push_slice items sh p =
      (if a0 = 0 then (if a1 = 0 then Inr (0, [], sh, p\<lparr>cached_read := rb_read sh\<rparr>)
         else push_slice_commit items a1 sh (p\<lparr>cached_read := rb_read sh\<rparr>))
       else push_slice_commit items a0 sh p)"
    using ne by (simp add: try_push_slice_def Let_def a0_def a1_def)
  have pos: "0 < length items" using ne by simp
  have lf: "looks_full sh p \<longleftrightarrow> a0 = 0" using ring_view_looks(1) [OF view] zero by simp
  consider "a0 \<noteq> 0" | "a0 = 0" "a1 \<noteq> 0" | "a0 = 0" "a1 = 0" by blast
  then show ?thesis
  proof cases
    case 1
    then have "0 < min (length items) (unat a0)" using pos by (simp add: unat_gt_0)
    with 1 show ?thesis
      unfolding eq using push_slice_commit_wp [OF view a(1), of items] a V(10-13,15) lf
      by (auto simp: min_def elim!: wp_mono split: if_splits)
  next
    case 2
    then have "0 < min (length items) (unat a1)" using pos by (simp add: unat_gt_0)
    with 2 show ?thesis
      unfolding eq using push_slice_commit_wp [OF view' a(2), of items] a V(10-13,15) lf
      by (auto simp: min_def elim!: wp_mono split: if_splits)
  next
    case 3
    then show ?thesis
      unfolding eq using ring_invI [OF view'] ring_view_looks(1) [OF view'] V(10-13,15) zero by auto
  qed
qed

lemma ring_inv_index_simps: "ring_inv k sh p c xs \<Longrightarrow> length xs \<le> 2 ^ k"
  by (auto simp: ring_inv_def ring_view_def)

text \<open>Taking a run of values at the head, and publishing it.\<close>

lemma ring_consume:
  assumes view: "ring_view k sh p c R W pr cw (ys @ zs)" and le: "R + length ys \<le> cw"
    and rep: "ring_rep (2 ^ k) buf ((R + length ys) mod 2 ^ k) zs"
    and slot: "slot_ok s" and idx: "r = of_nat (R + length ys)"
  shows "ring_view k (sh\<lparr>rb_buffer := buf, rb_read := r, rb_pslot := s\<rparr>)
    p (c\<lparr>cached_read := r\<rparr>) (R + length ys) W pr cw zs"
  using ring_viewD [OF view] assms(2-) by (auto simp: ring_view_def)

lemma try_pop_inner_wp:
  assumes "ring_inv k sh p c xs"
  shows "wp (try_pop_inner sg sh c) (\<lambda>(r, ws, sh', c'). rb_cslot sh' = rb_cslot sh \<and>
    (case xs of
       [] \<Rightarrow> r = None \<and> ws = [] \<and> sh' = sh \<and> ring_inv k sh p c' []
     | x # ys \<Rightarrow> r = Some x \<and> ws = (if sg then fst (slot_signal (rb_pslot sh)) else []) \<and>
         ring_inv k sh' p c' ys))"
proof -
  from assms obtain R W pr cw where view: "ring_view k sh p c R W pr cw xs"
    by (auto simp: ring_inv_def)
  note V = ring_viewD [OF view] and I = ring_view_index [OF view]
  let ?s = "if sg then slot_signal (rb_pslot sh) else ([], rb_pslot sh)"
  have bound: "cw \<le> R + 2 ^ k" "W \<le> R + 2 ^ k" using V(10-13) by auto
  have looks: "(cached_read c = cached_write c) = (R = cw)"
    using ring_eq [of k R cw] V bound by simp
  have empty: "(cached_read c = rb_write sh) = (R = W)"
    using ring_eq [of k R W] V bound by simp
  have take: "wp (rbind (slot_take (rb_buffer sh) (unat (cached_read c AND rb_mask sh))) (\<lambda>(value, buf).
      Inr (Some value, fst ?s, sh\<lparr>rb_buffer := buf, rb_read := cached_read c + 1, rb_pslot := snd ?s\<rparr>,
        d\<lparr>cached_read := cached_read c + 1\<rparr>)))
      (\<lambda>(r, ws, sh', c'). rb_cslot sh' = rb_cslot sh \<and> r = Some x \<and> ws = fst ?s \<and> ring_inv k sh' p c' ys)"
    if "ring_view k sh p d R W pr dw xs" "R < dw" "xs = x # ys" for d dw x ys
  proof -
    note rep = V(14) [unfolded that(3)]
    have "slot_take (rb_buffer sh) (unat (cached_read c AND rb_mask sh)) =
        Inr (x, (rb_buffer sh)[R mod 2 ^ k := None])"
      using ring_rep_pop_front(1) [OF rep] I(2,3) V(8) by (simp add: slot_take_ok)
    moreover have "ring_inv k (sh\<lparr>rb_buffer := (rb_buffer sh)[R mod 2 ^ k := None],
        rb_read := cached_read c + 1, rb_pslot := snd ?s\<rparr>) p (d\<lparr>cached_read := cached_read c + 1\<rparr>) ys"
    proof (rule ring_invI [OF ring_consume [where ys = "[x]"]])
      show "ring_rep (2 ^ k) ((rb_buffer sh)[R mod 2 ^ k := None]) ((R + length [x]) mod 2 ^ k) ys"
        using ring_rep_pop_front(2) [OF rep] by (simp add: next_idx_mod mod_Suc_eq)
      show "slot_ok (snd ?s)" using V(16) slot_signal_slot_ok by auto
      show "ring_view k sh p d R W pr dw ([x] @ ys)" using that by simp
    qed (use that V(8) in auto)
    ultimately show ?thesis by simp
  qed
  show ?thesis
  proof (cases "R = cw")
    case False
    then have "R < cw" "xs \<noteq> []" using V(10-13,15) by auto
    then obtain x ys where "xs = x # ys" by (cases xs) auto
    with take [OF view \<open>R < cw\<close> this] show ?thesis
      using looks False by (cases sg) (simp_all add: try_pop_inner_def split_def Let_def)
  next
    case True
    note view' = ring_refresh_write [OF view]
    show ?thesis
    proof (cases "R = W")
      case True
      then have "xs = []" using V(15) by simp
      with \<open>R = cw\<close> True show ?thesis
        using view' looks empty by (auto simp: try_pop_inner_def ring_inv_def)
    next
      case False
      then have "R < W" "xs \<noteq> []" using V(10-13,15) by auto
      then obtain x ys where "xs = x # ys" by (cases xs) auto
      with take [OF view' \<open>R < W\<close> this] show ?thesis
        using looks empty False \<open>R = cw\<close>
        by (cases sg) (simp_all add: try_pop_inner_def split_def Let_def)
    qed
  qed
qed

lemma copy_out_two:
  assumes rep: "ring_rep n buf t (xs @ zs)" and t: "t < n" and c: "c = min (n - t) (length xs)"
  shows "\<exists>buf'. rbind (copy_out buf t c) (\<lambda>(as, b1).
      rbind (if c < length xs then copy_out b1 0 (length xs - c) else Inr ([], b1)) (\<lambda>(bs, b2).
        Inr (as @ bs, b2))) = Inr (xs, buf') \<and> ring_rep n buf' ((t + length xs) mod n) zs"
proof -
  have len: "length buf = n" using rep by (simp add: ring_rep_length)
  obtain buf1 where d1: "drain_ring n (length (take c xs)) t buf = Inr (take c xs, buf1)"
    and rep1: "ring_rep n buf1 ((t + length (take c xs)) mod n) (drop c xs @ zs)"
    using drain_ring_part [of n buf t "take c xs" "drop c xs @ zs"] rep t
    by (metis append.assoc append_take_drop_id)
  have lc: "length (take c xs) = c" using c by simp
  have len1: "length buf1 = n" using rep1 by (simp add: ring_rep_length)
  have out1: "copy_out buf t c = Inr (take c xs, buf1)"
    using copy_out_drain [of t c buf] d1 lc len c t by simp
  show ?thesis
  proof (cases "c < length xs")
    case True
    then have tc: "(t + c) mod n = 0" using c t by auto
    obtain buf2 where d2: "drain_ring n (length (drop c xs)) 0 buf1 = Inr (drop c xs, buf2)"
      and rep2: "ring_rep n buf2 (length (drop c xs) mod n) zs"
      using drain_ring_part [of n buf1 0 "drop c xs" zs] rep1 t tc lc by auto
    have "length xs \<le> n" using rep by (simp add: ring_rep_def)
    then have "copy_out buf1 0 (length xs - c) = Inr (drop c xs, buf2)"
      using copy_out_drain [of 0 "length xs - c" buf1] d2 len1 by simp
    moreover have "length (drop c xs) mod n = (t + length xs) mod n"
    proof -
      have "t + length xs = (t + c) + length (drop c xs)" using True by simp
      then show ?thesis using tc by (metis mod_add_left_eq add_0)
    qed
    ultimately show ?thesis using out1 True rep2 by simp
  next
    case False
    then have "take c xs = xs" "c = length xs" using c by auto
    then show ?thesis using out1 False rep1 by simp
  qed
qed

lemma pop_slice_commit_wp:
  assumes view: "ring_view k sh p c R W pr cw xs" and av: "unat av = cw - R"
  shows "wp (pop_slice_commit n av sh c) (\<lambda>(ys, ws, sh', c'). ys = take (min n (unat av)) xs \<and>
    length ys = min n (unat av) \<and>
    ws = fst (slot_signal (rb_pslot sh)) \<and> rb_cslot sh' = rb_cslot sh \<and>
    (length ys < n \<longrightarrow> looks_empty c') \<and> ring_inv k sh' p c' (drop (length ys) xs))"
proof -
  note V = ring_viewD [OF view] and I = ring_view_index [OF view]
  define t where "t = min n (unat av)"
  define d where "d = min (2 ^ k - R mod 2 ^ k) t"
  let ?ys = "take t xs" and ?s = "snd (slot_signal (rb_pslot sh))"
  have t: "t \<le> length xs" "R + t \<le> cw" using av V(10-13,15) by (auto simp: t_def)
  have len: "length ?ys = t" using t by simp
  obtain buf' where cp: "rbind (copy_out (rb_buffer sh) (R mod 2 ^ k) d) (\<lambda>(as, b1).
      rbind (if d < t then copy_out b1 0 (t - d) else Inr ([], b1)) (\<lambda>(bs, b2).
        Inr (as @ bs, b2))) = Inr (?ys, buf')"
    and rep: "ring_rep (2 ^ k) buf' ((R mod 2 ^ k + t) mod 2 ^ k) (drop t xs)"
    using copy_out_two [of "2 ^ k" "rb_buffer sh" "R mod 2 ^ k" ?ys "drop t xs" d] V(14)
    unfolding len by (auto simp: d_def)
  have "pop_slice_commit n av sh c = Inr (?ys, fst (slot_signal (rb_pslot sh)),
      sh\<lparr>rb_buffer := buf', rb_read := of_nat (R + t), rb_pslot := ?s\<rparr>, c\<lparr>cached_read := of_nat (R + t)\<rparr>)"
  proof -
    obtain as b1 bs where "copy_out (rb_buffer sh) (R mod 2 ^ k) d = Inr (as, b1)"
      "(if d < t then copy_out b1 0 (t - d) else Inr ([], b1)) = Inr (bs, buf')" "as @ bs = ?ys"
      using cp by (auto simp only: rbind_Inr_iff split_paired_Ex prod.case sum.inject prod.inject)
    then show ?thesis
      unfolding pop_slice_commit_def V(8) I Let_def t_def [symmetric] d_def [symmetric]
      by (cases "d < t") (auto simp: split_def)
  qed
  moreover have "ring_view k (sh\<lparr>rb_buffer := buf', rb_read := of_nat (R + t), rb_pslot := ?s\<rparr>) p
      (c\<lparr>cached_read := of_nat (R + t)\<rparr>) (R + t) W pr cw (drop t xs)"
    using ring_consume [of k sh p c R W pr cw ?ys "drop t xs" buf' ?s] view t len rep
      slot_signal_slot_ok [OF V(16)] by (simp add: mod_add_left_eq)
  note ring_invI [OF this] ring_view_looks(2) [OF this]
  moreover have "t < n \<Longrightarrow> cw = R + t" using av t V(10-13) by (auto simp: t_def)
  ultimately show ?thesis unfolding t_def [symmetric] using len by simp
qed

lemma try_pop_slice_wp:
  assumes "ring_inv k sh p c xs"
  shows "wp (try_pop_slice n sh c) (\<lambda>(ys, ws, sh', c'). length ys \<le> n \<and> ys = take (length ys) xs \<and>
    ring_inv k sh' p c' (drop (length ys) xs) \<and> rb_cslot sh' = rb_cslot sh \<and>
    (0 < n \<longrightarrow> xs \<noteq> [] \<longrightarrow> ys \<noteq> []) \<and> (length ys < n \<longrightarrow> looks_empty c') \<and>
    (looks_empty c \<longrightarrow> length ys = min n (length xs)) \<and>
    ws = (if ys = [] then [] else fst (slot_signal (rb_pslot sh))) \<and> (ys = [] \<longrightarrow> sh' = sh))"
proof (cases "n = 0")
  case True
  then show ?thesis using assms by (simp add: try_pop_slice_def)
next
  case ne: False
  from assms obtain R W pr cw where view: "ring_view k sh p c R W pr cw xs"
    by (auto simp: ring_inv_def)
  note V = ring_viewD [OF view]
  note view' = ring_refresh_write [OF view]
  define a0 where "a0 = cached_write c - cached_read c"
  define a1 where "a1 = rb_write sh - cached_read c"
  have a: "unat a0 = cw - R" "unat a1 = W - R"
    using ring_sub [of k R cw] ring_sub [of k R W] V by (simp_all add: a0_def a1_def)
  have zero: "a0 = 0 \<longleftrightarrow> R = cw" "a1 = 0 \<longleftrightarrow> R = W"
    using a V(10-13) by (auto simp: unat_eq_0 [symmetric])
  have eq: "try_pop_slice n sh c =
      (if a0 = 0 then (if a1 = 0 then Inr ([], [], sh, c\<lparr>cached_write := rb_write sh\<rparr>)
         else pop_slice_commit n a1 sh (c\<lparr>cached_write := rb_write sh\<rparr>))
       else pop_slice_commit n a0 sh c)"
    using ne by (simp add: try_pop_slice_def Let_def a0_def a1_def)
  have le: "looks_empty c \<longleftrightarrow> a0 = 0" using ring_view_looks(2) [OF view] zero by auto
  consider "a0 \<noteq> 0" | "a0 = 0" "a1 \<noteq> 0" | "a0 = 0" "a1 = 0" by blast
  then show ?thesis
  proof cases
    case 1
    then show ?thesis
      unfolding eq using pop_slice_commit_wp [OF view a(1), of n] ne a V(10-13,15) zero le
      by (auto elim!: wp_mono)
  next
    case 2
    then show ?thesis
      unfolding eq using pop_slice_commit_wp [OF view' a(2), of n] ne a V(10-13,15) zero le
      by (auto elim!: wp_mono)
  next
    case 3
    then show ?thesis
      unfolding eq using ring_invI [OF view'] ring_view_looks(2) [OF view'] V(10-13,15) zero by auto
  qed
qed

section \<open>Construction, queries, destruction\<close>

lemma ring_new_wp:
  assumes "el_size el \<noteq> 0" "layout_for el (2 ^ k) (el_align el) = Inr ly" "alloc ly" "k < 64"
  shows "wp (ring_new alloc el (2 ^ k)) (\<lambda>sh. case ring_split sh of (sh', p, c) \<Rightarrow>
    ring_inv k sh' p c [] \<and> rb_layout sh' = ly)"
proof -
  have "is_power_of_two (2 ^ k)" by (auto simp: is_power_of_two_iff)
  moreover have "ring_view k
      \<lparr>rb_capacity = of_nat (2 ^ k), rb_mask = of_nat (2 ^ k) - 1, rb_buffer = replicate (2 ^ k) None,
       rb_layout = ly, rb_write = 0, rb_read = 0, rb_pslot = slot_new, rb_cslot = slot_new\<rparr>
      \<lparr>cached_read = 0, cached_write = 0\<rparr> \<lparr>cached_read = 0, cached_write = 0\<rparr> 0 0 0 0 []"
    using assms(4) by (simp add: ring_view_def)
  note ring_invI [OF this]
  ultimately show ?thesis using assms by (simp add: ring_new_def ring_split_def)
qed

lemma ring_new_bad_capacity:
  "\<not> is_power_of_two n \<Longrightarrow> \<exists>msg. ring_new alloc el n = Inl (Assertion msg)"
  by (simp add: ring_new_def rassert_def rbind_def)

lemma ring_drop_loop_ok:
  "ring_rep (2 ^ k) buf (R mod 2 ^ k) xs \<Longrightarrow> k < 64 \<Longrightarrow> length xs < 2 ^ 64 \<Longrightarrow>
   ring_drop_loop (of_nat (2 ^ k) - 1) (of_nat (R + length xs)) (of_nat R) buf = Inr xs"
proof (induction xs arbitrary: buf R)
  case Nil
  then show ?case by (simp add: ring_drop_loop.simps)
next
  case (Cons x xs)
  note pop = ring_rep_pop_front [OF Cons.prems(1)]
  have len: "length xs < 2 ^ k" "length buf = 2 ^ k"
    using Cons.prems(1) by (auto simp: ring_rep_def)
  have ne: "(of_nat R :: usize) \<noteq> of_nat (R + length (x # xs))"
  proof
    assume "(of_nat R :: usize) = of_nat (R + length (x # xs))"
    then have "unat (of_nat (R + length (x # xs)) - of_nat R :: usize) = 0" by simp
    then show False using unat_of_nat_diff [of R "R + length (x # xs)"] Cons.prems(3) by simp
  qed
  have "ring_rep (2 ^ k) (buf[R mod 2 ^ k := None]) (Suc R mod 2 ^ k) xs"
    using pop(2) by (simp add: next_idx_mod mod_Suc_eq)
  from Cons.IH [OF this Cons.prems(2)] Cons.prems(3)
  have IH: "ring_drop_loop (of_nat (2 ^ k) - 1) (of_nat (R + length (x # xs))) (of_nat R + 1)
      (buf[R mod 2 ^ k := None]) = Inr xs"
    by (simp add: add.commute)
  have "slot_take buf (unat ((of_nat R :: usize) AND (of_nat (2 ^ k) - 1))) =
      Inr (x, buf[R mod 2 ^ k := None])"
    using pop(1) len unat_masked [of k R] Cons.prems(2) by (simp add: slot_take_ok)
  then show ?case
    using ne IH by (subst ring_drop_loop.simps) simp
qed

lemma ring_drop_wp:
  assumes "ring_inv k sh p c xs"
  shows "ring_drop sh = Inr (xs, rb_layout sh)"
proof -
  from assms obtain R W pr cw where "ring_view k sh p c R W pr cw xs"
    by (auto simp: ring_inv_def)
  note V = ring_viewD [OF this]
  have "length xs \<le> 2 ^ k" using V(14) by (simp add: ring_rep_def)
  then have small: "length xs < 2 ^ 64" using pow_less_word [OF V(1)] by simp
  have W: "of_nat W = (of_nat (R + length xs) :: usize)" using V(10-13,15) by simp
  show ?thesis
    using ring_drop_loop_ok [OF V(14) V(1) small] V(3,4,7) unfolding ring_drop_def W by simp
qed

lemma free_count_ok:
  assumes "ring_inv k sh p c xs"
  shows "case free_count sh p of (n, p') \<Rightarrow> unat n = 2 ^ k - length xs \<and> ring_inv k sh p' c xs"
proof -
  from assms obtain R W pr cw where view: "ring_view k sh p c R W pr cw xs"
    by (auto simp: ring_inv_def)
  note V = ring_viewD [OF view]
  have "unat (rb_capacity sh - (cached_write p - rb_read sh)) = 2 ^ k - length xs"
    using ring_sub [of k R W] V ring_view_index(1) [OF view] by (simp add: unat_sub_if')
  then show ?thesis
    using ring_invI [OF ring_refresh_read [OF view]] by (simp add: free_count_def Let_def)
qed

lemma available_count_ok:
  assumes "ring_inv k sh p c xs"
  shows "case available_count sh c of (n, c') \<Rightarrow> unat n = length xs \<and> ring_inv k sh p c' xs"
proof -
  from assms obtain R W pr cw where view: "ring_view k sh p c R W pr cw xs"
    by (auto simp: ring_inv_def)
  note V = ring_viewD [OF view]
  have "unat (rb_write sh - cached_read c) = length xs"
    using ring_sub [of k R W] V by simp
  then show ?thesis
    using ring_invI [OF ring_refresh_write [OF view]] by (simp add: available_count_def Let_def)
qed

section \<open>Polls\<close>

lemma ring_inv_slot_ok: "ring_inv k sh p c xs \<Longrightarrow> slot_ok (rb_pslot sh) \<and> slot_ok (rb_cslot sh)"
  by (auto simp: ring_inv_def dest: ring_viewD(16,17))

lemma ring_inv_slots:
  assumes "ring_inv k sh p c xs" "slot_ok s"
  shows "ring_inv k (sh\<lparr>rb_pslot := s\<rparr>) p c xs" "ring_inv k (sh\<lparr>rb_cslot := s\<rparr>) p c xs"
proof -
  from assms(1) obtain R W pr cw where view: "ring_view k sh p c R W pr cw xs"
    by (auto simp: ring_inv_def)
  show "ring_inv k (sh\<lparr>rb_pslot := s\<rparr>) p c xs"
    by (rule ring_invI [OF ring_slots(1) [OF view assms(2)]])
  show "ring_inv k (sh\<lparr>rb_cslot := s\<rparr>) p c xs"
    by (rule ring_invI [OF ring_slots(2) [OF view assms(2)]])
qed

lemma push_poll_wp:
  assumes inv: "ring_inv k sh p c xs"
  shows "wp (push_poll (Some v) w sh p) (\<lambda>(r, fut, ws, sh', p').
    if length xs < 2 ^ k
    then r = Ready () \<and> fut = None \<and> ring_inv k sh' p' c (xs @ [v]) \<and>
         ws = fst (slot_signal (rb_cslot sh)) \<and> rb_pslot sh' = rb_pslot sh
    else r = Pending \<and> fut = Some v \<and> ring_inv k sh' p' c xs \<and> ws = [] \<and>
         rb_cslot sh' = rb_cslot sh \<and> parked_on w (rb_pslot sh'))"
proof (cases "length xs < 2 ^ k")
  case True
  then show ?thesis
    using try_push_wp [OF inv, of v] by (auto simp: push_poll_def elim!: wp_mono)
next
  case False
  obtain p1 where 1: "try_push v sh p = Inr (Some v, [], sh, p1)" "ring_inv k sh p1 c xs"
    using try_push_wp [OF inv, of v] False by (auto simp: wp_ex)
  obtain s where s: "slot_arm w (rb_pslot sh) = Inr ([], s)" "parked_on w s"
    using arm_parks [of "rb_pslot sh" w] ring_inv_slot_ok [OF inv] by (auto simp: wp_ex)
  have "ring_inv k (sh\<lparr>rb_pslot := s\<rparr>) p1 c xs"
    using ring_inv_slots(1) [OF 1(2)] s(2) by (simp add: parked_on_def)
  then obtain p2 where "try_push v (sh\<lparr>rb_pslot := s\<rparr>) p1 = Inr (Some v, [], sh\<lparr>rb_pslot := s\<rparr>, p2)"
    "ring_inv k (sh\<lparr>rb_pslot := s\<rparr>) p2 c xs"
    using try_push_wp [of k "sh\<lparr>rb_pslot := s\<rparr>" p1 c xs v] False by (auto simp: wp_ex)
  with False 1 s show ?thesis by (simp add: push_poll_def)
qed

lemma pop_poll_wp:
  assumes inv: "ring_inv k sh p c xs"
  shows "wp (pop_poll w sh c) (\<lambda>(r, ws, sh', c').
    case xs of
      x # ys \<Rightarrow> r = Ready x \<and> ring_inv k sh' p c' ys \<and>
         ws = fst (slot_signal (rb_pslot sh)) \<and> rb_cslot sh' = rb_cslot sh
    | [] \<Rightarrow> r = Pending \<and> ring_inv k sh' p c' [] \<and> ws = [] \<and>
         rb_pslot sh' = rb_pslot sh \<and> parked_on w (rb_cslot sh'))"
proof (cases xs)
  case (Cons x ys)
  then show ?thesis
    using try_pop_inner_wp [OF inv, of True] by (auto simp: pop_poll_def try_pop_def elim!: wp_mono)
next
  case Nil
  obtain c1 where 1: "try_pop sh c = Inr (None, [], sh, c1)" "ring_inv k sh p c1 []"
    using try_pop_inner_wp [OF inv, of True] Nil by (auto simp: wp_ex try_pop_def)
  obtain s where s: "slot_arm w (rb_cslot sh) = Inr ([], s)" "parked_on w s"
    using arm_parks [of "rb_cslot sh" w] ring_inv_slot_ok [OF inv] by (auto simp: wp_ex)
  have "ring_inv k (sh\<lparr>rb_cslot := s\<rparr>) p c1 []"
    using ring_inv_slots(2) [OF 1(2)] s(2) by (simp add: parked_on_def)
  then obtain c2 where "try_pop (sh\<lparr>rb_cslot := s\<rparr>) c1 = Inr (None, [], sh\<lparr>rb_cslot := s\<rparr>, c2)"
    "ring_inv k (sh\<lparr>rb_cslot := s\<rparr>) p c2 []"
    using try_pop_inner_wp [of k "sh\<lparr>rb_cslot := s\<rparr>" p c1 "[]" True] by (auto simp: wp_ex try_pop_def)
  with Nil 1 s show ?thesis by (simp add: pop_poll_def)
qed

text \<open>
  Slice polls. A poll pushes a further prefix of the items. It is ready exactly when the whole slice
  has been pushed; otherwise the buffer is full, the producer is parked, and the caller's counter is
  up to date.
\<close>

definition psf_ok :: "'a push_slice_fut \<Rightarrow> bool" where
  "psf_ok fut \<longleftrightarrow> psf_pushed fut < length (psf_items fut)"

text \<open>
  The second attempt of a slice future: the half that has run out of room, or of elements, arms its own
  slot and tries the rest again, now with a current copy of the other index.
\<close>

lemma push_slice_retry:
  assumes inv: "ring_inv k sh p c xs" and full: "looks_full sh p"
  obtains s n ws sh' p' where "slot_arm w (rb_pslot sh) = Inr ([], s)" "parked_on w s"
    "try_push_slice items (sh\<lparr>rb_pslot := s\<rparr>) p = Inr (n, ws, sh', p')"
    "ring_inv k sh' p' c (xs @ take n items)" "n = min (length items) (2 ^ k - length xs)" "rb_pslot sh' = s"
    "ws = (if n = 0 then [] else fst (slot_signal (rb_cslot sh)))" "n = 0 \<longrightarrow> rb_cslot sh' = rb_cslot sh"
proof -
  obtain s where s: "slot_arm w (rb_pslot sh) = Inr ([], s)" "parked_on w s"
    using arm_parks [of "rb_pslot sh" w] ring_inv_slot_ok [OF inv] by (auto simp: wp_ex)
  let ?sh = "sh\<lparr>rb_pslot := s\<rparr>"
  have inv2: "ring_inv k ?sh p c xs" using ring_inv_slots(1) [OF inv] s(2) by (simp add: parked_on_def)
  have full2: "looks_full ?sh p" using full by (simp add: looks_full_def)
  obtain n ws sh' p' where 2: "try_push_slice items ?sh p = Inr (n, ws, sh', p')"
    using try_push_slice_wp [OF inv2, of items] unfolding wp_ex by (metis prod_cases4)
  note post = try_push_slice_wp [OF inv2, of items, unfolded 2 wp_simps prod.case]
  have keep: "rb_pslot sh' = rb_pslot ?sh" "n = 0 \<Longrightarrow> sh' = ?sh"
    "ws = (if n = 0 then [] else fst (slot_signal (rb_cslot ?sh)))" using post by blast+
  show thesis
  proof (rule that [OF s 2])
    show "ring_inv k sh' p' c (xs @ take n items)" using post by blast
    show "n = min (length items) (2 ^ k - length xs)" using post full2 by blast
  qed (use keep in simp_all)
qed

lemma push_slice_poll_wp:
  assumes inv: "ring_inv k sh p c xs" and fut: "psf_ok fut"
  shows "wp (push_slice_poll fut w sh p) (\<lambda>(r, fut', ws, sh', p'). \<exists>ys.
    psf_items fut' = psf_items fut \<and> psf_pushed fut' = psf_pushed fut + length ys \<and>
    take (length ys) (drop (psf_pushed fut) (psf_items fut)) = ys \<and>
    ring_inv k sh' p' c (xs @ ys) \<and>
    (if ys = [] then rb_cslot sh' = rb_cslot sh else set (fst (slot_signal (rb_cslot sh))) \<subseteq> set ws) \<and>
    (r = Ready () \<longleftrightarrow> psf_pushed fut' = length (psf_items fut')) \<and>
    (r = Pending \<longrightarrow> psf_ok fut' \<and> length (xs @ ys) = 2 ^ k \<and> parked_on w (rb_pslot sh') \<and>
       psf_progress fut' = map_option (\<lambda>_. psf_pushed fut') (psf_progress fut)) \<and>
    (r = Ready () \<longrightarrow> psf_progress fut = Some (psf_pushed fut) \<longrightarrow>
       (\<exists>m. psf_progress fut' = Some m \<and> psf_pushed fut \<le> m \<and> m < length (psf_items fut))))"
proof -
  let ?items = "psf_items fut" and ?done = "psf_pushed fut"
  let ?rest = "drop ?done ?items"
  have rest: "length ?rest = length ?items - ?done" "0 < length ?rest"
    using fut by (simp_all add: psf_ok_def)
  obtain n1 ws1 sh1 p1 where 1: "try_push_slice ?rest sh p = Inr (n1, ws1, sh1, p1)"
    and inv1: "ring_inv k sh1 p1 c (xs @ take n1 ?rest)" and n1: "n1 \<le> length ?rest"
    and full1: "n1 < length ?rest \<Longrightarrow> looks_full sh1 p1"
    and ws1: "ws1 = (if n1 = 0 then [] else fst (slot_signal (rb_cslot sh)))" "n1 = 0 \<Longrightarrow> sh1 = sh"
    using try_push_slice_wp [OF inv, of ?rest] by (auto simp: wp_ex)
  let ?fut1 = "fut\<lparr>psf_pushed := ?done + n1\<rparr>"
  have fut1: "(if n1 > 0 then ?fut1 else fut) = ?fut1" by simp
  show ?thesis
  proof (cases "n1 = length ?rest")
    case True
    then have "push_slice_poll fut w sh p = Inr (Ready (), ?fut1, ws1, sh1, p1)"
      using 1 rest fut unfolding push_slice_poll_def by (simp add: Let_def psf_ok_def)
    then show ?thesis
      using inv1 True rest fut ws1 by (auto simp: psf_ok_def intro!: exI [of _ "take n1 ?rest"])
  next
    case False
    then have lt: "n1 < length ?rest" using n1 by simp
    let ?rest2 = "drop (?done + n1) ?items"
    obtain s n2 ws2 sh2 p2 where s: "slot_arm w (rb_pslot sh1) = Inr ([], s)" "parked_on w s"
      and 2: "try_push_slice ?rest2 (sh1\<lparr>rb_pslot := s\<rparr>) p1 = Inr (n2, ws2, sh2, p2)"
      and inv3: "ring_inv k sh2 p2 c ((xs @ take n1 ?rest) @ take n2 ?rest2)"
      and n2: "n2 = min (length ?rest2) (2 ^ k - length (xs @ take n1 ?rest))"
      and slot: "rb_pslot sh2 = s" and ws2': "ws2 = (if n2 = 0 then [] else fst (slot_signal (rb_cslot sh1)))"
      and ws2: "n2 = 0 \<longrightarrow> rb_cslot sh2 = rb_cslot sh1"
      by (rule push_slice_retry [OF inv1 full1 [OF lt], of w ?rest2])
    let ?ys = "take (n1 + n2) ?rest"
    have ys: "take n1 ?rest @ take n2 ?rest2 = ?ys" by (simp add: take_add add.commute)
    have lys: "length ?ys = n1 + n2" using n1 n2 rest by simp
    have le: "length (xs @ take n1 ?rest) \<le> 2 ^ k" using ring_inv_index_simps [OF inv1] .
    let ?fut2 = "fut\<lparr>psf_pushed := ?done + n1 + n2\<rparr>"
    let ?prog = "\<lambda>m. map_option (\<lambda>_. m) (psf_progress fut)"
    have poll: "push_slice_poll fut w sh p =
        (if ?done + n1 + n2 = length ?items
         then Inr (Ready (), ?fut2\<lparr>psf_progress := ?prog (?done + n1)\<rparr>, ws1 @ [] @ ws2,
           sh2\<lparr>rb_pslot := slot_disarm (rb_pslot sh2)\<rparr>, p2)
         else Inr (Pending, ?fut2\<lparr>psf_progress := ?prog (?done + n1 + n2)\<rparr>, ws1 @ [] @ ws2, sh2, p2))"
      using 1 2 s lt rest unfolding push_slice_poll_def
      by (auto simp: Let_def option.map_comp comp_def)
    have sig: "if ?ys = [] then rb_cslot sh2 = rb_cslot sh
        else set (fst (slot_signal (rb_cslot sh))) \<subseteq> set ws1 \<union> set ws2"
    proof (cases "?ys = []")
      case True
      then have "n1 = 0" "n2 = 0" using lys by auto
      then show ?thesis using True ws1 ws2 ws2' by simp
    next
      case False
      then have "n1 \<noteq> 0 \<or> n2 \<noteq> 0" using lys by auto
      then show ?thesis using False ws1 ws2 ws2' by auto
    qed
    have dis: "ring_inv k (sh2\<lparr>rb_pslot := slot_disarm (rb_pslot sh2)\<rparr>) p2 c (xs @ ?ys)"
      using ring_inv_slots(1) [OF inv3] slot_disarm_ok ring_inv_slot_ok [OF inv3] ys by simp
    show ?thesis
    proof (cases "?done + n1 + n2 = length ?items")
      case True
      then show ?thesis
        unfolding poll if_P [OF True] wp_simps prod.case
        by (intro exI [of _ ?ys] conjI) (use True dis lys sig lt rest in simp_all)
    next
      case False
      then have "n2 = 2 ^ k - length (xs @ take n1 ?rest)" using n2 lt rest by auto
      then have "length (xs @ ?ys) = 2 ^ k" using le lys n1 by simp
      moreover have "?done + n1 + n2 < length ?items" using False n2 lt rest by auto
      ultimately show ?thesis
        unfolding poll if_not_P [OF False] wp_simps prod.case
        by (intro exI [of _ ?ys] conjI)
          (use False inv3 ys lys slot s(2) sig in \<open>simp_all add: psf_ok_def\<close>)
    qed
  qed
qed

definition qsf_ok :: "'a pop_slice_fut \<Rightarrow> bool" where
  "qsf_ok fut \<longleftrightarrow> length (qsf_popped fut) < qsf_len fut"

lemma pop_slice_retry:
  assumes inv: "ring_inv k sh p c xs" and emp: "looks_empty c"
  obtains s ys ws sh' c' where "slot_arm w (rb_cslot sh) = Inr ([], s)" "parked_on w s"
    "try_pop_slice m (sh\<lparr>rb_cslot := s\<rparr>) c = Inr (ys, ws, sh', c')"
    "ring_inv k sh' p c' (drop (length ys) xs)" "ys = take (length ys) xs" "length ys = min m (length xs)"
    "rb_cslot sh' = s" "ws = (if ys = [] then [] else fst (slot_signal (rb_pslot sh)))"
    "ys = [] \<longrightarrow> rb_pslot sh' = rb_pslot sh"
proof -
  obtain s where s: "slot_arm w (rb_cslot sh) = Inr ([], s)" "parked_on w s"
    using arm_parks [of "rb_cslot sh" w] ring_inv_slot_ok [OF inv] by (auto simp: wp_ex)
  let ?sh = "sh\<lparr>rb_cslot := s\<rparr>"
  have inv2: "ring_inv k ?sh p c xs" using ring_inv_slots(2) [OF inv] s(2) by (simp add: parked_on_def)
  obtain ys ws sh' c' where 2: "try_pop_slice m ?sh c = Inr (ys, ws, sh', c')"
    using try_pop_slice_wp [OF inv2, of m] unfolding wp_ex by (metis prod_cases4)
  note post = try_pop_slice_wp [OF inv2, of m, unfolded 2 wp_simps prod.case]
  have keep: "rb_cslot sh' = rb_cslot ?sh" "ys = [] \<Longrightarrow> sh' = ?sh"
    "ws = (if ys = [] then [] else fst (slot_signal (rb_pslot ?sh)))" using post by blast+
  show thesis
  proof (rule that [OF s 2])
    show "ring_inv k sh' p c' (drop (length ys) xs)" "ys = take (length ys) xs" using post by blast+
    show "length ys = min m (length xs)" using post emp by blast
  qed (use keep in simp_all)
qed

lemma pop_slice_poll_wp:
  assumes inv: "ring_inv k sh p c xs" and fut: "qsf_ok fut"
  shows "wp (pop_slice_poll fut w sh c) (\<lambda>(r, fut', ws, sh', c'). \<exists>ys zs. xs = ys @ zs \<and>
    qsf_len fut' = qsf_len fut \<and> qsf_popped fut' = qsf_popped fut @ ys \<and>
    ring_inv k sh' p c' zs \<and>
    (if ys = [] then rb_pslot sh' = rb_pslot sh else set (fst (slot_signal (rb_pslot sh))) \<subseteq> set ws) \<and>
    (r = Ready () \<longleftrightarrow> length (qsf_popped fut') = qsf_len fut') \<and>
    (r = Pending \<longrightarrow> qsf_ok fut' \<and> zs = [] \<and> parked_on w (rb_cslot sh') \<and>
       qsf_progress fut' = map_option (\<lambda>_. length (qsf_popped fut')) (qsf_progress fut)) \<and>
    (r = Ready () \<longrightarrow> qsf_progress fut = Some (length (qsf_popped fut)) \<longrightarrow>
       (\<exists>m. qsf_progress fut' = Some m \<and> length (qsf_popped fut) \<le> m \<and> m < qsf_len fut)))"
proof -
  let ?n = "qsf_len fut - length (qsf_popped fut)"
  have n: "0 < ?n" using fut by (simp add: qsf_ok_def)
  obtain xs1 ws1 sh1 c1 where 1: "try_pop_slice ?n sh c = Inr (xs1, ws1, sh1, c1)"
    and inv1: "ring_inv k sh1 p c1 (drop (length xs1) xs)" and n1: "length xs1 \<le> ?n"
    and xs1: "xs1 = take (length xs1) xs"
    and empty1: "length xs1 < ?n \<Longrightarrow> looks_empty c1"
    and ws1: "ws1 = (if xs1 = [] then [] else fst (slot_signal (rb_pslot sh)))" "xs1 = [] \<Longrightarrow> sh1 = sh"
    using try_pop_slice_wp [OF inv, of ?n] by (auto simp: wp_ex)
  show ?thesis
  proof (cases "length xs1 = ?n")
    case True
    then have "pop_slice_poll fut w sh c =
        Inr (Ready (), fut\<lparr>qsf_popped := qsf_popped fut @ xs1\<rparr>, ws1, sh1, c1)"
      using 1 n by (auto simp: pop_slice_poll_def)
    moreover have "xs = xs1 @ drop (length xs1) xs" using xs1 by (metis append_take_drop_id)
    ultimately show ?thesis
      using inv1 True n ws1 by (auto intro!: exI [of _ xs1] exI [of _ "drop (length xs1) xs"])
  next
    case False
    then have lt: "length xs1 < ?n" using n1 by simp
    then have lt1: "length (qsf_popped fut) + length xs1 < qsf_len fut" by linarith
    let ?m = "qsf_len fut - length (qsf_popped fut @ xs1)"
    obtain s xs2 ws2 sh2 c2 where s: "slot_arm w (rb_cslot sh1) = Inr ([], s)" "parked_on w s"
      and 2: "try_pop_slice ?m (sh1\<lparr>rb_cslot := s\<rparr>) c1 = Inr (xs2, ws2, sh2, c2)"
      and inv3: "ring_inv k sh2 p c2 (drop (length xs2) (drop (length xs1) xs))"
      and xs2: "xs2 = take (length xs2) (drop (length xs1) xs)"
      and n2: "length xs2 = min ?m (length (drop (length xs1) xs))"
      and slot: "rb_cslot sh2 = s"
      and ws2': "ws2 = (if xs2 = [] then [] else fst (slot_signal (rb_pslot sh1)))"
      and ws2: "xs2 = [] \<longrightarrow> rb_pslot sh2 = rb_pslot sh1"
      by (rule pop_slice_retry [OF inv1 empty1 [OF lt], of w ?m])
    let ?zs = "drop (length xs2) (drop (length xs1) xs)"
    have split: "xs = (xs1 @ xs2) @ ?zs"
      using xs1 xs2 by (metis append.assoc append_take_drop_id)
    let ?fut2 = "fut\<lparr>qsf_popped := qsf_popped fut @ xs1 @ xs2\<rparr>"
    let ?prog = "\<lambda>m. map_option (\<lambda>_. m) (qsf_progress fut)"
    have poll: "pop_slice_poll fut w sh c =
        (if length (qsf_popped fut @ xs1 @ xs2) = qsf_len fut
         then Inr (Ready (), ?fut2\<lparr>qsf_progress := ?prog (length (qsf_popped fut @ xs1))\<rparr>, ws1 @ [] @ ws2,
           sh2\<lparr>rb_cslot := slot_disarm (rb_cslot sh2)\<rparr>, c2)
         else Inr (Pending, ?fut2\<lparr>qsf_progress := ?prog (length (qsf_popped fut @ xs1 @ xs2))\<rparr>,
           ws1 @ [] @ ws2, sh2, c2))"
      using 1 2 s lt n unfolding pop_slice_poll_def
      by (auto simp: Let_def option.map_comp comp_def)
    have sig: "if xs1 @ xs2 = [] then rb_pslot sh2 = rb_pslot sh
        else set (fst (slot_signal (rb_pslot sh))) \<subseteq> set ws1 \<union> set ws2"
      using ws1 ws2 ws2' by auto
    have dis: "ring_inv k (sh2\<lparr>rb_cslot := slot_disarm (rb_cslot sh2)\<rparr>) p c2 ?zs"
      using ring_inv_slots(2) [OF inv3] slot_disarm_ok ring_inv_slot_ok [OF inv3] by simp
    show ?thesis
    proof (cases "length (qsf_popped fut @ xs1 @ xs2) = qsf_len fut")
      case True
      show ?thesis
        unfolding poll if_P [OF True] wp_simps prod.case
        by (rule exI [of _ "xs1 @ xs2"], rule exI [of _ ?zs], intro conjI split) (use True dis sig lt1 in simp_all)
    next
      case False
      then have zs: "?zs = []" and lt2: "length (qsf_popped fut @ xs1 @ xs2) < qsf_len fut"
        using n2 lt by auto
      show ?thesis
        unfolding poll if_not_P [OF False] wp_simps prod.case
        by (rule exI [of _ "xs1 @ xs2"], rule exI [of _ ?zs], intro conjI split)
          (use False inv3 slot s(2) sig zs lt2 in \<open>simp_all add: qsf_ok_def\<close>)
    qed
  qed
qed

end
