(* ===== verification/Ring_System.thy ===== *)
theory Ring_System
  imports RingBuf
begin

text \<open>
  One producer and one consumer on a ring buffer, calling in any order. The state records what was
  pushed and popped in total, and whether a half is parked: its last poll was pending and its waker
  has not been called since. The invariant shows that the buffer is a bounded FIFO channel whatever
  the staleness of the cached indices, and that a parked half never has work it was not told of.
\<close>

record 'a ring_sys =
  rg_sh :: "'a ring_shared"
  rg_p :: half
  rg_c :: half
  rg_pushed :: "'a list"
  rg_popped :: "'a list"
  rg_pwait :: "waker option"
  rg_cwait :: "waker option"

definition ring_init :: "nat \<Rightarrow> 'a ring_sys \<Rightarrow> bool" where
  "ring_init k s \<longleftrightarrow> (\<exists>alloc el sh.
     k < 64 \<and> ring_new alloc el (2 ^ k) = Inr sh \<and>
     (case ring_split sh of (sh', p, c) \<Rightarrow>
        s = \<lparr>rg_sh = sh', rg_p = p, rg_c = c, rg_pushed = [], rg_popped = [],
             rg_pwait = None, rg_cwait = None\<rparr>))"

inductive ring_step :: "'a ring_sys \<Rightarrow> 'a ring_sys \<Rightarrow> bool" where
  try_push: "try_push v (rg_sh s) (rg_p s) = Inr (r, ws, sh, p) \<Longrightarrow>
    ring_step s (s\<lparr>rg_sh := sh, rg_p := p, rg_pushed := rg_pushed s @ (if r = None then [v] else []),
      rg_pwait := None, rg_cwait := still_waiting ws (rg_cwait s)\<rparr>)"
| push_poll: "push_poll (Some v) w (rg_sh s) (rg_p s) = Inr (r, fut, ws, sh, p) \<Longrightarrow>
    ring_step s (s\<lparr>rg_sh := sh, rg_p := p, rg_pushed := rg_pushed s @ (if r = Ready () then [v] else []),
      rg_pwait := (if r = Pending then Some w else None), rg_cwait := still_waiting ws (rg_cwait s)\<rparr>)"
| try_push_slice: "try_push_slice items (rg_sh s) (rg_p s) = Inr (n, ws, sh, p) \<Longrightarrow>
    ring_step s (s\<lparr>rg_sh := sh, rg_p := p, rg_pushed := rg_pushed s @ take n items,
      rg_pwait := None, rg_cwait := still_waiting ws (rg_cwait s)\<rparr>)"
| push_slice_poll: "psf_ok fut \<Longrightarrow> push_slice_poll fut w (rg_sh s) (rg_p s) = Inr (r, fut', ws, sh, p) \<Longrightarrow>
    ring_step s (s\<lparr>rg_sh := sh, rg_p := p,
      rg_pushed := rg_pushed s @ take (psf_pushed fut' - psf_pushed fut) (drop (psf_pushed fut) (psf_items fut)),
      rg_pwait := (if r = Pending then Some w else None), rg_cwait := still_waiting ws (rg_cwait s)\<rparr>)"
| free_count: "free_count (rg_sh s) (rg_p s) = (n, p) \<Longrightarrow>
    ring_step s (s\<lparr>rg_p := p, rg_pwait := None\<rparr>)"
| try_pop: "try_pop (rg_sh s) (rg_c s) = Inr (r, ws, sh, c) \<Longrightarrow>
    ring_step s (s\<lparr>rg_sh := sh, rg_c := c,
      rg_popped := rg_popped s @ (case r of Some v \<Rightarrow> [v] | None \<Rightarrow> []),
      rg_cwait := None, rg_pwait := still_waiting ws (rg_pwait s)\<rparr>)"
| pop_poll: "pop_poll w (rg_sh s) (rg_c s) = Inr (r, ws, sh, c) \<Longrightarrow>
    ring_step s (s\<lparr>rg_sh := sh, rg_c := c,
      rg_popped := rg_popped s @ (case r of Ready v \<Rightarrow> [v] | Pending \<Rightarrow> []),
      rg_cwait := (if r = Pending then Some w else None), rg_pwait := still_waiting ws (rg_pwait s)\<rparr>)"
| try_pop_slice: "try_pop_slice n (rg_sh s) (rg_c s) = Inr (xs, ws, sh, c) \<Longrightarrow>
    ring_step s (s\<lparr>rg_sh := sh, rg_c := c, rg_popped := rg_popped s @ xs,
      rg_cwait := None, rg_pwait := still_waiting ws (rg_pwait s)\<rparr>)"
| pop_slice_poll: "qsf_ok fut \<Longrightarrow> pop_slice_poll fut w (rg_sh s) (rg_c s) = Inr (r, fut', ws, sh, c) \<Longrightarrow>
    ring_step s (s\<lparr>rg_sh := sh, rg_c := c,
      rg_popped := rg_popped s @ drop (length (qsf_popped fut)) (qsf_popped fut'),
      rg_cwait := (if r = Pending then Some w else None), rg_pwait := still_waiting ws (rg_pwait s)\<rparr>)"
| available_count: "available_count (rg_sh s) (rg_c s) = (n, c) \<Longrightarrow>
    ring_step s (s\<lparr>rg_c := c, rg_cwait := None\<rparr>)"

definition ring_sys_ok :: "nat \<Rightarrow> 'a ring_sys \<Rightarrow> 'a list \<Rightarrow> bool" where
  "ring_sys_ok k s xs \<longleftrightarrow>
     ring_inv k (rg_sh s) (rg_p s) (rg_c s) xs \<and> rg_pushed s = rg_popped s @ xs \<and>
     (\<forall>w. rg_pwait s = Some w \<longrightarrow> length xs = 2 ^ k \<and> parked_on w (rb_pslot (rg_sh s))) \<and>
     (\<forall>w. rg_cwait s = Some w \<longrightarrow> xs = [] \<and> parked_on w (rb_cslot (rg_sh s)))"

definition ring_sys_inv :: "nat \<Rightarrow> 'a ring_sys \<Rightarrow> bool" where
  "ring_sys_inv k s \<longleftrightarrow> (\<exists>xs. ring_sys_ok k s xs)"

lemma ring_sys_invI: "ring_sys_ok k s xs \<Longrightarrow> ring_sys_inv k s"
  by (auto simp: ring_sys_inv_def)

lemma ring_sys_init: "ring_init k s \<Longrightarrow> ring_sys_inv k s"
proof -
  assume "ring_init k s"
  then obtain alloc el sh where k: "k < 64" and new: "ring_new alloc el (2 ^ k) = Inr sh"
    and s: "case ring_split sh of (sh', p, c) \<Rightarrow>
        s = \<lparr>rg_sh = sh', rg_p = p, rg_c = c, rg_pushed = [], rg_popped = [],
             rg_pwait = None, rg_cwait = None\<rparr>"
    by (auto simp: ring_init_def)
  obtain ly where "el_size el \<noteq> 0" "layout_for el (2 ^ k) (el_align el) = Inr ly" "alloc ly"
    using new by (auto simp: ring_new_def rbind_Inr_iff rassert_def split: if_splits)
  from ring_new_wp [where alloc = alloc, OF this k] new s have "ring_sys_ok k s []"
    by (auto simp: ring_sys_ok_def split: prod.splits)
  then show ?thesis by (rule ring_sys_invI)
qed

text \<open>
  A producer call that adds \<open>ys\<close>: if it adds something, a parked consumer is told; if it adds
  nothing, the consumer's slot is untouched.
\<close>

lemma ring_sys_produce:
  assumes ok: "ring_sys_ok k s xs" and inv: "ring_inv k sh p (rg_c s) (xs @ ys)"
    and sig: "if ys = [] then rb_cslot sh = rb_cslot (rg_sh s)
      else set (fst (slot_signal (rb_cslot (rg_sh s)))) \<subseteq> set ws"
    and wait: "\<And>w. pw = Some w \<Longrightarrow> length (xs @ ys) = 2 ^ k \<and> parked_on w (rb_pslot sh)"
  shows "ring_sys_inv k (s\<lparr>rg_sh := sh, rg_p := p, rg_pushed := rg_pushed s @ ys,
    rg_pwait := pw, rg_cwait := still_waiting ws (rg_cwait s)\<rparr>)"
proof (rule ring_sys_invI [of _ _ "xs @ ys"])
  have told: "w \<in> set ws" if "rg_cwait s = Some w" "ys \<noteq> []" for w
    using that ok sig parked_signal [of w "rb_cslot (rg_sh s)"] by (simp add: ring_sys_ok_def)
  show "ring_sys_ok k (s\<lparr>rg_sh := sh, rg_p := p, rg_pushed := rg_pushed s @ ys,
      rg_pwait := pw, rg_cwait := still_waiting ws (rg_cwait s)\<rparr>) (xs @ ys)"
    using ok inv sig wait told
    by (auto simp: ring_sys_ok_def still_waiting_Some split: if_splits)
qed

lemma ring_sys_consume:
  assumes ok: "ring_sys_ok k s (ys @ zs)" and inv: "ring_inv k sh (rg_p s) c zs"
    and sig: "if ys = [] then rb_pslot sh = rb_pslot (rg_sh s)
      else set (fst (slot_signal (rb_pslot (rg_sh s)))) \<subseteq> set ws"
    and wait: "\<And>w. cw = Some w \<Longrightarrow> zs = [] \<and> parked_on w (rb_cslot sh)"
  shows "ring_sys_inv k (s\<lparr>rg_sh := sh, rg_c := c, rg_popped := rg_popped s @ ys,
    rg_cwait := cw, rg_pwait := still_waiting ws (rg_pwait s)\<rparr>)"
proof (rule ring_sys_invI [of _ _ zs])
  have told: "w \<in> set ws" if "rg_pwait s = Some w" "ys \<noteq> []" for w
    using that ok sig parked_signal [of w "rb_pslot (rg_sh s)"] by (simp add: ring_sys_ok_def)
  show "ring_sys_ok k (s\<lparr>rg_sh := sh, rg_c := c, rg_popped := rg_popped s @ ys,
      rg_cwait := cw, rg_pwait := still_waiting ws (rg_pwait s)\<rparr>) zs"
    using ok inv sig wait told
    by (auto simp: ring_sys_ok_def still_waiting_Some split: if_splits)
qed

lemma ring_sys_step_push_poll:
  assumes "ring_sys_inv k s"
    and push_poll: "t = s\<lparr>rg_sh := sh, rg_p := p, rg_pushed := rg_pushed s @ (if r = Ready () then [v] else []), rg_pwait := (if r = Pending then Some w else None), rg_cwait := still_waiting ws (rg_cwait s)\<rparr>"
      "push_poll (Some v) w (rg_sh s) (rg_p s) = Inr (r, fut, ws, sh, p)"
  shows "ring_sys_inv k t"
proof -
  obtain xs where ok: "ring_sys_ok k s xs" using assms(1) by (auto simp: ring_sys_inv_def)
  then have inv: "ring_inv k (rg_sh s) (rg_p s) (rg_c s) xs" by (simp add: ring_sys_ok_def)
  note spec = push_poll_wp [OF inv, of v w, unfolded push_poll(2) wp_simps prod.case]
  have "length xs \<le> 2 ^ k" using ring_inv_index_simps [OF inv] .
  then show ?thesis
    unfolding push_poll(1)
    by (intro ring_sys_produce [OF ok]) (use spec in \<open>auto split: if_splits\<close>)
qed

lemma ring_sys_step_push_slice_poll:
  assumes "ring_sys_inv k s"
    and push_slice_poll: "t = s\<lparr>rg_sh := sh, rg_p := p, rg_pushed := rg_pushed s @ take (psf_pushed fut' - psf_pushed fut) (drop (psf_pushed fut) (psf_items fut)), rg_pwait := (if r = Pending then Some w else None), rg_cwait := still_waiting ws (rg_cwait s)\<rparr>"
      "psf_ok fut"
      "push_slice_poll fut w (rg_sh s) (rg_p s) = Inr (r, fut', ws, sh, p)"
  shows "ring_sys_inv k t"
proof -
  obtain xs where ok: "ring_sys_ok k s xs" using assms(1) by (auto simp: ring_sys_inv_def)
  then have inv: "ring_inv k (rg_sh s) (rg_p s) (rg_c s) xs" by (simp add: ring_sys_ok_def)
  obtain ys where ys: "psf_pushed fut' = psf_pushed fut + length ys"
    "take (length ys) (drop (psf_pushed fut) (psf_items fut)) = ys"
    "ring_inv k sh p (rg_c s) (xs @ ys)"
    "if ys = [] then rb_cslot sh = rb_cslot (rg_sh s)
     else set (fst (slot_signal (rb_cslot (rg_sh s)))) \<subseteq> set ws"
    "r = Pending \<Longrightarrow> length (xs @ ys) = 2 ^ k \<and> parked_on w (rb_pslot sh)"
    using push_slice_poll_wp [OF inv push_slice_poll(2), of w, unfolded push_slice_poll(3) wp_simps prod.case]
    by blast
  have "take (psf_pushed fut' - psf_pushed fut) (drop (psf_pushed fut) (psf_items fut)) = ys"
    using ys(1,2) by simp
  then show ?thesis
    unfolding push_slice_poll(1) using ys
    by (simp only:) (rule ring_sys_produce [OF ok], auto split: if_splits)
qed

lemma ring_sys_step_try_pop:
  assumes "ring_sys_inv k s"
    and try_pop: "t = s\<lparr>rg_sh := sh, rg_c := c, rg_popped := rg_popped s @ (case r of Some v \<Rightarrow> [v] | None \<Rightarrow> []), rg_cwait := None, rg_pwait := still_waiting ws (rg_pwait s)\<rparr>"
      "try_pop (rg_sh s) (rg_c s) = Inr (r, ws, sh, c)"
  shows "ring_sys_inv k t"
proof -
  obtain xs where ok: "ring_sys_ok k s xs" using assms(1) by (auto simp: ring_sys_inv_def)
  then have inv: "ring_inv k (rg_sh s) (rg_p s) (rg_c s) xs" by (simp add: ring_sys_ok_def)
  note spec = try_pop_inner_wp [OF inv, of True, folded try_pop_def, unfolded try_pop(2) wp_simps prod.case]
  show ?thesis
  proof (cases xs)
    case Nil
    with spec have "r = None" by simp
    then show ?thesis
      unfolding try_pop(1) using ring_sys_consume [of k s "[]" "[]" sh c ws None] ok spec Nil by simp
  next
    case (Cons x zs)
    with spec have "r = Some x" by simp
    then show ?thesis
      unfolding try_pop(1) using ring_sys_consume [of k s "[x]" zs sh c ws None] ok spec Cons by simp
  qed
qed

lemma ring_sys_step_pop_poll:
  assumes "ring_sys_inv k s"
    and pop_poll: "t = s\<lparr>rg_sh := sh, rg_c := c, rg_popped := rg_popped s @ (case r of Ready v \<Rightarrow> [v] | Pending \<Rightarrow> []), rg_cwait := (if r = Pending then Some w else None), rg_pwait := still_waiting ws (rg_pwait s)\<rparr>"
      "pop_poll w (rg_sh s) (rg_c s) = Inr (r, ws, sh, c)"
  shows "ring_sys_inv k t"
proof -
  obtain xs where ok: "ring_sys_ok k s xs" using assms(1) by (auto simp: ring_sys_inv_def)
  then have inv: "ring_inv k (rg_sh s) (rg_p s) (rg_c s) xs" by (simp add: ring_sys_ok_def)
  note spec = pop_poll_wp [OF inv, of w, unfolded pop_poll(2) wp_simps prod.case]
  show ?thesis
  proof (cases xs)
    case Nil
    with spec have "r = Pending" by simp
    then show ?thesis
      unfolding pop_poll(1) using ring_sys_consume [of k s "[]" "[]" sh c ws "Some w"] ok spec Nil by simp
  next
    case (Cons x zs)
    with spec have "r = Ready x" by simp
    then show ?thesis
      unfolding pop_poll(1) using ring_sys_consume [of k s "[x]" zs sh c ws None] ok spec Cons by simp
  qed
qed

lemma ring_sys_step_try_pop_slice:
  assumes "ring_sys_inv k s"
    and try_pop_slice: "t = s\<lparr>rg_sh := sh, rg_c := c, rg_popped := rg_popped s @ ys, rg_cwait := None, rg_pwait := still_waiting ws (rg_pwait s)\<rparr>"
      "try_pop_slice n (rg_sh s) (rg_c s) = Inr (ys, ws, sh, c)"
  shows "ring_sys_inv k t"
proof -
  obtain xs where ok: "ring_sys_ok k s xs" using assms(1) by (auto simp: ring_sys_inv_def)
  then have inv: "ring_inv k (rg_sh s) (rg_p s) (rg_c s) xs" by (simp add: ring_sys_ok_def)
  note spec = try_pop_slice_wp [OF inv, of n, unfolded try_pop_slice(2) wp_simps prod.case]
  have "xs = ys @ drop (length ys) xs" using spec by (metis append_take_drop_id)
  then show ?thesis
    unfolding try_pop_slice(1) using ok spec
    by (intro ring_sys_consume [where ys = ys and zs = "drop (length ys) xs"]) auto
qed

lemma ring_sys_step_pop_slice_poll:
  assumes "ring_sys_inv k s"
    and pop_slice_poll: "t = s\<lparr>rg_sh := sh, rg_c := c, rg_popped := rg_popped s @ drop (length (qsf_popped fut)) (qsf_popped fut'), rg_cwait := (if r = Pending then Some w else None), rg_pwait := still_waiting ws (rg_pwait s)\<rparr>"
      "qsf_ok fut"
      "pop_slice_poll fut w (rg_sh s) (rg_c s) = Inr (r, fut', ws, sh, c)"
  shows "ring_sys_inv k t"
proof -
  obtain xs where ok: "ring_sys_ok k s xs" using assms(1) by (auto simp: ring_sys_inv_def)
  then have inv: "ring_inv k (rg_sh s) (rg_p s) (rg_c s) xs" by (simp add: ring_sys_ok_def)
  obtain ys zs where ys: "xs = ys @ zs" "qsf_popped fut' = qsf_popped fut @ ys"
    "ring_inv k sh (rg_p s) c zs"
    "if ys = [] then rb_pslot sh = rb_pslot (rg_sh s)
     else set (fst (slot_signal (rb_pslot (rg_sh s)))) \<subseteq> set ws"
    "r = Pending \<Longrightarrow> zs = [] \<and> parked_on w (rb_cslot sh)"
    using pop_slice_poll_wp [OF inv pop_slice_poll(2), of w, unfolded pop_slice_poll(3) wp_simps prod.case]
    by blast
  have "drop (length (qsf_popped fut)) (qsf_popped fut') = ys" using ys(2) by simp
  then show ?thesis
    unfolding pop_slice_poll(1) using ok ys
    by (simp only:) (rule ring_sys_consume [where zs = zs], auto split: if_splits)
qed

lemma ring_sys_step:
  assumes "ring_sys_inv k s" and step: "ring_step s t"
  shows "ring_sys_inv k t"
proof -
  obtain xs where ok: "ring_sys_ok k s xs" using assms(1) by (auto simp: ring_sys_inv_def)
  then have inv: "ring_inv k (rg_sh s) (rg_p s) (rg_c s) xs" by (simp add: ring_sys_ok_def)
  from step show ?thesis
  proof cases
    case (try_push v r ws sh p)
    note spec = try_push_wp [OF inv, of v, unfolded try_push(2) wp_simps prod.case]
    show ?thesis
      unfolding try_push(1)
      by (rule ring_sys_produce [OF ok]) (use spec in \<open>auto split: if_splits\<close>)
  next
    case (push_poll v w r fut ws sh p)
    then show ?thesis by (rule ring_sys_step_push_poll [OF assms(1)])
  next
    case (try_push_slice items n ws sh p)
    note spec = try_push_slice_wp [OF inv, of items, unfolded try_push_slice(2) wp_simps prod.case]
    show ?thesis
      unfolding try_push_slice(1)
      by (rule ring_sys_produce [OF ok]) (use spec in \<open>auto split: if_splits\<close>)
  next
    case (push_slice_poll fut w r fut' ws sh p)
    then show ?thesis by (rule ring_sys_step_push_slice_poll [OF assms(1)])
  next
    case (free_count n p)
    then have "ring_inv k (rg_sh s) p (rg_c s) xs" using free_count_ok [OF inv] by simp
    then have "ring_sys_ok k t xs" using ok free_count by (simp add: ring_sys_ok_def)
    then show ?thesis by (rule ring_sys_invI)
  next
    case (try_pop r ws sh c)
    then show ?thesis by (rule ring_sys_step_try_pop [OF assms(1)])
  next
    case (pop_poll w r ws sh c)
    then show ?thesis by (rule ring_sys_step_pop_poll [OF assms(1)])
  next
    case (try_pop_slice n ys ws sh c)
    then show ?thesis by (rule ring_sys_step_try_pop_slice [OF assms(1)])
  next
    case (pop_slice_poll fut w r fut' ws sh c)
    then show ?thesis by (rule ring_sys_step_pop_slice_poll [OF assms(1)])
  next
    case (available_count n c)
    then have "ring_inv k (rg_sh s) (rg_p s) c xs" using available_count_ok [OF inv] by simp
    then have "ring_sys_ok k t xs" using ok available_count by (simp add: ring_sys_ok_def)
    then show ?thesis by (rule ring_sys_invI)
  qed
qed

interpretation rg: invariant_system "ring_init k" ring_step "ring_sys_inv k" for k
  by unfold_locales (auto intro: ring_sys_init ring_sys_step)

section \<open>Correctness\<close>

lemma ring_sys_obtain:
  assumes "reach (ring_init k) ring_step n s"
  obtains xs where "ring_inv k (rg_sh s) (rg_p s) (rg_c s) xs" "rg_pushed s = rg_popped s @ xs"
    "\<And>w. rg_pwait s = Some w \<Longrightarrow> length xs = 2 ^ k \<and> parked_on w (rb_pslot (rg_sh s))"
    "\<And>w. rg_cwait s = Some w \<Longrightarrow> xs = [] \<and> parked_on w (rb_cslot (rg_sh s))"
  using rg.reachable_inv [OF assms] by (auto simp: ring_sys_inv_def ring_sys_ok_def)

text \<open>
  A run on a ring of two slots: 7 and 8 are pushed, a push of 9 waits with waker 3, and the consumer
  has not read yet.
\<close>

definition nat_elem :: "nat elem" where
  "nat_elem = \<lparr>el_size = 8, el_align = 8, el_zero = 0\<rparr>"

lemma ring_fresh:
  obtains sh :: "nat ring_shared" and p c where
    "ring_new (\<lambda>_. True) nat_elem (2 ^ 1) = Inr sh" "ring_split sh = (sh, p, c)" "ring_inv 1 sh p c []"
proof -
  have "is_power_of_two 8" by code_simp
  then obtain ly where ly: "layout_for nat_elem (2 ^ 1) (el_align nat_elem) = Inr ly"
    by (simp add: layout_for_def nat_elem_def)
  have "el_size nat_elem \<noteq> 0" by (simp add: nat_elem_def)
  from ring_new_wp [OF this ly, of "\<lambda>_. True"] show thesis
    using that by (auto simp: wp_ex ring_split_def)
qed

lemma ring_run:
  obtains s :: "nat ring_sys" where "reach (ring_init 1) ring_step 3 s" "rg_pushed s = [7, 8]" "rg_popped s = []"
    "rg_pwait s = Some 3"
proof -
  obtain sh :: "nat ring_shared" and p c where sh: "ring_new (\<lambda>_. True) nat_elem (2 ^ 1) = Inr sh"
    "ring_split sh = (sh, p, c)" "ring_inv 1 sh p c []" by (rule ring_fresh)
  let ?s = "\<lambda>sh p xs w. \<lparr>rg_sh = sh, rg_p = p, rg_c = c, rg_pushed = xs, rg_popped = [], rg_pwait = w, rg_cwait = None\<rparr>"
  obtain ws1 sh1 p1 where s1: "try_push 7 sh p = Inr (None, ws1, sh1, p1)" "ring_inv 1 sh1 p1 c [7]"
    using try_push_wp [OF sh(3), of 7] by (auto simp: wp_ex)
  obtain ws2 sh2 p2 where s2: "try_push 8 sh1 p1 = Inr (None, ws2, sh2, p2)" "ring_inv 1 sh2 p2 c [7, 8]"
    using try_push_wp [OF s1(2), of 8] by (auto simp: wp_ex)
  obtain f ws3 sh3 p3 where s3: "push_poll (Some 9) 3 sh2 p2 = Inr (Pending, f, ws3, sh3, p3)"
    using push_poll_wp [OF s2(2), of 9 3] by (auto simp: wp_ex)
  have "reach (ring_init 1) ring_step 0 (?s sh p [] None)"
    by (rule reach.start) (use sh in \<open>auto simp: ring_init_def intro!: exI [of _ "\<lambda>_. True"] exI [of _ nat_elem]\<close>)
  from reach.next_step [OF this, OF ring_step.try_push [where v = 7 and r = None and ws = ws1 and sh = sh1 and p = p1]] s1(1)
  have "reach (ring_init 1) ring_step 1 (?s sh1 p1 [7] None)" by (simp add: still_waiting_def)
  from reach.next_step [OF this, OF ring_step.try_push [where v = 8 and r = None and ws = ws2 and sh = sh2 and p = p2]] s2(1)
  have "reach (ring_init 1) ring_step 2 (?s sh2 p2 [7, 8] None)" by (simp add: still_waiting_def numeral_2_eq_2)
  from reach.next_step [OF this, OF ring_step.push_poll [where v = 9 and w = 3 and r = Pending and fut = f and ws = ws3 and sh = sh3 and p = p3]] s3
  have "reach (ring_init 1) ring_step 3 (?s sh3 p3 [7, 8] (Some 3))" by (simp add: still_waiting_def numeral_3_eq_3)
  then show thesis by (rule that) simp_all
qed

text \<open>
  C19. Bounded FIFO. Whatever the two halves call and however stale their private copies of the indices
  are, what was pushed is what was popped followed by the contents, of at most the capacity; the counts
  the halves report are exact, and dropping the buffer drops exactly the contents, in order.
\<close>

theorem ring_fifo:
  assumes "reach (ring_init k) ring_step n s"
  shows "\<exists>xs. rg_pushed s = rg_popped s @ xs \<and> length xs \<le> 2 ^ k \<and>
    unat (fst (available_count (rg_sh s) (rg_c s))) = length xs \<and>
    unat (fst (free_count (rg_sh s) (rg_p s))) = 2 ^ k - length xs \<and>
    ring_drop (rg_sh s) = Inr (xs, rb_layout (rg_sh s))"
proof -
  obtain xs where xs: "ring_inv k (rg_sh s) (rg_p s) (rg_c s) xs" "rg_pushed s = rg_popped s @ xs"
    by (rule ring_sys_obtain [OF assms])
  from available_count_ok [OF xs(1)] free_count_ok [OF xs(1)] ring_drop_wp [OF xs(1)]
    ring_inv_index_simps [OF xs(1)] xs(2)
  show ?thesis by (intro exI [of _ xs]) (auto split: prod.splits)
qed

theorem ring_fifo_witness:
  "\<exists>s. reach (ring_init 1) ring_step 3 (s :: nat ring_sys) \<and>
     ring_drop (rg_sh s) = Inr ([7, 8], rb_layout (rg_sh s))"
proof -
  obtain s :: "nat ring_sys" where s: "reach (ring_init 1) ring_step 3 s" "rg_pushed s = [7, 8]" "rg_popped s = []"
    by (rule ring_run)
  from ring_fifo [OF s(1)] s show ?thesis by auto
qed

text \<open>
  No lost wakeup and no deadlock, call by call. A parked producer means a full buffer and a parked consumer an empty
  one, so never both; the next pop returns a value and wakes the producer, the next push succeeds and
  wakes the consumer.
\<close>

lemma ring_parked_halves_told:
  assumes "reach (ring_init k) ring_step n s"
  shows "(rg_pwait s = None \<or> rg_cwait s = None) \<and>
    (rg_pwait s = Some w \<longrightarrow> wp (try_pop (rg_sh s) (rg_c s)) (\<lambda>(r, ws, _). r \<noteq> None \<and> ws = [w])) \<and>
    (rg_cwait s = Some w \<longrightarrow> wp (try_push v (rg_sh s) (rg_p s)) (\<lambda>(r, ws, _). r = None \<and> ws = [w]))"
proof -
  obtain xs where xs: "ring_inv k (rg_sh s) (rg_p s) (rg_c s) xs" "rg_pushed s = rg_popped s @ xs"
    and p: "\<And>w. rg_pwait s = Some w \<Longrightarrow> length xs = 2 ^ k \<and> parked_on w (rb_pslot (rg_sh s))"
    and c: "\<And>w. rg_cwait s = Some w \<Longrightarrow> xs = [] \<and> parked_on w (rb_cslot (rg_sh s))"
    using ring_sys_obtain [OF assms] by metis
  have "rg_pwait s = None \<or> rg_cwait s = None" using p c by (cases "rg_pwait s"; cases "rg_cwait s") auto
  moreover have "wp (try_pop (rg_sh s) (rg_c s)) (\<lambda>(r, ws, _). r \<noteq> None \<and> ws = [w])" if pw: "rg_pwait s = Some w"
  proof -
    obtain y ys where "xs = y # ys" using p [OF pw] by (cases xs) auto
    with try_pop_inner_wp [OF xs(1), of True] p [OF pw] show ?thesis
      unfolding try_pop_def by (auto simp: parked_signal elim!: wp_mono)
  qed
  moreover have "wp (try_push v (rg_sh s) (rg_p s)) (\<lambda>(r, ws, _). r = None \<and> ws = [w])" if "rg_cwait s = Some w"
    using try_push_wp [OF xs(1), of v] c [OF that] by (auto simp: parked_signal elim!: wp_mono)
  ultimately show ?thesis by blast
qed

section \<open>Slices are single operations in bulk\<close>

lemma ring_rep_unique:
  assumes "ring_rep n buf h xs" "ring_rep n buf' h xs"
  shows "buf = buf'"
proof (rule nth_equalityI)
  show "length buf = length buf'" using assms by (simp add: ring_rep_def)
next
  fix j assume "j < length buf"
  then have j: "j < n" "h < n" using assms by (auto simp: ring_rep_def)
  define i where "i = (j + (n - h)) mod n"
  have "i < n" "(h + i) mod n = j" using j by (simp_all add: i_def mod_add_right_eq)
  then show "buf ! j = buf' ! j" using assms by (auto simp: ring_rep_def)
qed

text \<open>The contents and the read index determine the buffer and the write index.\<close>

lemma ring_inv_canonical:
  assumes "ring_inv k sh p c xs" "ring_inv k sh' p' c' xs" "rb_read sh = rb_read sh'"
  shows "rb_buffer sh = rb_buffer sh' \<and> rb_write sh = rb_write sh'"
proof -
  have view: "ring_rep (2 ^ k) (rb_buffer sh) (unat (rb_read sh AND (of_nat (2 ^ k) - 1))) xs \<and>
      rb_write sh = rb_read sh + of_nat (length xs)" if inv: "ring_inv k sh p c xs" for sh p c
  proof -
    obtain R W pr cw where v: "ring_view k sh p c R W pr cw xs" using inv by (auto simp: ring_inv_def)
    note d = ring_viewD [OF v]
    have "W = R + length xs" using d(11,12,15) by simp
    with d(4,7,14) ring_view_index(3) [OF v, of R] d(3) show ?thesis by simp
  qed
  show ?thesis using view [OF assms(1)] view [OF assms(2)] assms(3) ring_rep_unique by metis
qed

fun push_each :: "'a list \<Rightarrow> 'a ring_shared \<Rightarrow> half \<Rightarrow> ('a ring_shared \<times> half) res" where
  "push_each [] sh p = Inr (sh, p)"
| "push_each (x # xs) sh p =
     rbind (try_push x sh p) (\<lambda>(r, _, sh', p').
     rbind (rassert (r = None) (Assertion ''full'')) (\<lambda>_. push_each xs sh' p'))"

fun pop_each :: "nat \<Rightarrow> 'a ring_shared \<Rightarrow> half \<Rightarrow> ('a list \<times> 'a ring_shared \<times> half) res" where
  "pop_each 0 sh c = Inr ([], sh, c)"
| "pop_each (Suc n) sh c =
     rbind (try_pop sh c) (\<lambda>(r, _, sh', c').
       case r of None \<Rightarrow> Inl (Assertion ''empty'')
       | Some x \<Rightarrow> rbind (pop_each n sh' c') (\<lambda>(xs, sh'', c''). Inr (x # xs, sh'', c'')))"

lemma try_push_read: "try_push v sh p = Inr (r, ws, sh', p') \<Longrightarrow> rb_read sh' = rb_read sh"
  by (auto simp: try_push_def Let_def rbind_Inr_iff split_def split: if_splits)

lemma try_push_slice_read: "try_push_slice vs sh p = Inr (n, ws, sh', p') \<Longrightarrow> rb_read sh' = rb_read sh"
  by (auto simp: try_push_slice_def push_slice_commit_def Let_def rbind_Inr_iff split_def split: if_splits)

lemma try_pop_write: "try_pop sh c = Inr (r, ws, sh', c') \<Longrightarrow> rb_write sh' = rb_write sh"
  by (auto simp: try_pop_def try_pop_inner_def Let_def rbind_Inr_iff split_def split: if_splits)

lemma try_pop_slice_write: "try_pop_slice n sh c = Inr (r, ws, sh', c') \<Longrightarrow> rb_write sh' = rb_write sh"
  by (auto simp: try_pop_slice_def pop_slice_commit_def Let_def rbind_Inr_iff split_def split: if_splits)

lemma push_each_wp:
  "ring_inv k sh p c xs \<Longrightarrow> length xs + length ys \<le> 2 ^ k \<Longrightarrow>
   wp (push_each ys sh p) (\<lambda>(sh', p'). ring_inv k sh' p' c (xs @ ys) \<and> rb_read sh' = rb_read sh)"
proof (induction ys arbitrary: sh p xs)
  case Nil
  then show ?case by simp
next
  case (Cons y ys)
  obtain ws sh' p' where push: "try_push y sh p = Inr (None, ws, sh', p')" "ring_inv k sh' p' c (xs @ [y])"
    using try_push_wp [OF Cons.prems(1), of y] Cons.prems(2) by (auto simp: wp_ex)
  from Cons.IH [OF push(2)] Cons.prems(2) push(1) try_push_read [OF push(1)] show ?case by simp
qed

lemma pop_each_wp:
  "ring_inv k sh p c (ys @ zs) \<Longrightarrow>
   wp (pop_each (length ys) sh c) (\<lambda>(xs, sh', c'). xs = ys \<and> ring_inv k sh' p c' zs \<and> rb_write sh' = rb_write sh)"
proof (induction ys arbitrary: sh c)
  case Nil
  then show ?case by simp
next
  case (Cons y ys)
  obtain ws sh' c' where pop: "try_pop sh c = Inr (Some y, ws, sh', c')" "ring_inv k sh' p c' (ys @ zs)"
    using try_pop_inner_wp [OF Cons.prems(1), of True] by (auto simp: wp_ex try_pop_def)
  from Cons.IH [OF pop(2)] pop(1) try_pop_write [OF pop(1)] show ?case by (auto elim!: wp_mono)
qed

text \<open>The read index is determined by the contents and the write index as well.\<close>

lemma ring_inv_read:
  assumes "ring_inv k sh p c xs" "ring_inv k sh' p' c' xs" "rb_write sh = rb_write sh'"
  shows "rb_read sh = rb_read sh'"
proof -
  have "rb_write sh = rb_read sh + of_nat (length xs)" if "ring_inv k sh p c xs" for sh :: "'a ring_shared" and p c
    using that by (auto simp: ring_inv_def ring_view_def)
  then show ?thesis using assms by (metis add_right_cancel)
qed

text \<open>
  C22. The bulk operations, which copy at most two contiguous runs, leave the same buffer, the same
  indices and the same values as one single push or pop per element.
\<close>

theorem ring_slices_equiv:
  assumes inv: "ring_inv k sh p c xs"
  shows "wp (try_push_slice items sh p) (\<lambda>(n, _, sh1, _).
      wp (push_each (take n items) sh p) (\<lambda>(sh2, _).
        rb_buffer sh2 = rb_buffer sh1 \<and> rb_write sh2 = rb_write sh1 \<and> rb_read sh2 = rb_read sh1)) \<and>
    wp (try_pop_slice m sh c) (\<lambda>(ys, _, sh1, _).
      wp (pop_each (length ys) sh c) (\<lambda>(zs, sh2, _). zs = ys \<and>
        rb_buffer sh2 = rb_buffer sh1 \<and> rb_write sh2 = rb_write sh1 \<and> rb_read sh2 = rb_read sh1))"
proof
  obtain n ws sh1 p1 where push: "try_push_slice items sh p = Inr (n, ws, sh1, p1)"
    "n \<le> 2 ^ k - length xs" "ring_inv k sh1 p1 c (xs @ take n items)"
    using try_push_slice_wp [OF inv, of items] by (auto simp: wp_ex)
  have "length xs + length (take n items) \<le> 2 ^ k" using push(2) ring_inv_index_simps [OF inv] by simp
  from push_each_wp [OF inv this] push(1) show "wp (try_push_slice items sh p) (\<lambda>(n, _, sh1, _).
      wp (push_each (take n items) sh p) (\<lambda>(sh2, _).
        rb_buffer sh2 = rb_buffer sh1 \<and> rb_write sh2 = rb_write sh1 \<and> rb_read sh2 = rb_read sh1))"
    using ring_inv_canonical [OF _ push(3)] try_push_slice_read [OF push(1)] by (auto elim!: wp_mono)
next
  obtain ys ws sh1 c1 where pop: "try_pop_slice m sh c = Inr (ys, ws, sh1, c1)"
    "ys = take (length ys) xs" "ring_inv k sh1 p c1 (drop (length ys) xs)"
    using try_pop_slice_wp [OF inv, of m] by (auto simp: wp_ex)
  have "ring_inv k sh p c (ys @ drop (length ys) xs)" using inv pop(2) by (metis append_take_drop_id)
  from pop_each_wp [OF this] pop(1) show "wp (try_pop_slice m sh c) (\<lambda>(ys, _, sh1, _).
      wp (pop_each (length ys) sh c) (\<lambda>(zs, sh2, _). zs = ys \<and>
        rb_buffer sh2 = rb_buffer sh1 \<and> rb_write sh2 = rb_write sh1 \<and> rb_read sh2 = rb_read sh1))"
    using ring_inv_canonical [OF _ pop(3)] ring_inv_read [OF _ pop(3)] try_pop_slice_write [OF pop(1)]
    by (auto elim!: wp_mono)
qed

theorem ring_slices_equiv_witness:
  "\<exists>(sh :: nat ring_shared) p c. ring_inv 1 sh p c [] \<and>
     wp (try_push_slice [5, 6, 7] sh p) (\<lambda>(n, _, sh1, _).
       wp (push_each (take n [5, 6, 7]) sh p) (\<lambda>(sh2, _). rb_buffer sh2 = rb_buffer sh1))"
proof -
  obtain sh :: "nat ring_shared" and p c where inv: "ring_inv 1 sh p c []" by (rule ring_fresh)
  from ring_slices_equiv [OF inv, of "[5, 6, 7]" 2] have "wp (try_push_slice [5, 6, 7] sh p) (\<lambda>(n, _, sh1, _).
       wp (push_each (take n [5, 6, 7]) sh p) (\<lambda>(sh2, _). rb_buffer sh2 = rb_buffer sh1))"
    by (auto elim!: wp_mono)
  with inv show ?thesis by blast
qed

text \<open>
  C23. The progress counter of the counted slice transfers. The first, synchronous attempt sets it to
  the items transferred, and every poll that stays pending leaves it at the items transferred so far.
  But the poll that completes the transfer, which is the first one to find room for all the items left
  (or as many elements as are still wanted), returns without writing it: whether it completes on its
  first attempt or after arming, the counter is then at least the old count and strictly less than the
  number of items, all of which have been transferred.
\<close>

theorem ring_slice_progress_stale:
  assumes inv: "ring_inv k sh p c xs"
    and fut: "psf_ok fut" "psf_progress fut = Some (psf_pushed fut)"
    and gut: "qsf_ok gut" "qsf_progress gut = Some (length (qsf_popped gut))"
  shows "wp (push_slice_start items sh p) (\<lambda>(_, fut, _). psf_progress fut = Some (psf_pushed fut)) \<and>
    wp (push_slice_poll fut w sh p) (\<lambda>(r, fut', _).
      (r = Ready () \<longleftrightarrow> length xs + (length (psf_items fut) - psf_pushed fut) \<le> 2 ^ k) \<and>
      (case r of Pending \<Rightarrow> psf_progress fut' = Some (psf_pushed fut')
       | Ready _ \<Rightarrow> psf_pushed fut' = length (psf_items fut) \<and>
           (\<exists>m. psf_progress fut' = Some m \<and> psf_pushed fut \<le> m \<and> m < length (psf_items fut)))) \<and>
    wp (pop_slice_start n sh c) (\<lambda>(_, gut, _). qsf_progress gut = Some (length (qsf_popped gut))) \<and>
    wp (pop_slice_poll gut w sh c) (\<lambda>(r, gut', _).
      (r = Ready () \<longleftrightarrow> qsf_len gut - length (qsf_popped gut) \<le> length xs) \<and>
      (case r of Pending \<Rightarrow> qsf_progress gut' = Some (length (qsf_popped gut'))
       | Ready _ \<Rightarrow> length (qsf_popped gut') = qsf_len gut \<and>
           (\<exists>m. qsf_progress gut' = Some m \<and> length (qsf_popped gut) \<le> m \<and> m < qsf_len gut)))"
proof (intro conjI)
  show "wp (push_slice_start items sh p) (\<lambda>(_, fut, _). psf_progress fut = Some (psf_pushed fut))"
    using try_push_slice_wp [OF inv, of items] by (auto simp: push_slice_start_def elim!: wp_mono)
  show "wp (pop_slice_start n sh c) (\<lambda>(_, gut, _). qsf_progress gut = Some (length (qsf_popped gut)))"
    using try_pop_slice_wp [OF inv, of n] by (auto simp: pop_slice_start_def elim!: wp_mono)
next
  obtain r fut' ws sh' p' ys where poll: "push_slice_poll fut w sh p = Inr (r, fut', ws, sh', p')"
    and ys: "psf_items fut' = psf_items fut" "psf_pushed fut' = psf_pushed fut + length ys"
      "take (length ys) (drop (psf_pushed fut) (psf_items fut)) = ys" "ring_inv k sh' p' c (xs @ ys)"
      "r = Ready () \<longleftrightarrow> psf_pushed fut' = length (psf_items fut')"
      "r = Pending \<longrightarrow> psf_ok fut' \<and> length (xs @ ys) = 2 ^ k \<and> psf_progress fut' = Some (psf_pushed fut')"
      "r = Ready () \<longrightarrow> (\<exists>m. psf_progress fut' = Some m \<and> psf_pushed fut \<le> m \<and> m < length (psf_items fut))"
    using push_slice_poll_wp [OF inv fut(1), of w] fut(2) unfolding wp_ex by auto
  have "length (xs @ ys) \<le> 2 ^ k" using ring_inv_index_simps [OF ys(4)] .
  then have "r = Ready () \<longleftrightarrow> length xs + (length (psf_items fut) - psf_pushed fut) \<le> 2 ^ k"
    using ys by (cases r) (auto simp: psf_ok_def)
  then show "wp (push_slice_poll fut w sh p) (\<lambda>(r, fut', _).
      (r = Ready () \<longleftrightarrow> length xs + (length (psf_items fut) - psf_pushed fut) \<le> 2 ^ k) \<and>
      (case r of Pending \<Rightarrow> psf_progress fut' = Some (psf_pushed fut')
       | Ready _ \<Rightarrow> psf_pushed fut' = length (psf_items fut) \<and>
           (\<exists>m. psf_progress fut' = Some m \<and> psf_pushed fut \<le> m \<and> m < length (psf_items fut))))"
    using ys(1,5-7) by (cases r) (simp_all add: poll)
next
  obtain r gut' ws sh' c' ys zs where poll: "pop_slice_poll gut w sh c = Inr (r, gut', ws, sh', c')"
    and ys: "xs = ys @ zs" "qsf_len gut' = qsf_len gut" "qsf_popped gut' = qsf_popped gut @ ys"
      "r = Ready () \<longleftrightarrow> length (qsf_popped gut') = qsf_len gut'" 
      "r = Pending \<longrightarrow> qsf_ok gut' \<and> zs = [] \<and> qsf_progress gut' = Some (length (qsf_popped gut'))"
      "r = Ready () \<longrightarrow> (\<exists>m. qsf_progress gut' = Some m \<and> length (qsf_popped gut) \<le> m \<and> m < qsf_len gut)"
    using pop_slice_poll_wp [OF inv gut(1), of w] gut(2) unfolding wp_ex by auto
  have "r = Ready () \<longleftrightarrow> qsf_len gut - length (qsf_popped gut) \<le> length xs"
    using ys by (cases r) (auto simp: qsf_ok_def)
  then show "wp (pop_slice_poll gut w sh c) (\<lambda>(r, gut', _).
      (r = Ready () \<longleftrightarrow> qsf_len gut - length (qsf_popped gut) \<le> length xs) \<and>
      (case r of Pending \<Rightarrow> qsf_progress gut' = Some (length (qsf_popped gut'))
       | Ready _ \<Rightarrow> length (qsf_popped gut') = qsf_len gut \<and>
           (\<exists>m. qsf_progress gut' = Some m \<and> length (qsf_popped gut) \<le> m \<and> m < qsf_len gut)))"
    using ys(2,4-6) by (cases r) (simp_all add: poll)
qed

theorem ring_slice_progress_stale_witness:
  "\<exists>(sh :: nat ring_shared) p. wp (push_slice_poll \<lparr>psf_items = [5, 6, 7], psf_pushed = 1, psf_progress = Some 1\<rparr> 1 sh p)
     (\<lambda>(r, fut', _). r = Ready () \<and> psf_pushed fut' = 3 \<and> psf_progress fut' \<in> {Some 1, Some 2})"
proof -
  obtain sh :: "nat ring_shared" and p c where inv: "ring_inv 1 sh p c []" by (rule ring_fresh)
  let ?f = "\<lparr>psf_items = [5 :: nat, 6, 7], psf_pushed = 1, psf_progress = Some 1\<rparr>"
    and ?g = "\<lparr>qsf_len = 1, qsf_popped = [] :: nat list, qsf_progress = Some 0\<rparr>"
  have "wp (push_slice_poll ?f 1 sh p)
     (\<lambda>(r, fut', _). r = Ready () \<and> psf_pushed fut' = 3 \<and> psf_progress fut' \<in> {Some 1, Some 2})"
    by (rule wp_mono [OF ring_slice_progress_stale [OF inv, of ?f ?g "[]" 1 0, THEN conjunct2, THEN conjunct1]])
      (auto simp: psf_ok_def qsf_ok_def)
  then show ?thesis by blast
qed

end
