(* ===== verification/Ring_Threads.thy ===== *)
theory Ring_Threads
  imports Slot_Access Ring_System
begin

unbundle bit_operations_syntax

text \<open>
  The ring buffer (\<open>src/src/site_d/ringbuf.rs\<close>) with a producer and a consumer thread that interleave at
  every shared access, under sequential consistency: loads and stores of the indices, single items moved
  in and out of the buffer, and the accesses of \<open>arm\<close>, \<open>disarm\<close> and \<open>signal\<close>. This theory has the threads and
  the invariant of the data; \<open>Ring_Wakeups\<close> has the wakeups.
\<close>

section \<open>The two threads\<close>

text \<open>
  An attempt is one run of \<open>try_push_slice\<close> or \<open>try_pop_slice\<close>; \<open>try_push\<close> and \<open>try_pop\<close> are attempts at one
  item, with the same tests.
\<close>

text \<open>
  Where a thread is, with \<open>m\<close> items wanted. \<open>Load\<close>: the private copies leave no room, next the load of the
  other side's index. \<open>Copy md m n j\<close>: \<open>n\<close> items will be transferred and \<open>j\<close> have been; after the last
  one comes the store of the own index. \<open>Signal\<close>: inside \<open>signal\<close>. \<open>Register\<close>: inside \<open>arm\<close>. \<open>Clear\<close>: before
  \<open>disarm\<close>. \<open>Waiting\<close>: \<open>poll\<close> has returned \<open>Pending\<close>. \<open>Out\<close>: no call and no pending future.
\<close>

datatype side_pc =
    Out | Load mode nat | Copy mode nat nat nat | Signal mode nat nat signal_pc
  | Register nat waiter_pc | Clear | Waiting

record side =
  sd_half :: half
  sd_pc :: side_pc
  sd_cur :: waker
  sd_woken :: bool

text \<open>
  \<open>sd_cur\<close> is the waker of the last registration and \<open>sd_woken\<close> whether it was called since, through the
  slot of this side.
\<close>

text \<open>The end of an attempt that transferred \<open>n\<close> of \<open>want\<close> items.\<close>

definition after :: "mode \<Rightarrow> nat \<Rightarrow> nat \<Rightarrow> side \<Rightarrow> side" where
  "after md want n x =
     (case md of
        Plain \<Rightarrow> x\<lparr>sd_pc := Out\<rparr>
      | First w \<Rightarrow>
          if n = want then x\<lparr>sd_pc := Out\<rparr>
          else x\<lparr>sd_pc := Register (want - n) Reg1, sd_cur := w, sd_woken := False\<rparr>
      | Second \<Rightarrow> x\<lparr>sd_pc := (if n = want then Clear else Waiting)\<rparr>)"

text \<open>The test on the private copies, and the test after the load.\<close>

definition look :: "usize \<Rightarrow> mode \<Rightarrow> nat \<Rightarrow> side \<Rightarrow> side" where
  "look available md want x =
     (if available = 0 then x\<lparr>sd_pc := Load md want\<rparr>
      else x\<lparr>sd_pc := Copy md want (min want (unat available)) 0\<rparr>)"

definition look_again :: "usize \<Rightarrow> mode \<Rightarrow> nat \<Rightarrow> side \<Rightarrow> side" where
  "look_again available md want x =
     (if available = 0 then after md want 0 x
      else x\<lparr>sd_pc := Copy md want (min want (unat available)) 0\<rparr>)"

text \<open>The outcome of one access of \<open>signal\<close> and of \<open>arm\<close>.\<close>

definition told :: "waker list \<Rightarrow> side \<Rightarrow> side" where
  "told ws x = x\<lparr>sd_woken := sd_woken x \<or> sd_cur x \<in> set ws\<rparr>"

definition signalled :: "mode \<Rightarrow> nat \<Rightarrow> nat \<Rightarrow> signal_pc \<Rightarrow> side \<Rightarrow> side" where
  "signalled md want n q x = (if q = Quiet then after md want n x else x\<lparr>sd_pc := Signal md want n q\<rparr>)"

definition registered :: "usize \<Rightarrow> nat \<Rightarrow> waiter_pc \<Rightarrow> side \<Rightarrow> side" where
  "registered available want q x =
     (if q = Recheck then look available Second want x else x\<lparr>sd_pc := Register want q\<rparr>)"

text \<open>\<open>rt_items\<close>: what the producer's call still has to push; what was put into and taken out of the buffer.\<close>

record 'a rt_sys =
  rt_sh :: "'a ring_shared"
  rt_p :: side
  rt_c :: side
  rt_items :: "'a list"
  rt_pushed :: "'a list"
  rt_popped :: "'a list"

definition p_avail :: "'a ring_shared \<Rightarrow> half \<Rightarrow> usize" where
  "p_avail sh p = saturating_sub (rb_capacity sh) (cached_write p - cached_read p)"

definition c_avail :: "half \<Rightarrow> usize" where
  "c_avail c = cached_write c - cached_read c"

abbreviation p_half :: "'a rt_sys \<Rightarrow> half" where "p_half s \<equiv> sd_half (rt_p s)"
abbreviation c_half :: "'a rt_sys \<Rightarrow> half" where "c_half s \<equiv> sd_half (rt_c s)"

text \<open>The slot of the \<open>j\<close>-th item: \<open>copy_nonoverlapping\<close> up to the end of the buffer and then from its start.\<close>

definition p_slot :: "'a rt_sys \<Rightarrow> nat \<Rightarrow> nat" where
  "p_slot s j = unat ((cached_write (p_half s) + of_nat j) AND rb_mask (rt_sh s))"

definition c_slot :: "'a rt_sys \<Rightarrow> nat \<Rightarrow> nat" where
  "c_slot s j = unat ((cached_read (c_half s) + of_nat j) AND rb_mask (rt_sh s))"

definition p_called :: "'a list \<Rightarrow> mode \<Rightarrow> 'a rt_sys \<Rightarrow> 'a rt_sys" where
  "p_called items md s =
     s\<lparr>rt_items := items, rt_p := look (p_avail (rt_sh s) (p_half s)) md (length items) (rt_p s)\<rparr>"

definition c_called :: "nat \<Rightarrow> mode \<Rightarrow> 'a rt_sys \<Rightarrow> 'a rt_sys" where
  "c_called m md s = s\<lparr>rt_c := look (c_avail (c_half s)) md m (rt_c s)\<rparr>"

definition p_counted :: "'a rt_sys \<Rightarrow> 'a rt_sys" where
  "p_counted s =
     s\<lparr>rt_p := (rt_p s)\<lparr>sd_half := (p_half s)\<lparr>cached_read := rb_read (rt_sh s)\<rparr>, sd_pc := Out\<rparr>\<rparr>"

definition c_counted :: "'a rt_sys \<Rightarrow> 'a rt_sys" where
  "c_counted s =
     s\<lparr>rt_c := (rt_c s)\<lparr>sd_half := (c_half s)\<lparr>cached_write := rb_write (rt_sh s)\<rparr>, sd_pc := Out\<rparr>\<rparr>"

lemmas called_defs = p_called_def c_called_def p_counted_def c_counted_def

definition new_side :: "half \<Rightarrow> side \<Rightarrow> bool" where
  "new_side h x \<longleftrightarrow> sd_half x = h \<and> sd_pc x = Out"

definition rt_init :: "nat \<Rightarrow> 'a rt_sys \<Rightarrow> bool" where
  "rt_init k s \<longleftrightarrow> (\<exists>alloc el sh.
     k < 64 \<and> ring_new alloc el (2 ^ k) = Inr sh \<and>
     (case ring_split sh of (sh', p, c) \<Rightarrow> rt_sh s = sh' \<and> new_side p (rt_p s) \<and> new_side c (rt_c s)) \<and>
     rt_pushed s = [] \<and> rt_popped s = [])"

text \<open>
  One step per shared access; a call begins with its private test. A future that is \<open>Waiting\<close> may be
  polled again or dropped, so any new call may follow.
\<close>

inductive rt_step :: "'a rt_sys \<Rightarrow> 'a rt_sys \<Rightarrow> bool" where
  p_call: "sd_pc (rt_p s) \<in> {Out, Waiting} \<Longrightarrow> items \<noteq> [] \<Longrightarrow> md \<noteq> Second \<Longrightarrow>
    rt_step s (p_called items md s)"
| p_load: "sd_pc (rt_p s) = Load md m \<Longrightarrow> h = (p_half s)\<lparr>cached_read := rb_read (rt_sh s)\<rparr> \<Longrightarrow>
    rt_step s (s\<lparr>rt_p := look_again (p_avail (rt_sh s) h) md m ((rt_p s)\<lparr>sd_half := h\<rparr>)\<rparr>)"
| p_copy: "sd_pc (rt_p s) = Copy md m n j \<Longrightarrow> j < n \<Longrightarrow>
    slot_write (rb_buffer (rt_sh s)) (p_slot s j) (rt_items s ! j) = Inr buf \<Longrightarrow>
    rt_step s (s\<lparr>rt_sh := (rt_sh s)\<lparr>rb_buffer := buf\<rparr>, rt_p := (rt_p s)\<lparr>sd_pc := Copy md m n (Suc j)\<rparr>,
      rt_pushed := rt_pushed s @ [rt_items s ! j]\<rparr>)"
| p_store: "sd_pc (rt_p s) = Copy md m n n \<Longrightarrow> w = cached_write (p_half s) + of_nat n \<Longrightarrow>
    rt_step s (s\<lparr>rt_sh := (rt_sh s)\<lparr>rb_write := w\<rparr>,
      rt_p := (rt_p s)\<lparr>sd_half := (p_half s)\<lparr>cached_write := w\<rparr>, sd_pc := Signal md m n Gate\<rparr>,
      rt_items := drop n (rt_items s)\<rparr>)"
| p_signal: "sd_pc (rt_p s) = Signal md m n q \<Longrightarrow> sig_access q (rb_cslot (rt_sh s)) = (ws, q', slot) \<Longrightarrow>
    rt_step s (s\<lparr>rt_sh := (rt_sh s)\<lparr>rb_cslot := slot\<rparr>, rt_p := signalled md m n q' (rt_p s),
      rt_c := told ws (rt_c s)\<rparr>)"
| p_reg: "sd_pc (rt_p s) = Register m q \<Longrightarrow>
    reg_access (sd_cur (rt_p s)) q (rb_pslot (rt_sh s)) = Inr (ws, q', slot) \<Longrightarrow>
    rt_step s (s\<lparr>rt_sh := (rt_sh s)\<lparr>rb_pslot := slot\<rparr>,
      rt_p := registered (p_avail (rt_sh s) (p_half s)) m q' (told ws (rt_p s))\<rparr>)"
| p_disarm: "sd_pc (rt_p s) = Clear \<Longrightarrow>
    rt_step s (s\<lparr>rt_sh := (rt_sh s)\<lparr>rb_pslot := slot_disarm (rb_pslot (rt_sh s))\<rparr>,
      rt_p := (rt_p s)\<lparr>sd_pc := Out\<rparr>\<rparr>)"
| p_count: "sd_pc (rt_p s) \<in> {Out, Waiting} \<Longrightarrow> rt_step s (p_counted s)"
| c_call: "sd_pc (rt_c s) \<in> {Out, Waiting} \<Longrightarrow> 0 < m \<Longrightarrow> md \<noteq> Second \<Longrightarrow>
    rt_step s (c_called m md s)"
| c_load: "sd_pc (rt_c s) = Load md m \<Longrightarrow> h = (c_half s)\<lparr>cached_write := rb_write (rt_sh s)\<rparr> \<Longrightarrow>
    rt_step s (s\<lparr>rt_c := look_again (c_avail h) md m ((rt_c s)\<lparr>sd_half := h\<rparr>)\<rparr>)"
| c_copy: "sd_pc (rt_c s) = Copy md m n j \<Longrightarrow> j < n \<Longrightarrow>
    slot_take (rb_buffer (rt_sh s)) (c_slot s j) = Inr (v, buf) \<Longrightarrow>
    rt_step s (s\<lparr>rt_sh := (rt_sh s)\<lparr>rb_buffer := buf\<rparr>, rt_c := (rt_c s)\<lparr>sd_pc := Copy md m n (Suc j)\<rparr>,
      rt_popped := rt_popped s @ [v]\<rparr>)"
| c_store: "sd_pc (rt_c s) = Copy md m n n \<Longrightarrow> r = cached_read (c_half s) + of_nat n \<Longrightarrow>
    rt_step s (s\<lparr>rt_sh := (rt_sh s)\<lparr>rb_read := r\<rparr>,
      rt_c := (rt_c s)\<lparr>sd_half := (c_half s)\<lparr>cached_read := r\<rparr>, sd_pc := Signal md m n Gate\<rparr>\<rparr>)"
| c_signal: "sd_pc (rt_c s) = Signal md m n q \<Longrightarrow> sig_access q (rb_pslot (rt_sh s)) = (ws, q', slot) \<Longrightarrow>
    rt_step s (s\<lparr>rt_sh := (rt_sh s)\<lparr>rb_pslot := slot\<rparr>, rt_p := told ws (rt_p s),
      rt_c := signalled md m n q' (rt_c s)\<rparr>)"
| c_reg: "sd_pc (rt_c s) = Register m q \<Longrightarrow>
    reg_access (sd_cur (rt_c s)) q (rb_cslot (rt_sh s)) = Inr (ws, q', slot) \<Longrightarrow>
    rt_step s (s\<lparr>rt_sh := (rt_sh s)\<lparr>rb_cslot := slot\<rparr>,
      rt_c := registered (c_avail (c_half s)) m q' (told ws (rt_c s))\<rparr>)"
| c_disarm: "sd_pc (rt_c s) = Clear \<Longrightarrow>
    rt_step s (s\<lparr>rt_sh := (rt_sh s)\<lparr>rb_cslot := slot_disarm (rb_cslot (rt_sh s))\<rparr>,
      rt_c := (rt_c s)\<lparr>sd_pc := Out\<rparr>\<rparr>)"
| c_count: "sd_pc (rt_c s) \<in> {Out, Waiting} \<Longrightarrow> rt_step s (c_counted s)"

section \<open>Invariant of the data\<close>

text \<open>
  \<open>taking\<close>: items the thread has decided to transfer and not published; \<open>copied\<close>: how many of them are
  done. \<open>room\<close> is what the private copies allow; a thread that got less than it wanted has used it up.
\<close>

fun taking :: "side_pc \<Rightarrow> nat" where "taking (Copy md m n j) = n" | "taking _ = 0"
fun copied :: "side_pc \<Rightarrow> nat" where "copied (Copy md m n j) = j" | "copied _ = 0"

fun wanted :: "side_pc \<Rightarrow> nat \<Rightarrow> bool" where
  "wanted (Load md m) l = (l = m)" | "wanted (Copy md m n j) l = (l = m)"
| "wanted (Signal md m n q) l = (l = m - n)" | "wanted (Register m q) l = (l = m)" | "wanted _ l = True"

fun side_ok :: "nat \<Rightarrow> side_pc \<Rightarrow> bool" where
  "side_ok room (Load md m) \<longleftrightarrow> room = 0 \<and> 0 < m"
| "side_ok room (Copy md m n j) \<longleftrightarrow> j \<le> n \<and> 0 < n \<and> n \<le> m \<and> n \<le> room \<and> (n < m \<longrightarrow> n = room)"
| "side_ok room (Signal md m n q) \<longleftrightarrow> q \<noteq> Quiet \<and> n \<le> m \<and> (n < m \<longrightarrow> room = 0)"
| "side_ok room (Register m q) \<longleftrightarrow> arming q \<and> room = 0 \<and> 0 < m"
| "side_ok room _ \<longleftrightarrow> True"

text \<open>The counters behind the indices are those of \<open>ring_view\<close>; the buffer is ahead of them by the copied items.\<close>

definition rt_data :: "nat \<Rightarrow> 'a rt_sys \<Rightarrow> nat \<Rightarrow> nat \<Rightarrow> nat \<Rightarrow> nat \<Rightarrow> 'a list \<Rightarrow> bool" where
  "rt_data k s R W pr cw xs \<longleftrightarrow>
     k < 64 \<and> rb_capacity (rt_sh s) = of_nat (2 ^ k) \<and> rb_mask (rt_sh s) = of_nat (2 ^ k) - 1 \<and>
     rb_write (rt_sh s) = of_nat W \<and> cached_write (p_half s) = of_nat W \<and> cached_read (p_half s) = of_nat pr \<and>
     rb_read (rt_sh s) = of_nat R \<and> cached_read (c_half s) = of_nat R \<and> cached_write (c_half s) = of_nat cw \<and>
     pr \<le> R \<and> R \<le> cw \<and> cw \<le> W \<and> W \<le> pr + 2 ^ k \<and>
     side_ok (pr + 2 ^ k - W) (sd_pc (rt_p s)) \<and> side_ok (cw - R) (sd_pc (rt_c s)) \<and>
     wanted (sd_pc (rt_p s)) (length (rt_items s)) \<and>
     ring_rep (2 ^ k) (rb_buffer (rt_sh s)) ((R + copied (sd_pc (rt_c s))) mod 2 ^ k) xs \<and>
     length xs + (R + copied (sd_pc (rt_c s))) = W + copied (sd_pc (rt_p s)) \<and>
     rt_pushed s = rt_popped s @ xs"

definition rt_inv :: "nat \<Rightarrow> 'a rt_sys \<Rightarrow> bool" where
  "rt_inv k s \<longleftrightarrow> (\<exists>R W pr cw xs. rt_data k s R W pr cw xs)"

lemma rt_dataD:
  assumes "rt_data k s R W pr cw xs"
  shows "k < 64" "rb_capacity (rt_sh s) = of_nat (2 ^ k)" "rb_mask (rt_sh s) = of_nat (2 ^ k) - 1"
    "rb_write (rt_sh s) = of_nat W" "cached_write (p_half s) = of_nat W" "cached_read (p_half s) = of_nat pr"
    "rb_read (rt_sh s) = of_nat R" "cached_read (c_half s) = of_nat R" "cached_write (c_half s) = of_nat cw"
    "pr \<le> R" "R \<le> cw" "cw \<le> W" "W \<le> pr + 2 ^ k"
    "side_ok (pr + 2 ^ k - W) (sd_pc (rt_p s))" "side_ok (cw - R) (sd_pc (rt_c s))"
    "wanted (sd_pc (rt_p s)) (length (rt_items s))"
    "ring_rep (2 ^ k) (rb_buffer (rt_sh s)) ((R + copied (sd_pc (rt_c s))) mod 2 ^ k) xs"
    "length xs + (R + copied (sd_pc (rt_c s))) = W + copied (sd_pc (rt_p s))"
    "rt_pushed s = rt_popped s @ xs"
  using assms by (simp_all only: rt_data_def)

lemma rt_invI: "rt_data k s R W pr cw xs \<Longrightarrow> rt_inv k s"
  unfolding rt_inv_def by blast

lemma p_avail_room:
  assumes "k < 64" "rb_capacity sh = of_nat (2 ^ k)" "cached_write h = of_nat W" "cached_read h = of_nat r"
    "r \<le> W" "W \<le> r + 2 ^ k"
  shows "unat (p_avail sh h) = r + 2 ^ k - W"
  using assms ring_sub [of k r W] unat_of_nat_eq [OF pow_less_word [OF assms(1)]]
  by (simp add: p_avail_def saturating_sub_nat)

lemma c_avail_room:
  assumes "k < 64" "cached_write h = of_nat w" "cached_read h = of_nat R" "R \<le> w" "w \<le> R + 2 ^ k"
  shows "unat (c_avail h) = w - R"
  using assms ring_sub [of k R w] by (simp add: c_avail_def)

text \<open>What a look leaves behind.\<close>

lemma after_half [simp]: "sd_half (after md m n x) = sd_half x"
  by (simp add: after_def split: mode.splits)

lemma after_pc [simp]: "copied (sd_pc (after md m n x)) = 0" "taking (sd_pc (after md m n x)) = 0"
  by (simp_all add: after_def split: mode.splits)

lemma after_ok: "n \<le> m \<Longrightarrow> (n < m \<Longrightarrow> room = 0) \<Longrightarrow> side_ok room (sd_pc (after md m n x))"
  by (simp add: after_def split: mode.splits)

lemma after_wanted: "wanted (sd_pc (after md m n x)) (m - n)"
  by (simp add: after_def split: mode.splits)

lemma look_half [simp]:
  "sd_half (look a md m x) = sd_half x" "sd_half (look_again a md m x) = sd_half x"
  by (simp_all add: look_def look_again_def)

lemma look_copied [simp]:
  "copied (sd_pc (look a md m x)) = 0" "copied (sd_pc (look_again a md m x)) = 0"
  by (simp_all add: look_def look_again_def)

lemma look_wanted [simp]: "wanted (sd_pc (look a md m x)) m" "wanted (sd_pc (look_again a md m x)) m"
  using after_wanted [of md m 0 x] by (simp_all add: look_def look_again_def)

lemma look_ok:
  "unat a = room \<Longrightarrow> 0 < m \<Longrightarrow> side_ok room (sd_pc (look a md m x))"
  "unat a = room \<Longrightarrow> 0 < m \<Longrightarrow> side_ok room (sd_pc (look_again a md m x))"
  using after_ok [of 0 m room md x] unat_gt_0 [of a] by (auto simp: look_def look_again_def min_def)

lemma told_simps [simp]:
  "sd_half (told ws x) = sd_half x" "sd_pc (told ws x) = sd_pc x" "sd_cur (told ws x) = sd_cur x"
  by (simp_all add: told_def)

lemma signalled_simps [simp]:
  "sd_half (signalled md m n q x) = sd_half x" "copied (sd_pc (signalled md m n q x)) = 0"
  by (simp_all add: signalled_def)

lemma signalled_ok:
  "side_ok room (Signal md m n q) \<Longrightarrow> side_ok room (sd_pc (signalled md m n q' x))"
  "wanted (sd_pc (signalled md m n q' x)) (m - n)"
  using after_ok [of n m room md x] after_wanted [of md m n x] by (auto simp: signalled_def)

lemma registered_simps [simp]:
  "sd_half (registered a m q x) = sd_half x" "copied (sd_pc (registered a m q x)) = 0"
  "wanted (sd_pc (registered a m q x)) m"
  by (simp_all add: registered_def)

lemma registered_ok:
  assumes "side_ok room (Register m q)" "unat a = room" "reg_access w q s = Inr (ws, q', s')"
  shows "side_ok room (sd_pc (registered a m q' x))"
proof -
  have "arming q' \<or> q' = Recheck"
    using reg_access_arming [OF assms(3)] assms(1) by simp
  then show ?thesis using assms(1,2) look_ok(1) [of a room m] by (auto simp: registered_def)
qed

lemma rt_p_look:
  assumes d: "rt_data k s R W pr cw xs" and pc: "copied (sd_pc (rt_p s)) = 0"
    and x: "copied (sd_pc x) = 0" "sd_half x = (p_half s)\<lparr>cached_read := of_nat r\<rparr>"
      "side_ok (r + 2 ^ k - W) (sd_pc x)" "wanted (sd_pc x) (length items)"
    and r: "pr \<le> r" "r \<le> R"
  shows "rt_data k (s\<lparr>rt_items := items, rt_p := x\<rparr>) R W r cw xs"
  using rt_dataD [OF d] pc x r by (simp add: rt_data_def)

lemma rt_c_look:
  assumes d: "rt_data k s R W pr cw xs" and pc: "copied (sd_pc (rt_c s)) = 0"
    and x: "copied (sd_pc x) = 0" "sd_half x = (c_half s)\<lparr>cached_write := of_nat w\<rparr>"
      "side_ok (w - R) (sd_pc x)"
    and w: "cw \<le> w" "w \<le> W"
  shows "rt_data k (s\<lparr>rt_c := x\<rparr>) R W pr w xs"
  using rt_dataD [OF d] pc x w by (simp add: rt_data_def)

lemma rt_slots:
  assumes "rt_data k s R W pr cw xs"
  shows "rt_data k (s\<lparr>rt_sh := (rt_sh s)\<lparr>rb_pslot := sl\<rparr>\<rparr>) R W pr cw xs"
    "rt_data k (s\<lparr>rt_sh := (rt_sh s)\<lparr>rb_cslot := sl\<rparr>\<rparr>) R W pr cw xs"
    "x = rt_p s \<Longrightarrow> rt_data k (s\<lparr>rt_p := told ws x\<rparr>) R W pr cw xs"
    "y = rt_c s \<Longrightarrow> rt_data k (s\<lparr>rt_c := told ws y\<rparr>) R W pr cw xs"
  using assms by (simp_all add: rt_data_def)

lemma rt_room:
  assumes "rt_data k s R W pr cw xs"
  shows "unat (p_avail (rt_sh s) (p_half s)) = pr + 2 ^ k - W"
    "unat (p_avail (rt_sh s) ((p_half s)\<lparr>cached_read := rb_read (rt_sh s)\<rparr>)) = R + 2 ^ k - W"
    "unat (c_avail (c_half s)) = cw - R"
    "unat (c_avail ((c_half s)\<lparr>cached_write := rb_write (rt_sh s)\<rparr>)) = W - R"
proof -
  note D = rt_dataD [OF assms]
  have W: "W \<le> R + 2 ^ k" "R \<le> W" using D(10-13) by simp_all
  show "unat (p_avail (rt_sh s) (p_half s)) = pr + 2 ^ k - W"
    using D W by (intro p_avail_room) simp_all
  show "unat (p_avail (rt_sh s) ((p_half s)\<lparr>cached_read := rb_read (rt_sh s)\<rparr>)) = R + 2 ^ k - W"
    using D W by (intro p_avail_room) simp_all
  show "unat (c_avail (c_half s)) = cw - R"
    using D W by (intro c_avail_room [where k = k]) simp_all
  show "unat (c_avail ((c_half s)\<lparr>cached_write := rb_write (rt_sh s)\<rparr>)) = W - R"
    using D W by (intro c_avail_room [where k = k]) simp_all
qed

text \<open>The slot an access of the data goes to.\<close>

lemma rt_index:
  assumes "rt_data k s R W pr cw xs"
  shows "p_slot s j = (W + j) mod 2 ^ k" "c_slot s j = (R + j) mod 2 ^ k"
  using unat_masked [of k "W + j"] unat_masked [of k "R + j"] rt_dataD [OF assms]
  by (simp_all add: p_slot_def c_slot_def)

lemma rt_p_copy:
  assumes d: "rt_data k s R W pr cw xs" and pc: "sd_pc (rt_p s) = Copy md m n j" and j: "j < n"
  shows "slot_write (rb_buffer (rt_sh s)) (p_slot s j) v =
      Inr ((rb_buffer (rt_sh s))[(W + j) mod 2 ^ k := Some v])"
    "rb_buffer (rt_sh s) ! ((W + j) mod 2 ^ k) = None"
    "rt_data k (s\<lparr>rt_sh := (rt_sh s)\<lparr>rb_buffer := (rb_buffer (rt_sh s))[(W + j) mod 2 ^ k := Some v]\<rparr>,
      rt_p := (rt_p s)\<lparr>sd_pc := Copy md m n (Suc j)\<rparr>, rt_pushed := rt_pushed s @ [v]\<rparr>) R W pr cw (xs @ [v])"
proof -
  note D = rt_dataD [OF d]
  let ?i = "R + copied (sd_pc (rt_c s))"
  have "n \<le> pr + 2 ^ k - W" using D(14) pc by simp
  then have room: "length xs < 2 ^ k" using D(10-13,18) pc j by simp
  have tail: "(?i mod 2 ^ k + length xs) mod 2 ^ k = (W + j) mod 2 ^ k"
    using D(18) pc mod_add_left_eq [of ?i "2 ^ k" "length xs"] by (simp add: add.commute)
  have len: "length (rb_buffer (rt_sh s)) = 2 ^ k" using D(17) by (simp add: ring_rep_length)
  show "slot_write (rb_buffer (rt_sh s)) (p_slot s j) v =
      Inr ((rb_buffer (rt_sh s))[(W + j) mod 2 ^ k := Some v])"
    using rt_index(1) [OF d, of j] len by (simp add: slot_write_ok)
  have rep: "ring_rep (2 ^ k) ((rb_buffer (rt_sh s))[(W + j) mod 2 ^ k := Some v]) (?i mod 2 ^ k) (xs @ [v])"
    using ring_rep_push_back [OF D(17) room] tail by simp
  show "rb_buffer (rt_sh s) ! ((W + j) mod 2 ^ k) = None"
    using D(17) room tail unfolding ring_rep_def by (metis less_irrefl)
  show "rt_data k (s\<lparr>rt_sh := (rt_sh s)\<lparr>rb_buffer := (rb_buffer (rt_sh s))[(W + j) mod 2 ^ k := Some v]\<rparr>,
      rt_p := (rt_p s)\<lparr>sd_pc := Copy md m n (Suc j)\<rparr>, rt_pushed := rt_pushed s @ [v]\<rparr>) R W pr cw (xs @ [v])"
    using D pc j rep by (simp add: rt_data_def)
qed

lemma rt_c_copy:
  assumes d: "rt_data k s R W pr cw xs" and pc: "sd_pc (rt_c s) = Copy md m n j" and j: "j < n"
  obtains v ys where "xs = v # ys"
    "slot_take (rb_buffer (rt_sh s)) (c_slot s j) =
      Inr (v, (rb_buffer (rt_sh s))[(R + j) mod 2 ^ k := None])"
    "rt_data k (s\<lparr>rt_sh := (rt_sh s)\<lparr>rb_buffer := (rb_buffer (rt_sh s))[(R + j) mod 2 ^ k := None]\<rparr>,
      rt_c := (rt_c s)\<lparr>sd_pc := Copy md m n (Suc j)\<rparr>, rt_popped := rt_popped s @ [v]\<rparr>) R W pr cw ys"
proof -
  note D = rt_dataD [OF d]
  have "xs \<noteq> []" using D(11-15,18) pc j by auto
  then obtain v ys where xs: "xs = v # ys" by (cases xs) auto
  then have rep: "ring_rep (2 ^ k) (rb_buffer (rt_sh s)) ((R + j) mod 2 ^ k) (v # ys)" using D(17) pc by simp
  note pop = ring_rep_pop_front [OF rep]
  have "slot_take (rb_buffer (rt_sh s)) (c_slot s j) =
      Inr (v, (rb_buffer (rt_sh s))[(R + j) mod 2 ^ k := None])"
    using rt_index(2) [OF d, of j] pop(1) ring_rep_head [OF rep] by (simp add: slot_take_ok)
  moreover have "rt_data k (s\<lparr>rt_sh := (rt_sh s)\<lparr>rb_buffer := (rb_buffer (rt_sh s))[(R + j) mod 2 ^ k := None]\<rparr>,
      rt_c := (rt_c s)\<lparr>sd_pc := Copy md m n (Suc j)\<rparr>, rt_popped := rt_popped s @ [v]\<rparr>) R W pr cw ys"
    using D pc j xs pop(2) by (simp add: rt_data_def next_idx_mod mod_Suc_eq)
  ultimately show thesis using xs that by blast
qed

lemma rt_p_store:
  assumes d: "rt_data k s R W pr cw xs" and pc: "sd_pc (rt_p s) = Copy md m n n"
  shows "rt_data k (s\<lparr>rt_sh := (rt_sh s)\<lparr>rb_write := cached_write (p_half s) + of_nat n\<rparr>,
      rt_p := (rt_p s)\<lparr>sd_half := (p_half s)\<lparr>cached_write := cached_write (p_half s) + of_nat n\<rparr>, sd_pc := Signal md m n Gate\<rparr>,
      rt_items := drop n (rt_items s)\<rparr>) R (W + n) pr cw xs"
  using rt_dataD [OF d] pc by (auto simp: rt_data_def)

lemma rt_c_store:
  assumes d: "rt_data k s R W pr cw xs" and pc: "sd_pc (rt_c s) = Copy md m n n"
  shows "rt_data k (s\<lparr>rt_sh := (rt_sh s)\<lparr>rb_read := cached_read (c_half s) + of_nat n\<rparr>,
      rt_c := (rt_c s)\<lparr>sd_half := (c_half s)\<lparr>cached_read := cached_read (c_half s) + of_nat n\<rparr>,
        sd_pc := Signal md m n Gate\<rparr>\<rparr>) (R + n) W pr cw xs"
  using rt_dataD [OF d] pc by (auto simp: rt_data_def)

lemma rt_inv_init: "rt_init k s \<Longrightarrow> rt_inv k s"
proof -
  assume "rt_init k s"
  then obtain alloc el sh where k: "k < 64" and new: "ring_new alloc el (2 ^ k) = Inr sh"
    and s: "case ring_split sh of (sh', p, c) \<Rightarrow> rt_sh s = sh' \<and> new_side p (rt_p s) \<and> new_side c (rt_c s)"
      "rt_pushed s = []" "rt_popped s = []"
    by (auto simp: rt_init_def)
  obtain ly where "el_size el \<noteq> 0" "layout_for el (2 ^ k) (el_align el) = Inr ly" "alloc ly"
    using new by (auto simp: ring_new_def rbind_Inr_iff rassert_def split: if_splits)
  from ring_new_wp [where alloc = alloc, OF this k] new s
  have "ring_inv k (rt_sh s) (p_half s) (c_half s) []" and "sd_pc (rt_p s) = Out" "sd_pc (rt_c s) = Out"
    by (auto simp: new_side_def split: prod.splits)
  then obtain R W pr cw where v: "ring_view k (rt_sh s) (p_half s) (c_half s) R W pr cw []"
    and pc: "sd_pc (rt_p s) = Out" "sd_pc (rt_c s) = Out"
    by (auto simp: ring_inv_def)
  then show ?thesis
    using s(2,3) ring_viewD [OF v] by (intro rt_invI [of k s R W pr cw "[]"]) (simp add: rt_data_def)
qed

lemma rt_p_move:
  assumes d: "rt_data k s R W pr cw xs" and pc: "copied (sd_pc (rt_p s)) = 0"
    and x: "copied (sd_pc x) = 0" "sd_half x = p_half s"
      "side_ok (pr + 2 ^ k - W) (sd_pc x)" "wanted (sd_pc x) (length (rt_items s))"
  shows "rt_data k (s\<lparr>rt_p := x\<rparr>) R W pr cw xs"
  using rt_p_look [OF d pc, of x pr "rt_items s"] rt_dataD(6,10) [OF d] x by simp

lemma rt_c_move:
  assumes d: "rt_data k s R W pr cw xs" and pc: "copied (sd_pc (rt_c s)) = 0"
    and x: "copied (sd_pc x) = 0" "sd_half x = c_half s" "side_ok (cw - R) (sd_pc x)"
  shows "rt_data k (s\<lparr>rt_c := x\<rparr>) R W pr cw xs"
  using rt_c_look [OF d pc, of x cw] rt_dataD(9,12) [OF d] x by simp

lemma rt_p_load:
  assumes d: "rt_data k s R W pr cw xs" and pc: "sd_pc (rt_p s) = Load md m"
    and h: "h = (p_half s)\<lparr>cached_read := rb_read (rt_sh s)\<rparr>"
  shows "rt_data k (s\<lparr>rt_p := look_again (p_avail (rt_sh s) h) md m ((rt_p s)\<lparr>sd_half := h\<rparr>)\<rparr>) R W R cw xs"
  using rt_p_look [OF d, of _ R "rt_items s"] look_ok(2) [OF rt_room(2) [OF d]] rt_dataD(7,10,14,16) [OF d] pc h
  by simp

lemma rt_c_load:
  assumes d: "rt_data k s R W pr cw xs" and pc: "sd_pc (rt_c s) = Load md m"
    and h: "h = (c_half s)\<lparr>cached_write := rb_write (rt_sh s)\<rparr>"
  shows "rt_data k (s\<lparr>rt_c := look_again (c_avail h) md m ((rt_c s)\<lparr>sd_half := h\<rparr>)\<rparr>) R W pr W xs"
  using rt_c_look [OF d, of _ W] look_ok(2) [OF rt_room(4) [OF d]] rt_dataD(4,12,15) [OF d] pc h
  by simp

text \<open>Every access keeps the invariant.\<close>

lemma rt_inv_step:
  assumes "rt_inv k s" and step: "rt_step s t"
  shows "rt_inv k t"
proof -
  obtain R W pr cw xs where d: "rt_data k s R W pr cw xs" using assms(1) by (auto simp: rt_inv_def)
  note D = rt_dataD [OF d] and room = rt_room [OF d]
  from step show ?thesis
  proof cases
    case (p_call items md)
    then show ?thesis
      using D(6,10) look_ok(1) [OF room(1)]
      by (intro rt_invI [of _ _ R W pr cw xs]) (auto simp: called_defs intro!: rt_p_look [OF d])
  next
    case (p_load md m h)
    then show ?thesis using rt_invI [OF rt_p_load [OF d]] by simp
  next
    case (p_copy md m n j buf)
    then show ?thesis using rt_p_copy [OF d p_copy(2,3)] by (metis sum.inject(2) rt_invI)
  next
    case (p_store md m n w)
    then show ?thesis using rt_p_store [OF d p_store(2)] by (auto intro: rt_invI)
  next
    case (p_signal md m n q ws q' slot)
    then show ?thesis
      using D(14,16) signalled_ok rt_p_move [OF rt_slots(2) [OF d], of slot "rt_p t"]
      by (auto intro!: rt_invI [of _ _ R W pr cw xs] rt_slots(4))
  next
    case (p_reg m q ws q' slot)
    then show ?thesis
      using D(14,16) registered_ok [OF _ room(1) p_reg(3)] rt_p_move [OF rt_slots(1) [OF d], of slot "rt_p t"]
      by (auto intro!: rt_invI [of _ _ R W pr cw xs])
  next
    case p_disarm
    then show ?thesis
      using rt_p_move [OF rt_slots(1) [OF d], of _ "rt_p t"] by (auto intro!: rt_invI [of _ _ R W pr cw xs])
  next
    case p_count
    then show ?thesis
      using D(7,10) rt_p_look [OF d, of "rt_p t" R "rt_items s"] by (auto simp: called_defs intro!: rt_invI [of _ _ R W R cw xs])
  next
    case (c_call m md)
    then show ?thesis
      using look_ok(1) [OF room(3)]
      by (intro rt_invI [of _ _ R W pr cw xs]) (auto simp: called_defs intro!: rt_c_move [OF d])
  next
    case (c_load md m h)
    then show ?thesis using rt_invI [OF rt_c_load [OF d]] by simp
  next
    case (c_copy md m n j v buf)
    then show ?thesis using rt_c_copy [OF d c_copy(2,3)] by (metis sum.inject(2) prod.inject rt_invI)
  next
    case (c_store md m n r)
    then show ?thesis using rt_c_store [OF d c_store(2)] by (auto intro: rt_invI)
  next
    case (c_signal md m n q ws q' slot)
    have "rt_data k (s\<lparr>rt_sh := (rt_sh s)\<lparr>rb_pslot := slot\<rparr>, rt_p := told ws (rt_p s)\<rparr>) R W pr cw xs"
      by (rule rt_slots(3) [OF rt_slots(1) [OF d]]) simp
    from rt_c_move [OF this, of "rt_c t"] show ?thesis
      using D(15) signalled_ok(1) c_signal by (auto intro!: rt_invI [of _ _ R W pr cw xs])
  next
    case (c_reg m q ws q' slot)
    then show ?thesis
      using D(15) registered_ok [OF _ room(3) c_reg(3)] rt_c_move [OF rt_slots(2) [OF d], of slot "rt_c t"]
      by (auto intro!: rt_invI [of _ _ R W pr cw xs])
  next
    case c_disarm
    then show ?thesis
      using rt_c_move [OF rt_slots(2) [OF d], of _ "rt_c t"] by (auto intro!: rt_invI [of _ _ R W pr cw xs])
  next
    case c_count
    then show ?thesis
      using D(4,12) rt_c_look [OF d, of "rt_c t" W] by (auto simp: called_defs intro!: rt_invI [of _ _ R W pr W xs])
  qed
qed

end
