(* ===== verification/Ring_Wakeups.thy ===== *)
theory Ring_Wakeups
  imports Ring_Threads
begin

unbundle bit_operations_syntax

text \<open>
  The wakeups of the interleaved ring buffer. The producer's slot with the producer as waiting task and the
  consumer as signaller simulates the handshake of \<open>Notify\<close>, and so does the consumer's slot the other way
  round; what holds of the handshake in every run therefore holds of the ring. The executable threads
  \<open>p_move\<close> and \<open>c_move\<close> give schedules that can be run.
\<close>

section \<open>The wakeups: each slot is a handshake\<close>

text \<open>
  What a thread is to its own slot (the waiting task) and to the other side's (the signaller). An attempt
  that got less than it wanted after arming is parked already while it copies and publishes.
\<close>

fun side_wpc :: "side_pc \<Rightarrow> waiter_pc" where
  "side_wpc (Load Second m) = Recheck"
| "side_wpc (Copy Second m n j) = (if n = m then Disarm else Parked)"
| "side_wpc (Signal Second m n q) = (if n = m then Disarm else Parked)"
| "side_wpc (Register m q) = q"
| "side_wpc Clear = Disarm"
| "side_wpc Waiting = Parked"
| "side_wpc _ = Idle"

fun side_spc :: "side_pc \<Rightarrow> signal_pc" where
  "side_spc (Signal md m n q) = q" | "side_spc _ = Quiet"

definition side_hs :: "waiter_slot \<Rightarrow> bool \<Rightarrow> side \<Rightarrow> signal_pc \<Rightarrow> handshake" where
  "side_hs sl avail x spc = slot_hs sl avail (side_wpc (sd_pc x)) (sd_cur x) (sd_woken x) spc"

text \<open>The conditions the two sides wait for, counting what a side has already decided to transfer.\<close>

definition p_can :: "'a rt_sys \<Rightarrow> bool" where
  "p_can s \<longleftrightarrow> rb_write (rt_sh s) + of_nat (taking (sd_pc (rt_p s))) - rb_read (rt_sh s) < rb_capacity (rt_sh s)"

definition c_can :: "'a rt_sys \<Rightarrow> bool" where
  "c_can s \<longleftrightarrow> rb_read (rt_sh s) + of_nat (taking (sd_pc (rt_c s))) \<noteq> rb_write (rt_sh s)"

definition p_hs :: "'a rt_sys \<Rightarrow> handshake" where
  "p_hs s = side_hs (rb_pslot (rt_sh s)) (p_can s) (rt_p s) (side_spc (sd_pc (rt_c s)))"

definition c_hs :: "'a rt_sys \<Rightarrow> handshake" where
  "c_hs s = side_hs (rb_cslot (rt_sh s)) (c_can s) (rt_c s) (side_spc (sd_pc (rt_p s)))"

text \<open>The moves of the waiting side, whichever it is.\<close>

lemma hs_look:
  assumes "sd_pc x = Out \<or> sd_pc x = Waiting" "md \<noteq> Second"
    and "if av = 0 then b = a else a"
  shows "hs_opt (side_hs sl a x p) (side_hs sl b (look av md m x) p)"
  using assms hs_opt_consume [of _ sl "sd_cur x" "sd_woken x" p b] hs_opt_cancel [of sl a "sd_cur x" "sd_woken x" p]
  by (cases md) (auto simp: side_hs_def look_def split: if_splits)

lemma hs_after:
  assumes "md \<noteq> Second" "side_wpc (sd_pc x) = Idle"
  shows "hs_opt (side_hs sl a x p) (side_hs sl a (after md m n x) p)"
  using assms hs_opt_poll [of sl a "sd_cur x" "sd_woken x" p]
  by (cases md) (auto simp: side_hs_def after_def)

lemma hs_look_again:
  assumes "sd_pc x = Load md m" "0 < m"
    and b: "if av = 0 then b = a \<and> \<not> a else a \<and> (m > unat av \<longrightarrow> \<not> b)"
  shows "hs_opt (side_hs sl a x p) (side_hs sl b (look_again av md m x) p)"
proof (cases "md = Second")
  case True
  then show ?thesis
    using assms hs_opt_park [of sl a "sd_cur x" "sd_woken x" p] hs_opt_recheck [of sl "sd_cur x" "sd_woken x" p b]
    by (auto simp: side_hs_def look_again_def after_def min_def split: if_splits)
next
  case False
  then show ?thesis
    using assms hs_after [of md x sl a p m 0] hs_opt_consume [of Idle sl "sd_cur x" "sd_woken x" p b]
    by (cases md) (auto simp: look_again_def side_hs_def split: if_splits)
qed

lemma hs_signalled:
  assumes "sd_pc x = Signal md m n q"
  shows "hs_opt (side_hs sl a x p) (side_hs sl a (signalled md m n q' x) p)"
proof (cases "md = Second")
  case True
  then show ?thesis using assms by (simp add: signalled_def side_hs_def after_def)
next
  case False
  then show ?thesis
    using assms hs_after [of md x sl a p m n] by (cases md) (auto simp: signalled_def side_hs_def)
qed

lemma hs_registered:
  assumes "sd_pc x = Register m q" "reg_access (sd_cur x) q sl = Inr (ws, q', sl')" "av = 0"
  shows "hs_opt (side_hs sl a x p) (side_hs sl' a (registered av m q' (told ws x)) p)"
  using assms reg_access_step [OF assms(2), of a "sd_woken x" p]
  by (auto simp: side_hs_def registered_def look_def told_def)

lemma hs_told_by:
  assumes "sig_access q sl = (ws, q', sl')"
  shows "hs_opt (side_hs sl a x q) (side_hs sl' a (told ws x) q')"
  using sig_access_step [OF assms] by (simp add: side_hs_def told_def)

lemma hs_disarmed:
  "sd_pc x = Clear \<Longrightarrow> hs_opt (side_hs sl a x p) (side_hs (slot_disarm sl) a (x\<lparr>sd_pc := Out\<rparr>) p)"
  by (simp add: side_hs_def hs_opt_disarm)

lemma hs_counted:
  "sd_pc x = Out \<or> sd_pc x = Waiting \<Longrightarrow> hs_opt (side_hs sl a x p) (side_hs sl a (x\<lparr>sd_half := h, sd_pc := Out\<rparr>) p)"
  using hs_opt_cancel by (auto simp: side_hs_def)

lemma side_spc_simps [simp]:
  "side_spc (sd_pc (look av md m x)) = Quiet" "side_spc (sd_pc (after md m n x)) = Quiet"
  "side_spc (sd_pc (look_again av md m x)) = Quiet" "side_spc (sd_pc (signalled md m n q x)) = q"
  "side_spc (sd_pc (registered av m r x)) = Quiet"
  by (simp_all add: look_def look_again_def after_def signalled_def registered_def split: mode.splits)

lemma taking_simps [simp]:
  "taking (sd_pc (signalled md m n q x)) = 0"
  by (simp add: signalled_def)

lemma taking_registered: "taking (sd_pc (registered 0 m q x)) = 0"
  by (simp add: registered_def look_def)

lemma taking_look:
  "taking (sd_pc (look av md m x)) = min m (unat av)" "taking (sd_pc (look_again av md m x)) = min m (unat av)"
  by (simp_all add: look_def look_again_def)

text \<open>In counters.\<close>

lemma rt_can:
  assumes "rt_data k s R W pr cw xs"
  shows "p_can s \<longleftrightarrow> W + taking (sd_pc (rt_p s)) < R + 2 ^ k"
    "c_can s \<longleftrightarrow> R + taking (sd_pc (rt_c s)) < W"
proof -
  note D = rt_dataD [OF assms]
  let ?w = "W + taking (sd_pc (rt_p s))" and ?r = "R + taking (sd_pc (rt_c s))"
  have "taking (sd_pc (rt_p s)) \<le> pr + 2 ^ k - W" using D(14) by (cases "sd_pc (rt_p s)") auto
  then have w: "R \<le> ?w" "?w \<le> R + 2 ^ k" using D(10-13) by auto
  show "p_can s \<longleftrightarrow> ?w < R + 2 ^ k"
    using ring_full [OF D(1) w] w D(2,4,7) by (auto simp: p_can_def not_le [symmetric])
  have "taking (sd_pc (rt_c s)) \<le> cw - R" using D(15) by (cases "sd_pc (rt_c s)") auto
  then have r: "?r \<le> W" "W \<le> ?r + 2 ^ k" using D(10-13) by auto
  show "c_can s \<longleftrightarrow> ?r < W"
    using ring_eq [OF D(1) r] r D(4,7) by (auto simp: c_can_def)
qed

lemma p_hs_step:
  assumes "rt_inv k s" and step: "rt_step s t"
  shows "hs_opt (p_hs s) (p_hs t)"
proof -
  obtain R W pr cw xs where d: "rt_data k s R W pr cw xs" using assms(1) by (auto simp: rt_inv_def)
  note D = rt_dataD [OF d] and room = rt_room [OF d] and can = rt_can [OF d]
  have W: "W \<le> R + 2 ^ k" using D(10-13) by simp
  from step show ?thesis
  proof cases
    case (p_call items md)
    let ?av = "p_avail (rt_sh s) (p_half s)"
    have a: "if ?av = 0 then p_can t = p_can s else p_can s"
      using p_call can(1) room(1) D(10) unat_gt_0 [of ?av] by (auto simp: p_can_def taking_look called_defs)
    show ?thesis using hs_look [OF _ p_call(4) a] p_call(1,2) by (simp add: p_hs_def called_defs)
  next
    case (p_load md m h)
    let ?av = "p_avail (rt_sh s) h" and ?x = "(rt_p s)\<lparr>sd_half := h\<rparr>"
    have av: "unat ?av = R + 2 ^ k - W" using room(2) p_load(3) by simp
    have "p_can t \<longleftrightarrow> W + min m (unat ?av) < R + 2 ^ k"
      using rt_can(1) [OF rt_p_load [OF d p_load(2,3)]] p_load(1) by (simp add: taking_look)
    then have "if ?av = 0 then p_can t = p_can s \<and> \<not> p_can s else p_can s \<and> (m > unat ?av \<longrightarrow> \<not> p_can t)"
      using p_load(2) can(1) av W unat_gt_0 [of ?av] by auto
    moreover have "0 < m" using D(14) p_load(2) by simp
    ultimately show ?thesis
      using hs_look_again [of ?x md m ?av "p_can t" "p_can s"] p_load(1,2) by (simp add: p_hs_def side_hs_def)
  next
    case (p_copy md m n j buf)
    then show ?thesis by (cases md) (simp_all add: p_hs_def side_hs_def p_can_def)
  next
    case (p_store md m n w)
    then show ?thesis using D(4,5) by (cases md) (simp_all add: p_hs_def side_hs_def p_can_def)
  next
    case (p_signal md m n q ws q' slot)
    then show ?thesis using hs_signalled [OF p_signal(2)] by (simp add: p_hs_def p_can_def)
  next
    case (p_reg m q ws q' slot)
    then have "p_avail (rt_sh s) (p_half s) = 0" using D(14) room(1) by (simp add: unat_eq_zero)
    with p_reg show ?thesis
      using hs_registered [OF p_reg(2,3) refl] by (simp add: p_hs_def p_can_def taking_registered)
  next
    case p_disarm
    then show ?thesis using hs_disarmed [of "rt_p s"] by (simp add: p_hs_def p_can_def)
  next
    case p_count
    then show ?thesis using hs_counted [of "rt_p s"] by (auto simp: p_hs_def p_can_def called_defs)
  next
    case (c_store md m n r)
    have "taking (sd_pc (rt_p s)) \<le> pr + 2 ^ k - W" using D(14) by (cases "sd_pc (rt_p s)") auto
    moreover have "0 < n" using D(15) c_store by simp
    ultimately have "p_can t"
      using rt_can(1) [OF rt_c_store [OF d c_store(2)]] c_store(1,3) D(10-13) by simp
    then show ?thesis using c_store hs_opt_publish by (simp add: p_hs_def side_hs_def)
  next
    case (c_signal md m n q ws q' slot)
    then show ?thesis using hs_told_by [OF c_signal(3)] by (simp add: p_hs_def p_can_def)
  qed (auto simp: p_hs_def p_can_def called_defs)
qed

lemma c_hs_step:
  assumes "rt_inv k s" and step: "rt_step s t"
  shows "hs_opt (c_hs s) (c_hs t)"
proof -
  obtain R W pr cw xs where d: "rt_data k s R W pr cw xs" using assms(1) by (auto simp: rt_inv_def)
  note D = rt_dataD [OF d] and room = rt_room [OF d] and can = rt_can [OF d]
  from step show ?thesis
  proof cases
    case (c_call m md)
    let ?av = "c_avail (c_half s)"
    have a: "if ?av = 0 then c_can t = c_can s else c_can s"
      using c_call can(2) room(3) D(12) unat_gt_0 [of ?av] by (auto simp: c_can_def taking_look called_defs)
    show ?thesis using hs_look [OF _ c_call(4) a] c_call(1,2) by (simp add: c_hs_def called_defs)
  next
    case (c_load md m h)
    let ?av = "c_avail h" and ?x = "(rt_c s)\<lparr>sd_half := h\<rparr>"
    have av: "unat ?av = W - R" using room(4) c_load(3) by simp
    have "c_can t \<longleftrightarrow> R + min m (unat ?av) < W"
      using rt_can(2) [OF rt_c_load [OF d c_load(2,3)]] c_load(1) by (simp add: taking_look)
    then have "if ?av = 0 then c_can t = c_can s \<and> \<not> c_can s else c_can s \<and> (m > unat ?av \<longrightarrow> \<not> c_can t)"
      using c_load(2) can(2) av D(11,12) unat_gt_0 [of ?av] by auto
    moreover have "0 < m" using D(15) c_load(2) by simp
    ultimately show ?thesis
      using hs_look_again [of ?x md m ?av "c_can t" "c_can s"] c_load(1,2) by (simp add: c_hs_def side_hs_def)
  next
    case (c_copy md m n j v buf)
    then show ?thesis by (cases md) (simp_all add: c_hs_def side_hs_def c_can_def)
  next
    case (c_store md m n r)
    then show ?thesis using D(7,8) by (cases md) (simp_all add: c_hs_def side_hs_def c_can_def)
  next
    case (c_signal md m n q ws q' slot)
    then show ?thesis using hs_signalled [OF c_signal(2)] by (simp add: c_hs_def c_can_def)
  next
    case (c_reg m q ws q' slot)
    then have "c_avail (c_half s) = 0" using D(15) room(3) by (simp add: unat_eq_zero)
    with c_reg show ?thesis
      using hs_registered [OF c_reg(2,3) refl] by (simp add: c_hs_def c_can_def taking_registered)
  next
    case c_disarm
    then show ?thesis using hs_disarmed [of "rt_c s"] by (simp add: c_hs_def c_can_def)
  next
    case c_count
    then show ?thesis using hs_counted [of "rt_c s"] by (auto simp: c_hs_def c_can_def called_defs)
  next
    case (p_store md m n w)
    have "taking (sd_pc (rt_c s)) \<le> cw - R" using D(15) by (cases "sd_pc (rt_c s)") auto
    moreover have "0 < n" using D(14) p_store by simp
    ultimately have "c_can t"
      using rt_can(2) [OF rt_p_store [OF d p_store(2)]] p_store(1,3) D(10-13) by simp
    then show ?thesis using p_store hs_opt_publish by (simp add: c_hs_def side_hs_def)
  next
    case (p_signal md m n q ws q' slot)
    then show ?thesis using hs_told_by [OF p_signal(3)] by (simp add: c_hs_def c_can_def)
  qed (auto simp: c_hs_def c_can_def called_defs)
qed

lemma rt_hs_init: "rt_init k s \<Longrightarrow> hs_init (p_hs s) \<and> hs_init (c_hs s)"
proof -
  assume "rt_init k s"
  then obtain alloc el sh where new: "ring_new alloc el (2 ^ k) = Inr sh" and s: "rt_sh s = sh"
    "sd_pc (rt_p s) = Out" "sd_pc (rt_c s) = Out"
    by (auto simp: rt_init_def ring_split_def new_side_def)
  from new have "rb_pslot sh = slot_new" "rb_cslot sh = slot_new"
    by (auto simp: ring_new_def rbind_Inr_iff rassert_def split: if_splits)
  with s show ?thesis
    by (simp add: hs_init_def p_hs_def c_hs_def side_hs_def slot_new_def atomic_waker_new_def fun_upd_idem)
qed

interpretation rt: invariant_system "rt_init k" rt_step "rt_inv k" for k
  by unfold_locales (auto intro: rt_inv_init rt_inv_step)

interpretation rt_producer: simulation "rt_init k" rt_step "rt_inv k" hs_init hs_step p_hs for k
  by unfold_locales (use rt_hs_init p_hs_step [of k] in \<open>auto simp: hs_opt_def\<close>)

interpretation rt_consumer: simulation "rt_init k" rt_step "rt_inv k" hs_init hs_step c_hs for k
  by unfold_locales (use rt_hs_init c_hs_step [of k] in \<open>auto simp: hs_opt_def\<close>)

text \<open>Each slot of the ring in every run is a handshake in one of its runs.\<close>

lemma rt_handshakes:
  assumes "reach (rt_init k) rt_step n s"
  shows "hs_inv (p_hs s)" "hs_inv (c_hs s)"
  using rt_producer.simulated [OF assms] rt_consumer.simulated [OF assms] hs.reachable_inv by blast+

section \<open>The threads as functions\<close>

text \<open>The next access of a thread that is in a call; \<open>Inl\<close> would be a panic or an access to a wrong slot.\<close>

definition p_move :: "'a rt_sys \<Rightarrow> 'a rt_sys res" where
  "p_move s =
     (case sd_pc (rt_p s) of
        Load md m \<Rightarrow>
          (let h = (p_half s)\<lparr>cached_read := rb_read (rt_sh s)\<rparr>
           in Inr (s\<lparr>rt_p := look_again (p_avail (rt_sh s) h) md m ((rt_p s)\<lparr>sd_half := h\<rparr>)\<rparr>))
      | Copy md m n j \<Rightarrow>
          if j < n then
            rbind (slot_write (rb_buffer (rt_sh s)) (p_slot s j) (rt_items s ! j))
              (\<lambda>buf. Inr (s\<lparr>rt_sh := (rt_sh s)\<lparr>rb_buffer := buf\<rparr>,
                 rt_p := (rt_p s)\<lparr>sd_pc := Copy md m n (Suc j)\<rparr>, rt_pushed := rt_pushed s @ [rt_items s ! j]\<rparr>))
          else
            (let w = cached_write (p_half s) + of_nat n
             in Inr (s\<lparr>rt_sh := (rt_sh s)\<lparr>rb_write := w\<rparr>,
                  rt_p := (rt_p s)\<lparr>sd_half := (p_half s)\<lparr>cached_write := w\<rparr>, sd_pc := Signal md m n Gate\<rparr>,
                  rt_items := drop n (rt_items s)\<rparr>))
      | Signal md m n q \<Rightarrow>
          (let (ws, q', slot) = sig_access q (rb_cslot (rt_sh s))
           in Inr (s\<lparr>rt_sh := (rt_sh s)\<lparr>rb_cslot := slot\<rparr>, rt_p := signalled md m n q' (rt_p s), rt_c := told ws (rt_c s)\<rparr>))
      | Register m q \<Rightarrow>
          rbind (reg_access (sd_cur (rt_p s)) q (rb_pslot (rt_sh s))) (\<lambda>(ws, q', slot).
            Inr (s\<lparr>rt_sh := (rt_sh s)\<lparr>rb_pslot := slot\<rparr>,
                 rt_p := registered (p_avail (rt_sh s) (p_half s)) m q' (told ws (rt_p s))\<rparr>))
      | Clear \<Rightarrow>
          Inr (s\<lparr>rt_sh := (rt_sh s)\<lparr>rb_pslot := slot_disarm (rb_pslot (rt_sh s))\<rparr>, rt_p := (rt_p s)\<lparr>sd_pc := Out\<rparr>\<rparr>)
      | _ \<Rightarrow> Inr s)"

definition in_call :: "side \<Rightarrow> bool" where
  "in_call x \<longleftrightarrow> sd_pc x \<noteq> Out \<and> sd_pc x \<noteq> Waiting"

lemma p_move_step: 
  assumes "rt_inv k s" "p_move s = Inr t" "in_call (rt_p s)"
  shows "rt_step s t"
proof -
  obtain R W pr cw xs where d: "rt_data k s R W pr cw xs" using assms(1) by (auto simp: rt_inv_def)
  note ok = rt_dataD(14) [OF d]
  show ?thesis
  proof (cases "sd_pc (rt_p s)")
    case (Copy md m n j)
    then have "j < n \<or> j = n" using ok by auto
    then show ?thesis using Copy assms(2) by (auto simp: p_move_def Let_def rbind_Inr_iff intro!: rt_step.intros)
  qed (use assms(2,3) in \<open>auto simp: p_move_def in_call_def Let_def rbind_Inr_iff split: prod.splits intro!: rt_step.intros\<close>)
qed

definition c_move :: "'a rt_sys \<Rightarrow> 'a rt_sys res" where
  "c_move s =
     (case sd_pc (rt_c s) of
        Load md m \<Rightarrow>
          (let h = (c_half s)\<lparr>cached_write := rb_write (rt_sh s)\<rparr>
           in Inr (s\<lparr>rt_c := look_again (c_avail h) md m ((rt_c s)\<lparr>sd_half := h\<rparr>)\<rparr>))
      | Copy md m n j \<Rightarrow>
          if j < n then
            rbind (slot_take (rb_buffer (rt_sh s)) (c_slot s j)) (\<lambda>(v, buf).
              Inr (s\<lparr>rt_sh := (rt_sh s)\<lparr>rb_buffer := buf\<rparr>,
                 rt_c := (rt_c s)\<lparr>sd_pc := Copy md m n (Suc j)\<rparr>, rt_popped := rt_popped s @ [v]\<rparr>))
          else
            (let r = cached_read (c_half s) + of_nat n
             in Inr (s\<lparr>rt_sh := (rt_sh s)\<lparr>rb_read := r\<rparr>,
                  rt_c := (rt_c s)\<lparr>sd_half := (c_half s)\<lparr>cached_read := r\<rparr>, sd_pc := Signal md m n Gate\<rparr>\<rparr>))
      | Signal md m n q \<Rightarrow>
          (let (ws, q', slot) = sig_access q (rb_pslot (rt_sh s))
           in Inr (s\<lparr>rt_sh := (rt_sh s)\<lparr>rb_pslot := slot\<rparr>, rt_p := told ws (rt_p s),
                rt_c := signalled md m n q' (rt_c s)\<rparr>))
      | Register m q \<Rightarrow>
          rbind (reg_access (sd_cur (rt_c s)) q (rb_cslot (rt_sh s))) (\<lambda>(ws, q', slot).
            Inr (s\<lparr>rt_sh := (rt_sh s)\<lparr>rb_cslot := slot\<rparr>,
                 rt_c := registered (c_avail (c_half s)) m q' (told ws (rt_c s))\<rparr>))
      | Clear \<Rightarrow>
          Inr (s\<lparr>rt_sh := (rt_sh s)\<lparr>rb_cslot := slot_disarm (rb_cslot (rt_sh s))\<rparr>, rt_c := (rt_c s)\<lparr>sd_pc := Out\<rparr>\<rparr>)
      | _ \<Rightarrow> Inr s)"

lemma c_move_step:
  assumes "rt_inv k s" "c_move s = Inr t" "in_call (rt_c s)"
  shows "rt_step s t"
proof -
  obtain R W pr cw xs where d: "rt_data k s R W pr cw xs" using assms(1) by (auto simp: rt_inv_def)
  note ok = rt_dataD(15) [OF d]
  show ?thesis
  proof (cases "sd_pc (rt_c s)")
    case (Copy md m n j)
    then have "j < n \<or> j = n" using ok by auto
    then show ?thesis using Copy assms(2) by (auto simp: c_move_def Let_def rbind_Inr_iff intro!: rt_step.intros)
  qed (use assms(2,3) in \<open>auto simp: c_move_def in_call_def Let_def rbind_Inr_iff split: prod.splits intro!: rt_step.intros\<close>)
qed

lemma move_idle:
  "\<not> in_call (rt_p s) \<Longrightarrow> p_move s = Inr s" "\<not> in_call (rt_c s) \<Longrightarrow> c_move s = Inr s"
  by (auto simp: in_call_def p_move_def c_move_def)

lemma move_opt:
  assumes "rt_inv k s"
  shows "p_move s = Inr u \<Longrightarrow> u = s \<or> rt_step s u" "c_move s = Inr u \<Longrightarrow> u = s \<or> rt_step s u"
  using p_move_step [OF assms] c_move_step [OF assms] move_idle [of s] by (metis sum.inject(2))+

text \<open>Schedules, executable: the next access of a thread, or a new call where one may start.\<close>

datatype 'a move = P | C | P_Call "'a list" mode | C_Call nat mode

fun rt_do :: "'a move \<Rightarrow> 'a rt_sys \<Rightarrow> 'a rt_sys res" where
  "rt_do P s = p_move s"
| "rt_do C s = c_move s"
| "rt_do (P_Call items md) s =
     Inr (if sd_pc (rt_p s) \<in> {Out, Waiting} \<and> items \<noteq> [] \<and> md \<noteq> Second then p_called items md s else s)"
| "rt_do (C_Call m md) s =
     Inr (if sd_pc (rt_c s) \<in> {Out, Waiting} \<and> 0 < m \<and> md \<noteq> Second then c_called m md s else s)"

lemma rt_do_opt: "rt_inv k s \<Longrightarrow> rt_do mv s = Inr u \<Longrightarrow> u = s \<or> rt_step s u"
  using move_opt [of k s u] by (cases mv) (auto intro: rt_step.p_call rt_step.c_call split: if_splits)

interpretation rt_schedule: scheduler "rt_init k" rt_step "rt_inv k" rt_do for k
  by unfold_locales (rule rt_do_opt)

text \<open>A thread in a call always has a next access that neither panics nor touches a slot it must not.\<close>

lemma p_move_ok:
  assumes "reach (rt_init k) rt_step n s"
  shows "\<exists>t. p_move s = Inr t"
proof -
  obtain R W pr cw xs where d: "rt_data k s R W pr cw xs"
    using rt.reachable_inv [OF assms] by (auto simp: rt_inv_def)
  show ?thesis
  proof (cases "sd_pc (rt_p s)")
    case (Register m q)
    then show ?thesis
      using reg_access_ok [OF rt_handshakes(1) [OF assms, unfolded p_hs_def side_hs_def]]
      by (auto simp: p_move_def)
  qed (auto simp: p_move_def Let_def split: prod.splits simp: rt_p_copy(1) [OF d])
qed

lemma c_move_ok:
  assumes "reach (rt_init k) rt_step n s"
  shows "\<exists>t. c_move s = Inr t"
proof -
  obtain R W pr cw xs where d: "rt_data k s R W pr cw xs"
    using rt.reachable_inv [OF assms] by (auto simp: rt_inv_def)
  show ?thesis
  proof (cases "sd_pc (rt_c s)")
    case (Register m q)
    then show ?thesis
      using reg_access_ok [OF rt_handshakes(2) [OF assms, unfolded c_hs_def side_hs_def]]
      by (auto simp: c_move_def)
  next
    case (Copy md m n j)
    then show ?thesis
      by (cases "j < n") (auto simp: c_move_def Let_def elim: rt_c_copy [OF d Copy])
  qed (auto simp: c_move_def Let_def split: prod.splits)
qed

section \<open>Correctness in every interleaving\<close>

text \<open>
  A run on a ring of one slot: the producer pushes 5, then polls with waker 7 to push 6 and parks; the
  consumer pops 5 and its signal calls waker 7.
\<close>

definition demo_ring :: "nat ring_shared" where
  "demo_ring = \<lparr>rb_capacity = 1, rb_mask = 0, rb_buffer = [None], rb_layout = \<lparr>ly_size = 8, ly_align = 8\<rparr>,
     rb_write = 0, rb_read = 0, rb_pslot = slot_new, rb_cslot = slot_new\<rparr>"

definition demo_side :: side where
  "demo_side = \<lparr>sd_half = \<lparr>cached_read = 0, cached_write = 0\<rparr>, sd_pc = Out, sd_cur = 0, sd_woken = False\<rparr>"

definition demo :: "nat rt_sys" where
  "demo = \<lparr>rt_sh = demo_ring, rt_p = demo_side, rt_c = demo_side, rt_items = [], rt_pushed = [], rt_popped = []\<rparr>"

definition demo_moves :: "nat move list" where
  "demo_moves = [P_Call [5] Plain, P, P, P, P_Call [6] (First 7), P, P, P, P, P, P, C_Call 1 Plain,
     C, C, C, C, C, C, C, C, C]"

lemma demo_start: "reach (rt_init 0) rt_step 0 demo"
proof (rule reach.start)
  have "is_power_of_two 8" "is_power_of_two 1" by code_simp+
  then have "ring_new (\<lambda>_. True) nat_elem (2 ^ 0) = Inr demo_ring"
    by (simp add: ring_new_def nat_elem_def layout_for_def demo_ring_def)
  then show "rt_init 0 demo"
    by (auto simp: rt_init_def ring_split_def new_side_def demo_def demo_side_def)
qed

definition demo_end :: "nat rt_sys" where
  "demo_end = projr (run rt_do demo_moves demo)"

lemma demo_end:
  "run rt_do demo_moves demo = Inr demo_end" "sd_pc (rt_p demo_end) = Waiting" "sd_pc (rt_c demo_end) = Out"
  "rb_write (rt_sh demo_end) - rb_read (rt_sh demo_end) < rb_capacity (rt_sh demo_end)" "rt_popped demo_end = [5]"
  by code_simp+

lemma demo_reach: "\<exists>n. reach (rt_init 0) rt_step n demo_end"
  by (rule rt_schedule.run_reach [OF demo_start demo_end(1)])

text \<open>
  C20. Safety in every interleaving: what was put into the ring is what was taken out followed by at most
  a capacity of items; a thread inside a call always has a next access that does not panic, reads no slot
  that is empty and writes none that is in use; and the two threads are never about to touch the same slot.
\<close>

theorem ring_threads_safe:
  assumes "reach (rt_init k) rt_step n s"
  shows "(\<exists>xs. rt_pushed s = rt_popped s @ xs \<and> length xs \<le> 2 ^ k) \<and>
    (\<exists>t. p_move s = Inr t \<and> (in_call (rt_p s) \<longrightarrow> rt_step s t)) \<and>
    (\<exists>t. c_move s = Inr t \<and> (in_call (rt_c s) \<longrightarrow> rt_step s t)) \<and>
    (\<forall>md m l j. sd_pc (rt_p s) = Copy md m l j \<and> j < l \<longrightarrow>
       rb_buffer (rt_sh s) ! p_slot s j = None \<and>
       (\<forall>md' m' l' i. sd_pc (rt_c s) = Copy md' m' l' i \<and> i < l' \<longrightarrow> p_slot s j \<noteq> c_slot s i))"
proof -
  obtain R W pr cw xs where d: "rt_data k s R W pr cw xs"
    using rt.reachable_inv [OF assms] by (auto simp: rt_inv_def)
  note D = rt_dataD [OF d]
  have none: "rb_buffer (rt_sh s) ! p_slot s j = None" if "sd_pc (rt_p s) = Copy md m l j" "j < l" for md m l j
    using rt_p_copy(2) [OF d that] rt_index(1) [OF d, of j] by simp
  have some: "rb_buffer (rt_sh s) ! c_slot s i \<noteq> None" if "sd_pc (rt_c s) = Copy md m l i" "i < l" for md m l i
    by (rule rt_c_copy [OF d that]) (auto simp: slot_take_def split: if_splits option.splits)
  have "length xs \<le> 2 ^ k" using D(17) by (simp add: ring_rep_def)
  moreover have "\<exists>t. p_move s = Inr t \<and> (in_call (rt_p s) \<longrightarrow> rt_step s t)"
    using p_move_ok [OF assms] p_move_step [OF rt.reachable_inv [OF assms]] by blast
  moreover have "\<exists>t. c_move s = Inr t \<and> (in_call (rt_c s) \<longrightarrow> rt_step s t)"
    using c_move_ok [OF assms] c_move_step [OF rt.reachable_inv [OF assms]] by blast
  ultimately show ?thesis using D(19) none some by metis
qed

theorem ring_threads_safe_witness:
  "\<exists>n. reach (rt_init 0) rt_step n demo_end \<and> (\<exists>xs. rt_pushed demo_end = [5] @ xs \<and> length xs \<le> 1)"
proof -
  obtain n where n: "reach (rt_init 0) rt_step n demo_end" using demo_reach ..
  from ring_threads_safe [OF n] n demo_end(5) show ?thesis by auto
qed

text \<open>
  C21. No lost wakeup in any interleaving: a producer whose future is pending while there is room, and whose
  consumer is not just signalling, has been woken; likewise a consumer while there are items; and the two
  are never both asleep.
\<close>

theorem ring_threads_no_lost_wakeup:
  assumes "reach (rt_init k) rt_step n s"
  shows "(sd_pc (rt_p s) = Waiting \<and> side_spc (sd_pc (rt_c s)) = Quiet \<and>
       rb_write (rt_sh s) - rb_read (rt_sh s) < rb_capacity (rt_sh s) \<longrightarrow> sd_woken (rt_p s)) \<and>
    (sd_pc (rt_c s) = Waiting \<and> side_spc (sd_pc (rt_p s)) = Quiet \<and>
       rb_read (rt_sh s) \<noteq> rb_write (rt_sh s) \<longrightarrow> sd_woken (rt_c s)) \<and>
    (sd_pc (rt_p s) = Waiting \<and> sd_pc (rt_c s) = Waiting \<longrightarrow> sd_woken (rt_p s) \<or> sd_woken (rt_c s))"
proof -
  obtain R W pr cw xs where d: "rt_data k s R W pr cw xs"
    using rt.reachable_inv [OF assms] by (auto simp: rt_inv_def)
  have p: "sd_woken (rt_p s)" if "sd_pc (rt_p s) = Waiting" "side_spc (sd_pc (rt_c s)) = Quiet" "p_can s"
    using rt_handshakes(1) [OF assms] that by (auto simp: p_hs_def side_hs_def intro: slot_hs_told)
  have c: "sd_woken (rt_c s)" if "sd_pc (rt_c s) = Waiting" "side_spc (sd_pc (rt_p s)) = Quiet" "c_can s"
    using rt_handshakes(2) [OF assms] that by (auto simp: c_hs_def side_hs_def intro: slot_hs_told)
  have "p_can s \<or> c_can s" if "sd_pc (rt_p s) = Waiting" "sd_pc (rt_c s) = Waiting"
    using rt_can [OF d] that by (cases "W = R") (use rt_dataD(11,12) [OF d] in auto)
  then show ?thesis using p c by (auto simp: p_can_def c_can_def)
qed

theorem ring_threads_no_lost_wakeup_witness:
  "\<exists>n. reach (rt_init 0) rt_step n demo_end \<and> sd_pc (rt_p demo_end) = Waiting \<and> sd_woken (rt_p demo_end)"
proof -
  obtain n where n: "reach (rt_init 0) rt_step n demo_end" using demo_reach ..
  from ring_threads_no_lost_wakeup [OF n] n demo_end(2-4) show ?thesis by auto
qed

end
