(* ===== verification/OneShot.thy ===== *)
theory OneShot
  imports Notify
begin

unbundle bit_operations_syntax

text \<open>
  The oneshot channel of \<open>src/src/site_d/oneshot.rs\<close>: a state byte of four flags, the value cell and
  the receiver's waiter slot. The calls are composed from their single accesses to the state byte;
  the second half interleaves those accesses of one sender and one receiver in any order and shows
  that a sent value is delivered or dropped exactly once (\<open>Shot_Threads\<close> refines the accesses to the slot).
\<close>

section \<open>Flags\<close>

type_synonym u8 = "8 word"

definition VALUE_SET :: u8 where "VALUE_SET = push_bit 0 1"
definition SENDER_DROPPED :: u8 where "SENDER_DROPPED = push_bit 1 1"
definition RECEIVER_DROPPED :: u8 where "RECEIVER_DROPPED = push_bit 2 1"
definition TAKEN :: u8 where "TAKEN = push_bit 3 1"

definition flag :: "u8 \<Rightarrow> u8 \<Rightarrow> bool" where
  "flag s f \<longleftrightarrow> s AND f \<noteq> 0"

lemmas flag_consts = VALUE_SET_def SENDER_DROPPED_def RECEIVER_DROPPED_def TAKEN_def

lemma flag_bit:
  "flag s VALUE_SET = bit s 0" "flag s SENDER_DROPPED = bit s 1"
  "flag s RECEIVER_DROPPED = bit s 2" "flag s TAKEN = bit s 3"
  unfolding flag_def flag_consts bit_iff_and_push_bit_not_eq_0 by (rule refl)+

lemma flag_zero [simp]: "\<not> flag 0 f"
  by (simp add: flag_def)

lemma flag_or [simp]:
  "flag (s OR VALUE_SET) VALUE_SET" "flag (s OR VALUE_SET) SENDER_DROPPED = flag s SENDER_DROPPED"
  "flag (s OR VALUE_SET) RECEIVER_DROPPED = flag s RECEIVER_DROPPED"
  "flag (s OR VALUE_SET) TAKEN = flag s TAKEN"
  "flag (s OR SENDER_DROPPED) SENDER_DROPPED" "flag (s OR SENDER_DROPPED) VALUE_SET = flag s VALUE_SET"
  "flag (s OR SENDER_DROPPED) RECEIVER_DROPPED = flag s RECEIVER_DROPPED"
  "flag (s OR SENDER_DROPPED) TAKEN = flag s TAKEN"
  "flag (s OR RECEIVER_DROPPED) RECEIVER_DROPPED"
  "flag (s OR RECEIVER_DROPPED) VALUE_SET = flag s VALUE_SET"
  "flag (s OR RECEIVER_DROPPED) SENDER_DROPPED = flag s SENDER_DROPPED"
  "flag (s OR RECEIVER_DROPPED) TAKEN = flag s TAKEN"
  "flag (s OR TAKEN) TAKEN" "flag (s OR TAKEN) VALUE_SET = flag s VALUE_SET"
  "flag (s OR TAKEN) SENDER_DROPPED = flag s SENDER_DROPPED"
  "flag (s OR TAKEN) RECEIVER_DROPPED = flag s RECEIVER_DROPPED"
  unfolding flag_bit by (simp_all add: bit_or_iff flag_consts bit_push_bit_iff)

section \<open>The channel\<close>

record 'a oneshot_inner =
  os_value :: "'a option"
  os_state :: u8
  os_recv :: waiter_slot

definition oneshot_new :: "'a oneshot_inner" where
  "oneshot_new = \<lparr>os_value = None, os_state = 0, os_recv = slot_new\<rparr>"

text \<open>\<open>assume_init_read\<close> and \<open>assume_init_drop\<close> of the cell.\<close>

definition os_read_cell :: "'a oneshot_inner \<Rightarrow> ('a \<times> 'a oneshot_inner) res" where
  "os_read_cell i =
     (case os_value i of Some v \<Rightarrow> Inr (v, i\<lparr>os_value := None\<rparr>) | None \<Rightarrow> Inl UninitRead)"

definition take_value :: "u8 \<Rightarrow> 'a oneshot_inner \<Rightarrow> ('a option \<times> 'a oneshot_inner) res" where
  "take_value s i =
     (if flag s TAKEN then Inr (None, i)
      else
        rbind (rassert (flag s VALUE_SET) (Assertion ''assertion failed'')) (\<lambda>_.
        rbind (os_read_cell (i\<lparr>os_state := s OR TAKEN\<rparr>)) (\<lambda>(v, i'). Inr (Some v, i'))))"

text \<open>\<open>Drop\<close> of the shared part: the value it drops, if any.\<close>

definition inner_drop :: "'a oneshot_inner \<Rightarrow> 'a option res" where
  "inner_drop i =
     (if flag (os_state i) VALUE_SET \<and> \<not> flag (os_state i) TAKEN
      then rbind (os_read_cell i) (\<lambda>(v, _). Inr (Some v))
      else Inr None)"

definition os_signal :: "'a oneshot_inner \<Rightarrow> waker list \<times> 'a oneshot_inner" where
  "os_signal i = (let (ws, r) = slot_signal (os_recv i) in (ws, i\<lparr>os_recv := r\<rparr>))"

definition sender_drop :: "'a oneshot_inner \<Rightarrow> waker list \<times> 'a oneshot_inner" where
  "sender_drop i =
     (if \<not> flag (os_state i) VALUE_SET
      then os_signal (i\<lparr>os_state := os_state i OR SENDER_DROPPED\<rparr>)
      else ([], i))"

text \<open>
  \<open>send\<close> consumes the sender, so its destructor runs before it returns; \<open>Some v\<close> is \<open>Err(v)\<close>.
\<close>

definition os_send :: "'a \<Rightarrow> 'a oneshot_inner \<Rightarrow> 'a option \<times> waker list \<times> 'a oneshot_inner" where
  "os_send value i =
     (let s = os_state i in
      if flag s RECEIVER_DROPPED then (let (ws, i') = sender_drop i in (Some value, ws, i'))
      else
        (let (ws, i1) = os_signal (i\<lparr>os_value := Some value, os_state := s OR VALUE_SET\<rparr>);
             (ws', i2) = sender_drop i1
         in (None, ws @ ws', i2)))"

definition is_closed :: "'a oneshot_inner \<Rightarrow> bool" where
  "is_closed i = flag (os_state i) RECEIVER_DROPPED"

datatype recv_error = RecvError

definition try_recv :: "'a oneshot_inner \<Rightarrow> ((recv_error + 'a option) \<times> 'a oneshot_inner) res" where
  "try_recv i =
     (let s = os_state i in
      if flag s VALUE_SET then rbind (take_value s i) (\<lambda>(v, i'). Inr (Inr v, i'))
      else if flag s SENDER_DROPPED then Inr (Inl RecvError, i)
      else Inr (Inr None, i))"

definition resolve :: "'a oneshot_inner \<Rightarrow> ((recv_error + 'a) option \<times> 'a oneshot_inner) res" where
  "resolve i =
     (let s = os_state i in
      if flag s VALUE_SET then
        rbind (take_value s i) (\<lambda>(v, i').
          Inr (Some (case v of Some x \<Rightarrow> Inr x | None \<Rightarrow> Inl RecvError), i'))
      else if flag s SENDER_DROPPED then Inr (Some (Inl RecvError), i)
      else Inr (None, i))"

definition oneshot_poll ::
  "waker \<Rightarrow> 'a oneshot_inner \<Rightarrow> ((recv_error + 'a) poll \<times> waker list \<times> 'a oneshot_inner) res" where
  "oneshot_poll waker i =
     rbind (resolve i) (\<lambda>(r, i1).
       case r of
         Some out \<Rightarrow> Inr (Ready out, [], i1)
       | None \<Rightarrow>
           rbind (slot_arm waker (os_recv i1)) (\<lambda>(ws, slot).
           rbind (resolve (i1\<lparr>os_recv := slot\<rparr>)) (\<lambda>(r2, i2).
             case r2 of
               Some out \<Rightarrow> Inr (Ready out, ws, i2\<lparr>os_recv := slot_disarm (os_recv i2)\<rparr>)
             | None \<Rightarrow> Inr (Pending, ws, i2))))"

definition receiver_drop :: "'a oneshot_inner \<Rightarrow> 'a oneshot_inner" where
  "receiver_drop i = i\<lparr>os_state := os_state i OR RECEIVER_DROPPED\<rparr>"

section \<open>Calls that do not overlap\<close>

text \<open>The cell holds a value exactly from the publication to the read.\<close>

definition oneshot_ok :: "'a oneshot_inner \<Rightarrow> bool" where
  "oneshot_ok i \<longleftrightarrow> slot_ok (os_recv i) \<and>
     (os_value i \<noteq> None \<longleftrightarrow> flag (os_state i) VALUE_SET \<and> \<not> flag (os_state i) TAKEN) \<and>
     (flag (os_state i) TAKEN \<longrightarrow> flag (os_state i) VALUE_SET)"

lemma oneshot_new_ok [simp]: "oneshot_ok oneshot_new"
  by (simp add: oneshot_ok_def oneshot_new_def)

lemma resolve_wp:
  assumes "oneshot_ok i"
  shows "wp (resolve i) (\<lambda>(r, i'). oneshot_ok i' \<and> os_recv i' = os_recv i \<and>
    (case os_value i of
       Some v \<Rightarrow> r = Some (Inr v) \<and> os_value i' = None \<and> flag (os_state i') TAKEN
     | None \<Rightarrow> i' = i \<and>
         r = (if flag (os_state i) VALUE_SET \<or> flag (os_state i) SENDER_DROPPED
              then Some (Inl RecvError) else None)))"
  using assms
  by (auto simp: resolve_def take_value_def os_read_cell_def oneshot_ok_def Let_def split: option.splits)

lemma oneshot_poll_wp:
  assumes "oneshot_ok i"
  shows "wp (oneshot_poll w i) (\<lambda>(r, ws, i'). oneshot_ok i' \<and> ws = [] \<and>
    (case os_value i of
       Some v \<Rightarrow> r = Ready (Inr v) \<and> os_value i' = None \<and> flag (os_state i') TAKEN
     | None \<Rightarrow> os_value i' = None \<and> os_state i' = os_state i \<and>
         (if flag (os_state i) VALUE_SET \<or> flag (os_state i) SENDER_DROPPED
          then r = Ready (Inl RecvError)
          else r = Pending \<and> sl_armed (os_recv i') \<and> aw_cell (sl_waker (os_recv i')) = Some w)))"
proof (cases "os_value i = None \<and> \<not> (flag (os_state i) VALUE_SET \<or> flag (os_state i) SENDER_DROPPED)")
  case True
  have s: "slot_ok (os_recv i)" using assms by (simp add: oneshot_ok_def)
  let ?slot = "\<lparr>sl_waker = \<lparr>aw_state = WAITING, aw_cell = Some w\<rparr>, sl_armed = True\<rparr>"
  have res: "resolve i = Inr (None, i)" "resolve (i\<lparr>os_recv := ?slot\<rparr>) = Inr (None, i\<lparr>os_recv := ?slot\<rparr>)"
    using True by (simp_all add: resolve_def Let_def)
  then show ?thesis
    using True assms slot_arm_ok [OF s, of w] by (simp add: oneshot_poll_def oneshot_ok_def slot_ok_def)
next
  case False
  then show ?thesis
    using resolve_wp [OF assms]
    by (auto simp: oneshot_poll_def elim!: wp_mono split: option.splits)
qed

lemma os_signal_simps:
  "os_value (snd (os_signal i)) = os_value i" "os_state (snd (os_signal i)) = os_state i"
  "os_recv (snd (os_signal i)) = snd (slot_signal (os_recv i))"
  "fst (os_signal i) = fst (slot_signal (os_recv i))"
  by (simp_all add: os_signal_def split_def Let_def)

lemma os_send_ok:
  assumes "oneshot_ok i" "\<not> flag (os_state i) VALUE_SET" "\<not> flag (os_state i) RECEIVER_DROPPED"
  shows "case os_send v i of (r, ws, i') \<Rightarrow> r = None \<and> oneshot_ok i' \<and> os_value i' = Some v \<and>
    ws = fst (slot_signal (os_recv i))"
  using assms slot_signal_slot_ok [of "os_recv i"]
  by (auto simp: os_send_def sender_drop_def Let_def split_def os_signal_simps oneshot_ok_def)

lemma os_send_closed:
  assumes "oneshot_ok i" "flag (os_state i) RECEIVER_DROPPED"
  shows "case os_send v i of (r, ws, i') \<Rightarrow> r = Some v \<and> oneshot_ok i' \<and> os_value i' = os_value i"
  using assms slot_signal_slot_ok [of "os_recv i"]
  by (auto simp: os_send_def sender_drop_def Let_def split_def os_signal_simps oneshot_ok_def)

section \<open>Calls that overlap\<close>

text \<open>
  One step per access to shared memory. The sender: \<open>SLoaded\<close> after the load of \<open>send\<close>, \<open>SWritten\<close>
  after the write of the cell, \<open>SPublished\<close> after the store; then its destructor. The receiver:
  \<open>RLoaded\<close> after a load that saw an untaken value, \<open>RMarked\<close> after the store of \<open>TAKEN\<close>. The ghost
  fields record the value handed to \<open>send\<close> and moved into the cell, the values the receiver got, and
  the values dropped with the channel.
\<close>

datatype 'a sender_pc = SReady | SLoaded 'a u8 | SWritten u8 | SPublished | SDropping | SClosing | SGone
datatype receiver_pc = RReady | RLoaded u8 | RMarked | RGone

record 'a oneshot_sys =
  ox_inner :: "'a oneshot_inner"
  ox_spc :: "'a sender_pc"
  ox_rpc :: receiver_pc
  ox_sent :: "'a option"
  ox_got :: "'a list"
  ox_dropped :: "'a list"
  ox_freed :: bool

definition oneshot_init :: "'a oneshot_sys \<Rightarrow> bool" where
  "oneshot_init s \<longleftrightarrow> s = \<lparr>ox_inner = oneshot_new, ox_spc = SReady, ox_rpc = RReady, ox_sent = None,
     ox_got = [], ox_dropped = [], ox_freed = False\<rparr>"

inductive oneshot_step :: "'a oneshot_sys \<Rightarrow> 'a oneshot_sys \<Rightarrow> bool" where
  send_load: "ox_spc s = SReady \<Longrightarrow> st = os_state (ox_inner s) \<Longrightarrow>
    oneshot_step s (s\<lparr>ox_spc := (if flag st RECEIVER_DROPPED then SDropping else SLoaded v st)\<rparr>)"
| send_write: "ox_spc s = SLoaded v st \<Longrightarrow>
    oneshot_step s (s\<lparr>ox_inner := (ox_inner s)\<lparr>os_value := Some v\<rparr>, ox_spc := SWritten st, ox_sent := Some v\<rparr>)"
| send_publish: "ox_spc s = SWritten st \<Longrightarrow>
    oneshot_step s (s\<lparr>ox_inner := (ox_inner s)\<lparr>os_state := st OR VALUE_SET\<rparr>, ox_spc := SPublished\<rparr>)"
| send_signal: "ox_spc s = SPublished \<Longrightarrow>
    oneshot_step s (s\<lparr>ox_inner := snd (os_signal (ox_inner s)), ox_spc := SDropping\<rparr>)"
| sender_drop_start: "ox_spc s = SReady \<Longrightarrow> oneshot_step s (s\<lparr>ox_spc := SDropping\<rparr>)"
| sender_drop_load: "ox_spc s = SDropping \<Longrightarrow>
    oneshot_step s (s\<lparr>ox_spc := (if flag (os_state (ox_inner s)) VALUE_SET then SGone else SClosing)\<rparr>)"
| sender_drop_close: "ox_spc s = SClosing \<Longrightarrow>
    oneshot_step s (s\<lparr>ox_inner := snd (os_signal ((ox_inner s)\<lparr>os_state := os_state (ox_inner s) OR SENDER_DROPPED\<rparr>)),
      ox_spc := SGone\<rparr>)"
| recv_load: "ox_rpc s = RReady \<Longrightarrow> st = os_state (ox_inner s) \<Longrightarrow>
    oneshot_step s (s\<lparr>ox_rpc := (if flag st VALUE_SET \<and> \<not> flag st TAKEN then RLoaded st else RReady)\<rparr>)"
| recv_mark: "ox_rpc s = RLoaded st \<Longrightarrow>
    oneshot_step s (s\<lparr>ox_inner := (ox_inner s)\<lparr>os_state := st OR TAKEN\<rparr>, ox_rpc := RMarked\<rparr>)"
| recv_read: "ox_rpc s = RMarked \<Longrightarrow> os_read_cell (ox_inner s) = Inr (v, i) \<Longrightarrow>
    oneshot_step s (s\<lparr>ox_inner := i, ox_rpc := RReady, ox_got := ox_got s @ [v]\<rparr>)"
| recv_arm: "ox_rpc s = RReady \<Longrightarrow> slot_arm w (os_recv (ox_inner s)) = Inr (ws, r) \<Longrightarrow>
    oneshot_step s (s\<lparr>ox_inner := (ox_inner s)\<lparr>os_recv := r\<rparr>\<rparr>)"
| recv_disarm: "ox_rpc s = RReady \<Longrightarrow>
    oneshot_step s (s\<lparr>ox_inner := (ox_inner s)\<lparr>os_recv := slot_disarm (os_recv (ox_inner s))\<rparr>\<rparr>)"
| recv_drop: "ox_rpc s = RReady \<Longrightarrow>
    oneshot_step s (s\<lparr>ox_inner := receiver_drop (ox_inner s), ox_rpc := RGone\<rparr>)"
| free: "ox_spc s = SGone \<Longrightarrow> ox_rpc s = RGone \<Longrightarrow> \<not> ox_freed s \<Longrightarrow>
    inner_drop (ox_inner s) = Inr d \<Longrightarrow>
    oneshot_step s (s\<lparr>ox_freed := True, ox_dropped := (case d of Some v \<Rightarrow> [v] | None \<Rightarrow> [])\<rparr>)"

definition no_flags :: "u8 \<Rightarrow> bool" where
  "no_flags st \<longleftrightarrow> \<not> flag st VALUE_SET \<and> \<not> flag st SENDER_DROPPED \<and> \<not> flag st RECEIVER_DROPPED \<and> \<not> flag st TAKEN"

definition before_publish :: "'a sender_pc \<Rightarrow> bool" where
  "before_publish p \<longleftrightarrow> p = SReady \<or> (\<exists>v st. p = SLoaded v st) \<or> (\<exists>st. p = SWritten st)"

text \<open>
  The invariant. The flags only ever change the way the comments of the source claim: no value is
  visible before the publication; a value that was published stays visible; \<open>TAKEN\<close> marks exactly
  the values read or about to be read.
\<close>

definition oneshot_inv :: "'a oneshot_sys \<Rightarrow> bool" where
  "oneshot_inv s \<longleftrightarrow>
     (let i = ox_inner s; st = os_state i; sp = ox_spc s; rp = ox_rpc s in
      \<comment> \<open>what the sender has loaded is still true of its own flags\<close>
      (\<forall>v s0. sp = SLoaded v s0 \<longrightarrow> no_flags s0) \<and> (\<forall>s0. sp = SWritten s0 \<longrightarrow> no_flags s0) \<and>
      (before_publish sp \<longrightarrow> \<not> flag st VALUE_SET \<and> \<not> flag st SENDER_DROPPED \<and> \<not> flag st TAKEN) \<and>
      (sp = SReady \<or> (\<exists>v s0. sp = SLoaded v s0) \<longrightarrow> ox_sent s = None) \<and>
      (\<forall>s0. sp = SWritten s0 \<longrightarrow> ox_sent s \<noteq> None) \<and>
      (\<not> before_publish sp \<longrightarrow> (ox_sent s \<noteq> None \<longleftrightarrow> flag st VALUE_SET)) \<and>
      (sp = SPublished \<longrightarrow> flag st VALUE_SET) \<and> (sp = SClosing \<longrightarrow> \<not> flag st VALUE_SET) \<and>
      \<comment> \<open>the receiver's marks\<close>
      (\<forall>s0. rp = RLoaded s0 \<longrightarrow> s0 = st \<and> flag st VALUE_SET \<and> \<not> flag st TAKEN) \<and>
      (rp = RMarked \<longrightarrow> flag st VALUE_SET \<and> flag st TAKEN) \<and>
      (flag st TAKEN \<longrightarrow> flag st VALUE_SET) \<and>
      \<comment> \<open>where the value is\<close>
      (rp = RMarked \<or> \<not> flag st TAKEN \<longrightarrow> os_value i = ox_sent s \<and> ox_got s = []) \<and>
      (rp \<noteq> RMarked \<and> flag st TAKEN \<longrightarrow> os_value i = None \<and> Some (ox_got s) = map_option (\<lambda>v. [v]) (ox_sent s)) \<and>
      \<comment> \<open>the end\<close>
      (\<not> ox_freed s \<longrightarrow> ox_dropped s = []) \<and>
      (ox_freed s \<longrightarrow> sp = SGone \<and> rp = RGone \<and>
         ox_dropped s = (case ox_sent s of Some v \<Rightarrow> if flag st TAKEN then [] else [v] | None \<Rightarrow> [])))"

lemma before_publish_simps [simp]:
  "before_publish SReady" "before_publish (SLoaded v st)" "before_publish (SWritten st)"
  "\<not> before_publish SPublished" "\<not> before_publish SDropping" "\<not> before_publish SClosing"
  "\<not> before_publish SGone"
  by (simp_all add: before_publish_def)

lemma oneshot_inv_init: "oneshot_init s \<Longrightarrow> oneshot_inv s"
  by (simp add: oneshot_init_def oneshot_inv_def oneshot_new_def)

lemma oneshot_inv_step:
  assumes inv: "oneshot_inv s" and step: "oneshot_step s t"
  shows "oneshot_inv t"
  using step
proof cases
  case (send_load st v)
  then show ?thesis using inv by (auto simp: oneshot_inv_def Let_def no_flags_def)
next
  case (send_write v st)
  then show ?thesis using inv by (auto simp: oneshot_inv_def Let_def)
next
  case (send_publish st)
  then show ?thesis using inv by (auto simp: oneshot_inv_def Let_def no_flags_def)
next
  case send_signal
  then show ?thesis using inv by (auto simp: oneshot_inv_def Let_def os_signal_simps)
next
  case sender_drop_start
  then show ?thesis using inv by (auto simp: oneshot_inv_def Let_def)
next
  case sender_drop_load
  then show ?thesis using inv by (auto simp: oneshot_inv_def Let_def)
next
  case sender_drop_close
  then show ?thesis using inv by (auto simp: oneshot_inv_def Let_def os_signal_simps)
next
  case (recv_load st)
  then show ?thesis using inv by (auto simp: oneshot_inv_def Let_def)
next
  case (recv_mark st)
  then show ?thesis using inv by (auto simp: oneshot_inv_def Let_def)
next
  case (recv_read v i)
  then show ?thesis
    using inv by (auto simp: oneshot_inv_def Let_def os_read_cell_def split: option.splits)
next
  case (recv_drop)
  then show ?thesis using inv by (auto simp: oneshot_inv_def Let_def receiver_drop_def)
next
  case (free d)
  then show ?thesis
    using inv by (auto simp: oneshot_inv_def Let_def inner_drop_def os_read_cell_def split: option.splits if_splits)
qed (use inv in \<open>auto simp: oneshot_inv_def Let_def\<close>)

interpretation ox: invariant_system oneshot_init oneshot_step oneshot_inv
  by unfold_locales (auto intro: oneshot_inv_init oneshot_inv_step)

section \<open>Correctness\<close>

text \<open>A run: the value 5 is sent and published, and the receiver is dropped without reading it.\<close>

lemma oneshot_run:
  obtains s :: "nat oneshot_sys" where "reach oneshot_init oneshot_step 7 s" "ox_freed s" "ox_sent s = Some 5"
proof -
  let ?s = "\<lambda>i sp rp snt d fr. \<lparr>ox_inner = i, ox_spc = sp, ox_rpc = rp, ox_sent = snt, ox_got = [],
    ox_dropped = d, ox_freed = fr\<rparr>"
  let ?i = "\<lambda>v st. \<lparr>os_value = v, os_state = st, os_recv = slot_new\<rparr> :: nat oneshot_inner"
  have sig: "slot_signal slot_new = ([], slot_new)" by (simp add: slot_signal_def slot_new_def)
  have "reach oneshot_init oneshot_step 0 (?s (?i None 0) SReady RReady None [] False)"
    by (rule reach.start) (simp add: oneshot_init_def oneshot_new_def)
  from reach.next_step [OF this, OF oneshot_step.send_load [where st = 0 and v = 5]]
  have "reach oneshot_init oneshot_step 1 (?s (?i None 0) (SLoaded 5 0) RReady None [] False)"
    by (simp add: flag_def)
  from reach.next_step [OF this, OF oneshot_step.send_write [where v = 5 and st = 0]]
  have "reach oneshot_init oneshot_step 2 (?s (?i (Some 5) 0) (SWritten 0) RReady (Some 5) [] False)"
    by (simp add: numeral_2_eq_2)
  from reach.next_step [OF this, OF oneshot_step.send_publish [where st = 0]]
  have "reach oneshot_init oneshot_step 3 (?s (?i (Some 5) VALUE_SET) SPublished RReady (Some 5) [] False)"
    by (simp add: numeral_3_eq_3 numeral_2_eq_2)
  from reach.next_step [OF this, OF oneshot_step.send_signal]
  have "reach oneshot_init oneshot_step 4 (?s (?i (Some 5) VALUE_SET) SDropping RReady (Some 5) [] False)"
    by (simp add: os_signal_def sig eval_nat_numeral)
  from reach.next_step [OF this, OF oneshot_step.sender_drop_load]
  have "reach oneshot_init oneshot_step 5 (?s (?i (Some 5) VALUE_SET) SGone RReady (Some 5) [] False)"
    by (simp add: flag_def VALUE_SET_def eval_nat_numeral)
  from reach.next_step [OF this, OF oneshot_step.recv_drop]
  have "reach oneshot_init oneshot_step 6
      (?s (?i (Some 5) (VALUE_SET OR RECEIVER_DROPPED)) SGone RGone (Some 5) [] False)"
    by (simp add: receiver_drop_def eval_nat_numeral)
  from reach.next_step [OF this, OF oneshot_step.free [where d = "Some 5"]]
  have "reach oneshot_init oneshot_step 7
      (?s (?i (Some 5) (VALUE_SET OR RECEIVER_DROPPED)) SGone RGone (Some 5) [5] True)"
    by (simp add: inner_drop_def os_read_cell_def flag_def flag_consts eval_nat_numeral)
  then show thesis by (rule that) simp_all
qed

text \<open>
  Exactly once. In every interleaving of the sender's and the receiver's accesses, the receiver gets
  nothing but the value that was sent, at most once; when the channel is freed, the value sent has been
  received or dropped, and never both. No access reads an empty cell.
\<close>

lemma oneshot_exactly_once:
  assumes "reach oneshot_init oneshot_step n s"
  shows "(ox_got s = [] \<or> Some (ox_got s) = map_option (\<lambda>v. [v]) (ox_sent s)) \<and>
    (ox_freed s \<longrightarrow> ox_got s @ ox_dropped s = (case ox_sent s of Some v \<Rightarrow> [v] | None \<Rightarrow> [])) \<and>
    (ox_rpc s = RMarked \<longrightarrow> wp (os_read_cell (ox_inner s)) (\<lambda>(v, _). ox_sent s = Some v)) \<and>
    (ox_spc s = SGone \<and> ox_rpc s = RGone \<longrightarrow> wp (inner_drop (ox_inner s)) (\<lambda>_. True))"
proof -
  have inv: "oneshot_inv s" by (rule ox.reachable_inv [OF assms])
  have "ox_got s = [] \<or> Some (ox_got s) = map_option (\<lambda>v. [v]) (ox_sent s)"
    using inv unfolding oneshot_inv_def Let_def by blast
  moreover have "ox_freed s \<longrightarrow> ox_got s @ ox_dropped s = (case ox_sent s of Some v \<Rightarrow> [v] | None \<Rightarrow> [])"
    using inv by (auto simp: oneshot_inv_def Let_def split: option.splits if_splits)
  moreover have "ox_rpc s = RMarked \<longrightarrow> wp (os_read_cell (ox_inner s)) (\<lambda>(v, _). ox_sent s = Some v)"
    using inv by (auto simp: oneshot_inv_def Let_def os_read_cell_def split: option.splits)
  moreover have "ox_spc s = SGone \<and> ox_rpc s = RGone \<longrightarrow> wp (inner_drop (ox_inner s)) (\<lambda>_. True)"
    using inv by (auto simp: oneshot_inv_def Let_def inner_drop_def os_read_cell_def split: option.splits)
  ultimately show ?thesis by blast
qed

lemma oneshot_exactly_once_witness:
  "\<exists>s. reach oneshot_init oneshot_step 7 (s :: nat oneshot_sys) \<and> ox_got s @ ox_dropped s = [5]"
proof -
  obtain s :: "nat oneshot_sys" where s: "reach oneshot_init oneshot_step 7 s" "ox_freed s" "ox_sent s = Some 5"
    by (rule oneshot_run)
  from oneshot_exactly_once [OF s(1)] s show ?thesis by auto
qed

text \<open>
  A receiver that polled \<open>Pending\<close> is woken by \<open>send\<close> and then gets the value; if instead the
  sender is dropped, it is woken and then gets the error.
\<close>

lemma oneshot_wakes_receiver:
  assumes ok: "oneshot_ok i" and st: "no_flags (os_state i)"
  shows "wp (oneshot_poll w i) (\<lambda>(r, _, i1). r = Pending \<and>
    (case os_send v i1 of (e, ws, i2) \<Rightarrow> e = None \<and> ws = [w] \<and>
       wp (oneshot_poll w' i2) (\<lambda>(r2, _). r2 = Ready (Inr v))) \<and>
    (case sender_drop i1 of (ws, i2) \<Rightarrow> ws = [w] \<and>
       wp (oneshot_poll w' i2) (\<lambda>(r2, _). r2 = Ready (Inl RecvError))))"
proof -
  have none: "os_value i = None" using ok st by (auto simp: oneshot_ok_def no_flags_def)
  have sent: "case os_send v i1 of (e, ws, i2) \<Rightarrow> e = None \<and> ws = [w] \<and>
       wp (oneshot_poll w' i2) (\<lambda>(r2, _). r2 = Ready (Inr v))"
    if i1: "oneshot_ok i1" "os_state i1 = os_state i" "parked_on w (os_recv i1)" for i1
  proof -
    obtain e ws i2 where run: "os_send v i1 = (e, ws, i2)" by (cases "os_send v i1")
    with os_send_ok [OF i1(1), of v] st i1(2,3) have "e = None" "oneshot_ok i2" "os_value i2 = Some v" "ws = [w]"
      by (auto simp: no_flags_def parked_signal)
    with oneshot_poll_wp [of i2 w'] run show ?thesis by (auto elim!: wp_mono)
  qed
  have dropped: "case sender_drop i1 of (ws, i2) \<Rightarrow> ws = [w] \<and>
       wp (oneshot_poll w' i2) (\<lambda>(r2, _). r2 = Ready (Inl RecvError))"
    if i1: "oneshot_ok i1" "os_state i1 = os_state i" "parked_on w (os_recv i1)" "os_value i1 = None" for i1
  proof -
    obtain ws i2 where run: "sender_drop i1 = (ws, i2)" by (cases "sender_drop i1")
    have v: "\<not> flag (os_state i1) VALUE_SET" "\<not> flag (os_state i1) TAKEN"
      using st i1(2) by (simp_all add: no_flags_def)
    have i2: "ws = fst (slot_signal (os_recv i1))" "os_value i2 = None"
      "os_state i2 = os_state i1 OR SENDER_DROPPED" "os_recv i2 = snd (slot_signal (os_recv i1))"
      using run v i1(4) by (auto simp: sender_drop_def os_signal_def split: prod.splits)
    have fl: "flag (os_state i2) SENDER_DROPPED" "\<not> flag (os_state i2) VALUE_SET" "\<not> flag (os_state i2) TAKEN"
      using v i2(3) by simp_all
    have "oneshot_ok i2"
      using i1(1) i2 fl by (simp add: oneshot_ok_def slot_signal_slot_ok)
    with oneshot_poll_wp [of i2 w'] i2 fl run i1(3) show ?thesis by (auto simp: parked_signal elim!: wp_mono)
  qed
  obtain i1 where poll: "oneshot_poll w i = Inr (Pending, [], i1)" and i1: "oneshot_ok i1" "os_value i1 = None"
    "os_state i1 = os_state i" "parked_on w (os_recv i1)"
    using oneshot_poll_wp [OF ok, of w] none st
    by (auto simp: no_flags_def parked_on_def oneshot_ok_def wp_ex)
  show ?thesis unfolding poll using sent [OF i1(1,3,4)] dropped [OF i1(1,3,4,2)] by simp
qed

lemma oneshot_wakes_receiver_witness:
  "wp (oneshot_poll 1 oneshot_new) (\<lambda>(r, _, i1). r = Pending \<and> fst (snd (os_send (5::nat) i1)) = [1])"
proof -
  have "no_flags (os_state (oneshot_new :: nat oneshot_inner))" by (simp add: no_flags_def oneshot_new_def)
  from oneshot_wakes_receiver [OF oneshot_new_ok this, where w = 1 and v = 5 and w' = 2] show ?thesis by (auto elim!: wp_mono)
qed

end
