(* ===== verification/Shot_Threads.thy ===== *)
theory Shot_Threads
  imports OneShot Slot_Access
begin

text \<open>
  The oneshot channel with its waiter slot, one shared access at a time: the accesses of \<open>send\<close>, of the
  sender's destructor and of the signal they end with, interleaved with those of \<open>try_recv\<close>, of the
  receiver's \<open>poll\<close> with the registration in its slot, and of the receiver's destructor. It refines the
  interleaving of \<open>OneShot\<close>, where arming and signalling are single steps, and its slot simulates the
  handshake of \<open>Notify\<close>.
\<close>

section \<open>The threads\<close>

text \<open>
  The sender: \<open>SnLoad\<close>, \<open>SnWrite\<close>, \<open>SnPublish\<close> and \<open>SnSignal False\<close> are \<open>send\<close>; \<open>SnDrop\<close>, \<open>SnClose\<close> and
  \<open>SnSignal True\<close> its destructor. The receiver: \<open>RvLoad\<close>, \<open>RvMark\<close> and \<open>RvRead\<close> are \<open>resolve\<close> (or
  \<open>try_recv\<close>), \<open>RvReg\<close> the accesses of \<open>arm\<close>, \<open>RvClear\<close> is \<open>disarm\<close>, \<open>RvWaiting\<close> a poll that returned
  \<open>Pending\<close>.
\<close>

datatype 'a snd_pc = SnOut | SnLoad 'a | SnWrite 'a u8 | SnPublish u8 | SnSignal bool signal_pc | SnDrop | SnClose | SnEnd

datatype rcv_pc = RvOut | RvLoad mode | RvMark mode u8 | RvRead mode | RvReg waiter_pc | RvClear | RvWaiting | RvEnd

record 'a ot_sys =
  ot_inner :: "'a oneshot_inner"
  ot_spc :: "'a snd_pc"
  ot_rpc :: rcv_pc
  ot_cur :: waker
  ot_woken :: bool
  ot_sent :: "'a option"
  ot_got :: "'a list"
  ot_dropped :: "'a list"
  ot_freed :: bool

definition ot_wake :: "waker list \<Rightarrow> 'a ot_sys \<Rightarrow> 'a ot_sys" where
  "ot_wake ws s = s\<lparr>ot_woken := (ot_woken s \<or> ot_cur s \<in> set ws)\<rparr>"

text \<open>The next access of the sender.\<close>

definition snd_move :: "'a ot_sys \<Rightarrow> 'a ot_sys" where
  "snd_move s =
     (let i = ot_inner s in
      case ot_spc s of
        SnLoad v \<Rightarrow>
          s\<lparr>ot_spc := (if flag (os_state i) RECEIVER_DROPPED then SnDrop else SnWrite v (os_state i))\<rparr>
      | SnWrite v st \<Rightarrow>
          s\<lparr>ot_inner := i\<lparr>os_value := Some v\<rparr>, ot_spc := SnPublish st, ot_sent := Some v\<rparr>
      | SnPublish st \<Rightarrow>
          s\<lparr>ot_inner := i\<lparr>os_state := st OR VALUE_SET\<rparr>, ot_spc := SnSignal False Gate\<rparr>
      | SnSignal closing q \<Rightarrow>
          (case sig_access q (os_recv i) of (ws, q', slot) \<Rightarrow>
             ot_wake ws (s\<lparr>ot_inner := i\<lparr>os_recv := slot\<rparr>,
               ot_spc := (if q' = Quiet then (if closing then SnEnd else SnDrop) else SnSignal closing q')\<rparr>))
      | SnDrop \<Rightarrow> s\<lparr>ot_spc := (if flag (os_state i) VALUE_SET then SnEnd else SnClose)\<rparr>
      | SnClose \<Rightarrow>
          s\<lparr>ot_inner := i\<lparr>os_state := os_state i OR SENDER_DROPPED\<rparr>, ot_spc := SnSignal True Gate\<rparr>
      | SnOut \<Rightarrow> s
      | SnEnd \<Rightarrow> s)"

text \<open>Where the receiver goes when the channel has resolved, and when it has not.\<close>

definition rv_done :: "mode \<Rightarrow> rcv_pc" where
  "rv_done md = (if md = Second then RvClear else RvOut)"

definition rv_fail :: "mode \<Rightarrow> 'a ot_sys \<Rightarrow> 'a ot_sys" where
  "rv_fail md s =
     (case md of
        Plain \<Rightarrow> s\<lparr>ot_rpc := RvOut\<rparr>
      | First w \<Rightarrow> s\<lparr>ot_rpc := RvReg Reg1, ot_cur := w, ot_woken := False\<rparr>
      | Second \<Rightarrow> s\<lparr>ot_rpc := RvWaiting\<rparr>)"

definition rcv_move :: "'a ot_sys \<Rightarrow> 'a ot_sys res" where
  "rcv_move s =
     (let i = ot_inner s in
      case ot_rpc s of
        RvLoad md \<Rightarrow>
          (let st = os_state i in
           if flag st VALUE_SET then
             Inr (s\<lparr>ot_rpc := (if flag st TAKEN then rv_done md else RvMark md st)\<rparr>)
           else if flag st SENDER_DROPPED then Inr (s\<lparr>ot_rpc := rv_done md\<rparr>)
           else Inr (rv_fail md s))
      | RvMark md st \<Rightarrow>
          rbind (rassert (flag st VALUE_SET) (Assertion ''assertion failed'')) (\<lambda>_.
            Inr (s\<lparr>ot_inner := i\<lparr>os_state := st OR TAKEN\<rparr>, ot_rpc := RvRead md\<rparr>))
      | RvRead md \<Rightarrow>
          rbind (os_read_cell i) (\<lambda>(v, i'). Inr (s\<lparr>ot_inner := i', ot_rpc := rv_done md, ot_got := ot_got s @ [v]\<rparr>))
      | RvReg q \<Rightarrow>
          rbind (reg_access (ot_cur s) q (os_recv i)) (\<lambda>(ws, q', slot).
            Inr (ot_wake ws (s\<lparr>ot_inner := i\<lparr>os_recv := slot\<rparr>,
              ot_rpc := (if q' = Recheck then RvLoad Second else RvReg q')\<rparr>)))
      | RvClear \<Rightarrow> Inr (s\<lparr>ot_inner := i\<lparr>os_recv := slot_disarm (os_recv i)\<rparr>, ot_rpc := RvOut\<rparr>)
      | RvOut \<Rightarrow> Inr s
      | RvWaiting \<Rightarrow> Inr s
      | RvEnd \<Rightarrow> Inr s)"

definition ot_init :: "'a ot_sys \<Rightarrow> bool" where
  "ot_init s \<longleftrightarrow> ot_inner s = oneshot_new \<and> ot_spc s = SnOut \<and> ot_rpc s = RvOut \<and> \<not> ot_woken s \<and>
     ot_sent s = None \<and> ot_got s = [] \<and> ot_dropped s = [] \<and> \<not> ot_freed s"

inductive ot_step :: "'a ot_sys \<Rightarrow> 'a ot_sys \<Rightarrow> bool" where
  sender: "ot_step s (snd_move s)"
| receiver: "rcv_move s = Inr t \<Longrightarrow> ot_step s t"
| send: "ot_spc s = SnOut \<Longrightarrow> ot_step s (s\<lparr>ot_spc := SnLoad v\<rparr>)"
| sender_gone: "ot_spc s = SnOut \<Longrightarrow> ot_step s (s\<lparr>ot_spc := SnDrop\<rparr>)"
| recv: "ot_rpc s \<in> {RvOut, RvWaiting} \<Longrightarrow> md \<noteq> Second \<Longrightarrow> ot_step s (s\<lparr>ot_rpc := RvLoad md\<rparr>)"
| receiver_gone: "ot_rpc s \<in> {RvOut, RvWaiting} \<Longrightarrow>
    ot_step s (s\<lparr>ot_inner := receiver_drop (ot_inner s), ot_rpc := RvEnd\<rparr>)"
| free: "ot_spc s = SnEnd \<Longrightarrow> ot_rpc s = RvEnd \<Longrightarrow> \<not> ot_freed s \<Longrightarrow> inner_drop (ot_inner s) = Inr d \<Longrightarrow>
    ot_step s (s\<lparr>ot_freed := True, ot_dropped := (case d of Some v \<Rightarrow> [v] | None \<Rightarrow> [])\<rparr>)"

section \<open>Refinement of the coarser interleaving\<close>

fun snd_abs :: "'a snd_pc \<Rightarrow> 'a sender_pc" where
  "snd_abs SnOut = SReady" | "snd_abs (SnLoad v) = SReady" | "snd_abs (SnWrite v st) = SLoaded v st"
| "snd_abs (SnPublish st) = SWritten st" | "snd_abs (SnSignal closing q) = (if closing then SGone else SPublished)"
| "snd_abs SnDrop = SDropping" | "snd_abs SnClose = SClosing" | "snd_abs SnEnd = SGone"

fun rcv_abs :: "rcv_pc \<Rightarrow> receiver_pc" where
  "rcv_abs (RvMark md st) = RLoaded st" | "rcv_abs (RvRead md) = RMarked" | "rcv_abs RvEnd = RGone"
| "rcv_abs _ = RReady"

definition ot_abs :: "'a ot_sys \<Rightarrow> 'a oneshot_sys" where
  "ot_abs s = \<lparr>ox_inner = \<lparr>os_value = os_value (ot_inner s), os_state = os_state (ot_inner s), os_recv = slot_new\<rparr>,
     ox_spc = snd_abs (ot_spc s), ox_rpc = rcv_abs (ot_rpc s),
     ox_sent = ot_sent s, ox_got = ot_got s, ox_dropped = ot_dropped s, ox_freed = ot_freed s\<rparr>"

lemma ot_abs_wake [simp]: "ot_abs (ot_wake ws s) = ot_abs s"
  by (simp add: ot_abs_def ot_wake_def)

lemma rcv_abs_done [simp]: "rcv_abs (rv_done md) = RReady"
  by (simp add: rv_done_def)

lemma ot_abs_fail: "rcv_abs (ot_rpc s) = RReady \<Longrightarrow> ot_abs (rv_fail md s) = ot_abs s"
  by (cases md) (simp_all add: rv_fail_def ot_abs_def)

lemma snd_move_abs: "ot_abs (snd_move s) = ot_abs s \<or> oneshot_step (ot_abs s) (ot_abs (snd_move s))"
proof (cases "ot_spc s")
  case (SnLoad v)
  then show ?thesis
    using oneshot_step.send_load [of "ot_abs s", OF _ refl, of v]
    by (cases "flag (os_state (ot_inner s)) RECEIVER_DROPPED") (simp_all add: snd_move_def Let_def ot_abs_def)
next
  case (SnWrite v st)
  then show ?thesis
    using oneshot_step.send_write [of "ot_abs s" v st] by (simp add: snd_move_def Let_def ot_abs_def)
next
  case (SnPublish st)
  then show ?thesis
    using oneshot_step.send_publish [of "ot_abs s" st] by (simp add: snd_move_def Let_def ot_abs_def)
next
  case (SnSignal closing q)
  then show ?thesis
    using oneshot_step.send_signal [of "ot_abs s"]
    by (auto simp: snd_move_def Let_def split: prod.splits) (auto simp: ot_abs_def os_signal_def)
next
  case SnDrop
  then show ?thesis
    using oneshot_step.sender_drop_load [of "ot_abs s"]
    by (cases "flag (os_state (ot_inner s)) VALUE_SET") (simp_all add: snd_move_def Let_def ot_abs_def)
next
  case SnClose
  then show ?thesis
    using oneshot_step.sender_drop_close [of "ot_abs s"] by (simp add: snd_move_def Let_def ot_abs_def os_signal_def)
qed (simp_all add: snd_move_def Let_def)

lemma rcv_move_abs:
  assumes "rcv_move s = Inr t"
  shows "ot_abs t = ot_abs s \<or> oneshot_step (ot_abs s) (ot_abs t)"
proof (cases "ot_rpc s")
  case (RvLoad md)
  then show ?thesis
    using assms oneshot_step.recv_load [of "ot_abs s", OF _ refl] ot_abs_fail [of s md]
    by (auto simp: rcv_move_def Let_def ot_abs_def split: if_splits)
next
  case (RvMark md st)
  then show ?thesis
    using assms oneshot_step.recv_mark [of "ot_abs s" st] by (auto simp: rcv_move_def Let_def rbind_Inr_iff ot_abs_def)
next
  case (RvRead md)
  then show ?thesis
    using assms oneshot_step.recv_read [of "ot_abs s"]
    by (auto simp: rcv_move_def Let_def rbind_Inr_iff ot_abs_def os_read_cell_def split: option.splits)
next
  case (RvReg q)
  then show ?thesis
    using assms by (auto simp: rcv_move_def Let_def rbind_Inr_iff split: if_splits) (auto simp: ot_abs_def)
qed (use assms in \<open>auto simp: rcv_move_def Let_def ot_abs_def\<close>)

lemma ot_step_abs: "ot_step s t \<Longrightarrow> ot_abs t = ot_abs s \<or> oneshot_step (ot_abs s) (ot_abs t)"
proof (induction rule: ot_step.cases)
  case (sender s)
  then show ?case using snd_move_abs by blast
next
  case (receiver s t)
  then show ?case using rcv_move_abs by blast
next
  case (sender_gone s)
  then show ?case using oneshot_step.sender_drop_start [of "ot_abs s"] by (simp add: ot_abs_def)
next
  case (receiver_gone s)
  then show ?case using oneshot_step.recv_drop [of "ot_abs s"] by (auto simp: ot_abs_def receiver_drop_def)
next
  case (free s d)
  then show ?case
    using oneshot_step.free [of "ot_abs s" d]
    by (auto simp: ot_abs_def inner_drop_def os_read_cell_def split: option.splits if_splits)
qed (auto simp: ot_abs_def)

text \<open>The invariant: that of the coarser interleaving, and a sender that has finished has left its mark.\<close>

definition resolved :: "'a ot_sys \<Rightarrow> bool" where
  "resolved s \<longleftrightarrow> flag (os_state (ot_inner s)) VALUE_SET \<or> flag (os_state (ot_inner s)) SENDER_DROPPED"

fun snd_marked :: "'a snd_pc \<Rightarrow> bool" where
  "snd_marked (SnSignal closing q) = True" | "snd_marked SnEnd = True" | "snd_marked _ = False"

definition ot_inv :: "'a ot_sys \<Rightarrow> bool" where
  "ot_inv s \<longleftrightarrow> oneshot_inv (ot_abs s) \<and> (snd_marked (ot_spc s) \<longrightarrow> resolved s)"

lemma oneshot_inv_marked:
  "oneshot_inv s \<Longrightarrow> ox_rpc s = RLoaded st \<Longrightarrow> st = os_state (ox_inner s) \<and> flag st VALUE_SET"
  by (simp add: oneshot_inv_def Let_def)

lemma ot_inv_mark: "ot_inv s \<Longrightarrow> ot_rpc s = RvMark md st \<Longrightarrow> st = os_state (ot_inner s) \<and> flag st VALUE_SET"
  using oneshot_inv_marked [of "ot_abs s" st] by (auto simp: ot_inv_def ot_abs_def)

lemma ot_inv_next:
  assumes inv: "ot_inv s" and step: "ot_step s t"
  shows "ot_inv t"
proof -
  have "oneshot_inv (ot_abs t)"
    using ot_step_abs [OF step] oneshot_inv_step inv by (auto simp: ot_inv_def)
  moreover have "snd_marked (ot_spc t) \<longrightarrow> resolved t"
    using step
  proof cases
    case sender
    then show ?thesis
      using inv
      by (auto simp: ot_inv_def snd_move_def Let_def resolved_def ot_wake_def split: snd_pc.splits prod.splits if_splits)
  next
    case receiver
    show ?thesis
    proof (cases "ot_rpc s")
      case (RvLoad md)
      then show ?thesis
        using receiver inv
        by (auto simp: ot_inv_def rcv_move_def Let_def resolved_def rv_fail_def split: if_splits mode.splits)
    next
      case (RvMark md st)
      then show ?thesis
        using receiver ot_inv_mark [OF inv RvMark]
        by (auto simp: rcv_move_def Let_def rbind_Inr_iff resolved_def)
    next
      case (RvRead md)
      then show ?thesis
        using receiver inv
        by (auto simp: ot_inv_def rcv_move_def Let_def rbind_Inr_iff resolved_def os_read_cell_def split: option.splits)
    next
      case (RvReg q)
      then show ?thesis
        using receiver inv
        by (auto simp: ot_inv_def rcv_move_def Let_def rbind_Inr_iff resolved_def ot_wake_def)
    qed (use receiver inv in \<open>auto simp: ot_inv_def rcv_move_def Let_def resolved_def\<close>)
  qed (use inv in \<open>auto simp: ot_inv_def resolved_def receiver_drop_def\<close>)
  ultimately show ?thesis by (simp add: ot_inv_def)
qed

lemma ot_init_abs: "ot_init s \<Longrightarrow> oneshot_init (ot_abs s)"
  by (simp add: ot_init_def oneshot_init_def ot_abs_def oneshot_new_def)

lemma ot_inv_init: "ot_init s \<Longrightarrow> ot_inv s"
  using oneshot_inv_init [OF ot_init_abs] by (simp add: ot_inv_def ot_init_def)

interpretation ot: simulation ot_init ot_step ot_inv oneshot_init oneshot_step ot_abs
  by unfold_locales (use ot_inv_init ot_inv_next ot_init_abs ot_step_abs in blast)+

section \<open>The slot is a handshake\<close>

fun rv_wpc :: "rcv_pc \<Rightarrow> waiter_pc" where
  "rv_wpc (RvLoad md) = (if md = Second then Recheck else Idle)"
| "rv_wpc (RvMark md st) = (if md = Second then Disarm else Idle)"
| "rv_wpc (RvRead md) = (if md = Second then Disarm else Idle)"
| "rv_wpc (RvReg q) = q" | "rv_wpc RvClear = Disarm" | "rv_wpc RvWaiting = Parked"
| "rv_wpc RvOut = Idle" | "rv_wpc RvEnd = Idle"

fun sn_spc :: "'a snd_pc \<Rightarrow> signal_pc" where
  "sn_spc (SnSignal closing q) = q" | "sn_spc _ = Quiet"

definition ot_hs :: "'a ot_sys \<Rightarrow> handshake" where
  "ot_hs s = slot_hs (os_recv (ot_inner s)) (resolved s) (rv_wpc (ot_rpc s)) (ot_cur s) (ot_woken s) (sn_spc (ot_spc s))"

lemma rv_wpc_done [simp]: "rv_wpc (rv_done md) = (if md = Second then Disarm else Idle)"
  by (simp add: rv_done_def)

lemma hs_go: "hs_opt (slot_hs sl True (if md = Second then Recheck else Idle) c k p)
     (slot_hs sl True (if md = Second then Disarm else Idle) c k p)"
  using hs_opt_recheck [of sl c k p True] by simp

lemma ot_hs_fail:
  "\<not> resolved s \<Longrightarrow> ot_rpc s = RvLoad md \<Longrightarrow> hs_opt (ot_hs s) (ot_hs (rv_fail md s))"
  using hs_opt_park [of "os_recv (ot_inner s)" False "ot_cur s" "ot_woken s" "sn_spc (ot_spc s)"]
    hs_opt_poll [of "os_recv (ot_inner s)" False "ot_cur s" "ot_woken s" "sn_spc (ot_spc s)"]
  by (cases md) (simp_all add: ot_hs_def rv_fail_def resolved_def)

lemma ot_hs_sender: "hs_opt (ot_hs s) (ot_hs (snd_move s))"
proof (cases "ot_spc s")
  case (SnPublish st)
  then show ?thesis using hs_opt_publish by (simp add: snd_move_def Let_def ot_hs_def resolved_def)
next
  case SnClose
  then show ?thesis using hs_opt_publish by (simp add: snd_move_def Let_def ot_hs_def resolved_def)
next
  case (SnSignal closing q)
  obtain ws q' slot where sig: "sig_access q (os_recv (ot_inner s)) = (ws, q', slot)" by (metis prod_cases3)
  from sig_access_step [OF sig] SnSignal show ?thesis
    by (cases "q' = Quiet") (simp_all add: snd_move_def Let_def sig ot_hs_def resolved_def ot_wake_def)
qed (auto simp: snd_move_def Let_def ot_hs_def resolved_def)

lemma ot_hs_receiver:
  assumes inv: "ot_inv s" and move: "rcv_move s = Inr t"
  shows "hs_opt (ot_hs s) (ot_hs t)"
proof (cases "ot_rpc s")
  case (RvLoad md)
  show ?thesis
  proof (cases "resolved s")
    case True
    then show ?thesis
      using RvLoad move hs_go [of "os_recv (ot_inner s)" md "ot_cur s" "ot_woken s" "sn_spc (ot_spc s)"]
      by (auto simp: rcv_move_def Let_def ot_hs_def resolved_def split: if_splits)
  next
    case False
    then show ?thesis
      using RvLoad move ot_hs_fail [OF False RvLoad] by (auto simp: rcv_move_def Let_def resolved_def)
  qed
next
  case (RvMark md st)
  then show ?thesis
    using move ot_inv_mark [OF inv RvMark] by (auto simp: rcv_move_def Let_def rbind_Inr_iff ot_hs_def resolved_def)
next
  case (RvRead md)
  then show ?thesis
    using move by (auto simp: rcv_move_def Let_def rbind_Inr_iff ot_hs_def resolved_def os_read_cell_def split: option.splits)
next
  case (RvReg q)
  then show ?thesis
    using move reg_access_step [of "ot_cur s" q "os_recv (ot_inner s)"]
    by (auto simp: rcv_move_def Let_def rbind_Inr_iff ot_hs_def resolved_def ot_wake_def)
next
  case RvClear
  then show ?thesis
    using move hs_opt_disarm by (auto simp: rcv_move_def Let_def ot_hs_def resolved_def)
qed (use move in \<open>auto simp: rcv_move_def Let_def\<close>)

lemma ot_hs_step:
  assumes inv: "ot_inv s" and step: "ot_step s t"
  shows "hs_opt (ot_hs s) (ot_hs t)"
  using step
proof cases
  case sender
  then show ?thesis using ot_hs_sender by blast
next
  case receiver
  then show ?thesis using ot_hs_receiver [OF inv] by blast
next
  case (recv md)
  then show ?thesis using hs_opt_cancel by (auto simp: ot_hs_def resolved_def)
next
  case receiver_gone
  then show ?thesis using hs_opt_cancel by (auto simp: ot_hs_def resolved_def receiver_drop_def)
qed (auto simp: ot_hs_def resolved_def)

lemma ot_hs_init: "ot_init s \<Longrightarrow> hs_init (ot_hs s)"
  by (simp add: ot_init_def hs_init_def ot_hs_def oneshot_new_def slot_new_def atomic_waker_new_def fun_upd_idem)

interpretation ot_slot: simulation ot_init ot_step ot_inv hs_init hs_step ot_hs
  by unfold_locales (use ot_hs_init ot_hs_step in \<open>auto simp: hs_opt_def\<close>)

lemma ot_handshake: "reach ot_init ot_step n s \<Longrightarrow> hs_inv (ot_hs s)"
  using ot_slot.simulated hs.reachable_inv by blast

section \<open>Schedules\<close>

datatype 'a ot_act = SenderMoves | ReceiverMoves | Send 'a | DropSender | Recv mode | DropReceiver

fun ot_do :: "'a ot_act \<Rightarrow> 'a ot_sys \<Rightarrow> 'a ot_sys res" where
  "ot_do SenderMoves s = Inr (snd_move s)"
| "ot_do ReceiverMoves s = rcv_move s"
| "ot_do (Send v) s = Inr (case ot_spc s of SnOut \<Rightarrow> s\<lparr>ot_spc := SnLoad v\<rparr> | _ \<Rightarrow> s)"
| "ot_do DropSender s = Inr (case ot_spc s of SnOut \<Rightarrow> s\<lparr>ot_spc := SnDrop\<rparr> | _ \<Rightarrow> s)"
| "ot_do (Recv md) s =
     Inr (if ot_rpc s \<in> {RvOut, RvWaiting} \<and> md \<noteq> Second then s\<lparr>ot_rpc := RvLoad md\<rparr> else s)"
| "ot_do DropReceiver s =
     Inr (if ot_rpc s \<in> {RvOut, RvWaiting} then s\<lparr>ot_inner := receiver_drop (ot_inner s), ot_rpc := RvEnd\<rparr> else s)"

lemma ot_do_opt: "ot_do a s = Inr t \<Longrightarrow> t = s \<or> ot_step s t"
proof (cases a)
  case (Recv md)
  assume "ot_do a s = Inr t"
  then show ?thesis using Recv ot_step.recv [of s md] by (auto split: if_splits)
next
  case DropReceiver
  assume "ot_do a s = Inr t"
  then show ?thesis using DropReceiver ot_step.receiver_gone [of s] by (auto split: if_splits)
qed (auto intro: ot_step.intros split: snd_pc.splits)

interpretation ot_schedule: scheduler ot_init ot_step ot_inv ot_do
  by unfold_locales (rule ot_do_opt)

text \<open>
  A run: the receiver polls with waker 3 and parks; the sender sends 5 and its signal calls waker 3.
\<close>

definition ot_demo :: "nat ot_sys" where
  "ot_demo = \<lparr>ot_inner = oneshot_new, ot_spc = SnOut, ot_rpc = RvOut, ot_cur = 0, ot_woken = False, ot_sent = None,
     ot_got = [], ot_dropped = [], ot_freed = False\<rparr>"

definition ot_acts :: "nat ot_act list" where
  "ot_acts = Recv (First 3) # replicate 6 ReceiverMoves @ Send 5 # replicate 10 SenderMoves"

definition ot_end :: "nat ot_sys" where
  "ot_end = projr (run ot_do ot_acts ot_demo)"

lemma ot_end:
  "run ot_do ot_acts ot_demo = Inr ot_end" "ot_rpc ot_end = RvWaiting" "ot_spc ot_end = SnEnd"
  "ot_sent ot_end = Some 5"
  by code_simp+

lemma ot_end_reach: "\<exists>n. reach ot_init ot_step n ot_end"
proof (rule ot_schedule.run_reach [OF _ ot_end(1)])
  show "reach ot_init ot_step 0 ot_demo" by (rule reach.start) (simp add: ot_init_def ot_demo_def)
qed

section \<open>Correctness in every interleaving\<close>

lemma inner_drop_abs: "inner_drop (ox_inner (ot_abs s)) = inner_drop (ot_inner s)"
  by (simp add: inner_drop_def os_read_cell_def ot_abs_def split: option.splits)

lemma rcv_move_ok:
  assumes "reach ot_init ot_step n s"
  shows "\<exists>t. rcv_move s = Inr t"
proof -
  have inv: "ot_inv s" by (rule ot.reachable_inv [OF assms])
  show ?thesis
  proof (cases "ot_rpc s")
    case (RvMark md st)
    then show ?thesis using ot_inv_mark [OF inv RvMark] by (auto simp: rcv_move_def Let_def)
  next
    case (RvRead md)
    then show ?thesis
      using inv by (auto simp: ot_inv_def oneshot_inv_def ot_abs_def Let_def rcv_move_def os_read_cell_def split: option.splits)
  next
    case (RvReg q)
    then show ?thesis
      using reg_access_ok [OF ot_handshake [OF assms, unfolded ot_hs_def]]
      by (auto simp: rcv_move_def Let_def rbind_def split: sum.splits)
  qed (simp_all add: rcv_move_def Let_def)
qed

text \<open>
  C24. Exactly once. In every interleaving of single accesses no access of the receiver panics or reads an
  empty cell; it gets nothing but the value that was sent, at most once; when the channel is freed, the
  value sent has been received or dropped, and never both.
\<close>

theorem oneshot_threads_exactly_once:
  assumes "reach ot_init ot_step n s"
  shows "(\<exists>t. rcv_move s = Inr t) \<and>
    (ot_got s = [] \<or> Some (ot_got s) = map_option (\<lambda>v. [v]) (ot_sent s)) \<and>
    (ot_freed s \<longrightarrow> ot_got s @ ot_dropped s = (case ot_sent s of Some v \<Rightarrow> [v] | None \<Rightarrow> [])) \<and>
    (ot_spc s = SnEnd \<and> ot_rpc s = RvEnd \<longrightarrow> wp (inner_drop (ot_inner s)) (\<lambda>_. True))"
proof -
  obtain m where "reach oneshot_init oneshot_step m (ot_abs s)" using ot.simulated [OF assms] by blast
  from oneshot_exactly_once [OF this, unfolded inner_drop_abs] rcv_move_ok [OF assms] show ?thesis
    by (simp add: ot_abs_def)
qed

theorem oneshot_threads_exactly_once_witness:
  "\<exists>n. reach ot_init ot_step n ot_end \<and> (ot_got ot_end = [] \<or> ot_got ot_end = [5])"
proof -
  obtain n where n: "reach ot_init ot_step n ot_end" using ot_end_reach ..
  from oneshot_threads_exactly_once [OF n] n ot_end(4) show ?thesis by auto
qed

text \<open>
  C25. No lost wakeup in any interleaving: a receiver whose poll is pending although the value has been
  published or the sender closed, and whose sender is not just signalling, has been woken; so has every
  pending receiver whose sender is gone, and when it loads the state next it does not park again.
\<close>

theorem oneshot_threads_no_lost_wakeup:
  assumes "reach ot_init ot_step n s"
  shows "(ot_rpc s = RvWaiting \<and> sn_spc (ot_spc s) = Quiet \<and> resolved s \<longrightarrow> ot_woken s) \<and>
    (ot_rpc s = RvWaiting \<and> ot_spc s = SnEnd \<longrightarrow> ot_woken s) \<and>
    (\<forall>md. ot_rpc s = RvLoad md \<and> ot_spc s = SnEnd \<longrightarrow>
       wp (rcv_move s) (\<lambda>t. ot_rpc t = rv_done md \<or> (\<exists>st. ot_rpc t = RvMark md st)))"
proof -
  have told: "ot_woken s" if "ot_rpc s = RvWaiting" "sn_spc (ot_spc s) = Quiet" "resolved s"
    using ot_handshake [OF assms] that by (auto simp: ot_hs_def intro: slot_hs_told)
  have "resolved s" if "ot_spc s = SnEnd" using ot.reachable_inv [OF assms] that by (simp add: ot_inv_def)
  then show ?thesis using told by (auto simp: rcv_move_def Let_def resolved_def)
qed

theorem oneshot_threads_no_lost_wakeup_witness:
  "\<exists>n. reach ot_init ot_step n ot_end \<and> ot_rpc ot_end = RvWaiting \<and> ot_woken ot_end"
proof -
  obtain n where n: "reach ot_init ot_step n ot_end" using ot_end_reach ..
  from oneshot_threads_no_lost_wakeup [OF n] n ot_end(2,3) show ?thesis by auto
qed

end
