(* ===== verification/TripleBuf.thy ===== *)
theory TripleBuf
  imports Notify Buffer
begin

text \<open>
  The triple buffer of \<open>src/src/site_d/triplebuffer.rs\<close>. A slot holds the raw pointer of a buffer
  (here: the memory it points to) or null; the three indices say which slot is the writer's, the
  reader's and the middle one; \<open>generation\<close> and \<open>last_read_gen\<close> are wrapping 64-bit counters that
  differ exactly when the middle holds an unread buffer. The second half runs a writer and a reader
  that keep the ownership contract of the module documentation and shows that nothing ever panics,
  that no buffer is lost, and that the reader receives exactly the published contents, in order.
\<close>

section \<open>Shared state\<close>

record 'a triple =
  tb_buffers :: "'a list option list"
  tb_lens :: "nat list"
  tb_cap :: nat
  tb_align :: nat
  tb_writer :: nat
  tb_reader :: nat
  tb_middle :: nat
  tb_gen :: usize
  tb_last :: usize
  tb_rslot :: waiter_slot
  tb_wslot :: waiter_slot

definition triple_new ::
  "(layout \<Rightarrow> bool) \<Rightarrow> 'a elem \<Rightarrow> nat \<Rightarrow> nat \<Rightarrow> ('a triple \<times> 'a aligned_buffer) res" where
  "triple_new alloc el capacity align =
     rbind (buffer_with_alignment alloc el capacity align) (\<lambda>b0.
     rbind (buffer_with_alignment alloc el capacity align) (\<lambda>b1.
     rbind (buffer_with_alignment alloc el capacity align) (\<lambda>b2.
       Inr (\<lparr>tb_buffers = [None, Some (fst (buffer_into_raw b1)), Some (fst (buffer_into_raw b2))],
             tb_lens = [0, 0, 0], tb_cap = capacity, tb_align = align,
             tb_writer = 0, tb_reader = 1, tb_middle = 2, tb_gen = 0, tb_last = 0,
             tb_rslot = slot_new, tb_wslot = slot_new\<rparr>, b0))))"

definition wake_reader :: "'a triple \<Rightarrow> waker list \<times> 'a triple" where
  "wake_reader t = (let (ws, s) = slot_signal (tb_rslot t) in (ws, t\<lparr>tb_rslot := s\<rparr>))"

definition wake_writer :: "'a triple \<Rightarrow> waker list \<times> 'a triple" where
  "wake_writer t = (let (ws, s) = slot_signal (tb_wslot t) in (ws, t\<lparr>tb_wslot := s\<rparr>))"

definition has_unread :: "'a triple \<Rightarrow> bool" where
  "has_unread t \<longleftrightarrow> tb_gen t \<noteq> tb_last t"

definition middle_free :: "'a triple \<Rightarrow> bool" where
  "middle_free t \<longleftrightarrow> tb_gen t = tb_last t"

text \<open>\<open>self.buffers[i].swap(p)\<close> and \<open>self.lens[i]\<close>, with the bounds check of the array.\<close>

definition swap_buffer :: "nat \<Rightarrow> 'a list option \<Rightarrow> 'a triple \<Rightarrow> ('a list option \<times> 'a triple) res" where
  "swap_buffer i p t =
     (if i < length (tb_buffers t)
      then Inr (tb_buffers t ! i, t\<lparr>tb_buffers := (tb_buffers t)[i := p]\<rparr>)
      else Inl OutOfBounds)"

definition store_len :: "nat \<Rightarrow> nat \<Rightarrow> 'a triple \<Rightarrow> 'a triple res" where
  "store_len i n t =
     (if i < length (tb_lens t) then Inr (t\<lparr>tb_lens := (tb_lens t)[i := n]\<rparr>) else Inl OutOfBounds)"

definition load_len :: "nat \<Rightarrow> 'a triple \<Rightarrow> nat res" where
  "load_len i t = (if i < length (tb_lens t) then Inr (tb_lens t ! i) else Inl OutOfBounds)"

definition not_null :: "'a list option \<Rightarrow> 'a list res" where
  "not_null p =
     (case p of
        None \<Rightarrow> Inl (Assertion ''Invariant violated: middle buffer pointer was null'')
      | Some d \<Rightarrow> Inr d)"

definition writer_publish_now ::
  "'a aligned_buffer \<Rightarrow> 'a triple \<Rightarrow> ('a aligned_buffer \<times> waker list \<times> 'a triple) res" where
  "writer_publish_now completed t =
     (let (completed_ptr, completed_len) = buffer_into_raw completed;
          writer_idx = tb_writer t;
          middle_idx = tb_middle t
      in rbind (swap_buffer writer_idx (Some completed_ptr) t) (\<lambda>(old, t1).
         rbind (rassert (old = None) (Assertion ''writer slot not empty'')) (\<lambda>_.
         rbind (store_len writer_idx completed_len t1) (\<lambda>t2.
         let t3 = t2\<lparr>tb_writer := middle_idx, tb_middle := writer_idx\<rparr>;
             t4 = t3\<lparr>tb_gen := tb_gen t3 + 1\<rparr>
         in rbind (swap_buffer middle_idx None t4) (\<lambda>(ptr, t5).
            rbind (not_null ptr) (\<lambda>d.
            rbind (buffer_from_raw_with_len d 0 (tb_cap t5) (tb_align t5)) (\<lambda>nxt.
              let (ws, t6) = wake_reader t5 in Inr (nxt, ws, t6))))))))"

definition reader_take_now ::
  "'a aligned_buffer option \<Rightarrow> 'a triple \<Rightarrow> ('a aligned_buffer \<times> waker list \<times> 'a triple) res" where
  "reader_take_now previous t =
     (let generation = tb_gen t;
          reader_idx = tb_reader t;
          middle_idx = tb_middle t
      in rbind (case previous of
                  Some prev \<Rightarrow>
                    rbind (swap_buffer reader_idx (Some (fst (buffer_into_raw prev))) t) (\<lambda>(old, t1).
                    rbind (rassert (old = None) (Assertion ''reader slot not empty'')) (\<lambda>_.
                      store_len reader_idx 0 t1))
                | None \<Rightarrow> Inr t) (\<lambda>t2.
         let t3 = t2\<lparr>tb_reader := middle_idx, tb_middle := reader_idx\<rparr> in
         rbind (swap_buffer middle_idx None t3) (\<lambda>(ptr, t4).
         rbind (not_null ptr) (\<lambda>d.
         rbind (load_len middle_idx t4) (\<lambda>published_len.
         rbind (buffer_from_raw_with_len d published_len (tb_cap t4) (tb_align t4)) (\<lambda>buf.
           let t5 = t4\<lparr>tb_last := generation\<rparr>;
               (ws, t6) = wake_writer t5
           in Inr (buf, ws, t6)))))))"

text \<open>\<open>Inl\<close> hands the caller's buffer back.\<close>

definition try_publish_now ::
  "'a aligned_buffer \<Rightarrow> 'a triple
   \<Rightarrow> (('a aligned_buffer + 'a aligned_buffer) \<times> waker list \<times> 'a triple) res" where
  "try_publish_now completed t =
     (if middle_free t
      then rbind (writer_publish_now completed t) (\<lambda>(b, ws, t'). Inr (Inr b, ws, t'))
      else Inr (Inl completed, [], t))"

definition try_take_now ::
  "'a aligned_buffer option \<Rightarrow> 'a triple
   \<Rightarrow> (('a aligned_buffer option + 'a aligned_buffer) \<times> waker list \<times> 'a triple) res" where
  "try_take_now previous t =
     (if has_unread t
      then rbind (reader_take_now previous t) (\<lambda>(b, ws, t'). Inr (Inr b, ws, t'))
      else Inr (Inl previous, [], t))"

definition triple_stats :: "'a triple \<Rightarrow> nat \<times> nat \<times> nat \<times> usize" where
  "triple_stats t = (tb_writer t, tb_reader t, tb_middle t, tb_gen t)"

text \<open>\<open>Drop\<close>: the buffers still in slots, each freed once.\<close>

definition triple_drop :: "'a triple \<Rightarrow> 'a aligned_buffer list res" where
  "triple_drop t =
     Inr (map (\<lambda>d. \<lparr>ab_data = d, ab_len = 0, ab_cap = tb_cap t, ab_align = tb_align t\<rparr>)
       (List.map_filter (\<lambda>p. p) (tb_buffers t)))"

section \<open>Handles\<close>

text \<open>The \<open>held\<close> field of a handle is all the state it has.\<close>

type_synonym 'a held = "'a aligned_buffer option"

definition geometry_ok :: "'a aligned_buffer \<Rightarrow> 'a triple \<Rightarrow> bool" where
  "geometry_ok b t \<longleftrightarrow> buffer_capacity b = tb_cap t \<and> buffer_alignment b = tb_align t"

definition writer_publish :: "'a aligned_buffer \<Rightarrow> 'a held \<Rightarrow> 'a triple \<Rightarrow> 'a held res" where
  "writer_publish b held t =
     rbind (rassert (geometry_ok b t)
       (Assertion ''buffer geometry does not match this triple buffer'')) (\<lambda>_.
     rbind (rassert (held = None)
       (Assertion ''a previous publish was cancelled; call take_held_buffer() first'')) (\<lambda>_.
       Inr (Some b)))"

definition take_held_buffer :: "'a held \<Rightarrow> 'a aligned_buffer option \<times> 'a held" where
  "take_held_buffer held = (held, None)"

definition try_publish ::
  "'a aligned_buffer \<Rightarrow> 'a triple
   \<Rightarrow> (('a aligned_buffer + 'a aligned_buffer) \<times> waker list \<times> 'a triple) res" where
  "try_publish b t =
     rbind (rassert (geometry_ok b t)
       (Assertion ''buffer geometry does not match this triple buffer'')) (\<lambda>_. try_publish_now b t)"

definition reader_next :: "'a aligned_buffer option \<Rightarrow> 'a held \<Rightarrow> 'a triple \<Rightarrow> 'a held res" where
  "reader_next previous held t =
     (case previous of
        Some b \<Rightarrow>
          rbind (rassert (geometry_ok b t)
            (Assertion ''buffer geometry does not match this triple buffer'')) (\<lambda>_.
          rbind (rassert (held = None)
            (Assertion ''a previous read was cancelled; call take_held_buffer() first'')) (\<lambda>_.
            Inr (Some b)))
      | None \<Rightarrow> Inr held)"

definition try_next ::
  "'a aligned_buffer option \<Rightarrow> 'a triple
   \<Rightarrow> (('a aligned_buffer option + 'a aligned_buffer) \<times> waker list \<times> 'a triple) res" where
  "try_next previous t =
     rbind (case previous of
              Some b \<Rightarrow> rassert (geometry_ok b t)
                (Assertion ''buffer geometry does not match this triple buffer'')
            | None \<Rightarrow> Inr ()) (\<lambda>_. try_take_now previous t)"

definition publish_poll ::
  "waker \<Rightarrow> 'a held \<Rightarrow> 'a triple
   \<Rightarrow> ('a aligned_buffer poll \<times> 'a held \<times> waker list \<times> 'a triple) res" where
  "publish_poll waker held t =
     (case held of
        None \<Rightarrow> Inl (Assertion ''polled without a held buffer'')
      | Some buf \<Rightarrow>
          rbind (try_publish_now buf t) (\<lambda>(r, ws, t1).
            case r of
              Inr nxt \<Rightarrow> Inr (Ready nxt, None, ws, t1)
            | Inl buf1 \<Rightarrow>
                rbind (slot_arm waker (tb_wslot t1)) (\<lambda>(ws1, slot).
                rbind (try_publish_now buf1 (t1\<lparr>tb_wslot := slot\<rparr>)) (\<lambda>(r2, ws2, t2).
                  case r2 of
                    Inr nxt \<Rightarrow> Inr (Ready nxt, None, ws @ ws1 @ ws2,
                      t2\<lparr>tb_wslot := slot_disarm (tb_wslot t2)\<rparr>)
                  | Inl buf2 \<Rightarrow> Inr (Pending, Some buf2, ws @ ws1 @ ws2, t2)))))"

definition next_poll ::
  "waker \<Rightarrow> 'a held \<Rightarrow> 'a triple
   \<Rightarrow> ('a aligned_buffer poll \<times> 'a held \<times> waker list \<times> 'a triple) res" where
  "next_poll waker held t =
     rbind (try_take_now held t) (\<lambda>(r, ws, t1).
       case r of
         Inr buf \<Rightarrow> Inr (Ready buf, None, ws, t1)
       | Inl prev \<Rightarrow>
           rbind (slot_arm waker (tb_rslot t1)) (\<lambda>(ws1, slot).
           rbind (try_take_now prev (t1\<lparr>tb_rslot := slot\<rparr>)) (\<lambda>(r2, ws2, t2).
             case r2 of
               Inr buf \<Rightarrow> Inr (Ready buf, None, ws @ ws1 @ ws2,
                 t2\<lparr>tb_rslot := slot_disarm (tb_rslot t2)\<rparr>)
             | Inl prev2 \<Rightarrow> Inr (Pending, prev2, ws @ ws1 @ ws2, t2))))"

section \<open>Specifications\<close>

text \<open>A buffer of this triple buffer.\<close>

definition triple_buf :: "'a triple \<Rightarrow> 'a aligned_buffer \<Rightarrow> bool" where
  "triple_buf t b \<longleftrightarrow> geometry_ok b t \<and> length (ab_data b) = tb_cap t \<and> ab_len b \<le> tb_cap t"

text \<open>
  The state between calls; \<open>out\<close> says whether the reader has a buffer out of the structure. The
  indices are a permutation of the slots, the writer's slot is null, the middle one is not.
\<close>

definition triple_ok :: "bool \<Rightarrow> 'a triple \<Rightarrow> bool" where
  "triple_ok out t \<longleftrightarrow>
     length (tb_buffers t) = 3 \<and> length (tb_lens t) = 3 \<and>
     tb_writer t < 3 \<and> tb_reader t < 3 \<and> tb_middle t < 3 \<and>
     distinct [tb_writer t, tb_reader t, tb_middle t] \<and>
     tb_buffers t ! tb_writer t = None \<and> tb_buffers t ! tb_middle t \<noteq> None \<and>
     (tb_buffers t ! tb_reader t = None \<longleftrightarrow> out) \<and>
     (\<forall>i d. i < 3 \<longrightarrow> tb_buffers t ! i = Some d \<longrightarrow> length d = tb_cap t) \<and>
     (\<forall>i<3. tb_lens t ! i \<le> tb_cap t) \<and>
     (tb_gen t = tb_last t \<or> tb_gen t = tb_last t + 1) \<and>
     slot_ok (tb_rslot t) \<and> slot_ok (tb_wslot t)"

definition middle_contents :: "'a triple \<Rightarrow> 'a list" where
  "middle_contents t = take (tb_lens t ! tb_middle t) (the (tb_buffers t ! tb_middle t))"

lemma triple_new_wp:
  assumes "buffer_with_alignment alloc el capacity align = Inr b"
  shows "wp (triple_new alloc el capacity align) (\<lambda>(t, b0). triple_ok False t \<and> middle_free t \<and> triple_buf t b0)"
  using buffer_with_alignment_Inr [OF assms] assms
  by (auto simp: triple_new_def triple_ok_def middle_free_def triple_buf_def geometry_ok_def
      buffer_capacity_def buffer_alignment_def buffer_into_raw_def nth_Cons' less_Suc_eq numeral_3_eq_3)

lemma writer_publish_now_wp:
  assumes ok: "triple_ok out t" and free: "middle_free t" and b: "triple_buf t b"
  shows "wp (writer_publish_now b t) (\<lambda>(nxt, ws, t'). triple_ok out t' \<and> has_unread t' \<and>
    triple_buf t' nxt \<and> ab_len nxt = 0 \<and> tb_cap t' = tb_cap t \<and> tb_align t' = tb_align t \<and>
    middle_contents t' = buffer_deref b \<and>
    ws = fst (slot_signal (tb_rslot t)) \<and> tb_wslot t' = tb_wslot t)"
proof -
  obtain d where d: "tb_buffers t ! tb_middle t = Some d" using ok by (auto simp: triple_ok_def)
  have neq: "tb_middle t \<noteq> tb_writer t" "tb_reader t \<noteq> tb_writer t" "tb_middle t \<noteq> tb_reader t"
    using ok by (auto simp: triple_ok_def)
  let ?t' = "t\<lparr>tb_buffers := (tb_buffers t)[tb_writer t := Some (ab_data b), tb_middle t := None],
    tb_lens := (tb_lens t)[tb_writer t := ab_len b], tb_writer := tb_middle t, tb_middle := tb_writer t,
    tb_gen := tb_gen t + 1, tb_rslot := snd (slot_signal (tb_rslot t))\<rparr>"
  let ?n = "\<lparr>ab_data = d, ab_len = 0, ab_cap = tb_cap t, ab_align = tb_align t\<rparr>"
  have run: "writer_publish_now b t = Inr (?n, fst (slot_signal (tb_rslot t)), ?t')"
    using ok d neq
    by (simp add: writer_publish_now_def swap_buffer_def store_len_def buffer_into_raw_def Let_def
        not_null_def buffer_from_raw_with_len_def wake_reader_def triple_ok_def split_def)
  have "triple_ok out ?t'"
    using ok b neq slot_signal_slot_ok [of "tb_rslot t"] free
    unfolding triple_ok_def
    by (auto simp: nth_list_update triple_buf_def middle_free_def)
  moreover have "triple_buf ?t' ?n"
    using ok d by (auto simp: triple_buf_def triple_ok_def geometry_ok_def buffer_capacity_def
        buffer_alignment_def)
  moreover have "middle_contents ?t' = buffer_deref b" "has_unread ?t'"
    using ok neq free
    by (simp_all add: has_unread_def middle_free_def middle_contents_def buffer_deref_def triple_ok_def)
  ultimately show ?thesis unfolding run by simp
qed

lemma reader_take_now_wp:
  assumes ok: "triple_ok out t" and unread: "has_unread t"
    and prev: "case prev of None \<Rightarrow> \<not> out | Some p \<Rightarrow> out \<and> triple_buf t p"
  shows "wp (reader_take_now prev t) (\<lambda>(b, ws, t'). triple_ok True t' \<and> middle_free t' \<and>
    triple_buf t' b \<and> tb_cap t' = tb_cap t \<and> tb_align t' = tb_align t \<and>
    buffer_deref b = middle_contents t \<and>
    ws = fst (slot_signal (tb_wslot t)) \<and> tb_rslot t' = tb_rslot t)"
proof -
  obtain d where d: "tb_buffers t ! tb_middle t = Some d" using ok by (auto simp: triple_ok_def)
  have neq: "tb_middle t \<noteq> tb_writer t" "tb_reader t \<noteq> tb_writer t" "tb_middle t \<noteq> tb_reader t"
    using ok by (auto simp: triple_ok_def)
  let ?bufs = "case prev of None \<Rightarrow> tb_buffers t | Some p \<Rightarrow> (tb_buffers t)[tb_reader t := Some (ab_data p)]"
  let ?lens = "case prev of None \<Rightarrow> tb_lens t | Some p \<Rightarrow> (tb_lens t)[tb_reader t := 0]"
  let ?t' = "t\<lparr>tb_buffers := ?bufs[tb_middle t := None], tb_lens := ?lens, tb_reader := tb_middle t,
    tb_middle := tb_reader t, tb_last := tb_gen t, tb_wslot := snd (slot_signal (tb_wslot t))\<rparr>"
  let ?b = "\<lparr>ab_data = d, ab_len = tb_lens t ! tb_middle t, ab_cap = tb_cap t, ab_align = tb_align t\<rparr>"
  have run: "reader_take_now prev t = Inr (?b, fst (slot_signal (tb_wslot t)), ?t')"
    using ok d neq prev
    by (cases prev) (simp_all add: reader_take_now_def swap_buffer_def store_len_def load_len_def
        buffer_into_raw_def Let_def not_null_def buffer_from_raw_with_len_def wake_writer_def
        triple_ok_def split_def)
  have "triple_ok True ?t'"
    using ok prev neq slot_signal_slot_ok [of "tb_wslot t"] 
    unfolding triple_ok_def
    by (cases prev) (auto simp: nth_list_update triple_buf_def)
  moreover have "triple_buf ?t' ?b"
    using ok d by (auto simp: triple_buf_def triple_ok_def geometry_ok_def buffer_capacity_def
        buffer_alignment_def)
  ultimately show ?thesis
    unfolding run using d
    by (simp add: middle_free_def middle_contents_def buffer_deref_def)
qed

lemma try_publish_now_wp:
  assumes ok: "triple_ok out t" and b: "triple_buf t b"
  shows "wp (try_publish_now b t) (\<lambda>(r, ws, t'). 
    if middle_free t
    then \<exists>nxt. r = Inr nxt \<and> triple_ok out t' \<and> has_unread t' \<and> triple_buf t' nxt \<and> ab_len nxt = 0 \<and>
      tb_cap t' = tb_cap t \<and> tb_align t' = tb_align t \<and> middle_contents t' = buffer_deref b \<and>
      ws = fst (slot_signal (tb_rslot t)) \<and> tb_wslot t' = tb_wslot t
    else r = Inl b \<and> ws = [] \<and> t' = t)"
  using writer_publish_now_wp [OF ok _ b] by (auto simp: try_publish_now_def elim!: wp_mono)

lemma try_take_now_wp:
  assumes ok: "triple_ok out t"
    and prev: "case prev of None \<Rightarrow> \<not> out | Some p \<Rightarrow> out \<and> triple_buf t p"
  shows "wp (try_take_now prev t) (\<lambda>(r, ws, t').
    if has_unread t
    then \<exists>b. r = Inr b \<and> triple_ok True t' \<and> middle_free t' \<and> triple_buf t' b \<and>
      tb_cap t' = tb_cap t \<and> tb_align t' = tb_align t \<and> buffer_deref b = middle_contents t \<and>
      ws = fst (slot_signal (tb_wslot t)) \<and> tb_rslot t' = tb_rslot t
    else r = Inl prev \<and> ws = [] \<and> t' = t)"
  using reader_take_now_wp [OF ok _ prev] by (auto simp: try_take_now_def elim!: wp_mono)

lemma triple_ok_slots:
  "triple_ok out t \<Longrightarrow> slot_ok s \<Longrightarrow> triple_ok out (t\<lparr>tb_wslot := s\<rparr>)"
  "triple_ok out t \<Longrightarrow> slot_ok s \<Longrightarrow> triple_ok out (t\<lparr>tb_rslot := s\<rparr>)"
  by (simp_all add: triple_ok_def)

lemma publish_poll_wp:
  assumes ok: "triple_ok out t" and b: "triple_buf t b"
  shows "wp (publish_poll w (Some b) t) (\<lambda>(r, held, ws, t').
    if middle_free t
    then \<exists>nxt. r = Ready nxt \<and> held = None \<and> triple_ok out t' \<and> has_unread t' \<and> triple_buf t' nxt \<and>
      tb_cap t' = tb_cap t \<and> tb_align t' = tb_align t \<and> middle_contents t' = buffer_deref b \<and>
      ws = fst (slot_signal (tb_rslot t)) \<and> tb_wslot t' = tb_wslot t
    else r = Pending \<and> held = Some b \<and> ws = [] \<and> triple_ok out t' \<and>
      (\<exists>s. parked_on w s \<and> t' = t\<lparr>tb_wslot := s\<rparr>))"
proof (cases "middle_free t")
  case True
  then show ?thesis
    using try_publish_now_wp [OF ok b] by (auto simp: publish_poll_def elim!: wp_mono)
next
  case False
  obtain s where s: "slot_arm w (tb_wslot t) = Inr ([], s)" "parked_on w s"
    using arm_parks [of "tb_wslot t" w] ok by (auto simp: wp_ex triple_ok_def)
  have "\<not> middle_free (t\<lparr>tb_wslot := s\<rparr>)" using False by (simp add: middle_free_def)
  then show ?thesis
    using False s triple_ok_slots(1) [OF ok, of s]
    by (auto simp: publish_poll_def try_publish_now_def parked_on_def)
qed

lemma next_poll_wp:
  assumes ok: "triple_ok out t"
    and prev: "case prev of None \<Rightarrow> \<not> out | Some p \<Rightarrow> out \<and> triple_buf t p"
  shows "wp (next_poll w prev t) (\<lambda>(r, held, ws, t').
    if has_unread t
    then \<exists>b. r = Ready b \<and> held = None \<and> triple_ok True t' \<and> middle_free t' \<and> triple_buf t' b \<and>
      tb_cap t' = tb_cap t \<and> tb_align t' = tb_align t \<and> buffer_deref b = middle_contents t \<and>
      ws = fst (slot_signal (tb_wslot t)) \<and> tb_rslot t' = tb_rslot t
    else r = Pending \<and> held = prev \<and> ws = [] \<and> triple_ok out t' \<and>
      (\<exists>s. parked_on w s \<and> t' = t\<lparr>tb_rslot := s\<rparr>))"
proof (cases "has_unread t")
  case True
  then show ?thesis
    using try_take_now_wp [OF ok prev] by (auto simp: next_poll_def elim!: wp_mono)
next
  case False
  obtain s where s: "slot_arm w (tb_rslot t) = Inr ([], s)" "parked_on w s"
    using arm_parks [of "tb_rslot t" w] ok by (auto simp: wp_ex triple_ok_def)
  have "\<not> has_unread (t\<lparr>tb_rslot := s\<rparr>)" using False by (simp add: has_unread_def)
  then show ?thesis
    using False s triple_ok_slots(2) [OF ok, of s]
    by (auto simp: next_poll_def try_take_now_def parked_on_def)
qed

section \<open>A writer and a reader that keep the contract\<close>

text \<open>
  Each side has a buffer in hand or held by its handle; the reader has none before its first
  buffer. The reader always passes the buffer it has. The ghost fields are the published and the
  received contents; a wait is a pending poll whose waker has not been called since.
\<close>

record 'a triple_sys =
  tr_tb :: "'a triple"
  tr_whand :: "'a aligned_buffer option"
  tr_wheld :: "'a held"
  tr_rhand :: "'a aligned_buffer option"
  tr_rheld :: "'a held"
  tr_published :: "'a list list"
  tr_received :: "'a list list"
  tr_wwait :: "waker option"
  tr_rwait :: "waker option"

definition triple_init :: "'a triple_sys \<Rightarrow> bool" where
  "triple_init s \<longleftrightarrow> (\<exists>alloc el capacity align b.
     triple_new alloc el capacity align = Inr (tr_tb s, b) \<and> tr_whand s = Some b) \<and>
     tr_wheld s = None \<and> tr_rhand s = None \<and> tr_rheld s = None \<and>
     tr_published s = [] \<and> tr_received s = [] \<and> tr_wwait s = None \<and> tr_rwait s = None"

definition sum_merge :: "'b + 'b \<Rightarrow> 'b" where
  "sum_merge r = (case r of Inl b \<Rightarrow> b | Inr b \<Rightarrow> b)"

inductive triple_step :: "'a triple_sys \<Rightarrow> 'a triple_sys \<Rightarrow> bool" where
  fill: "tr_whand s = Some b \<Longrightarrow> triple_buf (tr_tb s) b' \<Longrightarrow>
    triple_step s (s\<lparr>tr_whand := Some b'\<rparr>)"
| try_publish: "tr_whand s = Some b \<Longrightarrow> try_publish b (tr_tb s) = Inr (r, ws, t) \<Longrightarrow>
    triple_step s (s\<lparr>tr_tb := t, tr_whand := Some (sum_merge r),
      tr_published := tr_published s @ (if isl r then [] else [buffer_deref b]),
      tr_wwait := None, tr_rwait := still_waiting ws (tr_rwait s)\<rparr>)"
| publish: "tr_whand s = Some b \<Longrightarrow> writer_publish b (tr_wheld s) (tr_tb s) = Inr h \<Longrightarrow>
    triple_step s (s\<lparr>tr_whand := None, tr_wheld := h\<rparr>)"
| publish_poll: "tr_wheld s = Some b \<Longrightarrow> publish_poll w (tr_wheld s) (tr_tb s) = Inr (r, h, ws, t) \<Longrightarrow>
    triple_step s (s\<lparr>tr_tb := t, tr_wheld := h,
      tr_whand := (case r of Ready nxt \<Rightarrow> Some nxt | Pending \<Rightarrow> None),
      tr_published := tr_published s @ (if r = Pending then [] else [buffer_deref b]),
      tr_wwait := (if r = Pending then Some w else None), tr_rwait := still_waiting ws (tr_rwait s)\<rparr>)"
| publish_cancel: "tr_wheld s = Some b \<Longrightarrow> take_held_buffer (tr_wheld s) = (r, h) \<Longrightarrow>
    triple_step s (s\<lparr>tr_whand := r, tr_wheld := h, tr_wwait := None\<rparr>)"
| try_next: "tr_rheld s = None \<Longrightarrow> try_next (tr_rhand s) (tr_tb s) = Inr (r, ws, t) \<Longrightarrow>
    triple_step s (s\<lparr>tr_tb := t, tr_rhand := (case r of Inl p \<Rightarrow> p | Inr b \<Rightarrow> Some b),
      tr_received := tr_received s @ (case r of Inl p \<Rightarrow> [] | Inr b \<Rightarrow> [buffer_deref b]),
      tr_rwait := None, tr_wwait := still_waiting ws (tr_wwait s)\<rparr>)"
| nxt: "tr_rheld s = None \<Longrightarrow> reader_next (tr_rhand s) (tr_rheld s) (tr_tb s) = Inr h \<Longrightarrow>
    triple_step s (s\<lparr>tr_rhand := None, tr_rheld := h\<rparr>)"
| next_poll: "tr_rhand s = None \<Longrightarrow> next_poll w (tr_rheld s) (tr_tb s) = Inr (r, h, ws, t) \<Longrightarrow>
    triple_step s (s\<lparr>tr_tb := t, tr_rheld := h,
      tr_rhand := (case r of Ready b \<Rightarrow> Some b | Pending \<Rightarrow> None),
      tr_received := tr_received s @ (case r of Ready b \<Rightarrow> [buffer_deref b] | Pending \<Rightarrow> []),
      tr_rwait := (if r = Pending then Some w else None), tr_wwait := still_waiting ws (tr_wwait s)\<rparr>)"
| next_cancel: "tr_rhand s = None \<Longrightarrow> take_held_buffer (tr_rheld s) = (r, h) \<Longrightarrow>
    triple_step s (s\<lparr>tr_rhand := r, tr_rheld := h, tr_rwait := None\<rparr>)"

definition reader_out :: "'a triple_sys \<Rightarrow> bool" where
  "reader_out s \<longleftrightarrow> tr_rhand s \<noteq> None \<or> tr_rheld s \<noteq> None"

definition triple_inv :: "'a triple_sys \<Rightarrow> bool" where
  "triple_inv s \<longleftrightarrow>
     triple_ok (reader_out s) (tr_tb s) \<and>
     (tr_whand s = None \<longleftrightarrow> tr_wheld s \<noteq> None) \<and> \<not> (tr_rhand s \<noteq> None \<and> tr_rheld s \<noteq> None) \<and>
     (\<forall>b. Some b \<in> {tr_whand s, tr_wheld s, tr_rhand s, tr_rheld s} \<longrightarrow> triple_buf (tr_tb s) b) \<and>
     tr_published s = tr_received s @ (if has_unread (tr_tb s) then [middle_contents (tr_tb s)] else []) \<and>
     (\<forall>w. tr_wwait s = Some w \<longrightarrow> has_unread (tr_tb s) \<and> parked_on w (tb_wslot (tr_tb s))) \<and>
     (\<forall>w. tr_rwait s = Some w \<longrightarrow> middle_free (tr_tb s) \<and> parked_on w (tb_rslot (tr_tb s)))"

lemma free_unread: "middle_free t \<longleftrightarrow> \<not> has_unread t"
  by (simp add: middle_free_def has_unread_def)

lemma triple_buf_geometry:
  "tb_cap t' = tb_cap t \<Longrightarrow> tb_align t' = tb_align t \<Longrightarrow> triple_buf t' b = triple_buf t b"
  by (simp add: triple_buf_def geometry_ok_def)

lemma triple_inv_init: "triple_init s \<Longrightarrow> triple_inv s"
proof -
  assume init: "triple_init s"
  then obtain alloc el capacity align b where
    new: "triple_new alloc el capacity align = Inr (tr_tb s, b)" and b: "tr_whand s = Some b"
    by (auto simp: triple_init_def)
  obtain b0 where "buffer_with_alignment alloc el capacity align = Inr b0"
    using new by (auto simp: triple_new_def rbind_Inr_iff)
  from triple_new_wp [OF this] new b init show ?thesis
    by (auto simp: triple_inv_def triple_init_def reader_out_def free_unread)
qed

text \<open>A successful publish, and a successful take.\<close>

lemma triple_inv_published:
  assumes inv: "triple_inv s" and free: "middle_free (tr_tb s)"
    and t: "triple_ok (reader_out s) t" "has_unread t" "triple_buf t nxt" "tb_cap t = tb_cap (tr_tb s)"
      "tb_align t = tb_align (tr_tb s)" "middle_contents t = buffer_deref b"
      "ws = fst (slot_signal (tb_rslot (tr_tb s)))"
  shows "triple_inv (s\<lparr>tr_tb := t, tr_whand := Some nxt, tr_wheld := None,
    tr_published := tr_published s @ [buffer_deref b],
    tr_wwait := None, tr_rwait := still_waiting ws (tr_rwait s)\<rparr>)"
proof -
  have geo: "triple_buf t c = triple_buf (tr_tb s) c" for c by (rule triple_buf_geometry [OF t(4,5)])
  have told: "w \<in> set ws" if "tr_rwait s = Some w" for w
    using inv that t(7) parked_signal [of w "tb_rslot (tr_tb s)"] by (simp add: triple_inv_def)
  show ?thesis
    using inv free t told geo
    by (auto simp: triple_inv_def still_waiting_Some free_unread reader_out_def)
qed

lemma triple_inv_taken:
  assumes inv: "triple_inv s" and unread: "has_unread (tr_tb s)"
    and t: "triple_ok True t" "middle_free t" "triple_buf t b" "tb_cap t = tb_cap (tr_tb s)"
      "tb_align t = tb_align (tr_tb s)" "buffer_deref b = middle_contents (tr_tb s)"
      "ws = fst (slot_signal (tb_wslot (tr_tb s)))"
  shows "triple_inv (s\<lparr>tr_tb := t, tr_rhand := Some b, tr_rheld := None,
    tr_received := tr_received s @ [buffer_deref b],
    tr_rwait := None, tr_wwait := still_waiting ws (tr_wwait s)\<rparr>)"
proof -
  have geo: "triple_buf t c = triple_buf (tr_tb s) c" for c by (rule triple_buf_geometry [OF t(4,5)])
  have told: "w \<in> set ws" if "tr_wwait s = Some w" for w
    using inv that t(7) parked_signal [of w "tb_wslot (tr_tb s)"] by (simp add: triple_inv_def)
  show ?thesis
    using inv unread t told geo
    by (auto simp: triple_inv_def still_waiting_Some free_unread reader_out_def)
qed

lemma still_waiting_Nil [simp]: "still_waiting [] v = v"
  by (simp add: still_waiting_def split: option.splits)

lemma reader_prev:
  assumes "triple_inv s"
  shows "tr_rheld s = None \<Longrightarrow>
      (case tr_rhand s of None \<Rightarrow> \<not> reader_out s | Some p \<Rightarrow> reader_out s \<and> triple_buf (tr_tb s) p)"
    and "tr_rhand s = None \<Longrightarrow>
      (case tr_rheld s of None \<Rightarrow> \<not> reader_out s | Some p \<Rightarrow> reader_out s \<and> triple_buf (tr_tb s) p)"
  using assms by (auto simp: triple_inv_def reader_out_def split: option.splits)

lemma triple_parked:
  assumes inv: "triple_inv s" and sl: "slot_ok sl"
  shows "has_unread (tr_tb s) \<Longrightarrow> parked_on w sl \<Longrightarrow> tr_whand s = None \<Longrightarrow>
      triple_inv (s\<lparr>tr_tb := (tr_tb s)\<lparr>tb_wslot := sl\<rparr>, tr_wwait := Some w\<rparr>)"
    and "middle_free (tr_tb s) \<Longrightarrow> parked_on w sl \<Longrightarrow>
      triple_inv (s\<lparr>tr_tb := (tr_tb s)\<lparr>tb_rslot := sl\<rparr>, tr_rwait := Some w\<rparr>)"
  using inv triple_ok_slots [OF _ sl]
  by (auto simp: triple_inv_def has_unread_def middle_free_def middle_contents_def reader_out_def
      triple_buf_def geometry_ok_def)

lemma triple_inv_step_try_publish:
  assumes inv: "triple_inv s"
    and try_publish: "t = s\<lparr>tr_tb := tb, tr_whand := Some (sum_merge r), tr_published := tr_published s @ (if isl r then [] else [buffer_deref b]), tr_wwait := None, tr_rwait := still_waiting ws (tr_rwait s)\<rparr>"
      "tr_whand s = Some b"
      "try_publish b (tr_tb s) = Inr (r, ws, tb)"
  shows "triple_inv t"
proof -
  have ok: "triple_ok (reader_out s) (tr_tb s)" using inv by (simp add: triple_inv_def)
  have b: "triple_buf (tr_tb s) b" "tr_wheld s = None" using inv try_publish(2) by (auto simp: triple_inv_def)
  have "try_publish_now b (tr_tb s) = Inr (r, ws, tb)"
    using try_publish(3) by (auto simp: try_publish_def rbind_Inr_iff rassert_def split: if_splits)
  note spec = try_publish_now_wp [OF ok b(1), unfolded this wp_simps prod.case]
  show ?thesis
  proof (cases "middle_free (tr_tb s)")
    case True
    with spec obtain nxt where n: "r = Inr nxt" "triple_ok (reader_out s) tb" "has_unread tb"
      "triple_buf tb nxt" "tb_cap tb = tb_cap (tr_tb s)" "tb_align tb = tb_align (tr_tb s)"
      "middle_contents tb = buffer_deref b" "ws = fst (slot_signal (tb_rslot (tr_tb s)))" by auto
    from triple_inv_published [OF inv True n(2-8)] show ?thesis
      using b(2) by (cases s) (simp add: try_publish(1) n(1) sum_merge_def)
  next
    case False
    with spec have "r = Inl b" "ws = []" "tb = tr_tb s" by auto
    then show ?thesis
      using inv try_publish(1,2) by (auto simp: triple_inv_def reader_out_def sum_merge_def)
  qed
qed

lemma triple_inv_step_publish_poll:
  assumes inv: "triple_inv s"
    and publish_poll: "t = s\<lparr>tr_tb := tb, tr_wheld := h, tr_whand := (case r of Ready nxt \<Rightarrow> Some nxt | Pending \<Rightarrow> None), tr_published := tr_published s @ (if r = Pending then [] else [buffer_deref b]), tr_wwait := (if r = Pending then Some w else None), tr_rwait := still_waiting ws (tr_rwait s)\<rparr>"
      "tr_wheld s = Some b"
      "publish_poll w (tr_wheld s) (tr_tb s) = Inr (r, h, ws, tb)"
  shows "triple_inv t"
proof -
  have ok: "triple_ok (reader_out s) (tr_tb s)" using inv by (simp add: triple_inv_def)
  have b: "triple_buf (tr_tb s) b" "tr_whand s = None" using inv publish_poll(2) by (auto simp: triple_inv_def)
  note spec = publish_poll_wp [OF ok b(1), of w, folded publish_poll(2), unfolded publish_poll(3) wp_simps prod.case]
  show ?thesis
  proof (cases "middle_free (tr_tb s)")
    case True
    with spec obtain nxt where n: "r = Ready nxt" "h = None" "triple_ok (reader_out s) tb" "has_unread tb"
      "triple_buf tb nxt" "tb_cap tb = tb_cap (tr_tb s)" "tb_align tb = tb_align (tr_tb s)"
      "middle_contents tb = buffer_deref b" "ws = fst (slot_signal (tb_rslot (tr_tb s)))" by auto
    from triple_inv_published [OF inv True n(3-9)] show ?thesis
      by (cases s) (simp add: publish_poll(1) n(1,2))
  next
    case False
    with spec obtain sl where sl: "r = Pending" "h = tr_wheld s" "ws = []" "parked_on w sl"
      "tb = (tr_tb s)\<lparr>tb_wslot := sl\<rparr>" using publish_poll(2) by auto
    then have "t = s\<lparr>tr_tb := (tr_tb s)\<lparr>tb_wslot := sl\<rparr>, tr_wwait := Some w\<rparr>"
      using b(2) publish_poll(1) by simp
    then show ?thesis
      using triple_parked(1) [OF inv, of sl w] sl(4) False b(2) by (simp add: free_unread parked_on_def)
  qed
qed

lemma triple_inv_step_try_next:
  assumes inv: "triple_inv s"
    and try_next: "t = s\<lparr>tr_tb := tb, tr_rhand := (case r of Inl p \<Rightarrow> p | Inr b \<Rightarrow> Some b), tr_received := tr_received s @ (case r of Inl p \<Rightarrow> [] | Inr b \<Rightarrow> [buffer_deref b]), tr_rwait := None, tr_wwait := still_waiting ws (tr_wwait s)\<rparr>"
      "tr_rheld s = None"
      "try_next (tr_rhand s) (tr_tb s) = Inr (r, ws, tb)"
  shows "triple_inv t"
proof -
  have ok: "triple_ok (reader_out s) (tr_tb s)" using inv by (simp add: triple_inv_def)
  note prev = reader_prev(1) [OF inv try_next(2)]
  have "try_take_now (tr_rhand s) (tr_tb s) = Inr (r, ws, tb)"
    using try_next(3) by (auto simp: try_next_def rbind_Inr_iff rassert_def split: if_splits option.splits)
  note spec = try_take_now_wp [OF ok prev, unfolded this wp_simps prod.case]
  show ?thesis
  proof (cases "has_unread (tr_tb s)")
    case True
    with spec obtain b where n: "r = Inr b" "triple_ok True tb" "middle_free tb"
      "triple_buf tb b" "tb_cap tb = tb_cap (tr_tb s)" "tb_align tb = tb_align (tr_tb s)"
      "buffer_deref b = middle_contents (tr_tb s)" "ws = fst (slot_signal (tb_wslot (tr_tb s)))" by auto
    from triple_inv_taken [OF inv True n(2-8)] show ?thesis
      using try_next(2) by (cases s) (simp add: try_next(1) n(1))
  next
    case False
    with spec have "r = Inl (tr_rhand s)" "ws = []" "tb = tr_tb s" by auto
    then show ?thesis using inv try_next(1) by (auto simp: triple_inv_def reader_out_def)
  qed
qed

lemma triple_inv_step_nxt:
  assumes inv: "triple_inv s"
    and nxt: "t = s\<lparr>tr_rhand := None, tr_rheld := h\<rparr>"
      "tr_rheld s = None"
      "reader_next (tr_rhand s) (tr_rheld s) (tr_tb s) = Inr h"
  shows "triple_inv t"
proof -
  have "h = tr_rhand s"
    using nxt(2,3) by (auto simp: reader_next_def rbind_Inr_iff rassert_def split: if_splits option.splits)
  then have t: "t = s\<lparr>tr_rhand := None, tr_rheld := tr_rhand s\<rparr>" using nxt(1) by simp
  show ?thesis
    using inv nxt(2) unfolding t triple_inv_def reader_out_def by (cases "tr_rhand s") auto
qed

lemma triple_inv_step_next_poll:
  assumes inv: "triple_inv s"
    and next_poll: "t = s\<lparr>tr_tb := tb, tr_rheld := h, tr_rhand := (case r of Ready b \<Rightarrow> Some b | Pending \<Rightarrow> None), tr_received := tr_received s @ (case r of Ready b \<Rightarrow> [buffer_deref b] | Pending \<Rightarrow> []), tr_rwait := (if r = Pending then Some w else None), tr_wwait := still_waiting ws (tr_wwait s)\<rparr>"
      "tr_rhand s = None"
      "next_poll w (tr_rheld s) (tr_tb s) = Inr (r, h, ws, tb)"
  shows "triple_inv t"
proof -
  have ok: "triple_ok (reader_out s) (tr_tb s)" using inv by (simp add: triple_inv_def)
  note prev = reader_prev(2) [OF inv next_poll(2)]
  note spec = next_poll_wp [OF ok prev, of w, unfolded next_poll(3) wp_simps prod.case]
  show ?thesis
  proof (cases "has_unread (tr_tb s)")
    case True
    with spec obtain b where n: "r = Ready b" "h = None" "triple_ok True tb" "middle_free tb"
      "triple_buf tb b" "tb_cap tb = tb_cap (tr_tb s)" "tb_align tb = tb_align (tr_tb s)"
      "buffer_deref b = middle_contents (tr_tb s)" "ws = fst (slot_signal (tb_wslot (tr_tb s)))" by auto
    from triple_inv_taken [OF inv True n(3-9)] show ?thesis
      by (cases s) (simp add: next_poll(1) n(1,2))
  next
    case False
    with spec obtain sl where sl: "r = Pending" "h = tr_rheld s" "ws = []" "parked_on w sl"
      "tb = (tr_tb s)\<lparr>tb_rslot := sl\<rparr>" by auto
    then have "t = s\<lparr>tr_tb := (tr_tb s)\<lparr>tb_rslot := sl\<rparr>, tr_rwait := Some w\<rparr>"
      using next_poll(1,2) by simp
    then show ?thesis
      using triple_parked(2) [OF inv, of sl w] sl(4) False by (simp add: free_unread parked_on_def)
  qed
qed

lemma triple_inv_step:
  assumes inv: "triple_inv s" and step: "triple_step s t"
  shows "triple_inv t"
proof -
  have ok: "triple_ok (reader_out s) (tr_tb s)" using inv by (simp add: triple_inv_def)
  from step show ?thesis
  proof cases
    case (fill b b')
    then show ?thesis using inv by (auto simp: triple_inv_def reader_out_def)
  next
    case (try_publish b r ws tb)
    then show ?thesis by (rule triple_inv_step_try_publish [OF inv])
  next
    case (publish b h)
    then show ?thesis
      using inv
      by (auto simp: triple_inv_def reader_out_def writer_publish_def rbind_Inr_iff rassert_def split: if_splits)
  next
    case (publish_poll b w r h ws tb)
    then show ?thesis by (rule triple_inv_step_publish_poll [OF inv])
  next
    case (publish_cancel b r h)
    then show ?thesis using inv by (auto simp: triple_inv_def reader_out_def take_held_buffer_def)
  next
    case (try_next r ws tb)
    then show ?thesis by (rule triple_inv_step_try_next [OF inv])
  next
    case (nxt h)
    then show ?thesis by (rule triple_inv_step_nxt [OF inv])
  next
    case (next_poll w r h ws tb)
    then show ?thesis by (rule triple_inv_step_next_poll [OF inv])
  next
    case (next_cancel r h)
    then show ?thesis using inv by (auto simp: triple_inv_def reader_out_def take_held_buffer_def)
  qed
qed

interpretation tr: invariant_system triple_init triple_step triple_inv
  by unfold_locales (auto intro: triple_inv_init triple_inv_step)

section \<open>Correctness\<close>

text \<open>An element type of one byte, and a small run: create, publish, and take.\<close>

definition byte_elem :: "nat elem" where
  "byte_elem = \<lparr>el_size = 1, el_align = 1, el_zero = 0\<rparr>"

lemma byte_buffer: "buffer_with_alignment (\<lambda>_. True) byte_elem 2 4 =
    Inr \<lparr>ab_data = [0, 0], ab_len = 0, ab_cap = 2, ab_align = 4\<rparr>"
proof -
  have "is_power_of_two 4" "replicate 2 (0::nat) = [0, 0]" by code_simp+
  then show ?thesis by (simp add: buffer_with_alignment_def byte_elem_def layout_for_def max_def)
qed

lemma map_filter_three:
  assumes "length bs = 3" "i < 3" "j < 3" "k < 3" "distinct [i, j, k]"
  shows "length (List.map_filter (\<lambda>p. p) bs) =
    (if bs ! i = None then 0 else 1) + (if bs ! j = None then 0 else 1) + (if bs ! k = None then 0 else (1::nat))"
proof -
  let ?f = "\<lambda>x. if bs ! x = None then 0 else (1::nat)"
  obtain a b c where bs: "bs = [a, b, c]"
    using assms(1) by (metis length_0_conv length_Suc_conv numeral_3_eq_3)
  have "length (List.map_filter (\<lambda>p. p) bs) = sum ?f {0, 1, 2}"
    unfolding bs by (simp add: List.map_filter_simps split: option.splits)
  also have "{0, 1, 2} = {i, j, k}" using assms(2-5) by auto
  also have "sum ?f {i, j, k} = ?f i + ?f j + ?f k" using assms(5) by simp
  finally show ?thesis .
qed

definition in_hand :: "'b option \<Rightarrow> nat" where
  "in_hand x = (if x = None then 0 else 1)"

text \<open>
  Lossless hand-over. In every run of a writer and a reader that keep the ownership contract, the
  reader receives exactly the published contents in order; at most one published buffer is unread.
  Every buffer is accounted for: three less those that the two sides have in hand are in the slots,
  and dropping the structure frees exactly those.
\<close>

lemma triple_lossless:
  assumes "reach triple_init triple_step n s"
  shows "tr_published s = tr_received s @ (if has_unread (tr_tb s) then [middle_contents (tr_tb s)] else []) \<and>
    wp (triple_drop (tr_tb s)) (\<lambda>freed. length freed + in_hand (tr_whand s) + in_hand (tr_wheld s) +
      in_hand (tr_rhand s) + in_hand (tr_rheld s) = 3)"
proof -
  have inv: "triple_inv s" by (rule tr.reachable_inv [OF assms])
  have "triple_ok (reader_out s) (tr_tb s)" using inv by (simp add: triple_inv_def)
  then have "length (List.map_filter (\<lambda>p. p) (tb_buffers (tr_tb s))) = (if reader_out s then 1 else 2)"
    using map_filter_three [of "tb_buffers (tr_tb s)" "tb_writer (tr_tb s)" "tb_reader (tr_tb s)" "tb_middle (tr_tb s)"]
    by (auto simp: triple_ok_def)
  moreover have "in_hand (tr_whand s) + in_hand (tr_wheld s) = 1"
    "in_hand (tr_rhand s) + in_hand (tr_rheld s) = (if reader_out s then 1 else 0)"
    using inv by (auto simp: triple_inv_def reader_out_def in_hand_def)
  ultimately show ?thesis using inv by (auto simp: triple_inv_def triple_drop_def)
qed

text \<open>A run: the first buffer is published and taken.\<close>

lemma triple_run:
  obtains s :: "nat triple_sys" where "reach triple_init triple_step 2 s" "tr_published s = [[]]"
    "tr_whand s \<noteq> None" "tr_rhand s \<noteq> None" "tr_rheld s = None"
    "length (filter (\<lambda>p. p = None) (tb_buffers (tr_tb s))) = 2"
proof -
  define b where "b = \<lparr>ab_data = [0, 0::nat], ab_len = 0, ab_cap = 2, ab_align = 4\<rparr>"
  define t0 where "t0 = \<lparr>tb_buffers = [None, Some [0, 0], Some [0, 0::nat]], tb_lens = [0, 0, 0], tb_cap = 2,
    tb_align = 4, tb_writer = 0, tb_reader = 1, tb_middle = 2, tb_gen = 0, tb_last = 0,
    tb_rslot = slot_new, tb_wslot = slot_new\<rparr>"
  define t1 where "t1 = t0\<lparr>tb_buffers := [Some [0, 0], Some [0, 0], None], tb_writer := 2, tb_middle := 0, tb_gen := 1\<rparr>"
  define t2 where "t2 = t1\<lparr>tb_buffers := [None, Some [0, 0], None], tb_reader := 0, tb_middle := 1, tb_last := 1\<rparr>"
  have new: "triple_new (\<lambda>_. True) byte_elem 2 4 = Inr (t0, b)"
    by (simp add: triple_new_def byte_buffer buffer_into_raw_def t0_def b_def)
  have sig: "slot_signal slot_new = ([], slot_new)" by (simp add: slot_signal_def slot_new_def)
  note ops = geometry_ok_def buffer_capacity_def buffer_alignment_def swap_buffer_def store_len_def load_len_def
    not_null_def buffer_from_raw_with_len_def buffer_into_raw_def wake_reader_def wake_writer_def sig
  have pub: "try_publish b t0 = Inr (Inr b, [], t1)"
    by (simp add: try_publish_def try_publish_now_def middle_free_def writer_publish_now_def ops t0_def t1_def b_def)
  have take: "try_next None t1 = Inr (Inr b, [], t2)"
    by (simp add: try_next_def try_take_now_def has_unread_def reader_take_now_def ops t0_def t1_def t2_def b_def)
  let ?s = "\<lambda>t rh p r. \<lparr>tr_tb = t, tr_whand = Some b, tr_wheld = None, tr_rhand = rh, tr_rheld = None,
    tr_published = p, tr_received = r, tr_wwait = None, tr_rwait = None\<rparr>"
  have b0: "buffer_deref b = []" by (simp add: buffer_deref_def b_def)
  have "reach triple_init triple_step 0 (?s t0 None [] [])"
    by (rule reach.start) (use new in \<open>auto simp: triple_init_def\<close>)
  from reach.next_step [OF this, OF triple_step.try_publish [where b = b and r = "Inr b" and ws = "[]" and t = t1]] pub
  have "reach triple_init triple_step 1 (?s t1 None [[]] [])"
    by (simp add: sum_merge_def b0 still_waiting_def)
  from reach.next_step [OF this, OF triple_step.try_next [where r = "Inr b" and ws = "[]" and t = t2]] take
  have "reach triple_init triple_step 2 (?s t2 (Some b) [[]] [[]])"
    by (simp add: b0 still_waiting_def numeral_2_eq_2)
  then show thesis by (rule that) (simp_all add: t2_def)
qed

text \<open>
  Nothing panics and nothing is lost in waiting. In every state of such a run the next call of each
  side returns: publishing succeeds exactly when the middle buffer has been read, taking exactly when
  it has not. A parked writer is told by the next take, a parked reader by the next publish.
\<close>

lemma triple_progress:
  assumes "reach triple_init triple_step n s"
  shows "(tr_whand s = Some b \<longrightarrow> wp (try_publish b (tr_tb s)) (\<lambda>(r, ws, _).
      (isl r \<longleftrightarrow> has_unread (tr_tb s)) \<and> (\<forall>w. tr_rwait s = Some w \<longrightarrow> \<not> isl r \<and> w \<in> set ws))) \<and>
    (tr_rheld s = None \<longrightarrow> wp (try_next (tr_rhand s) (tr_tb s)) (\<lambda>(r, ws, _).
      (isl r \<longleftrightarrow> \<not> has_unread (tr_tb s)) \<and> (\<forall>w. tr_wwait s = Some w \<longrightarrow> \<not> isl r \<and> w \<in> set ws)))"
proof -
  have inv: "triple_inv s" by (rule tr.reachable_inv [OF assms])
  have ok: "triple_ok (reader_out s) (tr_tb s)" using inv by (simp add: triple_inv_def)
  have rwait: "middle_free (tr_tb s) \<and> fst (slot_signal (tb_rslot (tr_tb s))) = [w]" if "tr_rwait s = Some w" for w
    using inv that parked_signal by (auto simp: triple_inv_def)
  have wwait: "has_unread (tr_tb s) \<and> fst (slot_signal (tb_wslot (tr_tb s))) = [w]" if "tr_wwait s = Some w" for w
    using inv that parked_signal by (auto simp: triple_inv_def)
  have pub: "wp (try_publish b (tr_tb s)) (\<lambda>(r, ws, _).
      (isl r \<longleftrightarrow> has_unread (tr_tb s)) \<and> (\<forall>w. tr_rwait s = Some w \<longrightarrow> \<not> isl r \<and> w \<in> set ws))"
    if "tr_whand s = Some b"
  proof -
    have b: "triple_buf (tr_tb s) b" using inv that by (auto simp: triple_inv_def)
    then have geo: "geometry_ok b (tr_tb s)" by (simp add: triple_buf_def)
    show ?thesis
      unfolding try_publish_def wp_rbind wp_rassert
      by (intro conjI geo wp_mono [OF try_publish_now_wp [OF ok b]])
        (use rwait in \<open>auto simp: free_unread split: if_splits\<close>)
  qed
  have nxt: "wp (try_next (tr_rhand s) (tr_tb s)) (\<lambda>(r, ws, _).
      (isl r \<longleftrightarrow> \<not> has_unread (tr_tb s)) \<and> (\<forall>w. tr_wwait s = Some w \<longrightarrow> \<not> isl r \<and> w \<in> set ws))"
    if held: "tr_rheld s = None"
  proof -
    note prev = reader_prev(1) [OF inv held]
    have geo: "wp (case tr_rhand s of
          Some b \<Rightarrow> rassert (geometry_ok b (tr_tb s)) (Assertion ''buffer geometry does not match this triple buffer'')
        | None \<Rightarrow> Inr ()) (\<lambda>_. True)"
      using prev by (auto simp: triple_buf_def split: option.splits)
    have now: "wp (try_take_now (tr_rhand s) (tr_tb s)) (\<lambda>(r, ws, _).
      (isl r \<longleftrightarrow> \<not> has_unread (tr_tb s)) \<and> (\<forall>w. tr_wwait s = Some w \<longrightarrow> \<not> isl r \<and> w \<in> set ws))"
      by (rule wp_mono [OF try_take_now_wp [OF ok prev]]) (use wwait in \<open>auto split: if_splits\<close>)
    show ?thesis
      unfolding try_next_def by (rule wp_rbindI [OF geo]) (rule now)
  qed
  from pub nxt show ?thesis by blast
qed

text \<open>
  Two slots can be null at once: after the first buffer has been published and taken, the writer's
  and the reader's slot are both empty.
\<close>

theorem triple_two_null_slots:
  "\<exists>s. reach triple_init triple_step 2 (s :: nat triple_sys) \<and>
     length (filter (\<lambda>p. p = None) (tb_buffers (tr_tb s))) = 2"
proof -
  obtain s :: "nat triple_sys" where "reach triple_init triple_step 2 s"
    "length (filter (\<lambda>p. p = None) (tb_buffers (tr_tb s))) = 2" by (rule triple_run)
  then show ?thesis by blast
qed

end
