(* ===== verification/Triple_Threads.thy ===== *)
theory Triple_Threads
  imports Slot_Access TripleBuf
begin

text \<open>
  The triple buffer (\<open>src/src/site_d/triplebuffer.rs\<close>) with a writer and a reader thread that interleave
  at every shared access, under sequential consistency. This theory has the threads and the invariant of
  the data; \<open>Triple_Wakeups\<close> has the wakeups.
\<close>

section \<open>The two threads\<close>

text \<open>
  The writer. \<open>WLast\<close>: before the load of \<open>last_read_gen\<close> that decides (\<open>generation\<close> and \<open>writer_idx\<close> are
  its own); \<open>WMid\<close>: before the load of \<open>middle_idx\<close>; \<open>WSwap\<close>: before the swap that puts the completed buffer
  into slot \<open>wi\<close>; \<open>WLen\<close>, \<open>WMidx\<close>, \<open>WGen\<close>: before the stores of its length, of \<open>middle_idx\<close> and of
  \<open>generation\<close>; \<open>WTake\<close>: before the swap that takes the old middle out of slot \<open>mi\<close>. The completed buffer
  is kept with the program counter while it is on its way.
\<close>

datatype 'a wpc =
    WOut | WLast mode | WMid mode | WSwap mode nat nat | WLen mode nat nat "'a aligned_buffer"
  | WMidx mode nat nat "'a aligned_buffer" | WGen mode nat "'a aligned_buffer" | WTake mode nat
  | WSignal mode signal_pc | WReg waiter_pc | WClear | WWaiting

text \<open>
  The reader. \<open>RGen\<close>: before the load of \<open>generation\<close> that decides (\<open>last_read_gen\<close> and \<open>reader_idx\<close> are its
  own); \<open>RGen2\<close>: before its load in \<open>reader_take_now\<close>; \<open>RMid\<close>: before the load of \<open>middle_idx\<close>; \<open>RSwap\<close>,
  \<open>RLen\<close>: before the return of the previous buffer and the store of its length; \<open>RMidx\<close>: before the store
  of \<open>middle_idx\<close>; \<open>RTake\<close>: before the swap that takes the published buffer; \<open>RLoadLen\<close>: before the load
  of its length; \<open>RCommit\<close>: before the store of \<open>last_read_gen\<close>.
\<close>

datatype 'a rpc =
    ROut | RGen mode | RGen2 mode | RMid mode usize | RSwap mode usize nat nat | RLen mode usize nat nat
  | RMidx mode usize nat nat | RTake mode usize nat | RLoadLen mode usize nat "'a list" | RCommit mode usize
  | RSignal mode signal_pc | RReg waiter_pc | RClear | RWaiting

text \<open>A thread with the buffer it has in hand or held by its handle.\<close>

record ('a, 'p) thread =
  th_pc :: 'p
  th_buf :: "'a aligned_buffer option"
  th_cur :: waker
  th_woken :: bool

record 'a tt_sys =
  tt_tb :: "'a triple"
  tt_w :: "('a, 'a wpc) thread"
  tt_r :: "('a, 'a rpc) thread"
  tt_published :: "'a list list"
  tt_received :: "'a list list"

definition waked :: "waker list \<Rightarrow> ('a, 'p) thread \<Rightarrow> ('a, 'p) thread" where
  "waked ws th = th\<lparr>th_woken := th_woken th \<or> th_cur th \<in> set ws\<rparr>"

definition w_fail :: "mode \<Rightarrow> ('a, 'a wpc) thread \<Rightarrow> ('a, 'a wpc) thread" where
  "w_fail md th =
     (case md of
        Plain \<Rightarrow> th\<lparr>th_pc := WOut\<rparr>
      | First w \<Rightarrow> th\<lparr>th_pc := WReg Reg1, th_cur := w, th_woken := False\<rparr>
      | Second \<Rightarrow> th\<lparr>th_pc := WWaiting\<rparr>)"

definition r_fail :: "mode \<Rightarrow> ('a, 'a rpc) thread \<Rightarrow> ('a, 'a rpc) thread" where
  "r_fail md th =
     (case md of
        Plain \<Rightarrow> th\<lparr>th_pc := ROut\<rparr>
      | First w \<Rightarrow> th\<lparr>th_pc := RReg Reg1, th_cur := w, th_woken := False\<rparr>
      | Second \<Rightarrow> th\<lparr>th_pc := RWaiting\<rparr>)"

fun w_after :: "mode \<Rightarrow> signal_pc \<Rightarrow> 'a wpc" where
  "w_after md Quiet = (if md = Second then WClear else WOut)"
| "w_after md q = WSignal md q"

fun r_after :: "mode \<Rightarrow> signal_pc \<Rightarrow> 'a rpc" where
  "r_after md Quiet = (if md = Second then RClear else ROut)"
| "r_after md q = RSignal md q"

text \<open>The next access of a thread that is in a call.\<close>

definition w_move :: "'a tt_sys \<Rightarrow> 'a tt_sys res" where
  "w_move s =
     (let t = tt_tb s; th = tt_w s in
      case th_pc th of
        WLast md \<Rightarrow>
          Inr (s\<lparr>tt_w := (if tb_gen t = tb_last t then th\<lparr>th_pc := WMid md\<rparr> else w_fail md th)\<rparr>)
      | WMid md \<Rightarrow> Inr (s\<lparr>tt_w := th\<lparr>th_pc := WSwap md (tb_writer t) (tb_middle t)\<rparr>\<rparr>)
      | WSwap md wi mi \<Rightarrow>
          (case th_buf th of
             None \<Rightarrow> Inl (Assertion ''polled without a held buffer'')
           | Some b \<Rightarrow>
               rbind (swap_buffer wi (Some (fst (buffer_into_raw b))) t) (\<lambda>(old, t').
               rbind (rassert (old = None) (Assertion ''writer slot not empty'')) (\<lambda>_.
                 Inr (s\<lparr>tt_tb := t', tt_w := th\<lparr>th_pc := WLen md wi mi b, th_buf := None\<rparr>\<rparr>))))
      | WLen md wi mi b \<Rightarrow>
          rbind (store_len wi (snd (buffer_into_raw b)) t) (\<lambda>t'.
            Inr (s\<lparr>tt_tb := t', tt_w := th\<lparr>th_pc := WMidx md wi mi b\<rparr>\<rparr>))
      | WMidx md wi mi b \<Rightarrow>
          Inr (s\<lparr>tt_tb := t\<lparr>tb_writer := mi, tb_middle := wi\<rparr>, tt_w := th\<lparr>th_pc := WGen md mi b\<rparr>\<rparr>)
      | WGen md mi b \<Rightarrow>
          Inr (s\<lparr>tt_tb := t\<lparr>tb_gen := tb_gen t + 1\<rparr>, tt_w := th\<lparr>th_pc := WTake md mi\<rparr>,
            tt_published := tt_published s @ [buffer_deref b]\<rparr>)
      | WTake md mi \<Rightarrow>
          rbind (swap_buffer mi None t) (\<lambda>(p, t').
          rbind (not_null p) (\<lambda>d.
          rbind (buffer_from_raw_with_len d 0 (tb_cap t) (tb_align t)) (\<lambda>nxt.
            Inr (s\<lparr>tt_tb := t', tt_w := th\<lparr>th_pc := WSignal md Gate, th_buf := Some nxt\<rparr>\<rparr>))))
      | WSignal md q \<Rightarrow>
          (let (ws, q', slot) = sig_access q (tb_rslot t)
           in Inr (s\<lparr>tt_tb := t\<lparr>tb_rslot := slot\<rparr>, tt_w := th\<lparr>th_pc := w_after md q'\<rparr>,
                tt_r := waked ws (tt_r s)\<rparr>))
      | WReg q \<Rightarrow>
          rbind (reg_access (th_cur th) q (tb_wslot t)) (\<lambda>(ws, q', slot).
            Inr (s\<lparr>tt_tb := t\<lparr>tb_wslot := slot\<rparr>,
              tt_w := (waked ws th)\<lparr>th_pc := (if q' = Recheck then WLast Second else WReg q')\<rparr>\<rparr>))
      | WClear \<Rightarrow>
          Inr (s\<lparr>tt_tb := t\<lparr>tb_wslot := slot_disarm (tb_wslot t)\<rparr>, tt_w := th\<lparr>th_pc := WOut\<rparr>\<rparr>)
      | _ \<Rightarrow> Inr s)"

definition r_move :: "'a tt_sys \<Rightarrow> 'a tt_sys res" where
  "r_move s =
     (let t = tt_tb s; th = tt_r s in
      case th_pc th of
        RGen md \<Rightarrow>
          Inr (s\<lparr>tt_r := (if tb_gen t \<noteq> tb_last t then th\<lparr>th_pc := RGen2 md\<rparr> else r_fail md th)\<rparr>)
      | RGen2 md \<Rightarrow> Inr (s\<lparr>tt_r := th\<lparr>th_pc := RMid md (tb_gen t)\<rparr>\<rparr>)
      | RMid md g \<Rightarrow>
          Inr (s\<lparr>tt_r := th\<lparr>th_pc := RSwap md g (tb_reader t) (tb_middle t)\<rparr>\<rparr>)
      | RSwap md g ri mi \<Rightarrow>
          (case th_buf th of
             None \<Rightarrow> Inr (s\<lparr>tt_r := th\<lparr>th_pc := RMidx md g ri mi\<rparr>\<rparr>)
           | Some prev \<Rightarrow>
               rbind (swap_buffer ri (Some (fst (buffer_into_raw prev))) t) (\<lambda>(old, t').
               rbind (rassert (old = None) (Assertion ''reader slot not empty'')) (\<lambda>_.
                 Inr (s\<lparr>tt_tb := t', tt_r := th\<lparr>th_pc := RLen md g ri mi, th_buf := None\<rparr>\<rparr>))))
      | RLen md g ri mi \<Rightarrow>
          rbind (store_len ri 0 t) (\<lambda>t'. Inr (s\<lparr>tt_tb := t', tt_r := th\<lparr>th_pc := RMidx md g ri mi\<rparr>\<rparr>))
      | RMidx md g ri mi \<Rightarrow>
          Inr (s\<lparr>tt_tb := t\<lparr>tb_reader := mi, tb_middle := ri\<rparr>, tt_r := th\<lparr>th_pc := RTake md g mi\<rparr>\<rparr>)
      | RTake md g mi \<Rightarrow>
          rbind (swap_buffer mi None t) (\<lambda>(p, t').
          rbind (not_null p) (\<lambda>d.
            Inr (s\<lparr>tt_tb := t', tt_r := th\<lparr>th_pc := RLoadLen md g mi d\<rparr>\<rparr>)))
      | RLoadLen md g mi d \<Rightarrow>
          rbind (load_len mi t) (\<lambda>n.
          rbind (buffer_from_raw_with_len d n (tb_cap t) (tb_align t)) (\<lambda>b.
            Inr (s\<lparr>tt_r := th\<lparr>th_pc := RCommit md g, th_buf := Some b\<rparr>\<rparr>)))
      | RCommit md g \<Rightarrow>
          Inr (s\<lparr>tt_tb := t\<lparr>tb_last := g\<rparr>, tt_r := th\<lparr>th_pc := RSignal md Gate\<rparr>,
            tt_received := tt_received s @ [case th_buf th of Some b \<Rightarrow> buffer_deref b | None \<Rightarrow> []]\<rparr>)
      | RSignal md q \<Rightarrow>
          (let (ws, q', slot) = sig_access q (tb_wslot t)
           in Inr (s\<lparr>tt_tb := t\<lparr>tb_wslot := slot\<rparr>, tt_w := waked ws (tt_w s),
                tt_r := th\<lparr>th_pc := r_after md q'\<rparr>\<rparr>))
      | RReg q \<Rightarrow>
          rbind (reg_access (th_cur th) q (tb_rslot t)) (\<lambda>(ws, q', slot).
            Inr (s\<lparr>tt_tb := t\<lparr>tb_rslot := slot\<rparr>,
              tt_r := (waked ws th)\<lparr>th_pc := (if q' = Recheck then RGen Second else RReg q')\<rparr>\<rparr>))
      | RClear \<Rightarrow>
          Inr (s\<lparr>tt_tb := t\<lparr>tb_rslot := slot_disarm (tb_rslot t)\<rparr>, tt_r := th\<lparr>th_pc := ROut\<rparr>\<rparr>)
      | _ \<Rightarrow> Inr s)"

definition tt_init :: "'a tt_sys \<Rightarrow> bool" where
  "tt_init s \<longleftrightarrow> (\<exists>alloc el capacity align b.
     triple_new alloc el capacity align = Inr (tt_tb s, b) \<and> th_buf (tt_w s) = Some b) \<and>
     th_pc (tt_w s) = WOut \<and> th_pc (tt_r s) = ROut \<and> th_buf (tt_r s) = None \<and>
     tt_published s = [] \<and> tt_received s = []"

text \<open>
  Between calls the writer may fill its buffer; a pending future may be polled again or dropped. The
  reader passes the buffer it has, if any.
\<close>

inductive tt_step :: "'a tt_sys \<Rightarrow> 'a tt_sys \<Rightarrow> bool" where
  fill: "th_pc (tt_w s) \<in> {WOut, WWaiting} \<Longrightarrow> triple_buf (tt_tb s) b \<Longrightarrow>
    tt_step s (s\<lparr>tt_w := (tt_w s)\<lparr>th_pc := WOut, th_buf := Some b\<rparr>\<rparr>)"
| publish: "th_pc (tt_w s) \<in> {WOut, WWaiting} \<Longrightarrow> th_buf (tt_w s) = Some b \<Longrightarrow> geometry_ok b (tt_tb s) \<Longrightarrow>
    md \<noteq> Second \<Longrightarrow> tt_step s (s\<lparr>tt_w := (tt_w s)\<lparr>th_pc := WLast md\<rparr>\<rparr>)"
| writer: "w_move s = Inr t \<Longrightarrow> tt_step s t"
| nxt: "th_pc (tt_r s) \<in> {ROut, RWaiting} \<Longrightarrow> (\<forall>b. th_buf (tt_r s) = Some b \<longrightarrow> geometry_ok b (tt_tb s)) \<Longrightarrow>
    md \<noteq> Second \<Longrightarrow> tt_step s (s\<lparr>tt_r := (tt_r s)\<lparr>th_pc := RGen md\<rparr>\<rparr>)"
| reader: "r_move s = Inr t \<Longrightarrow> tt_step s t"

section \<open>Invariant\<close>

fun w_core :: "'a wpc \<Rightarrow> bool" where
  "w_core (WMid md) = True" | "w_core (WSwap md wi mi) = True" | "w_core (WLen md wi mi b) = True"
| "w_core (WMidx md wi mi b) = True" | "w_core (WGen md mi b) = True" | "w_core _ = False"

fun r_core :: "'a rpc \<Rightarrow> bool" where
  "r_core (RGen2 md) = True" | "r_core (RMid md g) = True" | "r_core (RSwap md g ri mi) = True"
| "r_core (RLen md g ri mi) = True" | "r_core (RMidx md g ri mi) = True" | "r_core (RTake md g mi) = True"
| "r_core (RLoadLen md g mi d) = True" | "r_core (RCommit md g) = True" | "r_core _ = False"

fun w_ok :: "'a triple \<Rightarrow> 'a aligned_buffer option \<Rightarrow> 'a wpc \<Rightarrow> bool" where
  "w_ok t x (WSwap md wi mi) \<longleftrightarrow> x \<noteq> None \<and> wi = tb_writer t \<and> mi = tb_middle t"
| "w_ok t x (WLen md wi mi b) \<longleftrightarrow> x = None \<and> wi = tb_writer t \<and> mi = tb_middle t \<and> triple_buf t b \<and>
     tb_buffers t ! wi = Some (ab_data b)"
| "w_ok t x (WMidx md wi mi b) \<longleftrightarrow> x = None \<and> wi = tb_writer t \<and> mi = tb_middle t \<and> triple_buf t b \<and>
     tb_buffers t ! wi = Some (ab_data b) \<and> tb_lens t ! wi = ab_len b"
| "w_ok t x (WGen md mi b) \<longleftrightarrow> x = None \<and> mi = tb_writer t \<and>
     tb_buffers t ! tb_middle t = Some (ab_data b) \<and> tb_lens t ! tb_middle t = ab_len b"
| "w_ok t x (WTake md mi) \<longleftrightarrow> x = None \<and> mi = tb_writer t"
| "w_ok t x (WSignal md q) \<longleftrightarrow> x \<noteq> None \<and> q \<noteq> Quiet"
| "w_ok t x (WReg q) \<longleftrightarrow> x \<noteq> None \<and> arming q"
| "w_ok t x _ \<longleftrightarrow> x \<noteq> None"

fun r_ok :: "'a triple \<Rightarrow> 'a aligned_buffer option \<Rightarrow> 'a rpc \<Rightarrow> bool" where
  "r_ok t x (RMid md g) \<longleftrightarrow> g = tb_gen t"
| "r_ok t x (RSwap md g ri mi) \<longleftrightarrow> g = tb_gen t \<and> ri = tb_reader t \<and> mi = tb_middle t"
| "r_ok t x (RLen md g ri mi) \<longleftrightarrow> x = None \<and> g = tb_gen t \<and> ri = tb_reader t \<and> mi = tb_middle t"
| "r_ok t x (RMidx md g ri mi) \<longleftrightarrow> x = None \<and> g = tb_gen t \<and> ri = tb_reader t \<and> mi = tb_middle t"
| "r_ok t x (RTake md g mi) \<longleftrightarrow> x = None \<and> g = tb_gen t \<and> mi = tb_reader t"
| "r_ok t x (RLoadLen md g mi d) \<longleftrightarrow> x = None \<and> g = tb_gen t \<and> mi = tb_reader t \<and> length d = tb_cap t"
| "r_ok t x (RCommit md g) \<longleftrightarrow> x \<noteq> None \<and> g = tb_gen t"
| "r_ok t x (RSignal md q) \<longleftrightarrow> q \<noteq> Quiet"
| "r_ok t x (RReg q) \<longleftrightarrow> arming q"
| "r_ok t x _ \<longleftrightarrow> True"

text \<open>A buffer the reader has taken out of its slot and not yet wrapped.\<close>

fun r_holds :: "'a rpc \<Rightarrow> bool" where "r_holds (RLoadLen md g mi d) = True" | "r_holds _ = False"

text \<open>Where the unread contents are while the reader takes them.\<close>

fun unread :: "'a triple \<Rightarrow> 'a aligned_buffer option \<Rightarrow> 'a rpc \<Rightarrow> 'a list" where
  "unread t x (RTake md g mi) = take (tb_lens t ! mi) (the (tb_buffers t ! mi))"
| "unread t x (RLoadLen md g mi d) = take (tb_lens t ! mi) d"
| "unread t x (RCommit md g) = (case x of Some b \<Rightarrow> buffer_deref b | None \<Rightarrow> [])"
| "unread t x _ = middle_contents t"

definition slots_ok :: "'a triple \<Rightarrow> bool" where
  "slots_ok t \<longleftrightarrow> length (tb_buffers t) = 3 \<and> length (tb_lens t) = 3 \<and>
     tb_writer t < 3 \<and> tb_reader t < 3 \<and> tb_middle t < 3 \<and>
     tb_writer t \<noteq> tb_reader t \<and> tb_writer t \<noteq> tb_middle t \<and> tb_reader t \<noteq> tb_middle t \<and>
     tb_buffers t ! tb_middle t \<noteq> None \<and>
     (\<forall>i d. i < 3 \<longrightarrow> tb_buffers t ! i = Some d \<longrightarrow> length d = tb_cap t) \<and> (\<forall>i<3. tb_lens t ! i \<le> tb_cap t)"

definition tt_inv :: "'a tt_sys \<Rightarrow> bool" where
  "tt_inv s \<longleftrightarrow> slots_ok (tt_tb s) \<and>
     (tb_gen (tt_tb s) = tb_last (tt_tb s) \<or> tb_gen (tt_tb s) = tb_last (tt_tb s) + 1) \<and>
     (tb_buffers (tt_tb s) ! tb_writer (tt_tb s) = None \<longleftrightarrow> th_buf (tt_w s) \<noteq> None) \<and>
     (tb_buffers (tt_tb s) ! tb_reader (tt_tb s) = None \<longleftrightarrow> th_buf (tt_r s) \<noteq> None \<or> r_holds (th_pc (tt_r s))) \<and>
     (\<forall>b. th_buf (tt_w s) = Some b \<longrightarrow> triple_buf (tt_tb s) b) \<and>
     (\<forall>b. th_buf (tt_r s) = Some b \<longrightarrow> triple_buf (tt_tb s) b) \<and>
     w_ok (tt_tb s) (th_buf (tt_w s)) (th_pc (tt_w s)) \<and>
     r_ok (tt_tb s) (th_buf (tt_r s)) (th_pc (tt_r s)) \<and>
     (w_core (th_pc (tt_w s)) \<longrightarrow> tb_gen (tt_tb s) = tb_last (tt_tb s)) \<and>
     (r_core (th_pc (tt_r s)) \<longrightarrow> tb_gen (tt_tb s) \<noteq> tb_last (tt_tb s)) \<and>
     tt_published s = tt_received s @
       (if tb_gen (tt_tb s) = tb_last (tt_tb s) then [] else [unread (tt_tb s) (th_buf (tt_r s)) (th_pc (tt_r s))])"

lemma waked_simps [simp]:
  "th_pc (waked ws th) = th_pc th" "th_buf (waked ws th) = th_buf th" "th_cur (waked ws th) = th_cur th"
  by (simp_all add: waked_def)

lemma w_fail_simps [simp]: "th_buf (w_fail md th) = th_buf th" "\<not> w_core (th_pc (w_fail md th))"
  "w_ok t x (th_pc (w_fail md th)) \<longleftrightarrow> x \<noteq> None"
  by (simp_all add: w_fail_def split: mode.splits)

lemma r_fail_simps [simp]: "th_buf (r_fail md th) = th_buf th" "\<not> r_core (th_pc (r_fail md th))"
  "r_ok t x (th_pc (r_fail md th))" "\<not> r_holds (th_pc (r_fail md th))"
  "unread t x (th_pc (r_fail md th)) = middle_contents t"
  by (simp_all add: r_fail_def split: mode.splits)

lemma w_after_simps [simp]: "w_ok t x (w_after md q) \<longleftrightarrow> x \<noteq> None" "\<not> w_core (w_after md q)"
  by (cases q; simp)+

lemma r_after_simps [simp]:
  "r_ok t x (r_after md q)" "\<not> r_core (r_after md q)" "\<not> r_holds (r_after md q)"
  "unread t x (r_after md q) = middle_contents t"
  by (cases q; simp)+

lemma tt_invD:
  assumes "tt_inv s"
  shows "slots_ok (tt_tb s)"
    "tb_gen (tt_tb s) = tb_last (tt_tb s) \<or> tb_gen (tt_tb s) = tb_last (tt_tb s) + 1"
    "tb_buffers (tt_tb s) ! tb_writer (tt_tb s) = None \<longleftrightarrow> th_buf (tt_w s) \<noteq> None"
    "tb_buffers (tt_tb s) ! tb_reader (tt_tb s) = None \<longleftrightarrow> th_buf (tt_r s) \<noteq> None \<or> r_holds (th_pc (tt_r s))"
    "th_buf (tt_w s) = Some b \<Longrightarrow> triple_buf (tt_tb s) b" "th_buf (tt_r s) = Some b \<Longrightarrow> triple_buf (tt_tb s) b"
    "w_ok (tt_tb s) (th_buf (tt_w s)) (th_pc (tt_w s))" "r_ok (tt_tb s) (th_buf (tt_r s)) (th_pc (tt_r s))"
    "w_core (th_pc (tt_w s)) \<Longrightarrow> tb_gen (tt_tb s) = tb_last (tt_tb s)"
    "r_core (th_pc (tt_r s)) \<Longrightarrow> tb_gen (tt_tb s) \<noteq> tb_last (tt_tb s)"
    "tt_published s = tt_received s @
       (if tb_gen (tt_tb s) = tb_last (tt_tb s) then [] else [unread (tt_tb s) (th_buf (tt_r s)) (th_pc (tt_r s))])"
  using assms by (auto simp: tt_inv_def)

lemma slots_okD:
  assumes "slots_ok t"
  shows "length (tb_buffers t) = 3" "length (tb_lens t) = 3"
     "tb_writer t < 3" "tb_reader t < 3" "tb_middle t < 3"
     "tb_writer t \<noteq> tb_reader t" "tb_writer t \<noteq> tb_middle t" "tb_reader t \<noteq> tb_middle t"
     "tb_buffers t ! tb_middle t \<noteq> None" "i < 3 \<Longrightarrow> tb_buffers t ! i = Some d \<Longrightarrow> length d = tb_cap t"
     "i < 3 \<Longrightarrow> tb_lens t ! i \<le> tb_cap t"
  using assms by (auto simp: slots_ok_def)

text \<open>What the reader's part of the invariant needs of a step of the writer, and the other way round.\<close>

lemma r_ok_frame:
  assumes "r_ok t x pc" "tb_reader t' = tb_reader t" "tb_cap t' = tb_cap t"
    "r_core pc \<Longrightarrow> tb_middle t' = tb_middle t \<and> tb_gen t' = tb_gen t"
  shows "r_ok t' x pc"
  using assms by (cases pc) auto

lemma w_ok_frame:
  assumes "w_ok t x pc" "tb_writer t' = tb_writer t" "tb_cap t' = tb_cap t" "tb_align t' = tb_align t"
    "w_core pc \<Longrightarrow> tb_middle t' = tb_middle t \<and> tb_buffers t' = tb_buffers t \<and> tb_lens t' = tb_lens t"
  shows "w_ok t' x pc"
  using assms triple_buf_geometry [OF assms(3,4)] by (cases pc) auto

lemma unread_frame:
  assumes "tb_middle t' = tb_middle t" "\<And>i. i = tb_middle t \<or> i = tb_reader t \<Longrightarrow> tb_buffers t' ! i = tb_buffers t ! i"
    "\<And>i. i = tb_middle t \<or> i = tb_reader t \<Longrightarrow> tb_lens t' ! i = tb_lens t ! i" "r_ok t x pc"
  shows "unread t' x pc = unread t x pc"
  using assms by (cases pc) (auto simp: middle_contents_def)

text \<open>A step of the writer on its own slot, or, while nothing is unread, on the middle.\<close>

lemma tt_writer_frame:
  assumes inv: "tt_inv s" and t: "slots_ok t" "tb_reader t = tb_reader (tt_tb s)" "tb_cap t = tb_cap (tt_tb s)"
      "tb_align t = tb_align (tt_tb s)" "tb_last t = tb_last (tt_tb s)" "tb_gen t = tb_gen (tt_tb s)"
      "tb_buffers t ! tb_reader t = tb_buffers (tt_tb s) ! tb_reader (tt_tb s)"
    and mid: "tb_gen t \<noteq> tb_last t \<Longrightarrow> tb_middle t = tb_middle (tt_tb s) \<and>
      tb_buffers t ! tb_middle t = tb_buffers (tt_tb s) ! tb_middle t \<and> tb_lens t = tb_lens (tt_tb s)"
    and th: "tb_buffers t ! tb_writer t = None \<longleftrightarrow> th_buf th \<noteq> None"
      "\<And>b. th_buf th = Some b \<Longrightarrow> triple_buf (tt_tb s) b" "w_ok t (th_buf th) (th_pc th)"
      "w_core (th_pc th) \<Longrightarrow> tb_gen t = tb_last t"
  shows "tt_inv (s\<lparr>tt_tb := t, tt_w := th\<rparr>)"
proof -
  note I = tt_invD [OF inv]
  have r: "r_ok t (th_buf (tt_r s)) (th_pc (tt_r s))"
    using r_ok_frame [OF I(8), of t] mid I(10) t by simp
  have u: "unread t (th_buf (tt_r s)) (th_pc (tt_r s)) = unread (tt_tb s) (th_buf (tt_r s)) (th_pc (tt_r s))"
    if "tb_gen t \<noteq> tb_last t"
    using mid [OF that] t by (intro unread_frame I(8)) auto
  show ?thesis
    using t th r u I triple_buf_geometry [OF t(3,4)] by (auto simp: tt_inv_def)
qed

lemma tt_reader_frame:
  assumes inv: "tt_inv s" and t: "slots_ok t" "tb_writer t = tb_writer (tt_tb s)" "tb_cap t = tb_cap (tt_tb s)"
      "tb_align t = tb_align (tt_tb s)" "tb_last t = tb_last (tt_tb s)" "tb_gen t = tb_gen (tt_tb s)"
      "tb_buffers t ! tb_writer t = tb_buffers (tt_tb s) ! tb_writer (tt_tb s)"
    and mid: "tb_gen t = tb_last t \<Longrightarrow> tb_middle t = tb_middle (tt_tb s) \<and>
      tb_buffers t = tb_buffers (tt_tb s) \<and> tb_lens t = tb_lens (tt_tb s)"
    and th: "tb_buffers t ! tb_reader t = None \<longleftrightarrow> th_buf th \<noteq> None \<or> r_holds (th_pc th)"
      "\<And>b. th_buf th = Some b \<Longrightarrow> triple_buf (tt_tb s) b" "r_ok t (th_buf th) (th_pc th)"
      "r_core (th_pc th) \<Longrightarrow> tb_gen t \<noteq> tb_last t"
      "tb_gen t \<noteq> tb_last t \<Longrightarrow> unread t (th_buf th) (th_pc th) = unread (tt_tb s) (th_buf (tt_r s)) (th_pc (tt_r s))"
  shows "tt_inv (s\<lparr>tt_tb := t, tt_r := th\<rparr>)"
proof -
  note I = tt_invD [OF inv]
  have "w_ok t (th_buf (tt_w s)) (th_pc (tt_w s))"
    using w_ok_frame [OF I(7), of t] mid I(9) t by simp
  then show ?thesis
    using t th I triple_buf_geometry [OF t(3,4)] by (auto simp: tt_inv_def)
qed

lemma slots_ok_slot [simp]:
  "slots_ok (t\<lparr>tb_wslot := x\<rparr>) = slots_ok t" "slots_ok (t\<lparr>tb_rslot := x\<rparr>) = slots_ok t"
  by (simp_all add: slots_ok_def)

lemma w_ok_slot [simp]:
  "w_ok (t\<lparr>tb_wslot := x\<rparr>) b pc = w_ok t b pc" "w_ok (t\<lparr>tb_rslot := x\<rparr>) b pc = w_ok t b pc"
  "triple_buf (t\<lparr>tb_wslot := x\<rparr>) c = triple_buf t c" "triple_buf (t\<lparr>tb_rslot := x\<rparr>) c = triple_buf t c"
  by (cases pc; simp add: triple_buf_def geometry_ok_def)+

lemma middle_contents_slot [simp]:
  "middle_contents (t\<lparr>tb_wslot := x\<rparr>) = middle_contents t" "middle_contents (t\<lparr>tb_rslot := x\<rparr>) = middle_contents t"
  by (simp_all add: middle_contents_def)

lemma r_ok_slot [simp]:
  "r_ok (t\<lparr>tb_wslot := x\<rparr>) b pc = r_ok t b pc" "r_ok (t\<lparr>tb_rslot := x\<rparr>) b pc = r_ok t b pc"
  "unread (t\<lparr>tb_wslot := x\<rparr>) b pc = unread t b pc" "unread (t\<lparr>tb_rslot := x\<rparr>) b pc = unread t b pc"
  by (cases pc; simp)+

text \<open>The writer's accesses one by one: each returns, and keeps the invariant.\<close>

lemma w_swap_ok:
  assumes inv: "tt_inv s" and pc: "th_pc (tt_w s) = WSwap md wi mi"
  shows "wp (w_move s) tt_inv"
proof -
  note I = tt_invD [OF inv] and S = slots_okD [OF tt_invD(1) [OF inv]]
  obtain b where b: "th_buf (tt_w s) = Some b" using I(7) pc by auto
  let ?t = "(tt_tb s)\<lparr>tb_buffers := (tb_buffers (tt_tb s))[wi := Some (ab_data b)]\<rparr>"
  have w: "wi = tb_writer (tt_tb s)" "mi = tb_middle (tt_tb s)" using I(7) pc by auto
  have "w_move s = Inr (s\<lparr>tt_tb := ?t, tt_w := (tt_w s)\<lparr>th_pc := WLen md wi mi b, th_buf := None\<rparr>\<rparr>)"
    using pc b w S(1,3) I(3) by (simp add: w_move_def Let_def swap_buffer_def buffer_into_raw_def)
  moreover have "slots_ok ?t"
    using tt_invD(1) [OF inv] w I(5) [OF b] by (auto simp: slots_ok_def nth_list_update triple_buf_def)
  then have "tt_inv (s\<lparr>tt_tb := ?t, tt_w := (tt_w s)\<lparr>th_pc := WLen md wi mi b, th_buf := None\<rparr>\<rparr>)"
    using pc w S I(5) [OF b] I(9)
    by (intro tt_writer_frame [OF inv]) (auto simp: triple_buf_def geometry_ok_def)
  ultimately show ?thesis by simp
qed

lemma w_len_ok:
  assumes inv: "tt_inv s" and pc: "th_pc (tt_w s) = WLen md wi mi b"
  shows "wp (w_move s) tt_inv"
proof -
  note I = tt_invD [OF inv] and S = slots_okD [OF tt_invD(1) [OF inv]]
  let ?t = "(tt_tb s)\<lparr>tb_lens := (tb_lens (tt_tb s))[wi := ab_len b]\<rparr>"
  have w: "wi = tb_writer (tt_tb s)" "mi = tb_middle (tt_tb s)" "triple_buf (tt_tb s) b"
    "tb_buffers (tt_tb s) ! wi = Some (ab_data b)" "th_buf (tt_w s) = None" using I(7) pc by auto
  have "w_move s = Inr (s\<lparr>tt_tb := ?t, tt_w := (tt_w s)\<lparr>th_pc := WMidx md wi mi b\<rparr>\<rparr>)"
    using pc w(1) S(2,3) by (simp add: w_move_def Let_def store_len_def buffer_into_raw_def)
  moreover have "slots_ok ?t"
    using tt_invD(1) [OF inv] w(1,3) by (auto simp: slots_ok_def nth_list_update triple_buf_def)
  then have "tt_inv (s\<lparr>tt_tb := ?t, tt_w := (tt_w s)\<lparr>th_pc := WMidx md wi mi b\<rparr>\<rparr>)"
    using pc w S I(9)
    by (intro tt_writer_frame [OF inv]) (auto simp: triple_buf_def geometry_ok_def)
  ultimately show ?thesis by simp
qed

lemma w_midx_ok:
  assumes inv: "tt_inv s" and pc: "th_pc (tt_w s) = WMidx md wi mi b"
  shows "wp (w_move s) tt_inv"
proof -
  note I = tt_invD [OF inv] and S = slots_okD [OF tt_invD(1) [OF inv]]
  let ?t = "(tt_tb s)\<lparr>tb_writer := mi, tb_middle := wi\<rparr>"
  have w: "wi = tb_writer (tt_tb s)" "mi = tb_middle (tt_tb s)" "triple_buf (tt_tb s) b"
    "tb_buffers (tt_tb s) ! wi = Some (ab_data b)" "th_buf (tt_w s) = None" "tb_lens (tt_tb s) ! wi = ab_len b"
    using I(7) pc by auto
  have "slots_ok ?t" using tt_invD(1) [OF inv] w(1,2,4) by (auto simp: slots_ok_def)
  then have "tt_inv (s\<lparr>tt_tb := ?t, tt_w := (tt_w s)\<lparr>th_pc := WGen md mi b\<rparr>\<rparr>)"
    using pc w S(9) I(9) by (intro tt_writer_frame [OF inv]) (auto simp: triple_buf_def geometry_ok_def)
  then show ?thesis using pc by (simp add: w_move_def Let_def)
qed

lemma w_gen_ok:
  assumes inv: "tt_inv s" and pc: "th_pc (tt_w s) = WGen md mi b"
  shows "wp (w_move s) tt_inv"
proof -
  note I = tt_invD [OF inv]
  let ?t = "(tt_tb s)\<lparr>tb_gen := tb_gen (tt_tb s) + 1\<rparr>"
  have w: "mi = tb_writer (tt_tb s)" "tb_buffers (tt_tb s) ! tb_middle (tt_tb s) = Some (ab_data b)"
    "tb_lens (tt_tb s) ! tb_middle (tt_tb s) = ab_len b" "th_buf (tt_w s) = None" using I(7) pc by auto
  have free: "tb_gen (tt_tb s) = tb_last (tt_tb s)" using I(9) pc by simp
  then have r: "\<not> r_core (th_pc (tt_r s))" using I(10) by blast
  have "unread ?t (th_buf (tt_r s)) (th_pc (tt_r s)) = buffer_deref b"
    using r w(2,3) by (cases "th_pc (tt_r s)") (auto simp: middle_contents_def buffer_deref_def)
  moreover have "slots_ok ?t" using I(1) by (simp add: slots_ok_def)
  moreover have "r_ok ?t (th_buf (tt_r s)) (th_pc (tt_r s))" using r_ok_frame [OF I(8), of ?t] r by simp
  ultimately have "tt_inv (s\<lparr>tt_tb := ?t, tt_w := (tt_w s)\<lparr>th_pc := WTake md mi\<rparr>,
      tt_published := tt_published s @ [buffer_deref b]\<rparr>)"
    using I w free r by (auto simp: tt_inv_def triple_buf_def geometry_ok_def)
  then show ?thesis using pc by (simp add: w_move_def Let_def)
qed

lemma w_take_ok:
  assumes inv: "tt_inv s" and pc: "th_pc (tt_w s) = WTake md mi"
  shows "wp (w_move s) tt_inv"
proof -
  note I = tt_invD [OF inv] and S = slots_okD [OF tt_invD(1) [OF inv]]
  let ?t = "(tt_tb s)\<lparr>tb_buffers := (tb_buffers (tt_tb s))[mi := None]\<rparr>"
  have w: "mi = tb_writer (tt_tb s)" "th_buf (tt_w s) = None" using I(7) pc by auto
  obtain d where d: "tb_buffers (tt_tb s) ! mi = Some d" using I(3) w by auto
  then have len: "length d = tb_cap (tt_tb s)" using S(3,10) w(1) by blast
  let ?b = "\<lparr>ab_data = d, ab_len = 0, ab_cap = tb_cap (tt_tb s), ab_align = tb_align (tt_tb s)\<rparr>"
  have "w_move s = Inr (s\<lparr>tt_tb := ?t, tt_w := (tt_w s)\<lparr>th_pc := WSignal md Gate, th_buf := Some ?b\<rparr>\<rparr>)"
    using pc d w(1) S(1,3) len
    by (simp add: w_move_def Let_def swap_buffer_def not_null_def buffer_from_raw_with_len_def)
  moreover have "slots_ok ?t" using I(1) w(1) by (auto simp: slots_ok_def nth_list_update)
  then have "tt_inv (s\<lparr>tt_tb := ?t, tt_w := (tt_w s)\<lparr>th_pc := WSignal md Gate, th_buf := Some ?b\<rparr>\<rparr>)"
    using w S len
    by (intro tt_writer_frame [OF inv])
      (auto simp: triple_buf_def geometry_ok_def buffer_capacity_def buffer_alignment_def)
  ultimately show ?thesis by simp
qed

lemma w_move_wp:
  assumes inv: "tt_inv s" and reg: "\<And>q. th_pc (tt_w s) = WReg q \<Longrightarrow> \<exists>r. reg_access (th_cur (tt_w s)) q (tb_wslot (tt_tb s)) = Inr r"
  shows "wp (w_move s) tt_inv"
proof (cases "th_pc (tt_w s)")
  case (WLast md)
  then show ?thesis using inv by (auto simp: w_move_def Let_def tt_inv_def)
next
  case (WMid md)
  then show ?thesis using inv by (auto simp: w_move_def Let_def tt_inv_def)
next
  case (WSignal md q)
  obtain ws q' slot where sig: "sig_access q (tb_rslot (tt_tb s)) = (ws, q', slot)" by (cases "sig_access q (tb_rslot (tt_tb s))")
  have "tt_inv (s\<lparr>tt_tb := (tt_tb s)\<lparr>tb_rslot := slot\<rparr>, tt_w := (tt_w s)\<lparr>th_pc := w_after md q'\<rparr>, tt_r := waked ws (tt_r s)\<rparr>)"
    using inv WSignal by (auto simp: tt_inv_def)
  then show ?thesis using WSignal sig by (simp add: w_move_def Let_def)
next
  case (WReg q)
  obtain ws q' slot where r: "reg_access (th_cur (tt_w s)) q (tb_wslot (tt_tb s)) = Inr (ws, q', slot)"
    using reg [OF WReg] by auto
  then have "arming q' \<or> q' = Recheck" using reg_access_arming inv WReg by (auto simp: tt_inv_def)
  then have "tt_inv (s\<lparr>tt_tb := (tt_tb s)\<lparr>tb_wslot := slot\<rparr>,
      tt_w := (waked ws (tt_w s))\<lparr>th_pc := (if q' = Recheck then WLast Second else WReg q')\<rparr>\<rparr>)"
    using inv WReg by (auto simp: tt_inv_def)
  then show ?thesis using WReg r by (simp add: w_move_def Let_def)
next
  case WClear
  then show ?thesis using inv by (auto simp: w_move_def Let_def tt_inv_def)
next
  case WOut
  then show ?thesis using inv by (simp add: w_move_def)
next
  case WWaiting
  then show ?thesis using inv by (simp add: w_move_def)
qed (erule w_swap_ok [OF inv] w_len_ok [OF inv] w_midx_ok [OF inv] w_gen_ok [OF inv] w_take_ok [OF inv])+

text \<open>The same for the reader.\<close>

lemma r_swap_ok:
  assumes inv: "tt_inv s" and pc: "th_pc (tt_r s) = RSwap md g ri mi"
  shows "wp (r_move s) tt_inv"
proof -
  note I = tt_invD [OF inv] and S = slots_okD [OF tt_invD(1) [OF inv]]
  have r: "ri = tb_reader (tt_tb s)" "mi = tb_middle (tt_tb s)" "g = tb_gen (tt_tb s)" using I(8) pc by auto
  show ?thesis
  proof (cases "th_buf (tt_r s)")
    case None
    have "tt_inv (s\<lparr>tt_tb := tt_tb s, tt_r := (tt_r s)\<lparr>th_pc := RMidx md g ri mi\<rparr>\<rparr>)"
      using pc None I r by (intro tt_reader_frame [OF inv]) auto
    then show ?thesis using pc None by (simp add: r_move_def Let_def)
  next
    case (Some b)
    let ?t = "(tt_tb s)\<lparr>tb_buffers := (tb_buffers (tt_tb s))[ri := Some (ab_data b)]\<rparr>"
    have "r_move s = Inr (s\<lparr>tt_tb := ?t, tt_r := (tt_r s)\<lparr>th_pc := RLen md g ri mi, th_buf := None\<rparr>\<rparr>)"
      using pc Some r S(1,4) I(4) by (simp add: r_move_def Let_def swap_buffer_def buffer_into_raw_def)
    moreover have "slots_ok ?t"
      using I(1) r I(6) [OF Some] by (auto simp: slots_ok_def nth_list_update triple_buf_def)
    then have "tt_inv (s\<lparr>tt_tb := ?t, tt_r := (tt_r s)\<lparr>th_pc := RLen md g ri mi, th_buf := None\<rparr>\<rparr>)"
      using pc r S I(10) by (intro tt_reader_frame [OF inv]) (auto simp: middle_contents_def)
    ultimately show ?thesis by simp
  qed
qed

lemma r_len_ok:
  assumes inv: "tt_inv s" and pc: "th_pc (tt_r s) = RLen md g ri mi"
  shows "wp (r_move s) tt_inv"
proof -
  note I = tt_invD [OF inv] and S = slots_okD [OF tt_invD(1) [OF inv]]
  have r: "ri = tb_reader (tt_tb s)" "mi = tb_middle (tt_tb s)" "g = tb_gen (tt_tb s)" "th_buf (tt_r s) = None"
    using I(8) pc by auto
  let ?t = "(tt_tb s)\<lparr>tb_lens := (tb_lens (tt_tb s))[ri := 0]\<rparr>"
  have "r_move s = Inr (s\<lparr>tt_tb := ?t, tt_r := (tt_r s)\<lparr>th_pc := RMidx md g ri mi\<rparr>\<rparr>)"
    using pc r(1) S(2,4) by (simp add: r_move_def Let_def store_len_def)
  moreover have "slots_ok ?t" using I(1) r(1) by (auto simp: slots_ok_def nth_list_update)
  then have "tt_inv (s\<lparr>tt_tb := ?t, tt_r := (tt_r s)\<lparr>th_pc := RMidx md g ri mi\<rparr>\<rparr>)"
    using pc r S I(4,10) by (intro tt_reader_frame [OF inv]) (auto simp: middle_contents_def)
  ultimately show ?thesis by simp
qed

lemma r_midx_ok:
  assumes inv: "tt_inv s" and pc: "th_pc (tt_r s) = RMidx md g ri mi"
  shows "wp (r_move s) tt_inv"
proof -
  note I = tt_invD [OF inv] and S = slots_okD [OF tt_invD(1) [OF inv]]
  have r: "ri = tb_reader (tt_tb s)" "mi = tb_middle (tt_tb s)" "g = tb_gen (tt_tb s)" "th_buf (tt_r s) = None"
    using I(8) pc by auto
  let ?t = "(tt_tb s)\<lparr>tb_reader := mi, tb_middle := ri\<rparr>"
  have "slots_ok ?t" using I(1,4) r pc by (auto simp: slots_ok_def)
  then have "tt_inv (s\<lparr>tt_tb := ?t, tt_r := (tt_r s)\<lparr>th_pc := RTake md g mi\<rparr>\<rparr>)"
    using pc r S(9) I(10) by (intro tt_reader_frame [OF inv]) (auto simp: middle_contents_def)
  then show ?thesis using pc by (simp add: r_move_def Let_def)
qed

lemma r_take_ok:
  assumes inv: "tt_inv s" and pc: "th_pc (tt_r s) = RTake md g mi"
  shows "wp (r_move s) tt_inv"
proof -
  note I = tt_invD [OF inv] and S = slots_okD [OF tt_invD(1) [OF inv]]
  have r: "mi = tb_reader (tt_tb s)" "g = tb_gen (tt_tb s)" "th_buf (tt_r s) = None" using I(8) pc by auto
  obtain d where d: "tb_buffers (tt_tb s) ! mi = Some d" using I(4) r pc by auto
  let ?t = "(tt_tb s)\<lparr>tb_buffers := (tb_buffers (tt_tb s))[mi := None]\<rparr>"
  have "r_move s = Inr (s\<lparr>tt_tb := ?t, tt_r := (tt_r s)\<lparr>th_pc := RLoadLen md g mi d\<rparr>\<rparr>)"
    using pc d r(1) S(1,4) by (simp add: r_move_def Let_def swap_buffer_def not_null_def)
  moreover have "slots_ok ?t" using I(1) r(1) by (auto simp: slots_ok_def nth_list_update)
  then have "tt_inv (s\<lparr>tt_tb := ?t, tt_r := (tt_r s)\<lparr>th_pc := RLoadLen md g mi d\<rparr>\<rparr>)"
    using pc d r S I(10) by (intro tt_reader_frame [OF inv]) auto
  ultimately show ?thesis by simp
qed

lemma r_load_len_ok:
  assumes inv: "tt_inv s" and pc: "th_pc (tt_r s) = RLoadLen md g mi d"
  shows "wp (r_move s) tt_inv"
proof -
  note I = tt_invD [OF inv] and S = slots_okD [OF tt_invD(1) [OF inv]]
  have r: "mi = tb_reader (tt_tb s)" "g = tb_gen (tt_tb s)" "th_buf (tt_r s) = None" "length d = tb_cap (tt_tb s)"
    using I(8) pc by auto
  let ?n = "tb_lens (tt_tb s) ! mi"
  let ?b = "\<lparr>ab_data = d, ab_len = ?n, ab_cap = tb_cap (tt_tb s), ab_align = tb_align (tt_tb s)\<rparr>"
  have n: "?n \<le> tb_cap (tt_tb s)" using S(4,11) r(1) by blast
  have "r_move s = Inr (s\<lparr>tt_tb := tt_tb s, tt_r := (tt_r s)\<lparr>th_pc := RCommit md g, th_buf := Some ?b\<rparr>\<rparr>)"
    using pc r n S(2,4) by (simp add: r_move_def Let_def load_len_def buffer_from_raw_with_len_def)
  moreover have "tt_inv (s\<lparr>tt_tb := tt_tb s, tt_r := (tt_r s)\<lparr>th_pc := RCommit md g, th_buf := Some ?b\<rparr>\<rparr>)"
    using pc r n S I
    by (intro tt_reader_frame [OF inv])
      (auto simp: triple_buf_def geometry_ok_def buffer_capacity_def buffer_alignment_def buffer_deref_def)
  ultimately show ?thesis by simp
qed

lemma r_commit_ok:
  assumes inv: "tt_inv s" and pc: "th_pc (tt_r s) = RCommit md g"
  shows "wp (r_move s) tt_inv"
proof -
  note I = tt_invD [OF inv]
  obtain b where b: "th_buf (tt_r s) = Some b" and g: "g = tb_gen (tt_tb s)" using I(8) pc by auto
  let ?t = "(tt_tb s)\<lparr>tb_last := g\<rparr>"
  have unread: "tb_gen (tt_tb s) \<noteq> tb_last (tt_tb s)" using I(10) pc by simp
  then have w: "\<not> w_core (th_pc (tt_w s))" using I(9) by blast
  have "slots_ok ?t" using I(1) by (simp add: slots_ok_def)
  moreover have "w_ok ?t (th_buf (tt_w s)) (th_pc (tt_w s))" using w_ok_frame [OF I(7), of ?t] w by simp
  ultimately have "tt_inv (s\<lparr>tt_tb := ?t, tt_r := (tt_r s)\<lparr>th_pc := RSignal md Gate\<rparr>,
      tt_received := tt_received s @ [buffer_deref b]\<rparr>)"
    using I pc b g unread w by (auto simp: tt_inv_def triple_buf_def geometry_ok_def)
  then show ?thesis using pc b by (simp add: r_move_def Let_def)
qed

lemma r_move_wp:
  assumes inv: "tt_inv s" and reg: "\<And>q. th_pc (tt_r s) = RReg q \<Longrightarrow> \<exists>r. reg_access (th_cur (tt_r s)) q (tb_rslot (tt_tb s)) = Inr r"
  shows "wp (r_move s) tt_inv"
proof (cases "th_pc (tt_r s)")
  case (RSignal md q)
  obtain ws q' slot where sig: "sig_access q (tb_wslot (tt_tb s)) = (ws, q', slot)" by (cases "sig_access q (tb_wslot (tt_tb s))")
  have "tt_inv (s\<lparr>tt_tb := (tt_tb s)\<lparr>tb_wslot := slot\<rparr>, tt_w := waked ws (tt_w s), tt_r := (tt_r s)\<lparr>th_pc := r_after md q'\<rparr>\<rparr>)"
    using inv RSignal by (auto simp: tt_inv_def)
  then show ?thesis using RSignal sig by (simp add: r_move_def Let_def)
next
  case (RReg q)
  obtain ws q' slot where r: "reg_access (th_cur (tt_r s)) q (tb_rslot (tt_tb s)) = Inr (ws, q', slot)"
    using reg [OF RReg] by auto
  then have "arming q' \<or> q' = Recheck" using reg_access_arming inv RReg by (auto simp: tt_inv_def)
  then have "tt_inv (s\<lparr>tt_tb := (tt_tb s)\<lparr>tb_rslot := slot\<rparr>,
      tt_r := (waked ws (tt_r s))\<lparr>th_pc := (if q' = Recheck then RGen Second else RReg q')\<rparr>\<rparr>)"
    using inv RReg by (auto simp: tt_inv_def)
  then show ?thesis using RReg r by (simp add: r_move_def Let_def)
next
  case (RGen md)
  then show ?thesis using inv by (auto simp: r_move_def Let_def tt_inv_def)
next
  case (RGen2 md)
  then show ?thesis using inv by (auto simp: r_move_def Let_def tt_inv_def)
next
  case (RMid md g)
  then show ?thesis using inv by (auto simp: r_move_def Let_def tt_inv_def)
next
  case RClear
  then show ?thesis using inv by (auto simp: r_move_def Let_def tt_inv_def)
next
  case ROut
  then show ?thesis using inv by (simp add: r_move_def)
next
  case RWaiting
  then show ?thesis using inv by (simp add: r_move_def)
qed (erule r_swap_ok [OF inv] r_len_ok [OF inv] r_midx_ok [OF inv] r_take_ok [OF inv] r_load_len_ok [OF inv]
    r_commit_ok [OF inv])+

lemma tt_inv_init: "tt_init s \<Longrightarrow> tt_inv s"
proof -
  assume init: "tt_init s"
  then obtain alloc el capacity align b where
    new: "triple_new alloc el capacity align = Inr (tt_tb s, b)" and b: "th_buf (tt_w s) = Some b"
    by (auto simp: tt_init_def)
  obtain b0 where "buffer_with_alignment alloc el capacity align = Inr b0"
    using new by (auto simp: triple_new_def rbind_Inr_iff)
  from triple_new_wp [OF this] new b have "triple_ok False (tt_tb s)" "middle_free (tt_tb s)" "triple_buf (tt_tb s) b"
    by auto
  then show ?thesis
    using init b by (auto simp: tt_inv_def tt_init_def slots_ok_def triple_ok_def middle_free_def)
qed

lemma tt_inv_step:
  assumes inv: "tt_inv s" and step: "tt_step s u"
  shows "tt_inv u"
  using step
proof cases
  case (fill b)
  then show ?thesis using inv by (auto simp: tt_inv_def)
next
  case (publish b md)
  then show ?thesis using inv by (auto simp: tt_inv_def)
next
  case writer
  then have "wp (w_move s) tt_inv" by (intro w_move_wp [OF inv]) (auto simp: w_move_def Let_def rbind_Inr_iff)
  then show ?thesis using writer by simp
next
  case (nxt md)
  then show ?thesis using inv by (auto simp: tt_inv_def)
next
  case reader
  then have "wp (r_move s) tt_inv" by (intro r_move_wp [OF inv]) (auto simp: r_move_def Let_def rbind_Inr_iff)
  then show ?thesis using reader by simp
qed

interpretation tt: invariant_system tt_init tt_step tt_inv
  by unfold_locales (auto intro: tt_inv_init tt_inv_step)

end
