(* ===== verification/Triple_Wakeups.thy ===== *)
theory Triple_Wakeups
  imports Triple_Threads
begin

text \<open>
  The wakeups of the interleaved triple buffer: each of its two slots simulates the handshake of \<open>Notify\<close>.
  With it, the properties that hold in every interleaving, and schedules that can be run.
\<close>

section \<open>The wakeups: each slot is a handshake\<close>

fun w_wpc :: "'a wpc \<Rightarrow> waiter_pc" where
  "w_wpc (WLast md) = (if md = Second then Recheck else Idle)"
| "w_wpc (WMid md) = (if md = Second then Disarm else Idle)"
| "w_wpc (WSwap md wi mi) = (if md = Second then Disarm else Idle)"
| "w_wpc (WLen md wi mi b) = (if md = Second then Disarm else Idle)"
| "w_wpc (WMidx md wi mi b) = (if md = Second then Disarm else Idle)"
| "w_wpc (WGen md mi b) = (if md = Second then Disarm else Idle)"
| "w_wpc (WTake md mi) = (if md = Second then Disarm else Idle)"
| "w_wpc (WSignal md q) = (if md = Second then Disarm else Idle)"
| "w_wpc (WReg q) = q" | "w_wpc WClear = Disarm" | "w_wpc WWaiting = Parked" | "w_wpc WOut = Idle"

fun w_spc :: "'a wpc \<Rightarrow> signal_pc" where
  "w_spc (WTake md mi) = Gate" | "w_spc (WSignal md q) = q" | "w_spc _ = Quiet"

fun r_wpc :: "'a rpc \<Rightarrow> waiter_pc" where
  "r_wpc (RGen md) = (if md = Second then Recheck else Idle)"
| "r_wpc (RGen2 md) = (if md = Second then Disarm else Idle)"
| "r_wpc (RMid md g) = (if md = Second then Disarm else Idle)"
| "r_wpc (RSwap md g ri mi) = (if md = Second then Disarm else Idle)"
| "r_wpc (RLen md g ri mi) = (if md = Second then Disarm else Idle)"
| "r_wpc (RMidx md g ri mi) = (if md = Second then Disarm else Idle)"
| "r_wpc (RTake md g mi) = (if md = Second then Disarm else Idle)"
| "r_wpc (RLoadLen md g mi d) = (if md = Second then Disarm else Idle)"
| "r_wpc (RCommit md g) = (if md = Second then Disarm else Idle)"
| "r_wpc (RSignal md q) = (if md = Second then Disarm else Idle)"
| "r_wpc (RReg q) = q" | "r_wpc RClear = Disarm" | "r_wpc RWaiting = Parked" | "r_wpc ROut = Idle"

fun r_spc :: "'a rpc \<Rightarrow> signal_pc" where
  "r_spc (RSignal md q) = q" | "r_spc _ = Quiet"

text \<open>The conditions the sides wait for, which a side that has decided to go ahead has used up.\<close>

definition w_can :: "'a tt_sys \<Rightarrow> bool" where
  "w_can s \<longleftrightarrow> tb_gen (tt_tb s) = tb_last (tt_tb s) \<and> \<not> w_core (th_pc (tt_w s))"

definition r_can :: "'a tt_sys \<Rightarrow> bool" where
  "r_can s \<longleftrightarrow> tb_gen (tt_tb s) \<noteq> tb_last (tt_tb s) \<and> \<not> r_core (th_pc (tt_r s))"

definition w_hs :: "'a tt_sys \<Rightarrow> handshake" where
  "w_hs s = slot_hs (tb_wslot (tt_tb s)) (w_can s) (w_wpc (th_pc (tt_w s))) (th_cur (tt_w s)) (th_woken (tt_w s))
     (r_spc (th_pc (tt_r s)))"

definition r_hs :: "'a tt_sys \<Rightarrow> handshake" where
  "r_hs s = slot_hs (tb_rslot (tt_tb s)) (r_can s) (r_wpc (th_pc (tt_r s))) (th_cur (tt_r s)) (th_woken (tt_r s))
     (w_spc (th_pc (tt_w s)))"

lemmas hs_defs = w_hs_def r_hs_def w_can_def r_can_def

lemma w_spc_simps [simp]: "w_spc (w_after md q) = q" "w_wpc (w_after md q) = (if md = Second then Disarm else Idle)"
  "w_spc (th_pc (w_fail md th)) = Quiet"
  by (cases q; simp)+ (simp add: w_fail_def split: mode.splits)

lemma r_spc_simps [simp]: "r_spc (r_after md q) = q" "r_wpc (r_after md q) = (if md = Second then Disarm else Idle)"
  "r_spc (th_pc (r_fail md th)) = Quiet"
  by (cases q; simp)+ (simp add: r_fail_def split: mode.splits)

text \<open>A failed attempt registers or parks; one that goes ahead uses up the condition.\<close>

lemma hs_decide:
  "hs_opt (slot_hs sl True (if md = Second then Recheck else Idle) c k p)
     (slot_hs sl False (if md = Second then Disarm else Idle) c k p)"
  using hs_opt_recheck [of sl c k p False] hs_opt_consume [of Idle sl c k p False] by simp

lemma hs_w_fail:
  "hs_opt (slot_hs sl False (if md = Second then Recheck else Idle) (th_cur th) (th_woken th) p)
     (slot_hs sl False (w_wpc (th_pc (w_fail md th))) (th_cur (w_fail md th)) (th_woken (w_fail md th)) p)"
  using hs_opt_park [of sl False "th_cur th" "th_woken th" p] hs_opt_poll [of sl False "th_cur th" "th_woken th" p]
  by (cases md) (simp_all add: w_fail_def)

lemma hs_r_fail:
  "hs_opt (slot_hs sl False (if md = Second then Recheck else Idle) (th_cur th) (th_woken th) p)
     (slot_hs sl False (r_wpc (th_pc (r_fail md th))) (th_cur (r_fail md th)) (th_woken (r_fail md th)) p)"
  using hs_opt_park [of sl False "th_cur th" "th_woken th" p] hs_opt_poll [of sl False "th_cur th" "th_woken th" p]
  by (cases md) (simp_all add: r_fail_def)

lemma hs_idle: "q = Idle \<or> q = Parked \<Longrightarrow> hs_opt (slot_hs sl a q c k p) (slot_hs sl a Idle c k p)"
  using hs_opt_cancel by auto

lemma w_hs_writer:
  assumes inv: "tt_inv s" and move: "w_move s = Inr u"
  shows "hs_opt (w_hs s) (w_hs u)"
proof (cases "th_pc (tt_w s)")
  case (WLast md)
  show ?thesis
  proof (cases "tb_gen (tt_tb s) = tb_last (tt_tb s)")
    case True
    then show ?thesis using WLast move hs_decide [of "tb_wslot (tt_tb s)" md] by (auto simp: w_move_def Let_def hs_defs)
  next
    case False
    then show ?thesis using WLast move hs_w_fail [of "tb_wslot (tt_tb s)" md "tt_w s"] by (auto simp: w_move_def Let_def hs_defs)
  qed
next
  case (WReg q)
  then show ?thesis
    using move reg_access_step [of "th_cur (tt_w s)" q "tb_wslot (tt_tb s)" _ _ _ "w_can s" "th_woken (tt_w s)" "r_spc (th_pc (tt_r s))"]
    by (auto simp: w_move_def Let_def hs_defs rbind_Inr_iff waked_def)
next
  case WClear
  then show ?thesis using move hs_opt_disarm by (auto simp: w_move_def Let_def hs_defs)
next
  case (WGen md mi b)
  then show ?thesis using move inv by (auto simp: w_move_def Let_def hs_defs tt_inv_def)
qed (use inv move in \<open>auto simp: w_move_def Let_def hs_defs tt_inv_def rbind_Inr_iff swap_buffer_def store_len_def split: option.splits if_splits prod.splits\<close>)

lemma r_hs_writer:
  assumes inv: "tt_inv s" and move: "w_move s = Inr u"
  shows "hs_opt (r_hs s) (r_hs u)"
proof (cases "th_pc (tt_w s)")
  case (WGen md mi b)
  then have free: "tb_gen (tt_tb s) = tb_last (tt_tb s)" and r: "\<not> r_core (th_pc (tt_r s))"
    using inv by (auto simp: tt_inv_def)
  then show ?thesis using WGen move hs_opt_publish by (auto simp: w_move_def Let_def hs_defs)
next
  case (WSignal md q)
  then show ?thesis
    using move sig_access_step [of q "tb_rslot (tt_tb s)"]
    by (auto simp: w_move_def Let_def hs_defs waked_def split: prod.splits)
qed (use inv move in \<open>auto simp: w_move_def Let_def hs_defs tt_inv_def rbind_Inr_iff swap_buffer_def store_len_def
      split: option.splits if_splits prod.splits\<close>)

lemma r_hs_reader:
  assumes inv: "tt_inv s" and move: "r_move s = Inr u"
  shows "hs_opt (r_hs s) (r_hs u)"
proof (cases "th_pc (tt_r s)")
  case (RGen md)
  show ?thesis
  proof (cases "tb_gen (tt_tb s) = tb_last (tt_tb s)")
    case True
    then show ?thesis
      using RGen move hs_r_fail [of "tb_rslot (tt_tb s)" md "tt_r s"] by (auto simp: r_move_def Let_def hs_defs)
  next
    case False
    then show ?thesis using RGen move hs_decide [of "tb_rslot (tt_tb s)" md] by (auto simp: r_move_def Let_def hs_defs)
  qed
next
  case (RReg q)
  then show ?thesis
    using move reg_access_step [of "th_cur (tt_r s)" q "tb_rslot (tt_tb s)"]
    by (auto simp: r_move_def Let_def hs_defs rbind_Inr_iff waked_def)
next
  case RClear
  then show ?thesis using move hs_opt_disarm by (auto simp: r_move_def Let_def hs_defs)
qed (use inv move in \<open>auto simp: r_move_def Let_def hs_defs tt_inv_def rbind_Inr_iff swap_buffer_def store_len_def
      split: option.splits if_splits prod.splits\<close>)

lemma w_hs_reader:
  assumes inv: "tt_inv s" and move: "r_move s = Inr u"
  shows "hs_opt (w_hs s) (w_hs u)"
proof (cases "th_pc (tt_r s)")
  case (RCommit md g)
  then have "g = tb_gen (tt_tb s)" "\<not> w_core (th_pc (tt_w s))" "tb_gen (tt_tb s) \<noteq> tb_last (tt_tb s)"
    using inv by (auto simp: tt_inv_def)
  then show ?thesis using RCommit move hs_opt_publish by (auto simp: r_move_def Let_def hs_defs)
next
  case (RSignal md q)
  then show ?thesis
    using move sig_access_step [of q "tb_wslot (tt_tb s)"]
    by (auto simp: r_move_def Let_def hs_defs waked_def split: prod.splits)
qed (use inv move in \<open>auto simp: r_move_def Let_def hs_defs tt_inv_def rbind_Inr_iff swap_buffer_def store_len_def
      split: option.splits if_splits prod.splits\<close>)

lemma tt_hs_step:
  assumes inv: "tt_inv s" and step: "tt_step s u"
  shows "hs_opt (w_hs s) (w_hs u)" "hs_opt (r_hs s) (r_hs u)"
proof -
  from step show "hs_opt (w_hs s) (w_hs u)"
  proof cases
    case (fill b)
    then show ?thesis using hs_idle by (auto simp: hs_defs)
  next
    case (publish b md)
    then show ?thesis using hs_idle by (auto simp: hs_defs)
  next
    case (nxt md)
    then show ?thesis by (auto simp: hs_defs)
  qed (auto intro: w_hs_writer [OF inv] w_hs_reader [OF inv])
  from step show "hs_opt (r_hs s) (r_hs u)"
  proof cases
    case (nxt md)
    then show ?thesis using hs_idle by (auto simp: hs_defs)
  qed (auto simp: hs_defs intro: r_hs_writer [OF inv, unfolded hs_defs] r_hs_reader [OF inv, unfolded hs_defs])
qed

lemma triple_new_slots:
  "triple_new alloc el capacity align = Inr (t, b) \<Longrightarrow> tb_rslot t = slot_new \<and> tb_wslot t = slot_new"
  by (auto simp: triple_new_def rbind_Inr_iff)

lemma tt_hs_init: "tt_init s \<Longrightarrow> hs_init (w_hs s) \<and> hs_init (r_hs s)"
  using triple_new_slots
  by (fastforce simp: tt_init_def hs_init_def hs_defs slot_new_def atomic_waker_new_def fun_upd_idem)

interpretation tt_writer: simulation tt_init tt_step tt_inv hs_init hs_step w_hs
  by unfold_locales (use tt_hs_init tt_hs_step(1) in \<open>auto simp: hs_opt_def\<close>)

interpretation tt_reader: simulation tt_init tt_step tt_inv hs_init hs_step r_hs
  by unfold_locales (use tt_hs_init tt_hs_step(2) in \<open>auto simp: hs_opt_def\<close>)

lemma tt_handshakes:
  assumes "reach tt_init tt_step n s"
  shows "hs_inv (w_hs s)" "hs_inv (r_hs s)"
  using tt_writer.simulated [OF assms] tt_reader.simulated [OF assms] hs.reachable_inv by blast+

section \<open>Schedules\<close>

text \<open>A schedule, executable: the next access of a thread, or a new call where one may start.\<close>

datatype 'a tt_act = W | R | Fill "'a aligned_buffer" | Publish mode | Next mode

fun tt_do :: "'a tt_act \<Rightarrow> 'a tt_sys \<Rightarrow> 'a tt_sys res" where
  "tt_do W s = w_move s"
| "tt_do R s = r_move s"
| "tt_do (Fill b) s =
     Inr (if (case th_pc (tt_w s) of WOut \<Rightarrow> True | WWaiting \<Rightarrow> True | _ \<Rightarrow> False) \<and> triple_buf (tt_tb s) b
          then s\<lparr>tt_w := (tt_w s)\<lparr>th_pc := WOut, th_buf := Some b\<rparr>\<rparr> else s)"
| "tt_do (Publish md) s =
     Inr (if (case th_pc (tt_w s) of WOut \<Rightarrow> True | WWaiting \<Rightarrow> True | _ \<Rightarrow> False) \<and> md \<noteq> Second \<and>
             (case th_buf (tt_w s) of Some b \<Rightarrow> geometry_ok b (tt_tb s) | None \<Rightarrow> False)
          then s\<lparr>tt_w := (tt_w s)\<lparr>th_pc := WLast md\<rparr>\<rparr> else s)"
| "tt_do (Next md) s =
     Inr (if (case th_pc (tt_r s) of ROut \<Rightarrow> True | RWaiting \<Rightarrow> True | _ \<Rightarrow> False) \<and> md \<noteq> Second \<and>
             (case th_buf (tt_r s) of Some b \<Rightarrow> geometry_ok b (tt_tb s) | None \<Rightarrow> True)
          then s\<lparr>tt_r := (tt_r s)\<lparr>th_pc := RGen md\<rparr>\<rparr> else s)"

lemma tt_do_opt: "tt_do a s = Inr u \<Longrightarrow> u = s \<or> tt_step s u"
  by (cases a) (auto intro: tt_step.intros split: if_splits wpc.splits rpc.splits option.splits)

interpretation tt_schedule: scheduler tt_init tt_step tt_inv tt_do
  by unfold_locales (rule tt_do_opt)

section \<open>Correctness in every interleaving\<close>

text \<open>
  A run: the writer publishes, then polls with waker 3 to publish again and parks; the reader takes the
  first buffer and its signal calls waker 3.
\<close>

definition tt_buf :: "nat list \<Rightarrow> nat \<Rightarrow> nat aligned_buffer" where
  "tt_buf d n = \<lparr>ab_data = d, ab_len = n, ab_cap = 2, ab_align = 8\<rparr>"

definition tt_demo :: "nat tt_sys" where
  "tt_demo = \<lparr>tt_tb = \<lparr>tb_buffers = [None, Some [0, 0], Some [0, 0]], tb_lens = [0, 0, 0], tb_cap = 2, tb_align = 8,
       tb_writer = 0, tb_reader = 1, tb_middle = 2, tb_gen = 0, tb_last = 0, tb_rslot = slot_new, tb_wslot = slot_new\<rparr>,
     tt_w = \<lparr>th_pc = WOut, th_buf = Some (tt_buf [0, 0] 0), th_cur = 0, th_woken = False\<rparr>,
     tt_r = \<lparr>th_pc = ROut, th_buf = None, th_cur = 0, th_woken = False\<rparr>, tt_published = [], tt_received = []\<rparr>"

definition tt_acts :: "nat tt_act list" where
  "tt_acts = [Fill (tt_buf [5, 6] 2), Publish Plain, W, W, W, W, W, W, W, W,
     Fill (tt_buf [7, 8] 1), Publish (First 3), W, W, W, W, W, W,
     Next Plain, R, R, R, R, R, R, R, R, R, R, R, R, R, R]"

definition tt_end :: "nat tt_sys" where
  "tt_end = projr (run tt_do tt_acts tt_demo)"

lemma tt_demo_start: "reach tt_init tt_step 0 tt_demo"
proof (rule reach.start)
  have "is_power_of_two 8" "replicate 2 (0::nat) = [0, 0]" by code_simp+
  then have "triple_new (\<lambda>_. True) \<lparr>el_size = 8, el_align = 8, el_zero = 0\<rparr> 2 8 = Inr (tt_tb tt_demo, tt_buf [0, 0] 0)"
    by (simp add: triple_new_def buffer_with_alignment_def layout_for_def buffer_into_raw_def tt_demo_def tt_buf_def)
  then show "tt_init tt_demo" by (auto simp: tt_init_def) (auto simp: tt_demo_def)
qed

lemma tt_end:
  "run tt_do tt_acts tt_demo = Inr tt_end" "th_pc (tt_w tt_end) = WWaiting" "th_pc (tt_r tt_end) = ROut"
  "middle_free (tt_tb tt_end)" "tt_received tt_end = [[5, 6]]"
  by code_simp+

lemma tt_end_reach: "\<exists>n. reach tt_init tt_step n tt_end"
  by (rule tt_schedule.run_reach [OF tt_demo_start tt_end(1)])

text \<open>
  C26. Safety in every interleaving: no access panics, in particular the writer's and the reader's slots
  are empty and the middle is full where the code asserts it; the two sides are never both rotating the
  middle; the reader receives the published contents in order, at most one behind; and the three buffers
  are always in the slots or in somebody's hands.
\<close>

theorem triple_threads_safe:
  assumes "reach tt_init tt_step n s"
  shows "(\<exists>u. w_move s = Inr u) \<and> (\<exists>u. r_move s = Inr u) \<and>
    \<not> (w_core (th_pc (tt_w s)) \<and> r_core (th_pc (tt_r s))) \<and>
    (\<exists>xs. tt_published s = tt_received s @ xs \<and> length xs \<le> 1) \<and>
    length (List.map_filter (\<lambda>p. p) (tb_buffers (tt_tb s))) + in_hand (th_buf (tt_w s)) + in_hand (th_buf (tt_r s)) +
      (if r_holds (th_pc (tt_r s)) then 1 else 0) = 3"
proof -
  have inv: "tt_inv s" by (rule tt.reachable_inv [OF assms])
  note I = tt_invD [OF inv] and S = slots_okD [OF tt_invD(1) [OF inv]]
  have "wp (w_move s) tt_inv"
    using reg_access_ok [OF tt_handshakes(1) [OF assms, unfolded w_hs_def]] by (intro w_move_wp [OF inv]) auto
  moreover have "wp (r_move s) tt_inv"
    using reg_access_ok [OF tt_handshakes(2) [OF assms, unfolded r_hs_def]] by (intro r_move_wp [OF inv]) auto
  moreover have "\<exists>xs. tt_published s = tt_received s @ xs \<and> length xs \<le> 1" using I(11) by simp
  moreover have "r_holds (th_pc (tt_r s)) \<Longrightarrow> th_buf (tt_r s) = None" using I(8) by (cases "th_pc (tt_r s)") auto
  then have "length (List.map_filter (\<lambda>p. p) (tb_buffers (tt_tb s))) + in_hand (th_buf (tt_w s)) +
      in_hand (th_buf (tt_r s)) + (if r_holds (th_pc (tt_r s)) then 1 else 0) = 3"
    using map_filter_three [OF S(1,3,4,5)] S(6-9) I(3,4) by (auto simp: in_hand_def)
  ultimately show ?thesis using I(9,10) by (auto simp: wp_ex)
qed

theorem triple_threads_safe_witness:
  "\<exists>n. reach tt_init tt_step n tt_end \<and> (\<exists>xs. tt_published tt_end = [[5, 6]] @ xs \<and> length xs \<le> 1)"
proof -
  obtain n where n: "reach tt_init tt_step n tt_end" using tt_end_reach ..
  from triple_threads_safe [OF n] n tt_end(5) show ?thesis by auto
qed

text \<open>
  C27. No lost wakeup in any interleaving: a writer whose publish is pending while the middle is free, and
  whose reader is not just signalling, has been woken; likewise a reader while a buffer is unread; and the
  two are never both asleep.
\<close>

theorem triple_threads_no_lost_wakeup:
  assumes "reach tt_init tt_step n s"
  shows "(th_pc (tt_w s) = WWaiting \<and> r_spc (th_pc (tt_r s)) = Quiet \<and> middle_free (tt_tb s) \<longrightarrow> th_woken (tt_w s)) \<and>
    (th_pc (tt_r s) = RWaiting \<and> w_spc (th_pc (tt_w s)) = Quiet \<and> has_unread (tt_tb s) \<longrightarrow> th_woken (tt_r s)) \<and>
    (th_pc (tt_w s) = WWaiting \<and> th_pc (tt_r s) = RWaiting \<longrightarrow> th_woken (tt_w s) \<or> th_woken (tt_r s))"
proof -
  have w: "th_woken (tt_w s)" if "th_pc (tt_w s) = WWaiting" "r_spc (th_pc (tt_r s)) = Quiet" "middle_free (tt_tb s)"
    using tt_handshakes(1) [OF assms] that by (auto simp: w_hs_def w_can_def middle_free_def intro: slot_hs_told)
  have r: "th_woken (tt_r s)" if "th_pc (tt_r s) = RWaiting" "w_spc (th_pc (tt_w s)) = Quiet" "has_unread (tt_tb s)"
    using tt_handshakes(2) [OF assms] that by (auto simp: r_hs_def r_can_def has_unread_def intro: slot_hs_told)
  show ?thesis using w r by (cases "has_unread (tt_tb s)") (auto simp: free_unread)
qed

theorem triple_threads_no_lost_wakeup_witness:
  "\<exists>n. reach tt_init tt_step n tt_end \<and> th_pc (tt_w tt_end) = WWaiting \<and> th_woken (tt_w tt_end)"
proof -
  obtain n where n: "reach tt_init tt_step n tt_end" using tt_end_reach ..
  from triple_threads_no_lost_wakeup [OF n] n tt_end(2-4) show ?thesis by auto
qed

end
