(* ===== verification/BipBuf.thy ===== *)
theory BipBuf
  imports Notify Buffer
begin

unbundle bit_operations_syntax

text \<open>
  The bip buffer of \<open>src/src/site_d/bipbuffer.rs\<close>: a byte ring that hands out one contiguous region
  per reservation. Three cursors delimit the unread bytes: from \<open>read\<close> to \<open>write\<close>, or, when inverted
  (\<open>write < read\<close>), from \<open>read\<close> to the watermark \<open>last\<close> and then from the head to \<open>write\<close>. Each call
  is atomic here; \<open>Bip_Seqlock\<close> interleaves the single accesses of the two sides.
\<close>

section \<open>Shared state\<close>

type_synonym byte = "8 word"

definition u8_elem :: "byte elem" where
  "u8_elem = \<lparr>el_size = 1, el_align = 1, el_zero = 0\<rparr>"

record bip =
  bp_buf :: "byte aligned_buffer"
  bp_cap :: nat
  bp_write :: nat
  bp_read :: nat
  bp_last :: nat
  bp_epoch :: usize
  bp_wip :: bool
  bp_rip :: bool
  bp_data :: waiter_slot
  bp_space :: waiter_slot

definition bip_buffer_aligned :: "(layout \<Rightarrow> bool) \<Rightarrow> nat \<Rightarrow> nat \<Rightarrow> bip res" where
  "bip_buffer_aligned alloc cap align =
     rbind (buffer_with_alignment alloc u8_elem cap align) (\<lambda>buf.
       Inr \<lparr>bp_buf = buf, bp_cap = cap, bp_write = 0, bp_read = 0, bp_last = cap, bp_epoch = 0,
            bp_wip = False, bp_rip = False, bp_data = slot_new, bp_space = slot_new\<rparr>)"

definition bip_buffer :: "(layout \<Rightarrow> bool) \<Rightarrow> nat \<Rightarrow> bip res" where
  "bip_buffer alloc cap = bip_buffer_aligned alloc cap 1"

text \<open>\<open>space.signal()\<close> and \<open>data.signal()\<close>.\<close>

definition signal_space :: "bip \<Rightarrow> waker list \<times> bip" where
  "signal_space t = (let (ws, s) = slot_signal (bp_space t) in (ws, t\<lparr>bp_space := s\<rparr>))"

definition signal_data :: "bip \<Rightarrow> waker list \<times> bip" where
  "signal_data t = (let (ws, s) = slot_signal (bp_data t) in (ws, t\<lparr>bp_data := s\<rparr>))"

text \<open>The reset of the stranded cursors of a drained buffer.\<close>

definition reset_cursors :: "bip \<Rightarrow> bip" where
  "reset_cursors t =
     (let t1 = t\<lparr>bp_epoch := bp_epoch t + 1\<rparr>;
          t2 = t1\<lparr>bp_read := 0, bp_write := 0, bp_last := bp_cap t1\<rparr>
      in t2\<lparr>bp_epoch := bp_epoch t2 + 1\<rparr>)"

text \<open>Where a reservation of \<open>n\<close> bytes starts.\<close>

definition pick_start :: "nat \<Rightarrow> nat \<Rightarrow> nat \<Rightarrow> nat \<Rightarrow> nat option res" where
  "pick_start cap read write n =
     (if write < read then
        rbind (usize_sub read write) (\<lambda>gap. Inr (if n < gap then Some write else None))
      else
        rbind (usize_sub cap write) (\<lambda>tail.
          Inr (if n \<le> tail then Some write else if n < read then Some 0 else None)))"

definition inner_try_reserve :: "nat \<Rightarrow> bip \<Rightarrow> ((nat \<times> nat) option \<times> bip) res" where
  "inner_try_reserve n t =
     (if bp_wip t then Inr (None, t)
      else if n > bp_cap t then Inr (None, t)
      else
        (let t1 = (if bp_read t = bp_write t \<and> bp_write t \<noteq> 0 then reset_cursors t else t)
         in rbind (pick_start (bp_cap t1) (bp_read t1) (bp_write t1) n) (\<lambda>start.
              case start of
                None \<Rightarrow> Inr (None, t1)
              | Some start \<Rightarrow> Inr (Some (start, n), t1\<lparr>bp_wip := True\<rparr>))))"

text \<open>
  The consumer's loop around the cursor loads. No other thread moves during a call here, so the loop
  leaves at its first pass or spins forever, which is \<open>None\<close>.
\<close>

partial_function (option) snapshot :: "bip \<Rightarrow> (nat \<times> nat \<times> nat) option" where
  "snapshot t =
     (let e1 = bp_epoch t in
      if e1 AND 1 = 1 then snapshot t
      else
        (let write = bp_write t; read = bp_read t; mark = bp_last t in
         if bp_epoch t = e1 then Some (write, read, mark) else snapshot t))"

definition inner_try_read :: "bip \<Rightarrow> ((nat \<times> nat) option \<times> waker list \<times> bip) res" where
  "inner_try_read t =
     (if bp_rip t then Inr (None, [], t)
      else
        (case snapshot t of
           None \<Rightarrow> Inl NoReturn
         | Some (write, read, mark) \<Rightarrow>
             (let (read1, ws, t1) =
                    (if write < read \<and> read = mark
                     then (let (ws, t') = signal_space (t\<lparr>bp_read := 0\<rparr>) in (0, ws, t'))
                     else (read, [], t));
                  avail_end = (if write < read1 then mark else write)
              in rbind (usize_sub avail_end read1) (\<lambda>len.
                   if len = 0 then Inr (None, ws, t1)
                   else Inr (Some (read1, len), ws, t1\<lparr>bp_rip := True\<rparr>)))))"

section \<open>Grants\<close>

record grant =
  gr_start :: nat
  gr_len :: nat
  gr_handed_back :: bool

definition try_reserve :: "nat \<Rightarrow> bip \<Rightarrow> (grant option \<times> bip) res" where
  "try_reserve n t =
     rbind (inner_try_reserve n t) (\<lambda>(r, t').
       Inr (map_option (\<lambda>(start, len). \<lparr>gr_start = start, gr_len = len, gr_handed_back = False\<rparr>) r, t'))"

definition bip_try_read :: "bip \<Rightarrow> (grant option \<times> waker list \<times> bip) res" where
  "bip_try_read t =
     rbind (inner_try_read t) (\<lambda>(r, ws, t').
       Inr (map_option (\<lambda>(start, len). \<lparr>gr_start = start, gr_len = len, gr_handed_back = False\<rparr>) r, ws, t'))"

text \<open>A \<open>Reserve\<close> future is its request size.\<close>

definition bip_reserve :: "nat \<Rightarrow> bip \<Rightarrow> nat res" where
  "bip_reserve n t =
     rbind (rassert (n \<le> bp_cap t) (Assertion ''reserve exceeds bip-buffer capacity'')) (\<lambda>_. Inr n)"

definition bip_capacity :: "bip \<Rightarrow> nat" where
  "bip_capacity t = bp_cap t"

text \<open>
  Writing \<open>xs\<close> at offset \<open>i\<close> of \<open>as_mut_slice\<close>. The slice is made from the raw pointer, so it must lie
  within the backing memory.
\<close>

definition grant_write :: "grant \<Rightarrow> nat \<Rightarrow> byte list \<Rightarrow> bip \<Rightarrow> bip res" where
  "grant_write g i xs t =
     rbind (rassert (gr_start g + gr_len g \<le> length (ab_data (bp_buf t))) OutOfBounds) (\<lambda>_.
     rbind (rassert (i + length xs \<le> gr_len g) OutOfBounds) (\<lambda>_.
     rbind (write_at (gr_start g + i) xs (gr_start g + gr_len g) (ab_data (bp_buf t))) (\<lambda>d.
       Inr (t\<lparr>bp_buf := (bp_buf t)\<lparr>ab_data := d\<rparr>\<rparr>))))"

definition grant_slice :: "grant \<Rightarrow> bip \<Rightarrow> byte list res" where
  "grant_slice g t =
     rbind (rassert (gr_start g + gr_len g \<le> length (ab_data (bp_buf t))) OutOfBounds) (\<lambda>_.
       Inr (take (gr_len g) (drop (gr_start g) (ab_data (bp_buf t)))))"

definition grant_size :: "grant \<Rightarrow> nat" where
  "grant_size g = gr_len g"

definition grant_is_empty :: "grant \<Rightarrow> bool" where
  "grant_is_empty g \<longleftrightarrow> gr_len g = 0"

definition write_grant_drop :: "grant \<Rightarrow> bip \<Rightarrow> waker list \<times> bip" where
  "write_grant_drop g t =
     (if gr_handed_back g then ([], t)
      else
        (let old = bp_wip t; t1 = t\<lparr>bp_wip := False\<rparr> in
         if old then signal_space t1 else ([], t1)))"

definition commit :: "nat \<Rightarrow> grant \<Rightarrow> bip \<Rightarrow> (waker list \<times> bip) res" where
  "commit used g t =
     (let used = min used (gr_len g);
          g1 = g\<lparr>gr_handed_back := True\<rparr>;
          write = bp_write t;
          t1 = (if gr_start g1 = 0 \<and> write \<noteq> 0 then t\<lparr>bp_last := write\<rparr> else t)
      in rbind (usize_add True (gr_start g1) used) (\<lambda>w.
           let t2 = t1\<lparr>bp_write := w\<rparr>;
               t3 = t2\<lparr>bp_wip := False\<rparr>;
               (ws1, t4) = signal_space t3;
               (ws2, t5) = signal_data t4;
               (ws3, t6) = write_grant_drop g1 t5
           in Inr (ws1 @ ws2 @ ws3, t6)))"

definition read_grant_drop :: "grant \<Rightarrow> bip \<Rightarrow> waker list \<times> bip" where
  "read_grant_drop g t =
     (if gr_handed_back g then ([], t) else signal_data (t\<lparr>bp_rip := False\<rparr>))"

definition release :: "nat \<Rightarrow> grant \<Rightarrow> bip \<Rightarrow> (waker list \<times> bip) res" where
  "release used g t =
     (let used = min used (gr_len g);
          g1 = g\<lparr>gr_handed_back := True\<rparr>;
          read = bp_read t
      in rbind (usize_add True read used) (\<lambda>r.
           let t1 = t\<lparr>bp_read := r\<rparr>;
               t2 = t1\<lparr>bp_rip := False\<rparr>;
               (ws1, t3) = signal_data t2;
               (ws2, t4) = signal_space t3;
               (ws3, t5) = read_grant_drop g1 t4
           in Inr (ws1 @ ws2 @ ws3, t5)))"

definition reserve_poll :: "nat \<Rightarrow> waker \<Rightarrow> bip \<Rightarrow> (grant poll \<times> waker list \<times> bip) res" where
  "reserve_poll n waker t =
     rbind (try_reserve n t) (\<lambda>(r, t1).
       case r of
         Some g \<Rightarrow> Inr (Ready g, [], t1)
       | None \<Rightarrow>
           rbind (slot_arm waker (bp_space t1)) (\<lambda>(ws, slot).
           rbind (try_reserve n (t1\<lparr>bp_space := slot\<rparr>)) (\<lambda>(r2, t2).
             case r2 of
               Some g \<Rightarrow> Inr (Ready g, ws, t2\<lparr>bp_space := slot_disarm (bp_space t2)\<rparr>)
             | None \<Rightarrow> Inr (Pending, ws, t2))))"

definition read_poll :: "waker \<Rightarrow> bip \<Rightarrow> (grant poll \<times> waker list \<times> bip) res" where
  "read_poll waker t =
     rbind (bip_try_read t) (\<lambda>(r, ws, t1).
       case r of
         Some g \<Rightarrow> Inr (Ready g, ws, t1)
       | None \<Rightarrow>
           rbind (slot_arm waker (bp_data t1)) (\<lambda>(ws1, slot).
           rbind (bip_try_read (t1\<lparr>bp_data := slot\<rparr>)) (\<lambda>(r2, ws2, t2).
             case r2 of
               Some g \<Rightarrow> Inr (Ready g, ws @ ws1 @ ws2, t2\<lparr>bp_data := slot_disarm (bp_data t2)\<rparr>)
             | None \<Rightarrow> Inr (Pending, ws @ ws1 @ ws2, t2))))"

section \<open>Invariant\<close>

text \<open>\<open>part d a b\<close>: the bytes from \<open>a\<close> up to \<open>b\<close>.\<close>

definition part :: "'a list \<Rightarrow> nat \<Rightarrow> nat \<Rightarrow> 'a list" where
  "part d a b = take (b - a) (drop a d)"

text \<open>The unread bytes.\<close>

definition contents :: "bip \<Rightarrow> byte list" where
  "contents t =
     (if bp_write t < bp_read t
      then part (ab_data (bp_buf t)) (bp_read t) (bp_last t) @ part (ab_data (bp_buf t)) 0 (bp_write t)
      else part (ab_data (bp_buf t)) (bp_read t) (bp_write t))"

lemma contents_simps [simp]:
  "contents (t\<lparr>bp_wip := b\<rparr>) = contents t" "contents (t\<lparr>bp_rip := b\<rparr>) = contents t"
  "contents (t\<lparr>bp_space := s\<rparr>) = contents t" "contents (t\<lparr>bp_data := s\<rparr>) = contents t"
  by (simp_all add: contents_def)

definition drained :: "bip \<Rightarrow> bool" where
  "drained t \<longleftrightarrow> bp_read t = bp_write t"

definition cursors_ok :: "bip \<Rightarrow> bool" where
  "cursors_ok t \<longleftrightarrow>
     length (ab_data (bp_buf t)) = bp_cap t \<and> bp_cap t < usize_bound \<and>
     bp_write t \<le> bp_cap t \<and> bp_read t \<le> bp_cap t \<and> bp_last t \<le> bp_cap t \<and>
     (bp_write t < bp_read t \<longrightarrow> bp_read t \<le> bp_last t) \<and>
     even (bp_epoch t) \<and> slot_ok (bp_data t) \<and> slot_ok (bp_space t)"

text \<open>
  A write grant starts at the write cursor and ends before the read cursor if inverted, or it starts at
  the head and ends before the read cursor while the unread bytes are in the tail. A read grant is a
  prefix of the first unread run.
\<close>

definition write_grant_ok :: "grant \<Rightarrow> bip \<Rightarrow> bool" where
  "write_grant_ok g t \<longleftrightarrow> \<not> gr_handed_back g \<and> gr_start g + gr_len g \<le> bp_cap t \<and>
     (gr_start g = bp_write t \<and> (bp_write t < bp_read t \<longrightarrow> gr_start g + gr_len g < bp_read t) \<or>
      gr_start g = 0 \<and> bp_read t \<le> bp_write t \<and> gr_len g < bp_read t)"

definition read_grant_ok :: "grant \<Rightarrow> bip \<Rightarrow> bool" where
  "read_grant_ok g t \<longleftrightarrow> \<not> gr_handed_back g \<and> gr_start g = bp_read t \<and> 0 < gr_len g \<and>
     gr_start g + gr_len g \<le> (if bp_write t < bp_read t then bp_last t else bp_write t)"

definition bip_ok :: "grant option \<Rightarrow> grant option \<Rightarrow> bip \<Rightarrow> bool" where
  "bip_ok wg rg t \<longleftrightarrow> cursors_ok t \<and>
     (bp_wip t \<longleftrightarrow> wg \<noteq> None) \<and> (bp_rip t \<longleftrightarrow> rg \<noteq> None) \<and>
     (\<forall>g. wg = Some g \<longrightarrow> write_grant_ok g t) \<and> (\<forall>g. rg = Some g \<longrightarrow> read_grant_ok g t)"

lemma signal_space_simps [simp]:
  "bp_buf (snd (signal_space t)) = bp_buf t" "bp_cap (snd (signal_space t)) = bp_cap t"
  "bp_write (snd (signal_space t)) = bp_write t" "bp_read (snd (signal_space t)) = bp_read t"
  "bp_last (snd (signal_space t)) = bp_last t" "bp_epoch (snd (signal_space t)) = bp_epoch t"
  "bp_wip (snd (signal_space t)) = bp_wip t" "bp_rip (snd (signal_space t)) = bp_rip t"
  "bp_data (snd (signal_space t)) = bp_data t"
  "bp_space (snd (signal_space t)) = snd (slot_signal (bp_space t))"
  "fst (signal_space t) = fst (slot_signal (bp_space t))"
  by (simp_all add: signal_space_def split_def Let_def)

lemma signal_data_simps [simp]:
  "bp_buf (snd (signal_data t)) = bp_buf t" "bp_cap (snd (signal_data t)) = bp_cap t"
  "bp_write (snd (signal_data t)) = bp_write t" "bp_read (snd (signal_data t)) = bp_read t"
  "bp_last (snd (signal_data t)) = bp_last t" "bp_epoch (snd (signal_data t)) = bp_epoch t"
  "bp_wip (snd (signal_data t)) = bp_wip t" "bp_rip (snd (signal_data t)) = bp_rip t"
  "bp_space (snd (signal_data t)) = bp_space t"
  "bp_data (snd (signal_data t)) = snd (slot_signal (bp_data t))"
  "fst (signal_data t) = fst (slot_signal (bp_data t))"
  by (simp_all add: signal_data_def split_def Let_def)

lemma odd_epoch: "(e :: usize) AND 1 = 1 \<longleftrightarrow> odd e"
  by (simp add: and_one_eq odd_iff_mod_2_eq_one)

lemma snapshot_ok: "cursors_ok t \<Longrightarrow> snapshot t = Some (bp_write t, bp_read t, bp_last t)"
  by (subst snapshot.simps) (simp add: cursors_ok_def odd_epoch)

section \<open>Specifications\<close>

text \<open>When a reservation of \<open>n\<close> bytes fits.\<close>

definition fits :: "nat \<Rightarrow> bip \<Rightarrow> bool" where
  "fits n t \<longleftrightarrow> n \<le> bp_cap t \<and>
     (bp_read t = bp_write t \<or>
      (if bp_write t < bp_read t then bp_write t + n < bp_read t
       else bp_write t + n \<le> bp_cap t \<or> n < bp_read t))"

definition reserve_start :: "nat \<Rightarrow> bip \<Rightarrow> nat" where
  "reserve_start n t =
     (if bp_write t < bp_read t \<or> bp_write t + n \<le> bp_cap t then bp_write t else 0)"

lemma try_reserve_busy: "bp_wip t \<or> n > bp_cap t \<Longrightarrow> try_reserve n t = Inr (None, t)"
  by (auto simp: try_reserve_def inner_try_reserve_def)

lemma try_reserve_eval:
  assumes "cursors_ok t" "\<not> bp_wip t" "n \<le> bp_cap t" "bp_read t = bp_write t \<Longrightarrow> bp_write t = 0"
  shows "try_reserve n t =
    Inr (if fits n t
         then (Some \<lparr>gr_start = reserve_start n t, gr_len = n, gr_handed_back = False\<rparr>, t\<lparr>bp_wip := True\<rparr>)
         else (None, t))"
proof -
  have le: "bp_write t \<le> bp_cap t" using assms(1) by (simp add: cursors_ok_def)
  show ?thesis
  proof (cases "bp_write t < bp_read t")
    case True
    then show ?thesis
      using assms(2-4)
      by (auto simp: try_reserve_def inner_try_reserve_def pick_start_def fits_def reserve_start_def usize_sub_def Let_def less_diff_conv)
  next
    case False
    then show ?thesis
      using assms(2-4) le
      by (auto simp: try_reserve_def inner_try_reserve_def pick_start_def fits_def reserve_start_def usize_sub_def Let_def le_diff_conv2)
  qed
qed

lemma try_reserve_drained:
  assumes "\<not> bp_wip t" "n \<le> bp_cap t" "bp_read t = bp_write t" "bp_write t \<noteq> 0"
  shows "try_reserve n t = try_reserve n (reset_cursors t)"
  using assms by (simp add: try_reserve_def inner_try_reserve_def reset_cursors_def Let_def)

lemma reset_ok:
  assumes ok: "bip_ok wg rg t" and "\<not> bp_wip t" "bp_read t = bp_write t"
  shows "bip_ok wg rg (reset_cursors t) \<and> contents (reset_cursors t) = contents t \<and> fits n (reset_cursors t) = fits n t"
proof -
  have "wg = None" "rg = None"
    using ok assms(2,3) by (auto simp: bip_ok_def read_grant_ok_def)
  then show ?thesis
    using ok assms(3) by (auto simp: bip_ok_def cursors_ok_def reset_cursors_def contents_def part_def fits_def)
qed

lemma reserve_grant_ok:
  assumes ok: "bip_ok wg rg t" and "\<not> bp_wip t" "fits n t" "bp_read t = bp_write t \<Longrightarrow> bp_write t = 0"
  shows "bip_ok (Some \<lparr>gr_start = reserve_start n t, gr_len = n, gr_handed_back = False\<rparr>) rg (t\<lparr>bp_wip := True\<rparr>)"
proof -
  have "write_grant_ok \<lparr>gr_start = reserve_start n t, gr_len = n, gr_handed_back = False\<rparr> (t\<lparr>bp_wip := True\<rparr>)"
    using ok assms(3,4) by (auto simp: bip_ok_def cursors_ok_def write_grant_ok_def fits_def reserve_start_def)
  then show ?thesis
    using ok by (auto simp: bip_ok_def cursors_ok_def read_grant_ok_def)
qed

text \<open>What a reservation leaves of the state, and its result.\<close>

definition reserve_post :: "grant option \<Rightarrow> grant option \<Rightarrow> nat \<Rightarrow> bip \<Rightarrow> grant option \<Rightarrow> bip \<Rightarrow> bool" where
  "reserve_post wg rg n t r t' \<longleftrightarrow>
     bp_space t' = bp_space t \<and> bp_data t' = bp_data t \<and> contents t' = contents t \<and>
     bp_buf t' = bp_buf t \<and> bp_cap t' = bp_cap t \<and> drained t' = drained t \<and>
     (if \<not> bp_wip t \<and> fits n t
      then \<exists>g. r = Some g \<and> gr_len g = n \<and> bip_ok (Some g) rg t'
      else r = None \<and> bip_ok wg rg t' \<and> (\<forall>m. fits m t' = fits m t) \<and> bp_wip t' = bp_wip t)"

lemma reserve_post_busy: "bip_ok wg rg t \<Longrightarrow> bp_wip t \<or> n > bp_cap t \<Longrightarrow> reserve_post wg rg n t None t"
  by (auto simp: reserve_post_def fits_def)

lemma try_reserve_wp_plain:
  assumes ok: "bip_ok wg rg t" and "drained t \<Longrightarrow> bp_write t = 0"
  shows "wp (try_reserve n t) (\<lambda>(r, t'). reserve_post wg rg n t r t')"
proof (cases "bp_wip t \<or> n > bp_cap t")
  case True
  then show ?thesis using ok by (simp add: try_reserve_busy reserve_post_busy)
next
  case False
  have "cursors_ok t" using ok by (simp add: bip_ok_def)
  have stranded: "bp_read t \<noteq> bp_write t \<or> bp_write t = 0" using assms(2) by (auto simp: drained_def)
  have "try_reserve n t =
    Inr (if fits n t
         then (Some \<lparr>gr_start = reserve_start n t, gr_len = n, gr_handed_back = False\<rparr>, t\<lparr>bp_wip := True\<rparr>)
         else (None, t))"
    by (rule try_reserve_eval) (use \<open>cursors_ok t\<close> False stranded in auto)
  moreover have "reserve_post wg rg n t None t" if "\<not> fits n t"
    using that ok by (simp add: reserve_post_def)
  moreover have "reserve_post wg rg n t (Some \<lparr>gr_start = reserve_start n t, gr_len = n, gr_handed_back = False\<rparr>) (t\<lparr>bp_wip := True\<rparr>)" if "fits n t"
    using that False reserve_grant_ok [OF ok _ that] stranded by (auto simp: reserve_post_def drained_def)
  ultimately show ?thesis by simp
qed

lemma try_reserve_wp:
  assumes ok: "bip_ok wg rg t"
  shows "wp (try_reserve n t) (\<lambda>(r, t'). reserve_post wg rg n t r t')"
proof (cases "bp_wip t \<or> n > bp_cap t")
  case True
  then show ?thesis using ok by (simp add: try_reserve_busy reserve_post_busy)
next
  case free: False
  show ?thesis
  proof (cases "drained t \<and> bp_write t \<noteq> 0")
    case True
    let ?u = "reset_cursors t"
    have r: "bip_ok wg rg ?u" "contents ?u = contents t" "\<And>m. fits m ?u = fits m t"
      using reset_ok [OF ok] True free by (auto simp: drained_def)
    have eq: "try_reserve n t = try_reserve n ?u"
      using try_reserve_drained True free by (simp add: drained_def)
    have "reserve_post wg rg n ?u = reserve_post wg rg n t"
      using r True free by (simp add: reserve_post_def fun_eq_iff reset_cursors_def Let_def drained_def)
    with try_reserve_wp_plain [OF r(1), of n] show ?thesis
      by (simp add: eq) (simp add: reset_cursors_def Let_def)
  next
    case False
    show ?thesis by (rule try_reserve_wp_plain [OF ok]) (use False in simp)
  qed
qed

text \<open>Runs of bytes.\<close>

lemma part_append: "a \<le> b \<Longrightarrow> b \<le> c \<Longrightarrow> part d a c = part d a b @ part d b c"
proof -
  assume "a \<le> b" "b \<le> c"
  then have "c - a = (b - a) + (c - b)" "drop b d = drop (b - a) (drop a d)"
    by simp_all
  then show ?thesis by (simp only: part_def take_add)
qed

lemma part_empty [simp]: "b \<le> a \<Longrightarrow> part d a b = []"
  by (simp add: part_def)

lemma part_Nil_iff: "b \<le> length d \<Longrightarrow> part d a b = [] \<longleftrightarrow> b \<le> a"
  by (auto simp: part_def)

lemma length_part: "b \<le> length d \<Longrightarrow> length (part d a b) = b - a"
  by (simp add: part_def)

lemma part_append_left: "b \<le> length xs \<Longrightarrow> part (xs @ ys) a b = part xs a b"
  by (simp add: part_def)

lemma part_take: "b \<le> i \<Longrightarrow> part (take i d) a b = part d a b"
  by (simp add: part_def drop_take min_absorb1 diff_le_mono)

lemma part_update:
  assumes "i + length xs \<le> length d" "b \<le> i \<or> i + length xs \<le> a"
  shows "part (take i d @ xs @ drop (i + length xs) d) a b = part d a b"
  using assms(2)
proof
  assume "b \<le> i"
  then show ?thesis
    using assms(1) by (simp add: part_append_left part_take)
next
  assume "i + length xs \<le> a"
  then show ?thesis using assms(1) by (simp add: part_def)
qed

lemma grant_slice_part:
  "gr_start g + gr_len g \<le> length (ab_data (bp_buf t)) \<Longrightarrow>
   grant_slice g t = Inr (part (ab_data (bp_buf t)) (gr_start g) (gr_start g + gr_len g))"
  by (simp add: grant_slice_def part_def)

text \<open>A read grant sees the oldest unread bytes.\<close>

lemma read_grant_slice:
  assumes "cursors_ok t" "read_grant_ok g t"
  shows "grant_slice g t = Inr (take (gr_len g) (contents t))" "gr_len g \<le> length (contents t)"
proof -
  let ?d = "ab_data (bp_buf t)" and ?m = "if bp_write t < bp_read t then bp_last t else bp_write t"
  let ?e = "gr_start g + gr_len g"
  have le: "bp_read t \<le> ?e" "?e \<le> ?m" "?m \<le> length ?d" and st: "gr_start g = bp_read t"
    using assms by (auto simp: cursors_ok_def read_grant_ok_def)
  have "contents t = part ?d (bp_read t) ?e @ part ?d ?e ?m @ (if bp_write t < bp_read t then part ?d 0 (bp_write t) else [])"
    using part_append [OF le(1,2), of ?d] by (cases "bp_write t < bp_read t") (simp_all add: contents_def)
  moreover have "length (part ?d (bp_read t) ?e) = gr_len g"
    using le st by (simp add: length_part)
  ultimately show "grant_slice g t = Inr (take (gr_len g) (contents t))" "gr_len g \<le> length (contents t)"
    using le st by (simp_all add: grant_slice_part)
qed

text \<open>The unread bytes and the write grant do not overlap.\<close>

lemma contents_update:
  assumes "cursors_ok t" "write_grant_ok g t" "i + length xs \<le> gr_len g"
  shows "contents (t\<lparr>bp_buf := (bp_buf t)\<lparr>ab_data := take (gr_start g + i) (ab_data (bp_buf t)) @ xs @
      drop (gr_start g + i + length xs) (ab_data (bp_buf t))\<rparr>\<rparr>) = contents t"
proof -
  let ?d = "ab_data (bp_buf t)"
  let ?d' = "take (gr_start g + i) ?d @ xs @ drop (gr_start g + i + length xs) ?d"
  have le: "gr_start g + i + length xs \<le> length ?d"
    using assms by (auto simp: cursors_ok_def write_grant_ok_def)
  have eq: "part ?d' a b = part ?d a b" if "b \<le> gr_start g \<or> gr_start g + gr_len g \<le> a" for a b
    by (rule part_update [OF le]) (use that assms(3) in auto)
  show ?thesis
  proof (cases "bp_write t < bp_read t")
    case True
    then have "gr_start g = bp_write t \<and> gr_start g + gr_len g < bp_read t"
      using assms(2) by (auto simp: write_grant_ok_def)
    then have "part ?d' (bp_read t) (bp_last t) = part ?d (bp_read t) (bp_last t)"
      "part ?d' 0 (bp_write t) = part ?d 0 (bp_write t)"
      using eq by simp_all
    with True show ?thesis by (simp add: contents_def)
  next
    case False
    then have "part ?d' (bp_read t) (bp_write t) = part ?d (bp_read t) (bp_write t)"
      using eq [of "bp_write t" "bp_read t"] assms(2) by (auto simp: write_grant_ok_def)
    with False show ?thesis by (simp add: contents_def)
  qed
qed

lemma grant_write_wp:
  assumes "bip_ok (Some g) rg t" "i + length xs \<le> gr_len g"
  shows "wp (grant_write g i xs t) (\<lambda>t'. bip_ok (Some g) rg t' \<and> contents t' = contents t \<and>
    bp_space t' = bp_space t \<and> bp_data t' = bp_data t \<and> drained t' = drained t \<and> bp_cap t' = bp_cap t \<and>
    (\<forall>m. fits m t' = fits m t) \<and> bp_wip t' = bp_wip t \<and> bp_rip t' = bp_rip t)"
proof -
  let ?d = "ab_data (bp_buf t)"
  have ok: "cursors_ok t" "write_grant_ok g t" using assms(1) by (auto simp: bip_ok_def)
  then have le: "gr_start g + gr_len g \<le> length ?d" by (auto simp: cursors_ok_def write_grant_ok_def)
  let ?t = "t\<lparr>bp_buf := (bp_buf t)\<lparr>ab_data := take (gr_start g + i) ?d @ xs @ drop (gr_start g + i + length xs) ?d\<rparr>\<rparr>"
  have eq: "grant_write g i xs t = Inr ?t"
    using le assms(2) by (simp add: grant_write_def write_at_def add.assoc)
  have "length (ab_data (bp_buf ?t)) = length ?d" using le assms(2) by simp
  then have "bip_ok (Some g) rg ?t"
    using assms(1) by (auto simp: bip_ok_def cursors_ok_def write_grant_ok_def read_grant_ok_def)
  then show ?thesis
    using contents_update [OF ok assms(2)] by (simp add: eq drained_def fits_def)
qed

section \<open>Reading\<close>

definition read_post :: "grant option \<Rightarrow> grant option \<Rightarrow> bip \<Rightarrow> grant option \<Rightarrow> waker list \<Rightarrow> bip \<Rightarrow> bool" where
  "read_post wg rg t r ws t' \<longleftrightarrow>
     bp_data t' = bp_data t \<and> contents t' = contents t \<and> bp_buf t' = bp_buf t \<and> bp_cap t' = bp_cap t \<and>
     bp_wip t' = bp_wip t \<and> bp_epoch t' = bp_epoch t \<and>
     (if \<not> bp_rip t \<and> contents t \<noteq> []
      then \<exists>g. r = Some g \<and> bip_ok wg (Some g) t'
      else r = None \<and> bip_ok wg rg t' \<and> bp_rip t' = bp_rip t \<and> (bp_rip t \<or> drained t')) \<and>
     (bp_space t' = bp_space t \<and> ws = [] \<and> (\<forall>m. fits m t' = fits m t) \<or>
      bp_space t' = snd (slot_signal (bp_space t)) \<and> ws = fst (slot_signal (bp_space t)))"

text \<open>The wrap of the read cursor at the watermark.\<close>

definition wrap_read :: "bip \<Rightarrow> waker list \<times> bip" where
  "wrap_read t = (if bp_write t < bp_read t \<and> bp_read t = bp_last t then signal_space (t\<lparr>bp_read := 0\<rparr>) else ([], t))"

lemma wrap_read_ok:
  assumes ok: "bip_ok wg None t"
  defines "t' \<equiv> snd (wrap_read t)"
  shows "bip_ok wg None t'" "contents t' = contents t" "\<not> (bp_write t' < bp_read t' \<and> bp_read t' = bp_last t')"
proof -
  have sl: "slot_ok (snd (slot_signal (bp_space t)))"
    using ok by (simp add: bip_ok_def cursors_ok_def slot_signal_slot_ok)
  show "bip_ok wg None t'"
    using ok sl by (auto simp: t'_def wrap_read_def bip_ok_def cursors_ok_def write_grant_ok_def)
  show "contents t' = contents t" "\<not> (bp_write t' < bp_read t' \<and> bp_read t' = bp_last t')"
    by (simp_all add: t'_def wrap_read_def contents_def)
qed

lemma bip_try_read_eval:
  assumes "cursors_ok t" "\<not> bp_rip t"
  shows "bip_try_read t =
    (let (ws, t1) = wrap_read t;
         m = (if bp_write t1 < bp_read t1 then bp_last t1 else bp_write t1)
     in Inr (if m = bp_read t1 then (None, ws, t1)
             else (Some \<lparr>gr_start = bp_read t1, gr_len = m - bp_read t1, gr_handed_back = False\<rparr>, ws, t1\<lparr>bp_rip := True\<rparr>)))"
proof (cases "bp_write t < bp_read t \<and> bp_read t = bp_last t")
  case True
  then show ?thesis
    using assms(2) snapshot_ok [OF assms(1)]
    by (simp add: bip_try_read_def inner_try_read_def wrap_read_def split_def Let_def usize_sub_def)
next
  case False
  then have "bp_read t \<le> (if bp_write t < bp_read t then bp_last t else bp_write t)"
    using assms(1) by (auto simp: cursors_ok_def)
  with False show ?thesis
    using assms(2) snapshot_ok [OF assms(1)]
    by (cases "bp_write t < bp_read t") (auto simp: bip_try_read_def inner_try_read_def wrap_read_def split_def Let_def usize_sub_def)
qed

lemma contents_Nil_iff:
  assumes "cursors_ok t" "\<not> (bp_write t < bp_read t \<and> bp_read t = bp_last t)"
  shows "contents t = [] \<longleftrightarrow> drained t"
    "contents t = [] \<longleftrightarrow> (if bp_write t < bp_read t then bp_last t else bp_write t) = bp_read t"
  using assms by (auto simp: contents_def drained_def part_Nil_iff cursors_ok_def)

lemma bip_try_read_wp:
  assumes ok: "bip_ok wg rg t"
  shows "wp (bip_try_read t) (\<lambda>(r, ws, t'). read_post wg rg t r ws t')"
proof (cases "bp_rip t")
  case True
  then show ?thesis using ok by (simp add: bip_try_read_def inner_try_read_def read_post_def)
next
  case False
  then have None: "rg = None" using ok by (simp add: bip_ok_def)
  let ?u = "snd (wrap_read t)" and ?ws = "fst (wrap_read t)"
  let ?m = "if bp_write ?u < bp_read ?u then bp_last ?u else bp_write ?u"
  let ?g = "\<lparr>gr_start = bp_read ?u, gr_len = ?m - bp_read ?u, gr_handed_back = False\<rparr>"
  have u: "bip_ok wg None ?u" "contents ?u = contents t" "\<not> (bp_write ?u < bp_read ?u \<and> bp_read ?u = bp_last ?u)"
    using wrap_read_ok [of wg t] ok None by auto
  have cu: "cursors_ok ?u" and c: "cursors_ok t" using u(1) ok by (auto simp: bip_ok_def)
  have emp: "contents t = [] \<longleftrightarrow> drained ?u" "contents t = [] \<longleftrightarrow> ?m = bp_read ?u"
    using contents_Nil_iff [OF cu u(3)] u(2) by simp_all
  have same: "bp_data ?u = bp_data t" "bp_buf ?u = bp_buf t" "bp_cap ?u = bp_cap t" "bp_wip ?u = bp_wip t"
    "bp_rip ?u = bp_rip t" "bp_epoch ?u = bp_epoch t"
    "bp_space ?u = bp_space t \<and> ?ws = [] \<and> (\<forall>m. fits m ?u = fits m t) \<or>
      bp_space ?u = snd (slot_signal (bp_space t)) \<and> ?ws = fst (slot_signal (bp_space t))"
    by (simp_all add: wrap_read_def)
  have fits_rip: "fits m (?u\<lparr>bp_rip := True\<rparr>) = fits m ?u" for m by (simp add: fits_def)
  have "?m > bp_read ?u" if "contents t \<noteq> []"
    using that emp cu by (auto simp: cursors_ok_def split: if_splits)
  then have g: "bip_ok wg (Some ?g) (?u\<lparr>bp_rip := True\<rparr>)" if "contents t \<noteq> []"
    using that u(1) by (auto simp: bip_ok_def cursors_ok_def write_grant_ok_def read_grant_ok_def)
  have eq: "bip_try_read t = Inr (if ?m = bp_read ?u then (None, ?ws, ?u) else (Some ?g, ?ws, ?u\<lparr>bp_rip := True\<rparr>))"
    by (simp only: bip_try_read_eval [OF c False] split_def Let_def)
  show ?thesis
  proof (cases "contents t = []")
    case True
    then have "read_post wg rg t None ?ws ?u"
      using u(1) u(2) same None False emp(1) by (simp add: read_post_def)
    moreover have "bip_try_read t = Inr (None, ?ws, ?u)" using True emp(2) by (subst eq, subst if_P) simp_all
    ultimately show ?thesis by (simp only: wp_simps split)
  next
    case f: False
    then have "read_post wg rg t (Some ?g) ?ws (?u\<lparr>bp_rip := True\<rparr>)"
      using g u(2) same False by (simp add: read_post_def fits_rip)
    moreover have "bip_try_read t = Inr (Some ?g, ?ws, ?u\<lparr>bp_rip := True\<rparr>)" using f emp(2) by (subst eq, subst if_not_P) simp_all
    ultimately show ?thesis by (simp only: wp_simps split)
  qed
qed

section \<open>Handing grants back\<close>

text \<open>What publishing \<open>used\<close> bytes does to the cursors.\<close>

definition publish :: "grant \<Rightarrow> nat \<Rightarrow> bip \<Rightarrow> bip" where
  "publish g used t =
     (if gr_start g = 0 \<and> bp_write t \<noteq> 0 then t\<lparr>bp_last := bp_write t\<rparr> else t)\<lparr>bp_write := gr_start g + used, bp_wip := False\<rparr>"

lemma publish_simps [simp]:
  "bp_buf (publish g u t) = bp_buf t" "bp_cap (publish g u t) = bp_cap t" "bp_read (publish g u t) = bp_read t"
  "bp_write (publish g u t) = gr_start g + u" "bp_epoch (publish g u t) = bp_epoch t"
  "bp_last (publish g u t) = (if gr_start g = 0 \<and> bp_write t \<noteq> 0 then bp_write t else bp_last t)"
  "\<not> bp_wip (publish g u t)" "bp_rip (publish g u t) = bp_rip t"
  "bp_data (publish g u t) = bp_data t" "bp_space (publish g u t) = bp_space t"
  by (simp_all add: publish_def)

lemma write_grant_cases:
  assumes "write_grant_ok g t"
  obtains (inv) "bp_write t < bp_read t" "gr_start g = bp_write t" "gr_start g + gr_len g < bp_read t"
    | (tail) "bp_read t \<le> bp_write t" "gr_start g = bp_write t"
    | (wrap) "bp_read t \<le> bp_write t" "gr_start g = 0" "gr_len g < bp_read t" "0 < bp_write t"
  using assms by (fastforce simp: write_grant_ok_def)

lemma publish_ok:
  assumes ok: "bip_ok (Some g) rg t" and "u \<le> gr_len g"
  shows "bip_ok None rg (publish g u t)"
    "contents (publish g u t) = contents t @ part (ab_data (bp_buf t)) (gr_start g) (gr_start g + u)"
proof -
  have c: "cursors_ok t" and w: "write_grant_ok g t" using ok by (auto simp: bip_ok_def)
  from w have "bip_ok None rg (publish g u t) \<and>
    contents (publish g u t) = contents t @ part (ab_data (bp_buf t)) (gr_start g) (gr_start g + u)"
  proof (cases rule: write_grant_cases)
    case inv
    then have "part (ab_data (bp_buf t)) 0 (bp_write t + u) =
        part (ab_data (bp_buf t)) 0 (bp_write t) @ part (ab_data (bp_buf t)) (bp_write t) (bp_write t + u)"
      by (intro part_append) simp_all
    then show ?thesis
      using inv ok assms(2) w by (auto simp: bip_ok_def cursors_ok_def read_grant_ok_def write_grant_ok_def contents_def)
  next
    case tail
    then have "part (ab_data (bp_buf t)) (bp_read t) (bp_write t + u) =
        part (ab_data (bp_buf t)) (bp_read t) (bp_write t) @ part (ab_data (bp_buf t)) (bp_write t) (bp_write t + u)"
      by (intro part_append) simp_all
    moreover have "bip_ok None rg (publish g u t)"
      using tail ok assms(2) w by (auto simp: bip_ok_def cursors_ok_def read_grant_ok_def write_grant_ok_def)
    ultimately show ?thesis using tail by (simp add: contents_def)
  next
    case wrap
    have "bip_ok None rg (publish g u t)"
      using wrap ok assms(2) w by (auto simp: bip_ok_def cursors_ok_def read_grant_ok_def write_grant_ok_def)
    then show ?thesis using wrap assms(2) by (simp add: contents_def)
  qed
  then show "bip_ok None rg (publish g u t)"
    "contents (publish g u t) = contents t @ part (ab_data (bp_buf t)) (gr_start g) (gr_start g + u)" by auto
qed

text \<open>A signal to a slot keeps the invariant.\<close>

lemma bip_ok_signal:
  assumes "bip_ok wg rg t"
  shows "bip_ok wg rg (snd (signal_space t))" "bip_ok wg rg (snd (signal_data t))"
  using assms by (auto simp: bip_ok_def cursors_ok_def read_grant_ok_def write_grant_ok_def slot_signal_slot_ok)

lemma contents_signal [simp]:
  "contents (snd (signal_space t)) = contents t" "contents (snd (signal_data t)) = contents t"
  by (simp_all add: contents_def)

lemma commit_wp:
  assumes ok: "bip_ok (Some g) rg t"
  shows "wp (commit used g t) (\<lambda>(ws, t'). bip_ok None rg t' \<and> bp_cap t' = bp_cap t \<and>
    contents t' = contents t @ part (ab_data (bp_buf t)) (gr_start g) (gr_start g + min used (gr_len g)) \<and>
    ws = fst (slot_signal (bp_space t)) @ fst (slot_signal (bp_data t)))"
proof -
  let ?u = "min used (gr_len g)"
  let ?t = "snd (signal_data (snd (signal_space (publish g ?u t))))"
  have "usize_add True (gr_start g) ?u = Inr (gr_start g + ?u)"
    using ok by (intro usize_add_ok) (auto simp: bip_ok_def cursors_ok_def write_grant_ok_def min_def)
  then have "commit used g t = Inr (fst (slot_signal (bp_space t)) @ fst (slot_signal (bp_data t)), ?t)"
    by (simp add: commit_def split_def Let_def write_grant_drop_def publish_def)
  then show ?thesis
    using publish_ok [OF ok, of ?u] by (simp add: bip_ok_signal)
qed

lemma write_grant_drop_ok:
  assumes "bip_ok (Some g) rg t"
  shows "bip_ok None rg (snd (write_grant_drop g t))" "contents (snd (write_grant_drop g t)) = contents t"
    "fst (write_grant_drop g t) = fst (slot_signal (bp_space t))"
    "bp_data (snd (write_grant_drop g t)) = bp_data t" "drained (snd (write_grant_drop g t)) = drained t"
    "bp_cap (snd (write_grant_drop g t)) = bp_cap t" "bp_rip (snd (write_grant_drop g t)) = bp_rip t"
proof -
  have eq: "write_grant_drop g t = signal_space (t\<lparr>bp_wip := False\<rparr>)"
    using assms by (simp add: write_grant_drop_def bip_ok_def write_grant_ok_def Let_def)
  have "bip_ok None rg (t\<lparr>bp_wip := False\<rparr>)"
    using assms by (auto simp: bip_ok_def cursors_ok_def read_grant_ok_def)
  then show "bip_ok None rg (snd (write_grant_drop g t))" by (simp add: eq bip_ok_signal)
qed (use assms in \<open>simp_all add: write_grant_drop_def bip_ok_def write_grant_ok_def Let_def drained_def\<close>)

lemma read_grant_drop_ok:
  assumes "bip_ok wg (Some g) t"
  shows "bip_ok wg None (snd (read_grant_drop g t))" "contents (snd (read_grant_drop g t)) = contents t"
    "fst (read_grant_drop g t) = fst (slot_signal (bp_data t))" "bp_cap (snd (read_grant_drop g t)) = bp_cap t"
    "bp_space (snd (read_grant_drop g t)) = bp_space t" "fits n (snd (read_grant_drop g t)) = fits n t"
    "bp_wip (snd (read_grant_drop g t)) = bp_wip t"
proof -
  have eq: "read_grant_drop g t = signal_data (t\<lparr>bp_rip := False\<rparr>)"
    using assms by (simp add: read_grant_drop_def bip_ok_def read_grant_ok_def)
  have "bip_ok wg None (t\<lparr>bp_rip := False\<rparr>)"
    using assms by (auto simp: bip_ok_def cursors_ok_def write_grant_ok_def)
  then show "bip_ok wg None (snd (read_grant_drop g t))" by (simp add: eq bip_ok_signal)
qed (use assms in \<open>simp_all add: read_grant_drop_def bip_ok_def read_grant_ok_def fits_def\<close>)

text \<open>What consuming \<open>used\<close> bytes does to the cursors.\<close>

lemma consume_ok:
  assumes ok: "bip_ok wg (Some g) t" and "u \<le> gr_len g"
  shows "bip_ok wg None (t\<lparr>bp_read := bp_read t + u, bp_rip := False\<rparr>)"
    "contents t = part (ab_data (bp_buf t)) (gr_start g) (gr_start g + u) @ contents (t\<lparr>bp_read := bp_read t + u, bp_rip := False\<rparr>)"
proof -
  have c: "cursors_ok t" and r: "read_grant_ok g t" using ok by (auto simp: bip_ok_def)
  show "bip_ok wg None (t\<lparr>bp_read := bp_read t + u, bp_rip := False\<rparr>)"
    using ok r assms(2)
    by (auto simp: bip_ok_def cursors_ok_def read_grant_ok_def write_grant_ok_def split: if_splits)
  show "contents t = part (ab_data (bp_buf t)) (gr_start g) (gr_start g + u) @ contents (t\<lparr>bp_read := bp_read t + u, bp_rip := False\<rparr>)"
  proof (cases "bp_write t < bp_read t")
    case True
    then show ?thesis
      using r assms(2) part_append [of "bp_read t" "bp_read t + u" "bp_last t" "ab_data (bp_buf t)"]
      by (simp add: contents_def read_grant_ok_def)
  next
    case False
    then show ?thesis
      using r assms(2) part_append [of "bp_read t" "bp_read t + u" "bp_write t" "ab_data (bp_buf t)"]
      by (simp add: contents_def read_grant_ok_def)
  qed
qed

lemma release_wp:
  assumes ok: "bip_ok wg (Some g) t"
  shows "wp (release used g t) (\<lambda>(ws, t'). bip_ok wg None t' \<and> bp_cap t' = bp_cap t \<and>
    contents t = part (ab_data (bp_buf t)) (gr_start g) (gr_start g + min used (gr_len g)) @ contents t' \<and>
    ws = fst (slot_signal (bp_data t)) @ fst (slot_signal (bp_space t)))"
proof -
  let ?u = "min used (gr_len g)"
  let ?v = "t\<lparr>bp_read := bp_read t + ?u, bp_rip := False\<rparr>"
  let ?t = "snd (signal_space (snd (signal_data ?v)))"
  have "bp_read t + ?u < usize_bound"
    using ok by (auto simp: bip_ok_def cursors_ok_def read_grant_ok_def min_def split: if_splits)
  then have "usize_add True (bp_read t) ?u = Inr (bp_read t + ?u)" by (rule usize_add_ok)
  then have "release used g t = Inr (fst (slot_signal (bp_data t)) @ fst (slot_signal (bp_space t)), ?t)"
    by (simp add: release_def split_def Let_def read_grant_drop_def)
  then show ?thesis
    using consume_ok [OF ok, of ?u] by (simp add: bip_ok_signal)
qed

section \<open>The futures\<close>

lemma bip_ok_slots:
  "bip_ok wg rg t \<Longrightarrow> slot_ok s \<Longrightarrow> bip_ok wg rg (t\<lparr>bp_space := s\<rparr>)"
  "bip_ok wg rg t \<Longrightarrow> slot_ok s \<Longrightarrow> bip_ok wg rg (t\<lparr>bp_data := s\<rparr>)"
  by (auto simp: bip_ok_def cursors_ok_def read_grant_ok_def write_grant_ok_def)

lemma fits_simps [simp]:
  "fits n (t\<lparr>bp_space := s\<rparr>) = fits n t" "fits n (t\<lparr>bp_data := s\<rparr>) = fits n t"
  "drained (t\<lparr>bp_space := s\<rparr>) = drained t" "drained (t\<lparr>bp_data := s\<rparr>) = drained t"
  by (simp_all add: fits_def drained_def)

lemma bip_slots_ok: "bip_ok wg rg t \<Longrightarrow> slot_ok (bp_space t) \<and> slot_ok (bp_data t)"
  by (simp add: bip_ok_def cursors_ok_def)

lemma reserve_poll_wp:
  assumes ok: "bip_ok wg rg t"
  shows "wp (reserve_poll n w t) (\<lambda>(r, ws, t'). ws = [] \<and> contents t' = contents t \<and> bp_data t' = bp_data t \<and>
    bp_cap t' = bp_cap t \<and> drained t' = drained t \<and>
    (if \<not> bp_wip t \<and> fits n t then \<exists>g. r = Ready g \<and> gr_len g = n \<and> bip_ok (Some g) rg t'
     else r = Pending \<and> bip_ok wg rg t' \<and> parked_on w (bp_space t') \<and> (bp_wip t' \<or> \<not> fits n t')))"
proof -
  obtain r1 t1 where r1: "try_reserve n t = Inr (r1, t1)" and p1: "reserve_post wg rg n t r1 t1"
    using try_reserve_wp [OF ok, of n] by (auto simp: wp_ex)
  show ?thesis
  proof (cases "\<not> bp_wip t \<and> fits n t")
    case True
    then obtain g where g: "r1 = Some g" "gr_len g = n" "bip_ok (Some g) rg t1"
      using p1 by (auto simp: reserve_post_def)
    then have "reserve_poll n w t = Inr (Ready g, [], t1)" using r1 by (simp add: reserve_poll_def)
    then show ?thesis using True p1 g by (simp add: reserve_post_def)
  next
    case False
    then have t1: "r1 = None" "bip_ok wg rg t1" "\<not> (\<not> bp_wip t1 \<and> fits n t1)"
      using p1 by (auto simp: reserve_post_def)
    obtain sl where sl: "slot_arm w (bp_space t1) = Inr ([], sl)" "parked_on w sl"
      using arm_parks [of "bp_space t1" w] bip_slots_ok [OF t1(2)] by (auto simp: wp_ex)
    let ?u = "t1\<lparr>bp_space := sl\<rparr>"
    have u: "bip_ok wg rg ?u" using t1(2) sl(2) by (intro bip_ok_slots) (simp_all add: parked_on_def)
    obtain r2 t2 where r2: "try_reserve n ?u = Inr (r2, t2)" and p2: "reserve_post wg rg n ?u r2 t2"
      using try_reserve_wp [OF u, of n] by (auto simp: wp_ex)
    have nf: "\<not> (\<not> bp_wip ?u \<and> fits n ?u)" using t1(3) by simp
    have t2: "r2 = None" "bip_ok wg rg t2" "\<not> (\<not> bp_wip t2 \<and> fits n t2)" "bp_space t2 = sl"
      using p2 nf by (auto simp: reserve_post_def)
    have "reserve_poll n w t = Inr (Pending, [], t2)"
      using r1 r2 t1(1) t2(1) sl(1) by (simp add: reserve_poll_def)
    moreover have "contents t2 = contents t \<and> bp_data t2 = bp_data t \<and> bp_cap t2 = bp_cap t \<and> drained t2 = drained t"
      using p1 p2 by (simp add: reserve_post_def)
    ultimately show ?thesis using False t2 sl(2) by auto
  qed
qed

text \<open>A call of the consumer leaves the producer's wait alone, or tells the producer.\<close>

definition kept_or_told :: "bip \<Rightarrow> waker list \<Rightarrow> bip \<Rightarrow> bool" where
  "kept_or_told t ws t' \<longleftrightarrow>
     (bp_space t' = bp_space t \<and> bp_wip t' = bp_wip t \<and> (\<forall>m. fits m t' = fits m t)) \<or>
     set (fst (slot_signal (bp_space t))) \<subseteq> set ws"

lemma read_post_kept: "read_post wg rg t r ws t' \<Longrightarrow> kept_or_told t ws t'"
  by (auto simp: read_post_def kept_or_told_def)

lemma kept_or_told_trans: "kept_or_told t ws u \<Longrightarrow> kept_or_told u vs t' \<Longrightarrow> kept_or_told t (ws @ vs) t'"
  by (auto simp: kept_or_told_def)

lemma read_poll_wp:
  assumes ok: "bip_ok wg rg t"
  shows "wp (read_poll w t) (\<lambda>(r, ws, t'). contents t' = contents t \<and> bp_cap t' = bp_cap t \<and> kept_or_told t ws t' \<and>
    (if \<not> bp_rip t \<and> contents t \<noteq> [] then \<exists>g. r = Ready g \<and> bip_ok wg (Some g) t'
     else r = Pending \<and> bip_ok wg rg t' \<and> parked_on w (bp_data t') \<and> (bp_rip t' \<or> drained t')))"
proof -
  obtain r1 ws1 t1 where r1: "bip_try_read t = Inr (r1, ws1, t1)" and p1: "read_post wg rg t r1 ws1 t1"
    using bip_try_read_wp [OF ok] by (auto simp: wp_ex)
  show ?thesis
  proof (cases "\<not> bp_rip t \<and> contents t \<noteq> []")
    case True
    then obtain g where g: "r1 = Some g" "bip_ok wg (Some g) t1" using p1 by (auto simp: read_post_def)
    then have "read_poll w t = Inr (Ready g, ws1, t1)" using r1 by (simp add: read_poll_def)
    then show ?thesis using True p1 g read_post_kept [OF p1] by (simp add: read_post_def)
  next
    case False
    then have t1: "r1 = None" "bip_ok wg rg t1" "\<not> (\<not> bp_rip t1 \<and> contents t1 \<noteq> [])"
      using p1 by (auto simp: read_post_def)
    obtain sl where sl: "slot_arm w (bp_data t1) = Inr ([], sl)" "parked_on w sl"
      using arm_parks [of "bp_data t1" w] bip_slots_ok [OF t1(2)] by (auto simp: wp_ex)
    let ?u = "t1\<lparr>bp_data := sl\<rparr>"
    have u: "bip_ok wg rg ?u" using t1(2) sl(2) by (intro bip_ok_slots) (simp_all add: parked_on_def)
    obtain r2 ws2 t2 where r2: "bip_try_read ?u = Inr (r2, ws2, t2)" and p2: "read_post wg rg ?u r2 ws2 t2"
      using bip_try_read_wp [OF u] by (auto simp: wp_ex)
    have nf: "\<not> (\<not> bp_rip ?u \<and> contents ?u \<noteq> [])" using t1(3) by simp
    have t2: "r2 = None" "bip_ok wg rg t2" "bp_rip t2 \<or> drained t2" "bp_data t2 = sl"
      using p2 nf by (auto simp: read_post_def)
    have "read_poll w t = Inr (Pending, ws1 @ ws2, t2)"
      using r1 r2 t1(1) t2(1) sl(1) by (simp add: read_poll_def)
    moreover have "kept_or_told t ws1 ?u" using read_post_kept [OF p1] by (simp add: kept_or_told_def)
    then have "kept_or_told t (ws1 @ ws2) t2" using read_post_kept [OF p2] by (rule kept_or_told_trans)
    moreover have "contents t2 = contents t \<and> bp_cap t2 = bp_cap t" using p1 p2 by (simp add: read_post_def)
    ultimately show ?thesis using False t2 sl(2) by auto
  qed
qed

end
