(* ===== verification/Bip_System.thy ===== *)
theory Bip_System
  imports BipBuf
begin

text \<open>
  One producer and one consumer on a bip buffer, calling in any order, each call atomic. The state
  records the bytes committed and released, the outstanding grants and the pending futures that have
  not been woken since their last poll.
\<close>

section \<open>Runs\<close>

record bip_sys =
  bs_bip :: bip
  bs_wg :: "grant option"
  bs_rg :: "grant option"
  bs_sent :: "byte list"
  bs_recv :: "byte list"
  bs_pwait :: "(waker \<times> nat) option"
  bs_cwait :: "waker option"

definition bip_init :: "nat \<Rightarrow> bip_sys \<Rightarrow> bool" where
  "bip_init cap s \<longleftrightarrow>
     (\<exists>alloc align. bip_buffer_aligned alloc cap align = Inr (bs_bip s)) \<and> bs_wg s = None \<and> bs_rg s = None \<and>
     bs_sent s = [] \<and> bs_recv s = [] \<and> bs_pwait s = None \<and> bs_cwait s = None"

definition still_reserving :: "waker list \<Rightarrow> (waker \<times> nat) option \<Rightarrow> (waker \<times> nat) option" where
  "still_reserving ws v = (case v of Some (w, n) \<Rightarrow> if w \<in> set ws then None else Some (w, n) | None \<Rightarrow> None)"

inductive bip_step :: "bip_sys \<Rightarrow> bip_sys \<Rightarrow> bool" where
  reserve: "try_reserve n (bs_bip s) = Inr (r, t) \<Longrightarrow>
    bip_step s (s\<lparr>bs_bip := t, bs_wg := (if r = None then bs_wg s else r), bs_pwait := None\<rparr>)"
| poll_reserve: "bip_reserve n (bs_bip s) = Inr n \<Longrightarrow> reserve_poll n w (bs_bip s) = Inr (r, ws, t) \<Longrightarrow>
    bip_step s (s\<lparr>bs_bip := t, bs_wg := (case r of Ready g \<Rightarrow> Some g | Pending \<Rightarrow> bs_wg s),
      bs_pwait := (case r of Ready g \<Rightarrow> None | Pending \<Rightarrow> Some (w, n)), bs_cwait := still_waiting ws (bs_cwait s)\<rparr>)"
| fill: "bs_wg s = Some g \<Longrightarrow> grant_write g i xs (bs_bip s) = Inr t \<Longrightarrow> bip_step s (s\<lparr>bs_bip := t\<rparr>)"
| commit: "bs_wg s = Some g \<Longrightarrow> grant_slice g (bs_bip s) = Inr bs \<Longrightarrow> commit used g (bs_bip s) = Inr (ws, t) \<Longrightarrow>
    bip_step s (s\<lparr>bs_bip := t, bs_wg := None, bs_sent := bs_sent s @ take used bs,
      bs_pwait := still_reserving ws (bs_pwait s), bs_cwait := still_waiting ws (bs_cwait s)\<rparr>)"
| abandon: "bs_wg s = Some g \<Longrightarrow> write_grant_drop g (bs_bip s) = (ws, t) \<Longrightarrow>
    bip_step s (s\<lparr>bs_bip := t, bs_wg := None,
      bs_pwait := still_reserving ws (bs_pwait s), bs_cwait := still_waiting ws (bs_cwait s)\<rparr>)"
| cancel_reserve: "bip_step s (s\<lparr>bs_pwait := None\<rparr>)"
| read: "bip_try_read (bs_bip s) = Inr (r, ws, t) \<Longrightarrow>
    bip_step s (s\<lparr>bs_bip := t, bs_rg := (if r = None then bs_rg s else r),
      bs_pwait := still_reserving ws (bs_pwait s), bs_cwait := None\<rparr>)"
| poll_read: "read_poll w (bs_bip s) = Inr (r, ws, t) \<Longrightarrow>
    bip_step s (s\<lparr>bs_bip := t, bs_rg := (case r of Ready g \<Rightarrow> Some g | Pending \<Rightarrow> bs_rg s),
      bs_pwait := still_reserving ws (bs_pwait s),
      bs_cwait := (case r of Ready g \<Rightarrow> None | Pending \<Rightarrow> Some w)\<rparr>)"
| release: "bs_rg s = Some g \<Longrightarrow> grant_slice g (bs_bip s) = Inr bs \<Longrightarrow> release used g (bs_bip s) = Inr (ws, t) \<Longrightarrow>
    bip_step s (s\<lparr>bs_bip := t, bs_rg := None, bs_recv := bs_recv s @ take used bs,
      bs_pwait := still_reserving ws (bs_pwait s), bs_cwait := still_waiting ws (bs_cwait s)\<rparr>)"
| put_back: "bs_rg s = Some g \<Longrightarrow> read_grant_drop g (bs_bip s) = (ws, t) \<Longrightarrow>
    bip_step s (s\<lparr>bs_bip := t, bs_rg := None,
      bs_pwait := still_reserving ws (bs_pwait s), bs_cwait := still_waiting ws (bs_cwait s)\<rparr>)"
| cancel_read: "bip_step s (s\<lparr>bs_cwait := None\<rparr>)"

text \<open>
  A waiting producer is parked on \<open>space\<close> with a request that cannot be served, a waiting consumer on
  \<open>data\<close> with nothing to read.
\<close>

definition pwait_ok :: "(waker \<times> nat) option \<Rightarrow> bip \<Rightarrow> bool" where
  "pwait_ok v t \<longleftrightarrow> (\<forall>w n. v = Some (w, n) \<longrightarrow> parked_on w (bp_space t) \<and> n \<le> bp_cap t \<and> (bp_wip t \<or> \<not> fits n t))"

definition cwait_ok :: "waker option \<Rightarrow> bip \<Rightarrow> bool" where
  "cwait_ok v t \<longleftrightarrow> (\<forall>w. v = Some w \<longrightarrow> parked_on w (bp_data t) \<and> (bp_rip t \<or> drained t))"

definition bip_inv :: "nat \<Rightarrow> bip_sys \<Rightarrow> bool" where
  "bip_inv cap s \<longleftrightarrow> bip_ok (bs_wg s) (bs_rg s) (bs_bip s) \<and> bp_cap (bs_bip s) = cap \<and>
     bs_sent s = bs_recv s @ contents (bs_bip s) \<and>
     pwait_ok (bs_pwait s) (bs_bip s) \<and> cwait_ok (bs_cwait s) (bs_bip s)"

lemma pwait_ok_None [simp]: "pwait_ok None t" and cwait_ok_None [simp]: "cwait_ok None t"
  by (simp_all add: pwait_ok_def cwait_ok_def)

lemma pwait_told:
  "pwait_ok v t \<Longrightarrow> set (fst (slot_signal (bp_space t))) \<subseteq> set ws \<Longrightarrow> still_reserving ws v = None"
  by (cases v) (auto simp: pwait_ok_def still_reserving_def parked_signal)

lemma cwait_told:
  "cwait_ok v t \<Longrightarrow> set (fst (slot_signal (bp_data t))) \<subseteq> set ws \<Longrightarrow> still_waiting ws v = None"
  by (cases v) (auto simp: cwait_ok_def still_waiting_def parked_signal)

lemma pwait_kept:
  assumes "pwait_ok v t" "kept_or_told t ws t'" "bp_cap t' = bp_cap t"
  shows "pwait_ok (still_reserving ws v) t'"
proof (cases "set (fst (slot_signal (bp_space t))) \<subseteq> set ws")
  case True
  then show ?thesis using pwait_told [OF assms(1)] by simp
next
  case False
  then show ?thesis using assms by (auto simp: kept_or_told_def pwait_ok_def still_reserving_def split: option.splits if_splits)
qed

lemma cwait_kept:
  "cwait_ok v t \<Longrightarrow> bp_data t' = bp_data t \<Longrightarrow> bp_rip t' = bp_rip t \<Longrightarrow> drained t' = drained t \<Longrightarrow>
   cwait_ok (still_waiting ws v) t'"
  by (auto simp: cwait_ok_def still_waiting_Some)

lemma bip_ok_rip: "bip_ok wg rg t \<Longrightarrow> bip_ok wg' rg t' \<Longrightarrow> bp_rip t' = bp_rip t"
  by (simp add: bip_ok_def)

lemma bip_fresh:
  assumes "bip_buffer_aligned alloc cap align = Inr t"
  shows "bip_ok None None t" "contents t = []" "bp_cap t = cap" "drained t"
proof -
  obtain buf where buf: "buffer_with_alignment alloc u8_elem cap align = Inr buf"
    and t: "t = \<lparr>bp_buf = buf, bp_cap = cap, bp_write = 0, bp_read = 0, bp_last = cap, bp_epoch = 0,
            bp_wip = False, bp_rip = False, bp_data = slot_new, bp_space = slot_new\<rparr>"
    using assms by (auto simp: bip_buffer_aligned_def rbind_Inr_iff)
  have "cap < usize_bound"
    using buf by (auto simp: buffer_with_alignment_def layout_for_def u8_elem_def rbind_Inr_iff usize_bound_def Let_def split: if_splits)
  with buffer_with_alignment_Inr [OF buf] show "bip_ok None None t" "contents t = []" "bp_cap t = cap" "drained t"
    by (simp_all add: t bip_ok_def cursors_ok_def contents_def drained_def)
qed

lemma bip_inv_init: "bip_init cap s \<Longrightarrow> bip_inv cap s"
  by (auto simp: bip_init_def bip_inv_def dest: bip_fresh)

lemma bip_invI:
  "bip_ok (bs_wg s) (bs_rg s) (bs_bip s) \<Longrightarrow> bp_cap (bs_bip s) = cap \<Longrightarrow>
   bs_sent s = bs_recv s @ contents (bs_bip s) \<Longrightarrow>
   pwait_ok (bs_pwait s) (bs_bip s) \<Longrightarrow> cwait_ok (bs_cwait s) (bs_bip s) \<Longrightarrow> bip_inv cap s"
  by (simp add: bip_inv_def)

lemma grant_take:
  assumes "grant_slice g t = Inr bs"
  shows "part (ab_data (bp_buf t)) (gr_start g) (gr_start g + min used (gr_len g)) = take used bs"
  using assms by (auto simp: grant_slice_def part_def rbind_Inr_iff rassert_def split: if_splits)

lemma bip_inv_step_reserve:
  assumes inv: "bip_inv cap s"
    and reserve: "s' = s\<lparr>bs_bip := t, bs_wg := (if r = None then bs_wg s else r), bs_pwait := None\<rparr>"
      "try_reserve n (bs_bip s) = Inr (r, t)"
  shows "bip_inv cap s'"
proof -
  note i = inv [unfolded bip_inv_def]
  have ok: "bip_ok (bs_wg s) (bs_rg s) (bs_bip s)" and cap: "bp_cap (bs_bip s) = cap"
    and fifo: "bs_sent s = bs_recv s @ contents (bs_bip s)"
    and pw: "pwait_ok (bs_pwait s) (bs_bip s)" and cw: "cwait_ok (bs_cwait s) (bs_bip s)" using i by auto
  note p = try_reserve_wp [OF ok, of n, unfolded reserve(2) wp_simps prod.case]
  have "bip_ok (if r = None then bs_wg s else r) (bs_rg s) t" using p by (auto simp: reserve_post_def split: if_splits)
  moreover from bip_ok_rip [OF ok this] have "cwait_ok (bs_cwait s) t"
    using cwait_kept [OF cw, of t "[]"] p by (simp add: reserve_post_def still_waiting_def split: option.splits)
  ultimately show ?thesis using p reserve(1) cap fifo by (intro bip_invI) (simp_all add: reserve_post_def)
qed

lemma bip_inv_step_poll_reserve:
  assumes inv: "bip_inv cap s"
    and poll_reserve: "s' = s\<lparr>bs_bip := t, bs_wg := (case r of Ready g \<Rightarrow> Some g | Pending \<Rightarrow> bs_wg s), bs_pwait := (case r of Ready g \<Rightarrow> None | Pending \<Rightarrow> Some (w, n)), bs_cwait := still_waiting ws (bs_cwait s)\<rparr>"
      "bip_reserve n (bs_bip s) = Inr n"
      "reserve_poll n w (bs_bip s) = Inr (r, ws, t)"
  shows "bip_inv cap s'"
proof -
  note i = inv [unfolded bip_inv_def]
  have ok: "bip_ok (bs_wg s) (bs_rg s) (bs_bip s)" and cap: "bp_cap (bs_bip s) = cap"
    and fifo: "bs_sent s = bs_recv s @ contents (bs_bip s)"
    and pw: "pwait_ok (bs_pwait s) (bs_bip s)" and cw: "cwait_ok (bs_cwait s) (bs_bip s)" using i by auto
  note p = reserve_poll_wp [OF ok, of n w, unfolded poll_reserve(3) wp_simps prod.case]
  have n: "n \<le> cap" using poll_reserve(2) cap by (auto simp: bip_reserve_def rbind_Inr_iff rassert_def split: if_splits)
  have g: "bip_ok (case r of Ready g \<Rightarrow> Some g | Pending \<Rightarrow> bs_wg s) (bs_rg s) t" using p by (auto split: if_splits)
  moreover from bip_ok_rip [OF ok this] have "cwait_ok (still_waiting ws (bs_cwait s)) t"
    using cwait_kept [OF cw] p by simp
  moreover have "pwait_ok (case r of Ready g \<Rightarrow> None | Pending \<Rightarrow> Some (w, n)) t"
    using p n cap by (auto simp: pwait_ok_def split: if_splits)
  ultimately show ?thesis using p poll_reserve(1) cap fifo by (intro bip_invI) simp_all
qed

lemma bip_inv_step_fill:
  assumes inv: "bip_inv cap s"
    and fill: "s' = s\<lparr>bs_bip := t\<rparr>" "bs_wg s = Some g" "grant_write g j xs (bs_bip s) = Inr t"
  shows "bip_inv cap s'"
proof -
  note i = inv [unfolded bip_inv_def]
  have ok: "bip_ok (bs_wg s) (bs_rg s) (bs_bip s)" and cap: "bp_cap (bs_bip s) = cap"
    and fifo: "bs_sent s = bs_recv s @ contents (bs_bip s)"
    and pw: "pwait_ok (bs_pwait s) (bs_bip s)" and cw: "cwait_ok (bs_cwait s) (bs_bip s)" using i by auto
  have "j + length xs \<le> gr_len g"
    using fill(3) by (auto simp: grant_write_def rbind_Inr_iff rassert_def split: if_splits)
  note p = grant_write_wp [OF ok [unfolded fill(2)] this, unfolded fill(3) wp_simps]
  have "pwait_ok (bs_pwait s) t" "cwait_ok (bs_cwait s) t"
    using pw cw p by (simp_all add: pwait_ok_def cwait_ok_def)
  then show ?thesis using p fill(1,2) cap fifo by (intro bip_invI) simp_all
qed

lemma bip_inv_step_read:
  assumes inv: "bip_inv cap s"
    and read: "s' = s\<lparr>bs_bip := t, bs_rg := (if r = None then bs_rg s else r), bs_pwait := still_reserving ws (bs_pwait s), bs_cwait := None\<rparr>"
      "bip_try_read (bs_bip s) = Inr (r, ws, t)"
  shows "bip_inv cap s'"
proof -
  note i = inv [unfolded bip_inv_def]
  have ok: "bip_ok (bs_wg s) (bs_rg s) (bs_bip s)" and cap: "bp_cap (bs_bip s) = cap"
    and fifo: "bs_sent s = bs_recv s @ contents (bs_bip s)"
    and pw: "pwait_ok (bs_pwait s) (bs_bip s)" and cw: "cwait_ok (bs_cwait s) (bs_bip s)" using i by auto
  note p = bip_try_read_wp [OF ok, unfolded read(2) wp_simps prod.case]
  have "bip_ok (bs_wg s) (if r = None then bs_rg s else r) t" using p by (auto simp: read_post_def split: if_splits)
  moreover have "pwait_ok (still_reserving ws (bs_pwait s)) t"
    using pwait_kept [OF pw read_post_kept [OF p]] p by (simp add: read_post_def)
  ultimately show ?thesis using p read(1) cap fifo by (intro bip_invI) (simp_all add: read_post_def)
qed

lemma bip_inv_step_poll_read:
  assumes inv: "bip_inv cap s"
    and poll_read: "s' = s\<lparr>bs_bip := t, bs_rg := (case r of Ready g \<Rightarrow> Some g | Pending \<Rightarrow> bs_rg s), bs_pwait := still_reserving ws (bs_pwait s), bs_cwait := (case r of Ready g \<Rightarrow> None | Pending \<Rightarrow> Some w)\<rparr>"
      "read_poll w (bs_bip s) = Inr (r, ws, t)"
  shows "bip_inv cap s'"
proof -
  note i = inv [unfolded bip_inv_def]
  have ok: "bip_ok (bs_wg s) (bs_rg s) (bs_bip s)" and cap: "bp_cap (bs_bip s) = cap"
    and fifo: "bs_sent s = bs_recv s @ contents (bs_bip s)"
    and pw: "pwait_ok (bs_pwait s) (bs_bip s)" and cw: "cwait_ok (bs_cwait s) (bs_bip s)" using i by auto
  note p = read_poll_wp [OF ok, of w, unfolded poll_read(2) wp_simps prod.case]
  have "bip_ok (bs_wg s) (case r of Ready g \<Rightarrow> Some g | Pending \<Rightarrow> bs_rg s) t" using p by (auto split: if_splits)
  moreover have "pwait_ok (still_reserving ws (bs_pwait s)) t" using pwait_kept [OF pw] p by simp
  moreover have "cwait_ok (case r of Ready g \<Rightarrow> None | Pending \<Rightarrow> Some w) t"
    using p by (auto simp: cwait_ok_def split: if_splits)
  ultimately show ?thesis using p poll_read(1) cap fifo by (intro bip_invI) simp_all
qed

lemma bip_inv_step_put_back:
  assumes inv: "bip_inv cap s"
    and put_back: "s' = s\<lparr>bs_bip := t, bs_rg := None, bs_pwait := still_reserving ws (bs_pwait s), bs_cwait := still_waiting ws (bs_cwait s)\<rparr>"
      "bs_rg s = Some g"
      "read_grant_drop g (bs_bip s) = (ws, t)"
  shows "bip_inv cap s'"
proof -
  note i = inv [unfolded bip_inv_def]
  have ok: "bip_ok (bs_wg s) (bs_rg s) (bs_bip s)" and cap: "bp_cap (bs_bip s) = cap"
    and fifo: "bs_sent s = bs_recv s @ contents (bs_bip s)"
    and pw: "pwait_ok (bs_pwait s) (bs_bip s)" and cw: "cwait_ok (bs_cwait s) (bs_bip s)" using i by auto
  note p = read_grant_drop_ok [OF ok [unfolded put_back(2)], unfolded put_back(3) fst_conv snd_conv]
  have "still_waiting ws (bs_cwait s) = None" using p by (simp add: cwait_told [OF cw])
  moreover have "pwait_ok (still_reserving ws (bs_pwait s)) t"
    by (rule pwait_kept [OF pw]) (use p in \<open>simp_all add: kept_or_told_def\<close>)
  ultimately show ?thesis using p put_back(1) cap fifo by (intro bip_invI) simp_all
qed

lemma bip_inv_step:
  assumes inv: "bip_inv cap s" and step: "bip_step s s'"
  shows "bip_inv cap s'"
proof -
  note i = inv [unfolded bip_inv_def]
  have ok: "bip_ok (bs_wg s) (bs_rg s) (bs_bip s)" and cap: "bp_cap (bs_bip s) = cap"
    and fifo: "bs_sent s = bs_recv s @ contents (bs_bip s)"
    and pw: "pwait_ok (bs_pwait s) (bs_bip s)" and cw: "cwait_ok (bs_cwait s) (bs_bip s)" using i by auto
  show ?thesis using step
  proof cases
    case (reserve n r t)
    then show ?thesis by (rule bip_inv_step_reserve [OF inv])
  next
    case (poll_reserve n w r ws t)
    then show ?thesis by (rule bip_inv_step_poll_reserve [OF inv])
  next
    case (fill g j xs t)
    then show ?thesis by (rule bip_inv_step_fill [OF inv])
  next
    case (commit g bs used ws t)
    note p = commit_wp [OF ok [unfolded commit(2)], of used, unfolded commit(4) wp_simps prod.case]
    have "still_reserving ws (bs_pwait s) = None" "still_waiting ws (bs_cwait s) = None"
      using p by (simp_all add: pwait_told [OF pw] cwait_told [OF cw])
    then show ?thesis using p commit(1) cap fifo grant_take [OF commit(3)] by (intro bip_invI) simp_all
  next
    case (abandon g ws t)
    note p = write_grant_drop_ok [OF ok [unfolded abandon(2)], unfolded abandon(3) fst_conv snd_conv]
    have "still_reserving ws (bs_pwait s) = None" using p by (simp add: pwait_told [OF pw])
    moreover have "cwait_ok (still_waiting ws (bs_cwait s)) t" using cwait_kept [OF cw] p by simp
    ultimately show ?thesis using p abandon(1) cap fifo by (intro bip_invI) simp_all
  next
    case cancel_reserve
    then show ?thesis using ok cap fifo cw by (intro bip_invI) simp_all
  next
    case (read r ws t)
    then show ?thesis by (rule bip_inv_step_read [OF inv])
  next
    case (poll_read w r ws t)
    then show ?thesis by (rule bip_inv_step_poll_read [OF inv])
  next
    case (release g bs used ws t)
    note p = release_wp [OF ok [unfolded release(2)], of used, unfolded release(4) wp_simps prod.case]
    have "still_reserving ws (bs_pwait s) = None" "still_waiting ws (bs_cwait s) = None"
      using p by (simp_all add: pwait_told [OF pw] cwait_told [OF cw])
    then show ?thesis using p release(1) cap fifo grant_take [OF release(3)] by (intro bip_invI) simp_all
  next
    case (put_back g ws t)
    then show ?thesis by (rule bip_inv_step_put_back [OF inv])
  next
    case cancel_read
    then show ?thesis using ok cap fifo pw by (intro bip_invI) simp_all
  qed
qed

interpretation bp: invariant_system "bip_init cap" bip_step "bip_inv cap" for cap
  by unfold_locales (auto intro: bip_inv_init bip_inv_step)

section \<open>A run\<close>

text \<open>A four-byte buffer after three bytes were sent and taken out, with both sides waiting in turn.\<close>

definition demo_bip :: "byte list \<Rightarrow> nat \<Rightarrow> bool \<Rightarrow> bool \<Rightarrow> bip" where
  "demo_bip d w wip rip = \<lparr>bp_buf = \<lparr>ab_data = d, ab_len = 0, ab_cap = 4, ab_align = 1\<rparr>, bp_cap = 4, bp_write = w,
     bp_read = 0, bp_last = 4, bp_epoch = 0, bp_wip = wip, bp_rip = rip, bp_data = slot_new, bp_space = slot_new\<rparr>"

definition demo_sys :: "bip \<Rightarrow> grant option \<Rightarrow> grant option \<Rightarrow> byte list \<Rightarrow> (waker \<times> nat) option \<Rightarrow> bip_sys" where
  "demo_sys t wg rg sent pw = \<lparr>bs_bip = t, bs_wg = wg, bs_rg = rg, bs_sent = sent, bs_recv = [], bs_pwait = pw, bs_cwait = None\<rparr>"

definition demo_grant :: grant where
  "demo_grant = \<lparr>gr_start = 0, gr_len = 3, gr_handed_back = False\<rparr>"

lemma demo_cursors: "length d = 4 \<Longrightarrow> w \<le> 4 \<Longrightarrow> cursors_ok (demo_bip d w wip rip)"
  by (simp add: demo_bip_def cursors_ok_def)

lemma demo_reserve: "try_reserve 3 (demo_bip [0, 0, 0, 0] 0 False False) = Inr (Some demo_grant, demo_bip [0, 0, 0, 0] 0 True False)"
  by (simp add: try_reserve_def inner_try_reserve_def pick_start_def demo_bip_def demo_grant_def usize_sub_def)

lemma demo_fill: "grant_write demo_grant 0 [7, 8, 9] (demo_bip [0, 0, 0, 0] 0 True False) = Inr (demo_bip [7, 8, 9, 0] 0 True False)"
  by (simp add: grant_write_def write_at_def demo_bip_def demo_grant_def)

lemma demo_commit: "commit 3 demo_grant (demo_bip [7, 8, 9, 0] 0 True False) = Inr ([], demo_bip [7, 8, 9, 0] 3 False False)"
  by (simp add: commit_def demo_bip_def demo_grant_def Let_def signal_space_def signal_data_def write_grant_drop_def usize_add_ok)

lemma demo_read: "bip_try_read (demo_bip [7, 8, 9, 0] 3 False False) = Inr (Some demo_grant, [], demo_bip [7, 8, 9, 0] 3 False True)"
  by (subst bip_try_read_eval) (simp_all add: demo_cursors, simp_all add: demo_bip_def wrap_read_def demo_grant_def)

lemma bip_run:
  obtains s where "reach (bip_init 4) bip_step 4 s" "bs_sent s = [7, 8, 9]" "bs_recv s = []"
    "bs_rg s = Some demo_grant" "bs_bip s = demo_bip [7, 8, 9, 0] 3 False True" "bs_wg s = None"
proof
  have "replicate 4 (0 :: byte) = [0, 0, 0, 0]" "is_power_of_two 1"
    by (simp_all add: eval_nat_numeral is_power_of_two.simps)
  then have "bip_buffer_aligned (\<lambda>_. True) 4 1 = Inr (demo_bip [0, 0, 0, 0] 0 False False)"
    by (simp add: bip_buffer_aligned_def buffer_with_alignment_def u8_elem_def layout_for_def demo_bip_def)
  then have "reach (bip_init 4) bip_step 0 (demo_sys (demo_bip [0, 0, 0, 0] 0 False False) None None [] None)"
    by (auto intro!: reach.start exI [of _ "\<lambda>_. True"] simp: bip_init_def demo_sys_def)
  from reach.next_step [OF this, OF bip_step.reserve [where n = 3 and r = "Some demo_grant" and t = "demo_bip [0, 0, 0, 0] 0 True False"]] demo_reserve
  have "reach (bip_init 4) bip_step 1 (demo_sys (demo_bip [0, 0, 0, 0] 0 True False) (Some demo_grant) None [] None)"
    by (simp add: demo_sys_def)
  from reach.next_step [OF this, OF bip_step.fill [where g = demo_grant and i = 0 and xs = "[7, 8, 9]" and t = "demo_bip [7, 8, 9, 0] 0 True False"]] demo_fill
  have "reach (bip_init 4) bip_step 2 (demo_sys (demo_bip [7, 8, 9, 0] 0 True False) (Some demo_grant) None [] None)"
    by (simp add: demo_sys_def numeral_2_eq_2)
  from reach.next_step [OF this, OF bip_step.commit [where g = demo_grant and bs = "[7, 8, 9]" and used = 3 and ws = "[]" and t = "demo_bip [7, 8, 9, 0] 3 False False"]] demo_commit
  have "reach (bip_init 4) bip_step 3 (demo_sys (demo_bip [7, 8, 9, 0] 3 False False) None None [7, 8, 9] None)"
    by (simp add: demo_sys_def numeral_3_eq_3 numeral_2_eq_2 still_reserving_def still_waiting_def grant_slice_def demo_grant_def demo_bip_def)
  from reach.next_step [OF this, OF bip_step.read [where r = "Some demo_grant" and ws = "[]" and t = "demo_bip [7, 8, 9, 0] 3 False True"]] demo_read
  show "reach (bip_init 4) bip_step 4 (demo_sys (demo_bip [7, 8, 9, 0] 3 False True) None (Some demo_grant) [7, 8, 9] None)"
    by (simp add: demo_sys_def eval_nat_numeral still_reserving_def)
qed (simp_all add: demo_sys_def)

section \<open>Properties\<close>

text \<open>
  C28. The bip buffer is a FIFO byte stream: in every run the bytes committed are the bytes released
  followed by the unread ones, across wraps and cursor resets; an outstanding read grant shows exactly
  the oldest unread bytes, as one contiguous run; and \<open>try_read\<close> yields a grant exactly when none is
  out and something is unread.
\<close>

theorem bip_fifo:
  assumes "reach (bip_init cap) bip_step n s"
  shows "bs_sent s = bs_recv s @ contents (bs_bip s) \<and>
    (\<forall>g. bs_rg s = Some g \<longrightarrow> 0 < grant_size g \<and>
       grant_slice g (bs_bip s) = Inr (take (grant_size g) (contents (bs_bip s)))) \<and>
    wp (bip_try_read (bs_bip s)) (\<lambda>(r, _, t). (r \<noteq> None \<longleftrightarrow> bs_rg s = None \<and> bs_sent s \<noteq> bs_recv s) \<and>
      contents t = contents (bs_bip s))"
proof -
  have inv: "bip_inv cap s" using bp.reachable_inv assms by blast
  then have ok: "bip_ok (bs_wg s) (bs_rg s) (bs_bip s)" and fifo: "bs_sent s = bs_recv s @ contents (bs_bip s)"
    by (simp_all add: bip_inv_def)
  have c: "cursors_ok (bs_bip s)" using ok by (simp add: bip_ok_def)
  have "wp (bip_try_read (bs_bip s)) (\<lambda>(r, _, t). (r \<noteq> None \<longleftrightarrow> bs_rg s = None \<and> bs_sent s \<noteq> bs_recv s) \<and>
      contents t = contents (bs_bip s))"
    by (rule wp_mono [OF bip_try_read_wp [OF ok]])
      (use ok fifo in \<open>auto simp: read_post_def bip_ok_def split: if_splits\<close>)
  moreover have "0 < grant_size g \<and> grant_slice g (bs_bip s) = Inr (take (grant_size g) (contents (bs_bip s)))"
    if "bs_rg s = Some g" for g
    using that ok read_grant_slice [OF c, of g] by (simp add: bip_ok_def grant_size_def read_grant_ok_def)
  ultimately show ?thesis using fifo by blast
qed

theorem bip_fifo_witness:
  "\<exists>s g. reach (bip_init 4) bip_step 4 s \<and> bs_rg s = Some g \<and> contents (bs_bip s) = [7, 8, 9] \<and>
     grant_slice g (bs_bip s) = Inr (take (grant_size g) (contents (bs_bip s)))"
proof -
  obtain s where s: "reach (bip_init 4) bip_step 4 s" "bs_sent s = [7, 8, 9]" "bs_recv s = []" "bs_rg s = Some demo_grant"
    by (rule bip_run)
  from bip_fifo [OF s(1)] s show ?thesis by auto
qed

text \<open>
  C30. In every run an outstanding write grant and an outstanding read grant lie within the backing
  memory and do not overlap, at most one of each kind is out, and no call a client may make panics,
  overflows or spins.
\<close>

theorem bip_grants_disjoint:
  assumes "reach (bip_init cap) bip_step n s"
  shows "(\<forall>g. bs_wg s = Some g \<longrightarrow> gr_start g + gr_len g \<le> cap \<and>
        wp (commit used g (bs_bip s)) (\<lambda>_. True) \<and> wp (try_reserve m (bs_bip s)) (\<lambda>(r, _). r = None)) \<and>
    (\<forall>g. bs_rg s = Some g \<longrightarrow> gr_start g + gr_len g \<le> cap \<and>
        wp (release used g (bs_bip s)) (\<lambda>_. True) \<and> wp (bip_try_read (bs_bip s)) (\<lambda>(r, _). r = None)) \<and>
    (\<forall>g h. bs_wg s = Some g \<longrightarrow> bs_rg s = Some h \<longrightarrow>
        {gr_start g ..< gr_start g + gr_len g} \<inter> {gr_start h ..< gr_start h + gr_len h} = {}) \<and>
    wp (reserve_poll m w (bs_bip s)) (\<lambda>_. True) \<and> wp (read_poll w (bs_bip s)) (\<lambda>_. True)"
proof -
  have "bip_inv cap s" using bp.reachable_inv assms by blast
  then have ok: "bip_ok (bs_wg s) (bs_rg s) (bs_bip s)" and cap: "bp_cap (bs_bip s) = cap"
    by (simp_all add: bip_inv_def)
  have c: "cursors_ok (bs_bip s)" using ok by (simp add: bip_ok_def)
  have w: "gr_start g + gr_len g \<le> cap \<and> wp (commit used g (bs_bip s)) (\<lambda>_. True) \<and>
      wp (try_reserve m (bs_bip s)) (\<lambda>(r, _). r = None)" if "bs_wg s = Some g" for g
    using that ok cap commit_wp [of g "bs_rg s" "bs_bip s" used] try_reserve_busy [of "bs_bip s" m]
    by (auto simp: bip_ok_def write_grant_ok_def elim!: wp_mono)
  have r: "gr_start g + gr_len g \<le> cap \<and> wp (release used g (bs_bip s)) (\<lambda>_. True) \<and>
      wp (bip_try_read (bs_bip s)) (\<lambda>(r, _). r = None)" if "bs_rg s = Some g" for g
  proof -
    have "bp_rip (bs_bip s)" "read_grant_ok g (bs_bip s)" using that ok by (simp_all add: bip_ok_def)
    then show ?thesis
      using that ok cap c release_wp [of "bs_wg s" g "bs_bip s" used]
      by (auto simp: bip_try_read_def inner_try_read_def read_grant_ok_def cursors_ok_def elim!: wp_mono split: if_splits)
  qed
  have d: "{gr_start g ..< gr_start g + gr_len g} \<inter> {gr_start h ..< gr_start h + gr_len h} = {}"
    if "bs_wg s = Some g" "bs_rg s = Some h" for g h
    using that ok by (auto simp: bip_ok_def write_grant_ok_def read_grant_ok_def split: if_splits)
  have "wp (reserve_poll m w (bs_bip s)) (\<lambda>_. True)" "wp (read_poll w (bs_bip s)) (\<lambda>_. True)"
    using reserve_poll_wp [OF ok, of m w] read_poll_wp [OF ok, of w] by (auto elim!: wp_mono)
  with w r d show ?thesis by blast
qed

theorem bip_grants_disjoint_witness:
  "\<exists>s g. reach (bip_init 4) bip_step 4 s \<and> bs_rg s = Some g \<and> gr_start g + gr_len g \<le> 4 \<and>
     wp (release 2 g (bs_bip s)) (\<lambda>_. True)"
proof -
  obtain s where s: "reach (bip_init 4) bip_step 4 s" "bs_rg s = Some demo_grant" by (rule bip_run)
  from bip_grants_disjoint [OF s(1), of 2 0 0] s show ?thesis by auto
qed

text \<open>
  C31. A reservation succeeds exactly when no write grant is out and the request fits behind the write
  cursor or, strictly below the read cursor, at the head. When everything committed has been released
  and the consumer looks once more, the whole capacity can be reserved as one run: the cursors are
  never stranded.
\<close>

theorem bip_reserve_fits:
  assumes "reach (bip_init cap) bip_step n s"
  shows "wp (try_reserve m (bs_bip s)) (\<lambda>(r, _). r \<noteq> None \<longleftrightarrow> bs_wg s = None \<and> fits m (bs_bip s)) \<and>
    (bs_wg s = None \<and> bs_sent s = bs_recv s \<longrightarrow>
       wp (bip_try_read (bs_bip s)) (\<lambda>(r, _, t). r = None \<and>
         wp (try_reserve m t) (\<lambda>(r, _). if m \<le> cap then \<exists>g. r = Some g \<and> grant_size g = m else r = None)))"
proof -
  have "bip_inv cap s" using bp.reachable_inv assms by blast
  then have ok: "bip_ok (bs_wg s) (bs_rg s) (bs_bip s)" and cap: "bp_cap (bs_bip s) = cap"
    and fifo: "bs_sent s = bs_recv s @ contents (bs_bip s)" by (simp_all add: bip_inv_def)
  have "wp (try_reserve m (bs_bip s)) (\<lambda>(r, _). r \<noteq> None \<longleftrightarrow> bs_wg s = None \<and> fits m (bs_bip s))"
    by (rule wp_mono [OF try_reserve_wp [OF ok]]) (use ok in \<open>auto simp: reserve_post_def bip_ok_def split: if_splits\<close>)
  moreover have "wp (bip_try_read (bs_bip s)) (\<lambda>(r, _, t). r = None \<and>
         wp (try_reserve m t) (\<lambda>(r, _). if m \<le> cap then \<exists>g. r = Some g \<and> grant_size g = m else r = None))"
    if "bs_wg s = None" "bs_sent s = bs_recv s"
  proof (rule wp_mono [OF bip_try_read_wp [OF ok]])
    have empty: "contents (bs_bip s) = []" and nowg: "bs_wg s = None" using fifo that by simp_all
    have norg: "\<not> bp_rip (bs_bip s)"
      using ok read_grant_slice(2) [of "bs_bip s"] empty by (auto simp: bip_ok_def read_grant_ok_def)
    fix x assume "case x of (r, ws, t) \<Rightarrow> read_post (bs_wg s) (bs_rg s) (bs_bip s) r ws t"
    then obtain ws t where x: "x = (None, ws, t)" and t: "bip_ok None (bs_rg s) t" "drained t" "bp_cap t = cap"
      using empty norg nowg cap by (cases x) (auto simp: read_post_def)
    have f: "fits m t \<longleftrightarrow> m \<le> cap" using t(2,3) by (simp add: fits_def drained_def)
    have "wp (try_reserve m t) (\<lambda>(r, _). if m \<le> cap then \<exists>g. r = Some g \<and> grant_size g = m else r = None)"
      by (rule wp_mono [OF try_reserve_wp [OF t(1)]])
        (use f t(1) in \<open>auto simp: reserve_post_def grant_size_def bip_ok_def split: if_splits\<close>)
    then show "case x of (r, _, t) \<Rightarrow> r = None \<and>
         wp (try_reserve m t) (\<lambda>(r, _). if m \<le> cap then \<exists>g. r = Some g \<and> grant_size g = m else r = None)"
      by (simp add: x)
  qed
  ultimately show ?thesis by blast
qed

theorem bip_reserve_fits_witness:
  "\<exists>s. reach (bip_init 4) bip_step 4 s \<and> wp (try_reserve 1 (bs_bip s)) (\<lambda>(r, _). r \<noteq> None) \<and>
     wp (try_reserve 2 (bs_bip s)) (\<lambda>(r, _). r = None)"
proof -
  obtain s where s: "reach (bip_init 4) bip_step 4 s" "bs_bip s = demo_bip [7, 8, 9, 0] 3 False True" "bs_wg s = None"
    by (rule bip_run)
  from bip_reserve_fits [OF s(1), of 1] bip_reserve_fits [OF s(1), of 2] s show ?thesis
    by (intro exI [of _ s]) (auto simp: fits_def demo_bip_def elim!: wp_mono)
qed

text \<open>
  C32. A producer that waits for space and has not been woken waits for a request that still cannot be
  served, and is woken by the next commit, drop or release of a grant; a consumer that waits for data
  and has not been woken has nothing to read, and is woken by the next commit or by the end of the
  outstanding read grant. The two never wait at once while no grant is out.
\<close>

theorem bip_no_lost_wakeup:
  assumes "reach (bip_init cap) bip_step n s"
  shows "(\<forall>w m. bs_pwait s = Some (w, m) \<longrightarrow> (bs_wg s \<noteq> None \<or> \<not> fits m (bs_bip s)) \<and>
      (\<forall>g. bs_wg s = Some g \<longrightarrow> wp (commit used g (bs_bip s)) (\<lambda>(ws, _). w \<in> set ws) \<and>
         w \<in> set (fst (write_grant_drop g (bs_bip s)))) \<and>
      (\<forall>g. bs_rg s = Some g \<longrightarrow> wp (release used g (bs_bip s)) (\<lambda>(ws, _). w \<in> set ws))) \<and>
    (\<forall>w. bs_cwait s = Some w \<longrightarrow> (bs_rg s \<noteq> None \<or> bs_sent s = bs_recv s) \<and>
      (\<forall>g. bs_wg s = Some g \<longrightarrow> wp (commit used g (bs_bip s)) (\<lambda>(ws, _). w \<in> set ws)) \<and>
      (\<forall>g. bs_rg s = Some g \<longrightarrow> wp (release used g (bs_bip s)) (\<lambda>(ws, _). w \<in> set ws) \<and>
         w \<in> set (fst (read_grant_drop g (bs_bip s))))) \<and>
    (bs_pwait s = None \<or> bs_cwait s = None \<or> bs_wg s \<noteq> None \<or> bs_rg s \<noteq> None)"
proof -
  have "bip_inv cap s" using bp.reachable_inv assms by blast
  then have ok: "bip_ok (bs_wg s) (bs_rg s) (bs_bip s)" and cap: "bp_cap (bs_bip s) = cap"
    and fifo: "bs_sent s = bs_recv s @ contents (bs_bip s)"
    and pw: "pwait_ok (bs_pwait s) (bs_bip s)" and cw: "cwait_ok (bs_cwait s) (bs_bip s)"
    by (simp_all add: bip_inv_def)
  have flags: "bp_wip (bs_bip s) \<longleftrightarrow> bs_wg s \<noteq> None" "bp_rip (bs_bip s) \<longleftrightarrow> bs_rg s \<noteq> None"
    using ok by (auto simp: bip_ok_def)
  have p: "fst (slot_signal (bp_space (bs_bip s))) = [w] \<and> (bs_wg s \<noteq> None \<or> \<not> fits m (bs_bip s)) \<and> m \<le> cap"
    if "bs_pwait s = Some (w, m)" for w m
    using that pw flags cap parked_signal by (auto simp: pwait_ok_def)
  have q: "fst (slot_signal (bp_data (bs_bip s))) = [w] \<and> (bs_rg s \<noteq> None \<or> drained (bs_bip s))"
    if "bs_cwait s = Some w" for w
    using that cw flags parked_signal by (auto simp: cwait_ok_def)
  have com: "wp (commit used g (bs_bip s)) (\<lambda>(ws, _). set (fst (slot_signal (bp_space (bs_bip s)))) \<subseteq> set ws \<and>
      set (fst (slot_signal (bp_data (bs_bip s)))) \<subseteq> set ws) \<and>
      fst (write_grant_drop g (bs_bip s)) = fst (slot_signal (bp_space (bs_bip s)))" if "bs_wg s = Some g" for g
    using commit_wp [OF ok [unfolded that], of used] write_grant_drop_ok(3) [OF ok [unfolded that]]
    by (auto elim!: wp_mono)
  have rel: "wp (release used g (bs_bip s)) (\<lambda>(ws, _). set (fst (slot_signal (bp_space (bs_bip s)))) \<subseteq> set ws \<and>
      set (fst (slot_signal (bp_data (bs_bip s)))) \<subseteq> set ws) \<and>
      fst (read_grant_drop g (bs_bip s)) = fst (slot_signal (bp_data (bs_bip s)))" if "bs_rg s = Some g" for g
    using release_wp [OF ok [unfolded that], of used] read_grant_drop_ok(3) [OF ok [unfolded that]]
    by (auto elim!: wp_mono)
  have empty: "drained t \<Longrightarrow> contents t = [] \<and> (fits m t \<longleftrightarrow> m \<le> bp_cap t)" for t m
    by (simp add: drained_def contents_def fits_def)
  show ?thesis
  proof (intro conjI allI impI)
    show "bs_pwait s = None \<or> bs_cwait s = None \<or> bs_wg s \<noteq> None \<or> bs_rg s \<noteq> None"
      using p q empty [of "bs_bip s"] cap by (cases "bs_pwait s"; cases "bs_cwait s") auto
    show "bs_rg s \<noteq> None \<or> bs_sent s = bs_recv s" if "bs_cwait s = Some w" for w
      using q [OF that] empty fifo by auto
  qed (use p q com rel in \<open>fastforce elim!: wp_mono\<close>)+
qed

theorem bip_no_lost_wakeup_witness:
  "\<exists>s g. reach (bip_init 4) bip_step 5 s \<and> bs_pwait s = Some (6, 3) \<and> bs_rg s = Some g \<and>
     wp (release 1 g (bs_bip s)) (\<lambda>(ws, _). 6 \<in> set ws)"
proof -
  obtain s where s: "reach (bip_init 4) bip_step 4 s" "bs_rg s = Some demo_grant"
    "bs_bip s = demo_bip [7, 8, 9, 0] 3 False True" by (rule bip_run)
  have "bip_inv 4 s" using bp.reachable_inv s(1) by blast
  then have ok: "bip_ok (bs_wg s) (bs_rg s) (bs_bip s)" by (simp add: bip_inv_def)
  have "\<not> fits 3 (bs_bip s)" "bip_reserve 3 (bs_bip s) = Inr 3" by (simp_all add: s fits_def demo_bip_def bip_reserve_def)
  then obtain ws t where "reserve_poll 3 6 (bs_bip s) = Inr (Pending, ws, t)"
    using reserve_poll_wp [OF ok, of 3 6] by (auto simp: wp_ex)
  with \<open>bip_reserve 3 (bs_bip s) = Inr 3\<close>
  have run: "reach (bip_init 4) bip_step (Suc 4) (s\<lparr>bs_bip := t, bs_wg := bs_wg s, bs_pwait := Some (6, 3), bs_cwait := still_waiting ws (bs_cwait s)\<rparr>)"
    using reach.next_step [OF s(1), OF bip_step.poll_reserve [where n = 3 and w = 6 and r = Pending and ws = ws and t = t]] by simp
  from bip_no_lost_wakeup [OF run, of 1] s(2) run show ?thesis by (force simp: eval_nat_numeral)
qed

end
