(* ===== verification/Bip_Seqlock.thy ===== *)
theory Bip_Seqlock
  imports Bip_System
begin

text \<open>
  The two sides of the bip buffer one shared access at a time, under sequential consistency: the
  producer's reservation with its cursor reset, its commit, and the consumer's snapshot loop with the
  wrap and the release. Each side may act on a cursor the other has since moved. The epoch is a
  \<open>usize\<close> that two increments bracket around a reset; runs shorter than \<open>2 ^ 64\<close> steps keep it from
  wrapping. The signals between the sides are the subject of \<open>Notify\<close>.
\<close>

section \<open>The accesses\<close>

text \<open>
  The producer side. \<open>Res1 n\<close>: the gate was open, next the load of \<open>read\<close>; \<open>Res2 n r\<close>: the loaded value
  decides; \<open>Reset1..Reset5\<close>: the five stores of the cursor reset; \<open>Fill\<close>: a grant is out; \<open>Mark\<close>: the
  watermark store of \<open>commit\<close>; \<open>Publish\<close>: its store of \<open>write\<close>; \<open>Open\<close>: the clear of \<open>wip\<close>.
\<close>

datatype ppc =
    PIdle | Res1 nat | Res2 nat nat | Reset1 nat | Reset2 nat | Reset3 nat | Reset4 nat | Reset5 nat
  | Fill grant | Mark grant nat | Publish grant nat | POpen

text \<open>
  The consumer side. \<open>Epoch\<close>, \<open>LoadW\<close>, \<open>LoadR\<close>, \<open>LoadL\<close>, \<open>Again\<close>: the loads of the snapshot loop;
  \<open>Have w r l\<close>: the loop is left; \<open>Wrapped w l\<close>: the read cursor was set to the head; \<open>Look\<close>: a
  grant is out; \<open>COpen\<close>: the clear of \<open>rip\<close>.
\<close>

datatype cpc =
    CIdle | Epoch | LoadW usize | LoadR usize nat | LoadL usize nat nat | Again usize nat nat nat
  | Have nat nat nat | Wrapped nat nat | Look grant | COpen

record il_sys =
  il_bip :: bip
  il_p :: ppc
  il_c :: cpc
  il_sent :: "byte list"
  il_recv :: "byte list"

abbreviation il_upd :: "(bip \<Rightarrow> bip) \<Rightarrow> il_sys \<Rightarrow> il_sys" where
  "il_upd f s \<equiv> s\<lparr>il_bip := f (il_bip s)\<rparr>"

definition new_grant :: "nat \<Rightarrow> nat \<Rightarrow> grant" where
  "new_grant start len = \<lparr>gr_start = start, gr_len = len, gr_handed_back = False\<rparr>"

definition il_init :: "nat \<Rightarrow> il_sys \<Rightarrow> bool" where
  "il_init cap s \<longleftrightarrow> (\<exists>alloc align. bip_buffer_aligned alloc cap align = Inr (il_bip s)) \<and>
     il_p s = PIdle \<and> il_c s = CIdle \<and> il_sent s = [] \<and> il_recv s = []"

text \<open>The outcome of \<open>pick_start\<close>: a grant with the gate closed, or nothing.\<close>

definition granted :: "nat option \<Rightarrow> nat \<Rightarrow> il_sys \<Rightarrow> il_sys" where
  "granted start n s =
     (case start of
        None \<Rightarrow> s\<lparr>il_p := PIdle\<rparr>
      | Some start \<Rightarrow> s\<lparr>il_bip := (il_bip s)\<lparr>bp_wip := True\<rparr>, il_p := Fill (new_grant start n)\<rparr>)"

text \<open>The readable region from the loaded cursors.\<close>

definition region :: "nat \<Rightarrow> nat \<Rightarrow> nat \<Rightarrow> il_sys \<Rightarrow> il_sys res" where
  "region write read mark s =
     rbind (usize_sub (if write < read then mark else write) read) (\<lambda>len.
       Inr (if len = 0 then s\<lparr>il_c := CIdle\<rparr>
            else s\<lparr>il_bip := (il_bip s)\<lparr>bp_rip := True\<rparr>, il_c := Look (new_grant read len)\<rparr>))"

inductive il_step :: "il_sys \<Rightarrow> il_sys \<Rightarrow> bool" where
  \<comment> \<open>try_reserve\<close>
  gate: "il_p s = PIdle \<Longrightarrow> \<not> bp_wip (il_bip s) \<Longrightarrow> n \<le> bp_cap (il_bip s) \<Longrightarrow> il_step s (s\<lparr>il_p := Res1 n\<rparr>)"
| load_read: "il_p s = Res1 n \<Longrightarrow> il_step s (s\<lparr>il_p := Res2 n (bp_read (il_bip s))\<rparr>)"
| start_reset: "il_p s = Res2 n r \<Longrightarrow> r = bp_write (il_bip s) \<Longrightarrow> bp_write (il_bip s) \<noteq> 0 \<Longrightarrow>
    il_step s (s\<lparr>il_p := Reset1 n\<rparr>)"
| decide: "il_p s = Res2 n r \<Longrightarrow> \<not> (r = bp_write (il_bip s) \<and> bp_write (il_bip s) \<noteq> 0) \<Longrightarrow>
    pick_start (bp_cap (il_bip s)) r (bp_write (il_bip s)) n = Inr start \<Longrightarrow> il_step s (granted start n s)"
| reset1: "il_p s = Reset1 n \<Longrightarrow>
    il_step s (il_upd (\<lambda>t. t\<lparr>bp_epoch := bp_epoch t + 1\<rparr>) (s\<lparr>il_p := Reset2 n\<rparr>))"
| reset2: "il_p s = Reset2 n \<Longrightarrow> il_step s (il_upd (\<lambda>t. t\<lparr>bp_read := 0\<rparr>) (s\<lparr>il_p := Reset3 n\<rparr>))"
| reset3: "il_p s = Reset3 n \<Longrightarrow> il_step s (il_upd (\<lambda>t. t\<lparr>bp_write := 0\<rparr>) (s\<lparr>il_p := Reset4 n\<rparr>))"
| reset4: "il_p s = Reset4 n \<Longrightarrow> il_step s (il_upd (\<lambda>t. t\<lparr>bp_last := bp_cap t\<rparr>) (s\<lparr>il_p := Reset5 n\<rparr>))"
| reset5: "il_p s = Reset5 n \<Longrightarrow> pick_start (bp_cap (il_bip s)) 0 0 n = Inr start \<Longrightarrow>
    il_step s (granted start n (il_upd (\<lambda>t. t\<lparr>bp_epoch := bp_epoch t + 1\<rparr>) s))"
  \<comment> \<open>the write grant\<close>
| fill: "il_p s = Fill g \<Longrightarrow> grant_write g i xs (il_bip s) = Inr t \<Longrightarrow> il_step s (s\<lparr>il_bip := t\<rparr>)"
| abandon: "il_p s = Fill g \<Longrightarrow> il_step s (il_upd (\<lambda>t. t\<lparr>bp_wip := False\<rparr>) (s\<lparr>il_p := PIdle\<rparr>))"
| commit: "il_p s = Fill g \<Longrightarrow> u = min used (gr_len g) \<Longrightarrow>
    il_step s (s\<lparr>il_p := (if gr_start g = 0 \<and> bp_write (il_bip s) \<noteq> 0 then Mark g u else Publish g u)\<rparr>)"
| mark: "il_p s = Mark g u \<Longrightarrow>
    il_step s (il_upd (\<lambda>t. t\<lparr>bp_last := bp_write t\<rparr>) (s\<lparr>il_p := Publish g u\<rparr>))"
| publish: "il_p s = Publish g u \<Longrightarrow> grant_slice g (il_bip s) = Inr bs \<Longrightarrow> usize_add True (gr_start g) u = Inr w \<Longrightarrow>
    il_step s (il_upd (\<lambda>t. t\<lparr>bp_write := w\<rparr>) (s\<lparr>il_p := POpen, il_sent := il_sent s @ take u bs\<rparr>))"
| p_open: "il_p s = POpen \<Longrightarrow> il_step s (il_upd (\<lambda>t. t\<lparr>bp_wip := False\<rparr>) (s\<lparr>il_p := PIdle\<rparr>))"
  \<comment> \<open>try_read\<close>
| c_gate: "il_c s = CIdle \<Longrightarrow> \<not> bp_rip (il_bip s) \<Longrightarrow> il_step s (s\<lparr>il_c := Epoch\<rparr>)"
| epoch: "il_c s = Epoch \<Longrightarrow> e = bp_epoch (il_bip s) \<Longrightarrow>
    il_step s (s\<lparr>il_c := (if e AND 1 = 1 then Epoch else LoadW e)\<rparr>)"
| load_w: "il_c s = LoadW e \<Longrightarrow> il_step s (s\<lparr>il_c := LoadR e (bp_write (il_bip s))\<rparr>)"
| load_r: "il_c s = LoadR e w \<Longrightarrow> il_step s (s\<lparr>il_c := LoadL e w (bp_read (il_bip s))\<rparr>)"
| load_l: "il_c s = LoadL e w r \<Longrightarrow> il_step s (s\<lparr>il_c := Again e w r (bp_last (il_bip s))\<rparr>)"
| again: "il_c s = Again e w r l \<Longrightarrow>
    il_step s (s\<lparr>il_c := (if bp_epoch (il_bip s) = e then Have w r l else Epoch)\<rparr>)"
| wrap: "il_c s = Have w r l \<Longrightarrow> w < r \<Longrightarrow> r = l \<Longrightarrow>
    il_step s (il_upd (\<lambda>t. t\<lparr>bp_read := 0\<rparr>) (s\<lparr>il_c := Wrapped w l\<rparr>))"
| look: "il_c s = Have w r l \<Longrightarrow> \<not> (w < r \<and> r = l) \<Longrightarrow> region w r l s = Inr s' \<Longrightarrow> il_step s s'"
| look_wrapped: "il_c s = Wrapped w l \<Longrightarrow> region w 0 l s = Inr s' \<Longrightarrow> il_step s s'"
  \<comment> \<open>the read grant\<close>
| put_back: "il_c s = Look g \<Longrightarrow> il_step s (il_upd (\<lambda>t. t\<lparr>bp_rip := False\<rparr>) (s\<lparr>il_c := CIdle\<rparr>))"
| release: "il_c s = Look g \<Longrightarrow> grant_slice g (il_bip s) = Inr bs \<Longrightarrow> u = min used (gr_len g) \<Longrightarrow>
    usize_add True (bp_read (il_bip s)) u = Inr r \<Longrightarrow>
    il_step s (il_upd (\<lambda>t. t\<lparr>bp_read := r\<rparr>) (s\<lparr>il_c := COpen, il_recv := il_recv s @ take u bs\<rparr>))"
| c_open: "il_c s = COpen \<Longrightarrow> il_step s (il_upd (\<lambda>t. t\<lparr>bp_rip := False\<rparr>) (s\<lparr>il_c := CIdle\<rparr>))"

section \<open>Invariant\<close>

fun wgrant :: "ppc \<Rightarrow> grant option" where
  "wgrant (Fill g) = Some g" | "wgrant (Mark g u) = Some g" | "wgrant (Publish g u) = Some g" | "wgrant _ = None"

fun rgrant :: "cpc \<Rightarrow> grant option" where
  "rgrant (Look g) = Some g" | "rgrant _ = None"

fun resetting :: "ppc \<Rightarrow> bool" where
  "resetting (Reset2 n) = True" | "resetting (Reset3 n) = True" | "resetting (Reset4 n) = True"
| "resetting (Reset5 n) = True" | "resetting _ = False"

text \<open>
  A value of \<open>write\<close> the consumer loaded earlier in the same epoch still bounds unread bytes; a value of
  \<open>read\<close> the producer loaded earlier still bounds free space.
\<close>

definition old_write :: "nat \<Rightarrow> bip \<Rightarrow> bool" where
  "old_write w t \<longleftrightarrow>
     (if bp_read t \<le> w then w \<le> (if bp_write t < bp_read t then bp_last t else bp_write t)
      else w \<le> bp_write t \<and> bp_write t < bp_read t)"

definition old_read :: "nat \<Rightarrow> bip \<Rightarrow> bool" where
  "old_read r t \<longleftrightarrow>
     (if bp_write t < r then r \<le> bp_cap t \<and> (bp_write t < bp_read t \<longrightarrow> r \<le> bp_read t)
      else r \<le> bp_read t \<and> bp_read t \<le> bp_write t)"

fun p_ok :: "bip \<Rightarrow> ppc \<Rightarrow> bool" where
  "p_ok t (Res1 n) \<longleftrightarrow> n \<le> bp_cap t"
| "p_ok t (Res2 n r) \<longleftrightarrow> n \<le> bp_cap t \<and> old_read r t"
| "p_ok t (Reset1 n) \<longleftrightarrow> n \<le> bp_cap t \<and> drained t"
| "p_ok t (Reset2 n) \<longleftrightarrow> n \<le> bp_cap t"
| "p_ok t (Reset3 n) \<longleftrightarrow> n \<le> bp_cap t \<and> bp_read t = 0"
| "p_ok t (Reset4 n) \<longleftrightarrow> n \<le> bp_cap t \<and> bp_read t = 0 \<and> bp_write t = 0"
| "p_ok t (Reset5 n) \<longleftrightarrow> n \<le> bp_cap t \<and> bp_read t = 0 \<and> bp_write t = 0 \<and> bp_last t = bp_cap t"
| "p_ok t (Mark g u) \<longleftrightarrow> u \<le> gr_len g \<and> gr_start g = 0 \<and> bp_write t \<noteq> 0"
| "p_ok t (Publish g u) \<longleftrightarrow> u \<le> gr_len g \<and> (gr_start g = 0 \<and> bp_write t \<noteq> 0 \<longrightarrow> bp_last t = bp_write t)"
| "p_ok t _ \<longleftrightarrow> True"

text \<open>\<open>c_ok b t c\<close>: \<open>b\<close> tells whether the producer is between the two epoch increments.\<close>

fun c_ok :: "bool \<Rightarrow> bip \<Rightarrow> cpc \<Rightarrow> bool" where
  "c_ok b t (LoadW e) \<longleftrightarrow> even e \<and> e \<le> bp_epoch t"
| "c_ok b t (LoadR e w) \<longleftrightarrow> even e \<and> e \<le> bp_epoch t \<and> (bp_epoch t = e \<longrightarrow> old_write w t)"
| "c_ok b t (LoadL e w r) \<longleftrightarrow> even e \<and> e \<le> bp_epoch t \<and> (bp_epoch t = e \<longrightarrow> old_write w t \<and> r = bp_read t)"
| "c_ok b t (Again e w r l) \<longleftrightarrow> even e \<and> e \<le> bp_epoch t \<and>
     (bp_epoch t = e \<longrightarrow> old_write w t \<and> r = bp_read t \<and> (w < r \<longrightarrow> l = bp_last t))"
| "c_ok b t (Have w r l) \<longleftrightarrow>
     w = r \<or> (\<not> b \<and> old_write w t \<and> r = bp_read t \<and> (w < r \<longrightarrow> l = bp_last t))"
| "c_ok b t (Wrapped w l) \<longleftrightarrow> w = 0 \<or> (\<not> b \<and> bp_read t = 0 \<and> w \<le> bp_write t)"
| "c_ok b t _ \<longleftrightarrow> True"

definition core :: "grant option \<Rightarrow> grant option \<Rightarrow> bip \<Rightarrow> bool" where
  "core wg rg t \<longleftrightarrow> bip_ok wg rg (t\<lparr>bp_wip := (wg \<noteq> None), bp_rip := (rg \<noteq> None)\<rparr>)"

definition mid_reset :: "bip \<Rightarrow> bool" where
  "mid_reset t \<longleftrightarrow> odd (bp_epoch t) \<and> cursors_ok (t\<lparr>bp_epoch := 0, bp_read := 0, bp_write := 0\<rparr>)"

definition il_inv :: "nat \<Rightarrow> nat \<Rightarrow> il_sys \<Rightarrow> bool" where
  "il_inv cap n s \<longleftrightarrow> bp_cap (il_bip s) = cap \<and> unat (bp_epoch (il_bip s)) \<le> n \<and>
     p_ok (il_bip s) (il_p s) \<and> c_ok (resetting (il_p s)) (il_bip s) (il_c s) \<and>
     (if resetting (il_p s) then mid_reset (il_bip s) \<and> rgrant (il_c s) = None \<and> il_sent s = il_recv s
      else core (wgrant (il_p s)) (rgrant (il_c s)) (il_bip s) \<and> il_sent s = il_recv s @ contents (il_bip s))"

lemma core_iff:
  "core wg rg t \<longleftrightarrow> cursors_ok t \<and> (\<forall>g. wg = Some g \<longrightarrow> write_grant_ok g t) \<and> (\<forall>g. rg = Some g \<longrightarrow> read_grant_ok g t)"
  by (simp add: core_def bip_ok_def cursors_ok_def write_grant_ok_def read_grant_ok_def)

text \<open>Changes of the cursors the other side tolerates.\<close>

lemma old_write_publish:
  assumes "cursors_ok t" "write_grant_ok g t" "u \<le> gr_len g" "gr_start g = 0 \<and> bp_write t \<noteq> 0 \<longrightarrow> bp_last t = bp_write t"
    "old_write w t"
  shows "old_write w (t\<lparr>bp_write := gr_start g + u\<rparr>)"
  using assms(2)
proof (cases rule: write_grant_cases)
  case inv
  then show ?thesis using assms(3,5) by (simp add: old_write_def split: if_splits)
next
  case tail
  then show ?thesis using assms(3,5) by (simp add: old_write_def split: if_splits)
next
  case wrap
  then have "bp_last t = bp_write t" "bp_read t \<le> w \<and> w \<le> bp_write t"
    using assms(4,5) unfolding old_write_def by (simp_all split: if_splits)
  with wrap assms(3) show ?thesis by (simp add: old_write_def)
qed

lemma old_read_consume:
  assumes "read_grant_ok g t" "u \<le> gr_len g" "old_read r t"
  shows "old_read r (t\<lparr>bp_read := bp_read t + u\<rparr>)"
  using assms by (auto simp: old_read_def read_grant_ok_def split: if_splits)

lemma old_read_wrap: "bp_write t < bp_read t \<Longrightarrow> old_read r t \<Longrightarrow> old_read r (t\<lparr>bp_read := 0\<rparr>)"
  by (auto simp: old_read_def split: if_splits)

lemma old_write_drained: "old_write w t \<Longrightarrow> drained t \<Longrightarrow> w = bp_read t"
  by (auto simp: old_write_def drained_def split: if_splits)

lemma c_ok_frozen:
  "c_ok True t c \<Longrightarrow> odd (bp_epoch t) \<Longrightarrow> bp_epoch t' = bp_epoch t \<Longrightarrow> c_ok True t' c"
  by (cases c) auto

lemma unat_epoch_Suc: "unat (e :: usize) \<le> n \<Longrightarrow> Suc n < usize_bound \<Longrightarrow> unat (e + 1) = Suc (unat e)"
proof -
  assume n: "unat e \<le> n" "Suc n < usize_bound"
  have "1 + e \<noteq> 0"
  proof
    assume "1 + e = 0"
    then have "e = - 1" by (simp add: eq_neg_iff_add_eq_0 add.commute)
    then have "unat e = 2 ^ 64 - 1" by (simp only: unsigned_minus_1_eq_mask mask_eq_exp_minus_1) simp
    with n show False by (simp add: usize_bound_def)
  qed
  then show ?thesis by (simp add: unatSuc add.commute [of e])
qed

lemma epoch_less: "unat (e :: usize) \<le> n \<Longrightarrow> Suc n < usize_bound \<Longrightarrow> e < e + 1"
  by (simp add: word_less_nat_alt unat_epoch_Suc)

lemma core_contents_flags [simp]:
  "core wg rg (t\<lparr>bp_wip := b\<rparr>) = core wg rg t" "core wg rg (t\<lparr>bp_rip := b\<rparr>) = core wg rg t"
  by (simp_all add: core_iff cursors_ok_def write_grant_ok_def read_grant_ok_def)

lemma ok_flags [simp]:
  "p_ok (t\<lparr>bp_wip := b\<rparr>) p = p_ok t p" "p_ok (t\<lparr>bp_rip := b\<rparr>) p = p_ok t p"
  "c_ok r (t\<lparr>bp_wip := b\<rparr>) c = c_ok r t c" "c_ok r (t\<lparr>bp_rip := b\<rparr>) c = c_ok r t c"
  by (cases p; simp add: old_read_def drained_def)+ (cases c; simp add: old_write_def)+

lemma core_drop: "core wg rg t \<Longrightarrow> core None rg t" "core wg rg t \<Longrightarrow> core wg None t"
  by (simp_all add: core_iff)

text \<open>A reservation from a possibly stale \<open>read\<close> is sound.\<close>

lemma decide_ok:
  assumes c: "cursors_ok t" and r: "old_read r t" and "\<not> (r = bp_write t \<and> bp_write t \<noteq> 0)"
    and pick: "pick_start (bp_cap t) r (bp_write t) n = Inr (Some start)"
  shows "write_grant_ok (new_grant start n) t"
proof (cases "bp_write t < r")
  case True
  then have "start = bp_write t" "bp_write t + n < r"
    using pick by (auto simp: pick_start_def usize_sub_def split: if_splits)
  with True r show ?thesis by (auto simp: write_grant_ok_def new_grant_def old_read_def)
next
  case False
  then have le: "r \<le> bp_read t" "bp_read t \<le> bp_write t" using r by (auto simp: old_read_def)
  have "bp_write t \<le> bp_cap t" using c by (simp add: cursors_ok_def)
  then consider "start = bp_write t" "bp_write t + n \<le> bp_cap t" | "start = 0" "n < r"
    using False pick by (auto simp: pick_start_def usize_sub_def split: if_splits)
  then show ?thesis
    by cases (use le c in \<open>auto simp: write_grant_ok_def new_grant_def cursors_ok_def\<close>)
qed

lemma granted_inv:
  assumes "bp_cap (il_bip s) = cap" "unat (bp_epoch (il_bip s)) \<le> n" "c_ok False (il_bip s) (il_c s)"
    "core None (rgrant (il_c s)) (il_bip s)" "il_sent s = il_recv s @ contents (il_bip s)"
    "\<And>st. start = Some st \<Longrightarrow> write_grant_ok (new_grant st m) (il_bip s)"
  shows "il_inv cap n (granted start m s)"
proof (cases start)
  case None
  then show ?thesis using assms by (simp add: granted_def il_inv_def)
next
  case (Some st)
  then show ?thesis using assms by (simp add: granted_def il_inv_def) (simp add: core_iff)
qed

lemma il_inv_Suc: "il_inv cap n s \<Longrightarrow> il_inv cap (Suc n) s"
  by (auto simp: il_inv_def)

lemma mid_reset_core:
  assumes "mid_reset t" "bp_read t = 0" "bp_write t = 0" "bp_last t = bp_cap t"
  shows "core None None (t\<lparr>bp_epoch := bp_epoch t + 1\<rparr>)" "contents t = []"
  using assms by (simp_all add: mid_reset_def core_iff cursors_ok_def contents_def)

lemma reset_start:
  assumes "core wg rg t" "drained t"
  shows "mid_reset (t\<lparr>bp_epoch := bp_epoch t + 1\<rparr>)" "rg = None" "contents t = []"
proof -
  show "mid_reset (t\<lparr>bp_epoch := bp_epoch t + 1\<rparr>)"
    using assms by (auto simp: core_iff mid_reset_def cursors_ok_def)
  show "rg = None" using assms by (cases rg) (auto simp: core_iff read_grant_ok_def drained_def)
  show "contents t = []" using assms(2) by (simp add: drained_def contents_def)
qed

lemma mid_reset_simps [simp]:
  "mid_reset (t\<lparr>bp_read := 0\<rparr>) = mid_reset t" "mid_reset (t\<lparr>bp_write := 0\<rparr>) = mid_reset t"
  by (simp_all add: mid_reset_def cursors_ok_def)

lemma mid_reset_last: "mid_reset t \<Longrightarrow> mid_reset (t\<lparr>bp_last := bp_cap t\<rparr>)"
  by (simp add: mid_reset_def cursors_ok_def)

lemma c_ok_bump:
  assumes "c_ok b t c" "unat (bp_epoch t) \<le> n" "Suc n < usize_bound" "b \<or> drained t"
  shows "c_ok r (t\<lparr>bp_epoch := bp_epoch t + 1\<rparr>) c"
proof -
  have less: "bp_epoch t < bp_epoch t + 1" using epoch_less assms(2,3) by blast
  then have "e \<le> bp_epoch t \<Longrightarrow> e \<le> bp_epoch t + 1 \<and> bp_epoch t + 1 \<noteq> e" for e by auto
  with assms(1,4) show ?thesis
    by (cases c) (auto dest: old_write_drained simp: drained_def)
qed

text \<open>The steps of the producer.\<close>

lemma il_fill:
  assumes inv: "il_inv cap n s" and p: "il_p s = Fill g" and w: "grant_write g i xs (il_bip s) = Inr t"
  shows "il_inv cap n (s\<lparr>il_bip := t\<rparr>)"
proof -
  let ?d = "ab_data (bp_buf (il_bip s))"
  have le: "gr_start g + gr_len g \<le> length ?d" "i + length xs \<le> gr_len g"
    and t: "t = (il_bip s)\<lparr>bp_buf := (bp_buf (il_bip s))\<lparr>ab_data := take (gr_start g + i) ?d @ xs @ drop (gr_start g + i + length xs) ?d\<rparr>\<rparr>"
    using w by (auto simp: grant_write_def write_at_def rbind_Inr_iff rassert_def split: if_splits)
  have c: "core (Some g) (rgrant (il_c s)) (il_bip s)" using inv p by (simp add: il_inv_def)
  then have k: "cursors_ok (il_bip s)" "write_grant_ok g (il_bip s)" by (auto simp: core_iff)
  have "contents t = contents (il_bip s)" using contents_update [OF k le(2)] by (simp add: t)
  moreover have "core (Some g) (rgrant (il_c s)) t"
    using c le by (auto simp: t core_iff cursors_ok_def write_grant_ok_def read_grant_ok_def)
  moreover have "c_ok False t (il_c s) = c_ok False (il_bip s) (il_c s)"
    by (cases "il_c s") (simp_all add: t old_write_def)
  ultimately show ?thesis using inv p by (simp add: il_inv_def) (simp add: t)
qed

lemma il_mark:
  assumes inv: "il_inv cap n s" and p: "il_p s = Mark g u"
  shows "il_inv cap n (il_upd (\<lambda>t. t\<lparr>bp_last := bp_write t\<rparr>) (s\<lparr>il_p := Publish g u\<rparr>))"
proof -
  let ?t = "il_bip s"
  have c: "core (Some g) (rgrant (il_c s)) ?t" and m: "u \<le> gr_len g" "gr_start g = 0" "bp_write ?t \<noteq> 0"
    using inv p by (simp_all add: il_inv_def)
  then have nw: "\<not> bp_write ?t < bp_read ?t" by (auto simp: core_iff write_grant_ok_def)
  then have "c_ok False (?t\<lparr>bp_last := bp_write ?t\<rparr>) (il_c s) = c_ok False ?t (il_c s)"
    by (cases "il_c s") (auto simp: old_write_def)
  moreover have "core (Some g) (rgrant (il_c s)) (?t\<lparr>bp_last := bp_write ?t\<rparr>)"
    using c nw by (auto simp: core_iff cursors_ok_def write_grant_ok_def read_grant_ok_def)
  moreover have "contents (?t\<lparr>bp_last := bp_write ?t\<rparr>) = contents ?t" using nw by (simp add: contents_def)
  ultimately show ?thesis using inv p m by (simp add: il_inv_def)
qed

lemma il_publish:
  assumes inv: "il_inv cap n s" and p: "il_p s = Publish g u" and bs: "grant_slice g (il_bip s) = Inr bs"
    and w: "usize_add True (gr_start g) u = Inr w"
  shows "il_inv cap n (il_upd (\<lambda>t. t\<lparr>bp_write := w\<rparr>) (s\<lparr>il_p := POpen, il_sent := il_sent s @ take u bs\<rparr>))"
proof -
  let ?t = "il_bip s" and ?rg = "rgrant (il_c s)"
  let ?v = "?t\<lparr>bp_wip := True, bp_rip := (?rg \<noteq> None)\<rparr>"
  have c: "core (Some g) ?rg ?t" and u: "u \<le> gr_len g" "gr_start g = 0 \<and> bp_write ?t \<noteq> 0 \<longrightarrow> bp_last ?t = bp_write ?t"
    and co: "c_ok False ?t (il_c s)"
    using inv p by (simp_all add: il_inv_def)
  have k: "cursors_ok ?t" "write_grant_ok g ?t" using c by (auto simp: core_iff)
  have "gr_start g + u < usize_bound" using k u(1) by (auto simp: cursors_ok_def write_grant_ok_def)
  then have weq: "w = gr_start g + u" using w by (simp add: usize_add_ok)
  let ?t' = "?t\<lparr>bp_write := w\<rparr>"
  have "bip_ok (Some g) ?rg ?v" using c by (simp add: core_def)
  from publish_ok [OF this u(1)]
  have pub: "core None ?rg (publish g u ?v)"
    "contents (publish g u ?v) = contents ?t @ part (ab_data (bp_buf ?t)) (gr_start g) (gr_start g + u)"
    by (auto simp: bip_ok_def core_iff)
  moreover have eq: "publish g u ?v = ?t'\<lparr>bp_wip := False, bp_rip := (?rg \<noteq> None)\<rparr>"
    using u(2) by (simp add: publish_def weq)
  ultimately have "core None ?rg ?t'" "contents ?t' = contents ?t @ take u bs"
    using grant_take [OF bs, of u] u(1) by (simp_all add: min_absorb1)
  moreover have "old_write v ?t'" if "old_write v ?t" for v
    using old_write_publish [OF k u that] by (simp add: weq)
  then have "c_ok False ?t' (il_c s)"
    using co k u by (cases "il_c s") (auto simp: weq write_grant_ok_def)
  ultimately show ?thesis using inv p by (simp add: il_inv_def)
qed

text \<open>The steps of the consumer.\<close>

lemma p_ok_consume:
  assumes "read_grant_ok g t" "u \<le> gr_len g" "p_ok t p" "\<not> resetting p"
  shows "p_ok (t\<lparr>bp_read := bp_read t + u\<rparr>) p"
  using assms old_read_consume [OF assms(1,2)]
  by (cases p) (auto simp: read_grant_ok_def drained_def split: if_splits)

lemma p_ok_wrap:
  "bp_write t < bp_read t \<Longrightarrow> p_ok t p \<Longrightarrow> \<not> resetting p \<Longrightarrow> p_ok (t\<lparr>bp_read := 0\<rparr>) p"
  by (cases p) (auto simp: drained_def old_read_wrap)

lemma read_flags [simp]:
  "core wg rg (t\<lparr>bp_wip := b, bp_read := r\<rparr>) = core wg rg (t\<lparr>bp_read := r\<rparr>)"
  "contents (t\<lparr>bp_wip := b, bp_read := r\<rparr>) = contents (t\<lparr>bp_read := r\<rparr>)"
  by (simp_all add: core_iff cursors_ok_def write_grant_ok_def read_grant_ok_def contents_def)

lemma il_release:
  assumes inv: "il_inv cap n s" and c: "il_c s = Look g" and bs: "grant_slice g (il_bip s) = Inr bs"
    and u: "u = min used (gr_len g)" and r: "usize_add True (bp_read (il_bip s)) u = Inr r"
  shows "il_inv cap n (il_upd (\<lambda>t. t\<lparr>bp_read := r\<rparr>) (s\<lparr>il_c := COpen, il_recv := il_recv s @ take u bs\<rparr>))"
proof -
  let ?t = "il_bip s" and ?wg = "wgrant (il_p s)"
  let ?v = "?t\<lparr>bp_wip := (?wg \<noteq> None), bp_rip := True\<rparr>"
  have nr: "\<not> resetting (il_p s)" using inv c by (auto simp: il_inv_def)
  then have k: "core ?wg (Some g) ?t" "p_ok ?t (il_p s)" "il_sent s = il_recv s @ contents ?t"
    using inv c by (simp_all add: il_inv_def)
  have le: "u \<le> gr_len g" using u by simp
  have g: "read_grant_ok g ?t" "cursors_ok ?t" using k(1) by (auto simp: core_iff)
  then have "bp_read ?t + u < usize_bound" using le by (auto simp: read_grant_ok_def cursors_ok_def split: if_splits)
  then have req: "r = bp_read ?t + u" using r by (simp add: usize_add_ok)
  have "bip_ok ?wg (Some g) ?v" using k(1) by (simp add: core_def)
  from consume_ok [OF this le] have "core ?wg None (?v\<lparr>bp_read := bp_read ?v + u, bp_rip := False\<rparr>)"
    "contents ?t = part (ab_data (bp_buf ?t)) (gr_start g) (gr_start g + u) @ contents (?v\<lparr>bp_read := bp_read ?v + u, bp_rip := False\<rparr>)"
    by (simp_all add: bip_ok_def core_iff)
  then have "core ?wg None (?t\<lparr>bp_read := r\<rparr>)" "contents ?t = take u bs @ contents (?t\<lparr>bp_read := r\<rparr>)"
    using grant_take [OF bs, of u] le by (simp_all add: min_absorb1 req)
  then show ?thesis
    using inv c k nr p_ok_consume [OF g(1) le k(2) nr] by (simp add: il_inv_def req)
qed

lemma il_wrap:
  assumes inv: "il_inv cap n s" and c: "il_c s = Have w r l" and wr: "w < r" "r = l"
  shows "il_inv cap n (il_upd (\<lambda>t. t\<lparr>bp_read := 0\<rparr>) (s\<lparr>il_c := Wrapped w l\<rparr>))"
proof -
  let ?t = "il_bip s" and ?wg = "wgrant (il_p s)"
  have nr: "\<not> resetting (il_p s)" and h: "old_write w ?t" "r = bp_read ?t" "l = bp_last ?t"
    using inv c wr by (auto simp: il_inv_def)
  then have k: "core ?wg None ?t" "p_ok ?t (il_p s)" "il_sent s = il_recv s @ contents ?t"
    using inv c by (simp_all add: il_inv_def)
  have i: "w \<le> bp_write ?t" "bp_write ?t < bp_read ?t" using h(1,2) wr(1) by (auto simp: old_write_def)
  have "bip_ok ?wg None (?t\<lparr>bp_wip := (?wg \<noteq> None), bp_rip := False\<rparr>)" using k(1) by (simp add: core_def)
  from wrap_read_ok(1,2) [OF this] have "core ?wg None (?t\<lparr>bp_read := 0\<rparr>)" "contents (?t\<lparr>bp_read := 0\<rparr>) = contents ?t"
    using i h wr k(1)
    by (auto simp: wrap_read_def bip_ok_def core_iff cursors_ok_def write_grant_ok_def contents_def)
  then show ?thesis using inv c k nr i p_ok_wrap [OF i(2) k(2) nr] by (simp add: il_inv_def)
qed

lemma il_region:
  assumes inv: "il_inv cap n s" and c: "il_c s = Have w r l \<and> \<not> (w < r \<and> r = l) \<or> il_c s = Wrapped w l \<and> r = 0"
  shows "wp (region w r l s) (il_inv cap n)"
proof (cases "w = r")
  case True
  then show ?thesis using inv c by (auto simp: region_def il_inv_def)
next
  case False
  let ?t = "il_bip s"
  have nr: "\<not> resetting (il_p s)" and rr: "r = bp_read ?t" and h: "old_write w ?t" "w < r \<longrightarrow> l = bp_last ?t \<and> r \<noteq> l"
    using inv c False by (auto simp: il_inv_def old_write_def split: if_splits)
  have k: "core (wgrant (il_p s)) None ?t" using inv c nr by (auto simp: il_inv_def)
  then have cu: "cursors_ok ?t" by (simp add: core_iff)
  let ?m = "if w < r then l else w"
  have m: "r < ?m" "?m \<le> (if bp_write ?t < bp_read ?t then bp_last ?t else bp_write ?t)"
    using False h rr cu by (auto simp: old_write_def cursors_ok_def split: if_splits)
  then have "read_grant_ok (new_grant r (?m - r)) ?t" by (simp add: read_grant_ok_def new_grant_def rr)
  with k have "core (wgrant (il_p s)) (Some (new_grant r (?m - r))) ?t" by (simp add: core_iff)
  moreover have "region w r l s = Inr (s\<lparr>il_bip := ?t\<lparr>bp_rip := True\<rparr>, il_c := Look (new_grant r (?m - r))\<rparr>)"
    using m(1) by (simp add: region_def usize_sub_def)
  ultimately show ?thesis using inv c nr by (auto simp: il_inv_def)
qed

lemma il_load:
  assumes inv: "il_inv cap n s" and c: "rgrant c = None" "rgrant (il_c s) = None"
    "c_ok (resetting (il_p s)) (il_bip s) c"
  shows "il_inv cap n (s\<lparr>il_c := c\<rparr>)"
  using inv c by (cases "resetting (il_p s)") (simp_all add: il_inv_def)

lemma old_write_now: "cursors_ok t \<Longrightarrow> old_write (bp_write t) t"
  by (auto simp: old_write_def cursors_ok_def)

lemma stable_epoch:
  assumes "il_inv cap n s" "even (bp_epoch (il_bip s))"
  shows "\<not> resetting (il_p s)" "cursors_ok (il_bip s)"
  using assms by (auto simp: il_inv_def mid_reset_def core_iff split: if_splits)

lemma il_reserve_step:
  assumes inv: "il_inv cap n s" and p: "il_p s = Res2 m r"
  shows "r = bp_write (il_bip s) \<Longrightarrow> il_inv cap n (s\<lparr>il_p := Reset1 m\<rparr>)"
    "\<not> (r = bp_write (il_bip s) \<and> bp_write (il_bip s) \<noteq> 0) \<Longrightarrow>
     pick_start (bp_cap (il_bip s)) r (bp_write (il_bip s)) m = Inr start \<Longrightarrow> il_inv cap n (granted start m s)"
proof -
  have k: "core None (rgrant (il_c s)) (il_bip s)" "old_read r (il_bip s)" "m \<le> cap"
    using inv p by (auto simp: il_inv_def)
  show "il_inv cap n (s\<lparr>il_p := Reset1 m\<rparr>)" if "r = bp_write (il_bip s)"
    using inv p k that by (auto simp: il_inv_def old_read_def drained_def)
  show "il_inv cap n (granted start m s)" if "\<not> (r = bp_write (il_bip s) \<and> bp_write (il_bip s) \<noteq> 0)"
    "pick_start (bp_cap (il_bip s)) r (bp_write (il_bip s)) m = Inr start"
    by (rule granted_inv) (use inv p k that decide_ok [OF _ k(2) that(1)] in \<open>auto simp: il_inv_def core_iff\<close>)
qed

lemma il_reset_ends:
  assumes inv: "il_inv cap n s" and p: "il_p s = Reset5 m" and n: "Suc n < usize_bound"
    and pick: "pick_start (bp_cap (il_bip s)) 0 0 m = Inr start"
  shows "il_inv cap (Suc n) (granted start m (il_upd (\<lambda>t. t\<lparr>bp_epoch := bp_epoch t + 1\<rparr>) s))"
proof (rule granted_inv)
  let ?t = "il_bip s"
  let ?t' = "?t\<lparr>bp_epoch := bp_epoch ?t + 1\<rparr>"
  have z: "bp_read ?t = 0" "bp_write ?t = 0" "bp_last ?t = bp_cap ?t" and mid: "mid_reset ?t"
    and c: "c_ok True ?t (il_c s)" "rgrant (il_c s) = None" and e: "unat (bp_epoch ?t) \<le> n"
    and sent: "il_sent s = il_recv s" using inv p by (auto simp: il_inv_def)
  note core = mid_reset_core [OF mid z]
  show "c_ok False (il_bip (il_upd (\<lambda>t. t\<lparr>bp_epoch := bp_epoch t + 1\<rparr>) s)) (il_c (il_upd (\<lambda>t. t\<lparr>bp_epoch := bp_epoch t + 1\<rparr>) s))"
    using c_ok_bump [OF c(1) e n] by simp
  show "core None (rgrant (il_c (il_upd (\<lambda>t. t\<lparr>bp_epoch := bp_epoch t + 1\<rparr>) s))) (il_bip (il_upd (\<lambda>t. t\<lparr>bp_epoch := bp_epoch t + 1\<rparr>) s))"
    using core(1) c(2) by simp
  show "unat (bp_epoch (il_bip (il_upd (\<lambda>t. t\<lparr>bp_epoch := bp_epoch t + 1\<rparr>) s))) \<le> Suc n"
    using unat_epoch_Suc [OF e n] e by simp
  show "write_grant_ok (new_grant st m) (il_bip (il_upd (\<lambda>t. t\<lparr>bp_epoch := bp_epoch t + 1\<rparr>) s))" if "start = Some st" for st
  proof -
    have o: "old_read 0 ?t'" using z by (simp add: old_read_def)
    have "cursors_ok ?t'" using core(1) by (simp add: core_iff)
    from decide_ok [OF this o] have "write_grant_ok (new_grant st m) ?t'" using pick that z by simp
    then show ?thesis by simp
  qed
qed (use inv p mid_reset_core(2) in \<open>auto simp: il_inv_def contents_def\<close>)

lemma il_inv_step:
  assumes inv: "il_inv cap n s" and n: "Suc n < usize_bound" and step: "il_step s s'"
  shows "il_inv cap (Suc n) s'"
  using step
proof cases
  case (gate m)
  then show ?thesis using inv by (simp add: il_inv_def)
next
  case (load_read m)
  have "old_read (bp_read (il_bip s)) (il_bip s)"
    using inv load_read by (auto simp: il_inv_def core_iff cursors_ok_def old_read_def)
  then show ?thesis using inv load_read by (simp add: il_inv_def)
next
  case (start_reset m r)
  then show ?thesis using il_reserve_step(1) [OF inv] il_inv_Suc by blast
next
  case (decide m r start)
  then show ?thesis using il_reserve_step(2) [OF inv] il_inv_Suc by blast
next
  case (reset1 m)
  then have k: "core None (rgrant (il_c s)) (il_bip s)" "drained (il_bip s)" "unat (bp_epoch (il_bip s)) \<le> n"
    "c_ok False (il_bip s) (il_c s)" using inv by (auto simp: il_inv_def)
  then show ?thesis
    using inv reset1 reset_start [OF k(1,2)] c_ok_bump [OF k(4,3) n] unat_epoch_Suc [OF k(3) n]
    by (simp add: il_inv_def)
next
  case (reset2 m)
  then show ?thesis using inv c_ok_frozen [of "il_bip s" "il_c s"] by (simp add: il_inv_def mid_reset_def [of "il_bip s"])
next
  case (reset3 m)
  then show ?thesis using inv c_ok_frozen [of "il_bip s" "il_c s"] by (simp add: il_inv_def mid_reset_def [of "il_bip s"])
next
  case (reset4 m)
  then show ?thesis
    using inv c_ok_frozen [of "il_bip s" "il_c s"] mid_reset_last [of "il_bip s"]
    by (simp add: il_inv_def mid_reset_def [of "il_bip s"])
next
  case (reset5 m start)
  then show ?thesis using il_reset_ends [OF inv _ n] by simp
next
  case (fill g i xs t)
  then show ?thesis using il_fill [OF inv] il_inv_Suc by blast
next
  case (abandon g)
  then show ?thesis using inv core_drop(1) by (auto simp: il_inv_def)
next
  case (commit g u used)
  then show ?thesis using inv by (simp add: il_inv_def)
next
  case (mark g u)
  then show ?thesis using il_mark [OF inv] il_inv_Suc by blast
next
  case (publish g u bs w)
  then show ?thesis using il_publish [OF inv] il_inv_Suc by blast
next
  case p_open
  then show ?thesis using inv by (simp add: il_inv_def)
next
  case c_gate
  then show ?thesis using il_load [OF inv, of Epoch] il_inv_Suc by simp
next
  case (epoch e)
  then show ?thesis using il_load [OF inv] il_inv_Suc by (simp add: odd_epoch)
next
  case (load_w e)
  then have "even e" "e \<le> bp_epoch (il_bip s)" using inv by (auto simp: il_inv_def)
  then show ?thesis using il_load [OF inv, of "LoadR e (bp_write (il_bip s))"] load_w il_inv_Suc
    stable_epoch(2) [OF inv] old_write_now by auto
next
  case (load_r e w)
  then have "c_ok (resetting (il_p s)) (il_bip s) (LoadR e w)" using inv by (simp add: il_inv_def)
  then show ?thesis using il_load [OF inv, of "LoadL e w (bp_read (il_bip s))"] load_r il_inv_Suc by simp
next
  case (load_l e w r)
  then have "c_ok (resetting (il_p s)) (il_bip s) (LoadL e w r)" using inv by (simp add: il_inv_def)
  then show ?thesis using il_load [OF inv, of "Again e w r (bp_last (il_bip s))"] load_l il_inv_Suc by simp
next
  case (again e w r l)
  then have "c_ok (resetting (il_p s)) (il_bip s) (Again e w r l)" using inv by (simp add: il_inv_def)
  then show ?thesis using il_load [OF inv, of "if bp_epoch (il_bip s) = e then Have w r l else Epoch"] again il_inv_Suc
    stable_epoch(1) [OF inv] by auto
next
  case (wrap w r l)
  then show ?thesis using il_wrap [OF inv] il_inv_Suc by blast
next
  case (look w r l)
  then show ?thesis using il_region [OF inv, of w r l] il_inv_Suc by simp
next
  case (look_wrapped w l)
  then show ?thesis using il_region [OF inv, of w 0 l] il_inv_Suc by simp
next
  case (put_back g)
  then show ?thesis using inv core_drop(2) by (auto simp: il_inv_def split: if_splits)
next
  case (release g bs u used r)
  then show ?thesis using il_release [OF inv] il_inv_Suc by blast
next
  case c_open
  then show ?thesis using inv by (cases "resetting (il_p s)") (simp_all add: il_inv_def mid_reset_def cursors_ok_def)
qed

lemma il_inv_init: "il_init cap s \<Longrightarrow> il_inv cap 0 s"
proof -
  assume i: "il_init cap s"
  then obtain alloc align where b: "bip_buffer_aligned alloc cap align = Inr (il_bip s)" by (auto simp: il_init_def)
  then have "bp_epoch (il_bip s) = 0" by (auto simp: bip_buffer_aligned_def rbind_Inr_iff dest!: sym [of _ "il_bip s"])
  with i bip_fresh [OF b] show ?thesis by (simp add: il_init_def il_inv_def core_iff bip_ok_def)
qed

interpretation il: transition_system "il_init cap" il_step "il_inv cap" for cap
  by unfold_locales (auto intro: il_inv_init il_inv_step)

section \<open>Properties\<close>

text \<open>
  C29. With every access of the two sides interleaved in any order, the consumer never acts on a torn
  cursor triple: outside the cursor reset the bytes published are the bytes consumed followed by the
  unread ones, and during it nothing is unread; a read grant is out only outside a reset and shows the
  oldest unread bytes; it lies within the memory and does not overlap the write grant, even though
  each side decided on a cursor value of the other that may be stale; and the subtraction that sizes
  the readable region never underflows.
\<close>

theorem bip_no_torn_read:
  assumes "reach (il_init cap) il_step n s" "n < usize_bound"
  shows "(if resetting (il_p s) then il_sent s = il_recv s else il_sent s = il_recv s @ contents (il_bip s)) \<and>
    (\<forall>g. rgrant (il_c s) = Some g \<longrightarrow> \<not> resetting (il_p s) \<and> 0 < gr_len g \<and> gr_start g + gr_len g \<le> cap \<and>
       grant_slice g (il_bip s) = Inr (take (gr_len g) (contents (il_bip s)))) \<and>
    (\<forall>g h. wgrant (il_p s) = Some g \<longrightarrow> rgrant (il_c s) = Some h \<longrightarrow> gr_start g + gr_len g \<le> cap \<and>
       {gr_start g ..< gr_start g + gr_len g} \<inter> {gr_start h ..< gr_start h + gr_len h} = {}) \<and>
    (\<forall>w r l. il_c s = Have w r l \<longrightarrow> w < r \<and> r = l \<or> wp (region w r l s) (\<lambda>_. True))"
proof -
  have inv: "il_inv cap n s" using il.reach_inv assms by blast
  have g: "\<not> resetting (il_p s) \<and> 0 < gr_len g \<and> gr_start g + gr_len g \<le> cap \<and>
       grant_slice g (il_bip s) = Inr (take (gr_len g) (contents (il_bip s)))" if "rgrant (il_c s) = Some g" for g
  proof -
    have nr: "\<not> resetting (il_p s)" using inv that by (auto simp: il_inv_def)
    then have k: "cursors_ok (il_bip s)" "read_grant_ok g (il_bip s)" and cap: "bp_cap (il_bip s) = cap"
      using inv that by (auto simp: il_inv_def core_iff)
    then have "0 < gr_len g" "gr_start g + gr_len g \<le> cap"
      by (auto simp: read_grant_ok_def cursors_ok_def split: if_splits)
    with nr read_grant_slice(1) [OF k] show ?thesis by simp
  qed
  have d: "gr_start g + gr_len g \<le> cap \<and> {gr_start g ..< gr_start g + gr_len g} \<inter> {gr_start h ..< gr_start h + gr_len h} = {}"
    if "wgrant (il_p s) = Some g" "rgrant (il_c s) = Some h" for g h
  proof -
    have "write_grant_ok g (il_bip s)" "read_grant_ok h (il_bip s)" "bp_cap (il_bip s) = cap"
      using inv that g [OF that(2)] by (auto simp: il_inv_def core_iff)
    then show ?thesis
      by (cases "bp_write (il_bip s) < bp_read (il_bip s)") (auto simp: write_grant_ok_def read_grant_ok_def)
  qed
  have "w < r \<and> r = l \<or> wp (region w r l s) (\<lambda>_. True)" if "il_c s = Have w r l" for w r l
  proof (cases "w < r \<and> r = l")
    case False
    then have "wp (region w r l s) (il_inv cap n)" by (intro il_region [OF inv]) (simp add: that)
    then have "wp (region w r l s) (\<lambda>_. True)" by (rule wp_mono) simp
    then show ?thesis ..
  qed simp
  moreover have "if resetting (il_p s) then il_sent s = il_recv s else il_sent s = il_recv s @ contents (il_bip s)"
    using inv by (auto simp: il_inv_def)
  ultimately show ?thesis using g d by (intro conjI allI impI) blast+
qed

text \<open>A run in which the producer enters a second reservation in the middle of the consumer's snapshot.\<close>

definition il_demo :: "byte list \<Rightarrow> nat \<Rightarrow> bool \<Rightarrow> bool \<Rightarrow> ppc \<Rightarrow> cpc \<Rightarrow> byte list \<Rightarrow> il_sys" where
  "il_demo d w wip rip p c sent = \<lparr>il_bip = demo_bip d w wip rip, il_p = p, il_c = c, il_sent = sent, il_recv = []\<rparr>"

lemma il_reachI:
  "reach (il_init cap) il_step n s \<Longrightarrow> il_step s t \<Longrightarrow> m = Suc n \<Longrightarrow> reach (il_init cap) il_step m t"
  by (auto intro: reach.next_step)

lemma il_stepI: "il_step s t \<Longrightarrow> t = t' \<Longrightarrow> il_step s t'"
  by simp

lemma il_run:
  "reach (il_init 4) il_step 15
     (il_demo [7, 8, 9, 0] 3 False True (Res1 1) (Look \<lparr>gr_start = 0, gr_len = 3, gr_handed_back = False\<rparr>) [7, 8, 9])"
proof -
  note defs = il_demo_def demo_bip_def granted_def new_grant_def pick_start_def usize_sub_def region_def
  let ?g = "\<lparr>gr_start = 0, gr_len = 3, gr_handed_back = False\<rparr>" and ?r = "reach (il_init 4) il_step"
  let ?b = "[0, 0, 0, 0]" and ?d = "[7, 8, 9, 0]" and ?x = "[7, 8, 9]"
  have "replicate 4 (0 :: byte) = ?b" "is_power_of_two 1"
    by (simp_all add: eval_nat_numeral is_power_of_two.simps)
  then have "bip_buffer_aligned (\<lambda>_. True) 4 1 = Inr (demo_bip ?b 0 False False)"
    by (simp add: bip_buffer_aligned_def buffer_with_alignment_def u8_elem_def layout_for_def demo_bip_def)
  then have "?r 0 (il_demo ?b 0 False False PIdle CIdle [])"
    by (auto intro!: reach.start exI [of _ "\<lambda>_. True"] simp: il_init_def il_demo_def)
  then have "?r 1 (il_demo ?b 0 False False (Res1 3) CIdle [])"
    by (rule il_reachI) (rule il_stepI, rule il_step.gate [where n = 3], simp_all add: defs)
  then have "?r 2 (il_demo ?b 0 False False (Res2 3 0) CIdle [])"
    by (rule il_reachI) (rule il_stepI, rule il_step.load_read [where n = 3], simp_all add: defs)
  then have "?r 3 (il_demo ?b 0 True False (Fill ?g) CIdle [])"
    by (rule il_reachI) (rule il_stepI, rule il_step.decide [where n = 3 and r = 0 and start = "Some 0"], simp_all add: defs)
  then have "?r 4 (il_demo ?d 0 True False (Fill ?g) CIdle [])"
    by (rule il_reachI) (rule il_stepI, rule il_step.fill [where g = ?g and i = 0 and xs = ?x and t = "demo_bip ?d 0 True False"],
        simp_all add: defs grant_write_def write_at_def)
  then have "?r 5 (il_demo ?d 0 True False (Publish ?g 3) CIdle [])"
    by (rule il_reachI) (rule il_stepI, rule il_step.commit [where g = ?g and u = 3 and used = 3], simp_all add: defs)
  then have "?r 6 (il_demo ?d 3 True False POpen CIdle ?x)"
    by (rule il_reachI) (rule il_stepI, rule il_step.publish [where g = ?g and u = 3 and bs = ?x and w = 3],
        simp_all add: defs grant_slice_def usize_add_ok)
  then have "?r 7 (il_demo ?d 3 False False PIdle CIdle ?x)"
    by (rule il_reachI) (rule il_stepI, rule il_step.p_open, simp_all add: defs)
  then have "?r 8 (il_demo ?d 3 False False PIdle Epoch ?x)"
    by (rule il_reachI) (rule il_stepI, rule il_step.c_gate, simp_all add: defs)
  then have "?r 9 (il_demo ?d 3 False False PIdle (LoadW 0) ?x)"
    by (rule il_reachI) (rule il_stepI, rule il_step.epoch [where e = 0], simp_all add: defs)
  then have "?r 10 (il_demo ?d 3 False False PIdle (LoadR 0 3) ?x)"
    by (rule il_reachI) (rule il_stepI, rule il_step.load_w [where e = 0], simp_all add: defs)
  then have "?r 11 (il_demo ?d 3 False False (Res1 1) (LoadR 0 3) ?x)"
    by (rule il_reachI) (rule il_stepI, rule il_step.gate [where n = 1], simp_all add: defs)
  then have "?r 12 (il_demo ?d 3 False False (Res1 1) (LoadL 0 3 0) ?x)"
    by (rule il_reachI) (rule il_stepI, rule il_step.load_r [where e = 0 and w = 3], simp_all add: defs)
  then have "?r 13 (il_demo ?d 3 False False (Res1 1) (Again 0 3 0 4) ?x)"
    by (rule il_reachI) (rule il_stepI, rule il_step.load_l [where e = 0 and w = 3 and r = 0], simp_all add: defs)
  then have "?r 14 (il_demo ?d 3 False False (Res1 1) (Have 3 0 4) ?x)"
    by (rule il_reachI) (rule il_stepI, rule il_step.again [where e = 0 and w = 3 and r = 0 and l = 4], simp_all add: defs)
  then show "?r 15 (il_demo ?d 3 False True (Res1 1) (Look ?g) ?x)"
    by (rule il_reachI) (rule il_step.look [where w = 3 and r = 0 and l = 4], simp_all add: defs)
qed

theorem bip_no_torn_read_witness:
  "\<exists>s g. reach (il_init 4) il_step 15 s \<and> rgrant (il_c s) = Some g \<and> il_p s = Res1 1 \<and>
     grant_slice g (il_bip s) = Inr (take (gr_len g) (contents (il_bip s)))"
proof -
  have "(15::nat) < usize_bound" by simp
  from bip_no_torn_read [OF il_run this] il_run show ?thesis by (force simp: il_demo_def)
qed

end
