(* ===== verification/Mpsc.thy ===== *)
theory Mpsc
  imports Notify
begin

unbundle bit_operations_syntax

text \<open>
  The bounded multi-producer channel of \<open>src/src/site_d/mpsc_light.rs\<close>: a queue and a list of parked
  senders under a spinlock, a slot on which the receiver parks, and the receiver's private staging
  buffer, into which it takes over the whole queue at once. Every call is a function on the shared
  state that takes and releases the lock as the code does; a call that would find the lock held is
  \<open>NoReturn\<close>, so the specifications, which all return, also show that each path gives the lock back.
  Allocation failure is not modelled.
\<close>

section \<open>Shared state\<close>

text \<open>
  A \<open>BTreeMap\<close> keyed by waiter ids is its list of entries in key order, a \<open>BTreeSet\<close> a set, a
  \<open>VecDeque\<close> a list.
\<close>

record 'a mpsc =
  mp_locked :: bool
  mp_nonempty :: nat
  mp_cap :: nat
  mp_queue :: "'a list"
  mp_wq :: "(nat \<times> waker) list"
  mp_next_id :: nat
  mp_selected :: "nat set"
  mp_recv :: waiter_slot
  mp_senders :: nat
  mp_closed :: bool
  mp_waiters_len :: nat

fun bt_insert :: "nat \<Rightarrow> 'v \<Rightarrow> (nat \<times> 'v) list \<Rightarrow> (nat \<times> 'v) list" where
  "bt_insert k v [] = [(k, v)]"
| "bt_insert k v ((k', v') # m) =
     (if k < k' then (k, v) # (k', v') # m else if k = k' then (k, v) # m else (k', v') # bt_insert k v m)"

definition bt_remove :: "nat \<Rightarrow> (nat \<times> 'v) list \<Rightarrow> (nat \<times> 'v) list" where
  "bt_remove k m = filter (\<lambda>(k', _). k' \<noteq> k) m"

text \<open>
  The spinlock. Without another thread a held lock is never released, so the loop of \<open>lock_slow\<close>
  returns at its first look or spins forever, which is \<open>None\<close>.
\<close>

definition jitter :: "32 word \<Rightarrow> 32 word \<times> 32 word" where
  "jitter seed = (drop_bit 26 (seed * 2654435761) AND 0x3F, seed + 0x6d2b79f5)"

partial_function (option) lock_slow :: "'a mpsc \<Rightarrow> 'a mpsc option" where
  "lock_slow t = (if mp_locked t then lock_slow t else Some (t\<lparr>mp_locked := True\<rparr>))"

definition mp_lock :: "'a mpsc \<Rightarrow> 'a mpsc res" where
  "mp_lock t =
     (if \<not> mp_locked t then Inr (t\<lparr>mp_locked := True\<rparr>)
      else (case lock_slow t of None \<Rightarrow> Inl NoReturn | Some t' \<Rightarrow> Inr t'))"

definition mp_unlock :: "'a mpsc \<Rightarrow> 'a mpsc" where
  "mp_unlock t = t\<lparr>mp_locked := False\<rparr>"

text \<open>\<open>push_back\<close> and the hint, raised when the queue was empty.\<close>

definition mp_enqueue :: "'a \<Rightarrow> 'a mpsc \<Rightarrow> 'a mpsc" where
  "mp_enqueue v t =
     (let t1 = t\<lparr>mp_queue := mp_queue t @ [v]\<rparr> in
      if length (mp_queue t1) = 1 then t1\<lparr>mp_nonempty := 1\<rparr> else t1)"

definition mp_try_push :: "'a \<Rightarrow> 'a mpsc \<Rightarrow> ('a option \<times> 'a mpsc) res" where
  "mp_try_push v t =
     rbind (mp_lock t) (\<lambda>t1.
       if length (mp_queue t1) \<ge> mp_cap t1 then Inr (Some v, mp_unlock t1)
       else Inr (None, mp_unlock (mp_enqueue v t1)))"

definition mp_try_push_many :: "'a list \<Rightarrow> 'a mpsc \<Rightarrow> (nat \<times> 'a list \<times> 'a mpsc) res" where
  "mp_try_push_many items t =
     (if items = [] then Inr (0, items, t)
      else
        rbind (mp_lock t) (\<lambda>t1.
          let was_empty = (mp_queue t1 = []) in
          rbind (usize_sub (mp_cap t1) (length (mp_queue t1))) (\<lambda>room.
            let k = min room (length items);
                t2 = (if k > 0 then
                        (let t' = t1\<lparr>mp_queue := mp_queue t1 @ take k items\<rparr> in
                         if was_empty then t'\<lparr>mp_nonempty := 1\<rparr> else t')
                      else t1)
            in Inr (k, drop k items, mp_unlock t2))))"

datatype 'a push_parked = PFull 'a nat | PClosed 'a

text \<open>The result \<open>None\<close> is \<open>Ok(())\<close>.\<close>

definition push_or_park :: "'a \<Rightarrow> waker \<Rightarrow> 'a mpsc \<Rightarrow> ('a push_parked option \<times> 'a mpsc) res" where
  "push_or_park v waker t =
     (if mp_closed t then Inr (Some (PClosed v), t)
      else
        rbind (mp_try_push v t) (\<lambda>(r, t1).
          case r of
            None \<Rightarrow> Inr (None, t1)
          | Some v \<Rightarrow>
              rbind (mp_lock t1) (\<lambda>t2.
                if mp_closed t2 then Inr (Some (PClosed v), mp_unlock t2)
                else if length (mp_queue t2) < mp_cap t2 then Inr (None, mp_unlock (mp_enqueue v t2))
                else
                  (let ident = mp_next_id t2 in
                   case checked_add (mp_next_id t2) 1 of
                     None \<Rightarrow> Inl (Assertion ''mpsc waiter id overflow'')
                   | Some next_id \<Rightarrow>
                       (let t3 = t2\<lparr>mp_next_id := next_id, mp_wq := bt_insert ident waker (mp_wq t2)\<rparr>;
                            t4 = t3\<lparr>mp_waiters_len := length (mp_wq t3)\<rparr>
                        in Inr (Some (PFull v ident), mp_unlock t4))))))"

definition repoll_waiter :: "nat \<Rightarrow> 'a mpsc \<Rightarrow> 'a mpsc res" where
  "repoll_waiter ident t =
     rbind (mp_lock t) (\<lambda>t1.
       let t2 = t1\<lparr>mp_wq := bt_remove ident (mp_wq t1), mp_selected := mp_selected t1 - {ident}\<rparr>
       in Inr (mp_unlock (t2\<lparr>mp_waiters_len := length (mp_wq t2)\<rparr>)))"

text \<open>Popping the oldest waiter into the selected set.\<close>

definition select_first :: "'a mpsc \<Rightarrow> waker option \<times> 'a mpsc" where
  "select_first t =
     (case mp_wq t of
        [] \<Rightarrow> (None, t)
      | (ident, wk) # q \<Rightarrow> (Some wk, t\<lparr>mp_wq := q, mp_selected := insert ident (mp_selected t)\<rparr>))"

definition wake_opt :: "waker option \<Rightarrow> waker list" where
  "wake_opt v = (case v of Some wk \<Rightarrow> [wk] | None \<Rightarrow> [])"

definition cancel_waiter :: "nat \<Rightarrow> 'a mpsc \<Rightarrow> (waker list \<times> 'a mpsc) res" where
  "cancel_waiter ident t =
     rbind (mp_lock t) (\<lambda>t1.
       let t2 = t1\<lparr>mp_wq := bt_remove ident (mp_wq t1)\<rparr>;
           was_selected = (ident \<in> mp_selected t2);
           t3 = t2\<lparr>mp_selected := mp_selected t2 - {ident}\<rparr>;
           (nxt, t4) = (if was_selected then select_first t3 else (None, t3));
           t5 = mp_unlock (t4\<lparr>mp_waiters_len := length (mp_wq t4)\<rparr>)
       in Inr (wake_opt nxt, t5))"

definition steal_into :: "'a list \<Rightarrow> 'a mpsc \<Rightarrow> (nat \<times> waker list \<times> 'a list \<times> 'a mpsc) res" where
  "steal_into staging t =
     rbind (mp_lock t) (\<lambda>t1.
       let n = length (mp_queue t1) in
       if n = 0 then Inr (0, [], staging, mp_unlock t1)
       else
         (let staging' = mp_queue t1;
              t2 = t1\<lparr>mp_queue := staging, mp_nonempty := 0\<rparr>;
              (waker, t3) = select_first t2;
              t4 = mp_unlock (t3\<lparr>mp_waiters_len := length (mp_wq t3)\<rparr>)
          in Inr (n, wake_opt waker, staging', t4)))"

definition wake_one_waiter :: "'a mpsc \<Rightarrow> (waker list \<times> 'a mpsc) res" where
  "wake_one_waiter t =
     rbind (mp_lock t) (\<lambda>t1.
       let (waker, t2) = select_first t1
       in Inr (wake_opt waker, mp_unlock (t2\<lparr>mp_waiters_len := length (mp_wq t2)\<rparr>)))"

definition wake_all_waiters :: "'a mpsc \<Rightarrow> (waker list \<times> 'a mpsc) res" where
  "wake_all_waiters t =
     rbind (mp_lock t) (\<lambda>t1.
       let wakers = map snd (mp_wq t1)
       in Inr (wakers, mp_unlock (t1\<lparr>mp_wq := [], mp_selected := {}, mp_waiters_len := 0\<rparr>)))"

definition bounded :: "nat \<Rightarrow> 'a mpsc \<times> 'a list" where
  "bounded capacity =
     (\<lparr>mp_locked = False, mp_nonempty = 0, mp_cap = max capacity 1, mp_queue = [], mp_wq = [], mp_next_id = 0,
       mp_selected = {}, mp_recv = slot_new, mp_senders = 1, mp_closed = False, mp_waiters_len = 0\<rparr>, [])"

section \<open>Senders\<close>

datatype 'a try_send_error = TSFull 'a | TSClosed 'a
datatype try_recv_error = REmpty | RClosed

definition signal_recv :: "'a mpsc \<Rightarrow> waker list \<times> 'a mpsc" where
  "signal_recv t = (let (ws, s) = slot_signal (mp_recv t) in (ws, t\<lparr>mp_recv := s\<rparr>))"

definition sender_clone :: "'a mpsc \<Rightarrow> 'a mpsc" where
  "sender_clone t = t\<lparr>mp_senders := wrapping_add (mp_senders t) 1\<rparr>"

definition sender_dropped :: "'a mpsc \<Rightarrow> waker list \<times> 'a mpsc" where
  "sender_dropped t =
     (let old = mp_senders t;
          t1 = t\<lparr>mp_senders := wrapping_add old (usize_bound - 1)\<rparr>
      in if old = 1 then signal_recv t1 else ([], t1))"

definition try_send :: "'a \<Rightarrow> 'a mpsc \<Rightarrow> ('a try_send_error option \<times> waker list \<times> 'a mpsc) res" where
  "try_send v t =
     (if mp_closed t then Inr (Some (TSClosed v), [], t)
      else
        rbind (mp_try_push v t) (\<lambda>(r, t1).
          case r of
            None \<Rightarrow> (let (ws, t2) = signal_recv t1 in Inr (None, ws, t2))
          | Some v \<Rightarrow> Inr (Some (if mp_closed t1 then TSClosed v else TSFull v), [], t1)))"

definition try_send_many :: "'a list \<Rightarrow> 'a mpsc \<Rightarrow> (nat \<times> 'a list \<times> waker list \<times> 'a mpsc) res" where
  "try_send_many items t =
     (if mp_closed t then Inr (0, items, [], t)
      else
        rbind (mp_try_push_many items t) (\<lambda>(k, rest, t1).
          if k > 0 then (let (ws, t2) = signal_recv t1 in Inr (k, rest, ws, t2))
          else Inr (k, rest, [], t1)))"

record 'a send_fut =
  sf_val :: "'a option"
  sf_parked :: "nat option"

definition mp_send :: "'a \<Rightarrow> 'a send_fut" where
  "mp_send v = \<lparr>sf_val = Some v, sf_parked = None\<rparr>"

definition sender_is_closed :: "'a mpsc \<Rightarrow> bool" where
  "sender_is_closed t = mp_closed t"

text \<open>\<open>Ready None\<close> is \<open>Ok(())\<close>, \<open>Ready (Some v)\<close> the error that returns the value.\<close>

definition send_poll ::
  "'a send_fut \<Rightarrow> waker \<Rightarrow> 'a mpsc \<Rightarrow> ('a option poll \<times> waker list \<times> 'a send_fut \<times> 'a mpsc) res" where
  "send_poll fut waker t =
     (case sf_val fut of
        None \<Rightarrow> Inr (Ready None, [], fut, t)
      | Some v \<Rightarrow>
          (let fut1 = fut\<lparr>sf_val := None, sf_parked := None\<rparr> in
           rbind (case sf_parked fut of Some ident \<Rightarrow> repoll_waiter ident t | None \<Rightarrow> Inr t) (\<lambda>t1.
           rbind (push_or_park v waker t1) (\<lambda>(r, t2).
             case r of
               None \<Rightarrow> (let (ws, t3) = signal_recv t2 in Inr (Ready None, ws, fut1, t3))
             | Some (PClosed v) \<Rightarrow> Inr (Ready (Some v), [], fut1, t2)
             | Some (PFull v ident) \<Rightarrow>
                 Inr (Pending, [], fut1\<lparr>sf_val := Some v, sf_parked := Some ident\<rparr>, t2)))))"

definition send_drop :: "'a send_fut \<Rightarrow> 'a mpsc \<Rightarrow> (waker list \<times> 'a mpsc) res" where
  "send_drop fut t = (case sf_parked fut of Some ident \<Rightarrow> cancel_waiter ident t | None \<Rightarrow> Inr ([], t))"

section \<open>The receiver\<close>

text \<open>The receiver is its staging buffer.\<close>

definition next_staged :: "'a list \<Rightarrow> 'a mpsc \<Rightarrow> ('a option \<times> waker list \<times> 'a list \<times> 'a mpsc) res" where
  "next_staged staging t =
     (case staging of
        v # rest \<Rightarrow>
          (if mp_waiters_len t > 0 then
             rbind (wake_one_waiter t) (\<lambda>(ws, t1). Inr (Some v, ws, rest, t1))
           else Inr (Some v, [], rest, t))
      | [] \<Rightarrow>
          rbind (steal_into staging t) (\<lambda>(n, ws, staging1, t1).
            if n > 0 then
              (case staging1 of
                 v # rest \<Rightarrow> Inr (Some v, ws, rest, t1)
               | [] \<Rightarrow> Inr (None, ws, [], t1))
            else Inr (None, ws, staging1, t1)))"

definition mp_try_recv ::
  "'a list \<Rightarrow> 'a mpsc \<Rightarrow> ((try_recv_error + 'a) \<times> waker list \<times> 'a list \<times> 'a mpsc) res" where
  "mp_try_recv staging t =
     rbind (next_staged staging t) (\<lambda>(r, ws, staging1, t1).
       case r of
         Some v \<Rightarrow> Inr (Inr v, ws, staging1, t1)
       | None \<Rightarrow>
           if mp_senders t1 = 0 then
             rbind (next_staged staging1 t1) (\<lambda>(r2, ws2, staging2, t2).
               Inr (case r2 of Some v \<Rightarrow> Inr v | None \<Rightarrow> Inl RClosed, ws @ ws2, staging2, t2))
           else Inr (Inl REmpty, ws, staging1, t1))"

fun recv_many :: "nat \<Rightarrow> 'a list \<Rightarrow> 'a list \<Rightarrow> 'a mpsc \<Rightarrow> ('a list \<times> waker list \<times> 'a list \<times> 'a mpsc) res" where
  "recv_many 0 out staging t = Inr (out, [], staging, t)"
| "recv_many (Suc limit) out staging t =
     rbind (next_staged staging t) (\<lambda>(r, ws, staging1, t1).
       case r of
         Some v \<Rightarrow>
           rbind (recv_many limit (out @ [v]) staging1 t1) (\<lambda>(out', ws', staging', t').
             Inr (out', ws @ ws', staging', t'))
       | None \<Rightarrow> Inr (out, ws, staging1, t1))"

definition receiver_is_closed :: "'a mpsc \<Rightarrow> bool" where
  "receiver_is_closed t \<longleftrightarrow> mp_senders t = 0"

definition mp_receiver_drop :: "'a mpsc \<Rightarrow> (waker list \<times> 'a mpsc) res" where
  "mp_receiver_drop t = wake_all_waiters (t\<lparr>mp_closed := True\<rparr>)"

definition RECV_SPIN :: nat where "RECV_SPIN = 192"

text \<open>The spin window of \<open>recv_hot\<close>; \<open>None\<close> when it ends without a result.\<close>

fun spin_window ::
  "nat \<Rightarrow> 'a list \<Rightarrow> 'a mpsc \<Rightarrow> ('a option option \<times> waker list \<times> 'a list \<times> 'a mpsc) res" where
  "spin_window 0 staging t = Inr (None, [], staging, t)"
| "spin_window (Suc i) staging t =
     rbind (if mp_nonempty t > 0 then next_staged staging t else Inr (None, [], staging, t))
       (\<lambda>(r, ws, staging1, t1).
          case r of
            Some v \<Rightarrow> Inr (Some (Some v), ws, staging1, t1)
          | None \<Rightarrow>
              if mp_senders t1 = 0 then
                rbind (next_staged staging1 t1) (\<lambda>(r2, ws2, staging2, t2).
                  Inr (Some r2, ws @ ws2, staging2, t2))
              else
                rbind (spin_window i staging1 t1) (\<lambda>(r2, ws2, staging2, t2).
                  Inr (r2, ws @ ws2, staging2, t2)))"

text \<open>From the arming of the slot to the end of \<open>Recv::poll\<close>.\<close>

definition recv_park ::
  "waker \<Rightarrow> 'a list \<Rightarrow> 'a mpsc \<Rightarrow> ('a option poll \<times> waker list \<times> 'a list \<times> 'a mpsc) res" where
  "recv_park waker staging t =
     rbind (slot_arm waker (mp_recv t)) (\<lambda>(ws0, slot).
     rbind (next_staged staging (t\<lparr>mp_recv := slot\<rparr>)) (\<lambda>(r, ws1, staging1, t1).
       case r of
         Some v \<Rightarrow> Inr (Ready (Some v), ws0 @ ws1, staging1, t1\<lparr>mp_recv := slot_disarm (mp_recv t1)\<rparr>)
       | None \<Rightarrow>
           if mp_senders t1 = 0 then
             rbind (next_staged staging1 (t1\<lparr>mp_recv := slot_disarm (mp_recv t1)\<rparr>)) (\<lambda>(r2, ws2, staging2, t2).
               Inr (Ready r2, ws0 @ ws1 @ ws2, staging2, t2))
           else if mp_waiters_len t1 > 0 then
             rbind (wake_one_waiter t1) (\<lambda>(ws2, t2). Inr (Pending, ws0 @ ws1 @ ws2, staging1, t2))
           else Inr (Pending, ws0 @ ws1, staging1, t1)))"

definition recv_poll ::
  "bool \<Rightarrow> waker \<Rightarrow> 'a list \<Rightarrow> 'a mpsc \<Rightarrow> ('a option poll \<times> waker list \<times> 'a list \<times> 'a mpsc) res" where
  "recv_poll spin waker staging t =
     rbind (next_staged staging t) (\<lambda>(r, ws, staging1, t1).
       case r of
         Some v \<Rightarrow> Inr (Ready (Some v), ws, staging1, t1)
       | None \<Rightarrow>
           if mp_senders t1 = 0 then
             rbind (next_staged staging1 t1) (\<lambda>(r2, ws2, staging2, t2). Inr (Ready r2, ws @ ws2, staging2, t2))
           else
             rbind (if spin then spin_window RECV_SPIN staging1 t1 else Inr (None, [], staging1, t1))
               (\<lambda>(r2, ws2, staging2, t2).
                  case r2 of
                    Some v \<Rightarrow> Inr (Ready v, ws @ ws2, staging2, t2)
                  | None \<Rightarrow>
                      rbind (recv_park waker staging2 t2) (\<lambda>(r3, ws3, staging3, t3).
                        Inr (r3, ws @ ws2 @ ws3, staging3, t3))))"

definition recv_drop :: "'a mpsc \<Rightarrow> 'a mpsc" where
  "recv_drop t = t\<lparr>mp_recv := slot_disarm (mp_recv t)\<rparr>"

section \<open>The calls without contention\<close>

text \<open>What the critical sections do to the state.\<close>

definition mp_park :: "waker \<Rightarrow> 'a mpsc \<Rightarrow> 'a mpsc" where
  "mp_park w t = t\<lparr>mp_next_id := Suc (mp_next_id t), mp_wq := mp_wq t @ [(mp_next_id t, w)],
     mp_waiters_len := Suc (length (mp_wq t))\<rparr>"

definition mp_forget :: "nat \<Rightarrow> 'a mpsc \<Rightarrow> 'a mpsc" where
  "mp_forget i t = t\<lparr>mp_wq := bt_remove i (mp_wq t), mp_selected := mp_selected t - {i},
     mp_waiters_len := length (bt_remove i (mp_wq t))\<rparr>"

definition mp_awaken :: "'a mpsc \<Rightarrow> waker list \<times> 'a mpsc" where
  "mp_awaken t =
     (case mp_wq t of
        [] \<Rightarrow> ([], t\<lparr>mp_waiters_len := 0\<rparr>)
      | (i, w) # q \<Rightarrow> ([w], t\<lparr>mp_wq := q, mp_selected := insert i (mp_selected t), mp_waiters_len := length q\<rparr>))"

text \<open>Between calls the lock is free, the hint and the waiter count are exact, and ids are fresh.\<close>

definition wait_ids_ok :: "(nat \<times> waker) list \<Rightarrow> nat set \<Rightarrow> nat \<Rightarrow> bool" where
  "wait_ids_ok q sel nid \<longleftrightarrow> sorted_wrt (<) (map fst q) \<and> (\<forall>i \<in> fst ` set q \<union> sel. i < nid) \<and> sel \<inter> fst ` set q = {}"

definition mpsc_ok :: "'a mpsc \<Rightarrow> bool" where
  "mpsc_ok t \<longleftrightarrow> \<not> mp_locked t \<and> 0 < mp_cap t \<and> length (mp_queue t) \<le> mp_cap t \<and>
     mp_nonempty t = (if mp_queue t = [] then 0 else 1) \<and> mp_waiters_len t = length (mp_wq t) \<and>
     wait_ids_ok (mp_wq t) (mp_selected t) (mp_next_id t) \<and> slot_ok (mp_recv t)"

lemma bt_insert_append: "(\<forall>i \<in> set (map fst m). i < k) \<Longrightarrow> bt_insert k v m = m @ [(k, v)]"
  by (induction k v m rule: bt_insert.induct) auto

lemma bt_remove_simps [simp]:
  "bt_remove k [] = []"
  "bt_remove k ((k', v) # m) = (if k' = k then bt_remove k m else (k', v) # bt_remove k m)"
  by (simp_all add: bt_remove_def)

lemma set_bt_remove: "set (bt_remove k m) = {(k', v). (k', v) \<in> set m \<and> k' \<noteq> k}"
  by (auto simp: bt_remove_def)

lemma keys_bt_remove [simp]: "fst ` set (bt_remove k m) = fst ` set m - {k}"
  by (force simp: set_bt_remove)

lemma sorted_bt_remove: "sorted_wrt (<) (map fst m) \<Longrightarrow> sorted_wrt (<) (map fst (bt_remove k m))"
  by (simp add: bt_remove_def sorted_wrt_map sorted_wrt_filter)

lemma bt_remove_absent: "k \<notin> fst ` set m \<Longrightarrow> bt_remove k m = m"
  by (induction m) auto

lemma mp_try_push_eval:
  "\<not> mp_locked t \<Longrightarrow> mp_try_push v t = Inr (if length (mp_queue t) < mp_cap t then (None, mp_enqueue v t) else (Some v, t))"
  by (cases t) (simp add: mp_try_push_def mp_lock_def mp_unlock_def mp_enqueue_def Let_def)

lemma push_or_park_eval:
  assumes "mpsc_ok t" "Suc (mp_next_id t) < usize_bound"
  shows "push_or_park v w t = Inr (if mp_closed t then (Some (PClosed v), t)
    else if length (mp_queue t) < mp_cap t then (None, mp_enqueue v t)
    else (Some (PFull v (mp_next_id t)), mp_park w t))"
proof -
  have "bt_insert (mp_next_id t) w (mp_wq t) = mp_wq t @ [(mp_next_id t, w)]"
    using assms(1) by (intro bt_insert_append) (simp add: mpsc_ok_def wait_ids_ok_def)
  then show ?thesis
    using assms
    by (cases t) (simp add: push_or_park_def mp_try_push_eval mpsc_ok_def mp_lock_def mp_unlock_def mp_park_def checked_add_def)
qed

lemma repoll_waiter_eval: "\<not> mp_locked t \<Longrightarrow> repoll_waiter i t = Inr (mp_forget i t)"
  by (cases t) (simp add: repoll_waiter_def mp_lock_def mp_unlock_def mp_forget_def)

lemma cancel_waiter_eval:
  assumes "\<not> mp_locked t"
  shows "cancel_waiter i t = Inr (if i \<in> mp_selected t then mp_awaken (mp_forget i t) else ([], mp_forget i t))"
  using assms
  by (cases t) (auto simp: cancel_waiter_def mp_lock_def mp_unlock_def mp_forget_def select_first_def mp_awaken_def
      wake_opt_def split: list.splits)

lemma wake_one_waiter_eval: "\<not> mp_locked t \<Longrightarrow> wake_one_waiter t = Inr (mp_awaken t)"
  by (cases t) (auto simp: wake_one_waiter_def mp_lock_def mp_unlock_def select_first_def mp_awaken_def
      wake_opt_def split: list.splits)

lemma steal_into_eval:
  assumes "\<not> mp_locked t"
  shows "steal_into stg t = Inr (if mp_queue t = [] then (0, [], stg, t)
    else (length (mp_queue t), fst (mp_awaken t), mp_queue t,
          (snd (mp_awaken t))\<lparr>mp_queue := stg, mp_nonempty := 0\<rparr>))"
  using assms
  by (cases t) (auto simp: steal_into_def mp_lock_def mp_unlock_def select_first_def mp_awaken_def
      wake_opt_def Let_def split: list.splits)

lemma wake_all_waiters_eval:
  "\<not> mp_locked t \<Longrightarrow>
   wake_all_waiters t = Inr (map snd (mp_wq t), t\<lparr>mp_wq := [], mp_selected := {}, mp_waiters_len := 0\<rparr>)"
  by (cases t) (simp add: wake_all_waiters_def mp_lock_def mp_unlock_def)

text \<open>The invariant is kept.\<close>

lemma wait_ids_ok_append: "wait_ids_ok q sel n \<Longrightarrow> wait_ids_ok (q @ [(n, w)]) sel (Suc n)"
proof -
  assume q: "wait_ids_ok q sel n"
  then have "n \<notin> sel" by (auto simp: wait_ids_ok_def)
  with q show ?thesis by (auto simp: wait_ids_ok_def sorted_wrt_append intro: less_SucI)
qed

lemma wait_ids_ok_remove: "wait_ids_ok q sel n \<Longrightarrow> wait_ids_ok (bt_remove i q) (sel - {i}) n"
  by (auto simp: wait_ids_ok_def sorted_bt_remove)

lemma wait_ids_ok_pop: "wait_ids_ok ((i, w) # q) sel n \<Longrightarrow> wait_ids_ok q (insert i sel) n"
  by (fastforce simp: wait_ids_ok_def)

lemma mpsc_ok_enqueue: "mpsc_ok t \<Longrightarrow> length (mp_queue t) < mp_cap t \<Longrightarrow> mpsc_ok (mp_enqueue v t)"
  by (auto simp: mpsc_ok_def mp_enqueue_def Let_def)

lemma mpsc_ok_park: "mpsc_ok t \<Longrightarrow> mpsc_ok (mp_park w t)"
  by (simp add: mpsc_ok_def mp_park_def wait_ids_ok_append)

lemma mpsc_ok_forget: "mpsc_ok t \<Longrightarrow> mpsc_ok (mp_forget i t)"
  by (simp add: mpsc_ok_def mp_forget_def wait_ids_ok_remove)

lemma mpsc_ok_awaken: "mpsc_ok t \<Longrightarrow> mpsc_ok (snd (mp_awaken t))"
  by (auto simp: mpsc_ok_def mp_awaken_def dest: wait_ids_ok_pop split: list.splits)

lemma mpsc_ok_recv: "mpsc_ok t \<Longrightarrow> slot_ok s \<Longrightarrow> mpsc_ok (t\<lparr>mp_recv := s\<rparr>)"
  by (simp add: mpsc_ok_def)

lemma mpsc_ok_emptied: "mpsc_ok t \<Longrightarrow> mpsc_ok (t\<lparr>mp_queue := [], mp_nonempty := 0\<rparr>)"
  by (simp add: mpsc_ok_def)

lemma mp_awaken_Nil: "mpsc_ok t \<Longrightarrow> mp_wq t = [] \<Longrightarrow> mp_awaken t = ([], t)"
  by (cases t) (simp add: mpsc_ok_def mp_awaken_def)

lemma mp_awaken_simps [simp]:
  "mp_queue (snd (mp_awaken t)) = mp_queue t" "mp_cap (snd (mp_awaken t)) = mp_cap t"
  "mp_recv (snd (mp_awaken t)) = mp_recv t" "mp_senders (snd (mp_awaken t)) = mp_senders t"
  "mp_closed (snd (mp_awaken t)) = mp_closed t" "mp_next_id (snd (mp_awaken t)) = mp_next_id t"
  "mp_nonempty (snd (mp_awaken t)) = mp_nonempty t"
  by (simp_all add: mp_awaken_def split: list.splits)

lemma mp_enqueue_simps [simp]:
  "mp_queue (mp_enqueue v t) = mp_queue t @ [v]" "mp_cap (mp_enqueue v t) = mp_cap t"
  "mp_recv (mp_enqueue v t) = mp_recv t" "mp_senders (mp_enqueue v t) = mp_senders t"
  "mp_closed (mp_enqueue v t) = mp_closed t" "mp_next_id (mp_enqueue v t) = mp_next_id t"
  "mp_wq (mp_enqueue v t) = mp_wq t" "mp_selected (mp_enqueue v t) = mp_selected t"
  by (simp_all add: mp_enqueue_def Let_def)

section \<open>The receiver's calls\<close>

definition mp_pop :: "'a list \<Rightarrow> 'a mpsc \<Rightarrow> 'a option \<times> waker list \<times> 'a list \<times> 'a mpsc" where
  "mp_pop stg t =
     (case stg of
        v # rest \<Rightarrow> (Some v, fst (mp_awaken t), rest, snd (mp_awaken t))
      | [] \<Rightarrow>
          (case mp_queue t of
             [] \<Rightarrow> (None, [], [], t)
           | v # rest \<Rightarrow> (Some v, fst (mp_awaken t), rest, (snd (mp_awaken t))\<lparr>mp_queue := [], mp_nonempty := 0\<rparr>)))"

lemma next_staged_eval:
  assumes "mpsc_ok t"
  shows "next_staged stg t = Inr (mp_pop stg t)"
proof -
  have l: "\<not> mp_locked t" and w: "mp_waiters_len t = length (mp_wq t)" using assms by (simp_all add: mpsc_ok_def)
  show ?thesis
  proof (cases stg)
    case Nil
    then show ?thesis by (auto simp: next_staged_def mp_pop_def steal_into_eval [OF l] split: list.splits)
  next
    case (Cons v rest)
    then show ?thesis
      using mp_awaken_Nil [OF assms] w
      by (cases "mp_wq t = []") (simp_all add: next_staged_def mp_pop_def wake_one_waiter_eval [OF l] split_def)
  qed
qed

lemma mp_pop_ok:
  assumes "mpsc_ok t" "mp_pop stg t = (r, ws, stg', t')"
  shows "mpsc_ok t'" "stg @ mp_queue t = (case r of Some v \<Rightarrow> [v] | None \<Rightarrow> []) @ stg' @ mp_queue t'"
    "r = None \<longleftrightarrow> stg @ mp_queue t = []"
    "length stg \<le> mp_cap t \<Longrightarrow> length stg' \<le> mp_cap t"
    "mp_cap t' = mp_cap t" "mp_recv t' = mp_recv t" "mp_senders t' = mp_senders t" "mp_closed t' = mp_closed t"
    "mp_next_id t' = mp_next_id t"
    "r = None \<Longrightarrow> ws = [] \<and> t' = t \<and> stg' = []"
    "r \<noteq> None \<Longrightarrow> ws = fst (mp_awaken t) \<and> mp_wq t' = mp_wq (snd (mp_awaken t)) \<and> mp_selected t' = mp_selected (snd (mp_awaken t))"
proof -
  have ok: "mpsc_ok (snd (mp_awaken t))" "mpsc_ok ((snd (mp_awaken t))\<lparr>mp_queue := [], mp_nonempty := 0\<rparr>)"
    and le: "length (mp_queue t) \<le> mp_cap t"
    using assms(1) mpsc_ok_awaken mpsc_ok_emptied by (auto simp: mpsc_ok_def)
  consider v where "stg = v # stg'" "(r, ws, t') = (Some v, mp_awaken t)"
    | v where "stg = []" "mp_queue t = v # stg'" "r = Some v" "ws = fst (mp_awaken t)"
        "t' = (snd (mp_awaken t))\<lparr>mp_queue := [], mp_nonempty := 0\<rparr>"
    | "stg = []" "mp_queue t = []" "r = None" "ws = []" "stg' = []" "t' = t"
    using assms(2) by (auto simp: mp_pop_def split: list.splits)
  then show "mpsc_ok t'" "stg @ mp_queue t = (case r of Some v \<Rightarrow> [v] | None \<Rightarrow> []) @ stg' @ mp_queue t'"
    "r = None \<longleftrightarrow> stg @ mp_queue t = []"
    "length stg \<le> mp_cap t \<Longrightarrow> length stg' \<le> mp_cap t"
    "mp_cap t' = mp_cap t" "mp_recv t' = mp_recv t" "mp_senders t' = mp_senders t" "mp_closed t' = mp_closed t"
    "mp_next_id t' = mp_next_id t"
    "r = None \<Longrightarrow> ws = [] \<and> t' = t \<and> stg' = []"
    "r \<noteq> None \<Longrightarrow> ws = fst (mp_awaken t) \<and> mp_wq t' = mp_wq (snd (mp_awaken t)) \<and> mp_selected t' = mp_selected (snd (mp_awaken t))"
    by (cases; use assms(1) ok le in \<open>auto simp: prod_eq_iff\<close>)+
qed

lemma spin_window_idle:
  "mp_nonempty t = 0 \<Longrightarrow> mp_senders t \<noteq> 0 \<Longrightarrow> spin_window k stg t = Inr (None, [], stg, t)"
  by (induction k) simp_all

lemma mp_pop_None: "stg = [] \<Longrightarrow> mp_queue t = [] \<Longrightarrow> mp_pop stg t = (None, [], [], t)"
  by (simp add: mp_pop_def)

text \<open>A receive that finds nothing while senders live arms the slot and wakes the oldest waiting sender.\<close>

definition mp_sleep :: "waker \<Rightarrow> 'a mpsc \<Rightarrow> waker list \<times> 'a mpsc" where
  "mp_sleep w t = mp_awaken (t\<lparr>mp_recv := \<lparr>sl_waker = \<lparr>aw_state = WAITING, aw_cell = Some w\<rparr>, sl_armed = True\<rparr>\<rparr>)"

lemma mp_sleep_ok:
  assumes "mpsc_ok t"
  shows "mpsc_ok (snd (mp_sleep w t))" "parked_on w (mp_recv (snd (mp_sleep w t)))"
    "mp_queue (snd (mp_sleep w t)) = mp_queue t" "mp_cap (snd (mp_sleep w t)) = mp_cap t"
    "mp_senders (snd (mp_sleep w t)) = mp_senders t" "mp_closed (snd (mp_sleep w t)) = mp_closed t"
    "mp_next_id (snd (mp_sleep w t)) = mp_next_id t"
    "fst (mp_sleep w t) = fst (mp_awaken t)" "mp_wq (snd (mp_sleep w t)) = mp_wq (snd (mp_awaken t))"
    "mp_selected (snd (mp_sleep w t)) = mp_selected (snd (mp_awaken t))"
proof -
  show "mpsc_ok (snd (mp_sleep w t))"
    unfolding mp_sleep_def by (intro mpsc_ok_awaken mpsc_ok_recv assms) (simp add: slot_ok_def)
  show "parked_on w (mp_recv (snd (mp_sleep w t)))" by (simp add: mp_sleep_def parked_on_def slot_ok_def)
qed (simp_all add: mp_sleep_def mp_awaken_def split: list.splits)

lemma recv_poll_eval:
  assumes ok: "mpsc_ok t"
  shows "recv_poll spin w stg t = Inr (
    if stg @ mp_queue t \<noteq> [] then (case mp_pop stg t of (r, ws, stg', t') \<Rightarrow> (Ready r, ws, stg', t'))
    else if mp_senders t = 0 then (Ready None, [], [], t)
    else (Pending, fst (mp_sleep w t), [], snd (mp_sleep w t)))"
proof (cases "stg @ mp_queue t = []")
  case False
  obtain r ws stg' t' where p: "mp_pop stg t = (r, ws, stg', t')" by (cases "mp_pop stg t") auto
  moreover obtain v where "r = Some v" using mp_pop_ok(3) [OF ok p] False by auto
  ultimately show ?thesis using False by (simp add: recv_poll_def next_staged_eval [OF ok])
next
  case True
  then have e: "stg = []" "mp_queue t = []" by auto
  show ?thesis
  proof (cases "mp_senders t = 0")
    case True
    then show ?thesis using e by (simp add: recv_poll_def next_staged_eval [OF ok] mp_pop_None)
  next
    case False
    let ?s = "\<lparr>sl_waker = \<lparr>aw_state = WAITING, aw_cell = Some w\<rparr>, sl_armed = True\<rparr>"
    let ?u = "t\<lparr>mp_recv := ?s\<rparr>"
    have arm: "slot_arm w (mp_recv t) = Inr ([], ?s)" using ok by (intro slot_arm_ok) (simp add: mpsc_ok_def)
    have u: "mpsc_ok ?u" using ok by (intro mpsc_ok_recv) (simp_all add: slot_ok_def)
    have l: "\<not> mp_locked ?u" "mp_waiters_len ?u = length (mp_wq ?u)" using u by (simp_all add: mpsc_ok_def)
    have park: "recv_park w [] t = Inr (Pending, fst (mp_sleep w t), [], snd (mp_sleep w t))"
      using False e l mp_awaken_Nil [OF u]
      by (cases "mp_wq t = []")
        (simp_all add: recv_park_def arm next_staged_eval [OF u] mp_pop_None wake_one_waiter_eval mp_sleep_def split_def)
    have "mp_nonempty t = 0" using ok e by (simp add: mpsc_ok_def)
    then have "(if spin then spin_window RECV_SPIN [] t else Inr (None, [], [], t)) = Inr (None, [], [], t)"
      using spin_window_idle False by auto
    then show ?thesis
      using False e by (simp add: recv_poll_def next_staged_eval [OF ok] mp_pop_None park)
  qed
qed

lemma mp_try_recv_eval:
  assumes ok: "mpsc_ok t"
  shows "mp_try_recv stg t = Inr (case mp_pop stg t of (r, ws, stg', t') \<Rightarrow>
    (case r of Some v \<Rightarrow> Inr v | None \<Rightarrow> Inl (if mp_senders t = 0 then RClosed else REmpty), ws, stg', t'))"
proof -
  obtain r ws stg' t' where p: "mp_pop stg t = (r, ws, stg', t')" by (cases "mp_pop stg t") auto
  show ?thesis
  proof (cases r)
    case None
    note e = mp_pop_ok(3,10) [OF ok p]
    have "mp_pop stg' t' = (None, [], [], t')" using e None by (intro mp_pop_None) auto
    then show ?thesis
      using e None p ok by (auto simp: mp_try_recv_def next_staged_eval)
  next
    case (Some v)
    then show ?thesis using p by (simp add: mp_try_recv_def next_staged_eval [OF ok])
  qed
qed

section \<open>The senders' calls\<close>

definition mp_unpark :: "'a send_fut \<Rightarrow> 'a mpsc \<Rightarrow> 'a mpsc" where
  "mp_unpark s t = (case sf_parked s of Some i \<Rightarrow> mp_forget i t | None \<Rightarrow> t)"

definition mp_deliver :: "'a \<Rightarrow> 'a mpsc \<Rightarrow> waker list \<times> 'a mpsc" where
  "mp_deliver v t = signal_recv (mp_enqueue v t)"

definition send_done :: "'a send_fut" where
  "send_done = \<lparr>sf_val = None, sf_parked = None\<rparr>"

lemma mp_forget_simps [simp]:
  "mp_queue (mp_forget i t) = mp_queue t" "mp_cap (mp_forget i t) = mp_cap t"
  "mp_recv (mp_forget i t) = mp_recv t" "mp_senders (mp_forget i t) = mp_senders t"
  "mp_closed (mp_forget i t) = mp_closed t" "mp_next_id (mp_forget i t) = mp_next_id t"
  "mp_wq (mp_forget i t) = bt_remove i (mp_wq t)" "mp_selected (mp_forget i t) = mp_selected t - {i}"
  by (simp_all add: mp_forget_def)

lemma mp_unpark_simps [simp]:
  "mp_queue (mp_unpark s t) = mp_queue t" "mp_cap (mp_unpark s t) = mp_cap t"
  "mp_recv (mp_unpark s t) = mp_recv t" "mp_senders (mp_unpark s t) = mp_senders t"
  "mp_closed (mp_unpark s t) = mp_closed t" "mp_next_id (mp_unpark s t) = mp_next_id t"
  by (simp_all add: mp_unpark_def split: option.splits)

lemma mp_park_simps [simp]:
  "mp_queue (mp_park w t) = mp_queue t" "mp_cap (mp_park w t) = mp_cap t"
  "mp_recv (mp_park w t) = mp_recv t" "mp_senders (mp_park w t) = mp_senders t"
  "mp_closed (mp_park w t) = mp_closed t" "mp_next_id (mp_park w t) = Suc (mp_next_id t)"
  "mp_wq (mp_park w t) = mp_wq t @ [(mp_next_id t, w)]" "mp_selected (mp_park w t) = mp_selected t"
  by (simp_all add: mp_park_def)

lemma signal_recv_simps [simp]:
  "fst (signal_recv t) = fst (slot_signal (mp_recv t))"
  "mp_recv (snd (signal_recv t)) = snd (slot_signal (mp_recv t))"
  "mp_queue (snd (signal_recv t)) = mp_queue t" "mp_cap (snd (signal_recv t)) = mp_cap t"
  "mp_senders (snd (signal_recv t)) = mp_senders t" "mp_closed (snd (signal_recv t)) = mp_closed t"
  "mp_next_id (snd (signal_recv t)) = mp_next_id t" "mp_wq (snd (signal_recv t)) = mp_wq t"
  "mp_selected (snd (signal_recv t)) = mp_selected t"
  by (simp_all add: signal_recv_def split_def Let_def)

lemma mpsc_ok_signal: "mpsc_ok t \<Longrightarrow> mpsc_ok (snd (signal_recv t))"
  by (simp add: signal_recv_def split_def Let_def mpsc_ok_def slot_signal_slot_ok)

lemma mpsc_ok_unpark: "mpsc_ok t \<Longrightarrow> mpsc_ok (mp_unpark s t)"
  by (simp add: mp_unpark_def mpsc_ok_forget split: option.splits)

lemma mp_deliver_simps [simp]:
  "fst (mp_deliver v t) = fst (slot_signal (mp_recv t))"
  "mp_queue (snd (mp_deliver v t)) = mp_queue t @ [v]" "mp_cap (snd (mp_deliver v t)) = mp_cap t"
  "mp_senders (snd (mp_deliver v t)) = mp_senders t" "mp_closed (snd (mp_deliver v t)) = mp_closed t"
  "mp_next_id (snd (mp_deliver v t)) = mp_next_id t" "mp_wq (snd (mp_deliver v t)) = mp_wq t"
  "mp_selected (snd (mp_deliver v t)) = mp_selected t"
  by (simp_all add: mp_deliver_def)

lemma mpsc_ok_deliver: "mpsc_ok t \<Longrightarrow> length (mp_queue t) < mp_cap t \<Longrightarrow> mpsc_ok (snd (mp_deliver v t))"
  by (simp add: mp_deliver_def mpsc_ok_signal mpsc_ok_enqueue)

lemma try_send_eval:
  assumes "mpsc_ok t"
  shows "try_send v t = Inr (if mp_closed t then (Some (TSClosed v), [], t)
    else if length (mp_queue t) < mp_cap t then (None, mp_deliver v t) else (Some (TSFull v), [], t))"
proof -
  have "\<not> mp_locked t" using assms by (simp add: mpsc_ok_def)
  from mp_try_push_eval [OF this] show ?thesis by (simp add: try_send_def mp_deliver_def split_def)
qed

lemma send_poll_eval:
  assumes ok: "mpsc_ok t" and n: "Suc (mp_next_id t) < usize_bound" and v: "sf_val s = Some v"
  shows "send_poll s w t = Inr (
    if mp_closed t then (Ready (Some v), [], send_done, mp_unpark s t)
    else if length (mp_queue t) < mp_cap t
    then (Ready None, fst (mp_deliver v (mp_unpark s t)), send_done, snd (mp_deliver v (mp_unpark s t)))
    else (Pending, [], \<lparr>sf_val = Some v, sf_parked = Some (mp_next_id t)\<rparr>, mp_park w (mp_unpark s t)))"
proof -
  have l: "\<not> mp_locked t" using ok by (simp add: mpsc_ok_def)
  have u: "(case sf_parked s of Some i \<Rightarrow> repoll_waiter i t | None \<Rightarrow> Inr t) = Inr (mp_unpark s t)"
    using repoll_waiter_eval [OF l] by (simp add: mp_unpark_def split: option.splits)
  have "s\<lparr>sf_val := None, sf_parked := None\<rparr> = send_done" by (simp add: send_done_def)
  then show ?thesis
    using v n push_or_park_eval [OF mpsc_ok_unpark [OF ok], of s v w]
    by (simp add: send_poll_def u mp_deliver_def split_def send_done_def)
qed

lemma send_drop_eval:
  assumes ok: "mpsc_ok t"
  shows "send_drop s t = Inr (if \<exists>i \<in> mp_selected t. sf_parked s = Some i then mp_awaken (mp_unpark s t) else ([], mp_unpark s t))"
proof -
  have l: "\<not> mp_locked t" using ok by (simp add: mpsc_ok_def)
  show ?thesis by (cases "sf_parked s") (simp_all add: send_drop_def mp_unpark_def cancel_waiter_eval [OF l])
qed

text \<open>What a batch of \<open>k\<close> values does.\<close>

definition mp_deliver_many :: "nat \<Rightarrow> 'a list \<Rightarrow> 'a mpsc \<Rightarrow> waker list \<times> 'a mpsc" where
  "mp_deliver_many k items t =
     (if k = 0 then ([], t) else signal_recv (t\<lparr>mp_queue := mp_queue t @ take k items, mp_nonempty := 1\<rparr>))"

definition batch_size :: "'a list \<Rightarrow> 'a mpsc \<Rightarrow> nat" where
  "batch_size items t = (if mp_closed t then 0 else min (mp_cap t - length (mp_queue t)) (length items))"

lemma try_send_many_exact:
  assumes ok: "mpsc_ok t"
  shows "try_send_many items t =
    Inr (batch_size items t, drop (batch_size items t) items, mp_deliver_many (batch_size items t) items t)"
proof -
  define k where "k = min (mp_cap t - length (mp_queue t)) (length items)"
  let ?u = "t\<lparr>mp_queue := mp_queue t @ take k items, mp_nonempty := 1\<rparr>"
  have le: "length (mp_queue t) \<le> mp_cap t" and l: "\<not> mp_locked t"
    and ne: "mp_queue t \<noteq> [] \<Longrightarrow> mp_nonempty t = 1" using ok by (simp_all add: mpsc_ok_def)
  have eq: "mp_try_push_many items t = Inr (k, drop k items, if k = 0 then t else ?u)"
    using le l ne by (cases t) (auto simp: mp_try_push_many_def mp_lock_def mp_unlock_def usize_sub_def Let_def k_def min_def)
  have b: "batch_size items t = (if mp_closed t then 0 else k)" by (simp add: batch_size_def k_def)
  show ?thesis
    unfolding b using eq by (simp add: try_send_many_def mp_deliver_many_def split_def prod_eq_iff)
qed

lemma try_send_many_eval:
  assumes ok: "mpsc_ok t"
  shows "wp (try_send_many items t) (\<lambda>(k, rest, ws, t'). mpsc_ok t' \<and> mp_queue t' = mp_queue t @ take k items \<and>
    (if k = 0 then t' = t \<and> ws = [] else ws = fst (slot_signal (mp_recv t))) \<and> mp_wq t' = mp_wq t \<and>
    mp_selected t' = mp_selected t \<and> mp_next_id t' = mp_next_id t \<and> mp_cap t' = mp_cap t \<and>
    mp_senders t' = mp_senders t \<and> mp_closed t' = mp_closed t)"
proof (cases "batch_size items t = 0")
  case True
  then show ?thesis using ok by (simp add: try_send_many_exact mp_deliver_many_def)
next
  case False
  then have "take (batch_size items t) items \<noteq> []" "batch_size items t \<le> mp_cap t - length (mp_queue t)"
    by (auto simp: batch_size_def split: if_splits)
  then have "mpsc_ok (t\<lparr>mp_queue := mp_queue t @ take (batch_size items t) items, mp_nonempty := 1\<rparr>)"
    using ok by (auto simp: mpsc_ok_def)
  from mpsc_ok_signal [OF this] show ?thesis
    using False by (simp add: try_send_many_exact [OF ok] mp_deliver_many_def split_def)
qed

end
