(* ===== verification/Mpsc_System.thy ===== *)
theory Mpsc_System
  imports Mpsc
begin

text \<open>
  Any number of senders and one receiver on the channel, calling in any order, each call atomic. The
  state records the values sent and received, the live send futures with what the executor knows of
  them, and whether the receiver sleeps.
\<close>

section \<open>Runs\<close>

record 'a mpsc_sys =
  ms_ch :: "'a mpsc"
  ms_stg :: "'a list"
  ms_futs :: "'a send_fut futs"
  ms_sent :: "'a list"
  ms_got :: "'a list"
  ms_cwait :: "waker option"

definition mpsc_init :: "nat \<Rightarrow> 'a mpsc_sys \<Rightarrow> bool" where
  "mpsc_init capacity s \<longleftrightarrow> (ms_ch s, ms_stg s) = bounded capacity \<and> ms_futs s = Map.empty \<and>
     ms_sent s = [] \<and> ms_got s = [] \<and> ms_cwait s = None"

text \<open>
  The receiver's calls need a live receiver, a sender's call a live sender; the last sender is not
  dropped while a send future borrows one.
\<close>

inductive mpsc_step :: "'a mpsc_sys \<Rightarrow> 'a mpsc_sys \<Rightarrow> bool" where
  send: "ms_futs s f = None \<Longrightarrow> 0 < mp_senders (ms_ch s) \<Longrightarrow>
    mpsc_step s (s\<lparr>ms_futs := (ms_futs s)(f \<mapsto> (mp_send v, new_fut))\<rparr>)"
| poll_send: "ms_futs s f = Some (fut, x) \<Longrightarrow> send_poll fut w (ms_ch s) = Inr (r, ws, fut', t) \<Longrightarrow>
    mpsc_step s (s\<lparr>ms_ch := t, ms_futs := notify ws ((ms_futs s)(f \<mapsto> (fut', polled w))),
      ms_sent := ms_sent s @ (case (r, sf_val fut) of (Ready None, Some v) \<Rightarrow> [v] | _ \<Rightarrow> []),
      ms_cwait := still_waiting ws (ms_cwait s)\<rparr>)"
| drop_send: "ms_futs s f = Some (fut, x) \<Longrightarrow> send_drop fut (ms_ch s) = Inr (ws, t) \<Longrightarrow>
    mpsc_step s (s\<lparr>ms_ch := t, ms_futs := notify ws ((ms_futs s)(f := None)),
      ms_cwait := still_waiting ws (ms_cwait s)\<rparr>)"
| try_send: "0 < mp_senders (ms_ch s) \<Longrightarrow> try_send v (ms_ch s) = Inr (r, ws, t) \<Longrightarrow>
    mpsc_step s (s\<lparr>ms_ch := t, ms_futs := notify ws (ms_futs s),
      ms_sent := ms_sent s @ (if r = None then [v] else []), ms_cwait := still_waiting ws (ms_cwait s)\<rparr>)"
| try_send_many: "0 < mp_senders (ms_ch s) \<Longrightarrow> try_send_many items (ms_ch s) = Inr (k, rest, ws, t) \<Longrightarrow>
    mpsc_step s (s\<lparr>ms_ch := t, ms_futs := notify ws (ms_futs s),
      ms_sent := ms_sent s @ take k items, ms_cwait := still_waiting ws (ms_cwait s)\<rparr>)"
| clone: "0 < mp_senders (ms_ch s) \<Longrightarrow> mpsc_step s (s\<lparr>ms_ch := sender_clone (ms_ch s)\<rparr>)"
| drop_sender: "1 < mp_senders (ms_ch s) \<or> mp_senders (ms_ch s) = 1 \<and> ms_futs s = Map.empty \<Longrightarrow>
    sender_dropped (ms_ch s) = (ws, t) \<Longrightarrow>
    mpsc_step s (s\<lparr>ms_ch := t, ms_futs := notify ws (ms_futs s), ms_cwait := still_waiting ws (ms_cwait s)\<rparr>)"
| poll_recv: "\<not> mp_closed (ms_ch s) \<Longrightarrow> recv_poll spin w (ms_stg s) (ms_ch s) = Inr (r, ws, stg, t) \<Longrightarrow>
    mpsc_step s (s\<lparr>ms_ch := t, ms_stg := stg, ms_futs := notify ws (ms_futs s),
      ms_got := ms_got s @ (case r of Ready (Some v) \<Rightarrow> [v] | _ \<Rightarrow> []),
      ms_cwait := (if r = Pending then Some w else None)\<rparr>)"
| try_recv: "\<not> mp_closed (ms_ch s) \<Longrightarrow> mp_try_recv (ms_stg s) (ms_ch s) = Inr (r, ws, stg, t) \<Longrightarrow>
    mpsc_step s (s\<lparr>ms_ch := t, ms_stg := stg, ms_futs := notify ws (ms_futs s),
      ms_got := ms_got s @ (case r of Inr v \<Rightarrow> [v] | _ \<Rightarrow> []), ms_cwait := None\<rparr>)"
| recv_many: "\<not> mp_closed (ms_ch s) \<Longrightarrow> recv_many k [] (ms_stg s) (ms_ch s) = Inr (out, ws, stg, t) \<Longrightarrow>
    mpsc_step s (s\<lparr>ms_ch := t, ms_stg := stg, ms_futs := notify ws (ms_futs s),
      ms_got := ms_got s @ out, ms_cwait := None\<rparr>)"
| drop_recv: "\<not> mp_closed (ms_ch s) \<Longrightarrow> mpsc_step s (s\<lparr>ms_ch := recv_drop (ms_ch s), ms_cwait := None\<rparr>)"
| drop_receiver: "\<not> mp_closed (ms_ch s) \<Longrightarrow> mp_receiver_drop (ms_ch s) = Inr (ws, t) \<Longrightarrow>
    mpsc_step s (s\<lparr>ms_ch := t, ms_futs := notify ws (ms_futs s), ms_cwait := None\<rparr>)"

section \<open>Invariant\<close>

text \<open>
  Each entry of the wait list belongs to a live future that was last polled with its waker; each
  selected id to a live future that has been woken; each parked future is in one of the two, or the
  channel is closed and it has been woken.
\<close>

definition parked_ok :: "(nat \<times> waker) list \<Rightarrow> nat set \<Rightarrow> nat \<Rightarrow> bool \<Rightarrow> 'a send_fut futs \<Rightarrow> bool" where
  "parked_ok q sel nid closed futs \<longleftrightarrow>
     (\<forall>i w. (i, w) \<in> set q \<longrightarrow> (\<exists>f s x. futs f = Some (s, x) \<and> sf_parked s = Some i \<and> fut_waker x = Some w)) \<and>
     (\<forall>i \<in> sel. \<exists>f s x. futs f = Some (s, x) \<and> sf_parked s = Some i \<and> fut_notified x) \<and>
     (\<forall>f s x i. futs f = Some (s, x) \<longrightarrow> sf_parked s = Some i \<longrightarrow> sf_val s \<noteq> None \<and> i < nid \<and>
        (i \<in> fst ` set q \<or> i \<in> sel \<or> closed \<and> fut_notified x)) \<and>
     (\<forall>f g s x s' x' i. futs f = Some (s, x) \<longrightarrow> futs g = Some (s', x') \<longrightarrow>
        sf_parked s = Some i \<longrightarrow> sf_parked s' = Some i \<longrightarrow> f = g)"

lemma parked_okI:
  assumes "\<And>i w. (i, w) \<in> set q \<Longrightarrow> \<exists>f s x. futs f = Some (s, x) \<and> sf_parked s = Some i \<and> fut_waker x = Some w"
    and "\<And>i. i \<in> sel \<Longrightarrow> \<exists>f s x. futs f = Some (s, x) \<and> sf_parked s = Some i \<and> fut_notified x"
    and "\<And>f s x i. futs f = Some (s, x) \<Longrightarrow> sf_parked s = Some i \<Longrightarrow> sf_val s \<noteq> None \<and> i < nid \<and>
        (i \<in> fst ` set q \<or> i \<in> sel \<or> closed \<and> fut_notified x)"
    and "\<And>f g s x s' x' i. futs f = Some (s, x) \<Longrightarrow> futs g = Some (s', x') \<Longrightarrow>
        sf_parked s = Some i \<Longrightarrow> sf_parked s' = Some i \<Longrightarrow> f = g"
  shows "parked_ok q sel nid closed futs"
  unfolding parked_ok_def using assms by blast

lemma parked_okD:
  assumes "parked_ok q sel nid closed futs"
  shows "(i, w) \<in> set q \<Longrightarrow> \<exists>f s x. futs f = Some (s, x) \<and> sf_parked s = Some i \<and> fut_waker x = Some w"
    and "i \<in> sel \<Longrightarrow> \<exists>f s x. futs f = Some (s, x) \<and> sf_parked s = Some i \<and> fut_notified x"
    and "futs f = Some (s, x) \<Longrightarrow> sf_parked s = Some i \<Longrightarrow> sf_val s \<noteq> None \<and> i < nid \<and>
        (i \<in> fst ` set q \<or> i \<in> sel \<or> closed \<and> fut_notified x)"
    and "futs f = Some (s, x) \<Longrightarrow> futs g = Some (s', x') \<Longrightarrow>
        sf_parked s = Some i \<Longrightarrow> sf_parked s' = Some i \<Longrightarrow> f = g"
  using assms unfolding parked_ok_def by blast+

lemma parked_ok_notify:
  assumes "parked_ok q sel nid closed futs"
  shows "parked_ok q sel nid closed (notify ws futs)"
proof (rule parked_okI)
  note D = parked_okD [OF assms]
  show "\<exists>f s x. notify ws futs f = Some (s, x) \<and> sf_parked s = Some i \<and> fut_waker x = Some w" if "(i, w) \<in> set q" for i w
    using D(1) [OF that] by (force simp: notify_Some)
  show "\<exists>f s x. notify ws futs f = Some (s, x) \<and> sf_parked s = Some i \<and> fut_notified x" if "i \<in> sel" for i
    using D(2) [OF that] by (force simp: notify_Some wake_fut_notified)
  show "sf_val s \<noteq> None \<and> i < nid \<and> (i \<in> fst ` set q \<or> i \<in> sel \<or> closed \<and> fut_notified x)"
    if "notify ws futs f = Some (s, x)" "sf_parked s = Some i" for f s x i
    using that D(3) by (fastforce simp: notify_Some wake_fut_notified)
qed (use parked_okD(4) [OF assms] in \<open>fastforce simp: notify_Some\<close>)

lemma parked_ok_pop:
  assumes "parked_ok ((i, w) # q) sel nid closed futs"
  shows "parked_ok q (insert i sel) nid closed (notify [w] futs)"
proof (rule parked_okI)
  note D = parked_okD [OF assms]
  show "\<exists>f s x. notify [w] futs f = Some (s, x) \<and> sf_parked s = Some j \<and> fut_waker x = Some v" if "(j, v) \<in> set q" for j v
    using D(1) [of j v] that by (force simp: notify_Some)
  show "\<exists>f s x. notify [w] futs f = Some (s, x) \<and> sf_parked s = Some j \<and> fut_notified x" if "j \<in> insert i sel" for j
    using D(1) [of i w] D(2) [of j] that by (force simp: notify_Some wake_fut_notified)
  show "sf_val s \<noteq> None \<and> j < nid \<and> (j \<in> fst ` set q \<or> j \<in> insert i sel \<or> closed \<and> fut_notified x)"
    if "notify [w] futs f = Some (s, x)" "sf_parked s = Some j" for f s x j
    using that D(3) by (fastforce simp: notify_Some wake_fut_notified)
qed (use parked_okD(4) [OF assms] in \<open>fastforce simp: notify_Some\<close>)

lemma parked_ok_close:
  assumes "parked_ok q sel nid closed futs"
  shows "parked_ok [] {} nid True (notify (map snd q) futs)"
proof (rule parked_okI)
  note D = parked_okD [OF assms]
  show "sf_val s \<noteq> None \<and> i < nid \<and> (i \<in> fst ` set [] \<or> i \<in> {} \<or> True \<and> fut_notified x)"
    if fx: "notify (map snd q) futs f = Some (s, x)" "sf_parked s = Some i" for f s x i
  proof -
    obtain y where y: "futs f = Some (s, y)" "x = wake_fut (map snd q) y" using fx by (auto simp: notify_Some)
    have "fut_notified x"
    proof (cases "i \<in> fst ` set q")
      case True
      then obtain w where w: "(i, w) \<in> set q" by auto
      then have "fut_waker y = Some w" using D(1) [OF w] D(4) [OF y(1) _ fx(2)] y(1) by force
      with w y(2) show ?thesis by (force simp: wake_fut_notified)
    next
      case False
      then have "fut_notified y" using D(2) [of i] D(3) [OF y(1) fx(2)] D(4) [OF y(1) _ fx(2)] y(1) by force
      then show ?thesis by (simp add: y(2) wake_fut_notified)
    qed
    with D(3) [OF y(1) fx(2)] show ?thesis by simp
  qed
qed (use parked_okD(4) [OF assms] in \<open>fastforce simp: notify_Some\<close>)+

text \<open>A future that is polled or dropped leaves the wait list and the selected set.\<close>

lemma parked_ok_leave:
  assumes ok: "parked_ok q sel nid closed futs" and f: "futs f = Some (s, x)" "sf_parked s = Some i"
    and g: "\<And>s' x'. y = Some (s', x') \<Longrightarrow> sf_parked s' = None"
  shows "parked_ok (bt_remove i q) (sel - {i}) nid closed (futs(f := y))"
proof (rule parked_okI)
  note D = parked_okD [OF ok]
  show "\<exists>g t z. (futs(f := y)) g = Some (t, z) \<and> sf_parked t = Some j \<and> fut_waker z = Some w" if "(j, w) \<in> set (bt_remove i q)" for j w
  proof -
    have "(j, w) \<in> set q" "j \<noteq> i" using that by (auto simp: set_bt_remove)
    with D(1) obtain h t z where h: "futs h = Some (t, z)" "sf_parked t = Some j" "fut_waker z = Some w" by blast
    with f \<open>j \<noteq> i\<close> have "h \<noteq> f" by auto
    with h show ?thesis by (intro exI [of _ h]) simp
  qed
  show "\<exists>g t z. (futs(f := y)) g = Some (t, z) \<and> sf_parked t = Some j \<and> fut_notified z" if j: "j \<in> sel - {i}" for j
  proof -
    obtain h t z where h: "futs h = Some (t, z)" "sf_parked t = Some j" "fut_notified z" using D(2) [of j] j by blast
    with f j have "h \<noteq> f" by auto
    with h show ?thesis by (intro exI [of _ h]) simp
  qed
  show "sf_val t \<noteq> None \<and> j < nid \<and> (j \<in> fst ` set (bt_remove i q) \<or> j \<in> sel - {i} \<or> closed \<and> fut_notified z)"
    if h: "(futs(f := y)) h = Some (t, z)" "sf_parked t = Some j" for h t z j
  proof -
    have hf: "h \<noteq> f" "futs h = Some (t, z)" using h g by (auto split: if_splits)
    then have "j \<noteq> i" using D(4) [OF hf(2) f(1) h(2)] f(2) by auto
    with D(3) [OF hf(2) h(2)] show ?thesis by simp
  qed
  show "h = k" if "(futs(f := y)) h = Some (t, z)" "(futs(f := y)) k = Some (t', z')" "sf_parked t = Some j" "sf_parked t' = Some j"
    for h k t z t' z' j using that g D(4) by (auto split: if_splits)
qed

lemma parked_ok_stay:
  assumes ok: "parked_ok q sel nid closed futs" and f: "\<And>s x. futs f = Some (s, x) \<Longrightarrow> sf_parked s = None"
    and g: "\<And>s' x'. y = Some (s', x') \<Longrightarrow> sf_parked s' = None"
  shows "parked_ok q sel nid closed (futs(f := y))"
proof (rule parked_okI)
  note D = parked_okD [OF ok]
  show "\<exists>g t z. (futs(f := y)) g = Some (t, z) \<and> sf_parked t = Some j \<and> fut_waker z = Some w" if "(j, w) \<in> set q" for j w
    using D(1) [OF that] f by (metis fun_upd_other option.distinct(1))
  show "\<exists>g t z. (futs(f := y)) g = Some (t, z) \<and> sf_parked t = Some j \<and> fut_notified z" if "j \<in> sel" for j
    using D(2) [OF that] f by (metis fun_upd_other option.distinct(1))
  show "sf_val t \<noteq> None \<and> j < nid \<and> (j \<in> fst ` set q \<or> j \<in> sel \<or> closed \<and> fut_notified z)"
    if "(futs(f := y)) h = Some (t, z)" "sf_parked t = Some j" for h t z j
    using that g D(3) by (auto split: if_splits)
  show "h = k" if "(futs(f := y)) h = Some (t, z)" "(futs(f := y)) k = Some (t', z')" "sf_parked t = Some j" "sf_parked t' = Some j"
    for h k t z t' z' j using that g D(4) by (auto split: if_splits)
qed

lemma parked_ok_enter:
  assumes ok: "parked_ok q sel nid closed (futs(f := Some (s0, x0)))" and s0: "sf_parked s0 = None"
    and s: "sf_parked s = Some nid" "sf_val s \<noteq> None"
  shows "parked_ok (q @ [(nid, w)]) sel (Suc nid) closed (futs(f \<mapsto> (s, polled w)))"
proof (rule parked_okI)
  note D = parked_okD [OF ok]
  have other: "h \<noteq> f" if "(futs(f := Some (s0, x0))) h = Some (t, z)" "sf_parked t = Some j" for h t z j
    using that s0 by (auto split: if_splits)
  show "\<exists>g t z. (futs(f \<mapsto> (s, polled w))) g = Some (t, z) \<and> sf_parked t = Some j \<and> fut_waker z = Some v"
    if j: "(j, v) \<in> set (q @ [(nid, w)])" for j v
  proof (cases "(j, v) = (nid, w)")
    case True
    then show ?thesis using s by (intro exI [of _ f]) simp
  next
    case False
    then obtain h t z where h: "(futs(f := Some (s0, x0))) h = Some (t, z)" "sf_parked t = Some j" "fut_waker z = Some v"
      using D(1) [of j v] j by auto
    with other [OF h(1,2)] show ?thesis by (intro exI [of _ h]) simp
  qed
  show "\<exists>g t z. (futs(f \<mapsto> (s, polled w))) g = Some (t, z) \<and> sf_parked t = Some j \<and> fut_notified z" if j: "j \<in> sel" for j
  proof -
    obtain h t z where h: "(futs(f := Some (s0, x0))) h = Some (t, z)" "sf_parked t = Some j" "fut_notified z"
      using D(2) [OF j] by blast
    with other [OF h(1,2)] show ?thesis by (intro exI [of _ h]) simp
  qed
  have old: "sf_val t \<noteq> None \<and> j < nid \<and> (j \<in> fst ` set q \<or> j \<in> sel \<or> closed \<and> fut_notified z)"
    if "h \<noteq> f" "futs h = Some (t, z)" "sf_parked t = Some j" for h t z j using D(3) [of h t z j] that by simp
  show "sf_val t \<noteq> None \<and> j < Suc nid \<and> (j \<in> fst ` set (q @ [(nid, w)]) \<or> j \<in> sel \<or> closed \<and> fut_notified z)"
    if "(futs(f \<mapsto> (s, polled w))) h = Some (t, z)" "sf_parked t = Some j" for h t z j
    using that s old [of h t z j] by (auto split: if_splits)
  show "h = k" if "(futs(f \<mapsto> (s, polled w))) h = Some (t, z)" "(futs(f \<mapsto> (s, polled w))) k = Some (t', z')"
    "sf_parked t = Some j" "sf_parked t' = Some j" for h k t z t' z' j
    using that s old [of h t z j] old [of k t' z' j] D(4) [of h t z k t' z' j] by (auto split: if_splits)
qed

abbreviation parked_in :: "'a mpsc \<Rightarrow> 'a send_fut futs \<Rightarrow> bool" where
  "parked_in t futs \<equiv> parked_ok (mp_wq t) (mp_selected t) (mp_next_id t) (mp_closed t) futs"

text \<open>A receiver that sleeps has nothing to receive, and no sender waits without some sender woken.\<close>

definition asleep_ok :: "waker option \<Rightarrow> 'a list \<Rightarrow> 'a mpsc \<Rightarrow> bool" where
  "asleep_ok v stg t \<longleftrightarrow> (\<forall>w. v = Some w \<longrightarrow> parked_on w (mp_recv t) \<and> stg = [] \<and> mp_queue t = [] \<and>
     0 < mp_senders t \<and> \<not> mp_closed t \<and> (mp_wq t = [] \<or> mp_selected t \<noteq> {}))"

definition mpsc_inv :: "nat \<Rightarrow> nat \<Rightarrow> 'a mpsc_sys \<Rightarrow> bool" where
  "mpsc_inv capacity n s \<longleftrightarrow> mpsc_ok (ms_ch s) \<and> parked_in (ms_ch s) (ms_futs s) \<and>
     mp_cap (ms_ch s) = max capacity 1 \<and> length (ms_stg s) \<le> mp_cap (ms_ch s) \<and>
     ms_sent s = ms_got s @ ms_stg s @ mp_queue (ms_ch s) \<and>
     mp_next_id (ms_ch s) \<le> n \<and> mp_senders (ms_ch s) \<le> Suc n \<and>
     (mp_senders (ms_ch s) = 0 \<longrightarrow> ms_futs s = Map.empty) \<and> asleep_ok (ms_cwait s) (ms_stg s) (ms_ch s)"

lemma mpsc_invI:
  "mpsc_ok (ms_ch s) \<Longrightarrow> parked_in (ms_ch s) (ms_futs s) \<Longrightarrow>
   mp_cap (ms_ch s) = max capacity 1 \<Longrightarrow> length (ms_stg s) \<le> mp_cap (ms_ch s) \<Longrightarrow>
   ms_sent s = ms_got s @ ms_stg s @ mp_queue (ms_ch s) \<Longrightarrow>
   mp_next_id (ms_ch s) \<le> n \<Longrightarrow> mp_senders (ms_ch s) \<le> Suc n \<Longrightarrow>
   (mp_senders (ms_ch s) = 0 \<Longrightarrow> ms_futs s = Map.empty) \<Longrightarrow> asleep_ok (ms_cwait s) (ms_stg s) (ms_ch s) \<Longrightarrow>
   mpsc_inv capacity n s"
  by (simp add: mpsc_inv_def)

lemma asleep_None [simp]: "asleep_ok None stg t"
  by (simp add: asleep_ok_def)

lemma asleep_told: "asleep_ok v stg t \<Longrightarrow> ws = fst (slot_signal (mp_recv t)) \<Longrightarrow> still_waiting ws v = None"
  by (cases v) (auto simp: asleep_ok_def still_waiting_def parked_signal)

lemma asleep_kept:
  "asleep_ok v stg t \<Longrightarrow> mp_recv t' = mp_recv t \<Longrightarrow> mp_queue t' = mp_queue t \<Longrightarrow> mp_senders t' = mp_senders t \<Longrightarrow>
   mp_closed t' = mp_closed t \<Longrightarrow> (mp_wq t = [] \<or> mp_selected t \<noteq> {} \<Longrightarrow> mp_wq t' = [] \<or> mp_selected t' \<noteq> {}) \<Longrightarrow>
   asleep_ok (still_waiting ws v) stg t'"
  by (auto simp: asleep_ok_def still_waiting_Some)

lemma asleep_awake: "asleep_ok v stg t \<Longrightarrow> mp_closed t \<or> stg @ mp_queue t \<noteq> [] \<Longrightarrow> v = None"
  by (cases v) (auto simp: asleep_ok_def)

lemma notify_empty [simp]: "notify ws Map.empty = Map.empty"
  by (simp add: notify_def)

lemma parked_in_awaken: "parked_in t futs \<Longrightarrow> parked_in (snd (mp_awaken t)) (notify (fst (mp_awaken t)) futs)"
  by (cases "mp_wq t") (auto simp: mp_awaken_def dest: parked_ok_pop split: prod.splits)

lemma parked_in_unpark:
  assumes "parked_in t futs" "futs f = Some (fut, x)" "\<And>s' x'. y = Some (s', x') \<Longrightarrow> sf_parked s' = None"
  shows "parked_in (mp_unpark fut t) (futs(f := y))"
proof (cases "sf_parked fut")
  case None
  then show ?thesis using parked_ok_stay [OF assms(1), of f y] assms(2,3) by (simp add: mp_unpark_def)
next
  case (Some i)
  then show ?thesis using parked_ok_leave [OF assms(1,2) Some assms(3)] by (simp add: mp_unpark_def)
qed

lemma mpsc_poll_send:
  assumes inv: "mpsc_inv cap n s" and n: "Suc n < usize_bound" and f: "ms_futs s f = Some (fut, x)"
    and r: "send_poll fut w (ms_ch s) = Inr (r, ws, fut', t)"
  shows "mpsc_inv cap (Suc n) (s\<lparr>ms_ch := t, ms_futs := notify ws ((ms_futs s)(f \<mapsto> (fut', polled w))),
      ms_sent := ms_sent s @ (case (r, sf_val fut) of (Ready None, Some v) \<Rightarrow> [v] | _ \<Rightarrow> []),
      ms_cwait := still_waiting ws (ms_cwait s)\<rparr>)"
proof -
  let ?t = "ms_ch s"
  note i = inv [unfolded mpsc_inv_def]
  have ok: "mpsc_ok ?t" and pk: "parked_in ?t (ms_futs s)" and sl: "asleep_ok (ms_cwait s) (ms_stg s) ?t"
    and nid: "Suc (mp_next_id ?t) < usize_bound" and se: "mp_senders ?t \<noteq> 0" using i n f by auto
  show ?thesis
  proof (cases "sf_val fut")
    case None
    then have "sf_parked fut = None" using parked_okD(3) [OF pk f] by (cases "sf_parked fut") auto
    then have "parked_in ?t ((ms_futs s)(f \<mapsto> (fut, polled w)))" using f by (intro parked_ok_stay [OF pk]) auto
    moreover have "r = Ready None" "ws = []" "fut' = fut" "t = ?t" using r None by (auto simp: send_poll_def)
    ultimately show ?thesis
      using i None sl asleep_kept [OF sl, of ?t "[]"] se by (intro mpsc_invI) simp_all
  next
    case (Some v)
    note ev = send_poll_eval [OF ok nid Some, of w, unfolded r]
    have un: "parked_in (mp_unpark fut ?t) ((ms_futs s)(f \<mapsto> (send_done, polled w)))"
      by (rule parked_in_unpark [OF pk f]) (simp add: send_done_def)
    have uok: "mpsc_ok (mp_unpark fut ?t)" by (rule mpsc_ok_unpark [OF ok])
    consider (closed) "mp_closed ?t" "r = Ready (Some v)" "ws = []" "fut' = send_done" "t = mp_unpark fut ?t"
      | (room) "\<not> mp_closed ?t" "length (mp_queue ?t) < mp_cap ?t" "r = Ready None" "fut' = send_done"
          "ws = fst (slot_signal (mp_recv ?t))" "t = snd (mp_deliver v (mp_unpark fut ?t))"
      | (full) "\<not> mp_closed ?t" "mp_cap ?t \<le> length (mp_queue ?t)" "r = Pending" "ws = []"
          "fut' = \<lparr>sf_val = Some v, sf_parked = Some (mp_next_id ?t)\<rparr>" "t = mp_park w (mp_unpark fut ?t)"
      using ev by (auto split: if_splits)
    then show ?thesis
    proof cases
      case closed
      then show ?thesis using i un uok se asleep_awake [OF sl] by (intro mpsc_invI) (simp_all add: still_waiting_def)
    next
      case room
      have "still_waiting ws (ms_cwait s) = None" using asleep_told [OF sl room(5)] .
      moreover have "mpsc_ok t" unfolding room(6) by (rule mpsc_ok_deliver [OF uok]) (use room(2) in simp)
      ultimately show ?thesis
        using i un room se Some by (intro mpsc_invI) (simp_all add: parked_ok_notify)
    next
      case full
      have "0 < mp_cap ?t" using ok by (simp add: mpsc_ok_def)
      then have "mp_queue ?t \<noteq> []" using full(2) by auto
      then have "ms_cwait s = None" using asleep_awake [OF sl] by simp
      moreover have "parked_in t ((ms_futs s)(f \<mapsto> (fut', polled w)))"
        using parked_ok_enter [OF un, of fut' w] full by (simp add: send_done_def)
      moreover have "mpsc_ok t" using mpsc_ok_park [OF uok] full by simp
      ultimately show ?thesis
        using i full se by (intro mpsc_invI) (simp_all add: still_waiting_def)
    qed
  qed
qed

lemma mpsc_drop_send:
  assumes inv: "mpsc_inv cap n s" and f: "ms_futs s f = Some (fut, x)" and r: "send_drop fut (ms_ch s) = Inr (ws, t)"
  shows "mpsc_inv cap (Suc n) (s\<lparr>ms_ch := t, ms_futs := notify ws ((ms_futs s)(f := None)),
      ms_cwait := still_waiting ws (ms_cwait s)\<rparr>)"
proof -
  let ?t = "ms_ch s" and ?u = "mp_unpark fut (ms_ch s)"
  note i = inv [unfolded mpsc_inv_def]
  have ok: "mpsc_ok ?t" and pk: "parked_in ?t (ms_futs s)" and sl: "asleep_ok (ms_cwait s) (ms_stg s) ?t"
    and se: "mp_senders ?t \<noteq> 0" using i f by auto
  have un: "parked_in ?u ((ms_futs s)(f := None))" by (rule parked_in_unpark [OF pk f]) simp
  have uok: "mpsc_ok ?u" by (rule mpsc_ok_unpark [OF ok])
  show ?thesis
  proof (cases "\<exists>i \<in> mp_selected ?t. sf_parked fut = Some i")
    case True
    then have t: "ws = fst (mp_awaken ?u)" "t = snd (mp_awaken ?u)" using r by (auto simp: send_drop_eval [OF ok])
    have "mp_wq t = [] \<or> mp_selected t \<noteq> {}"
      unfolding t by (cases "mp_wq ?u") (auto simp: mp_awaken_def)
    then have "asleep_ok (still_waiting ws (ms_cwait s)) (ms_stg s) t"
      by (intro asleep_kept [OF sl]) (simp_all add: t)
    then show ?thesis
      using i parked_in_awaken [OF un] mpsc_ok_awaken [OF uok] se by (intro mpsc_invI) (simp_all add: t)
  next
    case False
    then have t: "ws = []" "t = ?u" using r by (auto simp: send_drop_eval [OF ok])
    have "mp_wq ?u = [] \<or> mp_selected ?u \<noteq> {}" if "mp_wq ?t = [] \<or> mp_selected ?t \<noteq> {}"
      using that False by (auto simp: mp_unpark_def split: option.splits)
    then have "asleep_ok (still_waiting [] (ms_cwait s)) (ms_stg s) ?u"
      by (intro asleep_kept [OF sl]) simp_all
    then show ?thesis using i un uok se by (intro mpsc_invI) (simp_all add: t)
  qed
qed

lemma parked_in_pop:
  assumes "mpsc_ok t" "mp_pop stg t = (r, ws, stg', t')" "parked_in t futs"
  shows "parked_in t' (notify ws futs)"
proof (cases "r = None")
  case True
  then show ?thesis using mp_pop_ok(10) [OF assms(1,2)] assms(3) by simp
next
  case False
  then show ?thesis
    using mp_pop_ok(8,9,11) [OF assms(1,2)] parked_in_awaken [OF assms(3)] by simp
qed

lemma mpsc_inv_pop:
  assumes inv: "mpsc_inv cap n s" and p: "mp_pop (ms_stg s) (ms_ch s) = (r, ws, stg, t)"
  shows "mpsc_inv cap n (s\<lparr>ms_ch := t, ms_stg := stg, ms_futs := notify ws (ms_futs s),
      ms_got := ms_got s @ (case r of Some v \<Rightarrow> [v] | None \<Rightarrow> []), ms_cwait := None\<rparr>)"
proof -
  note i = inv [unfolded mpsc_inv_def]
  then have ok: "mpsc_ok (ms_ch s)" by simp
  note q = mp_pop_ok [OF ok p]
  have "parked_in t (notify ws (ms_futs s))" using parked_in_pop [OF ok p] i by blast
  then show ?thesis using i q(1,2,4,5,7,9) by (intro mpsc_invI) simp_all
qed

lemma mpsc_inv_Suc: "mpsc_inv cap n s \<Longrightarrow> mpsc_inv cap (Suc n) s"
  by (simp add: mpsc_inv_def)

lemma recv_many_wp:
  "mpsc_inv cap n s \<Longrightarrow>
   wp (recv_many k out (ms_stg s) (ms_ch s)) (\<lambda>(out', ws, stg, t). \<exists>vs. out' = out @ vs \<and>
     mpsc_inv cap n (s\<lparr>ms_ch := t, ms_stg := stg, ms_futs := notify ws (ms_futs s), ms_got := ms_got s @ vs, ms_cwait := None\<rparr>) \<and>
     vs = take k (ms_stg s @ mp_queue (ms_ch s)) \<and> mp_senders t = mp_senders (ms_ch s))"
proof (induction k arbitrary: s out)
  case 0
  have "mpsc_inv cap n (s\<lparr>ms_ch := ms_ch s, ms_stg := ms_stg s, ms_futs := ms_futs s, ms_got := ms_got s, ms_cwait := None\<rparr>)"
    using 0 by (simp add: mpsc_inv_def)
  then show ?case by simp
next
  case (Suc k)
  obtain r ws stg t where p: "mp_pop (ms_stg s) (ms_ch s) = (r, ws, stg, t)" by (cases "mp_pop (ms_stg s) (ms_ch s)") auto
  have ok: "mpsc_ok (ms_ch s)" using Suc.prems by (simp add: mpsc_inv_def)
  note q = mp_pop_ok [OF ok p] and inv = mpsc_inv_pop [OF Suc.prems p]
  show ?case
  proof (cases r)
    case None
    then show ?thesis using inv q(2,3,7) p by (simp add: next_staged_eval [OF ok])
  next
    case (Some v)
    let ?s = "s\<lparr>ms_ch := t, ms_stg := stg, ms_futs := notify ws (ms_futs s), ms_got := ms_got s @ [v], ms_cwait := None\<rparr>"
    have "mpsc_inv cap n ?s" using inv Some by simp
    from Suc.IH [OF this, of "out @ [v]"] show ?thesis
      using Some p q(2,7) by (auto simp: next_staged_eval [OF ok] notify_notify elim!: wp_mono)
  qed
qed

lemma mpsc_inv_step_try_send:
  assumes inv: "mpsc_inv cap n s" and n: "Suc (Suc n) < usize_bound"
    and try_send: "s' = s\<lparr>ms_ch := t, ms_futs := notify ws (ms_futs s), ms_sent := ms_sent s @ (if r = None then [v] else []), ms_cwait := still_waiting ws (ms_cwait s)\<rparr>"
      "0 < mp_senders (ms_ch s)"
      "try_send v (ms_ch s) = Inr (r, ws, t)"
  shows "mpsc_inv cap (Suc n) s'"
proof -
  let ?t = "ms_ch s"
  note i = inv [unfolded mpsc_inv_def]
  have ok: "mpsc_ok ?t" and pk: "parked_in ?t (ms_futs s)" and sl: "asleep_ok (ms_cwait s) (ms_stg s) ?t"
    using i by auto
  show ?thesis
  proof (cases "\<not> mp_closed ?t \<and> length (mp_queue ?t) < mp_cap ?t")
    case True
    then have t: "r = None" "ws = fst (slot_signal (mp_recv ?t))" "t = snd (mp_deliver v ?t)"
      using try_send(3) by (auto simp: try_send_eval [OF ok] prod_eq_iff)
    have "mpsc_ok t" unfolding t by (rule mpsc_ok_deliver [OF ok]) (use True in simp)
    then show ?thesis
      using i try_send(1,2) asleep_told [OF sl t(2)] by (intro mpsc_invI) (simp_all add: t parked_ok_notify)
  next
    case False
    then have "r \<noteq> None" "ws = []" "t = ?t" using try_send(3) by (auto simp: try_send_eval [OF ok] split: if_splits)
    then show ?thesis using i try_send(1,2) asleep_kept [OF sl, of ?t "[]"] by (intro mpsc_invI) simp_all
  qed
qed

lemma mpsc_inv_step_try_send_many:
  assumes inv: "mpsc_inv cap n s" and n: "Suc (Suc n) < usize_bound"
    and try_send_many: "s' = s\<lparr>ms_ch := t, ms_futs := notify ws (ms_futs s), ms_sent := ms_sent s @ take k items, ms_cwait := still_waiting ws (ms_cwait s)\<rparr>"
      "0 < mp_senders (ms_ch s)"
      "try_send_many items (ms_ch s) = Inr (k, rest, ws, t)"
  shows "mpsc_inv cap (Suc n) s'"
proof -
  let ?t = "ms_ch s"
  note i = inv [unfolded mpsc_inv_def]
  have ok: "mpsc_ok ?t" and pk: "parked_in ?t (ms_futs s)" and sl: "asleep_ok (ms_cwait s) (ms_stg s) ?t"
    using i by auto
  note p = try_send_many_eval [OF ok, of items, unfolded try_send_many(3) wp_simps prod.case]
  have "asleep_ok (still_waiting ws (ms_cwait s)) (ms_stg s) t"
  proof (cases "k = 0")
    case True
    then show ?thesis using p asleep_kept [OF sl] by simp
  next
    case False
    then show ?thesis using p asleep_told [OF sl] by simp
  qed
  then show ?thesis using i p try_send_many(1,2) by (intro mpsc_invI) (simp_all add: parked_ok_notify)
qed

lemma mpsc_inv_step_drop_sender:
  assumes inv: "mpsc_inv cap n s" and n: "Suc (Suc n) < usize_bound"
    and drop_sender: "s' = s\<lparr>ms_ch := t, ms_futs := notify ws (ms_futs s), ms_cwait := still_waiting ws (ms_cwait s)\<rparr>"
      "1 < mp_senders (ms_ch s) \<or> mp_senders (ms_ch s) = 1 \<and> ms_futs s = Map.empty"
      "sender_dropped (ms_ch s) = (ws, t)"
  shows "mpsc_inv cap (Suc n) s'"
proof -
  let ?t = "ms_ch s"
  note i = inv [unfolded mpsc_inv_def]
  have ok: "mpsc_ok ?t" and pk: "parked_in ?t (ms_futs s)" and sl: "asleep_ok (ms_cwait s) (ms_stg s) ?t"
    using i by auto
  have sub: "wrapping_add (mp_senders ?t) (usize_bound - 1) = mp_senders ?t - 1"
    by (rule wrapping_dec) (use i n drop_sender(2) in auto)
  let ?u = "?t\<lparr>mp_senders := mp_senders ?t - 1\<rparr>"
  have uok: "mpsc_ok ?u" using ok by (simp add: mpsc_ok_def)
  have eq: "sender_dropped ?t = (if mp_senders ?t = 1 then signal_recv ?u else ([], ?u))"
    by (simp only: sender_dropped_def Let_def sub)
  show ?thesis
  proof (cases "mp_senders ?t = 1")
    case True
    then have t: "ws = fst (slot_signal (mp_recv ?t))" "t = snd (signal_recv ?u)" "ms_futs s = Map.empty"
      using drop_sender(2,3) by (auto simp: eq prod_eq_iff)
    then show ?thesis
      using i drop_sender(1) asleep_told [OF sl t(1)] mpsc_ok_signal [OF uok]
      by (intro mpsc_invI) auto
  next
    case False
    then have t: "ws = []" "t = ?u" "1 < mp_senders ?t" using drop_sender(2,3) by (auto simp: eq)
    then show ?thesis
      using i drop_sender(1) uok sl by (intro mpsc_invI) (auto simp: asleep_ok_def still_waiting_Some)
  qed
qed

lemma mpsc_inv_step_poll_recv:
  assumes inv: "mpsc_inv cap n s" and n: "Suc (Suc n) < usize_bound"
    and poll_recv: "s' = s\<lparr>ms_ch := t, ms_stg := stg, ms_futs := notify ws (ms_futs s), ms_got := ms_got s @ (case r of Ready (Some v) \<Rightarrow> [v] | _ \<Rightarrow> []), ms_cwait := (if r = Pending then Some w else None)\<rparr>"
      "\<not> mp_closed (ms_ch s)"
      "recv_poll spin w (ms_stg s) (ms_ch s) = Inr (r, ws, stg, t)"
  shows "mpsc_inv cap (Suc n) s'"
proof -
  let ?t = "ms_ch s"
  note i = inv [unfolded mpsc_inv_def]
  have ok: "mpsc_ok ?t" and pk: "parked_in ?t (ms_futs s)" and sl: "asleep_ok (ms_cwait s) (ms_stg s) ?t"
    using i by auto
  show ?thesis
  proof (cases "ms_stg s @ mp_queue ?t = []")
    case False
    obtain r0 where p: "mp_pop (ms_stg s) ?t = (r0, ws, stg, t)" "r = Ready r0"
      using poll_recv(3) False by (auto simp: recv_poll_eval [OF ok] split: prod.splits)
    from mpsc_inv_Suc [OF mpsc_inv_pop [OF inv p(1)]] show ?thesis
      using poll_recv(1) p(2) by (cases r0) simp_all
  next
    case True
    show ?thesis
    proof (cases "mp_senders ?t = 0")
      case True
      then have "r = Ready None" "ws = []" "stg = ms_stg s" "t = ?t"
        using poll_recv(3) \<open>ms_stg s @ mp_queue ?t = []\<close> by (auto simp: recv_poll_eval [OF ok])
      then show ?thesis using i poll_recv(1) by (intro mpsc_invI) simp_all
    next
      case False
      then have t: "r = Pending" "ws = fst (mp_sleep w ?t)" "stg = []" "t = snd (mp_sleep w ?t)"
        using poll_recv(3) True by (auto simp: recv_poll_eval [OF ok])
      note sp = mp_sleep_ok [OF ok, of w]
      have "mp_wq t = [] \<or> mp_selected t \<noteq> {}" using sp(9,10) t by (cases "mp_wq ?t") (auto simp: mp_awaken_def)
      then have "asleep_ok (Some w) [] t" using sp False True poll_recv(2) t by (simp add: asleep_ok_def)
      then show ?thesis
        using i True poll_recv(1) t sp parked_in_awaken [OF pk] False by (intro mpsc_invI) simp_all
    qed
  qed
qed

lemma mpsc_inv_step_try_recv:
  assumes inv: "mpsc_inv cap n s" and n: "Suc (Suc n) < usize_bound"
    and try_recv: "s' = s\<lparr>ms_ch := t, ms_stg := stg, ms_futs := notify ws (ms_futs s), ms_got := ms_got s @ (case r of Inr v \<Rightarrow> [v] | _ \<Rightarrow> []), ms_cwait := None\<rparr>"
      "\<not> mp_closed (ms_ch s)"
      "mp_try_recv (ms_stg s) (ms_ch s) = Inr (r, ws, stg, t)"
  shows "mpsc_inv cap (Suc n) s'"
proof -
  let ?t = "ms_ch s"
  note i = inv [unfolded mpsc_inv_def]
  have ok: "mpsc_ok ?t" and pk: "parked_in ?t (ms_futs s)" and sl: "asleep_ok (ms_cwait s) (ms_stg s) ?t"
    using i by auto
  obtain r0 where p: "mp_pop (ms_stg s) ?t = (r0, ws, stg, t)"
    "r = (case r0 of Some v \<Rightarrow> Inr v | None \<Rightarrow> Inl (if mp_senders ?t = 0 then RClosed else REmpty))"
    using try_recv(3) by (auto simp: mp_try_recv_eval [OF ok] split: prod.splits)
  from mpsc_inv_Suc [OF mpsc_inv_pop [OF inv p(1)]] show ?thesis
    using try_recv(1) p(2) by (cases r0) simp_all
qed

lemma mpsc_inv_step:
  assumes inv: "mpsc_inv cap n s" and n: "Suc (Suc n) < usize_bound" and step: "mpsc_step s s'"
  shows "mpsc_inv cap (Suc n) s'"
proof -
  let ?t = "ms_ch s"
  note i = inv [unfolded mpsc_inv_def]
  have ok: "mpsc_ok ?t" and pk: "parked_in ?t (ms_futs s)" and sl: "asleep_ok (ms_cwait s) (ms_stg s) ?t"
    using i by auto
  show ?thesis using step
  proof cases
    case (send f v)
    have "parked_in ?t ((ms_futs s)(f \<mapsto> (mp_send v, new_fut)))"
      by (rule parked_ok_stay [OF pk]) (use send in \<open>simp_all add: mp_send_def\<close>)
    then show ?thesis using i send by (intro mpsc_invI) simp_all
  next
    case (poll_send f fut x w r ws fut' t)
    then show ?thesis using mpsc_poll_send [OF inv _ poll_send(2,3)] n by simp
  next
    case (drop_send f fut x ws t)
    then show ?thesis using mpsc_drop_send [OF inv drop_send(2,3)] by simp
  next
    case (try_send v r ws t)
    then show ?thesis by (rule mpsc_inv_step_try_send [OF inv n])
  next
    case (try_send_many items k rest ws t)
    then show ?thesis by (rule mpsc_inv_step_try_send_many [OF inv n])
  next
    case clone
    have "wrapping_add (mp_senders ?t) 1 = Suc (mp_senders ?t)" using i n by (subst wrapping_add_small) auto
    then show ?thesis
      using i clone sl by (intro mpsc_invI) (simp_all add: sender_clone_def mpsc_ok_def asleep_ok_def)
  next
    case (drop_sender ws t)
    then show ?thesis by (rule mpsc_inv_step_drop_sender [OF inv n])
  next
    case (poll_recv spin w r ws stg t)
    then show ?thesis by (rule mpsc_inv_step_poll_recv [OF inv n])
  next
    case (try_recv r ws stg t)
    then show ?thesis by (rule mpsc_inv_step_try_recv [OF inv n])
  next
    case (recv_many k out ws stg t)
    from recv_many_wp [OF inv, of k "[]", unfolded recv_many(3) wp_simps prod.case] mpsc_inv_Suc recv_many(1)
    show ?thesis by auto
  next
    case drop_recv
    then show ?thesis using i slot_disarm_ok by (intro mpsc_invI) (simp_all add: recv_drop_def mpsc_ok_def)
  next
    case (drop_receiver ws t)
    have "ws = map snd (mp_wq ?t)" "t = ?t\<lparr>mp_closed := True, mp_wq := [], mp_selected := {}, mp_waiters_len := 0\<rparr>"
      using drop_receiver(3) ok by (auto simp: mp_receiver_drop_def wake_all_waiters_eval mpsc_ok_def)
    then show ?thesis
      using i drop_receiver(1) parked_ok_close [OF pk] by (intro mpsc_invI) (simp_all add: mpsc_ok_def wait_ids_ok_def)
  qed
qed

lemma mpsc_inv_init: "mpsc_init capacity s \<Longrightarrow> mpsc_inv capacity 0 s"
  by (auto simp: mpsc_init_def bounded_def mpsc_inv_def mpsc_ok_def wait_ids_ok_def parked_ok_def)

interpretation mp: transition_system "mpsc_init capacity" mpsc_step "\<lambda>n s. Suc n < usize_bound \<longrightarrow> mpsc_inv capacity n s" for capacity
  by unfold_locales (auto intro: mpsc_inv_init mpsc_inv_step)

lemma mpsc_reach: "reach (mpsc_init capacity) mpsc_step n s \<Longrightarrow> Suc n < usize_bound \<Longrightarrow> mpsc_inv capacity n s"
  using mp.reach_inv by (metis Suc_lessD)

section \<open>A run\<close>

text \<open>
  A channel of capacity 1: the first sender fills it, the second parks; the receiver takes the value,
  which wakes the second sender, and falls asleep.
\<close>

definition demo_ch :: "nat list \<Rightarrow> (nat \<times> waker) list \<Rightarrow> nat set \<Rightarrow> nat \<Rightarrow> waiter_slot \<Rightarrow> nat mpsc" where
  "demo_ch q wq sel nid sl = \<lparr>mp_locked = False, mp_nonempty = (if q = [] then 0 else 1), mp_cap = 1, mp_queue = q,
     mp_wq = wq, mp_next_id = nid, mp_selected = sel, mp_recv = sl, mp_senders = 1, mp_closed = False,
     mp_waiters_len = length wq\<rparr>"

definition demo_mpsc :: "nat mpsc \<Rightarrow> nat send_fut futs \<Rightarrow> nat list \<Rightarrow> nat list \<Rightarrow> waker option \<Rightarrow> nat mpsc_sys" where
  "demo_mpsc t futs sent got cw = \<lparr>ms_ch = t, ms_stg = [], ms_futs = futs, ms_sent = sent, ms_got = got, ms_cwait = cw\<rparr>"

lemma demo_ch_ok: "length q \<le> 1 \<Longrightarrow> wait_ids_ok wq sel nid \<Longrightarrow> mpsc_ok (demo_ch q wq sel nid slot_new)"
  by (simp add: demo_ch_def mpsc_ok_def)

lemma demo_send1:
  "send_poll (mp_send 7) w (demo_ch [] [] {} 0 slot_new) = Inr (Ready None, [], send_done, demo_ch [7] [] {} 0 slot_new)"
  by (subst send_poll_eval [of _ _ 7])
    (auto simp: demo_ch_ok wait_ids_ok_def mp_send_def, simp_all add: demo_ch_def mp_unpark_def mp_deliver_def
      mp_enqueue_def signal_recv_def prod_eq_iff)

lemma demo_send2:
  "send_poll (mp_send 8) 5 (demo_ch [7] [] {} 0 slot_new) =
   Inr (Pending, [], \<lparr>sf_val = Some 8, sf_parked = Some 0\<rparr>, demo_ch [7] [(0, 5)] {} 1 slot_new)"
  by (subst send_poll_eval [of _ _ 8])
    (auto simp: demo_ch_ok wait_ids_ok_def mp_send_def, simp_all add: demo_ch_def mp_unpark_def mp_park_def)

lemma demo_recv1:
  "recv_poll False w [] (demo_ch [7] [(0, 5)] {} 1 slot_new) = Inr (Ready (Some 7), [5], [], demo_ch [] [] {0} 1 slot_new)"
  by (subst recv_poll_eval)
    (auto simp: demo_ch_ok wait_ids_ok_def, simp_all add: demo_ch_def mp_pop_def mp_awaken_def)

lemma demo_recv2:
  "recv_poll False 9 [] (demo_ch [] [] {0} 1 slot_new) = Inr (Pending, [], [], demo_ch [] [] {0} 1
     \<lparr>sl_waker = \<lparr>aw_state = WAITING, aw_cell = Some 9\<rparr>, sl_armed = True\<rparr>)"
  by (subst recv_poll_eval)
    (auto simp: demo_ch_ok wait_ids_ok_def, simp_all add: demo_ch_def mp_sleep_def mp_awaken_def)

lemma mpsc_run:
  obtains s :: "nat mpsc_sys" where "reach (mpsc_init 1) mpsc_step 6 s" "ms_cwait s = Some 9" "ms_sent s = [7]" "ms_got s = [7]"
    "ms_futs s 1 = Some (\<lparr>sf_val = Some 8, sf_parked = Some 0\<rparr>, (polled 5)\<lparr>fut_notified := True\<rparr>)"
    "mp_selected (ms_ch s) = {0}" "mp_wq (ms_ch s) = []" "ms_stg s = []" "mp_queue (ms_ch s) = []"
    "mp_senders (ms_ch s) = 1"
proof -
  let ?r = "reach (mpsc_init 1) mpsc_step" and ?f2 = "\<lparr>sf_val = Some 8, sf_parked = Some 0\<rparr>"
  let ?futs1 = "[0 \<mapsto> (send_done, polled 3)]"
  let ?futs2 = "[0 \<mapsto> (send_done, polled 3), 1 \<mapsto> (?f2, polled 5)]"
  have "?r 0 (demo_mpsc (demo_ch [] [] {} 0 slot_new) Map.empty [] [] None)"
    by (rule reach.start) (simp add: mpsc_init_def bounded_def demo_mpsc_def demo_ch_def)
  from reach.next_step [OF this, OF mpsc_step.send [where f = 0 and v = 7]]
  have "?r 1 (demo_mpsc (demo_ch [] [] {} 0 slot_new) [0 \<mapsto> (mp_send 7, new_fut)] [] [] None)"
    by (simp add: demo_mpsc_def demo_ch_def)
  from reach.next_step [OF this, OF mpsc_step.poll_send [where f = 0 and fut = "mp_send 7" and x = new_fut and w = 3 and r = "Ready None"
        and ws = "[]" and fut' = send_done and t = "demo_ch [7] [] {} 0 slot_new"]] demo_send1
  have "?r 2 (demo_mpsc (demo_ch [7] [] {} 0 slot_new) ?futs1 [7] [] None)"
    by (simp add: demo_mpsc_def still_waiting_def mp_send_def numeral_2_eq_2)
  from reach.next_step [OF this, OF mpsc_step.send [where f = 1 and v = 8]]
  have "?r 3 (demo_mpsc (demo_ch [7] [] {} 0 slot_new) (?futs1(1 \<mapsto> (mp_send 8, new_fut))) [7] [] None)"
    by (simp add: demo_mpsc_def demo_ch_def eval_nat_numeral)
  from reach.next_step [OF this, OF mpsc_step.poll_send [where f = 1 and fut = "mp_send 8" and x = new_fut and w = 5 and r = Pending
        and ws = "[]" and fut' = ?f2 and t = "demo_ch [7] [(0, 5)] {} 1 slot_new"]] demo_send2
  have "?r 4 (demo_mpsc (demo_ch [7] [(0, 5)] {} 1 slot_new) ?futs2 [7] [] None)"
    by (simp add: demo_mpsc_def still_waiting_def eval_nat_numeral)
  from reach.next_step [OF this, OF mpsc_step.poll_recv [where spin = False and w = 9 and r = "Ready (Some 7)" and ws = "[5]" and stg = "[]"
        and t = "demo_ch [] [] {0} 1 slot_new"]] demo_recv1
  have "?r 5 (demo_mpsc (demo_ch [] [] {0} 1 slot_new) (notify [5] ?futs2) [7] [7] None)"
    by (simp add: demo_mpsc_def demo_ch_def eval_nat_numeral)
  from reach.next_step [OF this, OF mpsc_step.poll_recv [where spin = False and w = 9 and r = Pending and ws = "[]" and stg = "[]"
        and t = "demo_ch [] [] {0} 1 \<lparr>sl_waker = \<lparr>aw_state = WAITING, aw_cell = Some 9\<rparr>, sl_armed = True\<rparr>"]] demo_recv2
  have r6: "?r 6 (demo_mpsc (demo_ch [] [] {0} 1 \<lparr>sl_waker = \<lparr>aw_state = WAITING, aw_cell = Some 9\<rparr>, sl_armed = True\<rparr>)
      (notify [5] ?futs2) [7] [7] (Some 9))"
    by (simp add: demo_mpsc_def demo_ch_def eval_nat_numeral)
  show thesis
    by (rule that [OF r6]) (simp_all add: demo_mpsc_def demo_ch_def notify_def wake_fut_def)
qed

section \<open>Properties\<close>

text \<open>
  The channel is FIFO across all senders and loses nothing: in every run the values whose send
  succeeded, in the order they entered the queue, are those received followed by the staged and the
  queued ones; queue and staging each hold at most the capacity; a receive returns the oldest value,
  and a batch receive the oldest \<open>k\<close>.
\<close>

lemma mpsc_fifo:
  assumes "reach (mpsc_init capacity) mpsc_step n s" "Suc n < usize_bound"
  shows "ms_sent s = ms_got s @ ms_stg s @ mp_queue (ms_ch s) \<and>
    length (mp_queue (ms_ch s)) \<le> max capacity 1 \<and> length (ms_stg s) \<le> max capacity 1 \<and>
    wp (mp_try_recv (ms_stg s) (ms_ch s)) (\<lambda>(r, _). r = (case ms_stg s @ mp_queue (ms_ch s) of v # _ \<Rightarrow> Inr v
       | [] \<Rightarrow> Inl (if receiver_is_closed (ms_ch s) then RClosed else REmpty))) \<and>
    wp (recv_many k [] (ms_stg s) (ms_ch s)) (\<lambda>(out, _). out = take k (ms_stg s @ mp_queue (ms_ch s)))"
proof -
  have inv: "mpsc_inv capacity n s" by (rule mpsc_reach [OF assms])
  note i = inv [unfolded mpsc_inv_def]
  have ok: "mpsc_ok (ms_ch s)" using i by simp
  obtain r ws stg t where p: "mp_pop (ms_stg s) (ms_ch s) = (r, ws, stg, t)" by (cases "mp_pop (ms_stg s) (ms_ch s)") auto
  have "wp (mp_try_recv (ms_stg s) (ms_ch s)) (\<lambda>(r, _). r = (case ms_stg s @ mp_queue (ms_ch s) of v # _ \<Rightarrow> Inr v
       | [] \<Rightarrow> Inl (if receiver_is_closed (ms_ch s) then RClosed else REmpty)))"
    using mp_pop_ok(2) [OF ok p] mp_pop_ok(3) [OF ok p]
    by (cases r) (simp_all add: mp_try_recv_eval [OF ok] p receiver_is_closed_def mp_pop_None)
  moreover have "wp (recv_many k [] (ms_stg s) (ms_ch s)) (\<lambda>(out, _). out = take k (ms_stg s @ mp_queue (ms_ch s)))"
    by (rule wp_mono [OF recv_many_wp [OF inv]]) auto
  moreover have "length (mp_queue (ms_ch s)) \<le> mp_cap (ms_ch s)" using ok by (simp add: mpsc_ok_def)
  ultimately show ?thesis using i by simp
qed

lemma mpsc_fifo_witness:
  "\<exists>s :: nat mpsc_sys. reach (mpsc_init 1) mpsc_step 6 s \<and> ms_sent s = [7] \<and> ms_got s = [7] \<and>
     wp (mp_try_recv (ms_stg s) (ms_ch s)) (\<lambda>(r, _). r = Inl REmpty \<or> r = Inl RClosed)"
proof -
  obtain s :: "nat mpsc_sys" where s: "reach (mpsc_init 1) mpsc_step 6 s" "ms_sent s = [7]" "ms_got s = [7]"
    "ms_stg s = []" "mp_queue (ms_ch s) = []" by (rule mpsc_run)
  have "Suc 6 < usize_bound" by simp
  from mpsc_fifo [OF s(1) this, of 0]
  have "wp (mp_try_recv (ms_stg s) (ms_ch s)) (\<lambda>(r, _). r = (case ms_stg s @ mp_queue (ms_ch s) of v # _ \<Rightarrow> Inr v
       | [] \<Rightarrow> Inl (if receiver_is_closed (ms_ch s) then RClosed else REmpty)))" by blast
  then have "wp (mp_try_recv (ms_stg s) (ms_ch s)) (\<lambda>(r, _). r = Inl REmpty \<or> r = Inl RClosed)"
    by (rule wp_mono) (use s(4,5) in auto)
  with s(1-3) show ?thesis by blast
qed

lemma oldest_waiter_woken:
  assumes "mpsc_inv capacity n s" "mp_wq (ms_ch s) = (i, w0) # q"
  shows "wp (recv_poll spin w (ms_stg s) (ms_ch s)) (\<lambda>(_, ws, _). w0 \<in> set ws)"
proof -
  note inv = assms(1) [unfolded mpsc_inv_def]
  have ok: "mpsc_ok (ms_ch s)" using inv by simp
  have aw: "fst (mp_awaken (ms_ch s)) = [w0]" using assms(2) by (simp add: mp_awaken_def)
  have "ms_futs s \<noteq> Map.empty" using parked_okD(1) [of _ _ _ _ "ms_futs s" i w0] inv assms(2) by fastforce
  then have se: "mp_senders (ms_ch s) \<noteq> 0" using inv by auto
  obtain r ws stg t where p: "mp_pop (ms_stg s) (ms_ch s) = (r, ws, stg, t)" by (cases "mp_pop (ms_stg s) (ms_ch s)") auto
  show ?thesis
  proof (cases "ms_stg s @ mp_queue (ms_ch s) = []")
    case True
    then show ?thesis using se aw mp_sleep_ok(8) [OF ok, of w] by (simp add: recv_poll_eval [OF ok])
  next
    case False
    then have "ws = [w0]" using mp_pop_ok(3,11) [OF ok p] aw by simp
    then show ?thesis using False by (simp add: recv_poll_eval [OF ok] p)
  qed
qed

text \<open>
  No wakeup is lost. A sleeping receiver has nothing to receive and is woken by the next send;
  if senders wait meanwhile, one of them has been woken and its next poll succeeds and wakes the
  receiver. A parked sender that has not been woken is in the wait list, and every receive wakes
  the one that has waited longest.
\<close>

lemma mpsc_no_lost_wakeup:
  assumes "reach (mpsc_init capacity) mpsc_step n s" "Suc n < usize_bound"
  shows "(\<forall>w. ms_cwait s = Some w \<longrightarrow> ms_sent s = ms_got s \<and> \<not> receiver_is_closed (ms_ch s) \<and>
      wp (try_send v (ms_ch s)) (\<lambda>(r, ws, _). r = None \<and> w \<in> set ws) \<and>
      (mp_wq (ms_ch s) = [] \<or> (\<exists>f fut x. ms_futs s f = Some (fut, x) \<and> fut_notified x \<and>
         wp (send_poll fut u (ms_ch s)) (\<lambda>(r, ws, _). r = Ready None \<and> w \<in> set ws)))) \<and>
    (\<forall>f fut x i. ms_futs s f = Some (fut, x) \<and> sf_parked fut = Some i \<and> \<not> fut_notified x \<longrightarrow>
      i \<in> fst ` set (mp_wq (ms_ch s))) \<and>
    (\<forall>i w0 q. mp_wq (ms_ch s) = (i, w0) # q \<longrightarrow> (\<forall>j \<in> fst ` set q. i < j) \<and>
      wp (recv_poll spin u (ms_stg s) (ms_ch s)) (\<lambda>(_, ws, _). w0 \<in> set ws))"
proof (intro conjI allI impI)
  have inv: "mpsc_inv capacity n s" by (rule mpsc_reach [OF assms])
  note i = inv [unfolded mpsc_inv_def]
  let ?t = "ms_ch s"
  have ok: "mpsc_ok ?t" and pk: "parked_in ?t (ms_futs s)" and nid: "Suc (mp_next_id ?t) < usize_bound"
    using i assms(2) by auto
  have cap: "0 < mp_cap ?t" using ok by (simp add: mpsc_ok_def)
  fix w assume w: "ms_cwait s = Some w"
  then have sl: "parked_on w (mp_recv ?t)" "ms_stg s = []" "mp_queue ?t = []" "0 < mp_senders ?t" "\<not> mp_closed ?t"
    "mp_wq ?t = [] \<or> mp_selected ?t \<noteq> {}" using i by (auto simp: asleep_ok_def)
  have sig: "fst (slot_signal (mp_recv ?t)) = [w]" by (rule parked_signal [OF sl(1)])
  show "ms_sent s = ms_got s" using i sl(2,3) by simp
  show "\<not> receiver_is_closed ?t" using sl(4) by (simp add: receiver_is_closed_def)
  show "wp (try_send v ?t) (\<lambda>(r, ws, _). r = None \<and> w \<in> set ws)"
    using sl cap sig by (simp add: try_send_eval [OF ok] split_def)
  show "mp_wq ?t = [] \<or> (\<exists>f fut x. ms_futs s f = Some (fut, x) \<and> fut_notified x \<and>
         wp (send_poll fut u ?t) (\<lambda>(r, ws, _). r = Ready None \<and> w \<in> set ws))"
  proof (cases "mp_selected ?t = {}")
    case False
    then obtain j f fut x where f: "ms_futs s f = Some (fut, x)" "sf_parked fut = Some j" "fut_notified x"
      using parked_okD(2) [OF pk] by blast
    then obtain y where "sf_val fut = Some y" using parked_okD(3) [OF pk f(1,2)] by auto
    from send_poll_eval [OF ok nid this, of u] have "wp (send_poll fut u ?t) (\<lambda>(r, ws, _). r = Ready None \<and> w \<in> set ws)"
      using sl cap sig by simp
    with f show ?thesis by blast
  qed (use sl in simp)
next
  have inv: "mpsc_inv capacity n s" by (rule mpsc_reach [OF assms])
  then have pk: "parked_in (ms_ch s) (ms_futs s)" by (simp add: mpsc_inv_def)
  note D = parked_okD [OF pk]
  fix f fut x i
  assume f: "ms_futs s f = Some (fut, x) \<and> sf_parked fut = Some i \<and> \<not> fut_notified x"
  then show "i \<in> fst ` set (mp_wq (ms_ch s))"
    using D(2) [of i] D(3) [of f fut x i] D(4) [of f fut x _ _ _ i] by fastforce
next
  have inv: "mpsc_inv capacity n s" by (rule mpsc_reach [OF assms])
  fix i w0 q
  assume q: "mp_wq (ms_ch s) = (i, w0) # q"
  show "wp (recv_poll spin u (ms_stg s) (ms_ch s)) (\<lambda>(_, ws, _). w0 \<in> set ws)"
    by (rule oldest_waiter_woken [OF inv q])
  have "wait_ids_ok (mp_wq (ms_ch s)) (mp_selected (ms_ch s)) (mp_next_id (ms_ch s))"
    using inv by (simp add: mpsc_inv_def mpsc_ok_def)
  then show "\<forall>j \<in> fst ` set q. i < j" by (auto simp: q wait_ids_ok_def)
qed

lemma mpsc_no_lost_wakeup_witness:
  "\<exists>s :: nat mpsc_sys. reach (mpsc_init 1) mpsc_step 6 s \<and> ms_cwait s = Some 9 \<and>
     wp (try_send 4 (ms_ch s)) (\<lambda>(r, ws, _). r = None \<and> 9 \<in> set ws)"
proof -
  obtain s :: "nat mpsc_sys" where s: "reach (mpsc_init 1) mpsc_step 6 s" "ms_cwait s = Some 9" by (rule mpsc_run)
  have "Suc 6 < usize_bound" by simp
  from mpsc_no_lost_wakeup [OF s(1) this, of 4] s show ?thesis by blast
qed

text \<open>
  Cancelling a sender that was woken but not polled again passes its wake to the sender that has
  waited longest; cancelling one that still waits wakes nobody and removes only its own entry. Either
  way no trace of the cancelled sender is left.
\<close>

lemma mpsc_cancel_passes_wake:
  assumes "reach (mpsc_init capacity) mpsc_step n s" "Suc n < usize_bound"
    and "ms_futs s f = Some (fut, x)" "sf_parked fut = Some i"
  shows "wp (send_drop fut (ms_ch s)) (\<lambda>(ws, t).
    i \<notin> fst ` set (mp_wq t) \<and> i \<notin> mp_selected t \<and>
    (if i \<in> mp_selected (ms_ch s)
     then ws = map snd (take 1 (mp_wq (ms_ch s))) \<and> mp_wq t = drop 1 (mp_wq (ms_ch s))
     else ws = [] \<and> mp_wq t = filter (\<lambda>(j, _). j \<noteq> i) (mp_wq (ms_ch s))))"
proof -
  let ?t = "ms_ch s"
  have ok: "mpsc_ok ?t" using mpsc_reach [OF assms(1,2)] by (simp add: mpsc_inv_def)
  then have ids: "wait_ids_ok (mp_wq ?t) (mp_selected ?t) (mp_next_id ?t)" by (simp add: mpsc_ok_def)
  have u: "mp_unpark fut ?t = mp_forget i ?t" using assms(4) by (simp add: mp_unpark_def)
  show ?thesis
  proof (cases "i \<in> mp_selected ?t")
    case True
    then have "i \<notin> fst ` set (mp_wq ?t)" using ids by (auto simp: wait_ids_ok_def)
    then show ?thesis
      using True assms(4) by (cases "mp_wq ?t") (auto simp: send_drop_eval [OF ok] u mp_awaken_def bt_remove_absent)
  next
    case False
    then show ?thesis using assms(4) by (auto simp: send_drop_eval [OF ok] u bt_remove_def)
  qed
qed

text \<open>The receiver is gone: every sender that waits is woken, and every way of sending returns the values.\<close>

lemma mpsc_close_receiver:
  assumes inv: "mpsc_inv capacity n s" and n: "Suc n < usize_bound"
  shows "wp (mp_receiver_drop (ms_ch s)) (\<lambda>(ws, t). sender_is_closed t \<and>
      (\<forall>f fut x i. ms_futs s f = Some (fut, x) \<and> sf_parked fut = Some i \<longrightarrow> fut_notified (wake_fut ws x)) \<and>
      (\<forall>fut v. sf_val fut = Some v \<longrightarrow> wp (send_poll fut w t) (\<lambda>(r, _). r = Ready (Some v))) \<and>
      (\<forall>v. try_send v t = Inr (Some (TSClosed v), [], t)) \<and>
      (\<forall>vs. wp (try_send_many vs t) (\<lambda>(k, rest, ws', _). k = 0 \<and> rest = vs \<and> ws' = [])))"
proof -
  note i = inv [unfolded mpsc_inv_def]
  let ?t = "ms_ch s"
  have ok: "mpsc_ok ?t" and pk: "parked_in ?t (ms_futs s)" and nid: "Suc (mp_next_id ?t) < usize_bound"
    using i n by auto
  let ?c = "?t\<lparr>mp_closed := True, mp_wq := [], mp_selected := {}, mp_waiters_len := 0\<rparr>"
  have eq: "mp_receiver_drop ?t = Inr (map snd (mp_wq ?t), ?c)"
    using ok by (simp add: mp_receiver_drop_def wake_all_waiters_eval mpsc_ok_def)
  have cok: "mpsc_ok ?c" using ok by (simp add: mpsc_ok_def wait_ids_ok_def)
  have "fut_notified (wake_fut (map snd (mp_wq ?t)) x)" if "ms_futs s f = Some (fut, x)" "sf_parked fut = Some j" for f fut x j
    using parked_okD(3) [OF parked_ok_close [OF pk], of f fut "wake_fut (map snd (mp_wq ?t)) x" j] that by (simp add: notify_Some)
  moreover have "wp (send_poll fut w ?c) (\<lambda>(r, _). r = Ready (Some v))" if "sf_val fut = Some v" for fut v
    using send_poll_eval [OF cok _ that, of w] nid by simp
  moreover have "wp (try_send_many vs ?c) (\<lambda>(k, rest, ws', _). k = 0 \<and> rest = vs \<and> ws' = [])" for vs
    using try_send_many_exact [OF cok, of vs] by (simp add: batch_size_def mp_deliver_many_def split_def)
  ultimately show ?thesis unfolding eq by (auto simp: sender_is_closed_def try_send_def)
qed

text \<open>
  A sender is dropped: the last one closes the channel and wakes a sleeping receiver, whose next poll
  returns the end of the channel; any other changes nothing but the count.
\<close>

lemma mpsc_close_sender:
  assumes inv: "mpsc_inv capacity n s" and n: "Suc n < usize_bound" and pos: "0 < mp_senders (ms_ch s)"
  shows "case sender_dropped (ms_ch s) of (ws, t) \<Rightarrow> (receiver_is_closed t \<longleftrightarrow> mp_senders (ms_ch s) = 1) \<and>
    mp_queue t = mp_queue (ms_ch s) \<and> (mp_senders (ms_ch s) \<noteq> 1 \<longrightarrow> ws = []) \<and>
    (\<forall>u. mp_senders (ms_ch s) = 1 \<and> ms_cwait s = Some u \<longrightarrow>
      ws = [u] \<and> wp (recv_poll spin w (ms_stg s) t) (\<lambda>(r, _). r = Ready None))"
proof -
  let ?t = "ms_ch s" and ?u = "(ms_ch s)\<lparr>mp_senders := mp_senders (ms_ch s) - 1\<rparr>"
  note i = inv [unfolded mpsc_inv_def]
  have ok: "mpsc_ok ?u" and sl: "asleep_ok (ms_cwait s) (ms_stg s) ?t" using i by (auto simp: mpsc_ok_def)
  have "wrapping_add (mp_senders ?t) (usize_bound - 1) = mp_senders ?t - 1"
    by (rule wrapping_dec) (use i n pos in auto)
  then have eq: "sender_dropped ?t = (if mp_senders ?t = 1 then signal_recv ?u else ([], ?u))"
    by (simp only: sender_dropped_def Let_def)
  have "fst (signal_recv ?u) = [u] \<and> wp (recv_poll spin w (ms_stg s) (snd (signal_recv ?u))) (\<lambda>(r, _). r = Ready None)"
    if "mp_senders ?t = 1" "ms_cwait s = Some u" for u
    using sl that mpsc_ok_signal [OF ok] parked_signal [of u "mp_recv ?t"]
    by (auto simp: asleep_ok_def recv_poll_eval mp_pop_None)
  then show ?thesis using pos by (auto simp: eq receiver_is_closed_def split_def)
qed

lemma mpsc_close_drained:
  assumes inv: "mpsc_inv capacity n s" and closed: "receiver_is_closed (ms_ch s)"
  shows "wp (recv_many (length (ms_sent s)) [] (ms_stg s) (ms_ch s)) (\<lambda>(out, _, stg, t). ms_sent s = ms_got s @ out \<and>
    wp (mp_try_recv stg t) (\<lambda>(r, _). r = Inl RClosed) \<and> wp (recv_poll spin w stg t) (\<lambda>(r, _). r = Ready None))"
proof -
  have sent: "ms_sent s = ms_got s @ ms_stg s @ mp_queue (ms_ch s)" using inv by (simp add: mpsc_inv_def)
  have z: "mp_senders (ms_ch s) = 0" using closed by (simp add: receiver_is_closed_def)
  show ?thesis
  proof (rule wp_mono [OF recv_many_wp [OF inv]])
    fix y
    assume "case y of (out', ws, stg, t) \<Rightarrow> \<exists>vs. out' = [] @ vs \<and>
      mpsc_inv capacity n (s\<lparr>ms_ch := t, ms_stg := stg, ms_futs := notify ws (ms_futs s), ms_got := ms_got s @ vs, ms_cwait := None\<rparr>) \<and>
      vs = take (length (ms_sent s)) (ms_stg s @ mp_queue (ms_ch s)) \<and> mp_senders t = mp_senders (ms_ch s)"
    then obtain out ws stg t where y: "y = (out, ws, stg, t)" and out: "out = take (length (ms_sent s)) (ms_stg s @ mp_queue (ms_ch s))"
      and inv': "mpsc_inv capacity n (s\<lparr>ms_ch := t, ms_stg := stg, ms_futs := notify ws (ms_futs s), ms_got := ms_got s @ out, ms_cwait := None\<rparr>)"
      and z': "mp_senders t = 0" using z by (cases y) auto
    have all: "out = ms_stg s @ mp_queue (ms_ch s)" using out sent by simp
    then have "stg = []" "mp_queue t = []" and ok: "mpsc_ok t" using inv' sent by (auto simp: mpsc_inv_def)
    then show "case y of (out, _, stg, t) \<Rightarrow> ms_sent s = ms_got s @ out \<and>
        wp (mp_try_recv stg t) (\<lambda>(r, _). r = Inl RClosed) \<and> wp (recv_poll spin w stg t) (\<lambda>(r, _). r = Ready None)"
      using all sent z' by (simp add: y mp_try_recv_eval recv_poll_eval mp_pop_None)
  qed
qed

text \<open>
  C35. Closing is observed by everybody. Dropping the receiver wakes every parked sender, and from then
  on \<open>send\<close>, \<open>try_send\<close> and \<open>try_send_many\<close> return their values as errors. Dropping a sender closes the
  channel exactly when it was the last one, and then wakes the receiver if it sleeps; its next poll
  returns the end of the channel. Once all senders are gone the receiver still gets every value sent,
  in order, and then the end of the channel, from \<open>try_recv\<close> and from \<open>recv\<close> alike.
\<close>

theorem mpsc_close:
  assumes "reach (mpsc_init capacity) mpsc_step n s" "Suc n < usize_bound"
  shows "wp (mp_receiver_drop (ms_ch s)) (\<lambda>(ws, t). sender_is_closed t \<and>
      (\<forall>f fut x i. ms_futs s f = Some (fut, x) \<and> sf_parked fut = Some i \<longrightarrow> fut_notified (wake_fut ws x)) \<and>
      (\<forall>fut v. sf_val fut = Some v \<longrightarrow> wp (send_poll fut w t) (\<lambda>(r, _). r = Ready (Some v))) \<and>
      (\<forall>v. try_send v t = Inr (Some (TSClosed v), [], t)) \<and>
      (\<forall>vs. wp (try_send_many vs t) (\<lambda>(k, rest, ws', _). k = 0 \<and> rest = vs \<and> ws' = []))) \<and>
    (0 < mp_senders (ms_ch s) \<longrightarrow>
      (case sender_dropped (ms_ch s) of (ws, t) \<Rightarrow> (receiver_is_closed t \<longleftrightarrow> mp_senders (ms_ch s) = 1) \<and>
        mp_queue t = mp_queue (ms_ch s) \<and> (mp_senders (ms_ch s) \<noteq> 1 \<longrightarrow> ws = []) \<and>
        (\<forall>u. mp_senders (ms_ch s) = 1 \<and> ms_cwait s = Some u \<longrightarrow>
          ws = [u] \<and> wp (recv_poll spin w (ms_stg s) t) (\<lambda>(r, _). r = Ready None)))) \<and>
    (receiver_is_closed (ms_ch s) \<longrightarrow>
      wp (recv_many (length (ms_sent s)) [] (ms_stg s) (ms_ch s)) (\<lambda>(out, _, stg, t). ms_sent s = ms_got s @ out \<and>
        wp (mp_try_recv stg t) (\<lambda>(r, _). r = Inl RClosed) \<and> wp (recv_poll spin w stg t) (\<lambda>(r, _). r = Ready None)))"
proof -
  have inv: "mpsc_inv capacity n s" by (rule mpsc_reach [OF assms])
  show ?thesis
    by (intro conjI impI mpsc_close_receiver [OF inv assms(2)] mpsc_close_sender [OF inv assms(2)]
        mpsc_close_drained [OF inv])
qed

theorem mpsc_close_witness:
  "\<exists>s :: nat mpsc_sys. reach (mpsc_init 1) mpsc_step 6 s \<and> fst (sender_dropped (ms_ch s)) = [9] \<and>
     wp (mp_receiver_drop (ms_ch s)) (\<lambda>(ws, t). wp (send_poll (mp_send 8) 0 t) (\<lambda>(r, _). r = Ready (Some 8)))"
proof -
  obtain s :: "nat mpsc_sys" where s: "reach (mpsc_init 1) mpsc_step 6 s" "ms_cwait s = Some 9" "mp_senders (ms_ch s) = 1"
    by (rule mpsc_run)
  have "Suc 6 < usize_bound" by simp
  note close = mpsc_close [OF s(1) this, of 0 False]
  have "wp (mp_receiver_drop (ms_ch s))
     (\<lambda>(ws, t). wp (send_poll (mp_send 8) 0 t) (\<lambda>(r, _). r = Ready (Some 8)))"
    using close [THEN conjunct1] by (auto simp: mp_send_def elim!: wp_mono)
  moreover have "fst (sender_dropped (ms_ch s)) = [9]"
    using close [THEN conjunct2, THEN conjunct1] s(2,3) by (auto split: prod.splits)
  ultimately show ?thesis using s(1) by blast
qed

text \<open>One \<open>try_send\<close> per value, until the first failure.\<close>

fun send_each :: "'a list \<Rightarrow> 'a mpsc \<Rightarrow> (nat \<times> 'a list \<times> waker list \<times> 'a mpsc) res" where
  "send_each [] t = Inr (0, [], [], t)"
| "send_each (v # vs) t =
     rbind (try_send v t) (\<lambda>(r, ws, t1).
       case r of
         None \<Rightarrow> rbind (send_each vs t1) (\<lambda>(k, rest, ws', t2). Inr (Suc k, rest, ws @ ws', t2))
       | Some _ \<Rightarrow> Inr (0, v # vs, [], t1))"

lemma signal_twice: "slot_ok s \<Longrightarrow> slot_signal (snd (slot_signal s)) = ([], snd (slot_signal s))"
  by (simp add: slot_signal_ok [of s]) (simp add: slot_signal_def)

lemma deliver_many_step:
  assumes "mpsc_ok t"
  shows "mp_deliver_many (Suc k) (v # vs) t =
    (fst (mp_deliver v t) @ fst (mp_deliver_many k vs (snd (mp_deliver v t))), snd (mp_deliver_many k vs (snd (mp_deliver v t))))"
proof -
  have ne: "mp_nonempty t = (if mp_queue t = [] then 0 else 1)" and sl: "slot_ok (mp_recv t)"
    using assms by (simp_all add: mpsc_ok_def)
  show ?thesis
    using ne signal_twice [OF sl]
    by (cases t; cases "slot_signal (mp_recv t)")
      (auto simp: mp_deliver_many_def mp_deliver_def mp_enqueue_def signal_recv_def Let_def)
qed

text \<open>
  \<open>try_send_many\<close>, which takes the lock and signals the receiver once, leaves exactly the state and
  the leftovers of one \<open>try_send\<close> per value until the first failure, and wakes the same tasks.
\<close>

lemma mpsc_batch_equiv:
  assumes "mpsc_ok t"
  shows "try_send_many items t = send_each items t"
  using assms
proof (induction items arbitrary: t)
  case Nil
  then show ?case by (simp add: try_send_many_exact batch_size_def mp_deliver_many_def)
next
  case (Cons v vs)
  note ex = try_send_many_exact [OF Cons.prems, of "v # vs"]
  show ?case
  proof (cases "\<not> mp_closed t \<and> length (mp_queue t) < mp_cap t")
    case True
    let ?u = "snd (mp_deliver v t)"
    have u: "mpsc_ok ?u" using mpsc_ok_deliver [OF Cons.prems] True by simp
    have "batch_size (v # vs) t = Suc (batch_size vs ?u)" using True by (auto simp: batch_size_def)
    then have "try_send_many (v # vs) t = Inr (Suc (batch_size vs ?u), drop (batch_size vs ?u) vs, mp_deliver_many (Suc (batch_size vs ?u)) (v # vs) t)"
      using ex by simp
    moreover have "send_each vs ?u = Inr (batch_size vs ?u, drop (batch_size vs ?u) vs, mp_deliver_many (batch_size vs ?u) vs ?u)"
      by (simp only: Cons.IH [OF u, symmetric] try_send_many_exact [OF u])
    ultimately show ?thesis
      using True by (simp add: try_send_eval [OF Cons.prems] deliver_many_step [OF Cons.prems] split_def)
  next
    case False
    then have "batch_size (v # vs) t = 0" by (auto simp: batch_size_def)
    with False ex show ?thesis by (auto simp: try_send_eval [OF Cons.prems] mp_deliver_many_def)
  qed
qed

lemma mpsc_batch_equiv_witness:
  "try_send_many [1, 2, 3] (fst (bounded 2) :: nat mpsc) = send_each [1, 2, 3] (fst (bounded 2)) \<and>
   wp (send_each [1, 2, 3] (fst (bounded 2) :: nat mpsc)) (\<lambda>(k, rest, _, _). k = 2 \<and> rest = [3])"
proof -
  have ok: "mpsc_ok (fst (bounded 2) :: nat mpsc)"
    by (simp add: bounded_def mpsc_ok_def wait_ids_ok_def)
  from mpsc_batch_equiv [OF ok, of "[1, 2, 3]"] try_send_many_exact [OF ok, of "[1, 2, 3]"]
  show ?thesis by (simp add: batch_size_def bounded_def split_def min_def)
qed

text \<open>The backoff of a contended lock spins at most 63 times.\<close>

lemma jitter_bound: "unat (fst (jitter seed)) < 64"
proof -
  have "fst (jitter seed) = take_bit 6 (drop_bit 26 (seed * 2654435761))"
    by (simp add: jitter_def take_bit_eq_mask mask_eq_exp_minus_1)
  then have "unat (fst (jitter seed)) = take_bit 6 (unat (drop_bit 26 (seed * 2654435761)))"
    by (simp add: unsigned_take_bit_eq)
  then show ?thesis using take_bit_nat_less_exp [of 6] by simp
qed

end
