(* ===== verification/Mpsc_Threads.thy ===== *)
theory Mpsc_Threads
  imports Slot_Access Mpsc
begin

text \<open>
  The channel of \<open>src/src/site_d/mpsc_light.rs\<close> with any number of sender threads and a receiver thread
  that interleave at every atomic access, under sequential consistency: the compare-exchange and the
  store of the spinlock, the accesses of a critical section, the loads of \<open>closed\<close>, \<open>senders\<close>, \<open>nonempty\<close>
  and \<open>waiters_len\<close> outside it, each wake, and the accesses of the receiver's slot. The plain fields that
  the lock guards are accessed together with the next atomic access of the section; that sections never
  overlap is part of the invariant. This theory has the threads and the invariant of the data and of the
  wait list; \<open>Mpsc_Wakeups\<close> has the receiver's wakeups and the properties.
\<close>

section \<open>The threads\<close>

text \<open>
  A thread at \<open>SLock p\<close> or \<open>RLock p\<close> is about to try the compare-exchange of \<open>lock\<close>: it succeeds and the
  thread goes on at \<open>p\<close>, or it stays (the loop of \<open>lock_slow\<close>). At \<open>SUnlock p\<close> or \<open>RUnlock p\<close> it is about to
  release the lock.
\<close>

datatype 'a sending = STry 'a | SMany "'a list" | SPoll 'a

text \<open>
  A sender. \<open>SRepoll\<close>, \<open>SPush\<close>, \<open>SPark\<close>, \<open>SCancel\<close>: before the accesses of \<open>repoll_waiter\<close>, \<open>try_push\<close> or
  \<open>try_push_many\<close>, the second half of \<open>push_or_park\<close> and \<open>cancel_waiter\<close>, with the lock held.
  \<open>SParkClosed\<close>: before the load of \<open>closed\<close> under the lock. \<open>SClosed\<close>, \<open>SFull\<close>: before that load outside it,
  at the start of a call and after \<open>try_send\<close> found the queue full. \<open>SSignal\<close>: inside \<open>signal\<close>, called by the
  last sender's destructor if the flag is set. \<open>SOut\<close>: no call in progress; \<open>SGone\<close>: no handle.
\<close>

datatype 'a spc =
    SGone | SOut | SClosed "'a sending" | SPush "'a sending" | SFull 'a | SRepoll waker 'a
  | SParkClosed 'a | SPark 'a | SCancel | SSignal bool signal_pc | SWake waker | SLock "'a spc" | SUnlock "'a spc"

datatype 'a reply = NoAnswer | Sent | Refused 'a | Shut "'a list" | Kept "'a list" | Waits

text \<open>
  The future of \<open>send\<close>, if any, and the answer of the last call; the waker of its last registration and
  whether the wait list has called it since. A poll or a destructor takes the id out of the future when
  it removes it from the wait list.
\<close>

record 'a sender =
  sn_pc :: "'a spc"
  sn_fut :: "'a send_fut"
  sn_cur :: waker
  sn_woken :: bool
  sn_ans :: "'a reply"

text \<open>
  Why the receiver calls \<open>next_staged\<close>: in \<open>try_recv\<close>, in \<open>recv_many\<close> with \<open>n\<close> more items wanted after
  this one, first in a poll, in the spin window with \<open>k\<close> rounds left, after arming, or for the last time
  since there is no sender.
\<close>

datatype rmode = MTry | MMany nat | MPoll bool waker | MSpin nat waker | MPark | MLast

text \<open>
  The receiver. \<open>RNext\<close>: at the start of \<open>next_staged\<close>; \<open>RHint\<close>, \<open>RSleep\<close>: before the load of \<open>waiters_len\<close>
  there and at the end of \<open>poll\<close>; \<open>RSteal\<close>: in \<open>steal_into\<close>, with the lock held; \<open>RSelect\<close>: before popping a
  waiter there and in \<open>wake_one_waiter\<close>; \<open>RPop\<close>: after a successful \<open>steal_into\<close>; \<open>RSenders\<close>: before the load
  of \<open>senders\<close>; \<open>RSpin\<close>: before the load of \<open>nonempty\<close>; \<open>RReg\<close>: inside \<open>arm\<close>; \<open>RDisarm\<close>: before \<open>disarm\<close>;
  \<open>RWaiting\<close>: \<open>poll\<close> has returned \<open>Pending\<close>; \<open>RClose\<close>, \<open>RWakeAll\<close>: in the destructor.
\<close>

datatype recv_pc =
    ROut | RNext rmode | RHint rmode | RSteal rmode | RSelect recv_pc | RPop rmode | RSenders rmode
  | RSpin nat waker | RReg waiter_pc | RSleep | RWaiting | RDisarm recv_pc | RClose | RWakeAll | RGone
  | RWake "waker list" recv_pc | RLock recv_pc | RUnlock recv_pc

text \<open>\<open>rc_ended\<close>: a call has reported the end of the channel.\<close>

record 'a receiver =
  rc_pc :: recv_pc
  rc_stg :: "'a list"
  rc_cur :: waker
  rc_woken :: bool
  rc_ended :: bool

record 'a mt_sys =
  mt_ch :: "'a mpsc"
  mt_s :: "nat \<Rightarrow> 'a sender"
  mt_r :: "'a receiver"
  mt_sent :: "'a list"
  mt_got :: "'a list"

definition s_set :: "nat \<Rightarrow> 'a sender \<Rightarrow> 'a mt_sys \<Rightarrow> 'a mt_sys" where
  "s_set i x s = s\<lparr>mt_s := (mt_s s)(i := x)\<rparr>"

definition s_told :: "waker \<Rightarrow> 'a mt_sys \<Rightarrow> 'a mt_sys" where
  "s_told w s = s\<lparr>mt_s := (\<lambda>i. (mt_s s i)\<lparr>sn_woken := sn_woken (mt_s s i) \<or> sn_cur (mt_s s i) = w\<rparr>)\<rparr>"

definition r_told :: "waker list \<Rightarrow> 'a receiver \<Rightarrow> 'a receiver" where
  "r_told ws r = r\<lparr>rc_woken := rc_woken r \<or> rc_cur r \<in> set ws\<rparr>"

section \<open>A sender's accesses\<close>

text \<open>The call returns with the values it was given: the receiver is gone.\<close>

definition s_shut :: "'a sending \<Rightarrow> 'a sender \<Rightarrow> 'a sender" where
  "s_shut c x =
     (case c of
        STry v \<Rightarrow> x\<lparr>sn_ans := Shut [v]\<rparr>
      | SMany items \<Rightarrow> x\<lparr>sn_ans := Kept items\<rparr>
      | SPoll v \<Rightarrow> x\<lparr>sn_ans := Shut [v]\<rparr>)"

text \<open>Pushing one value, and what follows when there was no room.\<close>

definition s_pushed :: "nat \<Rightarrow> 'a list \<Rightarrow> 'a mpsc \<Rightarrow> 'a sender \<Rightarrow> 'a mt_sys \<Rightarrow> 'a mt_sys" where
  "s_pushed i vs t x s =
     s_set i (x\<lparr>sn_pc := SUnlock (SSignal False Gate)\<rparr>) (s\<lparr>mt_ch := t, mt_sent := mt_sent s @ vs\<rparr>)"

definition s_push :: "nat \<Rightarrow> 'a sending \<Rightarrow> 'a mt_sys \<Rightarrow> 'a mt_sys res" where
  "s_push i c s =
     (let t = mt_ch s; x = mt_s s i; full = (length (mp_queue t) \<ge> mp_cap t) in
      case c of
        STry v \<Rightarrow>
          Inr (if full then s_set i (x\<lparr>sn_pc := SUnlock (SFull v)\<rparr>) s
               else s_pushed i [v] (mp_enqueue v t) (x\<lparr>sn_ans := Sent\<rparr>) s)
      | SPoll v \<Rightarrow>
          Inr (if full then s_set i (x\<lparr>sn_pc := SUnlock (SLock (SParkClosed v))\<rparr>) s
               else s_pushed i [v] (mp_enqueue v t) (x\<lparr>sn_ans := Sent\<rparr>) s)
      | SMany items \<Rightarrow>
          rbind (usize_sub (mp_cap t) (length (mp_queue t))) (\<lambda>room.
            let k = min room (length items);
                t' = t\<lparr>mp_queue := mp_queue t @ take k items, mp_nonempty := (if mp_queue t = [] then 1 else mp_nonempty t)\<rparr>;
                x' = x\<lparr>sn_ans := Kept (drop k items)\<rparr>
            in Inr (if k > 0 then s_pushed i (take k items) t' x' s else s_set i (x'\<lparr>sn_pc := SUnlock SOut\<rparr>) s)))"

definition s_park :: "nat \<Rightarrow> 'a \<Rightarrow> 'a mt_sys \<Rightarrow> 'a mt_sys res" where
  "s_park i v s =
     (let t = mt_ch s; x = mt_s s i; ident = mp_next_id t in
      if length (mp_queue t) < mp_cap t
      then Inr (s_pushed i [v] (mp_enqueue v t) (x\<lparr>sn_ans := Sent\<rparr>) s)
      else
        (case checked_add ident 1 of
           None \<Rightarrow> Inl (Assertion ''mpsc waiter id overflow'')
         | Some next_id \<Rightarrow>
             (let wq = bt_insert ident (sn_cur x) (mp_wq t) in
              Inr (s_set i (x\<lparr>sn_fut := \<lparr>sf_val = Some v, sf_parked = Some ident\<rparr>, sn_pc := SUnlock SOut, sn_ans := Waits\<rparr>)
                (s\<lparr>mt_ch := t\<lparr>mp_next_id := next_id, mp_wq := wq, mp_waiters_len := length wq\<rparr>\<rparr>)))))"

definition s_cancel :: "nat \<Rightarrow> 'a mt_sys \<Rightarrow> 'a mt_sys" where
  "s_cancel i s =
     (let t = mt_ch s; x = mt_s s i in
      case sf_parked (sn_fut x) of
        None \<Rightarrow> s
      | Some ident \<Rightarrow>
          (let (ws, t') = (if ident \<in> mp_selected t then mp_awaken (mp_forget ident t) else ([], mp_forget ident t))
           in s_set i (x\<lparr>sn_fut := send_done, sn_pc := SUnlock (case ws of w # _ \<Rightarrow> SWake w | [] \<Rightarrow> SOut)\<rparr>)
                (s\<lparr>mt_ch := t'\<rparr>)))"

definition s_repoll :: "nat \<Rightarrow> waker \<Rightarrow> 'a \<Rightarrow> 'a mt_sys \<Rightarrow> 'a mt_sys" where
  "s_repoll i w v s =
     (let t = mt_ch s; x = mt_s s i in
      case sf_parked (sn_fut x) of
        None \<Rightarrow> s
      | Some ident \<Rightarrow>
          s_set i (x\<lparr>sn_fut := (sn_fut x)\<lparr>sf_parked := None\<rparr>, sn_cur := w, sn_woken := False,
              sn_pc := SUnlock (SClosed (SPoll v))\<rparr>)
            (s\<lparr>mt_ch := mp_forget ident t\<rparr>))"

fun s_access :: "nat \<Rightarrow> 'a spc \<Rightarrow> 'a mt_sys \<Rightarrow> 'a mt_sys res" where
  "s_access i (SLock p) s =
     Inr (if mp_locked (mt_ch s) then s
          else s_set i ((mt_s s i)\<lparr>sn_pc := p\<rparr>) (s\<lparr>mt_ch := (mt_ch s)\<lparr>mp_locked := True\<rparr>\<rparr>))"
| "s_access i (SUnlock p) s = Inr (s_set i ((mt_s s i)\<lparr>sn_pc := p\<rparr>) (s\<lparr>mt_ch := mp_unlock (mt_ch s)\<rparr>))"
| "s_access i (SClosed c) s =
     Inr (s_set i (if mp_closed (mt_ch s) then (s_shut c (mt_s s i))\<lparr>sn_pc := SOut\<rparr>
                   else if c = SMany [] then (mt_s s i)\<lparr>sn_ans := Kept [], sn_pc := SOut\<rparr>
                   else (mt_s s i)\<lparr>sn_pc := SLock (SPush c)\<rparr>) s)"
| "s_access i (SPush c) s = s_push i c s"
| "s_access i (SFull v) s =
     Inr (s_set i ((mt_s s i)\<lparr>sn_pc := SOut, sn_ans := (if mp_closed (mt_ch s) then Shut [v] else Refused v)\<rparr>) s)"
| "s_access i (SRepoll w v) s = Inr (s_repoll i w v s)"
| "s_access i (SParkClosed v) s =
     Inr (s_set i (if mp_closed (mt_ch s) then (s_shut (SPoll v) (mt_s s i))\<lparr>sn_pc := SUnlock SOut\<rparr>
                   else (mt_s s i)\<lparr>sn_pc := SPark v\<rparr>) s)"
| "s_access i (SPark v) s = s_park i v s"
| "s_access i SCancel s = Inr (s_cancel i s)"
| "s_access i (SWake w) s = Inr (s_told w (s_set i ((mt_s s i)\<lparr>sn_pc := SOut\<rparr>) s))"
| "s_access i (SSignal gone q) s =
     (let (ws, q', slot) = sig_access q (mp_recv (mt_ch s)) in
      Inr (s_set i ((mt_s s i)\<lparr>sn_pc := (if q' \<noteq> Quiet then SSignal gone q' else if gone then SGone else SOut)\<rparr>)
        (s\<lparr>mt_ch := (mt_ch s)\<lparr>mp_recv := slot\<rparr>, mt_r := r_told ws (mt_r s)\<rparr>)))"
| "s_access i SOut s = Inr s"
| "s_access i SGone s = Inr s"

definition s_move :: "nat \<Rightarrow> 'a mt_sys \<Rightarrow> 'a mt_sys res" where
  "s_move i s = s_access i (sn_pc (mt_s s i)) s"

text \<open>
  The calls of a thread that is not inside one; \<open>None\<close> where Rust does not allow the call. A thread has at
  most one live future. \<open>Arc::clone\<close> aborts the program beyond \<open>isize::MAX\<close> references.
\<close>

datatype 'a s_op = Send 'a | PollSend waker | DropSend | TrySend 'a | TrySendMany "'a list" | Clone nat | DropSender

definition new_sender :: "'a sender" where
  "new_sender = \<lparr>sn_pc = SOut, sn_fut = send_done, sn_cur = 0, sn_woken = False, sn_ans = NoAnswer\<rparr>"

definition s_call :: "nat \<Rightarrow> 'a s_op \<Rightarrow> 'a mt_sys \<Rightarrow> 'a mt_sys option" where
  "s_call i op s =
     (let t = mt_ch s; x = mt_s s i; free = (sf_val (sn_fut x) = None) in
      if \<not> (case sn_pc x of SOut \<Rightarrow> True | _ \<Rightarrow> False) then None
      else case op of
        Send v \<Rightarrow> if free then Some (s_set i (x\<lparr>sn_fut := mp_send v\<rparr>) s) else None
      | PollSend w \<Rightarrow>
          (case sf_val (sn_fut x) of
             None \<Rightarrow> None
           | Some v \<Rightarrow>
               let x' = x\<lparr>sn_fut := (sn_fut x)\<lparr>sf_val := None\<rparr>\<rparr> in
               Some (case sf_parked (sn_fut x) of
                   None \<Rightarrow> s_set i (x'\<lparr>sn_cur := w, sn_woken := False, sn_pc := SClosed (SPoll v)\<rparr>) s
                 | Some _ \<Rightarrow> s_set i (x'\<lparr>sn_pc := SLock (SRepoll w v)\<rparr>) s))
      | DropSend \<Rightarrow>
          if free then None
          else Some (case sf_parked (sn_fut x) of
              None \<Rightarrow> s_set i (x\<lparr>sn_fut := send_done\<rparr>) s
            | Some _ \<Rightarrow> s_set i (x\<lparr>sn_pc := SLock SCancel\<rparr>) s)
      | TrySend v \<Rightarrow> if free then Some (s_set i (x\<lparr>sn_pc := SClosed (STry v)\<rparr>) s) else None
      | TrySendMany items \<Rightarrow> if free then Some (s_set i (x\<lparr>sn_pc := SClosed (SMany items)\<rparr>) s) else None
      | Clone j \<Rightarrow>
          if (case sn_pc (mt_s s j) of SGone \<Rightarrow> True | _ \<Rightarrow> False) \<and> mp_senders t < 2 ^ 63
          then Some (s_set j new_sender (s\<lparr>mt_ch := sender_clone t\<rparr>)) else None
      | DropSender \<Rightarrow>
          if free then
            Some (s_set i (x\<lparr>sn_pc := (if mp_senders t = 1 then SSignal True Gate else SGone)\<rparr>)
              (s\<lparr>mt_ch := t\<lparr>mp_senders := wrapping_add (mp_senders t) (usize_bound - 1)\<rparr>\<rparr>))
          else None)"

section \<open>The receiver's accesses\<close>

text \<open>\<open>next_staged\<close> has returned an item, or none.\<close>

fun r_some :: "rmode \<Rightarrow> recv_pc" where
  "r_some (MMany (Suc n)) = RNext (MMany n)"
| "r_some MPark = RDisarm ROut"
| "r_some _ = ROut"

fun r_none :: "rmode \<Rightarrow> recv_pc" where
  "r_none MLast = ROut"
| "r_none (MMany n) = ROut"
| "r_none m = RSenders m"

definition r_register :: "waker \<Rightarrow> 'a receiver \<Rightarrow> 'a receiver" where
  "r_register w r = r\<lparr>rc_pc := RReg Reg1, rc_cur := w, rc_woken := False\<rparr>"

text \<open>There are senders.\<close>

fun r_live :: "rmode \<Rightarrow> 'a receiver \<Rightarrow> 'a receiver" where
  "r_live (MPoll spin w) r = (if spin then r\<lparr>rc_pc := RSpin RECV_SPIN w\<rparr> else r_register w r)"
| "r_live (MSpin k w) r = (if 0 < k then r\<lparr>rc_pc := RSpin k w\<rparr> else r_register w r)"
| "r_live MPark r = r\<lparr>rc_pc := RSleep\<rparr>"
| "r_live _ r = r\<lparr>rc_pc := ROut\<rparr>"

definition r_set :: "'a receiver \<Rightarrow> 'a mt_sys \<Rightarrow> 'a mt_sys" where
  "r_set r s = s\<lparr>mt_r := r\<rparr>"

definition r_take :: "recv_pc \<Rightarrow> recv_pc \<Rightarrow> 'a mt_sys \<Rightarrow> 'a mt_sys" where
  "r_take p_some p_none s =
     (case rc_stg (mt_r s) of
        v # rest \<Rightarrow> r_set ((mt_r s)\<lparr>rc_stg := rest, rc_pc := p_some\<rparr>) (s\<lparr>mt_got := mt_got s @ [v]\<rparr>)
      | [] \<Rightarrow> r_set ((mt_r s)\<lparr>rc_pc := p_none\<rparr>) s)"

definition r_steal :: "rmode \<Rightarrow> 'a mt_sys \<Rightarrow> 'a mt_sys" where
  "r_steal m s =
     (let t = mt_ch s; r = mt_r s in
      if mp_queue t = [] then r_set (r\<lparr>rc_pc := RUnlock (r_none m), rc_ended := rc_ended r \<or> m = MLast\<rparr>) s
      else r_set (r\<lparr>rc_stg := mp_queue t, rc_pc := RSelect (RPop m)\<rparr>)
        (s\<lparr>mt_ch := t\<lparr>mp_queue := rc_stg r, mp_nonempty := 0\<rparr>\<rparr>))"

definition r_select :: "recv_pc \<Rightarrow> 'a mt_sys \<Rightarrow> 'a mt_sys" where
  "r_select p s =
     (let (ws, t) = mp_awaken (mt_ch s)
      in r_set ((mt_r s)\<lparr>rc_pc := RUnlock (if ws = [] then p else RWake ws p)\<rparr>) (s\<lparr>mt_ch := t\<rparr>))"

fun r_access :: "recv_pc \<Rightarrow> 'a mt_sys \<Rightarrow> 'a mt_sys res" where
  "r_access (RLock p) s =
     Inr (if mp_locked (mt_ch s) then s
          else r_set ((mt_r s)\<lparr>rc_pc := p\<rparr>) (s\<lparr>mt_ch := (mt_ch s)\<lparr>mp_locked := True\<rparr>\<rparr>))"
| "r_access (RUnlock p) s = Inr (r_set ((mt_r s)\<lparr>rc_pc := p\<rparr>) (s\<lparr>mt_ch := mp_unlock (mt_ch s)\<rparr>))"
| "r_access (RNext m) s = Inr (r_take (RHint m) (RLock (RSteal m)) s)"
| "r_access (RHint m) s =
     Inr (r_set ((mt_r s)\<lparr>rc_pc := (if mp_waiters_len (mt_ch s) > 0 then RLock (RSelect (r_some m)) else r_some m)\<rparr>) s)"
| "r_access (RSteal m) s = Inr (r_steal m s)"
| "r_access (RSelect p) s = Inr (r_select p s)"
| "r_access (RPop m) s = Inr (r_take (r_some m) (r_none m) s)"
| "r_access (RSenders m) s =
     Inr (r_set (if mp_senders (mt_ch s) \<noteq> 0 then r_live m (mt_r s)
                 else (mt_r s)\<lparr>rc_pc := (if m = MPark then RDisarm (RNext MLast) else RNext MLast)\<rparr>) s)"
| "r_access (RSpin k w) s =
     Inr (r_set ((mt_r s)\<lparr>rc_pc :=
       (if mp_nonempty (mt_ch s) > 0 then RNext (MSpin (k - 1) w) else RSenders (MSpin (k - 1) w))\<rparr>) s)"
| "r_access (RReg q) s =
     rbind (reg_access (rc_cur (mt_r s)) q (mp_recv (mt_ch s))) (\<lambda>(ws, q', slot).
       Inr (r_set ((r_told ws (mt_r s))\<lparr>rc_pc := (if q' = Recheck then RNext MPark else RReg q')\<rparr>)
         (s\<lparr>mt_ch := (mt_ch s)\<lparr>mp_recv := slot\<rparr>\<rparr>)))"
| "r_access RSleep s =
     Inr (r_set ((mt_r s)\<lparr>rc_pc := (if mp_waiters_len (mt_ch s) > 0 then RLock (RSelect RWaiting) else RWaiting)\<rparr>) s)"
| "r_access (RDisarm p) s =
     Inr (r_set ((mt_r s)\<lparr>rc_pc := p\<rparr>) (s\<lparr>mt_ch := (mt_ch s)\<lparr>mp_recv := slot_disarm (mp_recv (mt_ch s))\<rparr>\<rparr>))"
| "r_access RClose s =
     Inr (r_set ((mt_r s)\<lparr>rc_pc := RLock RWakeAll\<rparr>) (s\<lparr>mt_ch := (mt_ch s)\<lparr>mp_closed := True\<rparr>\<rparr>))"
| "r_access RWakeAll s =
     Inr (r_set ((mt_r s)\<lparr>rc_pc := RUnlock (RWake (map snd (mp_wq (mt_ch s))) RGone)\<rparr>)
       (s\<lparr>mt_ch := (mt_ch s)\<lparr>mp_wq := [], mp_selected := {}, mp_waiters_len := 0\<rparr>\<rparr>))"
| "r_access (RWake ws p) s =
     Inr (case ws of
        [] \<Rightarrow> r_set ((mt_r s)\<lparr>rc_pc := p\<rparr>) s
      | w # ws' \<Rightarrow> s_told w (r_set ((mt_r s)\<lparr>rc_pc := RWake ws' p\<rparr>) s))"
| "r_access ROut s = Inr s"
| "r_access RWaiting s = Inr s"
| "r_access RGone s = Inr s"

definition recv_move :: "'a mt_sys \<Rightarrow> 'a mt_sys res" where
  "recv_move s = r_access (rc_pc (mt_r s)) s"

text \<open>The receiver's calls. A pending future is polled again or dropped before anything else.\<close>

datatype r_op = TryRecv | RecvMany nat | PollRecv bool waker | DropRecv | DropReceiver

definition r_call :: "r_op \<Rightarrow> 'a mt_sys \<Rightarrow> 'a mt_sys option" where
  "r_call op s =
     (let r = mt_r s;
          out = (case rc_pc r of ROut \<Rightarrow> True | _ \<Rightarrow> False);
          waiting = (case rc_pc r of RWaiting \<Rightarrow> True | _ \<Rightarrow> False) in
      case op of
        TryRecv \<Rightarrow> if out then Some (r_set (r\<lparr>rc_pc := RNext MTry\<rparr>) s) else None
      | RecvMany n \<Rightarrow> if out \<and> 0 < n then Some (r_set (r\<lparr>rc_pc := RNext (MMany (n - 1))\<rparr>) s) else None
      | PollRecv spin w \<Rightarrow> if out \<or> waiting then Some (r_set (r\<lparr>rc_pc := RNext (MPoll spin w)\<rparr>) s) else None
      | DropRecv \<Rightarrow> if out \<or> waiting then Some (r_set (r\<lparr>rc_pc := RDisarm ROut\<rparr>) s) else None
      | DropReceiver \<Rightarrow> if out then Some (r_set (r\<lparr>rc_pc := RClose\<rparr>) s) else None)"

section \<open>Runs\<close>

definition mt_init :: "nat \<Rightarrow> 'a mt_sys \<Rightarrow> bool" where
  "mt_init capacity s \<longleftrightarrow>
     (mt_ch s, rc_stg (mt_r s)) = bounded capacity \<and> rc_pc (mt_r s) = ROut \<and> \<not> rc_ended (mt_r s) \<and>
     mt_s s 0 = new_sender \<and> (\<forall>i. i \<noteq> 0 \<longrightarrow> sn_pc (mt_s s i) = SGone \<and> sn_fut (mt_s s i) = send_done \<and> sn_ans (mt_s s i) = NoAnswer) \<and>
     mt_sent s = [] \<and> mt_got s = []"

inductive mt_step :: "'a mt_sys \<Rightarrow> 'a mt_sys \<Rightarrow> bool" where
  sender_calls: "s_call i op s = Some t \<Longrightarrow> mt_step s t"
| sender_moves: "s_move i s = Inr t \<Longrightarrow> mt_step s t"
| receiver_calls: "r_call op s = Some t \<Longrightarrow> mt_step s t"
| receiver_moves: "recv_move s = Inr t \<Longrightarrow> mt_step s t"

section \<open>The lock\<close>

text \<open>Inside a critical section.\<close>

fun s_in :: "'a spc \<Rightarrow> bool" where
  "s_in (SPush c) = True" | "s_in (SRepoll w v) = True" | "s_in (SParkClosed v) = True" | "s_in (SPark v) = True"
| "s_in SCancel = True" | "s_in (SUnlock p) = True" | "s_in _ = False"

fun r_in :: "recv_pc \<Rightarrow> bool" where
  "r_in (RSteal m) = True" | "r_in (RSelect p) = True" | "r_in RWakeAll = True" | "r_in (RUnlock p) = True"
| "r_in _ = False"

definition s_set_in :: "(nat \<Rightarrow> 'a sender) \<Rightarrow> nat set" where
  "s_set_in f = {i. s_in (sn_pc (f i))}"

definition excl :: "bool \<Rightarrow> bool \<Rightarrow> nat set \<Rightarrow> bool" where
  "excl locked r S \<longleftrightarrow> (if locked then r \<and> S = {} \<or> \<not> r \<and> (\<exists>i. S = {i}) else \<not> r \<and> S = {})"

definition lock_inv :: "'a mt_sys \<Rightarrow> bool" where
  "lock_inv s \<longleftrightarrow> excl (mp_locked (mt_ch s)) (r_in (rc_pc (mt_r s))) (s_set_in (mt_s s))"

text \<open>With a handle.\<close>

fun s_live :: "'a spc \<Rightarrow> bool" where
  "s_live SGone = False" | "s_live (SSignal gone q) \<longleftrightarrow> \<not> gone" | "s_live _ = True"

text \<open>Sections are entered through the lock and left by releasing it.\<close>

fun s_wf :: "'a spc \<Rightarrow> bool" where
  "s_wf (SLock p) \<longleftrightarrow> (case p of SUnlock q \<Rightarrow> False | SPark v \<Rightarrow> False | _ \<Rightarrow> s_in p)"
| "s_wf (SUnlock p) \<longleftrightarrow> \<not> s_in p \<and> s_live p \<and> s_wf p"
| "s_wf (SSignal gone q) \<longleftrightarrow> q \<noteq> Quiet"
| "s_wf _ \<longleftrightarrow> True"

fun fut_ok :: "'a spc \<Rightarrow> 'a send_fut \<Rightarrow> bool" where
  "fut_ok SOut f \<longleftrightarrow> (sf_val f = None \<longrightarrow> sf_parked f = None)"
| "fut_ok (SRepoll w v) f \<longleftrightarrow> sf_val f = None \<and> sf_parked f \<noteq> None"
| "fut_ok SCancel f \<longleftrightarrow> sf_parked f \<noteq> None"
| "fut_ok (SLock p) f \<longleftrightarrow> fut_ok p f"
| "fut_ok (SUnlock p) f \<longleftrightarrow> fut_ok p f"
| "fut_ok _ f \<longleftrightarrow> sf_val f = None \<and> sf_parked f = None"

definition sender_ok :: "bool \<Rightarrow> 'a sender \<Rightarrow> bool" where
  "sender_ok closed x \<longleftrightarrow> s_wf (sn_pc x) \<and> fut_ok (sn_pc x) (sn_fut x) \<and> (\<forall>vs. sn_ans x = Shut vs \<longrightarrow> closed)"

fun r_wf :: "recv_pc \<Rightarrow> bool" where
  "r_wf (RLock p) \<longleftrightarrow> (case p of RUnlock q \<Rightarrow> False | _ \<Rightarrow> r_in p \<and> r_wf p)"
| "r_wf (RUnlock p) \<longleftrightarrow> \<not> r_in p \<and> r_wf p"
| "r_wf (RSelect p) \<longleftrightarrow> \<not> r_in p \<and> r_wf p"
| "r_wf (RDisarm p) \<longleftrightarrow> p = ROut \<or> p = RNext MLast"
| "r_wf (RWake ws p) \<longleftrightarrow> \<not> r_in p \<and> r_wf p"
| "r_wf (RReg q) \<longleftrightarrow> arming q"
| "r_wf (RSpin k w) \<longleftrightarrow> 0 < k"
| "r_wf _ \<longleftrightarrow> True"

lemma s_set_simps [simp]:
  "mt_ch (s_set i x s) = mt_ch s" "mt_s (s_set i x s) = (mt_s s)(i := x)" "mt_r (s_set i x s) = mt_r s"
  "mt_sent (s_set i x s) = mt_sent s" "mt_got (s_set i x s) = mt_got s"
  by (simp_all add: s_set_def)

lemma r_set_simps [simp]:
  "mt_ch (r_set r s) = mt_ch s" "mt_s (r_set r s) = mt_s s" "mt_r (r_set r s) = r"
  "mt_sent (r_set r s) = mt_sent s" "mt_got (r_set r s) = mt_got s"
  by (simp_all add: r_set_def)

lemma s_told_simps [simp]:
  "mt_ch (s_told w s) = mt_ch s" "mt_r (s_told w s) = mt_r s" "mt_sent (s_told w s) = mt_sent s" "mt_got (s_told w s) = mt_got s"
  "sn_pc (mt_s (s_told w s) i) = sn_pc (mt_s s i)" "sn_fut (mt_s (s_told w s) i) = sn_fut (mt_s s i)"
  "sn_cur (mt_s (s_told w s) i) = sn_cur (mt_s s i)" "sn_ans (mt_s (s_told w s) i) = sn_ans (mt_s s i)"
  "sn_woken (mt_s (s_told w s) i) \<longleftrightarrow> sn_woken (mt_s s i) \<or> sn_cur (mt_s s i) = w"
  by (simp_all add: s_told_def)

lemma r_told_simps [simp]:
  "rc_pc (r_told ws r) = rc_pc r" "rc_stg (r_told ws r) = rc_stg r" "rc_cur (r_told ws r) = rc_cur r"
  "rc_ended (r_told ws r) = rc_ended r" "rc_woken (r_told ws r) \<longleftrightarrow> rc_woken r \<or> rc_cur r \<in> set ws"
  by (simp_all add: r_told_def)

lemma s_set_in_upd [simp]:
  "s_set_in (f(i := x)) = (if s_in (sn_pc x) then insert i (s_set_in f) else s_set_in f - {i})"
  by (auto simp: s_set_in_def)

lemma s_set_in_told [simp]: "s_set_in (mt_s (s_told w s)) = s_set_in (mt_s s)"
  by (simp add: s_set_in_def)

lemma s_set_in_mem: "i \<in> s_set_in f \<longleftrightarrow> s_in (sn_pc (f i))"
  by (simp add: s_set_in_def)

lemma s_set_in_same:
  "\<not> s_in (sn_pc (f i)) \<Longrightarrow> s_set_in f - {i} = s_set_in f" "s_in (sn_pc (f i)) \<Longrightarrow> insert i (s_set_in f) = s_set_in f"
  by (auto simp: s_set_in_def)

lemma mp_unlock_simps [simp]:
  "mp_locked (mp_unlock t) = False" "mp_nonempty (mp_unlock t) = mp_nonempty t" "mp_cap (mp_unlock t) = mp_cap t"
  "mp_queue (mp_unlock t) = mp_queue t" "mp_wq (mp_unlock t) = mp_wq t" "mp_next_id (mp_unlock t) = mp_next_id t"
  "mp_selected (mp_unlock t) = mp_selected t" "mp_recv (mp_unlock t) = mp_recv t" "mp_senders (mp_unlock t) = mp_senders t"
  "mp_closed (mp_unlock t) = mp_closed t" "mp_waiters_len (mp_unlock t) = mp_waiters_len t"
  by (simp_all add: mp_unlock_def)

lemma section_locked [simp]:
  "mp_locked (mp_enqueue v t) = mp_locked t" "mp_locked (mp_forget i t) = mp_locked t"
  "mp_locked (snd (mp_awaken t)) = mp_locked t" "mp_locked (sender_clone t) = mp_locked t"
  by (simp_all add: mp_enqueue_def mp_forget_def mp_awaken_def sender_clone_def Let_def split: list.splits)

lemma excl_sender: "excl l r S \<Longrightarrow> i \<in> S \<Longrightarrow> l \<and> \<not> r \<and> S = {i}"
  by (auto simp: excl_def split: if_splits)

lemma excl_receiver: "excl l True S \<Longrightarrow> l \<and> S = {}"
  by (auto simp: excl_def split: if_splits)

lemma excl_simps [simp]: "excl True False {i}" "excl True True {}" "excl False False {}" "excl False r S \<longleftrightarrow> \<not> r \<and> S = {}"
  by (auto simp: excl_def)

lemmas s_access_defs = s_push_def s_pushed_def s_park_def s_cancel_def s_repoll_def s_shut_def Let_def split_def
lemmas r_access_defs = r_take_def r_steal_def r_select_def Let_def split_def

lemma s_shut_simps [simp]:
  "sn_pc (s_shut c x) = sn_pc x" "sn_fut (s_shut c x) = sn_fut x" "sn_cur (s_shut c x) = sn_cur x"
  "sn_woken (s_shut c x) = sn_woken x"
  by (simp_all add: s_shut_def split: sending.splits)

lemma r_live_simps [simp]:
  "\<not> r_in (rc_pc (r_live m r))" "rc_stg (r_live m r) = rc_stg r" "rc_ended (r_live m r) = rc_ended r"
  "r_wf (rc_pc (r_live m r))"
  by (cases m; simp add: r_register_def RECV_SPIN_def)+

lemma r_cont_simps [simp]: "\<not> r_in (r_some m)" "r_wf (r_some m)" "\<not> r_in (r_none m)" "r_wf (r_none m)"
proof -
  show "\<not> r_in (r_some m)" "r_wf (r_some m)" by (cases m rule: r_some.cases; simp)+
qed (cases m; simp)+

lemma lock_s_move:
  assumes "lock_inv s" "s_wf (sn_pc (mt_s s i))" "s_move i s = Inr t"
  shows "lock_inv t"
proof -
  have E: "excl (mp_locked (mt_ch s)) (r_in (rc_pc (mt_r s))) (s_set_in (mt_s s))"
    using assms(1) by (simp add: lock_inv_def)
  have held: "mp_locked (mt_ch s) \<and> \<not> r_in (rc_pc (mt_r s)) \<and> s_set_in (mt_s s) = {i}" if "s_in (sn_pc (mt_s s i))"
    using excl_sender [OF E] that by (simp add: s_set_in_mem)
  show ?thesis
  proof (cases "s_in (sn_pc (mt_s s i))")
    case True
    with held have h: "mp_locked (mt_ch s)" "\<not> r_in (rc_pc (mt_r s))" "s_set_in (mt_s s) = {i}" by simp_all
    show ?thesis
      using True assms(2,3) h
      by (cases "sn_pc (mt_s s i)")
        (auto simp: s_move_def lock_inv_def s_access_defs rbind_Inr_iff split: sending.splits option.splits if_splits list.splits)
  next
    case False
    then show ?thesis
      using assms(2,3) E
      by (cases "sn_pc (mt_s s i)")
        (auto simp: s_move_def lock_inv_def s_set_in_same split_def Let_def split: spc.splits if_splits)
  qed
qed

lemma lock_s_call:
  assumes "lock_inv s" "s_call i op s = Some t"
  shows "lock_inv t"
  using assms
  by (cases op) (auto simp: s_call_def lock_inv_def new_sender_def s_set_in_same Let_def split: spc.splits if_splits option.splits)

lemma lock_r_move:
  assumes "lock_inv s" "r_wf (rc_pc (mt_r s))" "recv_move s = Inr t"
  shows "lock_inv t"
proof -
  have E: "excl (mp_locked (mt_ch s)) (r_in (rc_pc (mt_r s))) (s_set_in (mt_s s))"
    using assms(1) by (simp add: lock_inv_def)
  show ?thesis
  proof (cases "r_in (rc_pc (mt_r s))")
    case True
    then have h: "mp_locked (mt_ch s)" "s_set_in (mt_s s) = {}" using excl_receiver E by auto
    show ?thesis
      using True assms(2,3) h
      by (cases "rc_pc (mt_r s)") (auto simp: recv_move_def lock_inv_def r_access_defs)
  next
    case False
    then show ?thesis
      using assms(2,3) E
      by (cases "rc_pc (mt_r s)")
        (auto simp: recv_move_def lock_inv_def r_access_defs rbind_Inr_iff split: recv_pc.splits if_splits list.splits)
  qed
qed

lemma lock_r_call: "lock_inv s \<Longrightarrow> r_call op s = Some t \<Longrightarrow> lock_inv t"
  by (cases op) (auto simp: r_call_def lock_inv_def Let_def split: recv_pc.splits if_splits)

section \<open>The data\<close>

definition chan_ok :: "'a mpsc \<Rightarrow> bool" where
  "chan_ok t \<longleftrightarrow> 0 < mp_cap t \<and> length (mp_queue t) \<le> mp_cap t \<and> mp_nonempty t = (if mp_queue t = [] then 0 else 1) \<and>
     mp_waiters_len t = length (mp_wq t) \<and> wait_ids_ok (mp_wq t) (mp_selected t) (mp_next_id t)"

definition data_inv :: "'a mt_sys \<Rightarrow> bool" where
  "data_inv s \<longleftrightarrow> chan_ok (mt_ch s) \<and> mt_sent s = mt_got s @ rc_stg (mt_r s) @ mp_queue (mt_ch s) \<and>
     length (rc_stg (mt_r s)) \<le> mp_cap (mt_ch s)"

definition live_set :: "(nat \<Rightarrow> 'a sender) \<Rightarrow> nat set" where
  "live_set f = {i. s_live (sn_pc (f i))}"

definition count_inv :: "'a mt_sys \<Rightarrow> bool" where
  "count_inv s \<longleftrightarrow> finite (live_set (mt_s s)) \<and> mp_senders (mt_ch s) = card (live_set (mt_s s)) \<and>
     mp_senders (mt_ch s) \<le> 2 ^ 63"

text \<open>
  The staging buffer is empty, or is not; the last sender is known to be gone; the receiver is being dropped; and the
  wait list has been emptied for that.
\<close>

fun r_dry :: "recv_pc \<Rightarrow> bool" where
  "r_dry (RNext m) = (case m of MSpin k w \<Rightarrow> True | MPark \<Rightarrow> True | MLast \<Rightarrow> True | _ \<Rightarrow> False)"
| "r_dry (RSteal m) = True" | "r_dry (RSenders m) = True" | "r_dry (RSpin k w) = True" | "r_dry (RReg q) = True"
| "r_dry RSleep = True" | "r_dry RWaiting = True" | "r_dry (RLock p) = r_dry p" | "r_dry (RUnlock p) = r_dry p"
| "r_dry (RDisarm p) = r_dry p" | "r_dry (RSelect p) = r_dry p" | "r_dry (RWake ws p) = r_dry p" | "r_dry _ = False"

fun r_stocked :: "recv_pc \<Rightarrow> bool" where
  "r_stocked (RPop m) = True" | "r_stocked (RLock p) = r_stocked p" | "r_stocked (RUnlock p) = r_stocked p"
| "r_stocked (RSelect p) = r_stocked p" | "r_stocked (RWake ws p) = r_stocked p" | "r_stocked _ = False"

fun r_last :: "recv_pc \<Rightarrow> bool" where
  "r_last (RNext m) \<longleftrightarrow> m = MLast" | "r_last (RSteal m) \<longleftrightarrow> m = MLast" | "r_last (RLock p) = r_last p"
| "r_last (RUnlock p) = r_last p" | "r_last (RDisarm p) = r_last p" | "r_last (RSelect p) = r_last p"
| "r_last (RWake ws p) = r_last p" | "r_last _ = False"

fun r_closing :: "recv_pc \<Rightarrow> bool" where
  "r_closing RWakeAll = True" | "r_closing RGone = True" | "r_closing (RLock p) = r_closing p"
| "r_closing (RUnlock p) = r_closing p" | "r_closing (RWake ws p) = r_closing p"
| "r_closing (RSelect p) = r_closing p" | "r_closing (RDisarm p) = r_closing p" | "r_closing _ = False"

fun r_shut :: "recv_pc \<Rightarrow> bool" where
  "r_shut RGone = True" | "r_shut (RLock p) = r_shut p" | "r_shut (RUnlock p) = r_shut p" | "r_shut (RWake ws p) = r_shut p"
| "r_shut (RSelect p) = r_shut p" | "r_shut (RDisarm p) = r_shut p" | "r_shut _ = False"

definition recv_inv :: "'a mt_sys \<Rightarrow> bool" where
  "recv_inv s \<longleftrightarrow> r_wf (rc_pc (mt_r s)) \<and> (r_dry (rc_pc (mt_r s)) \<longrightarrow> rc_stg (mt_r s) = []) \<and>
     (r_stocked (rc_pc (mt_r s)) \<longrightarrow> rc_stg (mt_r s) \<noteq> []) \<and>
     (r_last (rc_pc (mt_r s)) \<longrightarrow> mp_senders (mt_ch s) = 0) \<and>
     (rc_ended (mt_r s) \<longrightarrow> mp_senders (mt_ch s) = 0 \<and> mp_queue (mt_ch s) = [] \<and> rc_stg (mt_r s) = []) \<and>
     (mp_closed (mt_ch s) \<longleftrightarrow> r_closing (rc_pc (mt_r s)))"

definition shut_inv :: "'a mt_sys \<Rightarrow> bool" where
  "shut_inv s \<longleftrightarrow> r_shut (rc_pc (mt_r s)) \<longrightarrow> mp_wq (mt_ch s) = [] \<and> (\<forall>i v. sn_pc (mt_s s i) \<noteq> SPark v)"

definition senders_inv :: "'a mt_sys \<Rightarrow> bool" where
  "senders_inv s \<longleftrightarrow> (\<forall>i. sender_ok (mp_closed (mt_ch s)) (mt_s s i))"

lemma live_set_upd [simp]:
  "live_set (f(i := x)) = (if s_live (sn_pc x) then insert i (live_set f) else live_set f - {i})"
  by (auto simp: live_set_def)

lemma live_set_told [simp]: "live_set (mt_s (s_told w s)) = live_set (mt_s s)"
  by (simp add: live_set_def)

lemma live_set_same: "s_live (sn_pc (f i)) \<Longrightarrow> insert i (live_set f) = live_set f"
  "\<not> s_live (sn_pc (f i)) \<Longrightarrow> live_set f - {i} = live_set f" "i \<in> live_set f \<longleftrightarrow> s_live (sn_pc (f i))"
  by (auto simp: live_set_def)

lemma no_senders: "count_inv s \<Longrightarrow> mp_senders (mt_ch s) = 0 \<Longrightarrow> \<not> s_live (sn_pc (mt_s s i))"
  by (auto simp: count_inv_def live_set_def)

lemma section_senders [simp]: "mp_senders (mp_park w t) = mp_senders t"
  by simp

lemma s_in_live: "s_in p \<Longrightarrow> s_live p"
  by (cases p) auto

lemma count_s_move:
  assumes "count_inv s" "s_wf (sn_pc (mt_s s i))" "s_move i s = Inr t"
  shows "count_inv t"
  using assms
  by (cases "sn_pc (mt_s s i)")
    (auto simp: s_move_def count_inv_def s_access_defs rbind_Inr_iff live_set_same s_in_live
      split: sending.splits option.splits if_splits list.splits spc.splits)

lemma count_r_move:
  assumes "count_inv s" "recv_move s = Inr t"
  shows "count_inv t"
  using assms
  by (cases "rc_pc (mt_r s)")
    (auto simp: recv_move_def count_inv_def r_access_defs rbind_Inr_iff split: if_splits list.splits)

lemma count_s_call:
  assumes inv: "count_inv s" and call: "s_call i op s = Some t"
  shows "count_inv t"
proof (cases op)
  case (Clone j)
  then show ?thesis
    using assms
    by (auto simp: s_call_def count_inv_def new_sender_def sender_clone_def wrapping_add_small usize_bound_def live_set_same Let_def
        card_insert_if split: spc.splits if_splits)
next
  case DropSender
  then have pc: "sn_pc (mt_s s i) = SOut" using call by (auto simp: s_call_def Let_def split: spc.splits)
  then have "i \<in> live_set (mt_s s)" by (simp add: live_set_same)
  then have "0 < card (live_set (mt_s s))" "card (live_set (mt_s s) - {i}) = card (live_set (mt_s s)) - 1"
    using inv by (auto simp: count_inv_def card_gt_0_iff)
  moreover have "mp_senders (mt_ch s) < usize_bound" using inv by (simp add: count_inv_def usize_bound_def)
  ultimately show ?thesis
    using DropSender call inv pc
    by (auto simp: s_call_def count_inv_def wrapping_dec [simplified] Let_def split: if_splits)
qed (use assms in \<open>auto simp: s_call_def count_inv_def live_set_same Let_def split: spc.splits if_splits option.splits\<close>)

lemma count_r_call: "count_inv s \<Longrightarrow> r_call op s = Some t \<Longrightarrow> count_inv t"
  by (cases op) (auto simp: r_call_def count_inv_def Let_def split: recv_pc.splits if_splits)

text \<open>What a step of one thread leaves alone.\<close>

lemma s_move_others:
  assumes "s_move i s = Inr t" "j \<noteq> i"
  shows "sn_pc (mt_s t j) = sn_pc (mt_s s j)" "sn_fut (mt_s t j) = sn_fut (mt_s s j)" "sn_ans (mt_s t j) = sn_ans (mt_s s j)"
    "sn_cur (mt_s t j) = sn_cur (mt_s s j)"
  using assms
  by (cases "sn_pc (mt_s s i)";
      auto simp: s_move_def s_access_defs rbind_Inr_iff split: sending.splits option.splits if_splits list.splits)+

lemma s_move_shared:
  assumes "s_move i s = Inr t"
  shows "mp_closed (mt_ch t) = mp_closed (mt_ch s)" "mp_senders (mt_ch t) = mp_senders (mt_ch s)" "mp_cap (mt_ch t) = mp_cap (mt_ch s)"
    "rc_pc (mt_r t) = rc_pc (mt_r s)" "rc_stg (mt_r t) = rc_stg (mt_r s)" "rc_ended (mt_r t) = rc_ended (mt_r s)"
    "rc_cur (mt_r t) = rc_cur (mt_r s)" "mt_got t = mt_got s"
  using assms
  by (cases "sn_pc (mt_s s i)";
      auto simp: s_move_def s_access_defs rbind_Inr_iff split: sending.splits option.splits if_splits list.splits)+

lemma s_move_self:
  assumes "sender_ok (mp_closed (mt_ch s)) (mt_s s i)" "s_move i s = Inr t"
  shows "sender_ok (mp_closed (mt_ch s)) (mt_s t i)"
  using assms
  by (cases "sn_pc (mt_s s i)")
    (auto simp: s_move_def sender_ok_def s_access_defs send_done_def rbind_Inr_iff
      split: sending.splits option.splits if_splits list.splits spc.splits)

lemma senders_s_move:
  assumes inv: "senders_inv s" and move: "s_move i s = Inr t"
  shows "senders_inv t"
  unfolding senders_inv_def
proof
  fix j
  show "sender_ok (mp_closed (mt_ch t)) (mt_s t j)"
    using inv s_move_self [OF _ move] s_move_others [OF move, of j] s_move_shared(1) [OF move]
    by (cases "j = i") (auto simp: senders_inv_def sender_ok_def)
qed

lemma recv_move_senders:
  assumes "recv_move s = Inr t"
  shows "sn_pc (mt_s t j) = sn_pc (mt_s s j)" "sn_fut (mt_s t j) = sn_fut (mt_s s j)" "sn_ans (mt_s t j) = sn_ans (mt_s s j)"
    "sn_cur (mt_s t j) = sn_cur (mt_s s j)" "mp_closed (mt_ch s) \<Longrightarrow> mp_closed (mt_ch t)" "mt_sent t = mt_sent s"
    "mp_senders (mt_ch t) = mp_senders (mt_ch s)" "mp_cap (mt_ch t) = mp_cap (mt_ch s)"
  using assms
  by (cases "rc_pc (mt_r s)";
      auto simp: recv_move_def r_access_defs rbind_Inr_iff split: if_splits list.splits)+

lemma senders_r_move: "senders_inv s \<Longrightarrow> recv_move s = Inr t \<Longrightarrow> senders_inv t"
  using recv_move_senders [of s t] by (simp add: senders_inv_def sender_ok_def)

lemma s_call_out: "s_call i op s = Some t \<Longrightarrow> sn_pc (mt_s s i) = SOut"
  by (simp add: s_call_def Let_def split: spc.splits)

lemma senders_s_call:
  assumes inv: "senders_inv s" and call: "s_call i op s = Some t"
  shows "senders_inv t"
proof -
  have ok: "sender_ok (mp_closed (mt_ch s)) (mt_s s j)" for j using inv by (simp add: senders_inv_def)
  have pc: "sn_pc (mt_s s i) = SOut" by (rule s_call_out [OF call])
  have cl: "mp_closed (mt_ch t) = mp_closed (mt_ch s)"
    using call by (cases op) (auto simp: s_call_def sender_clone_def Let_def split: spc.splits if_splits option.splits)
  have "sender_ok (mp_closed (mt_ch s)) (mt_s t j)" for j
    using ok [of j] ok [of i] call pc
    by (cases op)
      (auto simp: s_call_def sender_ok_def new_sender_def send_done_def mp_send_def sender_clone_def Let_def
        split: spc.splits if_splits option.splits)
  then show ?thesis by (simp add: senders_inv_def cl)
qed

lemma senders_r_call: "senders_inv s \<Longrightarrow> r_call op s = Some t \<Longrightarrow> senders_inv t"
  by (cases op) (auto simp: r_call_def senders_inv_def Let_def split: recv_pc.splits if_splits)

text \<open>The sections keep the channel well-formed.\<close>

lemma chan_ok_frame [simp]:
  "chan_ok (t\<lparr>mp_locked := b\<rparr>) = chan_ok t" "chan_ok (t\<lparr>mp_recv := sl\<rparr>) = chan_ok t"
  "chan_ok (t\<lparr>mp_senders := k\<rparr>) = chan_ok t" "chan_ok (t\<lparr>mp_closed := b\<rparr>) = chan_ok t"
  "chan_ok (mp_unlock t) = chan_ok t" "chan_ok (sender_clone t) = chan_ok t"
  by (simp_all add: chan_ok_def sender_clone_def)

lemma chan_ok_enqueue: "chan_ok t \<Longrightarrow> length (mp_queue t) < mp_cap t \<Longrightarrow> chan_ok (mp_enqueue v t)"
  by (auto simp: chan_ok_def mp_enqueue_def Let_def)

lemma chan_ok_forget: "chan_ok t \<Longrightarrow> chan_ok (mp_forget i t)"
  by (simp add: chan_ok_def mp_forget_def wait_ids_ok_remove)

lemma chan_ok_awaken: "chan_ok t \<Longrightarrow> chan_ok (snd (mp_awaken t))"
  by (auto simp: chan_ok_def mp_awaken_def dest: wait_ids_ok_pop split: list.splits)

lemma park_is_mp_park:
  assumes "chan_ok t"
  shows "t\<lparr>mp_next_id := Suc (mp_next_id t), mp_wq := bt_insert (mp_next_id t) w (mp_wq t),
    mp_waiters_len := length (bt_insert (mp_next_id t) w (mp_wq t))\<rparr> = mp_park w t"
proof -
  have "bt_insert (mp_next_id t) w (mp_wq t) = mp_wq t @ [(mp_next_id t, w)]"
    using assms by (intro bt_insert_append) (auto simp: chan_ok_def wait_ids_ok_def)
  then show ?thesis by (simp add: mp_park_def)
qed

lemma chan_ok_park: "chan_ok t \<Longrightarrow> chan_ok (mp_park w t)"
  by (simp add: chan_ok_def mp_park_def wait_ids_ok_append)

lemma data_s_move:
  assumes inv: "data_inv s" and move: "s_move i s = Inr t"
  shows "data_inv t"
proof (cases "sn_pc (mt_s s i)")
  case (SPush c)
  then show ?thesis
    using assms
    by (cases c) (auto simp: s_move_def data_inv_def s_access_defs rbind_Inr_iff usize_sub_def chan_ok_def mp_enqueue_def min_def
      split: if_splits)
next
  case (SPark v)
  then show ?thesis
    using assms park_is_mp_park [of "mt_ch s" "sn_cur (mt_s s i)"]
    by (auto simp: s_move_def data_inv_def s_access_defs checked_add_Some_iff chan_ok_park
      intro!: chan_ok_enqueue split: if_splits option.splits)
qed (use assms in \<open>auto simp: s_move_def data_inv_def s_access_defs chan_ok_forget chan_ok_awaken
      split: if_splits option.splits\<close>)

lemma data_r_move:
  assumes inv: "data_inv s" and dry: "r_dry (rc_pc (mt_r s)) \<Longrightarrow> rc_stg (mt_r s) = []" and move: "recv_move s = Inr t"
  shows "data_inv t"
proof (cases "rc_pc (mt_r s)")
  case (RSteal m)
  then show ?thesis using assms by (auto simp: recv_move_def data_inv_def r_access_defs chan_ok_def split: if_splits)
next
  case RWakeAll
  then show ?thesis using assms by (auto simp: recv_move_def data_inv_def chan_ok_def wait_ids_ok_def)
qed (use assms in \<open>auto simp: recv_move_def data_inv_def r_access_defs chan_ok_awaken rbind_Inr_iff split: if_splits list.splits\<close>)

lemma data_s_call: "data_inv s \<Longrightarrow> s_call i op s = Some t \<Longrightarrow> data_inv t"
  by (cases op) (auto simp: s_call_def data_inv_def Let_def sender_clone_def split: spc.splits if_splits option.splits)

lemma data_r_call: "data_inv s \<Longrightarrow> r_call op s = Some t \<Longrightarrow> data_inv t"
  by (cases op) (auto simp: r_call_def data_inv_def Let_def split: recv_pc.splits if_splits)

text \<open>The receiver's part.\<close>

lemma r_some_simps [simp]: "\<not> r_dry (r_some m)" "\<not> r_stocked (r_some m)" "\<not> r_last (r_some m)" "\<not> r_closing (r_some m)" "\<not> r_shut (r_some m)"
  by (cases m rule: r_some.cases; simp)+

lemma r_none_simps [simp]: "\<not> r_stocked (r_none m)" "\<not> r_last (r_none m)" "\<not> r_closing (r_none m)" "\<not> r_shut (r_none m)"
  by (cases m; simp)+

lemma r_live_modes [simp]: "\<not> r_stocked (rc_pc (r_live m r))" "\<not> r_last (rc_pc (r_live m r))" "\<not> r_closing (rc_pc (r_live m r))" "\<not> r_shut (rc_pc (r_live m r))"
  by (cases m; simp add: r_register_def)+

lemma r_wf_lock: "r_wf (RLock p) \<Longrightarrow> r_wf p"
  by (cases p) auto

lemma s_move_queue:
  assumes "s_move i s = Inr t" "\<not> s_live (sn_pc (mt_s s i))"
  shows "mp_queue (mt_ch t) = mp_queue (mt_ch s)"
  using assms by (cases "sn_pc (mt_s s i)") (auto simp: s_move_def split_def Let_def)

lemma recv_s_move:
  assumes inv: "recv_inv s" and count: "count_inv s" and move: "s_move i s = Inr t"
  shows "recv_inv t"
  using inv s_move_shared [OF move] s_move_queue [OF move] no_senders [OF count, of i] by (auto simp: recv_inv_def)

lemma recv_r_move:
  assumes inv: "recv_inv s" and move: "recv_move s = Inr t"
  shows "recv_inv t"
proof -
  have wf: "rc_pc (mt_r s) = RLock p \<Longrightarrow> r_wf p" for p using inv r_wf_lock by (auto simp: recv_inv_def)
  have "\<forall>t. recv_move s = Inr t \<longrightarrow> recv_inv t"
  proof (cases "rc_pc (mt_r s)")
    case (RReg q)
    show ?thesis
    proof (cases "reg_access (rc_cur (mt_r s)) q (mp_recv (mt_ch s))")
      case (Inr r)
      obtain ws q' slot where r: "r = (ws, q', slot)" by (cases r)
      then have "arming q' \<or> q' = Recheck" using reg_access_arming Inr inv RReg by (auto simp: recv_inv_def)
      then show ?thesis using RReg inv Inr r by (cases "q' = Recheck") (simp_all add: recv_move_def recv_inv_def)
    qed (simp add: recv_move_def RReg)
  qed (use inv wf in \<open>simp_all add: recv_move_def recv_inv_def r_access_defs split: list.splits\<close>, auto)
  with move show ?thesis by simp
qed

lemma recv_s_call:
  assumes inv: "recv_inv s" and count: "count_inv s" and call: "s_call i op s = Some t"
  shows "recv_inv t"
proof -
  have "mp_senders (mt_ch s) \<noteq> 0" using no_senders [OF count, of i] s_call_out [OF call] by auto
  then have no: "\<not> r_last (rc_pc (mt_r s))" "\<not> rc_ended (mt_r s)" using inv by (auto simp: recv_inv_def)
  have "mt_r t = mt_r s \<and> mp_closed (mt_ch t) = mp_closed (mt_ch s)"
    using call by (cases op) (auto simp: s_call_def sender_clone_def Let_def split: spc.splits if_splits option.splits)
  then show ?thesis using inv no by (simp add: recv_inv_def)
qed

lemma recv_r_call: "recv_inv s \<Longrightarrow> r_call op s = Some t \<Longrightarrow> recv_inv t"
  by (cases op) (auto simp: r_call_def recv_inv_def Let_def split: recv_pc.splits if_splits)

lemma r_shut_closing: "r_shut p \<Longrightarrow> r_closing p"
  by (induction p) auto

lemma shut_s_move:
  assumes inv: "shut_inv s" and recv: "recv_inv s" and wf: "s_wf (sn_pc (mt_s s i))" and move: "s_move i s = Inr t"
  shows "shut_inv t"
proof (cases "r_shut (rc_pc (mt_r s))")
  case True
  then have wq: "mp_wq (mt_ch s) = []" and no: "\<And>j v. sn_pc (mt_s s j) \<noteq> SPark v" and cl: "mp_closed (mt_ch s)"
    using inv recv r_shut_closing by (auto simp: shut_inv_def recv_inv_def)
  have "mp_wq (mt_ch t) = [] \<and> (\<forall>v. sn_pc (mt_s t i) \<noteq> SPark v)"
    using move wq no cl wf
    by (cases "sn_pc (mt_s s i)")
      (auto simp: s_move_def s_access_defs mp_awaken_def rbind_Inr_iff split: sending.splits option.splits if_splits list.splits)
  then show ?thesis using no s_move_others(1) [OF move] by (metis shut_inv_def)
next
  case False
  then show ?thesis using s_move_shared(4) [OF move] by (simp add: shut_inv_def)
qed

lemma shut_r_move:
  assumes inv: "shut_inv s" and lock: "lock_inv s" and move: "recv_move s = Inr t"
  shows "shut_inv t"
proof (cases "rc_pc (mt_r s)")
  case RWakeAll
  then have "s_set_in (mt_s s) = {}" using lock excl_receiver by (auto simp: lock_inv_def)
  then have "\<not> s_in (sn_pc (mt_s s i))" for i by (auto simp: s_set_in_def)
  then have "sn_pc (mt_s s i) \<noteq> SPark v" for i v by (metis s_in.simps(4))
  then show ?thesis using RWakeAll move by (auto simp: recv_move_def shut_inv_def)
qed (use assms in \<open>auto simp: recv_move_def shut_inv_def r_access_defs mp_awaken_def rbind_Inr_iff split: if_splits list.splits\<close>)

lemma shut_s_call: "shut_inv s \<Longrightarrow> s_call i op s = Some t \<Longrightarrow> shut_inv t"
  by (cases op) (auto simp: s_call_def shut_inv_def sender_clone_def new_sender_def Let_def split: spc.splits if_splits option.splits)

lemma shut_r_call: "shut_inv s \<Longrightarrow> r_call op s = Some t \<Longrightarrow> shut_inv t"
  by (cases op) (auto simp: r_call_def shut_inv_def Let_def split: recv_pc.splits if_splits)

section \<open>The wait list\<close>

text \<open>
  \<open>P\<close>: the id under which a thread's future is parked; \<open>C\<close>: its waker; \<open>R\<close>: that waker has been called, or a
  thread is about to call it. A parked future is in the list with its waker, or has been selected or let
  go by the closing receiver and is roused.
\<close>

definition waits ::
  "(nat \<times> waker) list \<Rightarrow> nat set \<Rightarrow> nat \<Rightarrow> bool \<Rightarrow> (nat \<Rightarrow> nat option) \<Rightarrow> (nat \<Rightarrow> waker) \<Rightarrow> (nat \<Rightarrow> bool) \<Rightarrow> bool" where
  "waits q sel n closed P C R \<longleftrightarrow>
     (\<forall>i k. P i = Some k \<longrightarrow> k < n \<and> ((k, C i) \<in> set q \<or> (k \<in> sel \<or> closed) \<and> R i)) \<and>
     (\<forall>k \<in> fst ` set q \<union> sel. \<exists>i. P i = Some k) \<and>
     (\<forall>i j k. P i = Some k \<longrightarrow> P j = Some k \<longrightarrow> i = j)"

lemma waitsI:
  assumes "\<And>i k. P i = Some k \<Longrightarrow> k < n \<and> ((k, C i) \<in> set q \<or> (k \<in> sel \<or> closed) \<and> R i)"
    and "\<And>k. k \<in> fst ` set q \<or> k \<in> sel \<Longrightarrow> \<exists>i. P i = Some k"
    and "\<And>i j k. P i = Some k \<Longrightarrow> P j = Some k \<Longrightarrow> i = j"
  shows "waits q sel n closed P C R"
  using assms unfolding waits_def by blast

lemma waitsD:
  assumes "waits q sel n closed P C R"
  shows "P i = Some k \<Longrightarrow> k < n" "P i = Some k \<Longrightarrow> (k, C i) \<in> set q \<or> (k \<in> sel \<or> closed) \<and> R i"
    "k \<in> fst ` set q \<or> k \<in> sel \<Longrightarrow> \<exists>i. P i = Some k" "P i = Some k \<Longrightarrow> P j = Some k \<Longrightarrow> i = j"
  using assms unfolding waits_def by blast+

lemma waits_mono:
  assumes "waits q sel n closed P C R" "closed \<Longrightarrow> closed'"
    and "\<And>i. P i \<noteq> None \<Longrightarrow> C' i = C i \<and> (R i \<longrightarrow> R' i)"
  shows "waits q sel n closed' P C' R'"
proof (rule waitsI)
  note D = waitsD [OF assms(1)]
  show "k < n \<and> ((k, C' i) \<in> set q \<or> (k \<in> sel \<or> closed') \<and> R' i)" if "P i = Some k" for i k
    using D(1,2) [OF that] assms(2) assms(3) [of i] that by auto
  show "\<exists>i. P i = Some k" if "k \<in> fst ` set q \<or> k \<in> sel" for k by (rule D(3) [OF that])
qed (rule waitsD(4) [OF assms(1)])

lemma waits_leave:
  assumes w: "waits q sel n closed P C R" and i: "P i = Some k"
  shows "waits (bt_remove k q) (sel - {k}) n closed (P(i := None)) C R"
proof (rule waitsI)
  note D = waitsD [OF w]
  show "k' < n \<and> ((k', C j) \<in> set (bt_remove k q) \<or> (k' \<in> sel - {k} \<or> closed) \<and> R j)"
    if "(P(i := None)) j = Some k'" for j k'
  proof -
    have j: "P j = Some k'" "j \<noteq> i" using that by (auto split: if_splits)
    then have "k' \<noteq> k" using D(4) i by blast
    with D(1,2) [OF j(1)] show ?thesis by (auto simp: set_bt_remove)
  qed
  show "\<exists>j. (P(i := None)) j = Some k'" if "k' \<in> fst ` set (bt_remove k q) \<or> k' \<in> sel - {k}" for k'
  proof -
    have "k' \<in> fst ` set q \<or> k' \<in> sel" "k' \<noteq> k" using that by auto
    then obtain j where "P j = Some k'" "k' \<noteq> k" using D(3) by blast
    then have "(P(i := None)) j = Some k'" using i by auto
    then show ?thesis ..
  qed
  show "j = j'" if "(P(i := None)) j = Some k'" "(P(i := None)) j' = Some k'" for j j' k'
    using that D(4) by (auto split: if_splits)
qed

lemma waits_left:
  assumes "waits q sel n closed P C R" "P i = Some k" "\<And>j. j \<noteq> i \<Longrightarrow> C' j = C j \<and> (R j \<longrightarrow> R' j)"
  shows "waits (bt_remove k q) (sel - {k}) n closed (P(i := None)) C' R'"
  by (rule waits_mono [OF waits_leave [OF assms(1,2)]]) (use assms(3) in \<open>auto split: if_splits\<close>)

lemma waits_pop:
  assumes w: "waits ((k, v) # q) sel n closed P C R" and ok: "wait_ids_ok ((k, v) # q) sel n"
  shows "waits q (insert k sel) n closed P C (\<lambda>i. R i \<or> C i = v)"
proof (rule waitsI)
  note D = waitsD [OF w]
  have "u = v" if "(k, u) \<in> set ((k, v) # q)" for u using ok that by (force simp: wait_ids_ok_def)
  then show "k' < n \<and> ((k', C i) \<in> set q \<or> (k' \<in> insert k sel \<or> closed) \<and> (R i \<or> C i = v))" if "P i = Some k'" for i k'
    using D(1,2) [OF that] by auto
  show "\<exists>i. P i = Some k'" if "k' \<in> fst ` set q \<or> k' \<in> insert k sel" for k' using D(3) [of k'] that by auto
qed (use waitsD(4) [OF w] in blast)

lemma waits_enter:
  assumes w: "waits q sel n closed P C R" and i: "P i = None"
  shows "waits (q @ [(n, C i)]) sel (Suc n) closed (P(i \<mapsto> n)) C R"
proof (rule waitsI)
  note D = waitsD [OF w]
  show "k < Suc n \<and> ((k, C j) \<in> set (q @ [(n, C i)]) \<or> (k \<in> sel \<or> closed) \<and> R j)" if "(P(i \<mapsto> n)) j = Some k" for j k
    using D(1,2) [of j k] that by (auto split: if_splits)
  show "\<exists>j. (P(i \<mapsto> n)) j = Some k" if "k \<in> fst ` set (q @ [(n, C i)]) \<or> k \<in> sel" for k
  proof (cases "k = n")
    case False
    then have "k \<in> fst ` set q \<or> k \<in> sel" using that by auto
    then obtain j where "P j = Some k" using D(3) by blast
    then have "(P(i \<mapsto> n)) j = Some k" using i by auto
    then show ?thesis ..
  qed auto
  show "j = j'" if "(P(i \<mapsto> n)) j = Some k" "(P(i \<mapsto> n)) j' = Some k" for j j' k
    using that D(4) [of j k j'] D(1) [of j k] D(1) [of j' k] by (auto split: if_splits)
qed

lemma waits_close:
  assumes "waits q sel n closed P C R"
  shows "waits [] {} n True P C (\<lambda>i. R i \<or> C i \<in> snd ` set q)"
proof (rule waitsI)
  show "k < n \<and> ((k, C i) \<in> set [] \<or> (k \<in> {} \<or> True) \<and> (R i \<or> C i \<in> snd ` set q))" if "P i = Some k" for i k
    using waitsD(1,2) [OF assms that] by force
qed (use waitsD(4) [OF assms] in auto)

text \<open>A thread about to call a waker of the wait list.\<close>

fun s_wakes :: "'a spc \<Rightarrow> waker set" where
  "s_wakes (SWake w) = {w}" | "s_wakes (SUnlock p) = s_wakes p" | "s_wakes _ = {}"

fun r_wakes :: "recv_pc \<Rightarrow> waker set" where
  "r_wakes (RWake ws p) = set ws \<union> r_wakes p" | "r_wakes (RUnlock p) = r_wakes p" | "r_wakes _ = {}"

definition pending :: "'a mt_sys \<Rightarrow> waker \<Rightarrow> bool" where
  "pending s w \<longleftrightarrow> w \<in> r_wakes (rc_pc (mt_r s)) \<or> (\<exists>j. w \<in> s_wakes (sn_pc (mt_s s j)))"

definition roused :: "'a mt_sys \<Rightarrow> nat \<Rightarrow> bool" where
  "roused s i \<longleftrightarrow> sn_woken (mt_s s i) \<or> pending s (sn_cur (mt_s s i))"

definition parked_as :: "'a mt_sys \<Rightarrow> nat \<Rightarrow> nat option" where
  "parked_as s i = sf_parked (sn_fut (mt_s s i))"

definition wait_inv :: "'a mt_sys \<Rightarrow> bool" where
  "wait_inv s \<longleftrightarrow> waits (mp_wq (mt_ch s)) (mp_selected (mt_ch s)) (mp_next_id (mt_ch s)) (mp_closed (mt_ch s))
     (parked_as s) (\<lambda>i. sn_cur (mt_s s i)) (roused s)"

text \<open>A step that leaves the wait list and the parked futures alone and loses no wake.\<close>

lemma wait_frame:
  assumes inv: "wait_inv s"
    and shared: "mp_wq (mt_ch t) = mp_wq (mt_ch s)" "mp_selected (mt_ch t) = mp_selected (mt_ch s)"
      "mp_next_id (mt_ch t) = mp_next_id (mt_ch s)" "mp_closed (mt_ch s) \<Longrightarrow> mp_closed (mt_ch t)"
    and futs: "\<And>i. parked_as t i = parked_as s i"
    and wakes: "\<And>i. parked_as s i \<noteq> None \<Longrightarrow> sn_cur (mt_s t i) = sn_cur (mt_s s i) \<and> (roused s i \<longrightarrow> roused t i)"
  shows "wait_inv t"
proof -
  have "parked_as t = parked_as s" using futs by (simp add: fun_eq_iff)
  then show ?thesis
    using waits_mono [OF inv [unfolded wait_inv_def], of "mp_closed (mt_ch t)" "\<lambda>i. sn_cur (mt_s t i)" "roused t"] shared wakes
    by (simp add: wait_inv_def)
qed

lemma pending_s_set:
  "pending (s_set i x s) w \<longleftrightarrow> w \<in> s_wakes (sn_pc x) \<or> w \<in> r_wakes (rc_pc (mt_r s)) \<or> (\<exists>j. j \<noteq> i \<and> w \<in> s_wakes (sn_pc (mt_s s j)))"
  by (auto simp: pending_def)

lemma pending_keep:
  "pending s w \<Longrightarrow> r_wakes (rc_pc (mt_r s)) \<subseteq> r_wakes (rc_pc (mt_r t)) \<Longrightarrow>
   (\<And>j. s_wakes (sn_pc (mt_s s j)) \<subseteq> s_wakes (sn_pc (mt_s t j))) \<Longrightarrow> pending t w"
  unfolding pending_def by blast

text \<open>A thread that is not about to call a waker of the wait list, and does not touch the list.\<close>

fun s_plain :: "'a spc \<Rightarrow> bool" where
  "s_plain (SRepoll w v) = False" | "s_plain (SPark v) = False" | "s_plain SCancel = False" | "s_plain (SWake w) = False"
| "s_plain _ = True"

lemma s_plain_shared:
  assumes "s_plain (sn_pc (mt_s s i))" "s_move i s = Inr t"
  shows "mp_wq (mt_ch t) = mp_wq (mt_ch s)" "mp_selected (mt_ch t) = mp_selected (mt_ch s)"
    "mp_next_id (mt_ch t) = mp_next_id (mt_ch s)" "parked_as t j = parked_as s j" "sn_cur (mt_s t j) = sn_cur (mt_s s j)"
    "sn_woken (mt_s t j) = sn_woken (mt_s s j)" "s_wakes (sn_pc (mt_s s j)) \<subseteq> s_wakes (sn_pc (mt_s t j))"
  using assms
  by (cases "sn_pc (mt_s s i)";
      auto simp: s_move_def s_access_defs parked_as_def rbind_Inr_iff split: sending.splits option.splits if_splits list.splits)+

lemma wait_plain:
  assumes inv: "wait_inv s" and plain: "s_plain (sn_pc (mt_s s i))" and move: "s_move i s = Inr t"
  shows "wait_inv t"
proof (rule wait_frame [OF inv])
  note F = s_plain_shared [OF plain move]
  show "sn_cur (mt_s t j) = sn_cur (mt_s s j) \<and> (roused s j \<longrightarrow> roused t j)" for j
    using F(5,6) [of j] pending_keep [of s _ t] F(7) s_move_shared(4) [OF move] by (auto simp: roused_def)
qed (use s_plain_shared [OF plain move] s_move_shared [OF move] in auto)

text \<open>The steps that change the list: a future leaves it, enters it, is popped and its waker is called.\<close>

lemma roused_keep:
  assumes "s_wakes (sn_pc (mt_s s i)) = {}" "mt_r t = mt_r s" "\<And>j. j \<noteq> i \<Longrightarrow> mt_s t j = mt_s s j"
    and "roused s j" "sn_cur (mt_s t j) = sn_cur (mt_s s j)" "sn_woken (mt_s t j) = sn_woken (mt_s s j)"
  shows "roused t j"
proof -
  have "s_wakes (sn_pc (mt_s s j')) \<subseteq> s_wakes (sn_pc (mt_s t j'))" for j' using assms(1,3) by (cases "j' = i") auto
  then show ?thesis using pending_keep [of s _ t] assms(2,4-6) by (auto simp: roused_def)
qed

lemma wait_repoll:
  assumes inv: "wait_inv s" and pc: "sn_pc (mt_s s i) = SRepoll w v" and k: "parked_as s i = Some k"
  shows "wait_inv (s_repoll i w v s)"
proof -
  let ?t = "s_repoll i w v s"
  have t: "mt_ch ?t = mp_forget k (mt_ch s)" "parked_as ?t = (parked_as s)(i := None)"
    "\<And>j. j \<noteq> i \<Longrightarrow> mt_s ?t j = mt_s s j" "s_wakes (sn_pc (mt_s ?t i)) = {}" "mt_r ?t = mt_r s"
    using k by (auto simp: s_repoll_def parked_as_def fun_eq_iff Let_def)
  have roused: "roused ?t j" if "j \<noteq> i" "roused s j" for j
    by (rule roused_keep [where s = s and i = i]) (use that pc t(3,5) in auto)
  show ?thesis
    unfolding wait_inv_def t(1,2) mp_forget_simps
    by (rule waits_left [OF inv [unfolded wait_inv_def] k]) (use t(3) roused in auto)
qed

lemma wait_cancel:
  assumes inv: "wait_inv s" and chan: "chan_ok (mt_ch s)" and pc: "sn_pc (mt_s s i) = SCancel" and k: "parked_as s i = Some k"
  shows "wait_inv (s_cancel i s)"
proof -
  let ?t = "s_cancel i s" and ?u = "mp_forget k (mt_ch s)"
  let ?C = "\<lambda>j. sn_cur (mt_s ?t j)"
  have t: "parked_as ?t = (parked_as s)(i := None)" "\<And>j. j \<noteq> i \<Longrightarrow> mt_s ?t j = mt_s s j" "mt_r ?t = mt_r s"
    "mt_ch ?t = (if k \<in> mp_selected (mt_ch s) then snd (mp_awaken ?u) else ?u)"
    using k by (auto simp: s_cancel_def send_done_def parked_as_def fun_eq_iff Let_def split_def)
  have roused: "roused ?t j" if "j \<noteq> i" "roused s j" for j
    by (rule roused_keep [where s = s and i = i]) (use that pc t(2,3) in auto)
  have left: "waits (mp_wq ?u) (mp_selected ?u) (mp_next_id ?u) (mp_closed ?u) (parked_as ?t) ?C (roused ?t)"
    unfolding t(1) mp_forget_simps
    by (rule waits_left [OF inv [unfolded wait_inv_def] k]) (use t(2) roused in auto)
  show ?thesis
  proof (cases "k \<in> mp_selected (mt_ch s) \<and> mp_wq ?u \<noteq> []")
    case True
    then obtain k' v q where q: "mp_wq ?u = (k', v) # q" by (cases "mp_wq ?u") auto
    have "wait_ids_ok (mp_wq ?u) (mp_selected ?u) (mp_next_id ?u)"
      using chan_ok_forget [OF chan, of k] by (simp add: chan_ok_def)
    moreover have "v \<in> s_wakes (sn_pc (mt_s ?t i))" using True k q by (simp add: s_cancel_def parked_as_def mp_awaken_def Let_def)
    then have "roused ?t j" if "sn_cur (mt_s ?t j) = v" for j using that by (auto simp: roused_def pending_def)
    ultimately show ?thesis
      using waits_mono [OF waits_pop [of k' v q "mp_selected ?u" "mp_next_id ?u" "mp_closed ?u" "parked_as ?t" ?C "roused ?t"],
          of "mp_closed ?u" ?C "roused ?t"] left q True
      by (auto simp: wait_inv_def t(4) mp_awaken_def simp del: mp_forget_simps)
  next
    case False
    then show ?thesis using left by (auto simp: wait_inv_def t(4) mp_awaken_def simp del: mp_forget_simps)
  qed
qed

lemma wait_enter:
  assumes inv: "wait_inv s" and chan: "chan_ok (mt_ch s)" and pc: "sn_pc (mt_s s i) = SPark v"
    and k: "parked_as s i = None" and move: "s_park i v s = Inr t"
  shows "wait_inv t"
proof -
  have keep: "roused t j" if "roused s j" "sn_woken (mt_s t j) = sn_woken (mt_s s j)" "sn_cur (mt_s t j) = sn_cur (mt_s s j)"
      "mt_r t = mt_r s" "\<And>j. j \<noteq> i \<Longrightarrow> mt_s t j = mt_s s j" for j
    by (rule roused_keep [where s = s and i = i]) (use that pc in auto)
  show ?thesis
  proof (cases "length (mp_queue (mt_ch s)) < mp_cap (mt_ch s)")
    case True
    then have t: "t = s_pushed i [v] (mp_enqueue v (mt_ch s)) ((mt_s s i)\<lparr>sn_ans := Sent\<rparr>) s"
      using move by (simp add: s_park_def Let_def)
    show ?thesis by (rule wait_frame [OF inv]) (use keep in \<open>auto simp: t s_pushed_def parked_as_def\<close>)
  next
    case False
    then have t: "t = s_set i ((mt_s s i)\<lparr>sn_fut := \<lparr>sf_val = Some v, sf_parked = Some (mp_next_id (mt_ch s))\<rparr>,
        sn_pc := SUnlock SOut, sn_ans := Waits\<rparr>) (s\<lparr>mt_ch := mp_park (sn_cur (mt_s s i)) (mt_ch s)\<rparr>)"
      using move park_is_mp_park [OF chan] by (auto simp: s_park_def Let_def checked_add_Some_iff split: option.splits)
    have p: "parked_as t = (parked_as s)(i \<mapsto> mp_next_id (mt_ch s))" by (auto simp: t parked_as_def fun_eq_iff)
    have "sn_cur (mt_s t j) = sn_cur (mt_s s j) \<and> (roused s j \<longrightarrow> roused t j)" for j using keep by (auto simp: t)
    then show ?thesis
      using waits_mono [OF waits_enter [OF inv [unfolded wait_inv_def] k], of _ "\<lambda>j. sn_cur (mt_s t j)" "roused t"]
      by (simp add: wait_inv_def p) (simp add: t)
  qed
qed

text \<open>Calling a waker: \<open>t\<close> has lost only that waker from its pending wakes.\<close>

lemma wait_told:
  assumes inv: "wait_inv s" and t: "mt_ch t = mt_ch s" "\<And>j. sn_fut (mt_s t j) = sn_fut (mt_s s j)"
    "\<And>j. sn_cur (mt_s t j) = sn_cur (mt_s s j)" "\<And>j. sn_woken (mt_s t j) = sn_woken (mt_s s j)"
    and p: "\<And>u. pending s u \<Longrightarrow> u = w \<or> pending t u"
  shows "wait_inv (s_told w t)"
proof (rule wait_frame [OF inv])
  show "sn_cur (mt_s (s_told w t) i) = sn_cur (mt_s s i) \<and> (roused s i \<longrightarrow> roused (s_told w t) i)" for i
    using p [of "sn_cur (mt_s s i)"] t by (auto simp: roused_def pending_def)
qed (use t in \<open>auto simp: parked_as_def\<close>)

lemma wait_s_move:
  assumes inv: "wait_inv s" and chan: "chan_ok (mt_ch s)" and ok: "sender_ok (mp_closed (mt_ch s)) (mt_s s i)"
    and move: "s_move i s = Inr t"
  shows "wait_inv t"
proof (cases "sn_pc (mt_s s i)")
  case (SRepoll w v)
  then obtain k where "parked_as s i = Some k" using ok by (auto simp: sender_ok_def parked_as_def)
  with SRepoll show ?thesis using wait_repoll [OF inv] move by (auto simp: s_move_def)
next
  case SCancel
  then obtain k where "parked_as s i = Some k" using ok by (auto simp: sender_ok_def parked_as_def)
  with SCancel show ?thesis using wait_cancel [OF inv chan] move by (auto simp: s_move_def)
next
  case (SPark v)
  then show ?thesis using wait_enter [OF inv chan] ok move by (auto simp: s_move_def sender_ok_def parked_as_def)
next
  case (SWake w)
  have "wait_inv (s_told w (s_set i ((mt_s s i)\<lparr>sn_pc := SOut\<rparr>) s))"
    by (rule wait_told [OF inv]) (use SWake in \<open>auto simp: pending_def, metis s_wakes.simps(1) singletonD\<close>)
  then show ?thesis using SWake move by (auto simp: s_move_def)
qed (use wait_plain [OF inv _ move] in auto)

text \<open>The receiver's steps.\<close>

fun r_plain :: "recv_pc \<Rightarrow> bool" where
  "r_plain (RSelect p) = False" | "r_plain RWakeAll = False" | "r_plain (RWake ws p) = False" | "r_plain _ = True"

lemma r_wakes_simps [simp]: "r_wakes (r_some m) = {}" "r_wakes (r_none m) = {}" "r_wakes (rc_pc (r_live m r)) = {}"
proof -
  show "r_wakes (r_some m) = {}" by (cases m rule: r_some.cases) simp_all
qed (cases m; simp add: r_register_def)+

lemma r_plain_shared:
  assumes "r_plain (rc_pc (mt_r s))" "recv_move s = Inr t"
  shows "mp_wq (mt_ch t) = mp_wq (mt_ch s)" "mp_selected (mt_ch t) = mp_selected (mt_ch s)"
    "mp_next_id (mt_ch t) = mp_next_id (mt_ch s)" "mt_s t = mt_s s" "r_wakes (rc_pc (mt_r s)) \<subseteq> r_wakes (rc_pc (mt_r t))"
  using assms
  by (cases "rc_pc (mt_r s)"; auto simp: recv_move_def r_access_defs rbind_Inr_iff split: if_splits list.splits)+

lemma wait_select:
  assumes inv: "wait_inv s" and chan: "chan_ok (mt_ch s)" and pc: "rc_pc (mt_r s) = RSelect p"
  shows "wait_inv (r_select p s)"
proof (cases "mp_wq (mt_ch s)")
  case Nil
  then show ?thesis
    using inv pc by (intro wait_frame [OF inv]) (auto simp: r_select_def mp_awaken_def roused_def pending_def parked_as_def)
next
  case (Cons e q)
  then obtain k v where e: "mp_wq (mt_ch s) = (k, v) # q" by (cases e) auto
  let ?t = "r_select p s"
  have t: "parked_as ?t = parked_as s" "mt_s ?t = mt_s s" "rc_pc (mt_r ?t) = RUnlock (RWake [v] p)"
    using e by (auto simp: r_select_def mp_awaken_def parked_as_def fun_eq_iff)
  have "waits q (insert k (mp_selected (mt_ch s))) (mp_next_id (mt_ch s)) (mp_closed (mt_ch s)) (parked_as s)
      (\<lambda>i. sn_cur (mt_s s i)) (\<lambda>i. roused s i \<or> sn_cur (mt_s s i) = v)"
    by (rule waits_pop) (use inv chan e in \<open>auto simp: wait_inv_def chan_ok_def\<close>)
  from waits_mono [OF this, of "mp_closed (mt_ch s)" _ "roused ?t"]
  have "waits q (insert k (mp_selected (mt_ch s))) (mp_next_id (mt_ch s)) (mp_closed (mt_ch s)) (parked_as s)
      (\<lambda>i. sn_cur (mt_s s i)) (roused ?t)"
    using pc by (auto simp: roused_def pending_def t(2,3))
  then show ?thesis using e by (simp add: wait_inv_def t(1,2)) (simp add: r_select_def mp_awaken_def)
qed

lemma wait_r_move:
  assumes inv: "wait_inv s" and chan: "chan_ok (mt_ch s)" and recv: "recv_inv s" and move: "recv_move s = Inr t"
  shows "wait_inv t"
proof (cases "rc_pc (mt_r s)")
  case (RSelect p)
  then show ?thesis using wait_select [OF inv chan] move by (auto simp: recv_move_def)
next
  case RWakeAll
  then have t: "parked_as t = parked_as s" "mt_s t = mt_s s"
    "rc_pc (mt_r t) = RUnlock (RWake (map snd (mp_wq (mt_ch s))) RGone)" "mp_wq (mt_ch t) = []" "mp_selected (mt_ch t) = {}"
    "mp_next_id (mt_ch t) = mp_next_id (mt_ch s)" "mp_closed (mt_ch t) = mp_closed (mt_ch s)"
    using move by (auto simp: recv_move_def parked_as_def fun_eq_iff)
  have cl: "mp_closed (mt_ch s)" using RWakeAll recv by (simp add: recv_inv_def)
  have "waits [] {} (mp_next_id (mt_ch s)) True (parked_as s) (\<lambda>i. sn_cur (mt_s s i)) (roused t)"
    by (rule waits_mono [OF waits_close [OF inv [unfolded wait_inv_def]]])
      (use RWakeAll in \<open>auto simp: roused_def pending_def t(2,3)\<close>)
  then show ?thesis by (simp add: wait_inv_def t cl)
next
  case (RWake ws p)
  show ?thesis
  proof (cases ws)
    case Nil
    then show ?thesis
      using RWake move by (intro wait_frame [OF inv]) (auto simp: recv_move_def roused_def pending_def parked_as_def)
  next
    case (Cons w ws')
    have "wait_inv (s_told w (r_set ((mt_r s)\<lparr>rc_pc := RWake ws' p\<rparr>) s))"
      by (rule wait_told [OF inv]) (use RWake Cons in \<open>auto simp: pending_def\<close>)
    then show ?thesis using RWake Cons move by (auto simp: recv_move_def)
  qed
qed (rule wait_frame [OF inv];
    use r_plain_shared [OF _ move] recv_move_senders [OF move] pending_keep [of s _ t] in \<open>auto simp: roused_def parked_as_def\<close>)+

lemma wait_s_call:
  assumes inv: "wait_inv s" and ok: "senders_inv s" and call: "s_call i op s = Some t"
  shows "wait_inv t"
proof -
  have pc: "sn_pc (mt_s s i) = SOut" by (rule s_call_out [OF call])
  have f: "fut_ok (sn_pc (mt_s s j)) (sn_fut (mt_s s j))" for j using ok by (simp add: senders_inv_def sender_ok_def)
  have "mp_wq (mt_ch t) = mp_wq (mt_ch s) \<and> mp_selected (mt_ch t) = mp_selected (mt_ch s) \<and>
      mp_next_id (mt_ch t) = mp_next_id (mt_ch s) \<and> mp_closed (mt_ch t) = mp_closed (mt_ch s) \<and> mt_r t = mt_r s"
    using call by (cases op) (auto simp: s_call_def sender_clone_def Let_def split: spc.splits if_splits option.splits)
  moreover have "parked_as t j = parked_as s j \<and> s_wakes (sn_pc (mt_s s j)) \<subseteq> s_wakes (sn_pc (mt_s t j)) \<and>
      (parked_as s j \<noteq> None \<longrightarrow> sn_cur (mt_s t j) = sn_cur (mt_s s j) \<and> sn_woken (mt_s t j) = sn_woken (mt_s s j))" for j
    using call pc f [of j] f [of i]
    by (cases op)
      (auto simp: s_call_def parked_as_def new_sender_def mp_send_def send_done_def Let_def split: spc.splits if_splits option.splits)
  ultimately show ?thesis
    using pending_keep [of s _ t] by (intro wait_frame [OF inv]) (auto simp: roused_def)
qed

lemma wait_r_call:
  assumes "wait_inv s" "r_call op s = Some t"
  shows "wait_inv t"
proof (rule wait_frame [OF assms(1)])
  have "mt_ch t = mt_ch s \<and> mt_s t = mt_s s \<and> r_wakes (rc_pc (mt_r s)) = {}"
    using assms(2) by (cases op) (auto simp: r_call_def Let_def split: recv_pc.splits if_splits)
  then show "sn_cur (mt_s t i) = sn_cur (mt_s s i) \<and> (roused s i \<longrightarrow> roused t i)"
    "mp_wq (mt_ch t) = mp_wq (mt_ch s)" "mp_selected (mt_ch t) = mp_selected (mt_ch s)"
    "mp_next_id (mt_ch t) = mp_next_id (mt_ch s)" "mp_closed (mt_ch s) \<Longrightarrow> mp_closed (mt_ch t)"
    "parked_as t i = parked_as s i" for i by (auto simp: roused_def pending_def parked_as_def)
qed

section \<open>Somebody makes progress\<close>

text \<open>
  While the receiver sleeps and a sender is in the wait list, there are items in the queue, or a sender
  has been selected, or one is on its way to push or park.
\<close>

fun r_asleep :: "recv_pc \<Rightarrow> bool" where
  "r_asleep RWaiting = True" | "r_asleep (RUnlock p) = r_asleep p" | "r_asleep (RWake ws p) = r_asleep p" | "r_asleep _ = False"

fun s_flight :: "'a spc \<Rightarrow> bool" where
  "s_flight (SClosed (SPoll v)) = True" | "s_flight (SPush (SPoll v)) = True" | "s_flight (SParkClosed v) = True"
| "s_flight (SPark v) = True" | "s_flight (SLock p) = s_flight p" | "s_flight (SUnlock p) = s_flight p" | "s_flight _ = False"

definition progress_inv :: "'a mt_sys \<Rightarrow> bool" where
  "progress_inv s \<longleftrightarrow> r_asleep (rc_pc (mt_r s)) \<longrightarrow> mp_wq (mt_ch s) \<noteq> [] \<longrightarrow>
     mp_queue (mt_ch s) \<noteq> [] \<or> mp_selected (mt_ch s) \<noteq> {} \<or> (\<exists>i. s_flight (sn_pc (mt_s s i)))"

lemma s_flight_push [simp]: "s_flight (SPush c) = s_flight (SClosed c)"
  by (cases c) simp_all

lemma r_asleep_open: "r_asleep p \<Longrightarrow> \<not> r_closing p"
  by (induction p) auto

lemma progress_s_move:
  assumes inv: "progress_inv s" and chan: "chan_ok (mt_ch s)" and recv: "recv_inv s" and move: "s_move i s = Inr t"
  shows "progress_inv t"
proof (cases "r_asleep (rc_pc (mt_r s)) \<and> mp_wq (mt_ch t) \<noteq> []")
  case True
  then have op: "\<not> mp_closed (mt_ch s)" using recv r_asleep_open by (auto simp: recv_inv_def)
  have cap: "0 < mp_cap (mt_ch s)" using chan by (simp add: chan_ok_def)
  have "mp_queue (mt_ch t) \<noteq> [] \<or> mp_selected (mt_ch t) \<noteq> {} \<or> s_flight (sn_pc (mt_s t i)) \<or>
      mp_wq (mt_ch s) \<noteq> [] \<and> mp_queue (mt_ch s) = [] \<and> mp_selected (mt_ch s) = {} \<and> \<not> s_flight (sn_pc (mt_s s i))"
    using move True op cap
    by (cases "sn_pc (mt_s s i)")
      (auto simp: s_move_def s_access_defs rbind_Inr_iff mp_awaken_def split: sending.splits option.splits if_splits list.splits)
  then show ?thesis using inv True s_move_others(1) [OF move] s_move_shared(4) [OF move] unfolding progress_inv_def by metis
next
  case False
  then show ?thesis using s_move_shared(4) [OF move] by (auto simp: progress_inv_def)
qed

lemma r_asleep_simps [simp]: "\<not> r_asleep (r_some m)" "\<not> r_asleep (r_none m)" "\<not> r_asleep (rc_pc (r_live m r))"
proof -
  show "\<not> r_asleep (r_some m)" by (cases m rule: r_some.cases) simp_all
qed (cases m; simp add: r_register_def)+

lemma progress_r_move:
  assumes inv: "progress_inv s" and chan: "chan_ok (mt_ch s)" and wf: "r_wf (rc_pc (mt_r s))" and move: "recv_move s = Inr t"
  shows "progress_inv t"
proof (cases "rc_pc (mt_r s)")
  case (RLock p)
  then have "r_asleep p \<Longrightarrow> False" using wf by (cases p) auto
  then show ?thesis using RLock move by (cases "mp_locked (mt_ch s)") (auto simp: recv_move_def progress_inv_def)
next
  case RSleep
  then show ?thesis using assms by (auto simp: recv_move_def progress_inv_def chan_ok_def)
next
  case (RWake ws p)
  then show ?thesis using assms by (cases ws) (auto simp: recv_move_def progress_inv_def)
qed (use inv wf move in \<open>auto simp: recv_move_def progress_inv_def r_access_defs mp_awaken_def rbind_Inr_iff
      split: if_splits list.splits\<close>)

lemma progress_s_call:
  assumes inv: "progress_inv s" and call: "s_call i op s = Some t"
  shows "progress_inv t"
proof -
  have pc: "sn_pc (mt_s s i) = SOut" by (rule s_call_out [OF call])
  have "mp_wq (mt_ch t) = mp_wq (mt_ch s) \<and> mp_selected (mt_ch t) = mp_selected (mt_ch s) \<and>
      mp_queue (mt_ch t) = mp_queue (mt_ch s) \<and> mt_r t = mt_r s"
    using call by (cases op) (auto simp: s_call_def sender_clone_def Let_def split: spc.splits if_splits option.splits)
  moreover have "s_flight (sn_pc (mt_s t j))" if "s_flight (sn_pc (mt_s s j))" for j
    using that call pc by (cases op) (auto simp: s_call_def new_sender_def Let_def split: spc.splits if_splits option.splits)
  ultimately show ?thesis using inv unfolding progress_inv_def by metis
qed

lemma progress_r_call: "progress_inv s \<Longrightarrow> r_call op s = Some t \<Longrightarrow> progress_inv t"
  by (cases op) (auto simp: r_call_def progress_inv_def Let_def split: recv_pc.splits if_splits)

section \<open>The invariant\<close>

definition mt_inv :: "'a mt_sys \<Rightarrow> bool" where
  "mt_inv s \<longleftrightarrow> lock_inv s \<and> data_inv s \<and> senders_inv s \<and> count_inv s \<and> recv_inv s \<and> shut_inv s \<and> wait_inv s \<and> progress_inv s"

lemma mt_inv_init: "mt_init capacity s \<Longrightarrow> mt_inv s"
proof -
  assume init: "mt_init capacity s"
  then have ch: "mt_ch s = \<lparr>mp_locked = False, mp_nonempty = 0, mp_cap = max capacity 1, mp_queue = [], mp_wq = [], mp_next_id = 0,
      mp_selected = {}, mp_recv = slot_new, mp_senders = 1, mp_closed = False, mp_waiters_len = 0\<rparr>"
    and r: "rc_stg (mt_r s) = []" "rc_pc (mt_r s) = ROut" "\<not> rc_ended (mt_r s)" and x: "mt_s s 0 = new_sender"
    and gone: "\<And>i. i \<noteq> 0 \<Longrightarrow> sn_pc (mt_s s i) = SGone \<and> sn_fut (mt_s s i) = send_done \<and> sn_ans (mt_s s i) = NoAnswer"
    and logs: "mt_sent s = []" "mt_got s = []"
    by (auto simp: mt_init_def bounded_def)
  have pcs: "sn_pc (mt_s s i) = (if i = 0 then SOut else SGone)" "sn_fut (mt_s s i) = send_done" "sn_ans (mt_s s i) = NoAnswer" for i
    using x gone [of i] by (cases "i = 0"; simp add: new_sender_def)+
  have "live_set (mt_s s) = {0}" by (auto simp: live_set_def pcs)
  moreover have "s_set_in (mt_s s) = {}" by (simp add: s_set_in_def pcs)
  ultimately show ?thesis
    using r logs pcs
    by (simp add: mt_inv_def lock_inv_def data_inv_def senders_inv_def sender_ok_def count_inv_def recv_inv_def shut_inv_def
        wait_inv_def waits_def progress_inv_def chan_ok_def wait_ids_ok_def parked_as_def send_done_def ch)
qed

lemma mt_inv_step:
  assumes inv: "mt_inv s" and step: "mt_step s t"
  shows "mt_inv t"
proof -
  have I: "lock_inv s" "data_inv s" "senders_inv s" "count_inv s" "recv_inv s" "shut_inv s" "wait_inv s" "progress_inv s"
    using inv by (simp_all add: mt_inv_def)
  have chan: "chan_ok (mt_ch s)" using I(2) by (simp add: data_inv_def)
  have ok: "sender_ok (mp_closed (mt_ch s)) (mt_s s i)" "s_wf (sn_pc (mt_s s i))" for i
    using I(3) by (simp_all add: senders_inv_def sender_ok_def)
  have wf: "r_wf (rc_pc (mt_r s))" "r_dry (rc_pc (mt_r s)) \<Longrightarrow> rc_stg (mt_r s) = []" using I(5) by (simp_all add: recv_inv_def)
  from step show ?thesis
  proof cases
    case (sender_calls i op)
    then show ?thesis
      using I by (simp add: mt_inv_def lock_s_call data_s_call senders_s_call count_s_call recv_s_call shut_s_call wait_s_call progress_s_call)
  next
    case (sender_moves i)
    then show ?thesis
      using I chan ok [of i]
      by (simp add: mt_inv_def lock_s_move data_s_move senders_s_move count_s_move recv_s_move shut_s_move wait_s_move progress_s_move)
  next
    case (receiver_calls op)
    then show ?thesis
      using I by (simp add: mt_inv_def lock_r_call data_r_call senders_r_call count_r_call recv_r_call shut_r_call wait_r_call progress_r_call)
  next
    case receiver_moves
    then show ?thesis
      using I chan wf
      by (simp add: mt_inv_def lock_r_move data_r_move senders_r_move count_r_move recv_r_move shut_r_move wait_r_move progress_r_move)
  qed
qed

interpretation mt: invariant_system "mt_init capacity" mt_step mt_inv for capacity
  by unfold_locales (auto intro: mt_inv_init mt_inv_step)

end
