(* ===== verification/Mpsc_Wakeups.thy ===== *)
theory Mpsc_Wakeups
  imports Mpsc_Threads
begin

text \<open>
  The wakeups of the interleaved channel. The receiver's slot is a handshake of \<open>Notify\<close> with many
  signallers, for each of the two conditions the receiver waits for: an item in the queue, which it checks
  first after arming, and the end of the last sender, which it checks next. With the invariants of
  \<open>Mpsc_Threads\<close>: what holds in every interleaving, and schedules that can be run.
\<close>

section \<open>The receiver's slot is a handshake\<close>

text \<open>The flag tells the condition: the end of the senders, or an item.\<close>

fun recv_wpc :: "bool \<Rightarrow> recv_pc \<Rightarrow> waiter_pc" where
  "recv_wpc b (RReg q) = q"
| "recv_wpc b (RNext m) = (if m = MPark then Recheck else Idle)"
| "recv_wpc b (RSteal m) = (if m = MPark then Recheck else Idle)"
| "recv_wpc b (RHint m) = (if m = MPark then Disarm else Idle)"
| "recv_wpc b (RPop m) = (if m = MPark then Disarm else Idle)"
| "recv_wpc b (RSenders m) = (if m = MPark then if b then Recheck else Parked else Idle)"
| "recv_wpc b RSleep = Parked" | "recv_wpc b RWaiting = Parked" | "recv_wpc b (RDisarm p) = Disarm"
| "recv_wpc b (RLock p) = recv_wpc b p" | "recv_wpc b (RUnlock p) = recv_wpc b p" | "recv_wpc b (RSelect p) = recv_wpc b p"
| "recv_wpc b (RWake ws p) = recv_wpc b p" | "recv_wpc b _ = Idle"

fun s_spc :: "'a spc \<Rightarrow> signal_pc" where
  "s_spc (SSignal gone q) = q" | "s_spc (SUnlock p) = s_spc p" | "s_spc _ = Quiet"

definition spcs :: "(nat \<Rightarrow> 'a sender) \<Rightarrow> nat \<Rightarrow> signal_pc" where
  "spcs f = (\<lambda>i. s_spc (sn_pc (f i)))"

definition r_cond :: "bool \<Rightarrow> 'a mpsc \<Rightarrow> bool" where
  "r_cond b t = (if b then mp_senders t = 0 else mp_queue t \<noteq> [])"

definition mt_hs :: "bool \<Rightarrow> 'a mt_sys \<Rightarrow> handshake" where
  "mt_hs b s = slot_hss (mp_recv (mt_ch s)) (r_cond b (mt_ch s)) (recv_wpc b (rc_pc (mt_r s))) (rc_cur (mt_r s))
     (rc_woken (mt_r s)) (spcs (mt_s s))"

lemma spcs_upd [simp]: "spcs (f(i := x)) = (spcs f)(i := s_spc (sn_pc x))"
  by (auto simp: spcs_def)

lemma spcs_told [simp]: "spcs (mt_s (s_told w s)) = spcs (mt_s s)"
  by (simp add: spcs_def)

lemma spcs_same: "s_spc (sn_pc (f i)) = p \<Longrightarrow> (spcs f)(i := p) = spcs f"
  by (auto simp: spcs_def)

lemma recv_wpc_simps [simp]:
  "recv_wpc b (r_some m) = (if m = MPark then Disarm else Idle)"
  "recv_wpc b (r_none m) = (if m = MPark then if b then Recheck else Parked else Idle)"
proof -
  show "recv_wpc b (r_some m) = (if m = MPark then Disarm else Idle)" by (cases m rule: r_some.cases) simp_all
qed (cases m; simp)

lemma r_cond_simps [simp]:
  "r_cond b (mp_unlock t) = r_cond b t" "r_cond b (t\<lparr>mp_locked := l\<rparr>) = r_cond b t" "r_cond b (t\<lparr>mp_recv := sl\<rparr>) = r_cond b t"
  "r_cond b (mp_forget k t) = r_cond b t" "r_cond b (snd (mp_awaken t)) = r_cond b t" "r_cond b (t\<lparr>mp_closed := l\<rparr>) = r_cond b t"
  "r_cond b (t\<lparr>mp_next_id := k, mp_wq := q, mp_waiters_len := n\<rparr>) = r_cond b t"
  "r_cond b (t\<lparr>mp_wq := q, mp_selected := S, mp_waiters_len := n\<rparr>) = r_cond b t"
  by (simp_all add: r_cond_def)

text \<open>A thread that has pushed, or dropped the last sender, is at the gate of \<open>signal\<close>.\<close>

lemma hs_pushed:
  assumes "spcs f i = Quiet" "mp_queue t' = mp_queue t @ vs" "vs \<noteq> []" "mp_senders t' = mp_senders t" "mp_recv t' = mp_recv t"
  shows "hs_opt (slot_hss (mp_recv t) (r_cond b t) q c k (spcs f)) (slot_hss (mp_recv t') (r_cond b t') q c k ((spcs f)(i := Gate)))"
  using assms hss_opt_publish [of "spcs f" i] hss_opt_spurious [of "spcs f" i] by (cases b) (simp_all add: r_cond_def)

lemma hs_s_move:
  assumes move: "s_move i s = Inr t" and wf: "s_wf (sn_pc (mt_s s i))"
  shows "hs_opt (mt_hs b s) (mt_hs b t)"
proof (cases "sn_pc (mt_s s i)")
  case (SSignal gone q)
  obtain ws q' slot where sig: "sig_access q (mp_recv (mt_ch s)) = (ws, q', slot)" by (cases "sig_access q (mp_recv (mt_ch s))")
  have q: "spcs (mt_s s) i = q" using SSignal by (simp add: spcs_def)
  have "s_spc (if q' \<noteq> Quiet then SSignal gone q' else if gone then SGone else SOut) = q'" by simp
  then show ?thesis
    using SSignal move sig sig_access_steps [of "spcs (mt_s s)" i, unfolded q, OF sig]
    by (auto simp: s_move_def mt_hs_def)
next
  case (SPush c)
  then have "spcs (mt_s s) i = Quiet" by (simp add: spcs_def)
  then show ?thesis
    using SPush move hs_pushed [of "mt_s s" i _ "mt_ch s" _ b]
    by (cases c) (auto simp: s_move_def mt_hs_def s_push_def s_pushed_def Let_def rbind_Inr_iff spcs_same)
next
  case (SLock p)
  then have "s_spc p = Quiet" using wf by (cases p) auto
  then show ?thesis using SLock move by (auto simp: s_move_def mt_hs_def spcs_same)
next
  case (SPark v)
  then have "spcs (mt_s s) i = Quiet" by (simp add: spcs_def)
  then show ?thesis
    using SPark move hs_pushed [of "mt_s s" i _ "mt_ch s" _ b]
    by (auto simp: s_move_def mt_hs_def s_park_def s_pushed_def Let_def spcs_same split: if_splits option.splits)
qed (use move in \<open>auto simp: s_move_def mt_hs_def s_repoll_def s_cancel_def Let_def split_def spcs_same
      split: if_splits option.splits list.splits\<close>)

lemma hs_s_call:
  assumes call: "s_call i op s = Some t" and count: "count_inv s"
  shows "hs_opt (mt_hs b s) (mt_hs b t)"
proof -
  have pc: "sn_pc (mt_s s i) = SOut" by (rule s_call_out [OF call])
  have "mp_senders (mt_ch s) \<noteq> 0" using no_senders [OF count, of i] pc by auto
  then have n: "0 < mp_senders (mt_ch s)" "mp_senders (mt_ch s) \<le> 2 ^ 63" "mp_senders (mt_ch s) < usize_bound"
    using count by (simp_all add: count_inv_def usize_bound_def)
  have q: "spcs (mt_s s) i = Quiet" using pc by (simp add: spcs_def)
  show ?thesis
  proof (cases op)
    case (Clone j)
    have "wrapping_add (mp_senders (mt_ch s)) 1 = Suc (mp_senders (mt_ch s))"
      using n(2) by (simp add: wrapping_add_small usize_bound_def)
    then show ?thesis
      using call n Clone
      by (cases b) (auto simp: s_call_def mt_hs_def r_cond_def sender_clone_def new_sender_def spcs_same Let_def
          split: spc.splits if_splits)
  next
    case DropSender
    then show ?thesis
      using call pc n q hss_opt_publish [of "spcs (mt_s s)" i] hss_opt_spurious [of "spcs (mt_s s)" i]
      by (cases b) (auto simp: s_call_def mt_hs_def r_cond_def wrapping_dec [simplified] spcs_same Let_def split: if_splits)
  qed (use call pc in \<open>auto simp: s_call_def mt_hs_def spcs_same Let_def split: if_splits option.splits\<close>)
qed

lemma hs_r_live:
  assumes "mp_senders t \<noteq> 0"
  shows "hs_opt (slot_hss sl (r_cond b t) (recv_wpc b (RSenders m)) (rc_cur r) (rc_woken r) P)
    (slot_hss sl (r_cond b t) (recv_wpc b (rc_pc (r_live m r))) (rc_cur (r_live m r)) (rc_woken (r_live m r)) P)"
  using assms hss_opt_poll [of sl "r_cond b t" "rc_cur r" "rc_woken r" P] hss_opt_park [of sl "r_cond b t" "rc_cur r" "rc_woken r" P]
  by (cases m) (auto simp: r_register_def r_cond_def)

lemma hs_r_move:
  assumes move: "recv_move s = Inr t" and recv: "recv_inv s"
  shows "hs_opt (mt_hs b s) (mt_hs b t)"
proof -
  have dry: "r_dry (rc_pc (mt_r s)) \<Longrightarrow> rc_stg (mt_r s) = []" "r_stocked (rc_pc (mt_r s)) \<Longrightarrow> rc_stg (mt_r s) \<noteq> []"
    and wf: "r_wf (rc_pc (mt_r s))" using recv by (simp_all add: recv_inv_def)
  show ?thesis
  proof (cases "rc_pc (mt_r s)")
    case (RNext m)
    then show ?thesis
      using move dry(1) by (auto simp: recv_move_def mt_hs_def r_take_def split: list.splits rmode.splits)
  next
    case (RSteal m)
    then have stg: "rc_stg (mt_r s) = []" using dry(1) by simp
    let ?P = "spcs (mt_s s)" and ?c = "rc_cur (mt_r s)" and ?k = "rc_woken (mt_r s)" and ?sl = "mp_recv (mt_ch s)"
    show ?thesis
    proof (cases "mp_queue (mt_ch s) = []")
      case True
      then show ?thesis
        using RSteal move hss_opt_park [of ?sl False ?c ?k ?P]
        by (cases b) (auto simp: recv_move_def mt_hs_def r_steal_def r_cond_def Let_def)
    next
      case False
      then show ?thesis
        using RSteal move stg hss_opt_recheck [of ?sl ?c ?k ?P False] hss_opt_consume [of Idle ?sl ?c ?k ?P False]
          hss_opt_give_up [of Recheck ?sl _ ?c ?k ?P]
        by (cases b) (auto simp: recv_move_def mt_hs_def r_steal_def r_cond_def Let_def)
    qed
  next
    case (RSenders m)
    show ?thesis
    proof (cases "mp_senders (mt_ch s) = 0")
      case True
      let ?P = "spcs (mt_s s)" and ?c = "rc_cur (mt_r s)" and ?k = "rc_woken (mt_r s)" and ?sl = "mp_recv (mt_ch s)"
      show ?thesis
        using True RSenders move hss_opt_recheck [of ?sl ?c ?k ?P True] hss_opt_give_up [of Parked ?sl _ ?c ?k ?P]
        by (cases b) (auto simp: recv_move_def mt_hs_def r_cond_def)
    next
      case False
      then have "t = r_set (r_live m (mt_r s)) s" using RSenders move by (simp add: recv_move_def)
      then show ?thesis using RSenders hs_r_live [OF False, of _ b m "mt_r s"] by (simp add: mt_hs_def)
    qed
  next
    case (RReg q)
    then show ?thesis
      using move reg_access_steps [of "rc_cur (mt_r s)" q "mp_recv (mt_ch s)"] by (auto simp: recv_move_def mt_hs_def rbind_Inr_iff)
  next
    case (RDisarm p)
    then have "recv_wpc b p = Idle" using wf by auto
    then show ?thesis using RDisarm move hss_opt_disarm by (auto simp: recv_move_def mt_hs_def)
  next
    case (RPop m)
    then show ?thesis using move dry(2) by (auto simp: recv_move_def mt_hs_def r_take_def split: list.splits)
  next
    case (RWake ws p)
    then show ?thesis using move by (cases ws) (auto simp: recv_move_def mt_hs_def)
  qed (use move in \<open>auto simp: recv_move_def mt_hs_def r_select_def split_def Let_def\<close>)
qed

lemma hs_r_call:
  assumes "r_call op s = Some t"
  shows "hs_opt (mt_hs b s) (mt_hs b t)"
  using assms hss_opt_cancel hss_opt_give_up [of Idle] hss_opt_give_up [of Parked]
  by (cases op) (auto simp: r_call_def mt_hs_def Let_def split: recv_pc.splits if_splits)

lemma mt_hs_step:
  assumes "mt_inv s" "mt_step s t"
  shows "hs_opt (mt_hs b s) (mt_hs b t)"
  using assms(2) assms(1)
  by cases (simp_all add: mt_inv_def senders_inv_def sender_ok_def hs_s_call hs_s_move hs_r_call hs_r_move)

lemma mt_hs_init:
  assumes "mt_init capacity s"
  shows "hs_init (mt_hs b s)"
proof -
  have "sn_pc (mt_s s i) \<in> {SOut, SGone}" for i using assms by (cases "i = 0") (auto simp: mt_init_def new_sender_def)
  then have "s_spc (sn_pc (mt_s s i)) = Quiet" for i by (metis empty_iff insert_iff s_spc.simps(3,4))
  then show ?thesis
    using assms by (auto simp: mt_init_def bounded_def mt_hs_def hs_init_def spcs_def slot_new_def atomic_waker_new_def)
qed

interpretation mt_slot: simulation "mt_init capacity" mt_step mt_inv hs_init hs_step "mt_hs b" for capacity b
  by unfold_locales (rule mt_hs_init, assumption, rule mt_hs_step [unfolded hs_opt_def])

lemma mt_handshake: "reach (mt_init capacity) mt_step n s \<Longrightarrow> hs_inv (mt_hs b s)"
  using mt_slot.simulated hs.reachable_inv by blast

section \<open>No access panics\<close>

lemma s_move_returns:
  assumes inv: "mt_inv s" and n: "Suc (mp_next_id (mt_ch s)) < usize_bound"
  shows "\<exists>t. s_move i s = Inr t"
proof (cases "sn_pc (mt_s s i)")
  case (SPush c)
  have "length (mp_queue (mt_ch s)) \<le> mp_cap (mt_ch s)" using inv by (simp add: mt_inv_def data_inv_def chan_ok_def)
  then show ?thesis using SPush by (cases c) (simp_all add: s_move_def s_push_def usize_sub_def Let_def)
next
  case (SPark v)
  then show ?thesis using n by (simp add: s_move_def s_park_def checked_add_def Let_def)
qed (simp_all add: s_move_def split_def Let_def)

lemma recv_move_returns:
  assumes "hs_inv (mt_hs b s)"
  shows "\<exists>t. recv_move s = Inr t"
proof (cases "rc_pc (mt_r s)")
  case (RReg q)
  then obtain r where "reg_access (rc_cur (mt_r s)) q (mp_recv (mt_ch s)) = Inr r"
    using reg_access_oks assms by (fastforce simp: mt_hs_def)
  then show ?thesis using RReg by (simp add: recv_move_def split_def)
qed (simp_all add: recv_move_def)

text \<open>A step hands out at most one waiter id, and the capacity never changes.\<close>

lemma next_id_step: "mt_step s t \<Longrightarrow> mp_next_id (mt_ch t) \<le> Suc (mp_next_id (mt_ch s)) \<and> mp_cap (mt_ch t) = mp_cap (mt_ch s)"
proof (induction rule: mt_step.induct)
  case (sender_calls i op s t)
  then show ?case by (cases op) (auto simp: s_call_def sender_clone_def Let_def split: spc.splits if_splits option.splits)
next
  case (sender_moves i s t)
  then show ?case
    by (cases "sn_pc (mt_s s i)") (auto simp: s_move_def s_access_defs rbind_Inr_iff checked_add_Some_iff
      split: sending.splits option.splits if_splits list.splits)
next
  case (receiver_calls op s t)
  then show ?case by (cases op) (auto simp: r_call_def Let_def split: recv_pc.splits if_splits)
next
  case (receiver_moves s t)
  then show ?case
    by (cases "rc_pc (mt_r s)") (auto simp: recv_move_def r_access_defs rbind_Inr_iff split: if_splits list.splits)
qed

interpretation mt_ids: transition_system "mt_init capacity" mt_step
  "\<lambda>n s. mp_next_id (mt_ch s) \<le> n \<and> mp_cap (mt_ch s) = max capacity 1" for capacity
proof unfold_locales
  show "mp_next_id (mt_ch s) \<le> 0 \<and> mp_cap (mt_ch s) = max capacity 1" if "mt_init capacity s" for s :: "'a mt_sys"
    using that by (simp add: mt_init_def bounded_def)
qed (use next_id_step in fastforce)

section \<open>Schedules\<close>

datatype 'a mt_act = S nat | SCall nat "'a s_op" | R | RCall r_op

fun mt_do :: "'a mt_act \<Rightarrow> 'a mt_sys \<Rightarrow> 'a mt_sys res" where
  "mt_do (S i) s = s_move i s"
| "mt_do (SCall i op) s = Inr (case s_call i op s of Some t \<Rightarrow> t | None \<Rightarrow> s)"
| "mt_do R s = recv_move s"
| "mt_do (RCall op) s = Inr (case r_call op s of Some t \<Rightarrow> t | None \<Rightarrow> s)"

lemma mt_do_opt: "mt_do a s = Inr u \<Longrightarrow> u = s \<or> mt_step s u"
  by (cases a) (auto intro: mt_step.intros split: option.splits)

interpretation mt_schedule: scheduler "mt_init capacity" mt_step mt_inv mt_do for capacity
  by unfold_locales (rule mt_do_opt)

fun touches :: "'a mt_act \<Rightarrow> nat \<Rightarrow> bool" where
  "touches (S i) j \<longleftrightarrow> i = j" | "touches (SCall i op) j \<longleftrightarrow> i = j \<or> op = Clone j" | "touches _ j \<longleftrightarrow> False"

lemma mt_do_others: "mt_do a s = Inr t \<Longrightarrow> \<not> touches a j \<Longrightarrow> sn_pc (mt_s t j) = sn_pc (mt_s s j)"
proof (cases a)
  case (SCall i op)
  then show "mt_do a s = Inr t \<Longrightarrow> \<not> touches a j \<Longrightarrow> sn_pc (mt_s t j) = sn_pc (mt_s s j)"
    by (cases op) (auto simp: s_call_def Let_def split: option.splits if_splits spc.splits)
next
  case (RCall op)
  then show "mt_do a s = Inr t \<Longrightarrow> \<not> touches a j \<Longrightarrow> sn_pc (mt_s t j) = sn_pc (mt_s s j)"
    by (cases op) (auto simp: r_call_def Let_def split: option.splits if_splits recv_pc.splits)
qed (auto simp: s_move_others(1) recv_move_senders(1))

lemma run_others:
  "run mt_do acts s = Inr t \<Longrightarrow> \<forall>a \<in> set acts. \<not> touches a j \<Longrightarrow> sn_pc (mt_s t j) = sn_pc (mt_s s j)"
proof (induction acts arbitrary: s)
  case (Cons a acts)
  then show ?case by (fastforce simp: rbind_Inr_iff dest: mt_do_others)
qed simp

text \<open>
  A run on a channel of capacity one. Thread 0 sends 5 and makes a handle for thread 1, whose send of 6
  finds the queue full and parks with waker 3. The receiver takes 5 and wakes thread 1; then it polls with
  waker 9, finds nothing, arms its slot and sleeps.
\<close>

definition mt_demo :: "nat mt_sys" where
  "mt_demo = \<lparr>mt_ch = fst (bounded 1), mt_s = (\<lambda>i. if i = 0 then new_sender else new_sender\<lparr>sn_pc := SGone\<rparr>),
     mt_r = \<lparr>rc_pc = ROut, rc_stg = [], rc_cur = 0, rc_woken = False, rc_ended = False\<rparr>, mt_sent = [], mt_got = []\<rparr>"

definition mt_acts :: "nat mt_act list" where
  "mt_acts = [SCall 0 (TrySend 5), S 0, S 0, S 0, S 0, S 0, SCall 0 (Clone 1),
     SCall 1 (Send 6), SCall 1 (PollSend 3), S 1, S 1, S 1, S 1, S 1, S 1, S 1, S 1,
     RCall TryRecv, R, R, R, R, R, R, R, R,
     RCall (PollRecv False 9), R, R, R, R, R, R, R, R, R, R, R, R, R, R, R, R]"

lemma mt_demo_start: "reach (mt_init 1) mt_step 0 mt_demo"
  by (rule reach.start) (simp add: mt_init_def mt_demo_def bounded_def new_sender_def)

lemmas mt_eval = s_move_def recv_move_def s_access_defs r_access_defs s_call_def r_call_def s_set_def r_set_def s_told_def
  r_told_def mp_unlock_def mp_enqueue_def mp_awaken_def sender_clone_def wrapping_add_def usize_bound_def checked_add_def
  new_sender_def send_done_def mp_send_def slot_new_def atomic_waker_new_def r_register_def state_defs will_wake_def

lemma mt_run:
  "\<exists>t. run mt_do mt_acts mt_demo = Inr t \<and> rc_pc (mt_r t) = RWaiting \<and> \<not> rc_woken (mt_r t) \<and> parked_as t 1 = Some 0 \<and>
     sn_pc (mt_s t 0) = SOut \<and> sn_pc (mt_s t 1) = SOut \<and> mt_got t = [5]"
  by (simp add: mt_acts_def mt_demo_def bounded_def parked_as_def mt_eval)

lemma mt_run_reach:
  obtains n and t :: "nat mt_sys" where "reach (mt_init 1) mt_step n t" "Suc n < usize_bound" "rc_pc (mt_r t) = RWaiting" "\<not> rc_woken (mt_r t)"
    "parked_as t 1 = Some 0" "\<forall>i. sn_pc (mt_s t i) \<in> {SOut, SGone}" "mt_got t = [5]"
proof -
  obtain t where t: "run mt_do mt_acts mt_demo = Inr t" "rc_pc (mt_r t) = RWaiting" "\<not> rc_woken (mt_r t)" "parked_as t 1 = Some 0"
      "sn_pc (mt_s t 0) = SOut" "sn_pc (mt_s t 1) = SOut" "mt_got t = [5]"
    using mt_run by blast
  obtain n where n: "n \<le> length mt_acts" "reach (mt_init 1) mt_step n t"
    using mt_schedule.run_bounded [OF mt_demo_start t(1)] by auto
  have "sn_pc (mt_s t i) \<in> {SOut, SGone}" for i
  proof (cases "i \<le> 1")
    case True
    then have "i = 0 \<or> i = 1" by auto
    then show ?thesis using t(5,6) by auto
  next
    case False
    then have "sn_pc (mt_s t i) = sn_pc (mt_s mt_demo i)" by (intro run_others [OF t(1)]) (auto simp: mt_acts_def)
    then show ?thesis using False by (simp add: mt_demo_def)
  qed
  moreover have "Suc n < usize_bound" using n(1) by (simp add: mt_acts_def usize_bound_def)
  ultimately show thesis using that n(2) t by blast
qed

section \<open>Correctness in every interleaving\<close>

text \<open>
  C33. Safety of the channel in every interleaving. No access panics; at most one thread is in a critical
  section, and it holds the lock; the receiver gets the values in the order in which they were put into
  the queue, across all senders, and at most the capacity is queued and staged; when a receive reports
  the end, everything sent has been received; and a sender is told that the channel is closed only when
  it is.
\<close>

theorem mpsc_threads_safe:
  assumes "reach (mt_init capacity) mt_step n s" "Suc n < usize_bound"
  shows "(\<exists>t. s_move i s = Inr t) \<and> (\<exists>t. recv_move s = Inr t) \<and>
    (s_in (sn_pc (mt_s s i)) \<longrightarrow>
       mp_locked (mt_ch s) \<and> \<not> r_in (rc_pc (mt_r s)) \<and> (\<forall>j. s_in (sn_pc (mt_s s j)) \<longrightarrow> j = i)) \<and>
    mt_sent s = mt_got s @ rc_stg (mt_r s) @ mp_queue (mt_ch s) \<and>
    length (mp_queue (mt_ch s)) \<le> max capacity 1 \<and> length (rc_stg (mt_r s)) \<le> max capacity 1 \<and>
    (rc_ended (mt_r s) \<longrightarrow> mt_got s = mt_sent s) \<and>
    (\<forall>vs. sn_ans (mt_s s i) = Shut vs \<longrightarrow> mp_closed (mt_ch s))"
proof -
  have inv: "mt_inv s" by (rule mt.reachable_inv [OF assms(1)])
  have ids: "mp_next_id (mt_ch s) \<le> n" "mp_cap (mt_ch s) = max capacity 1"
    using mt_ids.reach_inv [OF assms(1)] assms(2) by auto
  have "mp_locked (mt_ch s) \<and> \<not> r_in (rc_pc (mt_r s)) \<and> (\<forall>j. s_in (sn_pc (mt_s s j)) \<longrightarrow> j = i)"
    if "s_in (sn_pc (mt_s s i))"
  proof -
    have "i \<in> s_set_in (mt_s s)" using that by (simp add: s_set_in_mem)
    moreover have "excl (mp_locked (mt_ch s)) (r_in (rc_pc (mt_r s))) (s_set_in (mt_s s))"
      using inv by (simp add: mt_inv_def lock_inv_def)
    ultimately have "mp_locked (mt_ch s) \<and> \<not> r_in (rc_pc (mt_r s)) \<and> s_set_in (mt_s s) = {i}"
      by (rule excl_sender [rotated])
    then show ?thesis using s_set_in_mem [of _ "mt_s s"] by auto
  qed
  moreover have "\<exists>t. s_move i s = Inr t" using s_move_returns [OF inv] ids(1) assms(2) by simp
  moreover have "\<exists>t. recv_move s = Inr t" by (rule recv_move_returns [OF mt_handshake [OF assms(1)]])
  ultimately show ?thesis
    using inv ids(2) by (auto simp: mt_inv_def data_inv_def chan_ok_def recv_inv_def senders_inv_def sender_ok_def)
qed

theorem mpsc_threads_safe_witness:
  "\<exists>n t. reach (mt_init 1) mt_step n t \<and> mt_got t = [5::nat] \<and> mt_sent t = [5] @ rc_stg (mt_r t) @ mp_queue (mt_ch t)"
proof -
  obtain n and t :: "nat mt_sys" where t: "reach (mt_init 1) mt_step n t" "Suc n < usize_bound" "mt_got t = [5]"
    by (rule mt_run_reach)
  from mpsc_threads_safe [OF t(1,2), of 0] t(1,3) show ?thesis by metis
qed

text \<open>
  C34. No wakeup of the channel is lost in any interleaving. When no sender is inside a call and the receiver
  sleeps without having been woken, there is nothing to receive and a sender is left, and if futures of
  \<open>send\<close> are parked, one of them has been woken: the two sides are never both asleep. When the receiver is
  gone, every parked future has been woken.
\<close>

theorem mpsc_threads_no_lost_wakeup:
  assumes "reach (mt_init capacity) mt_step n s" "\<forall>i. sn_pc (mt_s s i) \<in> {SOut, SGone}"
  shows "(rc_pc (mt_r s) = RWaiting \<and> \<not> rc_woken (mt_r s) \<longrightarrow>
      mp_queue (mt_ch s) = [] \<and> rc_stg (mt_r s) = [] \<and> 0 < mp_senders (mt_ch s) \<and>
      (parked_as s i \<noteq> None \<longrightarrow> (\<exists>j. parked_as s j \<noteq> None \<and> sn_woken (mt_s s j)))) \<and>
    (rc_pc (mt_r s) = RGone \<longrightarrow> parked_as s i \<noteq> None \<longrightarrow> sn_woken (mt_s s i))"
proof -
  have inv: "mt_inv s" by (rule mt.reachable_inv [OF assms(1)])
  have quiet: "sn_pc (mt_s s j) = SOut \<or> sn_pc (mt_s s j) = SGone" for j using assms(2) by auto
  have spc: "spcs (mt_s s) = (\<lambda>_. Quiet)"
  proof
    show "spcs (mt_s s) j = Quiet" for j using quiet [of j] by (auto simp: spcs_def)
  qed
  have flight: "\<not> s_flight (sn_pc (mt_s s j))" for j using quiet [of j] by auto
  have woken: "sn_woken (mt_s s j)" if "roused s j" "rc_pc (mt_r s) = RWaiting \<or> rc_pc (mt_r s) = RGone" for j
  proof -
    have "s_wakes (sn_pc (mt_s s j')) = {}" for j' using quiet [of j'] by auto
    then show ?thesis using that by (auto simp: roused_def pending_def)
  qed
  have W: "waits (mp_wq (mt_ch s)) (mp_selected (mt_ch s)) (mp_next_id (mt_ch s)) (mp_closed (mt_ch s))
      (parked_as s) (\<lambda>i. sn_cur (mt_s s i)) (roused s)"
    using inv by (simp add: mt_inv_def wait_inv_def)
  have ids: "mp_selected (mt_ch s) \<inter> fst ` set (mp_wq (mt_ch s)) = {}"
    using inv by (simp add: mt_inv_def data_inv_def chan_ok_def wait_ids_ok_def)
  have asleep: "mp_queue (mt_ch s) = [] \<and> 0 < mp_senders (mt_ch s)" if "rc_pc (mt_r s) = RWaiting" "\<not> rc_woken (mt_r s)"
  proof -
    have "\<not> r_cond b (mt_ch s)" for b
      using slot_hss_told [of "mp_recv (mt_ch s)" "rc_cur (mt_r s)" "rc_woken (mt_r s)"] mt_handshake [OF assms(1), of b] that spc
      by (cases "r_cond b (mt_ch s)") (simp_all add: mt_hs_def)
    from this [of True] this [of False] show ?thesis by (simp add: r_cond_def)
  qed
  have "\<exists>j. parked_as s j \<noteq> None \<and> sn_woken (mt_s s j)"
    if r: "rc_pc (mt_r s) = RWaiting" "\<not> rc_woken (mt_r s)" and i: "parked_as s i \<noteq> None"
  proof (cases "mp_wq (mt_ch s) = []")
    case True
    then have "roused s i" using waitsD(2) [OF W] i by auto
    then show ?thesis using woken r i by blast
  next
    case False
    then obtain k where k: "k \<in> mp_selected (mt_ch s)"
      using inv r asleep flight by (auto simp: mt_inv_def progress_inv_def)
    then obtain j where j: "parked_as s j = Some k" using waitsD(3) [OF W] by blast
    have "(k, sn_cur (mt_s s j)) \<notin> set (mp_wq (mt_ch s))" using ids k by force
    then have "roused s j" using waitsD(2) [OF W j] by blast
    then show ?thesis using woken r j by blast
  qed
  moreover have "sn_woken (mt_s s i)" if r: "rc_pc (mt_r s) = RGone" and i: "parked_as s i \<noteq> None"
  proof -
    have "mp_wq (mt_ch s) = []" using inv r by (simp add: mt_inv_def shut_inv_def)
    then have "roused s i" using waitsD(2) [OF W] i by auto
    then show ?thesis using woken r by blast
  qed
  moreover have "rc_stg (mt_r s) = []" if "rc_pc (mt_r s) = RWaiting" using inv that by (simp add: mt_inv_def recv_inv_def)
  ultimately show ?thesis using asleep by blast
qed

theorem mpsc_threads_no_lost_wakeup_witness:
  "\<exists>n t. reach (mt_init 1) mt_step n t \<and> rc_pc (mt_r t) = RWaiting \<and> parked_as t 1 = Some 0 \<and>
     mp_queue (mt_ch t) = ([] :: nat list) \<and> (\<exists>j. parked_as t j \<noteq> None \<and> sn_woken (mt_s t j))"
proof -
  obtain n :: nat and t :: "nat mt_sys" where t: "reach (mt_init 1) mt_step n t" "rc_pc (mt_r t) = RWaiting"
    "\<not> rc_woken (mt_r t)" "parked_as t 1 = Some 0" "\<forall>i. sn_pc (mt_s t i) \<in> {SOut, SGone}" by (rule mt_run_reach)
  from mpsc_threads_no_lost_wakeup [OF t(1,5), of 1] t(2-4) t(1) show ?thesis by auto
qed


end
