(* ===== verification/Blocking.thy ===== *)
theory Blocking
  imports Ring_System
begin

text \<open>
  \<open>block_on\<close> of \<open>src/src/blocking.rs\<close>, the poll loop that parks the thread between polls, and the
  blocking calls of the ring buffer built on it (\<open>src/src/site_d/ringbuf.rs\<close>), down to its \<open>io::Write\<close>
  and \<open>io::Read\<close>. The theorems compose the loop, the ring and the waiter slots: the wake a blocked call
  waits for comes exactly from the call of the other side that ends its wait.
\<close>

section \<open>Parking and polling\<close>

text \<open>
  What other threads do while this one is parked is a list of moves on the shared state; a move yields
  the wakers it calls, and a flag tells whether the park also returns for no reason, which
  \<open>thread::park\<close> permits. Waking the thread's waker stores the park token: a thread that holds it does
  not park. A thread that is parked when the moves are used up stays parked: \<open>None\<close>.
\<close>

type_synonym 's move = "bool \<times> ('s \<Rightarrow> waker list \<times> 's)"

fun park :: "waker \<Rightarrow> bool \<Rightarrow> 's move list \<Rightarrow> 's \<Rightarrow> ('s move list \<times> 's) option" where
  "park w True moves st = Some (moves, st)"
| "park w False [] st = None"
| "park w False ((spurious, move) # moves) st =
     (let (ws, st') = move st in park w (spurious \<or> w \<in> set ws) moves st')"

partial_function (option) block_on ::
  "('f \<Rightarrow> waker \<Rightarrow> 's \<Rightarrow> ('o poll \<times> 'f \<times> waker list \<times> 's) res) \<Rightarrow> waker \<Rightarrow> 's move list \<Rightarrow> 'f \<Rightarrow> 's
   \<Rightarrow> ('o \<times> 's move list \<times> 's) res option" where
  "block_on poll w moves fut st =
     (case poll fut w st of
        Inl e \<Rightarrow> Some (Inl e)
      | Inr (r, fut', ws, st') \<Rightarrow>
          (case r of
             Ready out \<Rightarrow> Some (Inr (out, moves, st'))
           | Pending \<Rightarrow>
               (case park w (w \<in> set ws) moves st' of
                  None \<Rightarrow> None
                | Some (moves', st'') \<Rightarrow> block_on poll w moves' fut' st'')))"

section \<open>The blocking calls of the ring\<close>

text \<open>The ring with both halves. \<open>push\<close> and \<open>pop\<close> are async functions: their first poll tries once, then awaits the future.\<close>

type_synonym 'a ring_world = "'a ring_shared \<times> half \<times> half"

datatype 'a push_task = PushStart 'a | PushAwait "'a option"

fun push_task_poll ::
  "'a push_task \<Rightarrow> waker \<Rightarrow> 'a ring_world \<Rightarrow> (unit poll \<times> 'a push_task \<times> waker list \<times> 'a ring_world) res" where
  "push_task_poll (PushStart v) w (sh, p, c) =
     rbind (push_start v sh p) (\<lambda>(r, ws, sh1, p1).
       case r of
         None \<Rightarrow> Inr (Ready (), PushAwait None, ws, sh1, p1, c)
       | Some v \<Rightarrow>
           rbind (push_poll (Some v) w sh1 p1) (\<lambda>(r2, fut, ws2, sh2, p2).
             Inr (r2, PushAwait fut, ws @ ws2, sh2, p2, c)))"
| "push_task_poll (PushAwait fut) w (sh, p, c) =
     rbind (push_poll fut w sh p) (\<lambda>(r, fut', ws, sh1, p1). Inr (r, PushAwait fut', ws, sh1, p1, c))"

definition push_blocking ::
  "'a \<Rightarrow> waker \<Rightarrow> 'a ring_world move list \<Rightarrow> 'a ring_world \<Rightarrow> (unit \<times> 'a ring_world move list \<times> 'a ring_world) res option" where
  "push_blocking v w moves st = block_on push_task_poll w moves (PushStart v) st"

datatype pop_task = PopStart | PopAwait

fun pop_task_poll ::
  "pop_task \<Rightarrow> waker \<Rightarrow> 'a ring_world \<Rightarrow> ('a poll \<times> pop_task \<times> waker list \<times> 'a ring_world) res" where
  "pop_task_poll PopStart w (sh, p, c) =
     rbind (pop_start sh c) (\<lambda>(r, ws, sh1, c1).
       case r of
         Some v \<Rightarrow> Inr (Ready v, PopAwait, ws, sh1, p, c1)
       | None \<Rightarrow>
           rbind (pop_poll w sh1 c1) (\<lambda>(r2, ws2, sh2, c2). Inr (r2, PopAwait, ws @ ws2, sh2, p, c2)))"
| "pop_task_poll PopAwait w (sh, p, c) =
     rbind (pop_poll w sh c) (\<lambda>(r, ws, sh1, c1). Inr (r, PopAwait, ws, sh1, p, c1))"

definition pop_blocking ::
  "waker \<Rightarrow> 'a ring_world move list \<Rightarrow> 'a ring_world \<Rightarrow> ('a \<times> 'a ring_world move list \<times> 'a ring_world) res option" where
  "pop_blocking w moves st = block_on pop_task_poll w moves PopStart st"

text \<open>The slice calls likewise.\<close>

datatype 'a push_slice_task = PushSliceStart "'a list" | PushSliceAwait "'a push_slice_fut"

fun push_slice_task_poll ::
  "'a push_slice_task \<Rightarrow> waker \<Rightarrow> 'a ring_world \<Rightarrow> (unit poll \<times> 'a push_slice_task \<times> waker list \<times> 'a ring_world) res" where
  "push_slice_task_poll (PushSliceStart items) w (sh, p, c) =
     rbind (push_slice_start items sh p) (\<lambda>(r, fut, ws, sh1, p1).
       case r of
         Ready n \<Rightarrow> Inr (Ready (), PushSliceAwait fut, ws, sh1, p1, c)
       | Pending \<Rightarrow>
           rbind (push_slice_poll fut w sh1 p1) (\<lambda>(r2, fut2, ws2, sh2, p2).
             Inr (r2, PushSliceAwait fut2, ws @ ws2, sh2, p2, c)))"
| "push_slice_task_poll (PushSliceAwait fut) w (sh, p, c) =
     rbind (push_slice_poll fut w sh p) (\<lambda>(r, fut', ws, sh1, p1). Inr (r, PushSliceAwait fut', ws, sh1, p1, c))"

definition push_slice_blocking ::
  "'a list \<Rightarrow> waker \<Rightarrow> 'a ring_world move list \<Rightarrow> 'a ring_world \<Rightarrow> (unit \<times> 'a ring_world move list \<times> 'a ring_world) res option" where
  "push_slice_blocking items w moves st = block_on push_slice_task_poll w moves (PushSliceStart items) st"

datatype 'a pop_slice_task = PopSliceStart nat | PopSliceAwait "'a pop_slice_fut"

fun pop_slice_task_poll ::
  "'a pop_slice_task \<Rightarrow> waker \<Rightarrow> 'a ring_world \<Rightarrow> ('a list poll \<times> 'a pop_slice_task \<times> waker list \<times> 'a ring_world) res" where
  "pop_slice_task_poll (PopSliceStart n) w (sh, p, c) =
     rbind (pop_slice_start n sh c) (\<lambda>(r, fut, ws, sh1, c1).
       case r of
         Ready m \<Rightarrow> Inr (Ready (qsf_popped fut), PopSliceAwait fut, ws, sh1, p, c1)
       | Pending \<Rightarrow>
           rbind (pop_slice_poll fut w sh1 c1) (\<lambda>(r2, fut2, ws2, sh2, c2).
             Inr (case r2 of Ready _ \<Rightarrow> Ready (qsf_popped fut2) | Pending \<Rightarrow> Pending,
                  PopSliceAwait fut2, ws @ ws2, sh2, p, c2)))"
| "pop_slice_task_poll (PopSliceAwait fut) w (sh, p, c) =
     rbind (pop_slice_poll fut w sh c) (\<lambda>(r, fut', ws, sh1, c1).
       Inr (case r of Ready _ \<Rightarrow> Ready (qsf_popped fut') | Pending \<Rightarrow> Pending, PopSliceAwait fut', ws, sh1, p, c1))"

definition pop_slice_blocking ::
  "nat \<Rightarrow> waker \<Rightarrow> 'a ring_world move list \<Rightarrow> 'a ring_world \<Rightarrow> ('a list \<times> 'a ring_world move list \<times> 'a ring_world) res option" where
  "pop_slice_blocking n w moves st = block_on pop_slice_task_poll w moves (PopSliceStart n) st"

text \<open>\<open>io::Write\<close> for the producer and \<open>io::Read\<close> for the consumer; both never return an \<open>Err\<close>.\<close>

definition io_write ::
  "'a list \<Rightarrow> waker \<Rightarrow> 'a ring_world move list \<Rightarrow> 'a ring_world \<Rightarrow> (nat \<times> 'a ring_world move list \<times> 'a ring_world) res option" where
  "io_write buf w moves st =
     (if buf = [] then Some (Inr (0, moves, st))
      else
        (case st of (sh, p, c) \<Rightarrow>
           (case try_push_slice buf sh p of
              Inl e \<Rightarrow> Some (Inl e)
            | Inr (n, ws, sh1, p1) \<Rightarrow>
                if n > 0 then Some (Inr (n, moves, sh1, p1, c))
                else
                  (case push_blocking (hd buf) w moves (sh1, p1, c) of
                     None \<Rightarrow> None
                   | Some (Inl e) \<Rightarrow> Some (Inl e)
                   | Some (Inr (_, moves', sh2, p2, c2)) \<Rightarrow>
                       Some (rbind (try_push_slice (tl buf) sh2 p2) (\<lambda>(additional, ws2, sh3, p3).
                         Inr (1 + additional, moves', sh3, p3, c2)))))))"

definition io_flush :: "unit res" where
  "io_flush = Inr ()"

definition io_read ::
  "nat \<Rightarrow> waker \<Rightarrow> 'a ring_world move list \<Rightarrow> 'a ring_world \<Rightarrow> ('a list \<times> 'a ring_world move list \<times> 'a ring_world) res option" where
  "io_read len w moves st =
     (if len = 0 then Some (Inr ([], moves, st))
      else
        (case st of (sh, p, c) \<Rightarrow>
           (case try_pop_slice len sh c of
              Inl e \<Rightarrow> Some (Inl e)
            | Inr (xs, ws, sh1, c1) \<Rightarrow>
                if length xs > 0 then Some (Inr (xs, moves, sh1, p, c1))
                else
                  (case pop_blocking w moves (sh1, p, c1) of
                     None \<Rightarrow> None
                   | Some (Inl e) \<Rightarrow> Some (Inl e)
                   | Some (Inr (x, moves', sh2, p2, c2)) \<Rightarrow>
                       Some (rbind (try_pop_slice (len - 1) sh2 c2) (\<lambda>(ys, ws2, sh3, c3).
                         Inr (x # ys, moves', sh3, p2, c3)))))))"

section \<open>What the other side does\<close>

text \<open>
  While the producer is blocked the consumer pops or idles, and while the consumer is blocked the
  producer pushes or idles.
\<close>

fun pop_move :: "'a ring_world \<Rightarrow> waker list \<times> 'a ring_world" where
  "pop_move (sh, p, c) = (case try_pop sh c of Inl e \<Rightarrow> ([], sh, p, c) | Inr (r, ws, sh1, c1) \<Rightarrow> (ws, sh1, p, c1))"

fun push_move :: "'a \<Rightarrow> 'a ring_world \<Rightarrow> waker list \<times> 'a ring_world" where
  "push_move v (sh, p, c) = (case try_push v sh p of Inl e \<Rightarrow> ([], sh, p, c) | Inr (r, ws, sh1, p1) \<Rightarrow> (ws, sh1, p1, c))"

definition consumer_act :: "bool \<times> bool \<Rightarrow> 'a ring_world move" where
  "consumer_act a = (fst a, if snd a then pop_move else (\<lambda>st. ([], st)))"

definition producer_act :: "bool \<times> 'a option \<Rightarrow> 'a ring_world move" where
  "producer_act a = (fst a, case snd a of Some v \<Rightarrow> push_move v | None \<Rightarrow> (\<lambda>st. ([], st)))"

text \<open>What a parked thread does next.\<close>

definition resume ::
  "('f \<Rightarrow> waker \<Rightarrow> 's \<Rightarrow> ('o poll \<times> 'f \<times> waker list \<times> 's) res) \<Rightarrow> waker \<Rightarrow> 's move list \<Rightarrow> 'f \<Rightarrow> 's
   \<Rightarrow> ('o \<times> 's move list \<times> 's) res option" where
  "resume poll w moves fut st =
     (case park w False moves st of None \<Rightarrow> None | Some (moves', st') \<Rightarrow> block_on poll w moves' fut st')"

lemma resume_simps:
  "resume poll w [] fut st = None"
  "resume poll w ((b, move) # moves) fut st =
     (case move st of (ws, st') \<Rightarrow> if b \<or> w \<in> set ws then block_on poll w moves fut st' else resume poll w moves fut st')"
  by (auto simp: resume_def split: prod.splits)

lemma block_on_ready: "poll fut w st = Inr (Ready r, fut', ws, st') \<Longrightarrow> block_on poll w moves fut st = Some (Inr (r, moves, st'))"
  by (subst block_on.simps) simp

lemma block_on_pending:
  "poll fut w st = Inr (Pending, fut', ws, st') \<Longrightarrow> w \<notin> set ws \<Longrightarrow> block_on poll w moves fut st = resume poll w moves fut' st'"
  by (subst block_on.simps) (simp add: resume_def)

section \<open>Blocking push\<close>

lemma push_await_wp:
  assumes inv: "ring_inv k sh p c xs"
  shows "length xs < 2 ^ k \<Longrightarrow> \<exists>sh' p'. block_on push_task_poll w moves (PushAwait (Some v)) (sh, p, c) = Some (Inr ((), moves, sh', p', c)) \<and>
      ring_inv k sh' p' c (xs @ [v])"
    "\<not> length xs < 2 ^ k \<Longrightarrow> \<exists>sh' p'. block_on push_task_poll w moves (PushAwait (Some v)) (sh, p, c) =
      resume push_task_poll w moves (PushAwait (Some v)) (sh', p', c) \<and> ring_inv k sh' p' c xs \<and> parked_on w (rb_pslot sh')"
proof -
  obtain r fut ws sh' p' where p: "push_poll (Some v) w sh p = Inr (r, fut, ws, sh', p')"
    and post: "if length xs < 2 ^ k
      then r = Ready () \<and> fut = None \<and> ring_inv k sh' p' c (xs @ [v]) \<and> ws = fst (slot_signal (rb_cslot sh)) \<and> rb_pslot sh' = rb_pslot sh
      else r = Pending \<and> fut = Some v \<and> ring_inv k sh' p' c xs \<and> ws = [] \<and> rb_cslot sh' = rb_cslot sh \<and> parked_on w (rb_pslot sh')"
    using push_poll_wp [OF inv, of v w] by (auto simp: wp_ex)
  have t: "push_task_poll (PushAwait (Some v)) w (sh, p, c) = Inr (r, PushAwait fut, ws, sh', p', c)" by (simp add: p)
  show "\<exists>sh' p'. block_on push_task_poll w moves (PushAwait (Some v)) (sh, p, c) = Some (Inr ((), moves, sh', p', c)) \<and>
      ring_inv k sh' p' c (xs @ [v])" if "length xs < 2 ^ k"
    using post that t by (auto simp: block_on_ready)
  show "\<exists>sh' p'. block_on push_task_poll w moves (PushAwait (Some v)) (sh, p, c) =
      resume push_task_poll w moves (PushAwait (Some v)) (sh', p', c) \<and> ring_inv k sh' p' c xs \<and> parked_on w (rb_pslot sh')"
    if "\<not> length xs < 2 ^ k"
    using post that t by (auto simp: block_on_pending)
qed

lemma ring_length_le: "ring_inv k sh p c xs \<Longrightarrow> length xs \<le> 2 ^ k"
  using ring_inv_index_simps by blast

lemma push_resume:
  "ring_inv k sh p c xs \<Longrightarrow> length xs = 2 ^ k \<Longrightarrow> parked_on w (rb_pslot sh) \<Longrightarrow>
   if True \<in> snd ` set acts
   then \<exists>rest sh' p' c'. resume push_task_poll w (map consumer_act acts) (PushAwait (Some v)) (sh, p, c) =
     Some (Inr ((), map consumer_act rest, sh', p', c')) \<and> ring_inv k sh' p' c' (tl xs @ [v])
   else resume push_task_poll w (map consumer_act acts) (PushAwait (Some v)) (sh, p, c) = None"
proof (induction acts arbitrary: sh p)
  case Nil
  then show ?case by (simp add: resume_simps)
next
  case (Cons a acts)
  obtain b pops where a: "a = (b, pops)" by (cases a)
  show ?case
  proof (cases pops)
    case True
    obtain x ys where xs: "xs = x # ys" using Cons.prems(2) by (cases xs) auto
    obtain sh1 c1 where pop: "try_pop sh c = Inr (Some x, [w], sh1, c1)" "ring_inv k sh1 p c1 ys"
      using try_pop_inner_wp [OF Cons.prems(1), of True] parked_signal [OF Cons.prems(3)]
      by (auto simp: wp_ex try_pop_def xs)
    have "length ys < 2 ^ k" using Cons.prems(2) xs by simp
    from push_await_wp(1) [OF pop(2) this, of w "map consumer_act acts" v]
    show ?thesis using a True by (auto simp: resume_simps consumer_act_def pop(1) xs)
  next
    case False
    have idle: "resume push_task_poll w (map consumer_act (a # acts)) (PushAwait (Some v)) (sh, p, c) =
      (if b then block_on push_task_poll w (map consumer_act acts) (PushAwait (Some v)) (sh, p, c)
       else resume push_task_poll w (map consumer_act acts) (PushAwait (Some v)) (sh, p, c))"
      using a False by (simp add: resume_simps consumer_act_def)
    obtain sh1 p1 where again: "block_on push_task_poll w (map consumer_act acts) (PushAwait (Some v)) (sh, p, c) =
        resume push_task_poll w (map consumer_act acts) (PushAwait (Some v)) (sh1, p1, c)"
      "ring_inv k sh1 p1 c xs" "parked_on w (rb_pslot sh1)"
      using push_await_wp(2) [OF Cons.prems(1), of w "map consumer_act acts" v] Cons.prems(2) by auto
    show ?thesis
      using Cons.IH [OF Cons.prems] Cons.IH [OF again(2) Cons.prems(2) again(3)] idle again(1) a False
      by (cases b) auto
  qed
qed

lemma push_blocking_wp:
  assumes inv: "ring_inv k sh p c xs"
  shows "if length xs < 2 ^ k \<or> True \<in> snd ` set acts
    then \<exists>rest sh' p' c'. push_blocking v w (map consumer_act acts) (sh, p, c) = Some (Inr ((), map consumer_act rest, sh', p', c')) \<and>
      ring_inv k sh' p' c' ((if length xs < 2 ^ k then xs else tl xs) @ [v])
    else push_blocking v w (map consumer_act acts) (sh, p, c) = None"
proof (cases "length xs < 2 ^ k")
  case True
  then obtain ws sh1 p1 where t: "try_push v sh p = Inr (None, ws, sh1, p1)" "ring_inv k sh1 p1 c (xs @ [v])"
    using try_push_wp [OF inv, of v] by (auto simp: wp_ex)
  then have "push_task_poll (PushStart v) w (sh, p, c) = Inr (Ready (), PushAwait None, ws, sh1, p1, c)" by (simp add: push_start_def)
  from block_on_ready [where poll = push_task_poll, OF this, of "map consumer_act acts"] show ?thesis using True t(2) by (auto simp: push_blocking_def)
next
  case False
  obtain p1 where t: "try_push v sh p = Inr (Some v, [], sh, p1)" "ring_inv k sh p1 c xs"
    using try_push_wp [OF inv, of v] False by (auto simp: wp_ex)
  obtain sh2 p2 where q: "push_poll (Some v) w sh p1 = Inr (Pending, Some v, [], sh2, p2)"
    "ring_inv k sh2 p2 c xs" "parked_on w (rb_pslot sh2)"
    using push_poll_wp [OF t(2), of v w] False by (auto simp: wp_ex)
  have "push_task_poll (PushStart v) w (sh, p, c) = Inr (Pending, PushAwait (Some v), [], sh2, p2, c)"
    by (simp add: push_start_def t(1) q(1))
  from block_on_pending [where poll = push_task_poll, OF this, of "map consumer_act acts"]
  have "push_blocking v w (map consumer_act acts) (sh, p, c) = resume push_task_poll w (map consumer_act acts) (PushAwait (Some v)) (sh2, p2, c)"
    by (simp add: push_blocking_def)
  moreover have "length xs = 2 ^ k" using False ring_length_le [OF inv] by simp
  ultimately show ?thesis using push_resume [OF q(2) _ q(3), of acts v] False by simp
qed

section \<open>Blocking pop\<close>

lemma pop_await_wp:
  assumes inv: "ring_inv k sh p c xs"
  shows "xs \<noteq> [] \<Longrightarrow> \<exists>sh' c'. block_on pop_task_poll w moves PopAwait (sh, p, c) = Some (Inr (hd xs, moves, sh', p, c')) \<and>
      ring_inv k sh' p c' (tl xs)"
    "xs = [] \<Longrightarrow> \<exists>sh' c'. block_on pop_task_poll w moves PopAwait (sh, p, c) =
      resume pop_task_poll w moves PopAwait (sh', p, c') \<and> ring_inv k sh' p c' [] \<and> parked_on w (rb_cslot sh')"
proof -
  obtain r ws sh' c' where p: "pop_poll w sh c = Inr (r, ws, sh', c')"
    and post: "case xs of
      x # ys \<Rightarrow> r = Ready x \<and> ring_inv k sh' p c' ys \<and> ws = fst (slot_signal (rb_pslot sh)) \<and> rb_cslot sh' = rb_cslot sh
    | [] \<Rightarrow> r = Pending \<and> ring_inv k sh' p c' [] \<and> ws = [] \<and> rb_pslot sh' = rb_pslot sh \<and> parked_on w (rb_cslot sh')"
    using pop_poll_wp [OF inv, of w] by (auto simp: wp_ex)
  have t: "pop_task_poll PopAwait w (sh, p, c) = Inr (r, PopAwait, ws, sh', p, c')" by (simp add: p)
  show "\<exists>sh' c'. block_on pop_task_poll w moves PopAwait (sh, p, c) = Some (Inr (hd xs, moves, sh', p, c')) \<and>
      ring_inv k sh' p c' (tl xs)" if "xs \<noteq> []"
    using post that t by (auto simp: block_on_ready split: list.splits)
  show "\<exists>sh' c'. block_on pop_task_poll w moves PopAwait (sh, p, c) =
      resume pop_task_poll w moves PopAwait (sh', p, c') \<and> ring_inv k sh' p c' [] \<and> parked_on w (rb_cslot sh')" if "xs = []"
    using post that t by (auto simp: block_on_pending)
qed

lemma map_filter_simp: "List.map_filter snd ((b, y) # acts) = (case y of Some v \<Rightarrow> v # List.map_filter snd acts | None \<Rightarrow> List.map_filter snd acts)"
  by (simp add: List.map_filter_def split: option.splits)

lemma pop_resume:
  "ring_inv k sh p c [] \<Longrightarrow> parked_on w (rb_cslot sh) \<Longrightarrow>
   case List.map_filter snd acts of
     v # _ \<Rightarrow> \<exists>rest sh' p' c'. resume pop_task_poll w (map producer_act acts) PopAwait (sh, p, c) =
       Some (Inr (v, map producer_act rest, sh', p', c')) \<and> ring_inv k sh' p' c' []
   | [] \<Rightarrow> resume pop_task_poll w (map producer_act acts) PopAwait (sh, p, c) = None"
proof (induction acts arbitrary: sh c)
  case Nil
  then show ?case by (simp add: resume_simps List.map_filter_def)
next
  case (Cons a acts)
  obtain b y where a: "a = (b, y)" by (cases a)
  show ?case
  proof (cases y)
    case (Some v)
    obtain sh1 p1 where push: "try_push v sh p = Inr (None, [w], sh1, p1)" "ring_inv k sh1 p1 c [v]"
      using try_push_wp [OF Cons.prems(1), of v] parked_signal [OF Cons.prems(2)] by (auto simp: wp_ex)
    from pop_await_wp(1) [OF push(2), of w "map producer_act acts"]
    show ?thesis using a Some by (auto simp: resume_simps producer_act_def push(1) map_filter_simp)
  next
    case None
    have idle: "resume pop_task_poll w (map producer_act (a # acts)) PopAwait (sh, p, c) =
      (if b then block_on pop_task_poll w (map producer_act acts) PopAwait (sh, p, c)
       else resume pop_task_poll w (map producer_act acts) PopAwait (sh, p, c))"
      using a None by (simp add: resume_simps producer_act_def)
    obtain sh1 c1 where again: "block_on pop_task_poll w (map producer_act acts) PopAwait (sh, p, c) =
        resume pop_task_poll w (map producer_act acts) PopAwait (sh1, p, c1)"
      "ring_inv k sh1 p c1 []" "parked_on w (rb_cslot sh1)"
      using pop_await_wp(2) [OF Cons.prems(1), of w "map producer_act acts"] by auto
    show ?thesis
      using Cons.IH [OF Cons.prems] Cons.IH [OF again(2,3)] idle again(1) a None
      by (cases b; cases "List.map_filter snd acts") (simp_all add: map_filter_simp)
  qed
qed

lemma pop_blocking_wp:
  assumes inv: "ring_inv k sh p c xs"
  shows "case xs @ List.map_filter snd acts of
     v # _ \<Rightarrow> \<exists>rest sh' p' c'. pop_blocking w (map producer_act acts) (sh, p, c) = Some (Inr (v, map producer_act rest, sh', p', c')) \<and>
       ring_inv k sh' p' c' (tl xs)
   | [] \<Rightarrow> pop_blocking w (map producer_act acts) (sh, p, c) = None"
proof (cases xs)
  case (Cons x ys)
  then obtain ws sh1 c1 where t: "try_pop sh c = Inr (Some x, ws, sh1, c1)" "ring_inv k sh1 p c1 ys"
    using try_pop_inner_wp [OF inv, of True] by (auto simp: wp_ex try_pop_def)
  then have "pop_task_poll PopStart w (sh, p, c) = Inr (Ready x, PopAwait, ws, sh1, p, c1)" by (simp add: pop_start_def)
  from block_on_ready [where poll = pop_task_poll, OF this, of "map producer_act acts"] show ?thesis
    using Cons t(2) by (auto simp: pop_blocking_def)
next
  case Nil
  obtain c1 where t: "try_pop sh c = Inr (None, [], sh, c1)" "ring_inv k sh p c1 []"
    using try_pop_inner_wp [OF inv, of True] Nil by (auto simp: wp_ex try_pop_def)
  obtain sh2 c2 where q: "pop_poll w sh c1 = Inr (Pending, [], sh2, c2)" "ring_inv k sh2 p c2 []" "parked_on w (rb_cslot sh2)"
    using pop_poll_wp [OF t(2), of w] by (auto simp: wp_ex)
  have "pop_task_poll PopStart w (sh, p, c) = Inr (Pending, PopAwait, [], sh2, p, c2)" by (simp add: pop_start_def t(1) q(1))
  from block_on_pending [where poll = pop_task_poll, OF this, of "map producer_act acts"]
  have "pop_blocking w (map producer_act acts) (sh, p, c) = resume pop_task_poll w (map producer_act acts) PopAwait (sh2, p, c2)"
    by (simp add: pop_blocking_def)
  then show ?thesis using pop_resume [OF q(2,3), of acts] Nil by (cases "List.map_filter snd acts") simp_all
qed

section \<open>Properties\<close>

text \<open>
  C36. A blocking push returns exactly when the ring has room or the consumer pops at some point while
  it is blocked, however the parks return; the value then stands behind the others. A blocking pop
  returns exactly when the ring holds a value or the producer pushes one meanwhile, and returns the
  oldest. So \<open>block_on\<close> neither misses the wake that ends the wait nor returns early.
\<close>

theorem ring_blocking_returns:
  assumes "ring_inv k sh p c xs"
  shows "(if length xs < 2 ^ k \<or> True \<in> snd ` set acts
      then \<exists>rest sh' p' c'. push_blocking v w (map consumer_act acts) (sh, p, c) = Some (Inr ((), map consumer_act rest, sh', p', c')) \<and>
        ring_inv k sh' p' c' ((if length xs < 2 ^ k then xs else tl xs) @ [v])
      else push_blocking v w (map consumer_act acts) (sh, p, c) = None) \<and>
    (case xs @ List.map_filter snd pacts of
       x # _ \<Rightarrow> \<exists>rest sh' p' c'. pop_blocking w (map producer_act pacts) (sh, p, c) = Some (Inr (x, map producer_act rest, sh', p', c')) \<and>
         ring_inv k sh' p' c' (tl xs)
     | [] \<Rightarrow> pop_blocking w (map producer_act pacts) (sh, p, c) = None)"
  using push_blocking_wp [OF assms] pop_blocking_wp [OF assms] by (intro conjI)

theorem ring_blocking_returns_witness:
  "\<exists>(sh :: nat ring_shared) p c. ring_inv 1 sh p c [] \<and>
     (\<exists>rest sh' p' c'. pop_blocking 3 (map producer_act [(True, None), (False, Some 5)]) (sh, p, c) =
        Some (Inr (5, map producer_act rest, sh', p', c')))"
proof -
  obtain sh :: "nat ring_shared" and p c where inv: "ring_inv 1 sh p c []" by (rule ring_fresh)
  from ring_blocking_returns [OF inv, of "[]" 0 3 "[(True, None), (False, Some 5)]"]
  have "\<exists>rest sh' p' c'. pop_blocking 3 (map producer_act [(True, None), (False, Some 5)]) (sh, p, c) =
        Some (Inr (5, map producer_act rest, sh', p', c'))" by (simp add: List.map_filter_def) blast
  with inv show ?thesis by blast
qed

text \<open>
  C37. \<open>io::Write\<close> and \<open>io::Read\<close> over the ring transfer a byte stream: with room, or a pop of the
  consumer while blocked, a write of a non-empty buffer accepts at least one byte and appends exactly
  the bytes it reports; with data, or a push of the producer while blocked, a read into a non-empty
  buffer returns at least one byte, and what it returns is what the ring held first.
\<close>

theorem ring_io_stream:
  assumes inv: "ring_inv k sh p c xs"
  shows "(buf \<noteq> [] \<and> (length xs < 2 ^ k \<or> True \<in> snd ` set acts) \<longrightarrow>
      (\<exists>n rest sh' p' c'. io_write buf w (map consumer_act acts) (sh, p, c) = Some (Inr (n, rest, sh', p', c')) \<and>
        0 < n \<and> n \<le> length buf \<and> ring_inv k sh' p' c' ((if length xs < 2 ^ k then xs else tl xs) @ take n buf))) \<and>
    (0 < len \<and> xs @ List.map_filter snd pacts \<noteq> [] \<longrightarrow>
      (\<exists>ys rest sh' p' c'. io_read len w (map producer_act pacts) (sh, p, c) = Some (Inr (ys, rest, sh', p', c')) \<and>
        ys \<noteq> [] \<and> length ys \<le> len \<and> (\<exists>zs. ring_inv k sh' p' c' zs \<and>
          (if xs = [] then ys @ zs = [hd (List.map_filter snd pacts)] else ys @ zs = xs))))"
proof (intro conjI impI; elim conjE)
  assume buf: "buf \<noteq> []" and ret: "length xs < 2 ^ k \<or> True \<in> snd ` set acts"
  obtain n ws sh1 p1 where t: "try_push_slice buf sh p = Inr (n, ws, sh1, p1)" "n \<le> length buf" "n \<le> 2 ^ k - length xs"
    "ring_inv k sh1 p1 c (xs @ take n buf)" "length xs < 2 ^ k \<longrightarrow> 0 < n"
    using try_push_slice_wp [OF inv, of buf] buf by (auto simp: wp_ex)
  show "\<exists>n rest sh' p' c'. io_write buf w (map consumer_act acts) (sh, p, c) = Some (Inr (n, rest, sh', p', c')) \<and>
        0 < n \<and> n \<le> length buf \<and> ring_inv k sh' p' c' ((if length xs < 2 ^ k then xs else tl xs) @ take n buf)"
  proof (cases "0 < n")
    case True
    then show ?thesis using t buf by (auto simp: io_write_def)
  next
    case False
    then have nr: "\<not> length xs < 2 ^ k" and inv1: "ring_inv k sh1 p1 c xs" using t by auto
    obtain rest sh2 p2 c2 where b: "push_blocking (hd buf) w (map consumer_act acts) (sh1, p1, c) = Some (Inr ((), map consumer_act rest, sh2, p2, c2))"
      "ring_inv k sh2 p2 c2 (tl xs @ [hd buf])"
      using push_blocking_wp [OF inv1, of acts "hd buf" w] nr ret by auto
    obtain m ws2 sh3 p3 where s: "try_push_slice (tl buf) sh2 p2 = Inr (m, ws2, sh3, p3)" "m \<le> length (tl buf)"
      "ring_inv k sh3 p3 c2 ((tl xs @ [hd buf]) @ take m (tl buf))"
      using try_push_slice_wp [OF b(2), of "tl buf"] by (auto simp: wp_ex)
    have "io_write buf w (map consumer_act acts) (sh, p, c) = Some (Inr (1 + m, map consumer_act rest, sh3, p3, c2))"
      using buf False t(1) b(1) s(1) by (simp add: io_write_def)
    moreover have "take (1 + m) buf = hd buf # take m (tl buf)" using buf by (cases buf) auto
    ultimately show ?thesis using s nr buf by (cases buf) auto
  qed
next
  assume len: "0 < len" and data: "xs @ List.map_filter snd pacts \<noteq> []"
  obtain ys ws sh1 c1 where t: "try_pop_slice len sh c = Inr (ys, ws, sh1, c1)" "length ys \<le> len" "ys = take (length ys) xs"
    "ring_inv k sh1 p c1 (drop (length ys) xs)" "xs \<noteq> [] \<longrightarrow> ys \<noteq> []"
    using try_pop_slice_wp [OF inv, of len] len by (auto simp: wp_ex)
  show "\<exists>ys rest sh' p' c'. io_read len w (map producer_act pacts) (sh, p, c) = Some (Inr (ys, rest, sh', p', c')) \<and>
        ys \<noteq> [] \<and> length ys \<le> len \<and> (\<exists>zs. ring_inv k sh' p' c' zs \<and>
          (if xs = [] then ys @ zs = [hd (List.map_filter snd pacts)] else ys @ zs = xs))"
  proof (cases "ys = []")
    case False
    then have "io_read len w (map producer_act pacts) (sh, p, c) = Some (Inr (ys, map producer_act pacts, sh1, p, c1))"
      using len t(1) by (simp add: io_read_def)
    moreover have "ys @ drop (length ys) xs = xs" "xs \<noteq> []" using t(3) False by (metis append_take_drop_id, auto)
    ultimately show ?thesis using False t(2,4) by auto
  next
    case True
    then have xs: "xs = []" and inv1: "ring_inv k sh1 p c1 []" using t by auto
    obtain v more where v: "List.map_filter snd pacts = v # more" using data xs by (cases "List.map_filter snd pacts") auto
    obtain rest sh2 p2 c2 where b: "pop_blocking w (map producer_act pacts) (sh1, p, c1) = Some (Inr (v, map producer_act rest, sh2, p2, c2))"
      "ring_inv k sh2 p2 c2 []"
      using pop_blocking_wp [OF inv1, of w pacts] v by auto
    obtain ws2 sh3 c3 where s: "try_pop_slice (len - 1) sh2 c2 = Inr ([], ws2, sh3, c3)" "ring_inv k sh3 p2 c3 []"
      using try_pop_slice_wp [OF b(2), of "len - 1"] by (auto simp: wp_ex)
    have "io_read len w (map producer_act pacts) (sh, p, c) = Some (Inr ([v], map producer_act rest, sh3, p2, c3))"
      using len True t(1) b(1) s(1) by (simp add: io_read_def)
    then show ?thesis using xs v s(2) len by auto
  qed
qed

theorem ring_io_stream_witness:
  "\<exists>(sh :: nat ring_shared) p c. ring_inv 1 sh p c [] \<and>
     (\<exists>n rest sh' p' c'. io_write [4, 5, 6] 0 (map consumer_act []) (sh, p, c) = Some (Inr (n, rest, sh', p', c')) \<and>
        0 < n \<and> ring_inv 1 sh' p' c' (take n [4, 5, 6]))"
proof -
  obtain sh :: "nat ring_shared" and p c where inv: "ring_inv 1 sh p c []" by (rule ring_fresh)
  from ring_io_stream [OF inv, of "[4, 5, 6]" "[]" 0 0 "[]"] have
    "\<exists>n rest sh' p' c'. io_write [4, 5, 6] 0 (map consumer_act []) (sh, p, c) = Some (Inr (n, rest, sh', p', c')) \<and>
        0 < n \<and> ring_inv 1 sh' p' c' (take n [4, 5, 6])" by auto
  with inv show ?thesis by blast
qed

end
