(* ===== verification/Float64.thy ===== *)
theory Float64
  imports Complex_Main "HOL-Library.Word" "HOL-Library.Log_Nat"
begin

text \<open>
  The \<open>f64\<close> of the chart generator: a value is its 64 bits; arithmetic is the exact rational result
  rounded to the nearest double, ties to even; comparisons, \<open>total_cmp\<close>, conversions, decimal
  input and fixed-precision output are those of the Rust standard library. A NaN result is the
  canonical quiet NaN. The logarithm and the powers come from the platform's mathematical library and
  are parameters (\<open>libm\<close>). Text is a list of Unicode code points (\<open>ustr\<close>).
\<close>

section \<open>Text\<close>

type_synonym ustr = "int list"

definition str :: "string \<Rightarrow> ustr" where
  "str s = map of_char s"

lemma str_simps [simp]:
  "str [] = []"
  "str (c # s) = of_char c # str s"
  by (simp_all add: str_def)

section \<open>Bits and values\<close>

type_synonym f64 = "64 word"

definition f_neg :: "f64 \<Rightarrow> bool" where
  "f_neg b \<longleftrightarrow> 2 ^ 63 \<le> uint b"

definition f_mag :: "f64 \<Rightarrow> int" where
  "f_mag b = uint b mod 2 ^ 63"

definition mag_inf :: int where
  "mag_inf = 2047 * 2 ^ 52"

definition is_nan :: "f64 \<Rightarrow> bool" where
  "is_nan b \<longleftrightarrow> mag_inf < f_mag b"

definition is_inf :: "f64 \<Rightarrow> bool" where
  "is_inf b \<longleftrightarrow> f_mag b = mag_inf"

definition is_finite :: "f64 \<Rightarrow> bool" where
  "is_finite b \<longleftrightarrow> f_mag b < mag_inf"

definition f_zero :: "f64 \<Rightarrow> bool" where
  "f_zero b \<longleftrightarrow> f_mag b = 0"

text \<open>
  The value of a magnitude, in units of the smallest subnormal: exponent field 0 is subnormal, above
  it the leading one is implicit.
\<close>

definition mag_units :: "int \<Rightarrow> int" where
  "mag_units m =
     (let e = m div 2 ^ 52 in if e = 0 then m else (2 ^ 52 + m mod 2 ^ 52) * 2 ^ nat (e - 1))"

definition f_val :: "f64 \<Rightarrow> rat" where
  "f_val b = (if f_neg b then -1 else 1) * (of_int (mag_units (f_mag b)) / 2 ^ 1074)"

definition mk_f64 :: "bool \<Rightarrow> int \<Rightarrow> f64" where
  "mk_f64 neg m = word_of_int ((if neg then 2 ^ 63 else 0) + m)"

definition f_nan :: f64 where
  "f_nan = mk_f64 False (mag_inf + 2 ^ 51)"

definition f_inf :: "bool \<Rightarrow> f64" where
  "f_inf neg = mk_f64 neg mag_inf"

definition f_negate :: "f64 \<Rightarrow> f64" where
  "f_negate b = mk_f64 (\<not> f_neg b) (f_mag b)"

section \<open>Rounding\<close>

definition half_even :: "rat \<Rightarrow> int" where
  "half_even q =
     (let f = \<lfloor>q\<rfloor>; d = q - of_int f in
      if d < 1 / 2 then f else if 1 / 2 < d then f + 1 else if even f then f else f + 1)"

text \<open>
  The magnitude nearest to a non-negative rational: \<open>k\<close> is the exponent that leaves 53 significant
  bits (none is dropped below the subnormals); a carry out of the significand moves into the
  exponent field by itself, and beyond the largest double the result is infinite.
\<close>

definition round_mag :: "rat \<Rightarrow> int" where
  "round_mag x =
     (let y = x * 2 ^ 1074; k = nat (bitlen \<lfloor>y\<rfloor> - 53) in
      min mag_inf (int k * 2 ^ 52 + half_even (y / 2 ^ k)))"

definition f_round :: "bool \<Rightarrow> rat \<Rightarrow> f64" where
  "f_round neg0 x = mk_f64 (x < 0 \<or> x = 0 \<and> neg0) (round_mag \<bar>x\<bar>)"

abbreviation lit :: "rat \<Rightarrow> f64" where
  "lit \<equiv> f_round False"

definition of_usize :: "nat \<Rightarrow> f64" where
  "of_usize n = f_round False (of_nat n)"

section \<open>Arithmetic and comparisons\<close>

definition f_add :: "f64 \<Rightarrow> f64 \<Rightarrow> f64" where
  "f_add a b =
     (if is_nan a \<or> is_nan b \<or> is_inf a \<and> is_inf b \<and> f_neg a \<noteq> f_neg b then f_nan
      else if is_inf a then a else if is_inf b then b
      else f_round (f_neg a \<and> f_neg b) (f_val a + f_val b))"

definition f_sub :: "f64 \<Rightarrow> f64 \<Rightarrow> f64" where
  "f_sub a b = f_add a (f_negate b)"

definition f_mul :: "f64 \<Rightarrow> f64 \<Rightarrow> f64" where
  "f_mul a b =
     (if is_nan a \<or> is_nan b \<or> is_inf a \<and> f_zero b \<or> f_zero a \<and> is_inf b then f_nan
      else if is_inf a \<or> is_inf b then f_inf (f_neg a \<noteq> f_neg b)
      else f_round (f_neg a \<noteq> f_neg b) (f_val a * f_val b))"

definition f_div :: "f64 \<Rightarrow> f64 \<Rightarrow> f64" where
  "f_div a b =
     (if is_nan a \<or> is_nan b \<or> is_inf a \<and> is_inf b \<or> f_zero a \<and> f_zero b then f_nan
      else if is_inf a \<or> f_zero b then f_inf (f_neg a \<noteq> f_neg b)
      else if is_inf b then mk_f64 (f_neg a \<noteq> f_neg b) 0
      else f_round (f_neg a \<noteq> f_neg b) (f_val a / f_val b))"

definition f_ord :: "f64 \<Rightarrow> int" where
  "f_ord b = (if f_neg b then - f_mag b else f_mag b)"

definition f_lt :: "f64 \<Rightarrow> f64 \<Rightarrow> bool" where
  "f_lt a b \<longleftrightarrow> \<not> is_nan a \<and> \<not> is_nan b \<and> f_ord a < f_ord b"

definition f_le :: "f64 \<Rightarrow> f64 \<Rightarrow> bool" where
  "f_le a b \<longleftrightarrow> \<not> is_nan a \<and> \<not> is_nan b \<and> f_ord a \<le> f_ord b"

text \<open>
  \<open>total_cmp\<close> compares the bits as signed integers after flipping the lower 63 of a negative number.
\<close>

definition total_key :: "f64 \<Rightarrow> int" where
  "total_key b = (if f_neg b then - f_mag b - 1 else f_mag b)"

definition f_max :: "f64 \<Rightarrow> f64 \<Rightarrow> f64" where
  "f_max a b = (if is_nan a then b else if is_nan b then a else if f_lt a b then b else a)"

definition f_min :: "f64 \<Rightarrow> f64 \<Rightarrow> f64" where
  "f_min a b = (if is_nan a then b else if is_nan b then a else if f_lt b a then b else a)"

definition f_MAX :: f64 where
  "f_MAX = mk_f64 False (mag_inf - 1)"

definition f_MIN :: f64 where
  "f_MIN = mk_f64 True (mag_inf - 1)"

definition f_floor :: "f64 \<Rightarrow> f64" where
  "f_floor a = (if is_finite a then f_round (f_neg a) (of_int \<lfloor>f_val a\<rfloor>) else a)"

definition f_ceil :: "f64 \<Rightarrow> f64" where
  "f_ceil a = (if is_finite a then f_round (f_neg a) (of_int \<lceil>f_val a\<rceil>) else a)"

text \<open>\<open>f64::round\<close> rounds half away from zero.\<close>

definition f_to_int :: "f64 \<Rightarrow> f64" where
  "f_to_int a =
     (if is_finite a
      then f_round (f_neg a)
             (of_int (if f_neg a then - \<lfloor>1 / 2 - f_val a\<rfloor> else \<lfloor>f_val a + 1 / 2\<rfloor>))
      else a)"

text \<open>\<open>as i32\<close> truncates and saturates, and sends a NaN to zero.\<close>

definition to_i32 :: "f64 \<Rightarrow> int" where
  "to_i32 a =
     (if is_nan a then 0
      else if is_inf a then (if f_neg a then - (2 ^ 31) else 2 ^ 31 - 1)
      else let t = (if f_neg a then - \<lfloor>- f_val a\<rfloor> else \<lfloor>f_val a\<rfloor>) in
           max (- (2 ^ 31)) (min (2 ^ 31 - 1) t))"

record libm =
  m_log10 :: "f64 \<Rightarrow> f64"
  m_powf :: "f64 \<Rightarrow> f64 \<Rightarrow> f64"
  m_powi :: "f64 \<Rightarrow> int \<Rightarrow> f64"

section \<open>Decimal output and input\<close>

fun dec_digits :: "int \<Rightarrow> ustr" where
  "dec_digits n = (if n < 10 then [48 + n] else dec_digits (n div 10) @ [48 + n mod 10])"

declare dec_digits.simps [simp del]

definition pad_digits :: "nat \<Rightarrow> int \<Rightarrow> ustr" where
  "pad_digits k n = (let d = dec_digits n in replicate (k - length d) 48 @ d)"

text \<open>\<open>format!("{v:.k}")\<close>.\<close>

definition fmt :: "nat \<Rightarrow> f64 \<Rightarrow> ustr" where
  "fmt k v =
     (if is_nan v then str ''NaN''
      else (if f_neg v then str ''-'' else []) @
           (if is_inf v then str ''inf''
            else let r = half_even (\<bar>f_val v\<bar> * 10 ^ k) in
              dec_digits (r div 10 ^ k) @
              (if k = 0 then [] else str ''.'' @ pad_digits k (r mod 10 ^ k))))"

definition is_digit :: "int \<Rightarrow> bool" where
  "is_digit c \<longleftrightarrow> 48 \<le> c \<and> c \<le> 57"

definition to_lower :: "int \<Rightarrow> int" where
  "to_lower c = (if 65 \<le> c \<and> c \<le> 90 then c + 32 else c)"

definition eq_ignore_ascii_case :: "ustr \<Rightarrow> ustr \<Rightarrow> bool" where
  "eq_ignore_ascii_case a b \<longleftrightarrow> map to_lower a = map to_lower b"

definition digits_val :: "ustr \<Rightarrow> int" where
  "digits_val = foldl (\<lambda>n c. 10 * n + (c - 48)) 0"

definition split_sign :: "ustr \<Rightarrow> bool \<times> ustr" where
  "split_sign s = (case s of c # r \<Rightarrow> if c = 45 then (True, r) else if c = 43 then (False, r) else (False, s)
                   | [] \<Rightarrow> (False, []))"

definition parse_exp :: "ustr \<Rightarrow> int option" where
  "parse_exp s =
     (case s of [] \<Rightarrow> Some 0
      | c # r \<Rightarrow>
        if c = 101 \<or> c = 69 then
          (case split_sign r of (neg, d) \<Rightarrow>
             if d \<noteq> [] \<and> list_all is_digit d
             then Some (if neg then - digits_val d else digits_val d) else None)
        else None)"

definition pow10 :: "int \<Rightarrow> rat" where
  "pow10 e = (if 0 \<le> e then 10 ^ nat e else 1 / 10 ^ nat (- e))"

text \<open>\<open>str::parse::<f64>\<close>: infinities and NaN by name, or digits with one optional point and an
  optional exponent, rounded once.\<close>

definition parse_f64 :: "ustr \<Rightarrow> f64 option" where
  "parse_f64 s =
     (case split_sign s of (neg, r) \<Rightarrow>
        if eq_ignore_ascii_case r (str ''inf'') \<or> eq_ignore_ascii_case r (str ''infinity'')
        then Some (f_inf neg)
        else if eq_ignore_ascii_case r (str ''nan'')
        then Some (if neg then f_negate f_nan else f_nan)
        else
          let ip = takeWhile is_digit r; r1 = dropWhile is_digit r;
              pt = (r1 \<noteq> [] \<and> hd r1 = 46); r2 = (if pt then tl r1 else r1);
              fp = (if pt then takeWhile is_digit r2 else []);
              r3 = (if pt then dropWhile is_digit r2 else r2) in
          if ip @ fp = [] then None
          else (case parse_exp r3 of None \<Rightarrow> None
                | Some e \<Rightarrow>
                  let x = of_int (digits_val (ip @ fp)) * pow10 (e - int (length fp)) in
                  Some (f_round neg (if neg then - x else x))))"

section \<open>The order of values and the order of bits\<close>

lemma f_mag_bounds: "0 \<le> f_mag b" "f_mag b < 2 ^ 63"
  by (simp_all add: f_mag_def)

lemma uint_f64: "uint b = (if f_neg b then 2 ^ 63 else 0) + f_mag b"
proof -
  have b: "uint b < 2 ^ 64" using uint_lt2p [of b] by simp
  have "uint b mod 2 ^ 63 = (uint b - 2 ^ 63) mod 2 ^ 63" by (rule minus_mod_self2 [symmetric])
  also have "\<dots> = uint b - 2 ^ 63" if "2 ^ 63 \<le> uint b" using that b by (intro mod_pos_pos_trivial) simp_all
  finally show ?thesis by (simp add: f_neg_def f_mag_def)
qed

lemma mk_f64_bits:
  assumes "0 \<le> m" "m < 2 ^ 63"
  shows "f_neg (mk_f64 neg m) = neg" "f_mag (mk_f64 neg m) = m"
proof -
  have "uint (mk_f64 neg m) = (if neg then 2 ^ 63 else 0) + m"
    using assms by (simp add: mk_f64_def unsigned_of_int take_bit_int_eq_self del: of_int_add of_int_numeral)
  with assms show "f_neg (mk_f64 neg m) = neg" "f_mag (mk_f64 neg m) = m"
    by (auto simp: f_neg_def f_mag_def)
qed

lemma mk_f64_neg_mag: "mk_f64 (f_neg b) (f_mag b) = b"
  by (rule word_uint_eqI) (simp add: mk_f64_def flip: uint_f64)

lemma mag_units_mono: assumes "0 \<le> m" "m < n" shows "mag_units m < mag_units n"
proof -
  let ?e = "\<lambda>m. m div 2 ^ 52" and ?f = "\<lambda>m. m mod 2 ^ 52"
  have split: "x = ?e x * 2 ^ 52 + ?f x" "0 \<le> ?f x" "?f x < 2 ^ 52" for x :: int
    by simp_all
  have upper: "mag_units m < 2 ^ (52 + nat (?e m))" if "0 \<le> m" for m
  proof (cases "?e m = 0")
    case True
    then show ?thesis using split(1) [of m] split(3) [of m] by (simp add: mag_units_def)
  next
    case False
    with that have e: "1 \<le> ?e m" by (simp add: int_one_le_iff_zero_less pos_imp_zdiv_nonneg_iff order_neq_le_trans)
    then have n: "52 + nat (?e m) = 53 + nat (?e m - 1)" by simp
    have "(2 ^ 52 + ?f m) * 2 ^ nat (?e m - 1) < 2 ^ 53 * 2 ^ nat (?e m - 1)"
      using split(3) [of m] by (intro mult_strict_right_mono) simp_all
    with e show ?thesis by (simp only: n power_add) (simp add: mag_units_def)
  qed
  have lower: "2 ^ (51 + nat (?e n)) \<le> mag_units n" if "1 \<le> ?e n" for n
  proof -
    have "2 ^ 52 * 2 ^ nat (?e n - 1) \<le> (2 ^ 52 + ?f n) * 2 ^ nat (?e n - 1)"
      using split(2) [of n] by (intro mult_right_mono) simp_all
    moreover have "51 + nat (?e n) = 52 + nat (?e n - 1)" using that by simp
    ultimately show ?thesis using that by (simp add: mag_units_def power_add)
  qed
  have le: "?e m \<le> ?e n" using assms by (simp add: zdiv_mono1)
  have e0: "0 \<le> ?e m" using assms by (simp add: pos_imp_zdiv_nonneg_iff)
  show ?thesis
  proof (cases "?e m = ?e n")
    case True
    then have "?f m < ?f n" using assms(2) split(1) [of m] split(1) [of n] by (simp only:)
    with True assms(2) show ?thesis by (auto simp: mag_units_def Let_def intro!: mult_strict_right_mono)
  next
    case False
    with le e0 have *: "nat (?e m) < nat (?e n)" "1 \<le> ?e n" by linarith+
    have "mag_units m < 2 ^ (52 + nat (?e m))" using upper assms(1) by blast
    also have "\<dots> \<le> 2 ^ (51 + nat (?e n))" using *(1) by (intro power_increasing) linarith+
    also have "\<dots> \<le> mag_units n" using lower * by blast
    finally show ?thesis .
  qed
qed

lemma mag_units_0 [simp]: "mag_units 0 = 0"
  by (simp add: mag_units_def)

lemma mag_units_le_iff: "0 \<le> m \<Longrightarrow> 0 \<le> n \<Longrightarrow> mag_units m \<le> mag_units n \<longleftrightarrow> m \<le> n"
  by (metis linorder_not_less mag_units_mono order_less_imp_le order_refl antisym_conv1)

lemma mag_units_nonneg: "0 \<le> m \<Longrightarrow> 0 \<le> mag_units m"
  using mag_units_le_iff [of 0 m] by simp

text \<open>Finite doubles are ordered as their bits.\<close>

lemma f_val_le_iff: "f_val a \<le> f_val b \<longleftrightarrow> f_ord a \<le> f_ord b"
proof -
  have scale: "(of_int x :: rat) / 2 ^ 1074 \<le> of_int y / 2 ^ 1074 \<longleftrightarrow> x \<le> y" for x y
    by (simp add: divide_le_cancel)
  define u where "u x = mag_units (f_mag x)" for x
  have val: "f_val x = of_int (if f_neg x then - u x else u x) / 2 ^ 1074" for x
    by (simp add: f_val_def u_def)
  have u: "u x \<le> u y \<longleftrightarrow> f_mag x \<le> f_mag y" for x y
    by (simp add: u_def mag_units_le_iff f_mag_bounds)
  have u0: "0 \<le> u x" "u x \<le> 0 \<longleftrightarrow> f_mag x \<le> 0" "0 \<le> f_mag x" for x
    using mag_units_le_iff [of "f_mag x" 0] by (simp_all add: u_def mag_units_nonneg f_mag_bounds)
  show ?thesis
    unfolding val scale f_ord_def
    using u [of a b] u [of b a] u0 [of a] u0 [of b] by (cases "f_neg a"; cases "f_neg b") (simp; linarith)+
qed

lemma total_key_le_val: "total_key a \<le> total_key b \<Longrightarrow> f_val a \<le> f_val b"
  using f_mag_bounds(1) [of a] f_mag_bounds(1) [of b]
  by (auto simp: f_val_le_iff f_ord_def total_key_def split: if_splits)

text \<open>Rounding the value of a finite double gives it back.\<close>

lemma half_even_int [simp]: "half_even (of_int n) = n"
  by (simp add: half_even_def)

lemma bitlen_le: "x < 2 ^ n \<Longrightarrow> bitlen x \<le> int n"
proof (cases "0 < x")
  case True
  assume "x < 2 ^ n"
  with bitlen_bounds [OF True] have "(2::int) ^ nat (bitlen x - 1) < 2 ^ n" by linarith
  then have "nat (bitlen x - 1) < n" by simp
  then show ?thesis by linarith
qed (simp add: bitlen_alt_def)

lemma bitlen_exact: "2 ^ n \<le> x \<Longrightarrow> x < 2 ^ Suc n \<Longrightarrow> bitlen x = int n + 1"
proof -
  assume x: "2 ^ n \<le> x" "x < 2 ^ Suc n"
  then have "0 < x" by (meson less_le_trans zero_less_numeral zero_less_power)
  then have "2 ^ n < (2::int) ^ nat (bitlen x)" using x bitlen_bounds by (meson le_less_trans)
  then have "n < nat (bitlen x)" by simp
  with bitlen_le [OF x(2)] show ?thesis by simp
qed

lemma round_mag_units:
  assumes "0 \<le> m" "m < mag_inf"
  shows "round_mag (of_int (mag_units m) / 2 ^ 1074) = m"
proof (cases "m div 2 ^ 52 = 0")
  case True
  then have "m < 2 ^ 52" using assms(1) by (simp add: div_eq_0_iff)
  moreover from this have "bitlen m \<le> 52" using bitlen_le [of m 52] by simp
  ultimately show ?thesis using assms True by (simp add: round_mag_def mag_units_def)
next
  case False
  define e f where "e = m div 2 ^ 52" and "f = m mod 2 ^ 52"
  have m: "m = e * 2 ^ 52 + f" "0 \<le> f" "f < 2 ^ 52" by (simp_all add: e_def f_def)
  have e: "1 \<le> e" using False assms(1) pos_imp_zdiv_nonneg_iff [of "2 ^ 52" m]
    by (simp add: e_def int_one_le_iff_zero_less order_less_le)
  have u: "mag_units m = (2 ^ 52 + f) * 2 ^ nat (e - 1)"
    using e unfolding mag_units_def e_def [symmetric] f_def [symmetric] by simp
  have "bitlen (2 ^ 52 + f) = 53" using m bitlen_exact [of 52 "2 ^ 52 + f"] by simp
  then have "bitlen (mag_units m) - 53 = e - 1" using m(2) e by (simp add: u)
  then have k: "nat (bitlen \<lfloor>rat_of_int (mag_units m)\<rfloor> - 53) = nat (e - 1)" by simp
  have q: "rat_of_int (mag_units m) / 2 ^ nat (e - 1) = of_int (2 ^ 52 + f)" by (simp add: u)
  have "int (nat (e - 1)) * 2 ^ 52 + (2 ^ 52 + f) = m" using e by (simp add: m(1))
  moreover have "rat_of_int (mag_units m) / 2 ^ 1074 * 2 ^ 1074 = rat_of_int (mag_units m)" by simp
  ultimately show ?thesis using assms by (simp only: round_mag_def Let_def k q half_even_int)
qed

lemma f_round_val: "is_finite a \<Longrightarrow> f_round (f_neg a) (f_val a) = a"
proof -
  assume fin: "is_finite a"
  have u: "0 \<le> mag_units (f_mag a)" by (simp add: mag_units_nonneg f_mag_bounds)
  have "round_mag \<bar>f_val a\<bar> = f_mag a"
    using fin u round_mag_units [of "f_mag a"] by (simp add: f_val_def is_finite_def f_mag_bounds abs_mult)
  moreover have "(f_val a < 0 \<or> f_val a = 0 \<and> f_neg a) = f_neg a"
    using u by (auto simp: f_val_def order_le_less divide_less_0_iff)
  ultimately show ?thesis by (simp add: f_round_def mk_f64_neg_mag)
qed

section \<open>Digits\<close>

text \<open>Formatted numbers consist of signs, points, digits and the letters of \<open>NaN\<close> and \<open>inf\<close>.\<close>

definition num_char :: "int \<Rightarrow> bool" where
  "num_char c \<longleftrightarrow> is_digit c \<or> c \<in> set (str ''-.NaNinf'')"

lemma dec_digits_digit: "0 \<le> n \<Longrightarrow> list_all is_digit (dec_digits n)"
proof (induction n rule: dec_digits.induct)
  case (1 n)
  have m: "0 \<le> n mod 10" "n mod 10 < 10" by simp_all
  show ?case
    using 1 m by (subst dec_digits.simps)
      (simp add: is_digit_def [of "_ + _"] pos_imp_zdiv_nonneg_iff zle_diff1_eq [of _ 10, simplified])
qed

lemma half_even_nonneg: "0 \<le> q \<Longrightarrow> 0 \<le> half_even q"
  by (auto simp: half_even_def Let_def)

lemma fmt_num_char: "list_all num_char (fmt k v)"
proof -
  have r: "0 \<le> half_even (\<bar>f_val v\<bar> * 10 ^ k)" by (simp add: half_even_nonneg)
  have d: "list_all is_digit d \<Longrightarrow> list_all num_char d" for d
    by (auto simp: list_all_iff num_char_def)
  have "list_all num_char (dec_digits n)" if "0 \<le> n" for n
    using dec_digits_digit [OF that] d by blast
  moreover have "num_char 48" "num_char 46" "num_char 45" "num_char 78" "num_char 97" "num_char 105" "num_char 110" "num_char 102"
    by (simp_all add: num_char_def is_digit_def)
  moreover have "list_all num_char (replicate i 48)" for i
    by (simp add: list_all_iff num_char_def is_digit_def)
  ultimately show ?thesis using r
    by (simp add: fmt_def pad_digits_def Let_def pos_imp_zdiv_nonneg_iff)
qed

end
