(* ===== verification/Svg.thy ===== *)
theory Svg
  imports Float64
begin

text \<open>
  \<open>svg.rs\<close> and \<open>theme.rs\<close> of the chart generator: escaping, number output, the drawing calls that append to
  the body, and \<open>finish\<close>. A reference reader (\<open>scan\<close>, \<open>elements\<close>, \<open>unesc\<close>) reads markup back; each
  drawing call is shown to append exactly the element it means to, whatever text it is given.
\<close>

section \<open>Brand tokens\<close>

definition BG :: ustr where "BG = str ''#101010''"
definition TEXT :: ustr where "TEXT = str ''#f2f4f8''"
definition MUTED :: ustr where "MUTED = str ''#b6b8bb''"
definition FAINT :: ustr where "FAINT = str ''#838383''"
definition BORDER :: ustr where "BORDER = str ''#2a2a2a''"
definition BORDER_STRONG :: ustr where "BORDER_STRONG = str ''#3a3a3a''"
definition HERO :: ustr where "HERO = str ''#1fae61''"
definition NEUTRAL :: ustr where "NEUTRAL = str ''#3a3a3a''"
definition NEUTRAL_EDGE :: ustr where "NEUTRAL_EDGE = str ''#4a4a4a''"

definition SERIES :: "ustr list" where
  "SERIES = [HERO, str ''#e8630f'', str ''#4589ff'', str ''#d02670'', str ''#a56eff'']"

definition FONT :: ustr where
  "FONT = [39] @ str ''Berkeley Mono', ui-monospace, 'SF Mono', Menlo, monospace''"

definition WEIGHT :: nat where "WEIGHT = 400"

definition FONT_FEATURES :: ustr where
  "FONT_FEATURES = str ''font-feature-settings:'liga' 1,'calt' 1''"

definition RADIUS :: f64 where "RADIUS = lit 3"

section \<open>Escaping and numbers\<close>

definition replace :: "int \<Rightarrow> ustr \<Rightarrow> ustr \<Rightarrow> ustr" where
  "replace c r s = concat (map (\<lambda>x. if x = c then r else [x]) s)"

definition esc :: "ustr \<Rightarrow> ustr" where
  "esc s =
     replace 39 (str ''&apos;'')
      (replace 34 (str ''&quot;'')
        (replace 62 (str ''&gt;'')
          (replace 60 (str ''&lt;'')
            (replace 38 (str ''&amp;'') s))))"

definition trim_end_matches :: "int \<Rightarrow> ustr \<Rightarrow> ustr" where
  "trim_end_matches c s = rev (dropWhile (\<lambda>x. x = c) (rev s))"

definition svg_n :: "f64 \<Rightarrow> ustr" where
  "svg_n v = (let s = trim_end_matches 46 (trim_end_matches 48 (fmt 2 v)) in
          if s = [] \<or> s = str ''-0'' then str ''0'' else s)"

section \<open>The builder\<close>

datatype anchor = Start | Middle | End

fun as_str :: "anchor \<Rightarrow> ustr" where
  "as_str Start = str ''start''"
| "as_str Middle = str ''middle''"
| "as_str End = str ''end''"

record svg =
  body :: ustr
  svg_w :: f64
  svg_h :: f64

definition new_svg :: "f64 \<Rightarrow> f64 \<Rightarrow> svg" where
  "new_svg w h = \<lparr> body = [], svg_w = w, svg_h = h \<rparr>"

definition emit_body :: "ustr \<Rightarrow> svg \<Rightarrow> svg" where
  "emit_body piece s = s \<lparr> body := body s @ piece \<rparr>"

definition svg_rect :: "f64 \<Rightarrow> f64 \<Rightarrow> f64 \<Rightarrow> f64 \<Rightarrow> ustr \<Rightarrow> f64 \<Rightarrow> svg \<Rightarrow> svg" where
  \<open>svg_rect x y w h fill rx s =
     (if f_le w (lit 0) \<or> f_le h (lit 0) then s
      else emit_body
        (str ''<rect x="'' @ svg_n x @ str ''" y="'' @ svg_n y @ str ''" width="'' @ svg_n w @
         str ''" height="'' @ svg_n h @ str ''" rx="'' @
         svg_n (f_min (f_min rx (f_div w (lit 2))) (f_div h (lit 2))) @
         str ''" fill="'' @ fill @ str ''"/>'') s)\<close>

definition svg_line :: "f64 \<Rightarrow> f64 \<Rightarrow> f64 \<Rightarrow> f64 \<Rightarrow> ustr \<Rightarrow> f64 \<Rightarrow> svg \<Rightarrow> svg" where
  \<open>svg_line x1 y1 x2 y2 stroke w s =
     emit_body
       (str ''<line x1="'' @ svg_n x1 @ str ''" y1="'' @ svg_n y1 @ str ''" x2="'' @ svg_n x2 @
        str ''" y2="'' @ svg_n y2 @ str ''" stroke="'' @ stroke @ str ''" stroke-width="'' @ svg_n w @
        str ''"/>'') s\<close>

text \<open>The path data: \<open>M\<close> before the first point, \<open>L\<close> before the others, a space between two.\<close>

fun path_data :: "bool \<Rightarrow> (f64 \<times> f64) list \<Rightarrow> ustr" where
  "path_data first [] = []"
| "path_data first ((x, y) # pts) =
     (if first then str ''M'' else str ''L'') @ svg_n x @ str '' '' @ svg_n y @
     (if pts = [] then [] else str '' '') @ path_data False pts"

definition svg_path :: "(f64 \<times> f64) list \<Rightarrow> ustr \<Rightarrow> f64 \<Rightarrow> svg \<Rightarrow> svg" where
  \<open>svg_path pts stroke w s =
     (if length pts < 2 then s
      else emit_body
        (str ''<path d="'' @ path_data True pts @ str ''" fill="none" stroke="'' @ stroke @
         str ''" stroke-width="'' @ svg_n w @ str ''" stroke-linejoin="round" stroke-linecap="round"/>'') s)\<close>

definition svg_marker :: "f64 \<Rightarrow> f64 \<Rightarrow> f64 \<Rightarrow> ustr \<Rightarrow> ustr \<Rightarrow> svg \<Rightarrow> svg" where
  \<open>svg_marker x y r fill ring s =
     emit_body
       (str ''<circle cx="'' @ svg_n x @ str ''" cy="'' @ svg_n y @ str ''" r="'' @ svg_n r @
        str ''" fill="'' @ fill @ str ''" stroke="'' @ ring @ str ''" stroke-width="2"/>'') s\<close>

definition svg_text :: "f64 \<Rightarrow> f64 \<Rightarrow> ustr \<Rightarrow> ustr \<Rightarrow> f64 \<Rightarrow> anchor \<Rightarrow> nat \<Rightarrow> svg \<Rightarrow> svg" where
  \<open>svg_text x y t fill sz anchor weight s =
     emit_body
       (str ''<text x="'' @ svg_n x @ str ''" y="'' @ svg_n y @ str ''" fill="'' @ fill @
        str ''" font-size="'' @ svg_n sz @ str ''" font-weight="'' @ dec_digits (int weight) @
        str ''" font-style="normal" text-anchor="'' @ as_str anchor @ str ''">'' @ esc t @
        str ''</text>'') s\<close>

definition style_text :: ustr where
  "style_text = str ''text{font-family:'' @ FONT @ str '';'' @ FONT_FEATURES @
     str '';font-style:normal;dominant-baseline:auto}''"

definition finish :: "ustr \<Rightarrow> ustr \<Rightarrow> svg \<Rightarrow> ustr" where
  \<open>finish title desc s =
     (let w = svg_n (svg_w s); h = svg_n (svg_h s) in
      str ''<svg xmlns="http://www.w3.org/2000/svg" width="'' @ w @ str ''" height="'' @ h @
      str ''" viewBox="0 0 '' @ w @ str '' '' @ h @
      str ''" role="img" aria-labelledby="t d">'' @ [10] @
      str ''<title id="t">'' @ esc title @ str ''</title><desc id="d">'' @ esc desc @
      str ''</desc>'' @ [10] @
      str ''<style>'' @ style_text @ str ''</style>'' @ [10] @
      str ''<rect width="'' @ w @ str ''" height="'' @ h @ str ''" fill="'' @ BG @ str ''"/>'' @ [10] @
      body s @ [10] @
      str ''</svg>'' @ [10])\<close>

section \<open>Reading markup back\<close>

datatype token = Tag ustr | Txt ustr

text \<open>Tags run from \<open><\<close> to the next \<open>>\<close>, text from there to the next \<open><\<close>.\<close>

function scan :: "ustr \<Rightarrow> token list" where
  "scan [] = []"
| "scan (c # s) =
     (if c = 60 then Tag (takeWhile (\<lambda>x. x \<noteq> 62) s) # scan (drop 1 (dropWhile (\<lambda>x. x \<noteq> 62) s))
      else Txt (c # takeWhile (\<lambda>x. x \<noteq> 60) s) # scan (dropWhile (\<lambda>x. x \<noteq> 60) s))"
  by pat_completeness auto
termination
  by (relation "measure length") (auto simp: le_imp_less_Suc length_dropWhile_le le_trans [OF diff_le_self])

declare scan.simps(2) [simp del]

text \<open>Entities stand for the characters they name.\<close>

definition entities :: "(ustr \<times> int) list" where
  "entities = [(str ''amp;'', 38), (str ''lt;'', 60), (str ''gt;'', 62), (str ''quot;'', 34),
               (str ''apos;'', 39)]"

fun strip_entity :: "(ustr \<times> int) list \<Rightarrow> ustr \<Rightarrow> (int \<times> ustr) option" where
  "strip_entity [] s = None"
| "strip_entity ((e, c) # es) s =
     (if take (length e) s = e then Some (c, drop (length e) s) else strip_entity es s)"

lemma strip_entity_length: "strip_entity es s = Some (c, r) \<Longrightarrow> length r \<le> length s"
  by (induction es) (auto split: if_splits)

function unesc :: "ustr \<Rightarrow> ustr" where
  "unesc [] = []"
| "unesc (x # s) =
     (if x = 38
      then (case strip_entity entities s of Some (c, r) \<Rightarrow> c # unesc r | None \<Rightarrow> x # unesc s)
      else x # unesc s)"
  by pat_completeness auto
termination
  by (relation "measure length") (auto dest: strip_entity_length)

text \<open>
  The elements of a token list, with their names and decoded text: a tag that begins with \<open>/\<close> closes,
  one that ends with \<open>/\<close> has no content, and text outside an element does not count.
\<close>

definition tag_name :: "ustr \<Rightarrow> ustr" where
  "tag_name t = takeWhile (\<lambda>x. x \<noteq> 32) t"

fun elems :: "token list \<Rightarrow> (ustr \<times> ustr) list" where
  "elems [] = []"
| "elems (Txt _ # ts) = elems ts"
| "elems (Tag t # ts) =
     (if t \<noteq> [] \<and> hd t = 47 then elems ts
      else if t \<noteq> [] \<and> last t = 47 then (tag_name t, []) # elems ts
      else (case ts of Txt x # ts' \<Rightarrow> (tag_name t, unesc x) # elems ts
            | _ \<Rightarrow> (tag_name t, []) # elems ts))"

definition elements :: "ustr \<Rightarrow> (ustr \<times> ustr) list" where
  "elements s = elems (scan s)"

section \<open>Escaping loses nothing and leaves no markup\<close>

definition entity :: "int \<Rightarrow> ustr" where
  "entity c = (if c = 38 then str ''&amp;'' else if c = 60 then str ''&lt;''
     else if c = 62 then str ''&gt;'' else if c = 34 then str ''&quot;''
     else if c = 39 then str ''&apos;'' else [c])"

lemma replace_simps [simp]:
  "replace c r [] = []"
  "replace c r (x # s) = (if x = c then r else [x]) @ replace c r s"
  "replace c r (s @ t) = replace c r s @ replace c r t"
  by (simp_all add: replace_def)

text \<open>The five passes do what one pass does: none meets the text another has put in.\<close>

lemma esc_one_pass: "esc s = concat (map entity s)"
  by (induction s) (simp_all add: esc_def entity_def)

lemma esc_simps [simp]: "esc [] = []" "esc (c # s) = entity c @ esc s"
  by (simp_all add: esc_one_pass)

lemma esc_safe: "set (esc s) \<inter> {34, 39, 60, 62} = {}"
  by (induction s) (auto simp: entity_def)

lemma esc_no_markup: "60 \<notin> set (esc s)" "62 \<notin> set (esc s)"
  using esc_safe [of s] by auto

lemma unesc_entity: "unesc (entity c @ s) = c # unesc s"
  by (simp add: entity_def entities_def)

lemma unesc_esc [simp]: "unesc (esc s) = s"
  by (induction s) (simp_all add: unesc_entity)

lemma unesc_plain: "38 \<notin> set s \<Longrightarrow> unesc s = s"
  by (induction s) auto

section \<open>Numbers are plain text\<close>

lemma set_trim_end_matches: "set (trim_end_matches c s) \<subseteq> set s"
  by (auto simp: trim_end_matches_def dest: set_dropWhileD)

lemma svg_n_num_char: "c \<in> set (svg_n v) \<Longrightarrow> num_char c"
proof -
  assume "c \<in> set (svg_n v)"
  moreover have "set (trim_end_matches 46 (trim_end_matches 48 (fmt 2 v))) \<subseteq> set (fmt 2 v)"
    using set_trim_end_matches order_trans by blast
  ultimately have "c \<in> set (fmt 2 v) \<or> c = 48"
    by (auto simp: svg_n_def Let_def split: if_splits)
  with fmt_num_char [of 2 v] show ?thesis by (auto simp: list_all_iff num_char_def is_digit_def)
qed

lemma svg_n_no_markup [simp]: "60 \<notin> set (svg_n v)" "62 \<notin> set (svg_n v)"
  by (auto dest!: svg_n_num_char simp: num_char_def is_digit_def)

lemma dec_digits_no_markup [simp]: "0 \<le> k \<Longrightarrow> 60 \<notin> set (dec_digits k)" "0 \<le> k \<Longrightarrow> 62 \<notin> set (dec_digits k)"
  using dec_digits_digit [of k] by (auto simp: list_all_iff is_digit_def)

lemma path_data_no_markup [simp]: "60 \<notin> set (path_data first pts)" "62 \<notin> set (path_data first pts)"
  by (induction first pts rule: path_data.induct) simp_all

lemma as_str_no_markup [simp]: "60 \<notin> set (as_str a)" "62 \<notin> set (as_str a)"
  by (cases a; simp)+

section \<open>What the reader finds\<close>

lemma until_simps [simp]:
  "c \<notin> set t \<Longrightarrow> takeWhile (\<lambda>x. x \<noteq> c) (t @ c # r) = t"
  "c \<notin> set t \<Longrightarrow> dropWhile (\<lambda>x. x \<noteq> c) (t @ c # r) = c # r"
  by (induction t) auto

lemma scan_tag: "62 \<notin> set t \<Longrightarrow> scan (60 # t @ 62 # r) = Tag t # scan r"
  by (simp add: scan.simps)

lemma scan_txt: "60 \<notin> set x \<Longrightarrow> scan (x @ 60 # r) = (if x = [] then [] else [Txt x]) @ scan (60 # r)"
  by (cases x) (auto simp: scan.simps(2) [of _ "_ @ _"])

lemma elements_closing: "62 \<notin> set t \<Longrightarrow> elements (60 # 47 # t @ 62 # r) = elements r"
  using scan_tag [of "47 # t" r] by (simp add: elements_def)

lemma elements_empty:
  "62 \<notin> set t \<Longrightarrow> hd t \<noteq> 47 \<Longrightarrow> t \<noteq> [] \<Longrightarrow> last t = 47 \<Longrightarrow>
   elements (60 # t @ 62 # r) = (tag_name t, []) # elements r"
  by (simp add: elements_def scan_tag)

lemma elements_open:
  "62 \<notin> set t \<Longrightarrow> hd t \<noteq> 47 \<Longrightarrow> t \<noteq> [] \<Longrightarrow> last t \<noteq> 47 \<Longrightarrow> 60 \<notin> set x \<Longrightarrow>
   elements (60 # t @ 62 # x @ 60 # r) = (tag_name t, unesc x) # elements (60 # r)"
  by (simp add: elements_def scan_tag scan_txt) (simp add: scan.simps)

lemma elements_text: "60 \<notin> set x \<Longrightarrow> elements (x @ 60 # r) = elements (60 # r)"
  by (simp add: elements_def scan_txt)

text \<open>\<open>draws s es\<close>: the body of \<open>s\<close> is markup for exactly the elements \<open>es\<close>, complete in itself.\<close>

definition draws :: "svg \<Rightarrow> (ustr \<times> ustr) list \<Rightarrow> bool" where
  "draws s es \<longleftrightarrow> (\<forall>r. elements (body s @ r) = es @ elements r)"

lemma draws_emit:
  "draws s es \<Longrightarrow> (\<And>r. elements (piece @ r) = fs @ elements r) \<Longrightarrow> draws (emit_body piece s) (es @ fs)"
  by (simp add: draws_def emit_body_def)

lemma draws_new [simp]: "draws (new_svg w h) []"
  by (simp add: draws_def new_svg_def)

lemma draws_empty_tag:
  assumes "draws s es" "piece = 60 # nm @ 32 # a @ [47, 62]"
    and "62 \<notin> set (nm @ a)" "32 \<notin> set nm" "nm \<noteq> []" "hd nm \<noteq> 47"
  shows "draws (emit_body piece s) (es @ [(nm, [])])"
proof (rule draws_emit [OF assms(1)])
  fix r
  have "elements (60 # (nm @ 32 # a @ [47]) @ 62 # r) = (tag_name (nm @ 32 # a @ [47]), []) # elements r"
    using assms by (intro elements_empty) auto
  moreover have "tag_name (nm @ 32 # a @ [47]) = nm"
    using assms(4) by (simp add: tag_name_def)
  ultimately show "elements (piece @ r) = [(nm, [])] @ elements r" by (simp add: assms(2))
qed

lemma draws_text_tag:
  assumes "draws s es" "piece = 60 # nm @ 32 # a @ 34 # 62 # esc t @ 60 # 47 # c @ [62]"
    and "62 \<notin> set (nm @ a @ c)" "32 \<notin> set nm" "nm \<noteq> []" "hd nm \<noteq> 47"
  shows "draws (emit_body piece s) (es @ [(nm, t)])"
proof (rule draws_emit [OF assms(1)])
  fix r
  have "elements (60 # (nm @ 32 # a @ [34]) @ 62 # esc t @ 60 # 47 # c @ 62 # r) =
      (tag_name (nm @ 32 # a @ [34]), unesc (esc t)) # elements (60 # 47 # c @ 62 # r)"
    using assms by (intro elements_open) (auto simp: esc_no_markup)
  moreover have "tag_name (nm @ 32 # a @ [34]) = nm" using assms(4) by (simp add: tag_name_def)
  moreover have "elements (60 # 47 # c @ 62 # r) = elements r" using assms(3) by (simp add: elements_closing)
  ultimately show "elements (piece @ r) = [(nm, t)] @ elements r" by (simp add: assms(2))
qed

section \<open>Each call draws its element\<close>

definition plain :: "ustr \<Rightarrow> bool" where
  "plain s \<longleftrightarrow> 62 \<notin> set s"

lemma plain_tokens [simp]:
  "plain BG" "plain TEXT" "plain MUTED" "plain FAINT" "plain BORDER" "plain BORDER_STRONG"
  "plain HERO" "plain NEUTRAL" "plain NEUTRAL_EDGE"
  by (simp_all add: plain_def BG_def TEXT_def MUTED_def FAINT_def BORDER_def BORDER_STRONG_def HERO_def
      NEUTRAL_def NEUTRAL_EDGE_def)

lemma plain_series: "c \<in> set SERIES \<Longrightarrow> plain c"
  by (auto simp: SERIES_def plain_def HERO_def)

definition rect_elem :: "f64 \<Rightarrow> f64 \<Rightarrow> (ustr \<times> ustr) list" where
  "rect_elem w h = (if f_le w (lit 0) \<or> f_le h (lit 0) then [] else [(str ''rect'', [])])"

lemma draws_rect:
  assumes "draws s es" "plain fill"
  shows "draws (svg_rect x y w h fill rx s) (es @ rect_elem w h)"
proof (cases "f_le w (lit 0) \<or> f_le h (lit 0)")
  case False
  let ?a = \<open>str ''x="'' @ svg_n x @ str ''" y="'' @ svg_n y @ str ''" width="'' @ svg_n w @
         str ''" height="'' @ svg_n h @ str ''" rx="'' @
         svg_n (f_min (f_min rx (f_div w (lit 2))) (f_div h (lit 2))) @ str ''" fill="'' @ fill @ [34]\<close>
  from False show ?thesis
    unfolding svg_rect_def rect_elem_def if_not_P [OF False]
    by (rule_tac draws_empty_tag [OF assms(1), where a = ?a]) (use assms(2) in \<open>simp_all add: plain_def\<close>)
qed (simp add: svg_rect_def rect_elem_def assms(1))

lemma draws_line:
  assumes "draws s es" "plain stroke"
  shows "draws (svg_line x1 y1 x2 y2 stroke w s) (es @ [(str ''line'', [])])"
proof -
  let ?a = \<open>str ''x1="'' @ svg_n x1 @ str ''" y1="'' @ svg_n y1 @ str ''" x2="'' @ svg_n x2 @
        str ''" y2="'' @ svg_n y2 @ str ''" stroke="'' @ stroke @ str ''" stroke-width="'' @ svg_n w @ [34]\<close>
  show ?thesis
    unfolding svg_line_def
    by (rule draws_empty_tag [OF assms(1), where a = ?a]) (use assms(2) in \<open>simp_all add: plain_def\<close>)
qed

lemma draws_path:
  assumes "draws s es" "plain stroke"
  shows "draws (svg_path pts stroke w s) (es @ (if length pts < 2 then [] else [(str ''path'', [])]))"
proof (cases "length pts < 2")
  case False
  let ?a = \<open>str ''d="'' @ path_data True pts @ str ''" fill="none" stroke="'' @ stroke @
         str ''" stroke-width="'' @ svg_n w @ str ''" stroke-linejoin="round" stroke-linecap="round"''\<close>
  show ?thesis
    unfolding svg_path_def if_not_P [OF False]
    by (rule draws_empty_tag [OF assms(1), where a = ?a]) (use assms(2) in \<open>simp_all add: plain_def\<close>)
qed (simp add: svg_path_def assms(1))

lemma draws_marker:
  assumes "draws s es" "plain fill" "plain ring"
  shows "draws (svg_marker x y r fill ring s) (es @ [(str ''circle'', [])])"
proof -
  let ?a = \<open>str ''cx="'' @ svg_n x @ str ''" cy="'' @ svg_n y @ str ''" r="'' @ svg_n r @
        str ''" fill="'' @ fill @ str ''" stroke="'' @ ring @ str ''" stroke-width="2"''\<close>
  show ?thesis
    unfolding svg_marker_def
    by (rule draws_empty_tag [OF assms(1), where a = ?a]) (use assms(2,3) in \<open>simp_all add: plain_def\<close>)
qed

lemma draws_text:
  assumes "draws s es" "plain fill"
  shows "draws (svg_text x y t fill sz anchor weight s) (es @ [(str ''text'', t)])"
proof -
  let ?a = \<open>str ''x="'' @ svg_n x @ str ''" y="'' @ svg_n y @ str ''" fill="'' @ fill @
        str ''" font-size="'' @ svg_n sz @ str ''" font-weight="'' @ dec_digits (int weight) @
        str ''" font-style="normal" text-anchor="'' @ as_str anchor\<close>
  show ?thesis
    unfolding svg_text_def
    by (rule draws_text_tag [OF assms(1), where a = ?a and c = "str ''text''"])
      (use assms(2) in \<open>simp_all add: plain_def\<close>)
qed

lemmas draws_calls = draws_rect draws_line draws_path draws_marker draws_text

lemma draws_fold:
  assumes "draws s es" "\<And>x s es. x \<in> set xs \<Longrightarrow> draws s es \<Longrightarrow> draws (f x s) (es @ g x)"
  shows "draws (fold f xs s) (es @ concat (map g xs))"
  using assms by (induction xs arbitrary: s es) (force simp flip: append_assoc)+

text \<open>The finished document: the root, title, description, style, background, and the body.\<close>

definition doc_head :: "ustr \<Rightarrow> ustr \<Rightarrow> (ustr \<times> ustr) list" where
  "doc_head title desc =
     [(str ''svg'', [10]), (str ''title'', title), (str ''desc'', desc), (str ''style'', style_text),
      (str ''rect'', [])]"

lemma style_text_plain: "60 \<notin> set style_text" "38 \<notin> set style_text"
  by (simp_all add: style_text_def FONT_def FONT_FEATURES_def)

lemma elements_skip: "c \<noteq> 60 \<Longrightarrow> elements (c # r) = elements r"
  by (cases r) (auto simp: elements_def scan.simps)

lemma elements_finish:
  assumes "draws s es"
  shows "elements (finish title desc s) = doc_head title desc @ es"
proof -
  let ?w = "svg_n (svg_w s)" and ?h = "svg_n (svg_h s)"
  define svg where \<open>svg = str ''svg xmlns="http://www.w3.org/2000/svg" width="'' @ ?w @ str ''" height="'' @ ?h @
      str ''" viewBox="0 0 '' @ ?w @ str '' '' @ ?h @ str ''" role="img" aria-labelledby="t d"''\<close>
  define rect where \<open>rect = str ''rect width="'' @ ?w @ str ''" height="'' @ ?h @ str ''" fill="'' @ BG @ str ''"/''\<close>
  define ti de where "ti = str ''title id=\"t\"''" and "de = str ''desc id=\"d\"''"
  note tags = svg_def rect_def ti_def de_def
  have doc: "finish title desc s =
      60 # svg @ 62 # [10] @ 60 # ti @ 62 # esc title @ 60 # 47 # str ''title'' @ 62 #
      60 # de @ 62 # esc desc @ 60 # 47 # str ''desc'' @ 62 # 10 #
      60 # str ''style'' @ 62 # style_text @ 60 # 47 # str ''style'' @ 62 # 10 #
      60 # rect @ 62 # 10 # body s @ 10 # 60 # 47 # str ''svg'' @ 62 # [10]"
    by (simp add: finish_def Let_def tags)
  have names: "tag_name svg = str ''svg''" "tag_name rect = str ''rect''" "tag_name ti = str ''title''"
    "tag_name de = str ''desc''" "tag_name (str ''style'') = str ''style''"
    by (simp_all add: tag_name_def tags)
  have body: "elements (body s @ r) = es @ elements r" for r using assms by (simp add: draws_def)
  have opens: "elements (60 # t @ 62 # x @ 60 # r) = (tag_name t, unesc x) # elements (60 # r)"
    if "t \<in> {svg, ti, de, str ''style''}" "60 \<notin> set x" for t x r
    using that by (intro elements_open) (auto simp: tags)
  have rect: "elements (60 # rect @ 62 # r) = (tag_name rect, []) # elements r" for r
    by (intro elements_empty) (simp_all add: tags BG_def)
  have close: "elements (60 # 47 # t @ 62 # r) = elements r"
    if "t \<in> {str ''title'', str ''desc'', str ''style'', str ''svg''}" for t r
    using that by (intro elements_closing) auto
  have nl: "elements (10 # r) = elements r" for r by (simp add: elements_skip)
  have nl60: "60 \<notin> set [10::int]" "unesc [10] = [10]" "elements [] = []" by (simp_all add: elements_def)
  show ?thesis
    unfolding doc by (simp only: opens close rect body nl nl60 names insert_iff esc_no_markup
        style_text_plain unesc_plain unesc_esc simp_thms) (simp add: doc_head_def)
qed

end
