(* ===== verification/Charts.thy ===== *)
theory Charts
  imports Svg "HOL-Library.Multiset"
begin

text \<open>
  \<open>charts.rs\<close> of the chart generator: the formats, \<open>nice_max\<close>, the bar chart and the percentile chart,
  drawn with the calls of \<open>Svg\<close>. The documents are read back: they contain the title, the labels and
  the values they were given, verbatim and once each, and no other element than those drawn.
\<close>

section \<open>Formats and scales\<close>

definition CANVAS_W :: f64 where "CANVAS_W = lit 820"

definition ADV11 :: f64 where "ADV11 = f_mul (lit 11) (lit (6 / 10))"

definition fmt_ns :: "f64 \<Rightarrow> ustr" where
  "fmt_ns ns =
     (if f_le (lit 1000000) ns then fmt 1 (f_div ns (lit 1000000)) @ str '' ms''
      else if f_le (lit 1000) ns then fmt 1 (f_div ns (lit 1000)) @ str '' '' @ [0xB5] @ str ''s''
      else if f_le (lit 1) ns then fmt 0 ns @ str '' ns''
      else fmt 2 ns @ str '' ns'')"

definition fmt_val :: "f64 \<Rightarrow> ustr" where
  "fmt_val v = (if f_le (lit 100) v then fmt 0 v else if f_le (lit 10) v then fmt 1 v else fmt 2 v)"

fun nice_step :: "f64 \<Rightarrow> f64 \<Rightarrow> f64 list \<Rightarrow> f64" where
  "nice_step mag v [] = f_mul mag (lit 10)"
| "nice_step mag v (m # ms) = (if f_le v (f_mul mag m) then f_mul mag m else nice_step mag v ms)"

definition nice_max :: "libm \<Rightarrow> f64 \<Rightarrow> f64" where
  "nice_max L v =
     (if f_le v (lit 0) then lit 1
      else nice_step (m_powf L (lit 10) (f_floor (m_log10 L v))) v [lit 1, lit 2, lit (25 / 10), lit 5, lit 10])"

section \<open>The bar chart\<close>

record bar =
  label :: ustr
  bar_value :: f64
  hero :: bool

datatype better = Higher | Lower

text \<open>\<open>iter().max().unwrap_or(0) as f64\<close>.\<close>

definition widest :: "nat list \<Rightarrow> f64" where
  "widest ns = of_usize (fold max ns 0)"

definition bars_grid :: "f64 \<Rightarrow> f64 \<Rightarrow> f64 \<Rightarrow> f64 \<Rightarrow> f64 \<Rightarrow> nat \<Rightarrow> svg \<Rightarrow> svg" where
  "bars_grid pad_l pad_t plot_w h mx i s =
     (let f = f_div (of_usize i) (lit 4); x = f_add pad_l (f_mul plot_w f) in
      svg_text x (f_sub h (lit 14)) (fmt_val (f_mul mx f)) FAINT (lit 10) Middle 400
       (svg_line x (f_sub pad_t (lit 8)) x (f_sub h (lit 30)) BORDER (lit 1) s))"

definition bars_row :: "f64 \<Rightarrow> f64 \<Rightarrow> f64 \<Rightarrow> f64 \<Rightarrow> f64 \<Rightarrow> f64 \<Rightarrow> nat \<times> bar \<Rightarrow> svg \<Rightarrow> svg" where
  "bars_row pad_l pad_t plot_w mx row gap ib s =
     (let i = fst ib; b = snd ib;
          y = f_add pad_t (f_mul (of_usize i) (f_add row gap));
          bw = f_mul (f_div (bar_value b) mx) plot_w;
          fill = (if hero b then HERO else NEUTRAL);
          ink = (if hero b then TEXT else MUTED);
          s1 = svg_text (f_sub pad_l (lit 14)) (f_add (f_add y (f_div row (lit 2))) (lit 4)) (label b) ink
                 (lit 11) End WEIGHT s;
          s2 = svg_rect pad_l y bw row fill RADIUS s1;
          s3 = (if \<not> hero b then svg_line pad_l y pad_l (f_add y row) NEUTRAL_EDGE (lit 1) s2 else s2) in
      svg_text (f_add (f_add pad_l bw) (lit 10)) (f_add (f_add y (f_div row (lit 2))) (lit 4))
        (fmt_val (bar_value b)) ink (lit 11) Start WEIGHT s3)"

definition bars_max :: "libm \<Rightarrow> bar list \<Rightarrow> f64" where
  "bars_max L bars = nice_max L (fold (\<lambda>b m. f_max m (bar_value b)) bars (lit 0))"

definition bars_chart :: "libm \<Rightarrow> ustr \<Rightarrow> ustr \<Rightarrow> ustr \<Rightarrow> bar list \<Rightarrow> better \<Rightarrow> ustr" where
  "bars_chart L title subtitle units bars better =
     (let widest_label = widest (map (\<lambda>b. length (label b)) bars);
          widest_value = widest (map (\<lambda>b. length (fmt_val (bar_value b))) bars);
          pad_l = f_max (f_add (f_mul widest_label ADV11) (lit 24)) (lit 96);
          pad_r = f_max (f_add (f_mul widest_value ADV11) (lit 24)) (lit 56);
          pad_t = lit 68; row = lit 26; gap = lit 10; w = CANVAS_W;
          plot_w = f_max (f_sub (f_sub w pad_l) pad_r) (lit 200);
          h = f_add (f_add pad_t (f_mul (of_usize (length bars)) (f_add row gap))) (lit 34);
          mx = bars_max L bars;
          s0 = new_svg w h;
          s1 = svg_text (lit 24) (lit 30) title TEXT (lit 15) Start WEIGHT s0;
          s2 = svg_text (lit 24) (lit 46) subtitle FAINT (lit 11) Start WEIGHT s1;
          s3 = fold (bars_grid pad_l pad_t plot_w h mx) [0..<5] s2;
          s4 = svg_text (f_add pad_l (f_div plot_w (lit 2))) (f_sub h (lit 2)) units FAINT (lit 10) Middle 400 s3;
          s5 = fold (bars_row pad_l pad_t plot_w mx row gap) (enumerate 0 bars) s4;
          s6 = svg_line pad_l (f_sub pad_t (lit 8)) pad_l (f_sub h (lit 30)) BORDER_STRONG (lit 1) s5 in
      finish title subtitle s6)"

section \<open>The percentile chart\<close>

record series =
  name :: ustr
  points :: "(f64 \<times> f64) list"

text \<open>A direct label: where it sits, its text and its colour.\<close>

record direct_label =
  lx :: f64
  ly :: f64
  ltext :: ustr
  lcolour :: ustr

text \<open>The axes: the closures \<open>vx\<close>, \<open>xpos\<close> and \<open>ypos\<close> with what they capture.\<close>

definition vx :: "libm \<Rightarrow> f64 \<Rightarrow> f64" where
  "vx L p = m_log10 L (f_div (lit 1) (f_sub (lit 1) p))"

definition all_points :: "series list \<Rightarrow> (f64 \<times> f64) list" where
  "all_points ss = concat (map points ss)"

definition vmax :: "libm \<Rightarrow> series list \<Rightarrow> f64" where
  "vmax L ss = fold (\<lambda>pt m. f_max m (vx L (fst pt))) (all_points ss) (vx L (lit (99 / 100)))"

definition xpos :: "libm \<Rightarrow> series list \<Rightarrow> f64 \<Rightarrow> f64 \<Rightarrow> f64 \<Rightarrow> f64" where
  "xpos L ss pad_l plot_w p =
     (let v0 = vx L (lit (1 / 2)) in
      f_add pad_l (f_mul (f_div (f_sub (vx L p) v0) (f_sub (vmax L ss) v0)) plot_w))"

definition FLOOR :: f64 where "FLOOR = lit (1 / 100)"

definition axis_lo :: "libm \<Rightarrow> series list \<Rightarrow> f64" where
  "axis_lo L ss =
     m_powf L (lit 10) (f_floor (m_log10 L (f_max (fold (\<lambda>pt m. f_min m (snd pt)) (all_points ss) f_MAX) FLOOR)))"

definition axis_hi :: "libm \<Rightarrow> series list \<Rightarrow> f64" where
  "axis_hi L ss =
     m_powf L (lit 10) (f_ceil (m_log10 L
       (f_max (fold (\<lambda>pt m. f_max m (snd pt)) (all_points ss) f_MIN) (f_mul (axis_lo L ss) (lit 10)))))"

definition ypos :: "libm \<Rightarrow> series list \<Rightarrow> f64 \<Rightarrow> f64 \<Rightarrow> f64 \<Rightarrow> f64" where
  "ypos L ss pad_t plot_h ns =
     f_sub (f_add pad_t plot_h)
       (f_mul (f_div (m_log10 L (f_div (f_max ns FLOOR) (axis_lo L ss)))
                     (m_log10 L (f_div (axis_hi L ss) (axis_lo L ss)))) plot_h)"

definition axis_decades :: "libm \<Rightarrow> series list \<Rightarrow> int" where
  "axis_decades L ss = max 0 (min 64 (to_i32 (f_to_int (m_log10 L (f_div (axis_hi L ss) (axis_lo L ss))))))"

definition decade_line :: "libm \<Rightarrow> series list \<Rightarrow> f64 \<Rightarrow> f64 \<Rightarrow> f64 \<Rightarrow> f64 \<Rightarrow> int \<Rightarrow> svg \<Rightarrow> svg" where
  "decade_line L ss pad_l pad_t plot_w plot_h d s =
     (let ns = f_mul (axis_lo L ss) (m_powi L (lit 10) d); y = ypos L ss pad_t plot_h ns in
      svg_text (f_sub pad_l (lit 10)) (f_add y (lit 4)) (fmt_ns ns) FAINT (lit 10) End WEIGHT
       (svg_line pad_l y (f_add pad_l plot_w) y BORDER (lit 1) s))"

definition quoted :: "(f64 \<times> ustr) list" where
  "quoted = [(lit (5 / 10), str ''p50''), (lit (9 / 10), str ''p90''), (lit (99 / 100), str ''p99''),
             (lit (999 / 1000), str ''p99.9''), (lit (9999 / 10000), str ''p99.99'')]"

definition quoted_shown :: "libm \<Rightarrow> series list \<Rightarrow> f64 \<Rightarrow> f64 \<Rightarrow> f64 \<times> ustr \<Rightarrow> bool" where
  "quoted_shown L ss pad_l plot_w q \<longleftrightarrow>
     \<not> f_lt (f_add (f_add pad_l plot_w) (lit 1)) (xpos L ss pad_l plot_w (fst q))"

definition quoted_line :: "libm \<Rightarrow> series list \<Rightarrow> f64 \<Rightarrow> f64 \<Rightarrow> f64 \<Rightarrow> f64 \<Rightarrow> f64 \<times> ustr \<Rightarrow> svg \<Rightarrow> svg" where
  "quoted_line L ss pad_l pad_t plot_w plot_h q s =
     (let x = xpos L ss pad_l plot_w (fst q) in
      if \<not> quoted_shown L ss pad_l plot_w q then s
      else svg_text x (f_add (f_add pad_t plot_h) (lit 18)) (snd q) FAINT (lit 10) Middle WEIGHT
            (svg_line x pad_t x (f_add pad_t plot_h) BORDER (lit 1) s))"

text \<open>One curve, and the label it asks for.\<close>

definition curve :: "libm \<Rightarrow> series list \<Rightarrow> f64 \<Rightarrow> f64 \<Rightarrow> f64 \<Rightarrow> f64 \<Rightarrow> nat \<times> series \<Rightarrow>
    svg \<times> direct_label list \<Rightarrow> svg \<times> direct_label list" where
  "curve L ss pad_l pad_t plot_w plot_h iser st =
     (let i = fst iser; ser = snd iser; s = fst st; labels = snd st;
          colour = SERIES ! (i mod length SERIES);
          pts = map (\<lambda>pt. (xpos L ss pad_l plot_w (fst pt), ypos L ss pad_t plot_h (snd pt))) (points ser);
          s1 = svg_path pts colour (lit 2) s;
          s2 = fold (\<lambda>pt. svg_marker (fst pt) (snd pt) (lit 4) colour BG) pts s1 in
      (s2, if pts = [] then labels
           else labels @ [\<lparr> lx = fst (last pts), ly = snd (last pts), ltext = name ser, lcolour = colour \<rparr>]))"

definition LINE_H :: f64 where "LINE_H = lit 15"

fun push_down :: "direct_label list \<Rightarrow> direct_label list" where
  "push_down (a # b # ls) =
     (let min_y = f_add (ly a) LINE_H in
      a # push_down ((if f_lt (ly b) min_y then b \<lparr> ly := min_y \<rparr> else b) # ls))"
| "push_down ls = ls"

definition pull_up :: "f64 \<Rightarrow> direct_label list \<Rightarrow> direct_label list" where
  "pull_up h ls =
     (if ls = [] then ls
      else let overflow = f_sub (ly (last ls)) (f_sub h (lit 8)) in
           if f_lt (lit 0) overflow then map (\<lambda>l. l \<lparr> ly := f_sub (ly l) overflow \<rparr>) ls else ls)"

definition place_labels :: "f64 \<Rightarrow> direct_label list \<Rightarrow> direct_label list" where
  "place_labels h ls = pull_up h (push_down (sort_key (\<lambda>l. total_key (ly l)) ls))"

definition label_text :: "direct_label \<Rightarrow> svg \<Rightarrow> svg" where
  "label_text l s =
     svg_text (f_add (lx l) (lit 12)) (f_add (ly l) (lit 4)) (ltext l) (lcolour l) (lit 11) Start WEIGHT s"

definition caption :: ustr where
  "caption = str ''percentile (log scale '' @ [0x2014] @ str '' the tail gets the room)''"

definition latency_percentiles :: "libm \<Rightarrow> ustr \<Rightarrow> ustr \<Rightarrow> series list \<Rightarrow> ustr" where
  "latency_percentiles L title subtitle ss =
     (let widest_name = widest (map (\<lambda>s. length (name s)) ss);
          pad_l = lit 74; pad_t = lit 70; pad_b = lit 56;
          pad_r = f_max (f_add (f_mul widest_name ADV11) (lit 28)) (lit 96);
          plot_h = lit 260; w = CANVAS_W;
          plot_w = f_max (f_sub (f_sub w pad_l) pad_r) (lit 200);
          h = f_add (f_add pad_t plot_h) pad_b;
          s0 = new_svg w h;
          s1 = svg_text (lit 24) (lit 30) title TEXT (lit 15) Start WEIGHT s0;
          s2 = svg_text (lit 24) (lit 46) subtitle FAINT (lit 11) Start WEIGHT s1;
          s3 = fold (decade_line L ss pad_l pad_t plot_w plot_h) [0..axis_decades L ss] s2;
          s4 = fold (quoted_line L ss pad_l pad_t plot_w plot_h) quoted s3;
          s5 = svg_text (f_add pad_l (f_div plot_w (lit 2))) (f_sub h (lit 12)) caption FAINT (lit 10) Middle 400 s4;
          st = fold (curve L ss pad_l pad_t plot_w plot_h) (enumerate 0 ss) (s5, []);
          s6 = fold label_text (place_labels h (snd st)) (fst st);
          s7 = svg_line pad_l pad_t pad_l (f_add pad_t plot_h) BORDER_STRONG (lit 1) s6;
          s8 = svg_line pad_l (f_add pad_t plot_h) (f_add pad_l plot_w) (f_add pad_t plot_h) BORDER_STRONG (lit 1) s7 in
      finish title subtitle s8)"

section \<open>What the bar chart contains\<close>

definition texts :: "ustr \<Rightarrow> ustr list" where
  "texts doc = map snd (filter (\<lambda>e. fst e = str ''text'') (elements doc))"

definition row_elems :: "f64 \<Rightarrow> f64 \<Rightarrow> f64 \<Rightarrow> bar \<Rightarrow> (ustr \<times> ustr) list" where
  "row_elems mx plot_w row b =
     [(str ''text'', label b)] @ rect_elem (f_mul (f_div (bar_value b) mx) plot_w) row @
     (if hero b then [] else [(str ''line'', [])]) @ [(str ''text'', fmt_val (bar_value b))]"

lemma draws_bars_grid:
  assumes "draws s es"
  shows "draws (bars_grid pad_l pad_t plot_w h mx i s)
     (es @ [(str ''line'', []), (str ''text'', fmt_val (f_mul mx (f_div (of_usize i) (lit 4))))])"
  using draws_text [OF draws_line [OF assms]] by (simp add: bars_grid_def Let_def)

lemma draws_bars_row:
  assumes "draws s es"
  shows "draws (bars_row pad_l pad_t plot_w mx row gap ib s) (es @ row_elems mx plot_w row (snd ib))"
proof -
  have "plain (if hero (snd ib) then TEXT else MUTED)" "plain (if hero (snd ib) then HERO else NEUTRAL)" by simp_all
  note calls = draws_rect [OF draws_text [OF assms this(1)] this(2)]
  show ?thesis
    unfolding bars_row_def row_elems_def Let_def
    using draws_text [OF calls] draws_text [OF draws_line [OF calls]] by (cases "hero (snd ib)") simp_all
qed

lemma map_enumerate_snd [simp]: "map (\<lambda>x. f (snd x)) (enumerate k xs) = map f xs"
  using map_map [of f snd "enumerate k xs"] by (simp add: comp_def)

lemmas draws_bars_grids =
  draws_fold [where f = "bars_grid pad_l pad_t plot_w h mx", OF _ draws_bars_grid] for pad_l pad_t plot_w h mx

lemmas draws_bars_rows =
  draws_fold [where f = "bars_row pad_l pad_t plot_w mx row gap", OF _ draws_bars_row]
    for pad_l pad_t plot_w mx row gap

lemma elements_bars_chart:
  "\<exists>plot_w row. elements (bars_chart L title subtitle units bars better) =
       doc_head title subtitle @ [(str ''text'', title), (str ''text'', subtitle)] @
       concat (map (\<lambda>i. [(str ''line'', []),
         (str ''text'', fmt_val (f_mul (bars_max L bars) (f_div (of_usize i) (lit 4))))]) [0..<5]) @
       [(str ''text'', units)] @ concat (map (row_elems (bars_max L bars) plot_w row) bars) @ [(str ''line'', [])]"
  unfolding bars_chart_def Let_def
  by (rule exI, rule exI, rule trans, rule elements_finish [OF draws_line [OF draws_bars_rows
        [OF draws_text [OF draws_bars_grids [OF draws_text [OF draws_text [OF draws_new]]]]]]])
     simp_all

definition grid_labels :: "f64 \<Rightarrow> ustr list" where
  "grid_labels mx = map (\<lambda>i. fmt_val (f_mul mx (f_div (of_usize i) (lit 4)))) [0..<5]"

lemma bars_chart_readable:
  "texts (bars_chart L title subtitle units bars better) =
     [title, subtitle] @ grid_labels (bars_max L bars) @ [units] @
     concat (map (\<lambda>b. [label b, fmt_val (bar_value b)]) bars)"
  "set (map fst (elements (bars_chart L title subtitle units bars better))) \<subseteq>
     set (map str [''svg'', ''title'', ''desc'', ''style'', ''rect'', ''line'', ''text''])"
proof -
  obtain plot_w row where els: "elements (bars_chart L title subtitle units bars better) =
       doc_head title subtitle @ [(str ''text'', title), (str ''text'', subtitle)] @
       concat (map (\<lambda>i. [(str ''line'', []),
         (str ''text'', fmt_val (f_mul (bars_max L bars) (f_div (of_usize i) (lit 4))))]) [0..<5]) @
       [(str ''text'', units)] @ concat (map (row_elems (bars_max L bars) plot_w row) bars) @ [(str ''line'', [])]"
    using elements_bars_chart by blast
  have rows: "filter (\<lambda>e. fst e = str ''text'') (row_elems mx plot_w row b) =
      [(str ''text'', label b), (str ''text'', fmt_val (bar_value b))]" for mx b
    by (simp add: row_elems_def rect_elem_def)
  show "texts (bars_chart L title subtitle units bars better) =
     [title, subtitle] @ grid_labels (bars_max L bars) @ [units] @
     concat (map (\<lambda>b. [label b, fmt_val (bar_value b)]) bars)"
    unfolding texts_def els
    by (simp add: doc_head_def grid_labels_def filter_concat map_concat comp_def rows del: upt_Suc str_simps)
       (simp add: upt_rec)
  show "set (map fst (elements (bars_chart L title subtitle units bars better))) \<subseteq>
     set (map str [''svg'', ''title'', ''desc'', ''style'', ''rect'', ''line'', ''text''])"
    unfolding els by (auto simp: doc_head_def row_elems_def rect_elem_def split: if_splits)
qed

section \<open>What the percentile chart contains\<close>

lemma draws_decade_line:
  assumes "draws s es"
  shows "draws (decade_line L ss pad_l pad_t plot_w plot_h d s)
     (es @ [(str ''line'', []), (str ''text'', fmt_ns (f_mul (axis_lo L ss) (m_powi L (lit 10) d)))])"
  using draws_text [OF draws_line [OF assms]] by (simp add: decade_line_def Let_def)

definition quoted_elems :: "libm \<Rightarrow> series list \<Rightarrow> f64 \<Rightarrow> f64 \<Rightarrow> f64 \<times> ustr \<Rightarrow> (ustr \<times> ustr) list" where
  "quoted_elems L ss pad_l plot_w q =
     (if quoted_shown L ss pad_l plot_w q then [(str ''line'', []), (str ''text'', snd q)] else [])"

lemma draws_quoted_line:
  assumes "draws s es"
  shows "draws (quoted_line L ss pad_l pad_t plot_w plot_h q s) (es @ quoted_elems L ss pad_l plot_w q)"
  using draws_text [OF draws_line [OF assms]] assms by (simp add: quoted_line_def quoted_elems_def Let_def)

definition curve_elems :: "nat \<times> series \<Rightarrow> (ustr \<times> ustr) list" where
  "curve_elems iser =
     (if length (points (snd iser)) < 2 then [] else [(str ''path'', [])]) @
     map (\<lambda>_. (str ''circle'', [])) (points (snd iser))"

lemma series_colour: "SERIES ! (i mod length SERIES) \<in> set SERIES"
  by (rule nth_mem) (simp add: SERIES_def)

lemma draws_curve:
  assumes "draws (fst st) es"
  shows "draws (fst (curve L ss pad_l pad_t plot_w plot_h iser st)) (es @ curve_elems iser)"
proof -
  let ?c = "SERIES ! (fst iser mod length SERIES)"
  have c: "plain ?c" using series_colour plain_series by blast
  let ?pts = "map (\<lambda>pt. (xpos L ss pad_l plot_w (fst pt), ypos L ss pad_t plot_h (snd pt))) (points (snd iser))"
  have "draws (fold (\<lambda>pt. svg_marker (fst pt) (snd pt) (lit 4) ?c BG) ?pts (svg_path ?pts ?c (lit 2) (fst st)))
      ((es @ (if length ?pts < 2 then [] else [(str ''path'', [])])) @ concat (map (\<lambda>_. [(str ''circle'', [])]) ?pts))"
    by (rule draws_fold [OF draws_path [OF assms c]]) (simp add: draws_marker c del: str_simps)
  then show ?thesis by (simp add: curve_def Let_def curve_elems_def comp_def)
qed

lemma curve_labels:
  "map ltext (snd (curve L ss pad_l pad_t plot_w plot_h iser st)) =
     map ltext (snd st) @ (if points (snd iser) = [] then [] else [name (snd iser)])"
  "list_all (\<lambda>l. plain (lcolour l)) (snd st) \<Longrightarrow>
   list_all (\<lambda>l. plain (lcolour l)) (snd (curve L ss pad_l pad_t plot_w plot_h iser st))"
  using series_colour plain_series by (auto simp: curve_def Let_def)

definition labelled :: "series list \<Rightarrow> ustr list" where
  "labelled ss = map name (filter (\<lambda>s. points s \<noteq> []) ss)"

lemma draws_curves:
  fixes L ss pad_l pad_t plot_w plot_h
  defines "f \<equiv> curve L ss pad_l pad_t plot_w plot_h"
  assumes "draws (fst st) es" "list_all (\<lambda>l. plain (lcolour l)) (snd st)"
  shows "draws (fst (fold f xs st)) (es @ concat (map curve_elems xs)) \<and>
    map ltext (snd (fold f xs st)) = map ltext (snd st) @ labelled (map snd xs) \<and>
    list_all (\<lambda>l. plain (lcolour l)) (snd (fold f xs st))"
  using assms(2,3)
proof (induction xs arbitrary: st es)
  case (Cons x xs)
  note d = draws_curve [OF Cons.prems(1), of L ss pad_l pad_t plot_w plot_h x, folded f_def]
    and c = curve_labels(2) [OF Cons.prems(2), of L ss pad_l pad_t plot_w plot_h x, folded f_def]
  from Cons.IH [OF d c] show ?case by (simp add: labelled_def f_def curve_labels(1))
qed (simp_all add: labelled_def)

section \<open>The direct labels do not collide\<close>

lemma length_push_down [simp]: "length (push_down ls) = length ls"
  by (induction ls rule: push_down.induct) (auto simp: Let_def)

lemma push_down_keeps:
  "map ltext (push_down ls) = map ltext ls" "map lcolour (push_down ls) = map lcolour ls"
  "map lx (push_down ls) = map lx ls"
  by (induction ls rule: push_down.induct) (auto simp: Let_def)

lemma hd_push_down: "ls \<noteq> [] \<Longrightarrow> hd (push_down ls) = hd ls"
  by (induction ls rule: push_down.induct) (auto simp: Let_def)

definition apart :: "direct_label \<Rightarrow> direct_label \<Rightarrow> bool" where
  "apart a b \<longleftrightarrow> \<not> f_lt (ly b) (f_add (ly a) LINE_H)"

lemma push_down_apart: "successively apart (push_down ls)"
proof (induction ls rule: push_down.induct)
  case (1 a b ls)
  let ?b = "if f_lt (ly b) (f_add (ly a) LINE_H) then b \<lparr> ly := f_add (ly a) LINE_H \<rparr> else b"
  have "apart a ?b" by (simp add: apart_def f_lt_def)
  moreover have "hd (push_down (?b # ls)) = ?b" using hd_push_down by fastforce
  ultimately show ?case using 1 [OF refl] by (simp add: successively_Cons Let_def)
qed simp_all

lemma pull_up_keeps:
  "map ltext (pull_up h ls) = map ltext ls" "map lcolour (pull_up h ls) = map lcolour ls"
  "map lx (pull_up h ls) = map lx ls"
  by (simp_all add: pull_up_def Let_def comp_def)

lemma place_labels_keeps:
  "mset (map (\<lambda>l. (lx l, ltext l, lcolour l)) (place_labels h ls)) = mset (map (\<lambda>l. (lx l, ltext l, lcolour l)) ls)"
proof -
  have zip3: "map (\<lambda>l. (lx l, ltext l, lcolour l)) xs = zip (map lx xs) (zip (map ltext xs) (map lcolour xs))" for xs
    by (simp add: zip_map_map zip_same_conv_map)
  show ?thesis
    unfolding place_labels_def zip3 [of "pull_up _ _"] pull_up_keeps push_down_keeps
    by (simp only: zip3 [symmetric] mset_map mset_sort)
qed

text \<open>
  The labels end up at least a line apart, in float arithmetic; a stack that would leave the canvas is
  moved as a whole.
\<close>

lemma place_labels_apart:
  "\<exists>ls'. successively apart ls' \<and>
     (place_labels h ls = ls' \<or> (\<exists>d. place_labels h ls = map (\<lambda>l. l \<lparr> ly := f_sub (ly l) d \<rparr>) ls'))"
  using push_down_apart by (fastforce simp: place_labels_def pull_up_def Let_def)

lemma draws_labels:
  assumes "draws s es" "list_all (\<lambda>l. plain (lcolour l)) ls"
  shows "draws (fold label_text ls s) (es @ map (\<lambda>l. (str ''text'', ltext l)) ls)"
  using draws_fold [OF assms(1), of ls label_text "\<lambda>l. [(str ''text'', ltext l)]"] assms(2)
  by (simp add: label_text_def draws_text list_all_iff del: str_simps)

lemmas draws_decades =
  draws_fold [where f = "decade_line L ss pad_l pad_t plot_w plot_h", OF _ draws_decade_line]
    for L ss pad_l pad_t plot_w plot_h

lemmas draws_quoteds =
  draws_fold [where f = "quoted_line L ss pad_l pad_t plot_w plot_h", OF _ draws_quoted_line]
    for L ss pad_l pad_t plot_w plot_h

lemma place_labels_list:
  assumes "list_all (\<lambda>l. plain (lcolour l)) ls"
  shows "list_all (\<lambda>l. plain (lcolour l)) (place_labels h ls)"
    "mset (map ltext (place_labels h ls)) = mset (map ltext ls)"
proof -
  have "mset (map lcolour (place_labels h ls)) = mset (map lcolour ls)"
    using arg_cong [OF place_labels_keeps, of "image_mset (snd \<circ> snd)"] by (simp add: comp_def multiset.map_comp)
  then have "set (map lcolour (place_labels h ls)) = set (map lcolour ls)" by (metis set_mset_mset)
  with assms show "list_all (\<lambda>l. plain (lcolour l)) (place_labels h ls)" by (force simp: list_all_iff)
  show "mset (map ltext (place_labels h ls)) = mset (map ltext ls)"
    using arg_cong [OF place_labels_keeps, of "image_mset (fst \<circ> snd)"] by (simp add: comp_def multiset.map_comp)
qed

definition decade_labels :: "libm \<Rightarrow> series list \<Rightarrow> ustr list" where
  "decade_labels L ss = map (\<lambda>d. fmt_ns (f_mul (axis_lo L ss) (m_powi L (lit 10) d))) [0..axis_decades L ss]"

lemma elements_latency:
  "\<exists>pad_l plot_w labels. mset labels = mset (labelled ss) \<and>
     elements (latency_percentiles L title subtitle ss) =
       doc_head title subtitle @ [(str ''text'', title), (str ''text'', subtitle)] @
       concat (map (\<lambda>t. [(str ''line'', []), (str ''text'', t)]) (decade_labels L ss)) @
       concat (map (quoted_elems L ss pad_l plot_w) quoted) @ [(str ''text'', caption)] @
       concat (map curve_elems (enumerate 0 ss)) @ map (\<lambda>t. (str ''text'', t)) labels @
       [(str ''line'', []), (str ''line'', [])]"
proof -
  define pad_l pad_t plot_h h where "pad_l = lit 74" and "pad_t = lit 70" and "plot_h = lit 260"
    and "h = f_add (f_add pad_t plot_h) (lit 56)"
  define plot_w where "plot_w = f_max (f_sub (f_sub CANVAS_W pad_l)
    (f_max (f_add (f_mul (widest (map (\<lambda>s. length (name s)) ss)) ADV11) (lit 28)) (lit 96))) (lit 200)"
  note geo = pad_l_def pad_t_def plot_h_def h_def plot_w_def
  define s5 where "s5 =
     svg_text (f_add pad_l (f_div plot_w (lit 2))) (f_sub h (lit 12)) caption FAINT (lit 10) Middle 400
      (fold (quoted_line L ss pad_l pad_t plot_w plot_h) quoted
        (fold (decade_line L ss pad_l pad_t plot_w plot_h) [0..axis_decades L ss]
          (svg_text (lit 24) (lit 46) subtitle FAINT (lit 11) Start WEIGHT
            (svg_text (lit 24) (lit 30) title TEXT (lit 15) Start WEIGHT (new_svg CANVAS_W h)))))"
  define st where "st = fold (curve L ss pad_l pad_t plot_w plot_h) (enumerate 0 ss) (s5, [])"
  obtain es where es: "draws s5 es" and es_eq: "es = [(str ''text'', title), (str ''text'', subtitle)] @
       concat (map (\<lambda>t. [(str ''line'', []), (str ''text'', t)]) (decade_labels L ss)) @
       concat (map (quoted_elems L ss pad_l plot_w) quoted) @ [(str ''text'', caption)]"
  proof
    have "draws s5 ((((([] @ [(str ''text'', title)]) @ [(str ''text'', subtitle)]) @ concat (map (\<lambda>d. [(str ''line'', []),
       (str ''text'', fmt_ns (f_mul (axis_lo L ss) (m_powi L (lit 10) d)))]) [0..axis_decades L ss])) @
       concat (map (quoted_elems L ss pad_l plot_w) quoted)) @ [(str ''text'', caption)])"
      unfolding s5_def
      by (rule draws_text [OF draws_quoteds [OF draws_decades [OF draws_text [OF draws_text [OF draws_new]]]]])
        (simp_all del: str_simps)
    then show "draws s5 ([(str ''text'', title), (str ''text'', subtitle)] @
       concat (map (\<lambda>t. [(str ''line'', []), (str ''text'', t)]) (decade_labels L ss)) @
       concat (map (quoted_elems L ss pad_l plot_w) quoted) @ [(str ''text'', caption)])"
      by (simp add: decade_labels_def comp_def del: str_simps)
  qed (rule refl)
  have curves: "draws (fst st) (es @ concat (map curve_elems (enumerate 0 ss)))"
    "map ltext (snd st) = labelled ss" "list_all (\<lambda>l. plain (lcolour l)) (snd st)"
    using draws_curves [where st = "(s5, [])" and es = es] es by (simp_all add: st_def)
  note labels = place_labels_list [OF curves(3), of h]
  have doc: "latency_percentiles L title subtitle ss =
     finish title subtitle
      (svg_line pad_l (f_add pad_t plot_h) (f_add pad_l plot_w) (f_add pad_t plot_h) BORDER_STRONG (lit 1)
        (svg_line pad_l pad_t pad_l (f_add pad_t plot_h) BORDER_STRONG (lit 1)
          (fold label_text (place_labels h (snd st)) (fst st))))"
    unfolding latency_percentiles_def Let_def st_def s5_def geo ..
  show ?thesis
    using elements_finish [OF draws_line [OF draws_line [OF draws_labels [OF curves(1) labels(1)]]]] labels(2)
    by (intro exI [of _ pad_l] exI [of _ plot_w] exI [of _ "map ltext (place_labels h (snd st))"])
       (simp add: doc es_eq curves(2) comp_def del: str_simps)
qed

lemma latency_percentiles_readable:
  "\<exists>shown labels. mset labels = mset (labelled ss) \<and> set shown \<subseteq> snd ` set quoted \<and>
     texts (latency_percentiles L title subtitle ss) =
       [title, subtitle] @ decade_labels L ss @ shown @ [caption] @ labels"
  "set (map fst (elements (latency_percentiles L title subtitle ss))) \<subseteq>
     set (map str [''svg'', ''title'', ''desc'', ''style'', ''rect'', ''line'', ''text'', ''path'', ''circle''])"
proof -
  obtain pad_l plot_w labels where l: "mset labels = mset (labelled ss)"
    and els: "elements (latency_percentiles L title subtitle ss) =
       doc_head title subtitle @ [(str ''text'', title), (str ''text'', subtitle)] @
       concat (map (\<lambda>t. [(str ''line'', []), (str ''text'', t)]) (decade_labels L ss)) @
       concat (map (quoted_elems L ss pad_l plot_w) quoted) @ [(str ''text'', caption)] @
       concat (map curve_elems (enumerate 0 ss)) @ map (\<lambda>t. (str ''text'', t)) labels @
       [(str ''line'', []), (str ''line'', [])]"
    using elements_latency by blast
  have curve: "filter (\<lambda>e. fst e = str ''text'') (curve_elems x) = []" for x
    by (simp add: curve_elems_def filter_map comp_def)
  have quoted: "map snd (filter (\<lambda>e. fst e = str ''text'') (quoted_elems L ss pad_l plot_w q)) =
      (if quoted_shown L ss pad_l plot_w q then [snd q] else [])" for q
    by (simp add: quoted_elems_def)
  let ?shown = "concat (map (\<lambda>q. if quoted_shown L ss pad_l plot_w q then [snd q] else []) quoted)"
  have "texts (latency_percentiles L title subtitle ss) =
       [title, subtitle] @ decade_labels L ss @ ?shown @ [caption] @ labels"
    unfolding texts_def els
    by (simp add: filter_concat map_concat comp_def curve quoted filter_map del: str_simps)
       (simp add: doc_head_def)
  moreover have "set ?shown \<subseteq> snd ` set quoted" by auto
  ultimately show "\<exists>shown labels. mset labels = mset (labelled ss) \<and> set shown \<subseteq> snd ` set quoted \<and>
     texts (latency_percentiles L title subtitle ss) =
       [title, subtitle] @ decade_labels L ss @ shown @ [caption] @ labels" using l by blast
  show "set (map fst (elements (latency_percentiles L title subtitle ss))) \<subseteq>
     set (map str [''svg'', ''title'', ''desc'', ''style'', ''rect'', ''line'', ''text'', ''path'', ''circle''])"
    unfolding els by (auto simp: doc_head_def curve_elems_def quoted_elems_def split: if_splits)
qed

text \<open>
  C38. Whatever the titles, labels and values are, the document of a bar chart contains them verbatim, in
  order and once each, and reading it back finds no other element than those drawn: text from the
  data cannot become markup.
\<close>

theorem bars_chart_faithful:
  "take 5 (elements (bars_chart L ti su un bars better)) = doc_head ti su \<and>
   texts (bars_chart L ti su un bars better) =
     [ti, su] @ grid_labels (bars_max L bars) @ [un] @ concat (map (\<lambda>b. [label b, fmt_val (bar_value b)]) bars) \<and>
   set (map fst (elements (bars_chart L ti su un bars better))) \<subseteq>
     set (map str [''svg'', ''title'', ''desc'', ''style'', ''rect'', ''line'', ''text''])"
  using bars_chart_readable [of L ti su un bars better] elements_bars_chart [of L ti su un bars better]
  by (auto simp: doc_head_def)

text \<open>
  Likewise for the percentile chart: it shows the title, the subtitle, the axis labels, the caption
  and the name of every series that has points, each once.
\<close>

theorem latency_percentiles_faithful:
  "take 5 (elements (latency_percentiles L ti su ss)) = doc_head ti su \<and>
   (\<exists>shown labels. mset labels = mset (labelled ss) \<and> set shown \<subseteq> snd ` set quoted \<and>
     texts (latency_percentiles L ti su ss) = [ti, su] @ decade_labels L ss @ shown @ [caption] @ labels) \<and>
   set (map fst (elements (latency_percentiles L ti su ss))) \<subseteq>
     set (map str [''svg'', ''title'', ''desc'', ''style'', ''rect'', ''line'', ''text'', ''path'', ''circle''])"
  using latency_percentiles_readable(1) [of ss L ti su] latency_percentiles_readable(2) [of L ti su ss]
    elements_latency [of ss L ti su] by (auto simp: doc_head_def)

end
