(* ===== verification/Chartgen.thy ===== *)
theory Chartgen
  imports Charts "HOL-Library.List_Lexorder"
begin

text \<open>
  \<open>main.rs\<close> of the chart generator: reading the CSV files, grouping their rows by chart, drawing and
  writing one file per chart. The input directory is the list of its entries with their contents, the
  output directory a map from file names to nodes; the rasteriser (a third-party crate) is a parameter.
  A panic is a value that carries the output directory as the panic leaves it. The output directory
  exists (\<open>create_dir_all\<close> has succeeded), and of the ways a write can fail only a directory in its place
  is modelled: permissions and a full disk are not.
\<close>

section \<open>Strings and ordered maps of the standard library\<close>

definition is_whitespace :: "int \<Rightarrow> bool" where
  "is_whitespace c \<longleftrightarrow> 9 \<le> c \<and> c \<le> 13 \<or> 0x2000 \<le> c \<and> c \<le> 0x200A \<or>
     c \<in> {32, 0x85, 0xA0, 0x1680, 0x2028, 0x2029, 0x202F, 0x205F, 0x3000}"

definition trim :: "ustr \<Rightarrow> ustr" where
  "trim s = rev (dropWhile is_whitespace (rev (dropWhile is_whitespace s)))"

fun split_on :: "int \<Rightarrow> ustr \<Rightarrow> ustr list" where
  "split_on c [] = [[]]"
| "split_on c (x # s) =
     (if x = c then [] # split_on c s
      else (case split_on c s of p # ps \<Rightarrow> (x # p) # ps | [] \<Rightarrow> [[x]]))"

text \<open>\<open>lines\<close>: a line ends at a line feed, which may follow a carriage return; no empty last line.\<close>

definition strip_cr :: "ustr \<Rightarrow> ustr" where
  "strip_cr s = (if s \<noteq> [] \<and> last s = 13 then butlast s else s)"

definition text_lines :: "ustr \<Rightarrow> ustr list" where
  "text_lines s =
     (let ps = split_on 10 s in
      map strip_cr (butlast ps) @ (if last ps = [] then [] else [last ps]))"

text \<open>\<open>splitn(3, ':')\<close>, when it yields three parts.\<close>

definition splitn3 :: "ustr \<Rightarrow> (ustr \<times> ustr \<times> ustr) option" where
  "splitn3 s =
     (case dropWhile (\<lambda>x. x \<noteq> 58) s of [] \<Rightarrow> None
      | _ # r \<Rightarrow>
        (case dropWhile (\<lambda>x. x \<noteq> 58) r of [] \<Rightarrow> None
         | _ # v \<Rightarrow> Some (takeWhile (\<lambda>x. x \<noteq> 58) s, takeWhile (\<lambda>x. x \<noteq> 58) r, v)))"

text \<open>A \<open>BTreeMap\<close> is its entries in key order; \<open>entry k d f\<close> is \<open>entry(k).or_default()\<close> updated by \<open>f\<close>.\<close>

fun entry :: "'k::linorder \<Rightarrow> 'v \<Rightarrow> ('v \<Rightarrow> 'v) \<Rightarrow> ('k \<times> 'v) list \<Rightarrow> ('k \<times> 'v) list" where
  "entry k d f [] = [(k, f d)]"
| "entry k d f ((a, b) # m) =
     (if k < a then (k, f d) # (a, b) # m else if k = a then (a, f b) # m else (a, b) # entry k d f m)"

definition extend_map :: "('k::linorder \<times> 'v) list \<Rightarrow> ('k \<times> 'v) list \<Rightarrow> ('k \<times> 'v) list" where
  "extend_map m new = fold (\<lambda>(k, v). entry k v (\<lambda>_. v)) new m"

section \<open>Reading a CSV file\<close>

record chart_meta =
  title :: ustr
  subtitle :: ustr
  chart_unit :: ustr
  lower_is_better :: bool

definition default_meta :: chart_meta where
  "default_meta = \<lparr> title = [], subtitle = [], chart_unit = [], lower_is_better = False \<rparr>"

definition csv_fields :: "ustr \<Rightarrow> ustr list" where
  "csv_fields line = map trim (split_on 44 line)"

definition set_directive :: "ustr \<Rightarrow> ustr \<Rightarrow> chart_meta \<Rightarrow> chart_meta" where
  "set_directive key val m =
     (if key = str ''title'' then m \<lparr> title := trim val \<rparr>
      else if key = str ''subtitle'' then m \<lparr> subtitle := trim val \<rparr>
      else if key = str ''unit'' then m \<lparr> chart_unit := trim val \<rparr>
      else if key = str ''better'' then m \<lparr> lower_is_better := eq_ignore_ascii_case (trim val) (str ''lower'') \<rparr>
      else m)"

type_synonym metas = "(ustr \<times> chart_meta) list"
type_synonym row = "ustr list"

definition load_line :: "ustr \<Rightarrow> metas \<times> row list \<Rightarrow> metas \<times> row list" where
  "load_line raw st =
     (let line = trim raw in
      if line = [] then st
      else if hd line = 35 then
        (case splitn3 (tl line) of None \<Rightarrow> st
         | Some (key, chart, val) \<Rightarrow>
           (entry (trim chart) default_meta (set_directive (trim key) val) (fst st), snd st))
      else (fst st, snd st @ [csv_fields line]))"

datatype chart_error =
    Unreadable ustr
  | FieldCount row
  | BadNumber ustr
  | NotFinite ustr
  | BadPercentile ustr
  | BadLatency ustr
  | NameClash ustr
  | ThroughSymlink ustr
  | CannotWrite ustr
  | NoInput

definition load :: "ustr \<times> ustr option \<Rightarrow> chart_error + (metas \<times> row list)" where
  "load p = (case snd p of None \<Rightarrow> Inl (Unreadable (fst p))
             | Some raw \<Rightarrow> Inr (fold load_line (text_lines raw) ([], [])))"

fun load_all :: "(ustr \<times> ustr option) list \<Rightarrow> metas \<times> row list \<Rightarrow> chart_error + (metas \<times> row list)" where
  "load_all [] st = Inr st"
| "load_all (p # ps) st =
     (case load p of Inl e \<Rightarrow> Inl e
      | Inr (m, r) \<Rightarrow> load_all ps (extend_map (fst st) m, snd st @ r))"

definition cloned_or_default :: "chart_meta option \<Rightarrow> ustr \<Rightarrow> chart_meta" where
  "cloned_or_default m chart =
     (case m of Some m \<Rightarrow> m \<lparr> title := (if title m = [] then chart else title m) \<rparr>
      | None \<Rightarrow> default_meta \<lparr> title := chart \<rparr>)"

section \<open>Rows to charts\<close>

definition bar_of :: "row \<Rightarrow> chart_error + bar" where
  "bar_of r =
     (if length r < 4 then Inl (FieldCount r)
      else case parse_f64 (r ! 2) of None \<Rightarrow> Inl (BadNumber (r ! 2))
      | Some value \<Rightarrow>
        if \<not> is_finite value then Inl (NotFinite (r ! 2))
        else Inr \<lparr> label = r ! 1, bar_value = value,
                   hero = (r ! 3 = str ''1'' \<or> eq_ignore_ascii_case (r ! 3) (str ''true'')) \<rparr>)"

fun group_bars :: "row list \<Rightarrow> (ustr \<times> bar list) list \<Rightarrow> chart_error + (ustr \<times> bar list) list" where
  "group_bars [] m = Inr m"
| "group_bars (r # rs) m =
     (case bar_of r of Inl e \<Rightarrow> Inl e
      | Inr b \<Rightarrow> group_bars rs (entry (r ! 0) [] (\<lambda>bs. bs @ [b]) m))"

text \<open>Best first: a stable sort by \<open>total_cmp\<close>, its arguments exchanged when higher is better.\<close>

definition sort_bars :: "bool \<Rightarrow> bar list \<Rightarrow> bar list" where
  "sort_bars lower bars =
     (if lower then sort_key (\<lambda>b. total_key (bar_value b)) bars
      else sort_key (\<lambda>b. - total_key (bar_value b)) bars)"

definition bars_doc :: "libm \<Rightarrow> metas \<Rightarrow> ustr \<times> bar list \<Rightarrow> ustr \<times> ustr" where
  "bars_doc L meta cb =
     (let m = cloned_or_default (map_of meta (fst cb)) (fst cb) in
      (fst cb, bars_chart L (title m) (subtitle m) (chart_unit m) (sort_bars (lower_is_better m) (snd cb))
                 (if lower_is_better m then Lower else Higher)))"

fun add_point :: "ustr \<Rightarrow> f64 \<times> f64 \<Rightarrow> series list \<Rightarrow> series list" where
  "add_point nm pt [] = [\<lparr> name = nm, points = [pt] \<rparr>]"
| "add_point nm pt (s # ss) =
     (if name s = nm then s \<lparr> points := points s @ [pt] \<rparr> # ss else s # add_point nm pt ss)"

definition point_of :: "row \<Rightarrow> chart_error + (f64 \<times> f64)" where
  "point_of r =
     (if length r < 4 then Inl (FieldCount r)
      else case parse_f64 (r ! 2) of None \<Rightarrow> Inl (BadNumber (r ! 2))
      | Some p \<Rightarrow>
        (case parse_f64 (r ! 3) of None \<Rightarrow> Inl (BadNumber (r ! 3))
         | Some ns \<Rightarrow>
           if \<not> (is_finite p \<and> f_le (lit 0) p \<and> f_lt p (lit 1)) then Inl (BadPercentile (r ! 2))
           else if \<not> (is_finite ns \<and> f_lt (lit 0) ns) then Inl (BadLatency (r ! 3))
           else Inr (p, ns)))"

fun group_series :: "row list \<Rightarrow> (ustr \<times> series list) list \<Rightarrow> chart_error + (ustr \<times> series list) list" where
  "group_series [] m = Inr m"
| "group_series (r # rs) m =
     (case point_of r of Inl e \<Rightarrow> Inl e
      | Inr pt \<Rightarrow> group_series rs (entry (r ! 0) [] (add_point (r ! 1) pt) m))"

definition sort_points :: "series \<Rightarrow> series" where
  "sort_points s = s \<lparr> points := sort_key (\<lambda>pt. total_key (fst pt)) (points s) \<rparr>"

definition latency_doc :: "libm \<Rightarrow> metas \<Rightarrow> ustr \<times> series list \<Rightarrow> ustr \<times> ustr" where
  "latency_doc L meta cs =
     (let m = cloned_or_default (map_of meta (fst cs)) (fst cs) in
      (fst cs, latency_percentiles L (title m) (subtitle m) (map sort_points (snd cs))))"

section \<open>Writing the charts\<close>

definition slug_char :: "int \<Rightarrow> bool" where
  "slug_char c \<longleftrightarrow> 48 \<le> c \<and> c \<le> 57 \<or> 65 \<le> c \<and> c \<le> 90 \<or> 97 \<le> c \<and> c \<le> 122 \<or> c \<in> {45, 95, 46}"

definition slug :: "ustr \<Rightarrow> ustr" where
  "slug chart =
     (let out = dropWhile (\<lambda>c. c = 46) (map (\<lambda>c. if slug_char c then c else 95) chart) in
      if out = [] then str ''chart'' else out)"

datatype node = SvgFile ustr | PngFile "int list" | OtherFile | Symlink | Directory

record disk =
  files :: "ustr \<rightharpoonup> node"
  written :: "ustr set"

text \<open>What the rasteriser makes of a document: the bytes of the image, or nothing.\<close>

type_synonym rasteriser = "ustr \<Rightarrow> int list option"

definition write_file :: "ustr \<Rightarrow> node \<Rightarrow> disk \<Rightarrow> disk" where
  "write_file p content d = d \<lparr> files := (files d)(p \<mapsto> content) \<rparr>"

definition emit :: "rasteriser \<Rightarrow> ustr \<times> ustr \<Rightarrow> disk \<Rightarrow> (chart_error \<times> disk) + disk" where
  "emit png doc d =
     (let nm = slug (fst doc); svg = snd doc;
          svg_path = nm @ str ''.svg''; png_path = nm @ str ''.png'';
          d1 = d \<lparr> written := insert nm (written d) \<rparr> in
      if nm \<in> written d then Inl (NameClash nm, d)
      else if files d svg_path = Some Symlink then Inl (ThroughSymlink svg_path, d1)
      else if files d png_path = Some Symlink then Inl (ThroughSymlink png_path, d1)
      else if files d svg_path = Some Directory then Inl (CannotWrite svg_path, d1)
      else let d2 = write_file svg_path (SvgFile svg) d1 in
        (case png svg of
           Some bytes \<Rightarrow> Inr (if files d png_path = Some Directory then d2
                              else write_file png_path (PngFile bytes) d2)
         | None \<Rightarrow> Inr d2))"

fun emit_all :: "rasteriser \<Rightarrow> (ustr \<times> ustr) list \<Rightarrow> disk \<Rightarrow> (chart_error \<times> disk) + disk" where
  "emit_all png [] d = Inr d"
| "emit_all png (doc # docs) d =
     (case emit png doc d of Inl e \<Rightarrow> Inl e | Inr d' \<Rightarrow> emit_all png docs d')"

definition sources :: "string \<Rightarrow> (ustr \<times> ustr option) list \<Rightarrow> (ustr \<times> ustr option) list" where
  "sources prefix data =
     sort_key fst (filter (\<lambda>(nm, _). take (length prefix) nm = str prefix \<and>
        4 \<le> length nm \<and> drop (length nm - 4) nm = str ''.csv'') data)"

definition bars_docs :: "libm \<Rightarrow> (ustr \<times> ustr option) list \<Rightarrow> chart_error + (ustr \<times> ustr) list" where
  "bars_docs L data =
     (case load_all (sources ''throughput'' data) ([], []) of Inl e \<Rightarrow> Inl e
      | Inr (meta, rows) \<Rightarrow>
        (case group_bars rows [] of Inl e \<Rightarrow> Inl e
         | Inr per_chart \<Rightarrow> Inr (map (bars_doc L meta) per_chart)))"

definition latency_docs :: "libm \<Rightarrow> (ustr \<times> ustr option) list \<Rightarrow> chart_error + (ustr \<times> ustr) list" where
  "latency_docs L data =
     (case load_all (sources ''latency'' data) ([], []) of Inl e \<Rightarrow> Inl e
      | Inr (meta, rows) \<Rightarrow>
        (case group_series rows [] of Inl e \<Rightarrow> Inl e
         | Inr per_chart \<Rightarrow> Inr (map (latency_doc L meta) per_chart)))"

definition emit_docs :: "rasteriser \<Rightarrow> chart_error + (ustr \<times> ustr) list \<Rightarrow> disk \<Rightarrow> (chart_error \<times> disk) + disk" where
  "emit_docs png docs d = (case docs of Inl e \<Rightarrow> Inl (e, d) | Inr ds \<Rightarrow> emit_all png ds d)"

definition chartgen_main :: "libm \<Rightarrow> rasteriser \<Rightarrow> (ustr \<times> ustr option) list \<Rightarrow> (ustr \<rightharpoonup> node) \<Rightarrow>
    (chart_error \<times> disk) + disk" where
  "chartgen_main L png data out =
     (case emit_docs png (bars_docs L data) \<lparr> files = out, written = {} \<rparr> of Inl e \<Rightarrow> Inl e
      | Inr d \<Rightarrow>
        (case emit_docs png (latency_docs L data) d of Inl e \<Rightarrow> Inl e
         | Inr d' \<Rightarrow> if written d' = {} then Inl (NoInput, d') else Inr d'))"

section \<open>Ordered maps\<close>

abbreviation sorted_map :: "('k::linorder \<times> 'v) list \<Rightarrow> bool" where
  "sorted_map m \<equiv> sorted_wrt (<) (map fst m)"

lemma set_entry_keys: "fst ` set (entry k d f m) = insert k (fst ` set m)"
  by (induction k d f m rule: entry.induct) auto

lemma sorted_entry: "sorted_map m \<Longrightarrow> sorted_map (entry k d f m)"
proof (induction k d f m rule: entry.induct)
  case (2 k d f a b m)
  then show ?case using set_entry_keys [of k d f m] by (auto simp flip: set_map)
qed simp

lemma map_of_below: "\<forall>x\<in>fst ` set m. k < x \<Longrightarrow> map_of m k = None" for k :: "'k::linorder"
  by (auto simp: map_of_eq_None_iff)

lemma map_of_entry:
  "sorted_map m \<Longrightarrow> map_of (entry k d f m) = (map_of m)(k \<mapsto> f (case map_of m k of Some b \<Rightarrow> b | None \<Rightarrow> d))"
proof (induction k d f m rule: entry.induct)
  case (2 k d f a b m)
  have "map_of m k = None" if "k < a" using that 2(2) by (intro map_of_below) (auto intro: less_trans)
  with 2 show ?case by (auto simp: fun_eq_iff split: option.splits)
qed simp

lemma sorted_map_eq:
  assumes "sorted_map m"
  shows "m = map (\<lambda>k. (k, the (map_of m k))) (sorted_list_of_set (dom (map_of m)))"
proof -
  have d: "distinct (map fst m)" using assms strict_sorted_iff by blast
  have "sorted_list_of_set (dom (map_of m)) = map fst m"
    using assms by (simp add: dom_map_of_conv_image_fst sorted_list_of_set.idem_if_sorted_distinct
        strict_sorted_iff flip: set_map)
  moreover have "map (\<lambda>k. (k, the (map_of m k))) (map fst m) = m"
    unfolding map_map using d by (intro map_idI) auto
  ultimately show ?thesis by simp
qed

section \<open>Grouping keeps every row\<close>

text \<open>Both loops over the rows are one: parse, then update the entry of the row's chart.\<close>

fun group :: "(row \<Rightarrow> chart_error + 'b) \<Rightarrow> (row \<Rightarrow> 'b \<Rightarrow> 'c list \<Rightarrow> 'c list) \<Rightarrow> row list \<Rightarrow> (ustr \<times> 'c list) list \<Rightarrow>
    chart_error + (ustr \<times> 'c list) list" where
  "group parse upd [] m = Inr m"
| "group parse upd (r # rs) m =
     (case parse r of Inl e \<Rightarrow> Inl e | Inr b \<Rightarrow> group parse upd rs (entry (r ! 0) [] (upd r b) m))"

lemma group_bars_group: "group_bars rows m = group bar_of (\<lambda>_ b bs. bs @ [b]) rows m"
  by (induction rows arbitrary: m) (auto split: sum.splits)

lemma group_series_group: "group_series rows m = group point_of (\<lambda>r. add_point (r ! 1)) rows m"
  by (induction rows arbitrary: m) (auto split: sum.splits)

fun first_error :: "(row \<Rightarrow> chart_error + 'b) \<Rightarrow> row list \<Rightarrow> chart_error option" where
  "first_error parse [] = None"
| "first_error parse (r # rs) = (case parse r of Inl e \<Rightarrow> Some e | Inr _ \<Rightarrow> first_error parse rs)"

definition chart_ids :: "row list \<Rightarrow> ustr list" where
  "chart_ids rows = sorted_list_of_set ((\<lambda>r. r ! 0) ` set rows)"

definition rows_of :: "ustr \<Rightarrow> row list \<Rightarrow> row list" where
  "rows_of c rows = filter (\<lambda>r. r ! 0 = c) rows"

definition collect :: "(row \<Rightarrow> chart_error + 'b) \<Rightarrow> (row \<Rightarrow> 'b \<Rightarrow> 'c list \<Rightarrow> 'c list) \<Rightarrow> row list \<Rightarrow> 'c list \<Rightarrow> 'c list" where
  "collect parse upd rows = fold (\<lambda>r. upd r (projr (parse r))) rows"

lemma group_step:
  assumes "sorted_map m" "group parse upd rows m = Inr m'"
  shows "first_error parse rows = None \<and> sorted_map m' \<and>
    map_of m' = (\<lambda>c. if rows_of c rows = [] then map_of m c
       else Some (collect parse upd (rows_of c rows) (case map_of m c of Some b \<Rightarrow> b | None \<Rightarrow> [])))"
  using assms
proof (induction rows arbitrary: m)
  case (Cons r rs)
  then obtain b where b: "parse r = Inr b"
    and g: "group parse upd rs (entry (r ! 0) [] (upd r b) m) = Inr m'" by (auto split: sum.splits)
  from Cons.IH [OF sorted_entry [OF Cons.prems(1)] g] b show ?case
    by (auto simp: fun_eq_iff map_of_entry [OF Cons.prems(1)] rows_of_def collect_def)
qed (simp add: rows_of_def)

lemma group_error: "group parse upd rows m = Inl e \<longleftrightarrow> first_error parse rows = Some e"
  by (induction rows arbitrary: m) (auto split: sum.splits)

theorem group_exact:
  "group parse upd rows [] =
     (case first_error parse rows of Some e \<Rightarrow> Inl e
      | None \<Rightarrow> Inr (map (\<lambda>c. (c, collect parse upd (rows_of c rows) [])) (chart_ids rows)))"
proof (cases "group parse upd rows []")
  case (Inl e)
  then show ?thesis using group_error [of parse upd rows "[]" e] by simp
next
  case (Inr m)
  from group_step [OF _ this] have m: "first_error parse rows = None" "sorted_map m"
    "map_of m = (\<lambda>c. if rows_of c rows = [] then None else Some (collect parse upd (rows_of c rows) []))"
    by (simp_all add: fun_eq_iff)
  have "dom (map_of m) = (\<lambda>r. r ! 0) ` set rows"
    by (auto simp: m(3) dom_def rows_of_def filter_empty_conv)
  with sorted_map_eq [OF m(2)] have "m = map (\<lambda>c. (c, the (map_of m c))) (chart_ids rows)"
    by (simp add: chart_ids_def)
  also have "\<dots> = map (\<lambda>c. (c, collect parse upd (rows_of c rows) [])) (chart_ids rows)"
    by (auto simp: m(3) chart_ids_def rows_of_def filter_empty_conv)
  finally show ?thesis using Inr m(1) by simp
qed

lemma collect_bars: "collect bar_of (\<lambda>_ b bs. bs @ [b]) rows bs = bs @ map (\<lambda>r. projr (bar_of r)) rows"
  by (induction rows arbitrary: bs) (simp_all add: collect_def)

section \<open>Best first\<close>

definition better_eq :: "bool \<Rightarrow> bar \<Rightarrow> bar \<Rightarrow> bool" where
  "better_eq lower a b \<longleftrightarrow>
     (if lower then f_val (bar_value a) \<le> f_val (bar_value b) else f_val (bar_value b) \<le> f_val (bar_value a))"

lemma mset_sort_bars: "mset (sort_bars lower bars) = mset bars"
  by (simp add: sort_bars_def)

lemma sorted_key_wrt: "sorted_wrt (\<lambda>a b. f a \<le> f b) (sort_key f xs)"
  using sorted_sort_key [of f xs] by (simp add: sorted_map)

lemma sorted_sort_bars: "sorted_wrt (better_eq lower) (sort_bars lower bars)"
  unfolding sort_bars_def
  by (auto intro!: sorted_wrt_mono_rel [OF _ sorted_key_wrt] total_key_le_val simp: better_eq_def)

section \<open>Output names\<close>

lemma slug_safe:
  "slug c \<noteq> []" "hd (slug c) \<noteq> 46" "list_all slug_char (slug c)"
proof -
  let ?out = "dropWhile (\<lambda>c. c = 46) (map (\<lambda>c. if slug_char c then c else 95) c)"
  have chars: "list_all slug_char ?out"
    by (auto simp: list_all_iff slug_char_def dest!: set_dropWhileD)
  show "slug c \<noteq> []" by (simp add: slug_def Let_def)
  show "hd (slug c) \<noteq> 46"
    using hd_dropWhile [of "\<lambda>c. c = 46" "map (\<lambda>c. if slug_char c then c else 95) c"]
    by (simp add: slug_def Let_def)
  show "list_all slug_char (slug c)" using chars by (simp add: slug_def Let_def) (simp add: slug_char_def)
qed

lemma out_path_inject [simp]:
  "a @ str ''.svg'' = b @ str ''.svg'' \<longleftrightarrow> a = b" "a @ str ''.png'' = b @ str ''.png'' \<longleftrightarrow> a = b"
  "a @ str ''.svg'' \<noteq> b @ str ''.png''" "a @ str ''.png'' \<noteq> b @ str ''.svg''"
  by (auto simp del: str_simps) (auto simp: append_eq_append_conv2 Cons_eq_append_conv)

definition svg_path_of :: "ustr \<Rightarrow> ustr" where
  "svg_path_of nm = nm @ str ''.svg''"

definition png_path_of :: "ustr \<Rightarrow> ustr" where
  "png_path_of nm = nm @ str ''.png''"

definition out_paths :: "ustr set \<Rightarrow> ustr set" where
  "out_paths nms = svg_path_of ` nms \<union> png_path_of ` nms"

lemma path_of_inject [simp]:
  "svg_path_of a = svg_path_of b \<longleftrightarrow> a = b" "png_path_of a = png_path_of b \<longleftrightarrow> a = b"
  "svg_path_of a \<noteq> png_path_of b" "png_path_of a \<noteq> svg_path_of b"
  by (simp_all add: svg_path_of_def png_path_of_def del: str_simps)

section \<open>Writing is confined and complete\<close>

definition final :: "(chart_error \<times> disk) + disk \<Rightarrow> disk" where
  "final r = (case r of Inl (e, d) \<Rightarrow> d | Inr d \<Rightarrow> d)"

lemma final_simps [simp]: "final (Inl (e, d)) = d" "final (Inr d) = d"
  by (simp_all add: final_def)

text \<open>
  What a run has done to the output directory \<open>out\<close>: only paths of charts it has emitted have changed,
  none of them was a link or a directory, and all of them are charts now.
\<close>

definition confined :: "(ustr \<rightharpoonup> node) \<Rightarrow> disk \<Rightarrow> bool" where
  "confined out d \<longleftrightarrow>
     (\<forall>p. files d p \<noteq> out p \<longrightarrow> p \<in> out_paths (written d) \<and> out p \<noteq> Some Symlink \<and> out p \<noteq> Some Directory \<and>
       (\<exists>x. files d p = Some (SvgFile x) \<or> (\<exists>b. files d p = Some (PngFile b)))) \<and>
     written d \<subseteq> range slug"

definition blocked :: "(ustr \<rightharpoonup> node) \<Rightarrow> ustr \<Rightarrow> bool" where
  "blocked fs nm \<longleftrightarrow> fs (svg_path_of nm) \<in> {Some Symlink, Some Directory} \<or> fs (png_path_of nm) = Some Symlink"

lemma confined_kept:
  "confined out d \<Longrightarrow> files d p = Some Symlink \<or> files d p = Some Directory \<Longrightarrow> out p = files d p"
  by (metis confined_def node.distinct option.inject)

lemma confined_blocked: "confined out d \<Longrightarrow> nm \<notin> written d \<Longrightarrow> blocked (files d) nm = blocked out nm"
proof -
  assume c: "confined out d" "nm \<notin> written d"
  have "files d (svg_path_of nm) = out (svg_path_of nm)" "files d (png_path_of nm) = out (png_path_of nm)"
    using c by (auto simp: confined_def out_paths_def)
  then show ?thesis by (simp add: blocked_def)
qed

lemma emit_unfold:
  "emit png (c, svg) d =
     (let nm = slug c; d1 = d \<lparr> written := insert nm (written d) \<rparr>; d2 = write_file (svg_path_of nm) (SvgFile svg) d1 in
      if nm \<in> written d then Inl (NameClash nm, d)
      else if files d (svg_path_of nm) = Some Symlink then Inl (ThroughSymlink (svg_path_of nm), d1)
      else if files d (png_path_of nm) = Some Symlink then Inl (ThroughSymlink (png_path_of nm), d1)
      else if files d (svg_path_of nm) = Some Directory then Inl (CannotWrite (svg_path_of nm), d1)
      else Inr (case png svg of Some bytes \<Rightarrow> if files d (png_path_of nm) = Some Directory then d2
                               else write_file (png_path_of nm) (PngFile bytes) d2
                | None \<Rightarrow> d2))"
  by (simp add: emit_def Let_def svg_path_of_def png_path_of_def del: str_simps split: option.splits)

lemma emit_ok: "(\<exists>d'. emit png doc d = Inr d') \<longleftrightarrow> slug (fst doc) \<notin> written d \<and> \<not> blocked (files d) (slug (fst doc))"
  by (cases doc) (simp add: emit_unfold Let_def blocked_def)

lemma emit_effect:
  assumes "emit png doc d = Inr d'"
  shows "written d' = insert (slug (fst doc)) (written d)"
    "files d' (svg_path_of (slug (fst doc))) = Some (SvgFile (snd doc))"
    "p \<notin> out_paths {slug (fst doc)} \<Longrightarrow> files d' p = files d p"
proof -
  obtain c svg where doc: "doc = (c, svg)" by (cases doc)
  note e = assms [unfolded doc emit_unfold Let_def]
  show "written d' = insert (slug (fst doc)) (written d)"
    "files d' (svg_path_of (slug (fst doc))) = Some (SvgFile (snd doc))"
    "p \<notin> out_paths {slug (fst doc)} \<Longrightarrow> files d' p = files d p"
    using e by (auto simp: doc write_file_def out_paths_def split: if_splits option.splits)
qed

lemma emit_confined:
  assumes "confined out d"
  shows "confined out (final (emit png doc d))"
proof -
  obtain c svg where doc: "doc = (c, svg)" by (cases doc)
  have mono: "confined out (d \<lparr> written := insert (slug c) (written d) \<rparr>)"
    using assms by (auto simp: confined_def out_paths_def)
  have wr: "confined out (write_file p x e)"
    if "confined out e" "p \<in> out_paths (written e)" "files e p \<noteq> Some Symlink" "files e p \<noteq> Some Directory"
      "(\<exists>t. x = SvgFile t) \<or> (\<exists>b. x = PngFile b)" for p x e
  proof -
    have "out p \<noteq> Some Symlink" "out p \<noteq> Some Directory"
      using that(1,3,4) by (metis confined_def)+
    then show ?thesis using that(1,2,5) by (auto simp: confined_def write_file_def)
  qed
  let ?d1 = "d \<lparr> written := insert (slug c) (written d) \<rparr>"
  have paths: "svg_path_of (slug c) \<in> out_paths (written ?d1)" "png_path_of (slug c) \<in> out_paths (written ?d1)"
    by (simp_all add: out_paths_def)
  have svg: "confined out (write_file (svg_path_of (slug c)) (SvgFile svg) ?d1)"
    if "files d (svg_path_of (slug c)) \<noteq> Some Symlink" "files d (svg_path_of (slug c)) \<noteq> Some Directory"
    using wr [OF mono paths(1)] that by simp
  have png: "confined out (write_file (png_path_of (slug c)) (PngFile b) (write_file (svg_path_of (slug c)) (SvgFile svg) ?d1))"
    if "files d (svg_path_of (slug c)) \<noteq> Some Symlink" "files d (svg_path_of (slug c)) \<noteq> Some Directory"
      "files d (png_path_of (slug c)) \<noteq> Some Symlink" "files d (png_path_of (slug c)) \<noteq> Some Directory" for b
    using wr [OF svg [OF that(1,2)], of "png_path_of (slug c)"] that(3,4) paths(2) by (simp add: write_file_def)
  show ?thesis
    using assms mono svg png by (auto simp: doc emit_unfold Let_def split: option.splits)
qed

lemma emit_all_confined: "confined out d \<Longrightarrow> confined out (final (emit_all png docs d))"
proof (induction docs arbitrary: d)
  case (Cons doc docs)
  from emit_confined [OF Cons.prems, of png doc] show ?case
    using Cons.IH by (cases "emit png doc d") auto
qed simp

lemma emit_all_ok:
  "confined out d \<Longrightarrow>
   (\<exists>d'. emit_all png docs d = Inr d') \<longleftrightarrow>
     distinct (map (\<lambda>doc. slug (fst doc)) docs) \<and> (\<lambda>doc. slug (fst doc)) ` set docs \<inter> written d = {} \<and>
     (\<lambda>doc. slug (fst doc)) ` set docs \<inter> Collect (blocked out) = {}"
proof (induction docs arbitrary: d)
  case (Cons doc docs)
  let ?nm = "slug (fst doc)"
  show ?case
  proof (cases "emit png doc d")
    case (Inl e)
    then have "\<not> (?nm \<notin> written d \<and> \<not> blocked (files d) ?nm)" using emit_ok [of png doc d] by auto
    with Inl confined_blocked [OF Cons.prems] show ?thesis by auto
  next
    case (Inr d')
    then have ok: "?nm \<notin> written d" "\<not> blocked out ?nm"
      using emit_ok [of png doc d] confined_blocked [OF Cons.prems] by auto
    have "confined out d'" using emit_confined [OF Cons.prems, of png doc] Inr by simp
    from Cons.IH [OF this] ok show ?thesis by (auto simp: Inr emit_effect(1) [OF Inr])
  qed
qed simp

lemma emit_all_effect:
  assumes "emit_all png docs d = Inr d'"
  shows "written d' = written d \<union> (\<lambda>doc. slug (fst doc)) ` set docs \<and>
    (\<forall>doc\<in>set docs. files d' (svg_path_of (slug (fst doc))) = Some (SvgFile (snd doc))) \<and>
    (\<forall>nm\<in>written d. files d' (svg_path_of nm) = files d (svg_path_of nm))"
  using assms
proof (induction docs arbitrary: d)
  case (Cons doc docs)
  then obtain d1 where d1: "emit png doc d = Inr d1" and rest: "emit_all png docs d1 = Inr d'"
    by (auto split: sum.splits)
  note e = emit_effect [OF d1]
  have new: "slug (fst doc) \<notin> written d" using emit_ok [of png doc d] d1 by blast
  have "files d1 (svg_path_of nm) = files d (svg_path_of nm)" if "nm \<in> written d" for nm
    using e(3) [of "svg_path_of nm"] that new by (auto simp: out_paths_def)
  then show ?case using Cons.IH [OF rest] e(1,2) by auto
qed simp

lemma confined_start: "confined out \<lparr> files = out, written = {} \<rparr>"
  by (simp add: confined_def)

section \<open>Printing and reading a CSV file\<close>

datatype csv_line = Data row | Directive ustr ustr ustr

fun join :: "int \<Rightarrow> ustr list \<Rightarrow> ustr" where
  "join c [] = []"
| "join c [x] = x"
| "join c (x # xs) = x @ c # join c xs"

fun print_line :: "csv_line \<Rightarrow> ustr" where
  "print_line (Data fs) = join 44 fs"
| "print_line (Directive key chart val) = 35 # key @ 58 # chart @ 58 # val"

definition print_csv :: "csv_line list \<Rightarrow> ustr" where
  "print_csv ls = concat (map (\<lambda>l. print_line l @ [10]) ls)"

definition trimmed :: "ustr \<Rightarrow> bool" where
  "trimmed s \<longleftrightarrow> s = [] \<or> \<not> is_whitespace (hd s) \<and> \<not> is_whitespace (last s)"

fun wf_line :: "csv_line \<Rightarrow> bool" where
  "wf_line (Data fs) \<longleftrightarrow>
     list_all (\<lambda>f. trimmed f \<and> 44 \<notin> set f \<and> 10 \<notin> set f) fs \<and> join 44 fs \<noteq> [] \<and> hd (join 44 fs) \<noteq> 35"
| "wf_line (Directive key chart val) \<longleftrightarrow>
     list_all (\<lambda>f. trimmed f \<and> 10 \<notin> set f) [key, chart, val] \<and> 58 \<notin> set key \<and> 58 \<notin> set chart"

fun apply_line :: "csv_line \<Rightarrow> metas \<times> row list \<Rightarrow> metas \<times> row list" where
  "apply_line (Data fs) st = (fst st, snd st @ [fs])"
| "apply_line (Directive key chart val) st = (entry chart default_meta (set_directive key val) (fst st), snd st)"

lemma trim_trimmed: "trimmed s \<Longrightarrow> trim s = s"
proof (cases "s = []")
  case False
  assume t: "trimmed s"
  then have "dropWhile is_whitespace s = s" "dropWhile is_whitespace (rev s) = rev s"
    using False by (simp_all add: trimmed_def dropWhile_eq_self_iff hd_rev)
  then show ?thesis by (simp add: trim_def)
qed (simp add: trim_def)

lemma split_on_end: "c \<notin> set x \<Longrightarrow> split_on c x = [x]"
  by (induction x) auto

lemma split_on_sep: "c \<notin> set x \<Longrightarrow> split_on c (x @ c # r) = x # split_on c r"
  by (induction x) auto

lemma split_on_join: "xs \<noteq> [] \<Longrightarrow> list_all (\<lambda>x. c \<notin> set x) xs \<Longrightarrow> split_on c (join c xs) = xs"
  by (induction c xs rule: join.induct) (auto simp: split_on_end split_on_sep)

lemma set_join: "set (join c xs) \<subseteq> insert c (\<Union> (set ` set xs))"
  by (induction c xs rule: join.induct) auto

lemma last_join: "join c xs \<noteq> [] \<Longrightarrow> last (join c xs) = c \<or> last xs \<noteq> [] \<and> last (join c xs) = last (last xs)"
  by (induction c xs rule: join.induct) (auto simp: last_append split: if_splits)

lemma hd_join: "join c xs \<noteq> [] \<Longrightarrow> hd (join c xs) = c \<or> hd xs \<noteq> [] \<and> hd (join c xs) = hd (hd xs)"
  by (cases "(c, xs)" rule: join.cases) (auto simp: hd_append)

lemma trimmed_print: "wf_line l \<Longrightarrow> trimmed (print_line l) \<and> print_line l \<noteq> [] \<and> 10 \<notin> set (print_line l)"
proof (cases l)
  case (Data fs)
  assume wf: "wf_line l"
  then have ne: "fs \<noteq> []" "join 44 fs \<noteq> []" using Data by auto
  then have "trimmed (hd fs)" "trimmed (last fs)" using wf Data by (auto simp: list_all_iff)
  moreover have "\<not> is_whitespace 44" by (simp add: is_whitespace_def)
  ultimately have "trimmed (join 44 fs)"
    using hd_join [OF ne(2)] last_join [OF ne(2)] by (auto simp: trimmed_def)
  then show ?thesis using wf ne Data set_join [of 44 fs] by (auto simp: list_all_iff)
next
  case (Directive key chart val)
  assume "wf_line l"
  moreover have "\<not> is_whitespace 35" "\<not> is_whitespace 58" by (simp_all add: is_whitespace_def)
  ultimately show ?thesis using Directive by (auto simp: trimmed_def)
qed

lemma load_line_print: "wf_line l \<Longrightarrow> load_line (print_line l) st = apply_line l st"
proof (cases l)
  case (Data fs)
  assume wf: "wf_line l"
  then have "fs \<noteq> []" using Data by auto
  with wf have "split_on 44 (join 44 fs) = fs" "map trim fs = fs"
    using Data split_on_join [of fs 44] by (auto simp: list_all_iff trim_trimmed intro!: map_idI)
  then show ?thesis using wf Data trimmed_print [OF wf] by (auto simp: load_line_def trim_trimmed csv_fields_def)
next
  case (Directive key chart val)
  assume wf: "wf_line l"
  then have "splitn3 (key @ 58 # chart @ 58 # val) = Some (key, chart, val)"
    using Directive by (simp add: splitn3_def)
  then show ?thesis
    using wf Directive trimmed_print [OF wf] by (simp add: load_line_def trim_trimmed)
qed

lemma text_lines_print:
  "list_all wf_line ls \<Longrightarrow> text_lines (print_csv ls) = map print_line ls"
proof -
  assume wf: "list_all wf_line ls"
  have "split_on 10 (print_csv ls) = map print_line ls @ [[]]"
    using wf trimmed_print by (induction ls) (simp_all add: print_csv_def split_on_sep)
  moreover have "strip_cr (print_line l) = print_line l" if "l \<in> set ls" for l
    using trimmed_print [of l] wf that by (auto simp: strip_cr_def trimmed_def list_all_iff is_whitespace_def)
  ultimately show ?thesis by (simp add: text_lines_def)
qed

lemma load_print: "list_all wf_line ls \<Longrightarrow> load (nm, Some (print_csv ls)) = Inr (fold apply_line ls ([], []))"
proof -
  assume wf: "list_all wf_line ls"
  then have "fold load_line (map print_line ls) st = fold apply_line ls st" for st
    by (induction ls arbitrary: st) (simp_all add: load_line_print)
  then show ?thesis by (simp add: load_def text_lines_print [OF wf])
qed

section \<open>Runs of the generator\<close>

lemma emit_docs_confined: "confined out d \<Longrightarrow> confined out (final (emit_docs png docs d))"
  by (cases docs) (simp_all add: emit_docs_def emit_all_confined)

lemma main_confined: "confined out (final (chartgen_main L png data out))"
proof -
  let ?r1 = "emit_docs png (bars_docs L data) \<lparr> files = out, written = {} \<rparr>"
  have c1: "confined out (final ?r1)" by (rule emit_docs_confined [OF confined_start])
  show ?thesis
  proof (cases ?r1)
    case (Inl e)
    with c1 show ?thesis by (simp add: chartgen_main_def)
  next
    case (Inr d)
    with c1 emit_docs_confined [of out d png "latency_docs L data"] show ?thesis
      by (cases "emit_docs png (latency_docs L data) d") (simp_all add: chartgen_main_def)
  qed
qed

lemma emit_all_append:
  "emit_all png (xs @ ys) d = (case emit_all png xs d of Inl e \<Rightarrow> Inl e | Inr d' \<Rightarrow> emit_all png ys d')"
  by (induction xs arbitrary: d) (auto split: sum.splits)

text \<open>A successful run is one pass over all documents.\<close>

lemma main_success:
  "chartgen_main L png data out = Inr d \<longleftrightarrow>
     (\<exists>bd ld. bars_docs L data = Inr bd \<and> latency_docs L data = Inr ld \<and> bd @ ld \<noteq> [] \<and>
        emit_all png (bd @ ld) \<lparr> files = out, written = {} \<rparr> = Inr d)"
proof -
  let ?d0 = "\<lparr> files = out, written = {} \<rparr>"
  have "written d = {} \<longleftrightarrow> bd = [] \<and> ld = []"
    if "emit_all png bd ?d0 = Inr d1" "emit_all png ld d1 = Inr d" for bd ld d1
    using emit_all_effect [OF that(1)] emit_all_effect [OF that(2)] by auto
  then show ?thesis
    by (auto simp: chartgen_main_def emit_docs_def emit_all_append split: sum.splits)
qed

lemma bars_docs_exact:
  "load_all (sources ''throughput'' data) ([], []) = Inr (meta, rows) \<Longrightarrow> first_error bar_of rows = None \<Longrightarrow>
   bars_docs L data = Inr (map (\<lambda>c. bars_doc L meta (c, map (\<lambda>r. projr (bar_of r)) (rows_of c rows))) (chart_ids rows))"
  by (simp add: bars_docs_def group_bars_group group_exact collect_bars comp_def)

text \<open>A document that lists \<open>bars\<close> best first under its title, subtitle and unit.\<close>

definition lists_best_first :: "libm \<Rightarrow> chart_meta \<Rightarrow> bar list \<Rightarrow> ustr \<Rightarrow> bool" where
  "lists_best_first L m bars doc \<longleftrightarrow>
     (\<exists>bs. mset bs = mset bars \<and> sorted_wrt (better_eq (lower_is_better m)) bs \<and>
        texts doc = [title m, subtitle m] @ grid_labels (bars_max L bs) @ [chart_unit m] @
          concat (map (\<lambda>b. [label b, fmt_val (bar_value b)]) bs))"

lemma bars_doc_lists:
  "lists_best_first L (cloned_or_default (map_of meta c) c) bars (snd (bars_doc L meta (c, bars)))"
  unfolding lists_best_first_def bars_doc_def Let_def
  by (rule exI [of _ "sort_bars (lower_is_better (cloned_or_default (map_of meta c) c)) bars"])
    (simp add: mset_sort_bars sorted_sort_bars bars_chart_readable)

text \<open>A small input: one file with one row, and a stand-in for the mathematical library.\<close>

definition sample_libm :: libm where
  "sample_libm = \<lparr> m_log10 = (\<lambda>x. x), m_powf = (\<lambda>x y. y), m_powi = (\<lambda>x k. x) \<rparr>"

definition sample_data :: "(ustr \<times> ustr option) list" where
  "sample_data = [(str ''throughput.csv'', Some (str ''c,l,0,1''))]"

definition sample_rows :: "row list" where
  "sample_rows = [map str [''c'', ''l'', ''0'', ''1'']]"

lemma sample_load: "load_all (sources ''throughput'' sample_data) ([], []) = Inr ([], sample_rows)"
  by (simp add: sample_data_def sample_rows_def sources_def load_def text_lines_def strip_cr_def load_line_def
      trim_def is_whitespace_def csv_fields_def extend_map_def)

lemma sample_ok: "first_error bar_of sample_rows = None"
proof -
  have "parse_f64 (str ''0'') = Some 0" "is_finite 0"
    by (simp_all add: parse_f64_def split_sign_def eq_ignore_ascii_case_def to_lower_def is_digit_def digits_val_def
        parse_exp_def pow10_def f_round_def round_mag_def half_even_def mag_inf_def mk_f64_def is_finite_def f_mag_def)
  then show ?thesis by (simp add: sample_rows_def bar_of_def)
qed

lemma sample_ids: "chart_ids sample_rows = [str ''c'']"
  by (simp add: sample_rows_def chart_ids_def)

lemma sample_run: "\<exists>d. chartgen_main sample_libm (\<lambda>_. None) sample_data Map.empty = Inr d"
proof -
  let ?d0 = "\<lparr> files = Map.empty, written = {} \<rparr>"
  obtain doc where bd: "bars_docs sample_libm sample_data = Inr [doc]"
    using bars_docs_exact [OF sample_load sample_ok, of sample_libm] by (simp add: sample_ids)
  have ld: "latency_docs sample_libm sample_data = Inr []"
    by (simp add: latency_docs_def sample_data_def sources_def)
  have "\<exists>d. emit_all (\<lambda>_. None) [doc] ?d0 = Inr d"
    using emit_all_ok [OF confined_start, of "\<lambda>_. None" "[doc]" Map.empty] by (simp add: blocked_def)
  with bd ld show ?thesis by (auto simp: main_success)
qed

text \<open>
  C39. After loading the throughput files without a bad row, there is one document per chart id, and it
  lists the labels and values of exactly the rows of that chart, best first in the chart's direction.
\<close>

theorem bars_docs_end_to_end:
  assumes "load_all (sources ''throughput'' data) ([], []) = Inr (meta, rows)" "first_error bar_of rows = None"
  shows "\<exists>docs. bars_docs L data = Inr docs \<and> map fst docs = chart_ids rows \<and>
    list_all (\<lambda>d. lists_best_first L (cloned_or_default (map_of meta (fst d)) (fst d))
       (map (\<lambda>r. projr (bar_of r)) (rows_of (fst d) rows)) (snd d)) docs"
proof -
  have "fst (bars_doc L meta cb) = fst cb" for cb by (simp add: bars_doc_def Let_def)
  then show ?thesis
    unfolding bars_docs_exact [OF assms] by (auto simp: list_all_iff comp_def bars_doc_lists simp del: mset_map)
qed

theorem bars_docs_end_to_end_witness:
  "\<exists>docs. bars_docs sample_libm sample_data = Inr docs \<and> map fst docs = [str ''c'']"
proof -
  obtain docs where "bars_docs sample_libm sample_data = Inr docs" "map fst docs = chart_ids sample_rows"
    using bars_docs_end_to_end [OF sample_load sample_ok, of sample_libm] by blast
  then show ?thesis by (simp add: sample_ids)
qed

text \<open>
  C40. In every run, whether it succeeds or panics, only the files of emitted charts change; nothing is
  written through a symbolic link or over a directory, and every file name is a single path component
  that is neither empty nor hidden.
\<close>

theorem chartgen_confined:
  "let d = final (chartgen_main L png data out); changed = {p. files d p \<noteq> out p} in
     changed \<subseteq> out_paths (written d) \<and>
     changed \<inter> {p. out p \<in> {Some Symlink, Some Directory}} = {} \<and>
     written d \<subseteq> {nm. nm \<noteq> [] \<and> hd nm \<noteq> 46 \<and> list_all slug_char nm \<and> 47 \<notin> set nm}"
proof -
  let ?d = "final (chartgen_main L png data out)"
  have c: "confined out ?d" by (rule main_confined)
  have "written ?d \<subseteq> range slug" using c by (simp add: confined_def)
  also have "\<dots> \<subseteq> {nm. nm \<noteq> [] \<and> hd nm \<noteq> 46 \<and> list_all slug_char nm \<and> 47 \<notin> set nm}"
  proof (rule image_subsetI)
    fix x
    show "slug x \<in> {nm. nm \<noteq> [] \<and> hd nm \<noteq> 46 \<and> list_all slug_char nm \<and> 47 \<notin> set nm}"
      using slug_safe [of x] by (auto simp: list_all_iff slug_char_def)
  qed
  finally have "written ?d \<subseteq> {nm. nm \<noteq> [] \<and> hd nm \<noteq> 46 \<and> list_all slug_char nm \<and> 47 \<notin> set nm}" .
  with c show ?thesis by (simp add: Let_def confined_def) blast
qed

text \<open>
  A run succeeds exactly when every file loads, every row parses, there is something to draw, no two
  chart ids map to one output name and no output path is blocked by a link or a directory.
\<close>

theorem chartgen_succeeds_iff:
  "(\<exists>d. chartgen_main L png data out = Inr d) \<longleftrightarrow>
     (\<exists>bd ld. bars_docs L data = Inr bd \<and> latency_docs L data = Inr ld \<and> bd @ ld \<noteq> [] \<and>
        distinct (map (\<lambda>doc. slug (fst doc)) (bd @ ld)) \<and>
        (\<lambda>doc. slug (fst doc)) ` set (bd @ ld) \<inter> Collect (blocked out) = {})"
proof -
  have "distinct (map (\<lambda>doc. slug (fst doc)) docs) \<and>
      (\<lambda>doc. slug (fst doc)) ` set docs \<inter> Collect (blocked out) = {} \<longleftrightarrow>
      (\<exists>d. emit_all png docs \<lparr> files = out, written = {} \<rparr> = Inr d)" for docs
    using emit_all_ok [OF confined_start, of png docs out] by simp
  then show ?thesis unfolding main_success by (simp only:) blast
qed

text \<open>
  After a successful run there is one document per chart of the data, each in its own file, and no
  document has been overwritten by another.
\<close>

theorem chartgen_writes_all:
  assumes "chartgen_main L png data out = Inr d"
  shows "\<exists>bd ld. bars_docs L data = Inr bd \<and> latency_docs L data = Inr ld \<and>
    card (written d) = length (bd @ ld) \<and>
    list_all (\<lambda>doc. files d (svg_path_of (slug (fst doc))) = Some (SvgFile (snd doc))) (bd @ ld)"
proof -
  obtain bd ld where docs: "bars_docs L data = Inr bd" "latency_docs L data = Inr ld"
    and run: "emit_all png (bd @ ld) \<lparr> files = out, written = {} \<rparr> = Inr d"
    using assms main_success by blast
  have "distinct (map (\<lambda>doc. slug (fst doc)) (bd @ ld))"
    using emit_all_ok [OF confined_start, of png "bd @ ld" out] run by blast
  then have "card (written d) = length (bd @ ld)"
    using emit_all_effect [OF run] distinct_card [of "map (\<lambda>doc. slug (fst doc)) (bd @ ld)"] by (simp add: image_Un)
  with docs emit_all_effect [OF run] show ?thesis by (auto simp: list_all_iff)
qed

theorem chartgen_writes_all_witness:
  "\<exists>d. chartgen_main sample_libm (\<lambda>_. None) sample_data Map.empty = Inr d \<and> card (written d) = 1"
proof -
  obtain d where d: "chartgen_main sample_libm (\<lambda>_. None) sample_data Map.empty = Inr d" using sample_run by blast
  have "\<exists>doc. bars_docs sample_libm sample_data = Inr [doc]" "latency_docs sample_libm sample_data = Inr []"
    using bars_docs_exact [OF sample_load sample_ok, of sample_libm]
    by (simp_all add: sample_ids latency_docs_def sample_data_def sources_def)
  with chartgen_writes_all [OF d] d show ?thesis by auto
qed

text \<open>
  Reading a CSV file gives back the directives and rows it was printed from.
\<close>

theorem load_roundtrip:
  "list_all wf_line ls \<Longrightarrow> load (nm, Some (print_csv ls)) = Inr (fold apply_line ls ([], []))"
  by (rule load_print)

theorem load_roundtrip_witness:
  "load (str ''latency.csv'', Some (str ''#title:c:t:1'' @ [10] @ str ''c,s,0.5,9'' @ [10])) =
     Inr ([(str ''c'', default_meta \<lparr> title := str ''t:1'' \<rparr>)], [map str [''c'', ''s'', ''0.5'', ''9'']])"
  using load_roundtrip [of "[Directive (str ''title'') (str ''c'') (str ''t:1''), Data (map str [''c'', ''s'', ''0.5'', ''9''])]"
      "str ''latency.csv''"]
  by (simp add: print_csv_def trimmed_def is_whitespace_def set_directive_def trim_def default_meta_def)

end
