(* ===== verification/Spec2Isabelle.thy ===== *)
theory Spec2Isabelle
  imports Queue_Refinement Mutex RwLock Pool Ring_Wakeups Shot_Threads Triple_Wakeups Bip_Seqlock
    Mpsc_System Mpsc_Wakeups Blocking Chartgen
begin

text \<open>
  Verification of the crate \<open>cynosure\<close>: allocation-light synchronisation primitives for async Rust.
  \<open>site_c\<close> holds the single-threaded primitives of thread-per-core executors, which share state through
  cells, \<open>site_d\<close> the cross-thread ones, which share it through atomics. \<open>tools/chartgen\<close> draws the
  benchmark results.

  \<^bold>\<open>Parts and theories.\<close>
  \<^item> \<open>Prelude\<close>: panics as values (\<open>res\<close>), total correctness (\<open>wp\<close>: the computation returns and its
    result satisfies the postcondition), Rust integers, wakers and \<open>poll\<close>.
  \<^item> \<open>Systems\<close>: states reachable under an arbitrary schedule, the locales \<open>transition_system\<close>,
    \<open>invariant_system\<close>, \<open>simulation\<close> (refinement of one system by another) and \<open>scheduler\<close> (runs of an
    executable step function), and what an executor knows of a live future (the waker of its last
    poll, and whether it has been woken since).
  \<^item> \<open>Deque_Spec\<close>: the contract of a double-ended queue as a locale, with its extension for waiter
    lists. \<open>Queue\<close> models \<open>site_c/queue.rs\<close> and interprets the locale; \<open>Queue_Refinement\<close> shows that
    any sequence of calls on any number of queues behaves as on lists, through the locale
    \<open>call_refinement\<close>.
  \<^item> \<open>Waiters\<close>: registration of futures in a waiter queue (\<open>register_in\<close>, \<open>deregister_in\<close> of
    \<open>site_c/rwlock.rs\<close>), through the interpreted locale only.
  \<^item> \<open>Mutex\<close>, \<open>RwLock\<close>, \<open>Semaphore\<close>, \<open>Pool\<close>: the files of \<open>site_c\<close> of these names. \<open>Pool\<close> runs on the
    semaphore's invariant and on \<open>Buffer\<close>.
  \<^item> \<open>Buffer\<close>: \<open>site_d/buffer.rs\<close> and \<open>site_d/padding.rs\<close>. \<open>Notify\<close>: \<open>site_d/notify.rs\<close>.
    \<open>Slot_Access\<close>: the single accesses of a slot, for threads that are interleaved.
  \<^item> \<open>RingBuf\<close> and \<open>Ring_System\<close>: \<open>site_d/ringbuf.rs\<close>, call by call; \<open>Ring_Threads\<close> and \<open>Ring_Wakeups\<close>: the
    same one shared access at a time. \<open>OneShot\<close> and \<open>Shot_Threads\<close>: \<open>site_d/oneshot.rs\<close>. \<open>TripleBuf\<close>:
    \<open>site_d/triplebuffer.rs\<close>, call by call; \<open>Triple_Threads\<close> and \<open>Triple_Wakeups\<close>: the same one shared
    access at a time. \<open>BipBuf\<close>, \<open>Bip_System\<close> and \<open>Bip_Seqlock\<close>: \<open>site_d/bipbuffer.rs\<close>.
    \<open>Mpsc\<close> and \<open>Mpsc_System\<close>: \<open>site_d/mpsc_light.rs\<close>, call by call; \<open>Mpsc_Threads\<close> and \<open>Mpsc_Wakeups\<close>:
    the same one atomic access at a time, with the spinlock.
  \<^item> \<open>Blocking\<close>: \<open>blocking.rs\<close> and the blocking calls and \<open>io\<close> traits of \<open>site_d/ringbuf.rs\<close>.

  \<^item> \<open>Float64\<close>: \<open>f64\<close> values as 64-bit patterns with correctly rounded arithmetic, decimal input and output,
    and text as code points. \<open>Svg\<close>, \<open>Charts\<close>, \<open>Chartgen\<close>: \<open>svg.rs\<close> with \<open>theme.rs\<close>, \<open>charts.rs\<close> and \<open>main.rs\<close> of
    \<open>tools/chartgen/src\<close>. Logarithm and powers (\<open>libm\<close>) and the rasteriser are parameters.

  \<^bold>\<open>How code becomes definitions.\<close> A struct is a record, an enum a datatype, a method a function that
  returns the new state; the wakers a call wakes are part of its result, in order. \<open>Inl\<close> is a panic
  (assertions, debug assertions, arithmetic overflow, index checks) or the undefined behaviour of
  reading a slot that holds no value: a \<open>MaybeUninit\<close> slot, an \<open>UnsafeCell\<close> or a raw pointer is an
  \<open>option\<close>, and moving out of it leaves \<open>None\<close>, so that a double read or a leak shows up. Indices that
  wrap are 64-bit words; counters that must not wrap are natural numbers with the check written out.
  A waker is identified with the task it wakes (\<open>will_wake\<close> is equality). The allocator is a
  parameter of the constructors. A future is the state it keeps between polls; dropping it is an
  operation of its own.

  \<^bold>\<open>Runs.\<close> Each primitive has a step relation in which any number of futures, guards and permits (for
  \<open>site_d\<close>: one producer and one consumer, or many senders and one receiver) call the operations in
  any order; every theorem about runs holds for all of them. Single-threaded primitives take one step per
  call. \<open>Notify\<close>, \<open>Shot_Threads\<close>, \<open>Ring_Threads\<close>, \<open>Triple_Threads\<close>, \<open>Mpsc_Threads\<close>
  and \<open>Bip_Seqlock\<close> have a relation with one step per atomic access, under sequential consistency: the
  accesses that the wakeup argument relies on are \<open>SeqCst\<close> in the source; the weaker orderings of the other accesses are
  not modelled. The step bound \<open>n < usize_bound\<close> (2 to the 64) of some theorems excludes the wrap-around
  of the \<open>u64\<close> registration tokens, of which a step hands out at most one, and of the bip buffer's epoch.

  \<^bold>\<open>What is shown.\<close> Mutual exclusion, exact reader and permit accounting; that no wakeup is lost (with
  the precise conditions: for the semaphore a steady waker per future, or requests of equal size as in
  the pool); write preference and FIFO order; that a permit of the pool always finds a buffer; FIFO and
  boundedness of the ring with stale private indices and wrapping words; bulk operations equal single
  ones; exclusive access to the waker cell and exactly-once delivery in every interleaving; lossless
  hand-over of the triple buffer; contiguous, disjoint grants and untorn cursor snapshots of the bip
  buffer; data-race freedom and no lost wakeup of the ring, of the oneshot channel, of the triple buffer and
  of the mpsc channel in every interleaving, by simulating the handshake of \<open>Notify\<close> on each of their slots (locale
  \<open>simulation\<close>); mutual exclusion of the mpsc spinlock; global FIFO order, prompt closing and wake hand-over of the mpsc channel; that
  blocking calls return exactly when the other side lets them; absence of panics throughout. For the chart
  generator: what a document says when it is read back, that data cannot become markup, that every row
  is drawn in its chart, best first, and that writing is confined to safe names in the output
  directory. Where the
  code falls short of its documentation a theorem says for every run what the code does instead: a
  re-poll with another waker overtaken in the semaphore's queue, readers stranded by a cancelled writer,
  the progress counter of a completed slice transfer, an overflowing \<open>reserve\<close>.

  \<^bold>\<open>Not modelled.\<close> \<open>hints.rs\<close> (identities and prefetches); \<open>Default\<close>, \<open>AsRef\<close> and other delegating
  impls; \<open>Debug\<close> output apart from its locking; weak memory; \<open>render.rs\<close> (a
  third-party rasteriser), the console output of the chart generator and failures of its file system other
  than a directory in the way; memory exhaustion and the growth policy of \<open>VecDeque\<close>; the addresses of
  buffers; \<open>clone\<close> and \<open>==\<close> of queue elements beyond being functions; benches and tests.
\<close>

end
